(* ===== verification/Prelude.thy ===== *)
theory Prelude
  imports Main "HOL-Library.Word" "HOL-Library.List_Lexorder" "HOL-Library.Char_ord"
    "HOL-Library.Sublist" "HOL-Library.Code_Target_Nat"
begin

text \<open>
  What every component shares: Go's errors as values, effectful functions as explicit
  state passing, the parts of the Go packages \<open>strings\<close> and \<open>strconv\<close> that the sources
  call, and the lemmas about them.

  A Go \<open>string\<close> or \<open>[]byte\<close> is a sequence of bytes: here \<^typ>\<open>string\<close>, a list of 8-bit
  characters.  The order of \<^theory_text>\<open>List_Lexorder\<close> over \<^theory_text>\<open>Char_ord\<close> is Go's byte-wise string
  order.
\<close>

section \<open>Errors\<close>

text \<open>
  The sentinel errors of the sources.  A Go error wraps others (\<open>fmt.Errorf("%w: %w", ...)\<close>,
  \<open>errors.Join\<close>); the message is dropped and what is left is the list of sentinels that
  \<open>errors.Is\<close> finds along the chain.
\<close>

datatype sentinel =
    ErrUnsafe | ErrInvalid | ErrLayout | ErrJournal | ErrUninstalling
  | ErrNotExist | ErrExist | ErrFsInvalid | ErrClosed | ErrNotSupported | ErrTooManyLinks
  | ErrNotDir | ErrIsDir | ErrNotEmpty | ErrIntoItself | ErrMixedKinds | ErrNotSymlink
  | ErrTooLarge | ErrBadLimit | ErrInjected | ErrJSON
  | ErrConfig | ErrPolicy | ErrMigrationFloor | ErrClientTooOld | ErrDowngrade | ErrStale
  | ErrBlocked | ErrDeferred | ErrBusy | ErrMigrate | ErrCheck | ErrDeclined | ErrVerify
  | ErrFloor | ErrClockRollback | ErrStage | ErrIncompleteGC | ErrCanceled | ErrHook
  | ErrNoConfirm | ErrLaunch | ErrSelfRefused | ErrSelfNotWritable | ErrTrust | ErrResolve | ErrStream | ErrExpired | ErrUninstall | ErrIntegrate
  | ErrRefused | ErrKey | ErrRepo | ErrPackConfig | ErrRequest | ErrHelper | ErrDenied | ErrUnsafeRoot | ErrAnchor
  | ErrNet | ErrPermission | ErrElevateDeclined | ErrNotImplemented | ErrDeadline | ErrApp | ErrProxyAuth

type_synonym error = "sentinel list"
type_synonym 'a result = "error + 'a"

definition is_err :: "sentinel \<Rightarrow> error \<Rightarrow> bool" where
  "is_err s e \<longleftrightarrow> s \<in> set e"

lemma is_err_simps [simp]:
  "is_err s [] = False"
  "is_err s (x # e) = (s = x \<or> is_err s e)"
  by (auto simp: is_err_def)

section \<open>Effectful code\<close>

text \<open>
  A Go function with effects takes the world and returns its result or error together with
  the new world.  \<open>bind\<close> is the pattern \<open>x, err := p(); if err != nil { return err }; q(x)\<close>,
  \<open>wrap s p\<close> is \<open>if err := p(); err != nil { return fmt.Errorf("%w: %w", s, err) }\<close>, and
  \<open>attempt p h k\<close> is the general form with its own handling of the error.
\<close>

type_synonym ('w, 'a) prog = "'w \<Rightarrow> 'a result \<times> 'w"

definition ret :: "'a \<Rightarrow> ('w, 'a) prog" where
  "ret x w = (Inr x, w)"

definition throw :: "error \<Rightarrow> ('w, 'a) prog" where
  "throw e w = (Inl e, w)"

definition attempt :: "('w, 'a) prog \<Rightarrow> (error \<Rightarrow> ('w, 'b) prog) \<Rightarrow> ('a \<Rightarrow> ('w, 'b) prog) \<Rightarrow> ('w, 'b) prog" where
  "attempt p h k w = (case p w of (Inl e, w') \<Rightarrow> h e w' | (Inr x, w') \<Rightarrow> k x w')"

definition bind :: "('w, 'a) prog \<Rightarrow> ('a \<Rightarrow> ('w, 'b) prog) \<Rightarrow> ('w, 'b) prog" where
  "bind p k = attempt p throw k"

definition wrap :: "sentinel \<Rightarrow> ('w, 'a) prog \<Rightarrow> ('w, 'a) prog" where
  "wrap s p = attempt p (\<lambda>e. throw (s # e)) ret"

text \<open>\<open>_ = p()\<close>: run for the effect, drop the result.\<close>

definition ignore :: "('w, 'a) prog \<Rightarrow> ('w, unit) prog" where
  "ignore p = attempt p (\<lambda>_. ret ()) (\<lambda>_. ret ())"

definition lift :: "'a result \<Rightarrow> ('w, 'a) prog" where
  "lift r w = (r, w)"

text \<open>A loop over a slice that stops at the first error.\<close>

fun for_each :: "'x list \<Rightarrow> ('x \<Rightarrow> ('w, unit) prog) \<Rightarrow> ('w, unit) prog" where
  "for_each [] f = ret ()"
| "for_each (x # xs) f = bind (f x) (\<lambda>_. for_each xs f)"

named_theorems prog_simps \<open>unfolding of the sequencing combinators\<close>

lemmas [prog_simps] = ret_def throw_def attempt_def bind_def wrap_def ignore_def lift_def

lemma attempt_cases:
  assumes "attempt p h k w = (r, w')"
  obtains e u where "p w = (Inl e, u)" and "h e u = (r, w')"
  | x u where "p w = (Inr x, u)" and "k x u = (r, w')"
  using assms by (auto simp: attempt_def split: prod.splits sum.splits)

lemma bind_Inr:
  "bind p k w = (Inr y, w') \<longleftrightarrow> (\<exists>x u. p w = (Inr x, u) \<and> k x u = (Inr y, w'))"
  by (auto simp: bind_def attempt_def throw_def split: prod.splits sum.splits)

lemma wrap_Inr: "wrap s p w = (Inr y, w') \<longleftrightarrow> p w = (Inr y, w')"
  by (auto simp: wrap_def attempt_def throw_def ret_def split: prod.splits sum.splits)

lemma snd_wrap: "snd (wrap s p w) = snd (p w)"
  by (auto simp: wrap_def attempt_def throw_def ret_def split: prod.splits sum.splits)

lemma snd_ignore: "snd (ignore p w) = snd (p w)"
  by (auto simp: ignore_def attempt_def ret_def split: prod.splits sum.splits)

section \<open>Strings\<close>

abbreviation slash :: char where "slash \<equiv> CHR ''/''"

text \<open>\<open>strings.Split\<close> by a one-byte separator, and \<open>strings.Join\<close>.\<close>

fun split_on :: "char \<Rightarrow> string \<Rightarrow> string list" where
  "split_on c [] = [[]]"
| "split_on c (x # xs) =
     (if x = c then [] # split_on c xs
      else (case split_on c xs of [] \<Rightarrow> [[x]] | y # ys \<Rightarrow> (x # y) # ys))"

fun join_with :: "string \<Rightarrow> string list \<Rightarrow> string" where
  "join_with sep [] = []"
| "join_with sep [x] = x"
| "join_with sep (x # y # ys) = x @ sep @ join_with sep (y # ys)"

lemma split_on_not_Nil [simp]: "split_on c s \<noteq> []"
  by (induction s) (auto split: list.splits)

lemma split_on_no_sep: "e \<in> set (split_on c s) \<Longrightarrow> c \<notin> set e"
  by (induction s arbitrary: e) (auto split: list.splits if_splits)

lemma split_on_single [simp]: "c \<notin> set s \<Longrightarrow> split_on c s = [s]"
  by (induction s) auto

lemma split_on_append: "c \<notin> set s \<Longrightarrow> split_on c (s @ c # t) = s # split_on c t"
  by (induction s) auto

lemma join_with_Cons: "ys \<noteq> [] \<Longrightarrow> join_with sep (x # ys) = x @ sep @ join_with sep ys"
  by (cases ys) auto

lemma split_on_join:
  "es \<noteq> [] \<Longrightarrow> \<forall>e\<in>set es. c \<notin> set e \<Longrightarrow> split_on c (join_with [c] es) = es"
  by (induction es rule: induct_list012) (auto simp: split_on_append)

lemma join_split_on: "join_with [c] (split_on c s) = s"
proof (induction s)
  case (Cons x s)
  then show ?case
    by (cases "split_on c s"; cases "tl (split_on c s)") auto
qed simp

lemma set_join_with: "set (join_with sep es) \<subseteq> set sep \<union> \<Union> (set ` set es)"
  by (induction es rule: induct_list012) auto

lemma elem_in_join: "e \<in> set es \<Longrightarrow> set e \<subseteq> set (join_with sep es)"
  by (induction es rule: induct_list012) auto

lemma join_with_append:
  "xs \<noteq> [] \<Longrightarrow> ys \<noteq> [] \<Longrightarrow> join_with sep (xs @ ys) = join_with sep xs @ sep @ join_with sep ys"
  by (induction xs rule: induct_list012) (auto simp: join_with_Cons)

lemma join_with_eq_Nil: "join_with [c] es = [] \<longleftrightarrow> es = [] \<or> es = [[]]"
  by (cases "([c], es)" rule: join_with.cases) auto

lemma join_inj:
  assumes "join_with [c] xs = join_with [c] ys"
    and "xs \<noteq> []" "ys \<noteq> []" "\<forall>e\<in>set xs. c \<notin> set e" "\<forall>e\<in>set ys. c \<notin> set e"
  shows "xs = ys"
  using assms split_on_join by metis

text \<open>\<open>strings.Cut\<close> by one byte: before, after, whether the separator was found.\<close>

definition cut :: "char \<Rightarrow> string \<Rightarrow> string \<times> string \<times> bool" where
  "cut c s = (let b = takeWhile (\<lambda>x. x \<noteq> c) s in
     if c \<in> set s then (b, drop (Suc (length b)) s, True) else (s, [], False))"

text \<open>\<open>strings.IndexByte(s, c) >= 0\<close> followed by \<open>s[:i]\<close> and \<open>s[i+1:]\<close>.\<close>

definition before :: "char \<Rightarrow> string \<Rightarrow> string" where
  "before c s = takeWhile (\<lambda>x. x \<noteq> c) s"

definition after :: "char \<Rightarrow> string \<Rightarrow> string" where
  "after c s = drop (Suc (length (before c s))) s"

lemma before_after: "c \<in> set s \<Longrightarrow> s = before c s @ c # after c s"
proof (induction s)
  case (Cons x s)
  then show ?case by (auto simp: before_def after_def)
qed simp

lemma takeWhile_until: "c \<notin> set xs \<Longrightarrow> takeWhile (\<lambda>x. x \<noteq> c) (xs @ c # ys) = xs"
  by (induction xs) auto

lemma dropWhile_until: "c \<notin> set xs \<Longrightarrow> dropWhile (\<lambda>x. x \<noteq> c) (xs @ c # ys) = c # ys"
  by (induction xs) auto

lemma takeWhile_none: "c \<notin> set xs \<Longrightarrow> takeWhile (\<lambda>x. x \<noteq> c) xs = xs"
  by (induction xs) auto

lemma before_no_sep: "c \<notin> set (before c s)"
  by (auto simp: before_def dest: set_takeWhileD)

text \<open>\<open>strings.CutPrefix\<close> and \<open>strings.CutSuffix\<close>.\<close>

definition cut_prefix :: "string \<Rightarrow> string \<Rightarrow> string option" where
  "cut_prefix p s = (if prefix p s then Some (drop (length p) s) else None)"

definition cut_suffix :: "string \<Rightarrow> string \<Rightarrow> string option" where
  "cut_suffix p s = (if suffix p s then Some (take (length s - length p) s) else None)"

lemma cut_prefix_Some: "cut_prefix p s = Some t \<longleftrightarrow> s = p @ t"
  by (auto simp: cut_prefix_def prefix_def)

lemma cut_suffix_Some: "cut_suffix p s = Some t \<longleftrightarrow> s = t @ p"
  by (auto simp: cut_suffix_def suffix_def)

section \<open>Characters and decimal numbers\<close>

definition is_digit :: "char \<Rightarrow> bool" where
  "is_digit c \<longleftrightarrow> c \<in> set ''0123456789''"

definition is_lower :: "char \<Rightarrow> bool" where
  "is_lower c \<longleftrightarrow> c \<in> set ''abcdefghijklmnopqrstuvwxyz''"

definition is_upper :: "char \<Rightarrow> bool" where
  "is_upper c \<longleftrightarrow> c \<in> set ''ABCDEFGHIJKLMNOPQRSTUVWXYZ''"

definition to_upper :: "char \<Rightarrow> char" where
  "to_upper c = (if is_lower c then char_of (of_char c - 32 :: nat) else c)"

definition digit_val :: "char \<Rightarrow> nat" where
  "digit_val c = length (takeWhile (\<lambda>d. d \<noteq> c) ''0123456789'')"

definition digit_char :: "nat \<Rightarrow> char" where
  "digit_char n = ''0123456789'' ! n"

definition num_of :: "string \<Rightarrow> nat" where
  "num_of s = foldl (\<lambda>n c. 10 * n + digit_val c) 0 s"

fun show_nat :: "nat \<Rightarrow> string" where
  "show_nat n = (if n < 10 then [digit_char n] else show_nat (n div 10) @ [digit_char (n mod 10)])"

declare show_nat.simps [simp del]

definition show_int :: "int \<Rightarrow> string" where
  "show_int i = (if i < 0 then CHR ''-'' # show_nat (nat (- i)) else show_nat (nat i))"

lemma digit_chars: "\<forall>n\<in>set [0..<10]. is_digit (digit_char n) \<and> digit_val (digit_char n) = n"
  by code_simp

lemma digit_char_digit: "n < 10 \<Longrightarrow> is_digit (digit_char n)"
  using digit_chars by simp

lemma digit_vals: "\<forall>c\<in>set ''0123456789''. digit_val c < 10 \<and> digit_char (digit_val c) = c \<and> (c = CHR ''0'' \<or> 0 < digit_val c)"
  by code_simp

lemma digit_val_less: "is_digit c \<Longrightarrow> digit_val c < 10"
  and digit_char_val: "is_digit c \<Longrightarrow> digit_char (digit_val c) = c"
  and digit_val_pos: "is_digit c \<Longrightarrow> c \<noteq> CHR ''0'' \<Longrightarrow> 0 < digit_val c"
  using digit_vals unfolding is_digit_def by blast+

lemma digit_val_char: "n < 10 \<Longrightarrow> digit_val (digit_char n) = n"
  using digit_chars by simp

lemma num_of_snoc: "num_of (s @ [c]) = 10 * num_of s + digit_val c"
  by (simp add: num_of_def)

lemma num_of_show_nat: "num_of (show_nat n) = n"
proof (induction n rule: show_nat.induct)
  case (1 n)
  show ?case
  proof (cases "n < 10")
    case True
    then show ?thesis by (simp add: show_nat.simps [of n] num_of_def digit_val_char)
  next
    case False
    then show ?thesis
      using "1.IH" by (simp add: show_nat.simps [of n] num_of_snoc digit_val_char)
  qed
qed

lemma show_nat_digits: "\<forall>c\<in>set (show_nat n). is_digit c"
proof (induction n rule: show_nat.induct)
  case (1 n)
  show ?case
  proof (cases "n < 10")
    case True
    then show ?thesis by (simp add: show_nat.simps [of n] digit_char_digit)
  next
    case False
    have "is_digit (digit_char (n mod 10))" by (simp add: digit_char_digit)
    with False "1.IH" show ?thesis by (simp add: show_nat.simps [of n])
  qed
qed

lemma show_nat_not_Nil [simp]: "show_nat n \<noteq> []"
  by (subst show_nat.simps) simp

lemma show_nat_inj: "show_nat a = show_nat b \<Longrightarrow> a = b"
  using num_of_show_nat by metis

end
