(* ===== verification/GoPath.thy ===== *)
theory GoPath
  imports Prelude
begin

text \<open>
  Go's \<open>path\<close> package as far as the sources call it, and on top of it the path vocabulary of
  \<open>core/fsx/path.go\<close>.  The host is a POSIX build: \<open>filepath.ToSlash\<close> is the identity there
  and \<open>filepath.IsAbs\<close> asks for a leading slash.
\<close>

section \<open>Package path\<close>

text \<open>
  \<open>path.Clean\<close>: empty elements and \<open>.\<close> vanish, an inner \<open>..\<close> takes the element before it,
  a \<open>..\<close> at the start of a rooted path vanishes.  The stack is reversed.
\<close>

fun norm_elems :: "bool \<Rightarrow> string list \<Rightarrow> string list \<Rightarrow> string list" where
  "norm_elems rooted st [] = rev st"
| "norm_elems rooted st (e # es) =
     (if e = [] \<or> e = ''.'' then norm_elems rooted st es
      else if e = ''..'' then
        (case st of
           [] \<Rightarrow> norm_elems rooted (if rooted then [] else [''..'']) es
         | t # ts \<Rightarrow> norm_elems rooted (if t = ''..'' then ''..'' # st else ts) es)
      else norm_elems rooted (e # st) es)"

definition rooted :: "string \<Rightarrow> bool" where
  "rooted s \<longleftrightarrow> prefix ''/'' s"

definition path_clean :: "string \<Rightarrow> string" where
  "path_clean s =
     (let es = norm_elems (rooted s) [] (split_on slash s) in
      if rooted s then slash # join_with ''/'' es
      else if es = [] then ''.'' else join_with ''/'' es)"

definition path_join :: "string list \<Rightarrow> string" where
  "path_join es =
     (let ne = filter (\<lambda>e. e \<noteq> []) es in
      if ne = [] then [] else path_clean (join_with ''/'' ne))"

text \<open>\<open>path.Dir\<close>: everything up to the last slash, cleaned.\<close>

definition path_dir :: "string \<Rightarrow> string" where
  "path_dir s = path_clean (rev (dropWhile (\<lambda>c. c \<noteq> slash) (rev s)))"

definition path_base :: "string \<Rightarrow> string" where
  "path_base s =
     (if s = [] then ''.''
      else let t = rev (dropWhile (\<lambda>c. c = slash) (rev s)) in
        if t = [] then ''/'' else rev (takeWhile (\<lambda>c. c \<noteq> slash) (rev t)))"

section \<open>core/fsx/path.go\<close>

definition Slash :: "string \<Rightarrow> string" where
  "Slash name = name"

definition Join :: "string list \<Rightarrow> string" where
  "Join elem = path_join (map Slash (filter (\<lambda>e. e \<noteq> []) elem))"

definition Dir :: "string \<Rightarrow> string" where
  "Dir name = path_dir (Slash name)"

definition Base :: "string \<Rightarrow> string" where
  "Base name = path_base (Slash name)"

definition Clean_path :: "string \<Rightarrow> string" where
  "Clean_path name = path_clean (Slash name)"

definition Split :: "string \<Rightarrow> string list" where
  "Split name = split_on slash (Clean_path name)"

definition isDriveLetter :: "char \<Rightarrow> bool" where
  "isDriveLetter c \<longleftrightarrow> is_lower c \<or> is_upper c"

definition IsAbs :: "string \<Rightarrow> bool" where
  "IsAbs name =
     (let s = Slash name; bs = char_of (92 :: nat) in
      if prefix ''/'' s \<or> prefix [bs] s then True
      else if 3 \<le> length s \<and> isDriveLetter (s ! 0) \<and> s ! 1 = CHR '':'' \<and>
              (s ! 2 = slash \<or> s ! 2 = bs) then True
      else prefix ''/'' name)"

section \<open>Element lists\<close>

text \<open>
  A name that survives cleaning: not empty, not \<open>.\<close> or \<open>..\<close>, without a slash.  A rooted clean
  path is \<open>abs_path es\<close> for simple \<open>es\<close>; all reasoning about paths goes over \<open>es\<close>.
\<close>

definition simple :: "string \<Rightarrow> bool" where
  "simple e \<longleftrightarrow> e \<noteq> [] \<and> e \<noteq> ''.'' \<and> e \<noteq> ''..'' \<and> slash \<notin> set e"

definition simples :: "string list \<Rightarrow> bool" where
  "simples es \<longleftrightarrow> (\<forall>e\<in>set es. simple e)"

definition abs_path :: "string list \<Rightarrow> string" where
  "abs_path es = slash # join_with ''/'' es"

named_theorems path_simps \<open>paths as element lists\<close>

lemma simples_simps [simp]:
  "simples []"
  "simples (e # es) = (simple e \<and> simples es)"
  "simples (xs @ ys) = (simples xs \<and> simples ys)"
  by (auto simp: simples_def)

lemma simple_no_slash: "simple e \<Longrightarrow> slash \<notin> set e"
  by (simp add: simple_def)

lemma simples_no_slash: "simples es \<Longrightarrow> \<forall>e\<in>set es. slash \<notin> set e"
  by (auto simp: simples_def simple_def)

lemma norm_simples: "simples es \<Longrightarrow> norm_elems r st es = rev st @ es"
  by (induction es arbitrary: st) (auto simp: simple_def)

lemma simples_join_Nil: "simples es \<Longrightarrow> join_with ''/'' es = [] \<longleftrightarrow> es = []"
  by (auto simp: join_with_eq_Nil simple_def)

lemma split_abs_path: "simples es \<Longrightarrow>
  split_on slash (abs_path es) = [] # (if es = [] then [[]] else es)"
  by (auto simp: abs_path_def split_on_join simples_no_slash)

lemma rooted_abs_path [simp]: "rooted (abs_path es)"
  by (simp add: rooted_def abs_path_def)

lemma clean_abs_path [simp]: "simples es \<Longrightarrow> path_clean (abs_path es) = abs_path es"
  by (cases "es = []") (simp_all add: path_clean_def split_abs_path norm_simples, simp_all add: abs_path_def)

lemma abs_path_inj: "simples xs \<Longrightarrow> simples ys \<Longrightarrow> abs_path xs = abs_path ys \<longleftrightarrow> xs = ys"
proof -
  assume a: "simples xs" "simples ys"
  have "xs = ys" if "abs_path xs = abs_path ys"
  proof (cases "xs = [] \<or> ys = []")
    case True
    with a that show ?thesis
      using simples_join_Nil [OF a(1)] simples_join_Nil [OF a(2)] by (auto simp: abs_path_def)
  next
    case False
    with a that show ?thesis
      using join_inj [of slash xs ys] by (simp add: abs_path_def simples_no_slash)
  qed
  then show ?thesis by blast
qed

lemma norm_rooted_simples:
  "\<forall>e\<in>set es. slash \<notin> set e \<Longrightarrow> simples st \<Longrightarrow> simples (norm_elems True st es)"
proof (induction es arbitrary: st)
  case Nil
  then show ?case by (simp add: simples_def)
next
  case (Cons e es)
  then show ?case
    by (cases st) (auto simp: simple_def split: if_splits)
qed

lemma clean_rooted:
  assumes "rooted s"
  obtains es where "simples es" and "path_clean s = abs_path es"
proof -
  have "simples (norm_elems True [] (split_on slash s))"
    by (rule norm_rooted_simples) (auto dest: split_on_no_sep)
  with assms that show ?thesis by (simp add: path_clean_def abs_path_def Let_def)
qed

lemma join_abs_path:
  assumes "simples rs" and "simples es" and "es \<noteq> []"
  shows "path_clean (join_with ''/'' (abs_path rs # es)) = abs_path (rs @ es)"
proof -
  let ?s = "join_with ''/'' (abs_path rs # es)"
  have s: "?s = slash # join_with ''/'' rs @ slash # join_with ''/'' es"
    using assms(3) by (simp add: join_with_Cons abs_path_def)
  have "split_on slash ?s = [] # (if rs = [] then [[]] else rs) @ es"
  proof (cases "rs = []")
    case True
    then show ?thesis unfolding s using assms by (simp add: split_on_join simples_no_slash)
  next
    case False
    then have "join_with ''/'' rs @ slash # join_with ''/'' es = join_with ''/'' (rs @ es)"
      using assms(3) by (simp add: join_with_append)
    then show ?thesis
      unfolding s using assms False split_on_join [of "rs @ es" slash]
      by (simp add: simples_no_slash ball_Un)
  qed
  moreover have "rooted ?s" by (simp add: s rooted_def)
  ultimately show ?thesis
    using assms by (simp add: path_clean_def norm_simples abs_path_def)
qed

lemma simples_filter: "simples es \<Longrightarrow> filter (\<lambda>e. e \<noteq> []) es = es"
  by (induction es) (auto simp: simple_def)

lemma Join_abs [path_simps]:
  "simples rs \<Longrightarrow> simples es \<Longrightarrow> es \<noteq> [] \<Longrightarrow> Join (abs_path rs # es) = abs_path (rs @ es)"
proof -
  assume a: "simples rs" "simples es" "es \<noteq> []"
  have "map Slash es = es" by (simp add: Slash_def map_idI)
  moreover have "filter (\<lambda>e. e \<noteq> []) (abs_path rs # es) = abs_path rs # es"
    using a by (simp add: simples_filter abs_path_def)
  ultimately show ?thesis
    using a join_abs_path [OF a] by (simp add: Join_def path_join_def Slash_def)
qed

lemma Dir_abs [path_simps]:
  assumes "simples rs" and "simple e"
  shows "path_dir (abs_path (rs @ [e])) = abs_path rs"
proof -
  have e: "slash \<notin> set (rev e)" using assms(2) by (auto simp: simple_def)
  show ?thesis
  proof (cases "rs = []")
    case True
    have "dropWhile (\<lambda>c. c \<noteq> slash) (rev e @ [slash]) = [slash]"
      using e by (rule dropWhile_until)
    with True show ?thesis
      by (simp add: path_dir_def abs_path_def path_clean_def rooted_def)
  next
    case False
    have "abs_path (rs @ [e]) = abs_path rs @ slash # e"
      using False by (simp add: abs_path_def join_with_append)
    then have "rev (dropWhile (\<lambda>c. c \<noteq> slash) (rev (abs_path (rs @ [e])))) = abs_path rs @ [slash]"
      using dropWhile_until [OF e, of "rev (abs_path rs)"] by simp
    moreover have "path_clean (abs_path rs @ [slash]) = abs_path rs"
    proof -
      have j: "join_with ''/'' (rs @ [[]]) = join_with ''/'' rs @ ''/''"
        using False by (simp add: join_with_append)
      have "split_on slash (join_with ''/'' (rs @ [[]])) = rs @ [[]]"
        using assms(1) by (intro split_on_join) (auto simp: simples_def simple_def)
      then have sp: "split_on slash (abs_path rs @ [slash]) = [] # rs @ [[]]"
        using j by (simp add: abs_path_def)
      have "norm_elems True st (rs @ [[]]) = rev st @ rs" for st
        using assms(1) by (induction rs arbitrary: st) (auto simp: simple_def)
      then show ?thesis
        using sp by (simp add: path_clean_def abs_path_def rooted_def)
    qed
    ultimately show ?thesis by (simp add: path_dir_def)
  qed
qed

lemma path_base_end:
  assumes "simple e"
  shows "path_base (u @ slash # e) = e" and "path_base e = e"
proof -
  have n: "slash \<notin> set (rev e)" and ne: "e \<noteq> []" using assms by (auto simp: simple_def)
  obtain c r where c: "rev e = c # r" "c \<noteq> slash"
    using n ne by (cases "rev e") auto
  then have d: "dropWhile (\<lambda>c. c = slash) (rev e @ v) = rev e @ v" for v by simp
  have "rev (takeWhile (\<lambda>c. c \<noteq> slash) (rev e @ slash # rev u)) = e"
    using takeWhile_until [OF n] by simp
  then show "path_base (u @ slash # e) = e"
    using d by (simp add: path_base_def)
  have "rev (takeWhile (\<lambda>c. c \<noteq> slash) (rev e)) = e"
    by (simp only: takeWhile_none [OF n] rev_rev_ident)
  then show "path_base e = e"
    using d [of "[]"] ne by (simp add: path_base_def)
qed

lemma path_base_abs [path_simps]:
  assumes "simple e"
  shows "path_base (abs_path (rs @ [e])) = e"
proof -
  obtain u where "abs_path (rs @ [e]) = u @ slash # e"
    by (cases "rs = []") (auto simp: abs_path_def join_with_append)
  with assms show ?thesis by (simp add: path_base_end)
qed

section \<open>Clean paths\<close>

text \<open>A path is clean when \<open>path.Clean\<close> leaves it alone; the parent of a clean path is clean.\<close>

definition is_clean :: "string \<Rightarrow> bool" where
  "is_clean p \<longleftrightarrow> path_clean p = p"

lemma norm_length: "length (norm_elems r st es) \<le> length st + length es"
proof (induction r st es rule: norm_elems.induct)
  case (2 r st e es)
  then show ?case by (cases st) (auto split: if_splits)
qed simp

lemma norm_append: "norm_elems r st (xs @ ys) = norm_elems r (rev (norm_elems r st xs)) ys"
proof (induction r st xs rule: norm_elems.induct)
  case (2 r st e es)
  then show ?case by (cases st) auto
qed simp

lemma norm_subset: "set (norm_elems r st es) \<subseteq> set st \<union> set es"
proof (induction r st es rule: norm_elems.induct)
  case (2 r st e es)
  then show ?case by (cases st) (auto split: if_splits)
qed simp

lemma norm_fixed_butlast:
  assumes "norm_elems r [] (xs @ [e]) = xs @ [e]"
  shows "norm_elems r [] xs = xs"
proof -
  let ?st = "norm_elems r [] xs"
  have step: "norm_elems r (rev ?st) [e] = xs @ [e]" using assms by (simp add: norm_append)
  have "length ?st \<le> length xs" using norm_length [of r "[]" xs] by simp
  moreover have "length (norm_elems r (rev ?st) [e]) = Suc (length xs)" using step by simp
  ultimately have l: "length (norm_elems r (rev ?st) [e]) = Suc (length ?st)"
    using norm_length [of r "rev ?st" "[e]"] by simp
  then have "norm_elems r (rev ?st) [e] = ?st @ [e]"
    by (cases "rev ?st") (auto split: if_splits)
  then show ?thesis using step by simp
qed

text \<open>The shape of a relative clean path.\<close>

definition rel_path :: "string list \<Rightarrow> string" where
  "rel_path es = (if es = [] then ''.'' else join_with ''/'' es)"

definition rel_normal :: "string list \<Rightarrow> bool" where
  "rel_normal es \<longleftrightarrow> norm_elems False [] es = es \<and> (\<forall>e\<in>set es. slash \<notin> set e)"

lemma norm_no_empty: "[] \<notin> set st \<Longrightarrow> [] \<notin> set (norm_elems r st es)"
proof (induction r st es rule: norm_elems.induct)
  case (2 r st e es)
  then show ?case by (cases st) auto
qed simp

lemma rel_normal_nonempty: "rel_normal es \<Longrightarrow> e \<in> set es \<Longrightarrow> e \<noteq> []"
  using norm_no_empty [of "[]" False es] by (auto simp: rel_normal_def)

lemma norm_step:
  "norm_elems r (rev a) [e] = a \<or> norm_elems r (rev a) [e] = a @ [e] \<or>
   (a \<noteq> [] \<and> norm_elems r (rev a) [e] = butlast a)"
  by (cases a rule: rev_cases) auto

lemma norm_idem: "norm_elems r [] (norm_elems r [] es) = norm_elems r [] es"
proof (induction es rule: rev_induct)
  case (snoc e es)
  let ?a = "norm_elems r [] es"
  have a: "norm_elems r [] (es @ [e]) = norm_elems r (rev ?a) [e]" by (simp add: norm_append)
  consider "norm_elems r (rev ?a) [e] = ?a" | "norm_elems r (rev ?a) [e] = ?a @ [e]"
    | "norm_elems r (rev ?a) [e] = butlast ?a" "?a \<noteq> []"
    using norm_step [of r ?a e] by blast
  then show ?case
  proof cases
    case 1
    then show ?thesis using a snoc by simp
  next
    case 2
    then show ?thesis using a snoc by (metis norm_append)
  next
    case 3
    have "norm_elems r [] (butlast ?a @ [last ?a]) = butlast ?a @ [last ?a]"
      using 3 snoc by simp
    from norm_fixed_butlast [OF this] show ?thesis using a 3 by simp
  qed
qed simp

lemma path_clean_rel:
  assumes "\<not> rooted s"
  obtains es where "rel_normal es" "path_clean s = rel_path es"
proof -
  let ?es = "norm_elems False [] (split_on slash s)"
  have "rel_normal ?es"
    using norm_subset [of False "[]" "split_on slash s"]
    by (auto simp: rel_normal_def norm_idem dest: split_on_no_sep)
  moreover have "path_clean s = rel_path ?es"
    using assms by (simp add: path_clean_def rel_path_def)
  ultimately show ?thesis using that by blast
qed

lemma rel_path_not_rooted: "rel_normal es \<Longrightarrow> \<not> rooted (rel_path es)"
proof (cases es)
  case (Cons e es')
  moreover assume "rel_normal es"
  ultimately show ?thesis
    using rel_normal_nonempty [of es e]
    by (cases es'; cases e) (auto simp: rooted_def rel_path_def rel_normal_def)
qed (simp add: rooted_def rel_path_def)

lemma clean_rel_path [simp]: "rel_normal es \<Longrightarrow> path_clean (rel_path es) = rel_path es"
proof (cases "es = []")
  case True
  then show ?thesis by (simp add: rel_path_def path_clean_def rooted_def)
next
  case False
  moreover assume r: "rel_normal es"
  ultimately have "split_on slash (rel_path es) = es"
    by (simp add: rel_path_def rel_normal_def split_on_join)
  with r False rel_path_not_rooted [OF r] show ?thesis
    by (simp add: path_clean_def rel_normal_def) (simp add: rel_path_def)
qed

lemma path_clean_idem [simp]: "path_clean (path_clean s) = path_clean s"
proof (cases "rooted s")
  case True
  then obtain es where "simples es" "path_clean s = abs_path es" by (rule clean_rooted)
  then show ?thesis by simp
next
  case False
  then obtain es where "rel_normal es" "path_clean s = rel_path es" by (rule path_clean_rel)
  then show ?thesis by simp
qed

lemma is_clean_path_clean [simp]: "is_clean (path_clean s)"
  by (simp add: is_clean_def)

lemma is_clean_cases:
  assumes "is_clean p"
  obtains es where "simples es" "p = abs_path es" | es where "rel_normal es" "p = rel_path es"
  using assms clean_rooted [of p] path_clean_rel [of p] by (metis is_clean_def)

lemma rel_normal_butlast: "rel_normal (es @ [e]) \<Longrightarrow> rel_normal es"
  by (auto simp: rel_normal_def dest: norm_fixed_butlast)

lemma path_dir_join:
  assumes "slash \<notin> set e"
  shows "path_dir (u @ slash # e) = path_clean (u @ [slash])"
proof -
  have "slash \<notin> set (rev e)" using assms by simp
  from dropWhile_until [OF this, of "rev u"] show ?thesis by (simp add: path_dir_def)
qed

lemma clean_trailing_slash:
  assumes "rel_normal es" "es \<noteq> []"
  shows "path_clean (join_with ''/'' es @ [slash]) = join_with ''/'' es"
proof -
  have j: "join_with ''/'' es @ [slash] = join_with ''/'' (es @ [[]])"
    using assms by (simp add: join_with_append)
  have sp: "split_on slash (join_with ''/'' (es @ [[]])) = es @ [[]]"
    using assms by (intro split_on_join) (auto simp: rel_normal_def)
  have nr: "\<not> rooted (join_with ''/'' es @ [slash])"
    using rel_path_not_rooted [OF assms(1)] assms rel_normal_nonempty [OF assms(1)]
    by (cases "join_with ''/'' es") (auto simp: rooted_def rel_path_def join_with_eq_Nil)
  show ?thesis
    using nr sp assms by (simp add: path_clean_def j norm_append rel_normal_def)
qed

lemma last_slash_prefix:
  assumes "u @ slash # e = a @ slash # t" "slash \<notin> set e"
  shows "a = u \<or> prefix (a @ ''/'') u"
proof -
  from assms(1) consider us where "u = a @ us" "us @ slash # e = slash # t"
    | us where "a = u @ us" "slash # e = us @ slash # t"
    by (auto simp: append_eq_append_conv2)
  then show ?thesis
  proof cases
    case 1
    then show ?thesis by (cases us) (auto simp: prefix_def)
  next
    case 2
    then show ?thesis using assms(2) by (cases us) auto
  qed
qed

text \<open>
  The ancestors of a clean path are its parent and the ancestors of the parent: what makes
  \<open>requireDir\<close>, which looks at the parent only, enough.
\<close>

lemma clean_ancestor:
  assumes c: "is_clean p" and a: "a \<noteq> []" "prefix (a @ ''/'') p"
  shows "a = path_dir p \<or> prefix (a @ ''/'') (path_dir p)"
  using c
proof (cases rule: is_clean_cases)
  case (1 es)
  obtain t where t: "p = a @ slash # t" using a(2) by (auto simp: prefix_def)
  have "es \<noteq> []"
    using t a(1) 1 by (auto simp: abs_path_def Cons_eq_append_conv)
  then obtain xs e where es: "es = xs @ [e]" by (metis append_butlast_last_id)
  then have s: "simples xs" "simple e" using 1 by auto
  have d: "path_dir p = abs_path xs" using 1 es s by (simp add: Dir_abs)
  have ns: "slash \<notin> set e" using s by (simp add: simple_def)
  show ?thesis
  proof (cases "xs = []")
    case True
    then have "slash # e = a @ slash # t" using t 1 es by (simp add: abs_path_def)
    then show ?thesis using a(1) ns by (auto simp: Cons_eq_append_conv append_eq_Cons_conv)
  next
    case False
    then have "abs_path xs @ slash # e = a @ slash # t"
      using t 1 es by (simp add: abs_path_def join_with_append)
    from last_slash_prefix [OF this ns] d show ?thesis by simp
  qed
next
  case (2 es)
  obtain t where t: "p = a @ slash # t" using a(2) by (auto simp: prefix_def)
  have "es \<noteq> []"
    using t a(1) 2 by (auto simp: rel_path_def Cons_eq_append_conv)
  then obtain xs e where es: "es = xs @ [e]" by (metis append_butlast_last_id)
  have ns: "slash \<notin> set e" using 2 es by (simp add: rel_normal_def)
  have "xs \<noteq> []"
  proof
    assume "xs = []"
    then have "e = a @ slash # t" using t 2 es by (simp add: rel_path_def)
    then show False using ns by simp
  qed
  then have p: "p = join_with ''/'' xs @ slash # e"
    using 2 es by (simp add: rel_path_def join_with_append)
  have rx: "rel_normal xs" using 2 es rel_normal_butlast by blast
  have d: "path_dir p = join_with ''/'' xs"
    using ns p clean_trailing_slash [OF rx \<open>xs \<noteq> []\<close>] by (simp add: path_dir_join)
  have "join_with ''/'' xs @ slash # e = a @ slash # t" using t p by simp
  from last_slash_prefix [OF this ns] d show ?thesis by simp
qed

end
