(* ===== verification/Safepath.thy ===== *)
theory Safepath
  imports GoPath
begin

text \<open>
  \<open>internal/safepath/safepath.go\<close>: the single validator for untrusted install-relative
  destination paths.  \<open>strings.ToUpper\<close> is modelled on ASCII; the only other characters it
  maps into ASCII (U+0131 and U+017F) become \<open>I\<close> and \<open>S\<close>, which no reserved name contains, so
  the lookup in \<open>reservedWindows\<close> has the same outcome.
\<close>

section \<open>The validator\<close>

definition MaxLen :: nat where
  "MaxLen = 1024"

definition reservedWindows :: "string list" where
  "reservedWindows =
     [''CON'', ''PRN'', ''AUX'', ''NUL'',
      ''COM1'', ''COM2'', ''COM3'', ''COM4'', ''COM5'', ''COM6'', ''COM7'', ''COM8'', ''COM9'',
      ''LPT1'', ''LPT2'', ''LPT3'', ''LPT4'', ''LPT5'', ''LPT6'', ''LPT7'', ''LPT8'', ''LPT9'']"

abbreviation nul_char :: char where "nul_char \<equiv> CHR 0x00"
abbreviation backslash :: char where "backslash \<equiv> CHR 0x5C"

text \<open>The body of the loop over the elements of the cleaned path.\<close>

definition check_elem :: "string \<Rightarrow> unit result" where
  "check_elem elem =
     (if elem = [] then Inl [ErrUnsafe]
      else if elem = ''.'' \<or> elem = ''..'' then Inl [ErrUnsafe]
      else if suffix '' '' elem \<or> suffix ''.'' elem then Inl [ErrUnsafe]
      else if map to_upper (before CHR ''.'' elem) \<in> set reservedWindows then Inl [ErrUnsafe]
      else Inr ())"

fun check_elems :: "string list \<Rightarrow> unit result" where
  "check_elems [] = Inr ()"
| "check_elems (e # es) = (case check_elem e of Inl x \<Rightarrow> Inl x | Inr _ \<Rightarrow> check_elems es)"

definition Clean :: "string \<Rightarrow> string result" where
  "Clean dst =
     (if dst = [] then Inl [ErrUnsafe]
      else if length dst > MaxLen then Inl [ErrUnsafe]
      else if nul_char \<in> set dst then Inl [ErrUnsafe]
      else if backslash \<in> set dst then Inl [ErrUnsafe]
      else if prefix ''/'' dst then Inl [ErrUnsafe]
      else if CHR '':'' \<in> set dst then Inl [ErrUnsafe]
      else let cleaned = path_clean dst in
        if cleaned = ''.'' \<or> cleaned = ''..'' \<or> prefix ''../'' cleaned then Inl [ErrUnsafe]
        else if prefix ''/'' cleaned then Inl [ErrUnsafe]
        else (case check_elems (split_on slash cleaned) of
            Inl e \<Rightarrow> Inl e
          | Inr _ \<Rightarrow> Inr cleaned))"

definition CleanTarget :: "string \<Rightarrow> string result" where
  "CleanTarget target = Clean target"

section \<open>What an accepted path is\<close>

text \<open>
  The specification: one or more elements, none of which is empty, a dot element, ends in a
  dot or a space, or names a Windows device; no byte of the whole is a NUL, a backslash or a
  colon; at most \<open>MaxLen\<close> bytes.
\<close>

definition good_elem :: "string \<Rightarrow> bool" where
  "good_elem e \<longleftrightarrow> simple e \<and> last e \<noteq> CHR '' '' \<and> last e \<noteq> CHR ''.'' \<and>
     map to_upper (before CHR ''.'' e) \<notin> set reservedWindows \<and>
     nul_char \<notin> set e \<and> backslash \<notin> set e \<and> CHR '':'' \<notin> set e"

definition safe_rel :: "string \<Rightarrow> string list \<Rightarrow> bool" where
  "safe_rel c es \<longleftrightarrow> es \<noteq> [] \<and> c = join_with ''/'' es \<and> (\<forall>e\<in>set es. good_elem e) \<and> length c \<le> MaxLen"

lemma suffix_single: "e \<noteq> [] \<Longrightarrow> suffix [c] e \<longleftrightarrow> last e = c"
  by (auto simp: suffix_def) (metis append_butlast_last_id)

lemma check_elem_Inr:
  "check_elem e = Inr u \<longleftrightarrow> e \<noteq> [] \<and> e \<noteq> ''.'' \<and> e \<noteq> ''..'' \<and> last e \<noteq> CHR '' '' \<and>
     last e \<noteq> CHR ''.'' \<and> map to_upper (before CHR ''.'' e) \<notin> set reservedWindows"
  by (auto simp: check_elem_def suffix_single)

lemma check_elems_Inr: "check_elems es = Inr u \<longleftrightarrow> (\<forall>e\<in>set es. check_elem e = Inr ())"
  by (induction es) (auto split: sum.splits)

text \<open>Cleaning never lengthens a relative path: the weight of an element is its length and one slash.\<close>

lemma norm_elems_weight:
  "(\<Sum>e\<leftarrow>norm_elems r st es. length e + 1) \<le> (\<Sum>e\<leftarrow>st @ es. length e + 1)"
proof (induction r st es rule: norm_elems.induct)
  case (1 r st)
  then show ?case by (simp flip: rev_map add: sum_list_rev)
next
  case (2 r st e es)
  show ?case
  proof (cases "e = [] \<or> e = ''.''")
    case True
    then show ?thesis using "2.IH"(1) by auto
  next
    case F: False
    show ?thesis
    proof (cases "e = ''..''")
      case True
      show ?thesis
      proof (cases st)
        case Nil
        then show ?thesis using F True "2.IH"(2) by auto
      next
        case (Cons t ts)
        then show ?thesis using F True "2.IH"(3) by auto
      qed
    next
      case False
      then show ?thesis using F "2.IH"(4) by auto
    qed
  qed
qed

lemma length_join: "es \<noteq> [] \<Longrightarrow> length (join_with ''/'' es) + 1 = (\<Sum>e\<leftarrow>es. length e + 1)"
  by (induction es rule: induct_list012) auto

lemma join_not_rooted: "simples es \<Longrightarrow> \<not> prefix ''/'' (join_with ''/'' es)"
proof (cases es)
  case (Cons e es')
  moreover assume "simples es"
  ultimately show ?thesis
    by (cases es'; cases e) (auto simp: simple_def)
qed simp

lemma join_first: "es \<noteq> [] \<Longrightarrow> slash \<notin> set e \<Longrightarrow> simples es \<Longrightarrow>
  prefix (e @ ''/'') (join_with ''/'' es) \<Longrightarrow> hd es = e"
proof -
  assume a: "es \<noteq> []" "slash \<notin> set e" "simples es" "prefix (e @ ''/'') (join_with ''/'' es)"
  then obtain t where "join_with ''/'' es = e @ slash # t" by (auto simp: prefix_def)
  then have "split_on slash (join_with ''/'' es) = e # split_on slash t"
    using a(2) by (simp add: split_on_append)
  then show ?thesis using a(1,3) split_on_join [of es slash] by (simp add: simples_no_slash)
qed

lemma path_clean_simples:
  assumes "es \<noteq> []" "simples es"
  shows "path_clean (join_with ''/'' es) = join_with ''/'' es"
  using assms join_not_rooted [OF assms(2)] split_on_join [of es slash] norm_simples [OF assms(2)]
  by (simp add: path_clean_def rooted_def simples_no_slash)

lemma good_simples: "\<forall>e\<in>set es. good_elem e \<Longrightarrow> simples es"
  by (simp add: simples_def good_elem_def)

lemma Clean_Inr_iff: "Clean dst = Inr c \<longleftrightarrow>
  dst \<noteq> [] \<and> length dst \<le> MaxLen \<and> nul_char \<notin> set dst \<and> backslash \<notin> set dst \<and> CHR '':'' \<notin> set dst \<and>
  \<not> prefix ''/'' dst \<and> c = path_clean dst \<and> c \<noteq> ''.'' \<and> c \<noteq> ''..'' \<and> \<not> prefix ''../'' c \<and> \<not> prefix ''/'' c \<and>
  (\<forall>e\<in>set (split_on slash c). check_elem e = Inr ())"
  by (auto simp: Clean_def Let_def check_elems_Inr split: sum.splits if_splits)
    (metis check_elems_Inr old.sum.exhaust old.unit.exhaust sum.disc)+

lemma safe_rel_intro:
  assumes "Clean dst = Inr c"
  shows "safe_rel c (split_on slash c)"
proof -
  let ?es = "split_on slash c" and ?ns = "norm_elems False [] (split_on slash dst)"
  note a = assms [unfolded Clean_Inr_iff]
  have ns: "?ns \<noteq> []" "c = join_with ''/'' ?ns"
    using a by (auto simp: path_clean_def rooted_def Let_def split: if_splits)
  have sub: "set ?ns \<subseteq> set (split_on slash dst)"
    using norm_subset [of False "[]" "split_on slash dst"] by simp
  then have "\<forall>e\<in>set ?ns. slash \<notin> set e" by (auto dest: split_on_no_sep)
  with ns have es: "?es = ?ns" using split_on_join [of ?ns slash] by simp
  have "length c + 1 \<le> (\<Sum>e\<leftarrow>split_on slash dst. length e + 1)"
    using norm_elems_weight [of False "[]" "split_on slash dst"] length_join [OF ns(1)] ns(2) by simp
  also have "\<dots> = length dst + 1"
    using length_join [of "split_on slash dst"] by (simp add: join_split_on)
  finally have len: "length c \<le> MaxLen" using a by simp
  have "good_elem e" if e: "e \<in> set ?es" for e
  proof -
    have "set e \<subseteq> set dst"
      using sub es e elem_in_join [of e "split_on slash dst" "''/''"] by (auto simp: join_split_on)
    moreover have "slash \<notin> set e" using e by (rule split_on_no_sep)
    ultimately show ?thesis
      using a e by (auto simp: good_elem_def check_elem_Inr simple_def)
  qed
  then show ?thesis using len by (simp add: safe_rel_def join_split_on)
qed

lemma safe_rel_Clean:
  assumes "safe_rel c es"
  shows "Clean c = Inr c"
proof -
  note s = assms [unfolded safe_rel_def]
  then have si: "simples es" by (simp add: good_simples)
  have sp: "split_on slash c = es"
    using s si split_on_join [of es slash] by (simp add: simples_no_slash)
  have chars: "ch \<notin> set c" if "ch \<noteq> slash" "\<forall>e\<in>set es. ch \<notin> set e" for ch
    using s that set_join_with [of "''/''" es] by auto
  have dots: "c \<noteq> d" if "\<not> simple d" "slash \<notin> set d" for d
    using sp that si by (auto simp: simples_def)
  have pre: "\<not> prefix ''../'' c"
    using join_first [of es "''..''"] s si by (cases es) (auto simp: simple_def)
  have "c \<noteq> []" using s simples_join_Nil [OF si] by simp
  moreover have "nul_char \<notin> set c" "backslash \<notin> set c" "CHR '':'' \<notin> set c"
    using s chars [of nul_char] chars [of backslash] chars [of "CHR '':''"]
    by (simp_all add: good_elem_def)
  moreover have "\<forall>e\<in>set (split_on slash c). check_elem e = Inr ()"
    unfolding sp using s by (simp add: good_elem_def check_elem_Inr simple_def)
  moreover have "path_clean c = c" "\<not> prefix ''/'' c"
    using s path_clean_simples [OF _ si] join_not_rooted [OF si] by simp_all
  moreover have "length c \<le> MaxLen" using s by blast
  moreover have "c \<noteq> ''.''" "c \<noteq> ''..''"
    using dots [of "''.''"] dots [of "''..''"] by (simp_all add: simple_def)
  ultimately show ?thesis
    unfolding Clean_Inr_iff using pre by simp
qed

section \<open>Properties\<close>

text \<open>
  C36. Confinement of accepted destinations: a path \<open>Clean\<close> accepts is a non-empty sequence
  of proper names, so joining it to any absolute install root gives exactly the root extended
  by those names: no accepted path leaves the root by its own text.
\<close>

theorem Clean_confined:
  assumes "Clean dst = Inr c" and "simples rs"
  shows "\<exists>es. es \<noteq> [] \<and> simples es \<and> c = join_with ''/'' es \<and>
    Join [abs_path rs, c] = abs_path (rs @ es)"
proof -
  let ?es = "split_on slash c"
  have s: "safe_rel c ?es" using assms(1) by (rule safe_rel_intro)
  then have si: "simples ?es" and c: "c = join_with ''/'' ?es"
    by (simp_all add: safe_rel_def good_simples)
  have "c \<noteq> []" using c simples_join_Nil [OF si] by simp
  then have "Join [abs_path rs, c] = path_clean (join_with ''/'' [abs_path rs, c])"
    by (simp add: Join_def path_join_def Slash_def abs_path_def)
  also have "join_with ''/'' [abs_path rs, c] = join_with ''/'' (abs_path rs # ?es)"
    using c by (simp add: join_with_Cons)
  also have "path_clean \<dots> = abs_path (rs @ ?es)"
    using join_abs_path [OF assms(2) si] by simp
  finally show ?thesis using si c by (intro exI [of _ ?es]) simp
qed

theorem Clean_confined_witness:
  "Clean ''bin/./app.exe'' = Inr ''bin/app.exe'' \<and> simples [''opt'', ''acme''] \<and>
   (\<exists>es. es \<noteq> [] \<and> simples es \<and> ''bin/app.exe'' = join_with ''/'' es \<and>
     Join [abs_path [''opt'', ''acme''], ''bin/app.exe''] = abs_path ([''opt'', ''acme''] @ es))"
proof -
  have a: "Clean ''bin/./app.exe'' = Inr ''bin/app.exe''" by code_simp
  have b: "simples [''opt'', ''acme'']" by (simp add: simple_def)
  show ?thesis using a b Clean_confined [OF a b] by blast
qed

text \<open>
  Exact characterisation: the strings \<open>Clean\<close> returns unchanged are precisely those of
  the written specification (\<open>safe_rel\<close>), and whatever it returns is such a string.  So
  the check \<open>clean != f.Dst\<close> that the descriptor parser makes accepts exactly the canonical
  safe paths, and cleaning is idempotent.
\<close>

theorem Clean_characterised:
  "(Clean c = Inr c \<longleftrightarrow> (\<exists>es. safe_rel c es)) \<and>
   (Clean dst = Inr d \<longrightarrow> Clean d = Inr d \<and> safe_rel d (split_on slash d))"
  using safe_rel_intro safe_rel_Clean by blast

theorem Clean_characterised_witness:
  "Clean ''a//b'' = Inr ''a/b'' \<and> Clean ''a/b'' = Inr ''a/b'' \<and> safe_rel ''a/b'' (split_on slash ''a/b'')"
proof -
  have a: "Clean ''a//b'' = Inr ''a/b''" by code_simp
  show ?thesis using a Clean_characterised [of "''a/b''" "''a//b''" "''a/b''"] by blast
qed

end
