(* ===== verification/Semver.thy ===== *)
theory Semver
  imports Prelude "HOL-Library.Product_Lexorder"
begin

text \<open>
  \<open>core/release/semver.go\<close> and the version recogniser of \<open>core/release/parse.go\<close>: SemVer
  precedence, on which downgrade protection, migration floors and garbage collection rest.
  Version numbers are \<open>uint64\<close>, here \<^typ>\<open>64 word\<close>.
\<close>

section \<open>Accepted versions\<close>

text \<open>
  \<open>semverRe\<close> is \<^verbatim>\<open>^\d+\.\d+\.\d+(?:-[0-9A-Za-z.-]+)?(?:\+[0-9A-Za-z.-]+)?$\<close>.  No byte of the
  first two groups is a plus sign and none of the first group a hyphen, so the match is unique:
  the first plus sign opens the build group and the first hyphen before it the pre-release.
\<close>

definition ident_char :: "char \<Rightarrow> bool" where
  "ident_char c \<longleftrightarrow> is_digit c \<or> is_upper c \<or> is_lower c \<or> c = CHR ''.'' \<or> c = CHR ''-''"

definition digits1 :: "string \<Rightarrow> bool" where
  "digits1 s \<longleftrightarrow> s \<noteq> [] \<and> list_all is_digit s"

definition core_ok :: "string \<Rightarrow> bool" where
  "core_ok s \<longleftrightarrow> length (split_on CHR ''.'' s) = 3 \<and> list_all digits1 (split_on CHR ''.'' s)"

definition opt_group :: "char \<Rightarrow> string \<Rightarrow> bool" where
  "opt_group c s \<longleftrightarrow> (c \<in> set s \<longrightarrow> after c s \<noteq> [] \<and> list_all ident_char (after c s))"

definition ValidVersion :: "string \<Rightarrow> bool" where
  "ValidVersion v =
     (let a = before CHR ''+'' v in
      core_ok (before CHR ''-'' a) \<and> opt_group CHR ''-'' a \<and> opt_group CHR ''+'' v)"

section \<open>Parsing and comparing\<close>

text \<open>\<open>strconv.ParseUint(s, 10, 64)\<close> and \<open>strings.SplitN\<close>.\<close>

definition parse_uint64 :: "string \<Rightarrow> 64 word option" where
  "parse_uint64 s = (if digits1 s \<and> num_of s < 2 ^ 64 then Some (of_nat (num_of s)) else None)"

fun split_n :: "nat \<Rightarrow> char \<Rightarrow> string \<Rightarrow> string list" where
  "split_n 0 c s = []"
| "split_n (Suc 0) c s = [s]"
| "split_n (Suc (Suc n)) c s =
     (if c \<in> set s then before c s # split_n (Suc n) c (after c s) else [s])"

record parsedVersion =
  nums :: "64 word list"
  pre :: "string list"

definition max_uint64 :: "64 word" where
  "max_uint64 = - 1"

definition num_field :: "string \<Rightarrow> 64 word" where
  "num_field field = (case parse_uint64 field of Some n \<Rightarrow> n | None \<Rightarrow> max_uint64)"

text \<open>\<open>p.nums\<close> is an array of three: fields beyond those present stay 0.\<close>

definition parseVersion :: "string \<Rightarrow> parsedVersion" where
  "parseVersion v =
     (let v1 = before CHR ''+'' v;
          p = (if CHR ''-'' \<in> set v1 then split_on CHR ''.'' (after CHR ''-'' v1) else []);
          v2 = before CHR ''-'' v1;
          fs = map num_field (split_n 3 CHR ''.'' v2)
      in \<lparr> nums = take 3 (fs @ [0, 0, 0]), pre = p \<rparr>)"

definition sign :: "64 word \<Rightarrow> 64 word \<Rightarrow> int" where
  "sign a b = (if a < b then -1 else 1)"

definition numericIdent :: "string \<Rightarrow> 64 word option" where
  "numericIdent s = (if s = [] \<or> (1 < length s \<and> s ! 0 = CHR ''0'') then None else parse_uint64 s)"

definition string_compare :: "string \<Rightarrow> string \<Rightarrow> int" where
  "string_compare a b = (if a < b then -1 else if a = b then 0 else 1)"

definition comparePreField :: "string \<Rightarrow> string \<Rightarrow> int" where
  "comparePreField a b =
     (case (numericIdent a, numericIdent b) of
        (Some an, Some bn) \<Rightarrow> (if an \<noteq> bn then sign an bn else 0)
      | (Some _, None) \<Rightarrow> -1
      | (None, Some _) \<Rightarrow> 1
      | (None, None) \<Rightarrow> string_compare a b)"

fun compare_nums :: "64 word list \<Rightarrow> 64 word list \<Rightarrow> int" where
  "compare_nums (x # xs) (y # ys) = (if x \<noteq> y then sign x y else compare_nums xs ys)"
| "compare_nums _ _ = 0"

text \<open>The loop over the shared pre-release fields, then the comparison of the lengths.\<close>

fun compare_pre :: "string list \<Rightarrow> string list \<Rightarrow> int" where
  "compare_pre (x # xs) (y # ys) =
     (let c = comparePreField x y in if c \<noteq> 0 then c else compare_pre xs ys)"
| "compare_pre [] [] = 0"
| "compare_pre [] (y # ys) = -1"
| "compare_pre (x # xs) [] = 1"

definition compareParsed :: "parsedVersion \<Rightarrow> parsedVersion \<Rightarrow> int" where
  "compareParsed a b =
     (let c = compare_nums (nums a) (nums b) in
      if c \<noteq> 0 then c
      else if pre a = [] \<and> pre b = [] then 0
      else if pre a = [] then 1
      else if pre b = [] then -1
      else compare_pre (pre a) (pre b))"

definition Compare :: "string \<Rightarrow> string \<Rightarrow> int result" where
  "Compare a b =
     (if \<not> ValidVersion a then Inl [ErrInvalid]
      else if \<not> ValidVersion b then Inl [ErrInvalid]
      else Inr (compareParsed (parseVersion a) (parseVersion b)))"

definition Major :: "string \<Rightarrow> 64 word option" where
  "Major v = (if \<not> ValidVersion v then None else Some (nums (parseVersion v) ! 0))"

definition Newer :: "string \<Rightarrow> string \<Rightarrow> bool result" where
  "Newer a b = (case Compare a b of Inl e \<Rightarrow> Inl e | Inr c \<Rightarrow> Inr (c > 0))"

section \<open>Precedence as a linear order on keys\<close>

text \<open>
  The specification of precedence: versions are ordered by the lexicographic order of their
  keys.  A pre-release identifier is numeric (smaller) or alphanumeric, a release (no
  identifiers) comes after all its pre-releases.
\<close>

type_synonym ident_key = "bool \<times> 64 word \<times> string"
type_synonym version_key = "64 word list \<times> bool \<times> ident_key list"

definition ident_key :: "string \<Rightarrow> ident_key" where
  "ident_key s = (case numericIdent s of Some n \<Rightarrow> (False, n, []) | None \<Rightarrow> (True, 0, s))"

definition version_key :: "string \<Rightarrow> version_key" where
  "version_key v = (let p = parseVersion v in (nums p, pre p = [], map ident_key (pre p)))"

definition cmp_key :: "'a::linorder \<Rightarrow> 'a \<Rightarrow> int" where
  "cmp_key x y = (if x < y then -1 else if x = y then 0 else 1)"

lemma num_of_digits_inj:
  assumes "length s = length t" "list_all is_digit s" "list_all is_digit t" "num_of s = num_of t"
  shows "s = t"
  using assms
proof (induction s arbitrary: t rule: rev_induct)
  case (snoc x xs)
  then obtain y ys where t: "t = ys @ [y]" by (metis append_butlast_last_id length_0_conv snoc_eq_iff_butlast)
  have d: "digit_val c < 10 \<and> digit_char (digit_val c) = c" if "is_digit c" for c
    using that digit_val_less digit_char_val by blast
  from snoc.prems t have "digit_val x < 10" "digit_val y < 10" using d by auto
  with snoc.prems(4) t have "num_of xs = num_of ys" "digit_val x = digit_val y"
    by (auto simp: num_of_snoc) presburger+
  moreover have "length xs = length ys" "list_all is_digit xs" "list_all is_digit ys"
    "is_digit x" "is_digit y"
    using snoc.prems t by auto
  ultimately show ?case using snoc.IH [of ys] t d by metis
qed simp

lemma num_of_Cons: "num_of (c # s) = digit_val c * 10 ^ length s + num_of s"
proof (induction s rule: rev_induct)
  case Nil
  then show ?case by (simp add: num_of_def)
next
  case (snoc x xs)
  have "num_of (c # xs @ [x]) = 10 * num_of (c # xs) + digit_val x"
    using num_of_snoc [of "c # xs" x] by simp
  with snoc show ?case by (simp add: num_of_snoc algebra_simps)
qed

lemma num_of_less: "list_all is_digit s \<Longrightarrow> num_of s < 10 ^ length s"
proof (induction s)
  case (Cons c s)
  then have "digit_val c \<le> 9" "num_of s < 10 ^ length s" using digit_val_less [of c] by auto
  then have "digit_val c * 10 ^ length s + num_of s < 9 * 10 ^ length s + 10 ^ length s"
    by (intro add_le_less_mono mult_right_mono) auto
  then show ?case by (simp add: num_of_Cons)
qed (simp add: num_of_def)

text \<open>A canonical decimal (no leading zero) is determined by its value.\<close>

definition canonical :: "string \<Rightarrow> bool" where
  "canonical s \<longleftrightarrow> digits1 s \<and> (length s = 1 \<or> s ! 0 \<noteq> CHR ''0'')"

lemma canonical_lower: "canonical s \<Longrightarrow> 1 < length s \<Longrightarrow> 10 ^ (length s - 1) \<le> num_of s"
proof -
  assume a: "canonical s" "1 < length s"
  then obtain c t where s: "s = c # t" "is_digit c" "c \<noteq> CHR ''0''"
    by (cases s) (auto simp: canonical_def digits1_def)
  then have "1 \<le> digit_val c" using digit_val_pos [of c] by simp
  then have "10 ^ length t \<le> digit_val c * 10 ^ length t" by simp
  then show ?thesis by (simp add: s num_of_Cons trans_le_add1)
qed

lemma canonical_inj:
  assumes "canonical s" "canonical t" "num_of s = num_of t"
  shows "s = t"
proof -
  have len: "length u \<le> length v" if "canonical u" "canonical v" "num_of u = num_of v" for u v
  proof (rule ccontr)
    assume "\<not> length u \<le> length v"
    then have l: "length v \<le> length u - 1" "1 < length u" using that(2)
      by (auto simp: canonical_def digits1_def neq_Nil_conv)
    have "num_of v < 10 ^ length v" using that(2) by (simp add: canonical_def digits1_def num_of_less)
    also have "\<dots> \<le> 10 ^ (length u - 1)" using l by (intro power_increasing) auto
    also have "\<dots> \<le> num_of u" using canonical_lower [OF that(1) l(2)] .
    finally show False using that(3) by simp
  qed
  show ?thesis
    using assms len [OF assms] len [OF assms(2,1)]
    by (intro num_of_digits_inj) (auto simp: canonical_def digits1_def)
qed

lemma numericIdent_canonical: "numericIdent s = Some n \<Longrightarrow> canonical s \<and> num_of s < 2 ^ 64 \<and> n = of_nat (num_of s)"
  by (auto simp: numericIdent_def parse_uint64_def canonical_def split: if_splits)
    (auto simp: digits1_def neq_Nil_conv)

lemma numericIdent_inj: "numericIdent s = Some n \<Longrightarrow> numericIdent t = Some n \<Longrightarrow> s = t"
proof -
  assume a: "numericIdent s = Some n" "numericIdent t = Some n"
  note s = numericIdent_canonical [OF a(1)] and t = numericIdent_canonical [OF a(2)]
  have "unat (of_nat (num_of u) :: 64 word) = num_of u" if "num_of u < 2 ^ 64" for u
    using that by (simp add: unat_of_nat)
  with s t have "num_of s = num_of t" by metis
  with s t show ?thesis by (blast intro: canonical_inj)
qed

lemma ident_key_inj: "ident_key a = ident_key b \<Longrightarrow> a = b"
  by (auto simp: ident_key_def split: option.splits dest: numericIdent_inj)

lemma comparePreField_key: "comparePreField a b = cmp_key (ident_key a) (ident_key b)"
  by (auto simp: comparePreField_def ident_key_def cmp_key_def sign_def string_compare_def
      split: option.splits)

lemma compare_pre_key: "compare_pre xs ys = cmp_key (map ident_key xs) (map ident_key ys)"
  by (induction xs ys rule: compare_pre.induct)
    (auto simp: comparePreField_key cmp_key_def Let_def dest: ident_key_inj)

lemma compare_nums_key: "length xs = length ys \<Longrightarrow> compare_nums xs ys = cmp_key xs ys"
  by (induction xs ys rule: compare_nums.induct) (auto simp: cmp_key_def sign_def)

lemma length_nums [simp]: "length (nums (parseVersion v)) = 3"
  by (simp add: parseVersion_def Let_def)

lemma compareParsed_key:
  "compareParsed (parseVersion a) (parseVersion b) = cmp_key (version_key a) (version_key b)"
  by (auto simp: compareParsed_def version_key_def Let_def compare_pre_key
      compare_nums_key cmp_key_def)

lemma Compare_key:
  "ValidVersion a \<Longrightarrow> ValidVersion b \<Longrightarrow> Compare a b = Inr (cmp_key (version_key a) (version_key b))"
  by (simp add: Compare_def compareParsed_key)

lemma cmp_key_simps:
  "cmp_key x y < 0 \<longleftrightarrow> x < y" "cmp_key x y = 0 \<longleftrightarrow> x = y" "0 < cmp_key x y \<longleftrightarrow> y < x"
  "cmp_key x y \<le> 0 \<longleftrightarrow> x \<le> y" "0 \<le> cmp_key x y \<longleftrightarrow> y \<le> x"
  by (auto simp: cmp_key_def)

lemma cmp_key_swap: "cmp_key y x = - cmp_key x y"
  by (auto simp: cmp_key_def)

section \<open>The interface: comparison as a total preorder\<close>

text \<open>
  What the clients of \<open>Compare\<close> (release walks, migration floors, garbage collection) rely
  on: on the accepted values the comparison always answers, and its answers form a total
  preorder.
\<close>

locale version_order =
  fixes valid :: "'v \<Rightarrow> bool"
    and compare :: "'v \<Rightarrow> 'v \<Rightarrow> int result"
  assumes compare_total: "valid a \<Longrightarrow> valid b \<Longrightarrow> \<exists>c. compare a b = Inr c \<and> compare b a = Inr (- c)"
    and compare_trans: "valid a \<Longrightarrow> valid b \<Longrightarrow> valid c \<Longrightarrow> compare a b = Inr x \<Longrightarrow> x \<le> 0 \<Longrightarrow>
      compare b c = Inr y \<Longrightarrow> y \<le> 0 \<Longrightarrow> \<exists>z. compare a c = Inr z \<and> z \<le> 0 \<and> (z = 0 \<longrightarrow> x = 0 \<and> y = 0)"
    and compare_invalid: "\<not> (valid a \<and> valid b) \<Longrightarrow> \<exists>e. compare a b = Inl e"
begin

definition at_most :: "'v \<Rightarrow> 'v \<Rightarrow> bool" where
  "at_most a b \<longleftrightarrow> (\<exists>c. compare a b = Inr c \<and> c \<le> 0)"

definition below :: "'v \<Rightarrow> 'v \<Rightarrow> bool" where
  "below a b \<longleftrightarrow> (\<exists>c. compare a b = Inr c \<and> c < 0)"

lemma compareD: "compare a b = Inr c \<Longrightarrow> valid a \<and> valid b"
  using compare_invalid [of a b] by auto

lemma at_most_refl: "valid a \<Longrightarrow> at_most a a"
proof -
  assume "valid a"
  then obtain c where "compare a a = Inr c" "compare a a = Inr (- c)" using compare_total by blast
  then show ?thesis by (simp add: at_most_def)
qed

lemma at_most_trans: "at_most a b \<Longrightarrow> at_most b c \<Longrightarrow> at_most a c"
  unfolding at_most_def using compare_trans compareD by blast

lemma at_most_total: "valid a \<Longrightarrow> valid b \<Longrightarrow> at_most a b \<or> at_most b a"
proof -
  assume "valid a" "valid b"
  then obtain c where "compare a b = Inr c" "compare b a = Inr (- c)" using compare_total by blast
  then show ?thesis by (cases "c \<le> 0") (auto simp: at_most_def)
qed

lemma below_iff: "below a b \<longleftrightarrow> at_most a b \<and> \<not> at_most b a"
proof -
  have "below a b = (at_most a b \<and> \<not> at_most b a)" if v: "valid a" "valid b"
  proof -
    obtain c where "compare a b = Inr c" "compare b a = Inr (- c)" using compare_total v by blast
    then show ?thesis by (auto simp: at_most_def below_def)
  qed
  then show ?thesis using compareD by (auto simp: at_most_def below_def)
qed

lemma below_trans: "below a b \<Longrightarrow> at_most b c \<Longrightarrow> below a c"
  unfolding below_iff using at_most_trans by blast

end

interpretation ver: version_order ValidVersion Compare
proof unfold_locales
  fix a b
  show "ValidVersion a \<Longrightarrow> ValidVersion b \<Longrightarrow> \<exists>c. Compare a b = Inr c \<and> Compare b a = Inr (- c)"
    by (auto simp: Compare_key cmp_key_swap [of "version_key b" "version_key a"])
next
  fix a b c x y
  assume "ValidVersion a" "ValidVersion b" "ValidVersion c" "Compare a b = Inr x" "x \<le> 0"
    "Compare b c = Inr y" "y \<le> 0"
  then show "\<exists>z. Compare a c = Inr z \<and> z \<le> 0 \<and> (z = 0 \<longrightarrow> x = 0 \<and> y = 0)"
    by (auto simp: Compare_key cmp_key_simps)
next
  fix a b
  show "\<not> (ValidVersion a \<and> ValidVersion b) \<Longrightarrow> \<exists>e. Compare a b = Inl e"
    by (auto simp: Compare_def)
qed

lemma ver_at_most: "ver.at_most a b \<longleftrightarrow> ValidVersion a \<and> ValidVersion b \<and> version_key a \<le> version_key b"
  by (cases "ValidVersion a \<and> ValidVersion b")
    (auto simp: ver.at_most_def Compare_key cmp_key_simps, auto simp: Compare_def split: if_splits)

lemma ver_below: "ver.below a b \<longleftrightarrow> ValidVersion a \<and> ValidVersion b \<and> version_key a < version_key b"
  by (cases "ValidVersion a \<and> ValidVersion b")
    (auto simp: ver.below_def Compare_key cmp_key_simps, auto simp: Compare_def split: if_splits)

section \<open>Properties\<close>



lemma not_digits: "\<not> is_digit CHR ''+''" "\<not> is_digit CHR ''-''" "\<not> is_digit CHR ''.''"
  by code_simp+

text \<open>
  What \<open>ValidVersion\<close> does not keep out: a numeric field that does not fit 64 bits is
  accepted and read as the largest 64-bit value, so two different accepted versions with such
  fields compare as equal although one number is larger than the other.
\<close>

theorem oversized_fields_collapse:
  assumes "digits1 x" and "digits1 y" and "2 ^ 64 \<le> num_of x" and "2 ^ 64 \<le> num_of y"
  shows "ValidVersion (x @ ''.0.0'') \<and> ValidVersion (y @ ''.0.0'') \<and>
    Compare (x @ ''.0.0'') (y @ ''.0.0'') = Inr 0"
proof -
  have dots: "c \<notin> set u" if "digits1 u" "c \<in> {CHR ''+'', CHR ''-'', CHR ''.''}" for c u
    using that not_digits by (auto simp: digits1_def list_all_iff)
  have b: "before c (u @ ''.0.0'') = u @ ''.0.0''" if "digits1 u" "c = CHR ''+'' \<or> c = CHR ''-''" for c u
    using dots [of u c] that by (intro takeWhile_none [of c, folded before_def]) auto
  have sp: "split_on CHR ''.'' (u @ ''.0.0'') = [u, ''0'', ''0'']" if "digits1 u" for u
    using dots [of u "CHR ''.''"] that split_on_append [of "CHR ''.''" u "''0.0''"] by simp
  have bd: "before CHR ''.'' (u @ ''.0.0'') = u" "after CHR ''.'' (u @ ''.0.0'') = ''0.0''"
    "CHR ''.'' \<in> set (u @ ''.0.0'')" if "digits1 u" for u
    using dots [of u "CHR ''.''"] that takeWhile_until [of "CHR ''.''" u "''0.0''"]
    by (simp_all add: before_def after_def)
  have v: "ValidVersion (u @ ''.0.0'')" if "digits1 u" for u
    using that b sp dots [of u]
    by (simp add: ValidVersion_def Let_def core_ok_def opt_group_def) (simp add: digits1_def is_digit_def)
  have k: "num_field u = max_uint64" if "digits1 u" "2 ^ 64 \<le> num_of u" for u
    using that by (simp add: num_field_def parse_uint64_def)
  have sn: "split_n 3 CHR ''.'' (u @ ''.0.0'') = [u, ''0'', ''0'']" if "digits1 u" for u
    using bd [OF that] by (simp add: numeral_3_eq_3) (simp add: before_def after_def)
  have p: "parseVersion (u @ ''.0.0'') = \<lparr> nums = [max_uint64, 0, 0], pre = [] \<rparr>"
    if "digits1 u" "2 ^ 64 \<le> num_of u" for u
  proof -
    have "num_field ''0'' = 0" by code_simp
    then show ?thesis
      using that b sn k dots [of u "CHR ''-''"] by (simp add: parseVersion_def Let_def)
  qed
  show ?thesis
    using v p assms by (simp add: Compare_def compareParsed_def)
qed

theorem oversized_fields_collapse_witness:
  "num_of ''18446744073709551616'' < num_of ''99999999999999999999'' \<and>
   Compare ''18446744073709551616.0.0'' ''99999999999999999999.0.0'' = Inr 0"
proof -
  have "digits1 ''18446744073709551616''" "digits1 ''99999999999999999999''"
    "(2::nat) ^ 64 \<le> num_of ''18446744073709551616''" "(2::nat) ^ 64 \<le> num_of ''99999999999999999999''"
    by code_simp+
  from oversized_fields_collapse [OF this]
  have "Compare ''18446744073709551616.0.0'' ''99999999999999999999.0.0'' = Inr 0" by simp
  moreover have "num_of ''18446744073709551616'' < num_of ''99999999999999999999''" by code_simp
  ultimately show ?thesis by blast
qed

end
