(* ===== verification/Chain.thy ===== *)
theory Chain
  imports Semver
begin

text \<open>
  \<open>core/release/chain.go\<close>: the published releases to walk from one version to another.
  \<open>sort.SliceStable\<close> is a stable sort by a comparison, here stable insertion sort: for a strict
  weak order every stable sort has the same result.
\<close>

section \<open>Stable sorting by a comparison\<close>

fun insert_by :: "('a \<Rightarrow> 'a \<Rightarrow> bool) \<Rightarrow> 'a \<Rightarrow> 'a list \<Rightarrow> 'a list" where
  "insert_by lt x [] = [x]"
| "insert_by lt x (y # ys) = (if lt y x then y # insert_by lt x ys else x # y # ys)"

definition stable_sort :: "('a \<Rightarrow> 'a \<Rightarrow> bool) \<Rightarrow> 'a list \<Rightarrow> 'a list" where
  "stable_sort lt xs = foldr (insert_by lt) xs []"

text \<open>The closure \<open>c, err := Compare(a, b); return c < 0\<close>: on an error \<open>c\<close> is 0.\<close>

definition less_by :: "('a \<Rightarrow> 'a \<Rightarrow> int result) \<Rightarrow> 'a \<Rightarrow> 'a \<Rightarrow> bool" where
  "less_by compare a b = (case compare a b of Inl _ \<Rightarrow> False | Inr c \<Rightarrow> c < 0)"

lemma set_insert_by [simp]: "set (insert_by lt x ys) = insert x (set ys)"
  by (induction ys) auto

lemma set_stable_sort [simp]: "set (stable_sort lt xs) = set xs"
  by (induction xs) (auto simp: stable_sort_def)

lemma distinct_insert_by: "distinct (insert_by lt x ys) \<longleftrightarrow> x \<notin> set ys \<and> distinct ys"
  by (induction ys) auto

lemma distinct_stable_sort [simp]: "distinct (stable_sort lt xs) = distinct xs"
proof (induction xs)
  case (Cons x xs)
  then show ?case
    using set_stable_sort [of lt xs] by (simp add: stable_sort_def distinct_insert_by)
qed (simp add: stable_sort_def)

context version_order
begin

lemma less_by_below: "less_by compare a b \<longleftrightarrow> below a b"
  by (auto simp: less_by_def below_def split: sum.splits)

lemma insert_by_sorted:
  "valid x \<Longrightarrow> \<forall>y\<in>set ys. valid y \<Longrightarrow> sorted_wrt at_most ys \<Longrightarrow>
   sorted_wrt at_most (insert_by (less_by compare) x ys)"
proof (induction ys)
  case (Cons y ys)
  show ?case
  proof (cases "below y x")
    case True
    then have "at_most y x" by (simp add: below_iff)
    with Cons True show ?thesis by (auto simp: less_by_below)
  next
    case False
    then have "at_most x y" using Cons.prems at_most_total [of x y] by (auto simp: below_iff)
    with Cons.prems have "\<forall>z\<in>set ys. at_most x z" by (auto intro: at_most_trans)
    with Cons.prems False \<open>at_most x y\<close> show ?thesis by (simp add: less_by_below)
  qed
qed simp

lemma stable_sort_sorted:
  "\<forall>x\<in>set xs. valid x \<Longrightarrow> sorted_wrt at_most (stable_sort (less_by compare) xs)"
proof (induction xs)
  case (Cons x xs)
  then show ?case
    using insert_by_sorted [of x "stable_sort (less_by compare) xs"] set_stable_sort [of "less_by compare" xs]
    by (simp add: stable_sort_def)
qed (simp add: stable_sort_def)

lemma below_not_refl: "\<not> below a a"
  by (simp add: below_iff)

end

section \<open>Walks\<close>

text \<open>The loop over \<open>available\<close>; \<open>seen\<close> are the spellings already met.\<close>

fun eligible_walk :: "string list \<Rightarrow> string list \<Rightarrow> string \<Rightarrow> string \<Rightarrow> string list result" where
  "eligible_walk [] seen aft tov = Inr []"
| "eligible_walk (v # vs) seen aft tov =
     (if \<not> ValidVersion v \<or> v \<in> set seen then eligible_walk vs seen aft tov
      else (case Compare v aft of
          Inl e \<Rightarrow> Inl e
        | Inr lo \<Rightarrow> (case Compare v tov of
              Inl e \<Rightarrow> Inl e
            | Inr hi \<Rightarrow> (case eligible_walk vs (v # seen) aft tov of
                  Inl e \<Rightarrow> Inl e
                | Inr w \<Rightarrow> Inr (if lo > 0 \<and> hi \<le> 0 then v # w else w)))))"

text \<open>The loop over neighbours that refuses two releases of equal precedence.\<close>

fun check_unambiguous :: "string list \<Rightarrow> unit result" where
  "check_unambiguous (v # w # vs) =
     (case Compare v w of
        Inl e \<Rightarrow> Inl e
      | Inr c \<Rightarrow> (if c = 0 then Inl [ErrInvalid] else check_unambiguous (w # vs)))"
| "check_unambiguous _ = Inr ()"

definition Between :: "string list \<Rightarrow> string \<Rightarrow> string \<Rightarrow> string list result" where
  "Between available aft tov =
     (case Compare aft tov of
        Inl e \<Rightarrow> Inl e
      | Inr up \<Rightarrow>
          if up \<ge> 0 then Inl [ErrInvalid]
          else (case eligible_walk available [] aft tov of
              Inl e \<Rightarrow> Inl e
            | Inr w \<Rightarrow>
                let walk = stable_sort (less_by Compare) w in
                (case check_unambiguous walk of
                   Inl e \<Rightarrow> Inl e
                 | Inr _ \<Rightarrow> (if walk = [] \<or> last walk \<noteq> tov then Inl [ErrInvalid] else Inr walk))))"

definition Chain :: "string list \<Rightarrow> string \<Rightarrow> string \<Rightarrow> string list result" where
  "Chain available frm tov =
     (case Between available frm tov of
        Inl e \<Rightarrow> Inl e
      | Inr walk \<Rightarrow> (if frm \<notin> set available then Inl [ErrInvalid] else Inr (frm # walk)))"

section \<open>Correctness\<close>

definition eligible :: "string list \<Rightarrow> string \<Rightarrow> string \<Rightarrow> string set" where
  "eligible available aft tov =
     {v \<in> set available. ValidVersion v \<and> version_key aft < version_key v \<and> version_key v \<le> version_key tov}"

lemma eligible_walk_Inr:
  assumes "ValidVersion aft" "ValidVersion tov"
  shows "\<exists>w. eligible_walk vs seen aft tov = Inr w \<and> distinct w \<and>
    set w = eligible vs aft tov - set seen"
proof (induction vs arbitrary: seen)
  case (Cons v vs)
  show ?case
  proof (cases "\<not> ValidVersion v \<or> v \<in> set seen")
    case True
    with Cons [of seen] show ?thesis by (auto simp: eligible_def)
  next
    case False
    from Cons [of "v # seen"] obtain w where w: "eligible_walk vs (v # seen) aft tov = Inr w" "distinct w"
      "set w = eligible vs aft tov - set (v # seen)" by blast
    have c: "Compare v aft = Inr (cmp_key (version_key v) (version_key aft))"
      "Compare v tov = Inr (cmp_key (version_key v) (version_key tov))"
      using False assms by (simp_all add: Compare_key)
    show ?thesis
    proof (cases "version_key aft < version_key v \<and> version_key v \<le> version_key tov")
      case True
      with False w c show ?thesis
        by (auto simp: cmp_key_simps eligible_def)
    next
      case nel: False
      then have "\<not> (cmp_key (version_key v) (version_key aft) > 0 \<and> cmp_key (version_key v) (version_key tov) \<le> 0)"
        by (simp add: cmp_key_simps)
      then have "eligible_walk (v # vs) seen aft tov = Inr w"
        using False w c by simp
      moreover have "eligible vs aft tov - set (v # seen) = eligible (v # vs) aft tov - set seen"
        using nel by (auto simp: eligible_def)
      ultimately show ?thesis using w by metis
    qed
  qed
qed (simp add: eligible_def)

lemma check_unambiguous_Inr:
  assumes "\<forall>v\<in>set vs. ValidVersion v"
  shows "check_unambiguous vs = Inr () \<longleftrightarrow> successively (\<lambda>v w. version_key v \<noteq> version_key w) vs"
  using assms by (induction vs rule: check_unambiguous.induct) (auto simp: Compare_key cmp_key_simps)

lemma sorted_strict:
  assumes "\<forall>v\<in>set vs. ValidVersion v" "sorted_wrt ver.at_most vs"
    "successively (\<lambda>v w. version_key v \<noteq> version_key w) vs"
  shows "sorted_wrt (\<lambda>v w. version_key v < version_key w) vs"
  using assms
proof (induction vs rule: induct_list012)
  case (3 x y zs)
  then have "sorted_wrt (\<lambda>v w. version_key v < version_key w) (y # zs)" by simp
  moreover have "version_key x < version_key y" using 3 by (auto simp: ver_at_most)
  ultimately show ?case by auto
qed auto

lemma last_is_max:
  assumes "sorted_wrt (\<lambda>v w. version_key v < version_key w) vs" "v \<in> set vs"
  shows "version_key v \<le> version_key (last vs)"
  using assms by (induction vs) (auto intro: order.strict_implies_order)

lemma distinct_successively: "distinct (map f xs) \<Longrightarrow> successively (\<lambda>v w. f v \<noteq> f w) xs"
  by (induction xs rule: induct_list012) auto

text \<open>The walk is determined by the set of eligible releases.\<close>

lemma Between_Inr:
  assumes "Between available aft tov = Inr walk"
  shows "ValidVersion aft" "ValidVersion tov" "version_key aft < version_key tov"
    "sorted_wrt (\<lambda>v w. version_key v < version_key w) walk"
    "set walk = eligible available aft tov" "walk \<noteq> []" "last walk = tov"
proof -
  from assms obtain up where up: "Compare aft tov = Inr up" "up < 0"
    by (auto simp: Between_def split: sum.splits if_splits)
  from ver.compareD [OF up(1)] show v: "ValidVersion aft" "ValidVersion tov" by auto
  with up show "version_key aft < version_key tov" by (auto simp: Compare_key cmp_key_simps)
  obtain w where w: "eligible_walk available [] aft tov = Inr w" "set w = eligible available aft tov"
    using eligible_walk_Inr [OF v, of available "[]"] by auto
  let ?s = "stable_sort (less_by Compare) w"
  from assms up w have s: "check_unambiguous ?s = Inr ()" "?s \<noteq> []" "last ?s = tov" "walk = ?s"
    by (auto simp: Between_def Let_def split: sum.splits if_splits)
  have val: "\<forall>v\<in>set ?s. ValidVersion v" using w by (auto simp: eligible_def)
  show "set walk = eligible available aft tov" "walk \<noteq> []" "last walk = tov" using s w by auto
  show "sorted_wrt (\<lambda>v w. version_key v < version_key w) walk"
    using sorted_strict [OF val] ver.stable_sort_sorted [of w] val s(1,4)
    by (simp add: check_unambiguous_Inr)
qed

lemma Between_exists:
  assumes v: "ValidVersion aft" "ValidVersion tov" and lt: "version_key aft < version_key tov"
    and pub: "tov \<in> set available"
    and unamb: "inj_on version_key (eligible available aft tov)"
  shows "\<exists>walk. Between available aft tov = Inr walk"
proof -
  obtain w where w: "eligible_walk available [] aft tov = Inr w" "distinct w" "set w = eligible available aft tov"
    using eligible_walk_Inr [OF v, of available "[]"] by auto
  let ?s = "stable_sort (less_by Compare) w"
  have val: "\<forall>v\<in>set ?s. ValidVersion v" using w by (auto simp: eligible_def)
  have srt: "sorted_wrt ver.at_most ?s" using ver.stable_sort_sorted [of w] val by simp
  have d: "distinct (map version_key ?s)"
    using w unamb by (simp add: distinct_map)
  then have ne: "successively (\<lambda>v w. version_key v \<noteq> version_key w) ?s" by (rule distinct_successively)
  have el: "tov \<in> set ?s" using w v lt pub by (simp add: eligible_def)
  have "version_key tov \<le> version_key (last ?s)"
    using last_is_max [OF sorted_strict [OF val srt ne] el] .
  moreover have l: "last ?s \<in> set ?s" using el by (cases ?s) auto
  moreover then have "version_key (last ?s) \<le> version_key tov" using w by (simp add: eligible_def)
  ultimately have "last ?s = tov" using unamb el w by (auto dest: inj_onD)
  moreover have "check_unambiguous ?s = Inr ()" using ne val by (simp add: check_unambiguous_Inr)
  moreover have "Compare aft tov = Inr (- 1)" using v lt by (simp add: Compare_key cmp_key_def)
  moreover have "?s \<noteq> []" using el by force
  ultimately show ?thesis using w by (simp add: Between_def Let_def)
qed

text \<open>
  C39. A walk \<open>Between\<close> returns is exactly the published accepted releases above \<open>after\<close> and
  not above \<open>to\<close>, in strictly increasing precedence, ending at \<open>to\<close>; and a walk is returned
  precisely when \<open>to\<close> is a published upgrade and no two eligible releases have equal precedence.
\<close>

theorem Between_correct:
  "(\<forall>walk. Between available aft tov = Inr walk \<longrightarrow>
      sorted_wrt (\<lambda>v w. version_key v < version_key w) walk \<and>
      set walk = eligible available aft tov \<and> walk \<noteq> [] \<and> last walk = tov) \<and>
   ((\<exists>walk. Between available aft tov = Inr walk) \<longleftrightarrow>
      ValidVersion aft \<and> ValidVersion tov \<and> version_key aft < version_key tov \<and>
      tov \<in> set available \<and> inj_on version_key (eligible available aft tov))"
proof (intro conjI allI impI iffI)
  fix walk
  assume "Between available aft tov = Inr walk"
  note b = Between_Inr [OF this]
  show "sorted_wrt (\<lambda>v w. version_key v < version_key w) walk" "set walk = eligible available aft tov"
    "walk \<noteq> []" "last walk = tov" using b by auto
next
  assume "\<exists>walk. Between available aft tov = Inr walk"
  then obtain walk where b: "Between available aft tov = Inr walk" by blast
  note bi = Between_Inr [OF b]
  show "ValidVersion aft" "ValidVersion tov" "version_key aft < version_key tov" using bi by auto
  show "tov \<in> set available" using bi by (auto simp: eligible_def dest: last_in_set)
  have "distinct (map version_key walk)"
    using bi(4) by (induction walk) auto
  then show "inj_on version_key (eligible available aft tov)" using bi(5) by (simp add: distinct_map)
next
  assume "ValidVersion aft \<and> ValidVersion tov \<and> version_key aft < version_key tov \<and>
      tov \<in> set available \<and> inj_on version_key (eligible available aft tov)"
  then show "\<exists>walk. Between available aft tov = Inr walk" by (blast intro: Between_exists)
qed

theorem Between_correct_witness:
  "Between [''1.10.0'', ''junk'', ''1.9.0''] ''1.0.0'' ''1.10.0'' = Inr [''1.9.0'', ''1.10.0''] \<and>
   set [''1.9.0'', ''1.10.0''] = eligible [''1.10.0'', ''junk'', ''1.9.0''] ''1.0.0'' ''1.10.0''"
proof -
  have b: "Between [''1.10.0'', ''junk'', ''1.9.0''] ''1.0.0'' ''1.10.0'' = Inr [''1.9.0'', ''1.10.0'']"
    by code_simp
  show ?thesis
    by (rule conjI [OF b Between_correct [THEN conjunct1, THEN spec, THEN mp, OF b, THEN conjunct2, THEN conjunct1]])
qed

text \<open>
  C40. A patch chain starts at the release the bytes on disk came from, which must be published,
  and is otherwise the walk \<open>Between\<close> gives: strictly increasing from \<open>from\<close> to \<open>to\<close>.
\<close>

theorem Chain_correct:
  assumes "Chain available frm tov = Inr c"
  shows "hd c = frm \<and> last c = tov \<and> frm \<in> set available \<and>
    sorted_wrt (\<lambda>v w. version_key v < version_key w) c \<and>
    set c = insert frm (eligible available frm tov) \<and> 2 \<le> length c"
proof -
  from assms obtain walk where w: "Between available frm tov = Inr walk" "frm \<in> set available" "c = frm # walk"
    by (auto simp: Chain_def split: sum.splits if_splits)
  note b = Between_Inr [OF w(1)]
  then show ?thesis using w by (cases walk) (auto simp: eligible_def)
qed

theorem Chain_correct_witness:
  "Chain [''1.0.0'', ''1.2.0''] ''1.0.0'' ''1.2.0'' = Inr [''1.0.0'', ''1.2.0''] \<and>
   hd [''1.0.0'', ''1.2.0''] = ''1.0.0'' \<and> last [''1.0.0'', ''1.2.0''] = ''1.2.0''"
proof -
  have c: "Chain [''1.0.0'', ''1.2.0''] ''1.0.0'' ''1.2.0'' = Inr [''1.0.0'', ''1.2.0'']"
    by code_simp
  show ?thesis using c Chain_correct [OF c] by simp
qed

end
