(* ===== verification/Fsx.thy ===== *)
theory Fsx
  imports GoPath "HOL-Library.AList"
begin

unbundle bit_operations_syntax

text \<open>
  \<open>core/fsx\<close>: the filesystem every other package writes through.  The model is the in-memory
  filesystem \<open>Mem\<close> of \<open>mem.go\<close>, with its symlink resolution, its error cases and its failure
  hook, and the helpers of \<open>fsx.go\<close> on top of it (\<open>ReadFile\<close>, \<open>WriteFileAtomic\<close>,
  \<open>WriteStreamAtomic\<close>, \<open>TempName\<close>).

  The Go map \<open>nodes\<close> is an association list read through \<^const>\<open>map_of\<close>.  The hook \<open>Fail\<close> is a Go
  closure that may keep state; in a given run it is a function of the number of calls made so
  far, which is the counter \<open>calls\<close>.  A hook that itself changes the filesystem is not modelled.
  The process id and the package variable \<open>tmpSeq\<close> are part of the world.
\<close>

section \<open>Nodes and state\<close>

definition ModeDir :: "32 word" where "ModeDir = 0x80000000"
definition ModeSymlink :: "32 word" where "ModeSymlink = 0x08000000"
definition ModePerm :: "32 word" where "ModePerm = 0x1FF"

text \<open>\<open>fs.ModeType\<close>: directory, symlink, named pipe, socket, device, char device, irregular.\<close>

definition ModeType :: "32 word" where "ModeType = 0x8F280000"

record memNode =
  mode :: "32 word"
  data :: string
  link :: string

definition isDir :: "memNode \<Rightarrow> bool" where
  "isDir n \<longleftrightarrow> mode n AND ModeDir \<noteq> 0"

definition isSymlink :: "memNode \<Rightarrow> bool" where
  "isSymlink n \<longleftrightarrow> mode n AND ModeSymlink \<noteq> 0"

definition IsRegular :: "memNode \<Rightarrow> bool" where
  "IsRegular n \<longleftrightarrow> mode n AND ModeType = 0"

record mem =
  nodes :: "(string \<times> memNode) list"
  Fail :: "nat \<Rightarrow> string \<Rightarrow> string \<Rightarrow> error option"
  calls :: nat
  pid :: nat
  tmpSeq :: "64 word"

definition node_at :: "mem \<Rightarrow> string \<Rightarrow> memNode option" where
  "node_at m p = map_of (nodes m) p"

definition put :: "string \<Rightarrow> memNode \<Rightarrow> mem \<Rightarrow> mem" where
  "put p n m = m\<lparr>nodes := AList.update p n (nodes m)\<rparr>"

definition del :: "string \<Rightarrow> mem \<Rightarrow> mem" where
  "del p m = m\<lparr>nodes := AList.delete p (nodes m)\<rparr>"

definition dir_node :: "32 word \<Rightarrow> memNode" where
  "dir_node md = \<lparr> mode = ModeDir OR (md AND ModePerm), data = [], link = [] \<rparr>"

definition NewMem :: mem where
  "NewMem = \<lparr> nodes = [(''/'', dir_node 0x1ED), (''.'', dir_node 0x1ED)],
              Fail = (\<lambda>_ _ _. None), calls = 0, pid = 0, tmpSeq = 0 \<rparr>"

section \<open>Names\<close>

definition canon :: "string \<Rightarrow> string" where
  "canon name = path_clean (Slash name)"

definition splitElems :: "string \<Rightarrow> string list" where
  "splitElems p =
     (let q = (if prefix ''/'' p then drop 1 p else p) in
      if q = [] \<or> q = ''.'' then []
      else filter (\<lambda>e. e \<noteq> [] \<and> e \<noteq> ''.'') (split_on slash q))"

definition joinPath :: "string \<Rightarrow> string \<Rightarrow> string" where
  "joinPath dir elem =
     (if dir = ''/'' then slash # elem
      else if dir = ''.'' then (if elem = ''..'' then ''..'' else elem)
      else path_join [dir, elem])"

definition maxSymlinkHops :: nat where
  "maxSymlinkHops = 40"

text \<open>
  The loop of \<open>resolve\<close>.  The Go loop keeps the element slice and an index; the elements before
  the index are never looked at again, so the model keeps the remaining elements.  It ends
  because every expansion of a link spends one of \<open>maxSymlinkHops\<close> hops.
\<close>

function resolve_loop ::
  "(string \<Rightarrow> memNode option) \<Rightarrow> bool \<Rightarrow> nat \<Rightarrow> string \<Rightarrow> string list \<Rightarrow> string result" where
  "resolve_loop nd followLast hops cur [] = Inr cur"
| "resolve_loop nd followLast hops cur (e # rest) =
     (let next = joinPath cur e in
      case nd next of
        Some n \<Rightarrow>
          if isSymlink n \<and> (followLast \<or> rest \<noteq> []) then
            (if hops + 1 > maxSymlinkHops then Inl [ErrTooManyLinks]
             else let target = canon (link n) in
               resolve_loop nd followLast (hops + 1)
                 (if prefix ''/'' target then ''/'' else cur)
                 (splitElems target @ rest))
          else resolve_loop nd followLast hops next rest
      | None \<Rightarrow> resolve_loop nd followLast hops next rest)"
  by pat_completeness auto
termination
  by (relation "measures [\<lambda>(nd, f, hops, cur, es). maxSymlinkHops + 1 - hops,
                          \<lambda>(nd, f, hops, cur, es). length es]") auto

definition resolve :: "mem \<Rightarrow> string \<Rightarrow> bool \<Rightarrow> string result" where
  "resolve m name followLast =
     (let p = canon name in
      resolve_loop (node_at m) followLast 0 (if prefix ''/'' p then ''/'' else ''.'') (splitElems p))"

definition node :: "mem \<Rightarrow> string \<Rightarrow> bool \<Rightarrow> (string \<times> memNode) result" where
  "node m name followLast =
     (if name = [] then Inl [ErrFsInvalid]
      else case resolve m name followLast of
        Inl e \<Rightarrow> Inl e
      | Inr p \<Rightarrow> (case node_at m p of None \<Rightarrow> Inl [ErrNotExist] | Some n \<Rightarrow> Inr (p, n)))"

definition requireDir :: "mem \<Rightarrow> string \<Rightarrow> unit result" where
  "requireDir m p =
     (case node_at m (path_dir p) of
        None \<Rightarrow> Inl [ErrNotExist]
      | Some n \<Rightarrow> (if isDir n then Inr () else Inl [ErrNotDir]))"

definition childrenOf :: "mem \<Rightarrow> string \<Rightarrow> string list" where
  "childrenOf m p =
     (let pre = (if p = ''/'' then ''/'' else p @ ''/'') in
      sort (remdups (filter (\<lambda>key. key \<noteq> p \<and> prefix pre key) (map fst (nodes m)))))"

section \<open>Operations\<close>

text \<open>\<open>fail\<close> consults the hook: every call counts.\<close>

definition fail :: "string \<Rightarrow> string \<Rightarrow> (mem, unit) prog" where
  "fail op name m =
     (case Fail m (calls m) op name of
        None \<Rightarrow> (Inr (), m\<lparr>calls := calls m + 1\<rparr>)
      | Some e \<Rightarrow> (Inl e, m\<lparr>calls := calls m + 1\<rparr>))"

text \<open>An open file: its contents at the time of opening, or none for a directory.\<close>

record memFile =
  fname :: string
  fnode :: memNode
  reader :: "string option"

definition Open :: "string \<Rightarrow> (mem, memFile) prog" where
  "Open name = bind (fail ''open'' (canon name)) (\<lambda>_ m.
     (case node m name True of
        Inl e \<Rightarrow> (Inl e, m)
      | Inr (p, n) \<Rightarrow>
          (Inr \<lparr> fname = path_base p, fnode = n,
                 reader = (if isDir n then None else Some (data n)) \<rparr>, m)))"

record memInfo =
  iname :: string
  inode :: memNode

definition stat :: "string \<Rightarrow> bool \<Rightarrow> (mem, memInfo) prog" where
  "stat name follow m =
     (case node m name follow of
        Inl e \<Rightarrow> (Inl e, m)
      | Inr (p, n) \<Rightarrow> (Inr \<lparr> iname = path_base p, inode = n \<rparr>, m))"

definition Stat :: "string \<Rightarrow> (mem, memInfo) prog" where
  "Stat name = stat name True"

definition Lstat :: "string \<Rightarrow> (mem, memInfo) prog" where
  "Lstat name = stat name False"

definition ReadDir :: "string \<Rightarrow> (mem, memInfo list) prog" where
  "ReadDir name m =
     (case node m name True of
        Inl e \<Rightarrow> (Inl e, m)
      | Inr (p, n) \<Rightarrow>
          if \<not> isDir n then (Inl [ErrNotDir], m)
          else let pre = (if p = ''/'' then ''/'' else p @ ''/'');
                   keys = filter (\<lambda>key. slash \<notin> set (drop (length pre) key)) (childrenOf m p)
               in (Inr (map (\<lambda>(nm, n). \<lparr> iname = nm, inode = n \<rparr>)
                          (sort_key fst (List.map_filter
                             (\<lambda>key. map_option (Pair (path_base key)) (node_at m key)) keys))), m))"

record memWriter =
  wpath :: string
  wclosed :: bool

definition Create :: "string \<Rightarrow> 32 word \<Rightarrow> (mem, memWriter) prog" where
  "Create name md =
     (if name = [] then throw [ErrFsInvalid]
      else bind (fail ''create'' (canon name)) (\<lambda>_ m.
        case resolve m name True of
          Inl e \<Rightarrow> (Inl e, m)
        | Inr p \<Rightarrow>
            if (case node_at m p of Some n \<Rightarrow> isDir n | None \<Rightarrow> False) then (Inl [ErrIsDir], m)
            else (case requireDir m p of
                Inl e \<Rightarrow> (Inl e, m)
              | Inr _ \<Rightarrow>
                  (Inr \<lparr> wpath = p, wclosed = False \<rparr>,
                   put p \<lparr> mode = md AND ModePerm, data = [], link = [] \<rparr> m))))"

text \<open>
  The writer holds a pointer to its node; nothing replaces the node between \<open>Create\<close> and the
  writes in this code, so writing at the path is writing to the node.
\<close>

definition Write :: "memWriter \<Rightarrow> string \<Rightarrow> (mem, unit) prog" where
  "Write w bs = bind (fail ''write'' (wpath w)) (\<lambda>_ m.
     if wclosed w then (Inl [ErrClosed], m)
     else (case node_at m (wpath w) of
         None \<Rightarrow> (Inr (), m)
       | Some n \<Rightarrow> (Inr (), put (wpath w) (n\<lparr>data := data n @ bs\<rparr>) m)))"

definition Sync :: "memWriter \<Rightarrow> (mem, unit) prog" where
  "Sync w = bind (fail ''sync'' (wpath w)) (\<lambda>_. if wclosed w then throw [ErrClosed] else ret ())"

definition Close :: "memWriter \<Rightarrow> (mem, memWriter) prog" where
  "Close w = (if wclosed w then throw [ErrClosed] else ret (w\<lparr>wclosed := True\<rparr>))"

fun mkdir_loop :: "32 word \<Rightarrow> string \<Rightarrow> string list \<Rightarrow> (mem, unit) prog" where
  "mkdir_loop md cur [] m = (Inr (), m)"
| "mkdir_loop md cur (e # es) m =
     (let next = joinPath cur e in
      case node_at m next of
        Some n \<Rightarrow> (if \<not> isDir n then (Inl [ErrNotDir], m) else mkdir_loop md next es m)
      | None \<Rightarrow> mkdir_loop md next es (put next (dir_node md) m))"

definition MkdirAll :: "string \<Rightarrow> 32 word \<Rightarrow> (mem, unit) prog" where
  "MkdirAll name md =
     (if name = [] then throw [ErrFsInvalid]
      else bind (fail ''mkdirall'' (canon name)) (\<lambda>_ m.
        case resolve m name True of
          Inl e \<Rightarrow> (Inl e, m)
        | Inr p \<Rightarrow> mkdir_loop md (if prefix ''/'' p then ''/'' else ''.'') (splitElems p) m))"

definition Remove :: "string \<Rightarrow> (mem, unit) prog" where
  "Remove name = bind (fail ''remove'' (canon name)) (\<lambda>_ m.
     case node m name False of
       Inl e \<Rightarrow> (Inl e, m)
     | Inr (p, n) \<Rightarrow> (if childrenOf m p \<noteq> [] then (Inl [ErrNotEmpty], m) else (Inr (), del p m)))"

definition RemoveAll :: "string \<Rightarrow> (mem, unit) prog" where
  "RemoveAll name =
     (if name = [] then throw [ErrFsInvalid]
      else bind (fail ''removeall'' (canon name)) (\<lambda>_ m.
        case resolve m name False of
          Inl e \<Rightarrow> (Inl e, m)
        | Inr p \<Rightarrow>
            (case node_at m p of
               None \<Rightarrow> (Inr (), m)
             | Some _ \<Rightarrow> (Inr (), del p (fold del (childrenOf m p) m)))))"

text \<open>The loop that moves the subtree of a renamed directory, key by key.\<close>

definition move_child :: "string \<Rightarrow> string \<Rightarrow> string \<Rightarrow> mem \<Rightarrow> mem" where
  "move_child frm dst key m =
     (case node_at m key of
        None \<Rightarrow> m
      | Some c \<Rightarrow> put (dst @ drop (length frm) key) c (del key m))"

definition Rename :: "string \<Rightarrow> string \<Rightarrow> (mem, unit) prog" where
  "Rename oldname newname =
     (if newname = [] then throw [ErrFsInvalid]
      else bind (fail ''rename'' (canon newname)) (\<lambda>_ m.
        case node m oldname False of
          Inl e \<Rightarrow> (Inl e, m)
        | Inr (frm, n) \<Rightarrow>
            (case resolve m newname False of
               Inl e \<Rightarrow> (Inl e, m)
             | Inr dst \<Rightarrow>
                 (case requireDir m dst of
                    Inl e \<Rightarrow> (Inl e, m)
                  | Inr _ \<Rightarrow>
                      if frm = dst then (Inr (), m)
                      else if prefix (frm @ ''/'') (dst @ ''/'') then (Inl [ErrIntoItself], m)
                      else
                        (case node_at m dst of
                           Some ex \<Rightarrow>
                             if isDir ex \<noteq> isDir n then (Inl [ErrMixedKinds], m)
                             else if isDir ex \<and> childrenOf m dst \<noteq> [] then (Inl [ErrNotEmpty], m)
                             else let m1 = del dst m; ch = childrenOf m1 frm in
                               (Inr (), fold (move_child frm dst) ch (put dst n (del frm m1)))
                         | None \<Rightarrow>
                             let ch = childrenOf m frm in
                               (Inr (), fold (move_child frm dst) ch (put dst n (del frm m))))))))"

definition Symlink :: "string \<Rightarrow> string \<Rightarrow> (mem, unit) prog" where
  "Symlink target linkname =
     (if linkname = [] \<or> target = [] then throw [ErrFsInvalid]
      else bind (fail ''symlink'' (canon linkname)) (\<lambda>_ m.
        case resolve m linkname False of
          Inl e \<Rightarrow> (Inl e, m)
        | Inr p \<Rightarrow>
            (case node_at m p of
               Some _ \<Rightarrow> (Inl [ErrExist], m)
             | None \<Rightarrow>
                 (case requireDir m p of
                    Inl e \<Rightarrow> (Inl e, m)
                  | Inr _ \<Rightarrow>
                      (Inr (), put p \<lparr> mode = ModeSymlink OR ModePerm, data = [], link = Slash target \<rparr> m)))))"

definition Readlink :: "string \<Rightarrow> (mem, string) prog" where
  "Readlink name m =
     (case node m name False of
        Inl e \<Rightarrow> (Inl e, m)
      | Inr (p, n) \<Rightarrow> (if \<not> isSymlink n then (Inl [ErrNotSymlink], m) else (Inr (link n), m)))"

definition SyncDir :: "string \<Rightarrow> (mem, unit) prog" where
  "SyncDir name = bind (fail ''sync'' (canon name)) (\<lambda>_ m.
     (case node m name True of Inl e \<Rightarrow> (Inl e, m) | Inr _ \<Rightarrow> (Inr (), m)))"

section \<open>Helpers of fsx.go\<close>

definition IsNotExist :: "error \<Rightarrow> bool" where
  "IsNotExist e = is_err ErrNotExist e"

text \<open>\<open>io.ReadAll\<close> of a file through a limit of \<open>limit + 1\<close> bytes.\<close>

definition ReadFile :: "string \<Rightarrow> int \<Rightarrow> (mem, string) prog" where
  "ReadFile name limit =
     (if limit \<le> 0 then throw [ErrBadLimit]
      else bind (Open name) (\<lambda>file.
        case reader file of
          None \<Rightarrow> throw [ErrIsDir]
        | Some bs \<Rightarrow>
            let d = take (nat limit + 1) bs in
            if int (length d) > limit then throw [ErrTooLarge] else ret d))"

definition TempName :: "string \<Rightarrow> (mem, string) prog" where
  "TempName name m =
     (let s = tmpSeq m + 1 in
      (Inr (name @ ''.idunn-'' @ show_nat (pid m) @ ''-'' @ show_nat (unat s) @ ''.tmp''), m\<lparr>tmpSeq := s\<rparr>))"

text \<open>
  Both writers go through the same calls once the scratch file exists: fill it (\<open>produce\<close>, one
  \<open>Write\<close> for \<open>WriteFileAtomic\<close>), sync it, close it, rename it over the name, sync the directory.
\<close>

definition fill_scratch :: "string \<Rightarrow> string \<Rightarrow> memWriter \<Rightarrow> (mem, unit) prog \<Rightarrow> (mem, unit) prog" where
  "fill_scratch tmp name w produce =
     attempt produce (\<lambda>e. bind (ignore (Close w)) (\<lambda>_. bind (ignore (Remove tmp)) (\<lambda>_. throw e))) (\<lambda>_.
     attempt (Sync w) (\<lambda>e. bind (ignore (Close w)) (\<lambda>_. bind (ignore (Remove tmp)) (\<lambda>_. throw e))) (\<lambda>_.
     attempt (Close w) (\<lambda>e. bind (ignore (Remove tmp)) (\<lambda>_. throw e)) (\<lambda>_.
     attempt (Rename tmp name) (\<lambda>e. bind (ignore (Remove tmp)) (\<lambda>_. throw e)) (\<lambda>_.
     SyncDir (Dir name)))))"

definition WriteStreamAtomic ::
  "string \<Rightarrow> 32 word \<Rightarrow> (memWriter \<Rightarrow> (mem, unit) prog) \<Rightarrow> (mem, unit) prog" where
  "WriteStreamAtomic name md produce =
     bind (TempName name) (\<lambda>tmp. bind (Create tmp md) (\<lambda>w. fill_scratch tmp name w (produce w)))"

definition WriteFileAtomic :: "string \<Rightarrow> string \<Rightarrow> 32 word \<Rightarrow> (mem, unit) prog" where
  "WriteFileAtomic name bs md =
     bind (TempName name) (\<lambda>tmp. bind (Create tmp md) (\<lambda>w. fill_scratch tmp name w (Write w bs)))"

end
