(* ===== verification/FsxLaws.thy ===== *)
theory FsxLaws
  imports Fsx
begin

text \<open>
  The laws of the in-memory filesystem: what each operation does to the node table, the
  well-formedness invariant every operation keeps, and the durable-write contract of
  \<open>WriteFileAtomic\<close> under an arbitrary failure hook.
\<close>

section \<open>The node table\<close>

named_theorems fs_simps \<open>effects of the primitive updates on the node table\<close>

lemma node_at_put [simp, fs_simps]: "node_at (put p n m) = (node_at m)(p \<mapsto> n)"
  by (auto simp: node_at_def put_def update_conv')

lemma node_at_del [simp, fs_simps]: "node_at (del p m) = (node_at m)(p := None)"
  by (auto simp: node_at_def del_def delete_conv')

lemma node_at_calls [simp]: "node_at (m\<lparr>calls := c\<rparr>) = node_at m"
  by (auto simp: node_at_def)

lemma node_at_tmpSeq [simp]: "node_at (m\<lparr>tmpSeq := c\<rparr>) = node_at m"
  by (auto simp: node_at_def)

lemma node_at_Fail [simp]: "node_at (m\<lparr>Fail := h\<rparr>) = node_at m"
  by (auto simp: node_at_def)

lemma node_at_pid [simp]: "node_at (m\<lparr>pid := i\<rparr>) = node_at m"
  by (auto simp: node_at_def)

text \<open>What no operation changes: the hook and the process id; the counters only grow.\<close>

definition same_env :: "mem \<Rightarrow> mem \<Rightarrow> bool" where
  "same_env m m' \<longleftrightarrow> Fail m' = Fail m \<and> pid m' = pid m \<and> calls m \<le> calls m'"

lemma same_env_refl [simp]: "same_env m m"
  by (simp add: same_env_def)

lemma same_env_trans: "same_env a b \<Longrightarrow> same_env b c \<Longrightarrow> same_env a c"
  by (auto simp: same_env_def)

lemma set_childrenOf:
  "set (childrenOf m p) =
     {k. node_at m k \<noteq> None \<and> k \<noteq> p \<and> prefix (if p = ''/'' then ''/'' else p @ ''/'') k}"
  by (auto simp: childrenOf_def Let_def node_at_def map_of_eq_None_iff)

lemma distinct_childrenOf [simp]: "distinct (childrenOf m p)"
  by (simp add: childrenOf_def Let_def)

lemma node_at_fold_del: "node_at (fold del ks m) q = (if q \<in> set ks then None else node_at m q)"
  by (induction ks arbitrary: m) auto

lemma fail_cases: "fail op name m = (r, m') \<Longrightarrow> m' = m\<lparr>calls := calls m + 1\<rparr>"
  by (auto simp: fail_def split: option.splits)

section \<open>Resolved names are keys\<close>

definition is_key :: "string \<Rightarrow> bool" where
  "is_key p \<longleftrightarrow> is_clean p \<or> p = ''/..''"

definition link_elem :: "string \<Rightarrow> bool" where
  "link_elem e \<longleftrightarrow> e \<noteq> [] \<and> e \<noteq> ''.'' \<and> slash \<notin> set e"

lemma splitElems_elems: "e \<in> set (splitElems p) \<Longrightarrow> link_elem e"
  by (auto simp: splitElems_def Let_def link_elem_def split: if_splits dest: split_on_no_sep)

lemma joinPath_key:
  assumes "link_elem e"
  shows "is_key (joinPath cur e)"
proof -
  have rel: "is_clean e" if "e \<noteq> ''..''"
    using assms that clean_rel_path [of "[e]"]
    by (simp add: is_clean_def rel_path_def rel_normal_def link_elem_def)
  have dots: "is_clean ''..''" by (simp add: is_clean_def path_clean_def rooted_def)
  have abs: "is_clean (slash # e)" if "e \<noteq> ''..''"
    using assms that clean_abs_path [of "[e]"]
    by (simp add: is_clean_def abs_path_def simple_def link_elem_def)
  show ?thesis
    using rel dots abs assms
    by (auto simp: joinPath_def is_key_def path_join_def link_elem_def)
qed

lemma resolve_loop_key:
  "is_key cur \<Longrightarrow> \<forall>e\<in>set es. link_elem e \<Longrightarrow> resolve_loop nd f hops cur es = Inr p \<Longrightarrow> is_key p"
proof (induction nd f hops cur es rule: resolve_loop.induct)
  case (2 nd f hops cur e rest)
  have root: "is_key ''/''" by (simp add: is_key_def is_clean_def path_clean_def rooted_def)
  have j: "is_key (joinPath cur e)" using 2 by (simp add: joinPath_key)
  show ?case
  proof (cases "nd (joinPath cur e)")
    case None
    then show ?thesis using 2 j by simp
  next
    case (Some n)
    show ?thesis
    proof (cases "isSymlink n \<and> (f \<or> rest \<noteq> [])")
      case True
      then show ?thesis
        using "2.IH"(2) [OF refl Some True] "2.prems" Some root
        by (auto simp: Let_def split: if_splits dest: splitElems_elems)
    next
      case False
      then show ?thesis using "2.IH"(3) [OF refl Some False] "2.prems" Some j by auto
    qed
  qed
qed simp

lemma resolve_key: "resolve m name f = Inr p \<Longrightarrow> is_key p"
  unfolding resolve_def Let_def
  by (erule resolve_loop_key [rotated 2])
    (auto simp: is_key_def is_clean_def path_clean_def rooted_def dest: splitElems_elems)

section \<open>Well-formed trees\<close>

text \<open>Everything below a name has a directory at that name.\<close>

definition dir_at :: "mem \<Rightarrow> string \<Rightarrow> bool" where
  "dir_at m p \<longleftrightarrow> (\<exists>n. node_at m p = Some n \<and> isDir n)"

definition wf_mem :: "mem \<Rightarrow> bool" where
  "wf_mem m \<longleftrightarrow> (\<forall>p q. p \<noteq> [] \<and> prefix (p @ ''/'') q \<and> node_at m q \<noteq> None \<longrightarrow> dir_at m p)"

definition ancestors_ok :: "mem \<Rightarrow> string \<Rightarrow> bool" where
  "ancestors_ok m q \<longleftrightarrow> (\<forall>p. p \<noteq> [] \<and> prefix (p @ ''/'') q \<longrightarrow> dir_at m p)"

lemma wf_mem_alt: "wf_mem m \<longleftrightarrow> (\<forall>q. node_at m q \<noteq> None \<longrightarrow> ancestors_ok m q)"
  by (auto simp: wf_mem_def ancestors_ok_def)

lemma wf_mem_cong: "node_at m = node_at m' \<Longrightarrow> wf_mem m = wf_mem m'"
  by (simp add: wf_mem_def dir_at_def)

lemma key_ancestor:
  assumes "is_key p" "a \<noteq> []" "prefix (a @ ''/'') p"
  shows "a = path_dir p \<or> prefix (a @ ''/'') (path_dir p)"
proof (cases "is_clean p")
  case True
  then show ?thesis using assms clean_ancestor by blast
next
  case False
  then have "p = ''/..''" using assms by (simp add: is_key_def)
  then show ?thesis using assms by (auto simp: prefix_def Cons_eq_append_conv)
qed

lemma requireDir_ancestors:
  assumes "wf_mem m" "is_key p" "requireDir m p = Inr u"
  shows "ancestors_ok m p"
proof -
  have d: "dir_at m (path_dir p)"
    using assms(3) by (auto simp: requireDir_def dir_at_def split: option.splits if_splits)
  then have "node_at m (path_dir p) \<noteq> None" by (auto simp: dir_at_def)
  with assms(1) have "ancestors_ok m (path_dir p)" by (simp add: wf_mem_alt)
  then show ?thesis
    using d key_ancestor [OF assms(2)] by (auto simp: ancestors_ok_def)
qed

lemma dir_at_put: "dir_at (put p n m) q = (if q = p then isDir n else dir_at m q)"
  by (auto simp: dir_at_def)

lemma dir_at_del: "dir_at (del p m) q = (q \<noteq> p \<and> dir_at m q)"
  by (auto simp: dir_at_def)

lemma not_own_ancestor: "\<not> prefix (p @ ''/'') p"
  by (auto simp: prefix_def)

lemma wf_put:
  assumes "wf_mem m" "ancestors_ok m p" "dir_at m p \<longrightarrow> isDir n"
  shows "wf_mem (put p n m)"
  unfolding wf_mem_def
proof (intro allI impI)
  fix a q
  assume a: "a \<noteq> [] \<and> prefix (a @ ''/'') q \<and> node_at (put p n m) q \<noteq> None"
  have "dir_at m a"
  proof (cases "q = p")
    case True
    then show ?thesis using a assms(2) by (auto simp: ancestors_ok_def)
  next
    case False
    then show ?thesis using a assms(1) by (auto simp: wf_mem_def)
  qed
  then show "dir_at (put p n m) a" using assms(3) by (auto simp: dir_at_put)
qed

lemma wf_del:
  assumes "wf_mem m" "\<forall>q. prefix (p @ ''/'') q \<longrightarrow> node_at m q = None"
  shows "wf_mem (del p m)"
  using assms by (auto simp: wf_mem_def dir_at_del split: if_splits)

lemma childrenOf_below: "p \<noteq> ''/'' \<Longrightarrow>
  set (childrenOf m p) = {k. node_at m k \<noteq> None \<and> prefix (p @ ''/'') k}"
  using not_own_ancestor [of p] by (auto simp: set_childrenOf)

lemma childrenOf_root:
  "k \<in> set (childrenOf m ''/'') \<longleftrightarrow> node_at m k \<noteq> None \<and> k \<noteq> ''/'' \<and> prefix ''/'' k"
  by (auto simp: set_childrenOf)

lemma wf_no_double_slash: "wf_mem m \<Longrightarrow> \<not> dir_at m p \<Longrightarrow> p \<noteq> [] \<Longrightarrow> prefix (p @ ''/'') q \<Longrightarrow> node_at m q = None"
  unfolding wf_mem_def by blast

lemma prefix_slash_children: "prefix (p @ ''/'') q \<Longrightarrow> p = ''/'' \<Longrightarrow> prefix ''/'' q \<and> q \<noteq> ''/''"
  by (auto simp: prefix_def)

lemma wf_Remove_node:
  assumes "wf_mem m" "childrenOf m p = []"
  shows "wf_mem (del p m)"
proof (rule wf_del [OF assms(1)], intro allI impI)
  fix q
  assume q: "prefix (p @ ''/'') q"
  have "q \<notin> set (childrenOf m p)" using assms(2) by simp
  then show "node_at m q = None"
    using q not_own_ancestor [of p] prefix_slash_children [OF q] by (auto simp: set_childrenOf split: if_splits)
qed

lemma wf_RemoveAll_node:
  assumes "wf_mem m"
  shows "wf_mem (del p (fold del (childrenOf m p) m))"
  unfolding wf_mem_def
proof (intro allI impI)
  fix a q
  let ?m = "del p (fold del (childrenOf m p) m)"
  assume a: "a \<noteq> [] \<and> prefix (a @ ''/'') q \<and> node_at ?m q \<noteq> None"
  then have q: "q \<noteq> p" "q \<notin> set (childrenOf m p)" "node_at m q \<noteq> None"
    by (auto simp: node_at_fold_del split: if_splits)
  have d: "dir_at m a" using a q assms by (auto simp: wf_mem_def)
  have "a \<noteq> p"
    using a q prefix_slash_children [of p q] by (auto simp: set_childrenOf split: if_splits)
  moreover have "a \<notin> set (childrenOf m p)"
  proof
    assume "a \<in> set (childrenOf m p)"
    then have "prefix (if p = ''/'' then ''/'' else p @ ''/'') a" by (simp add: set_childrenOf)
    moreover have "prefix a q" using a by (auto dest: append_prefixD)
    ultimately have "prefix (if p = ''/'' then ''/'' else p @ ''/'') q" by (rule prefix_order.trans)
    with q show False by (simp add: set_childrenOf)
  qed
  ultimately show "dir_at ?m a" using d by (auto simp: dir_at_def node_at_fold_del)
qed

section \<open>Rename moves a subtree\<close>

text \<open>
  The loop of \<open>Rename\<close>: every key below the old name reappears below the new one and the old
  keys are gone, provided no new key is an old one.
\<close>

lemma move_children:
  assumes "distinct ks" "\<forall>k\<in>set ks. prefix frm k"
    "\<forall>k\<in>set ks. \<forall>j\<in>set ks. dst @ drop (length frm) j \<noteq> k"
  shows "node_at (fold (move_child frm dst) ks m) q =
    (if q \<in> set ks then None
     else if \<exists>k\<in>set ks. q = dst @ drop (length frm) k \<and> node_at m k \<noteq> None
     then node_at m (frm @ drop (length dst) q)
     else node_at m q)"
  using assms
proof (induction ks arbitrary: m)
  case (Cons k ks)
  then obtain r where k: "k = frm @ r" by (auto simp: prefix_def)
  have k': "k \<notin> set ks" using Cons.prems by auto
  note IH = Cons.IH [of "move_child frm dst k m"]
  have eq: "k = j" if "j \<in> set (k # ks)" "dst @ drop (length frm) j = dst @ r" for j
    using that k Cons.prems(2) by (auto simp: prefix_def)
  show ?case
  proof (cases "node_at m k")
    case None
    then have "move_child frm dst k m = m" by (simp add: move_child_def)
    then show ?thesis using IH Cons.prems None by auto
  next
    case (Some c)
    have mv: "move_child frm dst k m = put (dst @ r) c (del k m)" using Some k by (simp add: move_child_def)
    have new: "dst @ r \<notin> set (k # ks)" using Cons.prems(3) k by auto
    have oth: "node_at (move_child frm dst k m) j = node_at m j" if "j \<in> set ks" for j
      using that new k' by (auto simp: mv)
    have bck: "frm @ drop (length dst) q = j" if "j \<in> set (k # ks)" "q = dst @ drop (length frm) j" for j
      using that Cons.prems(2) by (auto simp: prefix_def)
    show ?thesis
    proof (cases "q = dst @ r")
      case True
      have "\<not> (\<exists>j\<in>set ks. q = dst @ drop (length frm) j)" using eq k' True by auto
      then have "node_at (fold (move_child frm dst) (k # ks) m) q = Some c"
        using IH Cons.prems new True by (auto simp: mv)
      then show ?thesis using True new k Some by auto
    next
      case False
      have q1: "node_at (move_child frm dst k m) q = (if q = k then None else node_at m q)"
        using False by (simp add: mv)
      have q2: "node_at (move_child frm dst k m) (frm @ drop (length dst) q) = node_at m (frm @ drop (length dst) q)"
        if "j \<in> set ks" "q = dst @ drop (length frm) j" for j
        using bck [of j] oth [of j] that by simp
      have q3: "\<not> (\<exists>j\<in>set ks. q = dst @ drop (length frm) j)" if "q = k"
        using that Cons.prems(3) by auto
      have ex: "(\<exists>j\<in>set ks. q = dst @ drop (length frm) j \<and> node_at (move_child frm dst k m) j \<noteq> None) \<longleftrightarrow>
        (\<exists>j\<in>set (k # ks). q = dst @ drop (length frm) j \<and> node_at m j \<noteq> None)"
        using oth False k by auto
      have IH': "node_at (fold (move_child frm dst) (k # ks) m) q =
        (if q \<in> set ks then None
         else if \<exists>j\<in>set (k # ks). q = dst @ drop (length frm) j \<and> node_at m j \<noteq> None
         then node_at (move_child frm dst k m) (frm @ drop (length dst) q)
         else node_at (move_child frm dst k m) q)"
        using IH Cons.prems unfolding ex by simp
      show ?thesis
      proof (cases "\<exists>j\<in>set (k # ks). q = dst @ drop (length frm) j \<and> node_at m j \<noteq> None")
        case True
        then obtain j where j: "j \<in> set ks" "q = dst @ drop (length frm) j" using ex by blast
        show ?thesis unfolding IH' q2 [OF j] using True j q3 by (auto simp del: bex_simps)
      next
        case no: False
        show ?thesis unfolding IH' q1 if_not_P [OF no] by simp
      qed
    qed
  qed
qed simp

text \<open>The node table after a successful \<open>Rename\<close> of \<open>frm\<close> to \<open>dst\<close>, neither below the other.\<close>

definition renamed :: "string \<Rightarrow> string \<Rightarrow> memNode \<Rightarrow> (string \<Rightarrow> memNode option) \<Rightarrow> string \<Rightarrow> memNode option" where
  "renamed frm dst n nd q =
     (if q = dst then Some n
      else if q = frm \<or> prefix (frm @ ''/'') q then None
      else if prefix (dst @ ''/'') q then nd (frm @ drop (length dst) q)
      else nd q)"

lemma below_comparable:
  assumes "prefix (a @ ''/'') q" "prefix (b @ ''/'') q"
  shows "a = b \<or> prefix (a @ ''/'') b \<or> prefix (b @ ''/'') a"
proof -
  have c: "x = y \<or> prefix (x @ ''/'') y" if "prefix (x @ ''/'') (y @ ''/'')" for x y
    using that by (auto simp: prefix_snoc)
  from assms have "prefix (a @ ''/'') (b @ ''/'') \<or> prefix (b @ ''/'') (a @ ''/'')"
    by (rule prefix_same_cases)
  then show ?thesis using c by blast
qed

lemma rename_table:
  assumes "frm \<noteq> ''/''" "frm \<noteq> dst"
    "\<not> prefix (frm @ ''/'') dst" "\<not> prefix (dst @ ''/'') frm"
    "\<forall>q. prefix (dst @ ''/'') q \<longrightarrow> node_at m q = None"
    "\<forall>q. q \<noteq> dst \<longrightarrow> node_at m1 q = node_at m q"
  shows "node_at (fold (move_child frm dst) (childrenOf m1 frm) (put dst n (del frm m1))) =
    renamed frm dst n (node_at m)"
proof
  fix q
  let ?ks = "childrenOf m1 frm" and ?m2 = "put dst n (del frm m1)"
  have ks: "set ?ks = {k. node_at m k \<noteq> None \<and> prefix (frm @ ''/'') k}"
    using assms(1,3,6) by (auto simp: childrenOf_below)
  have pf: "prefix frm k \<and> prefix (dst @ ''/'') (dst @ drop (length frm) k)" if "k \<in> set ?ks" for k
    using that by (auto simp: ks prefix_def)
  have clash: False if "prefix (frm @ ''/'') k" "prefix (dst @ ''/'') k" for k
    using below_comparable [OF that] assms by blast
  have disj: "\<forall>k\<in>set ?ks. \<forall>j\<in>set ?ks. dst @ drop (length frm) j \<noteq> k"
  proof (intro ballI notI)
    fix k j
    assume "k \<in> set ?ks" "j \<in> set ?ks" "dst @ drop (length frm) j = k"
    then have "prefix (frm @ ''/'') k" "prefix (dst @ ''/'') k" using pf [of j] ks by auto
    then show False by (rule clash)
  qed
  have fold: "node_at (fold (move_child frm dst) ?ks ?m2) q =
    (if q \<in> set ?ks then None
     else if \<exists>k\<in>set ?ks. q = dst @ drop (length frm) k \<and> node_at ?m2 k \<noteq> None
     then node_at ?m2 (frm @ drop (length dst) q)
     else node_at ?m2 q)"
    by (rule move_children) (use disj pf in auto)
  have self: "frm \<notin> set ?ks" "dst \<notin> set ?ks" using not_own_ancestor assms(3) by (auto simp: ks)
  have same: "node_at ?m2 k = node_at m k" if "k \<in> set ?ks" for k
    using that self assms(6) by auto
  show "node_at (fold (move_child frm dst) ?ks ?m2) q = renamed frm dst n (node_at m) q"
  proof (cases "prefix (dst @ ''/'') q")
    case True
    then obtain r where q: "q = dst @ ''/'' @ r" by (auto simp: prefix_def)
    have nb: "\<not> prefix (frm @ ''/'') q" using True clash by blast
    then have nq: "q \<notin> set ?ks" "q \<noteq> frm" "q \<noteq> dst" "\<not> prefix (frm @ ''/'') q"
      using True ks assms(4) q by auto
    have ex: "(\<exists>k\<in>set ?ks. q = dst @ drop (length frm) k \<and> node_at ?m2 k \<noteq> None) \<longleftrightarrow> frm @ ''/'' @ r \<in> set ?ks"
    proof
      assume "\<exists>k\<in>set ?ks. q = dst @ drop (length frm) k \<and> node_at ?m2 k \<noteq> None"
      then obtain k where k: "k \<in> set ?ks" "q = dst @ drop (length frm) k" by blast
      with q pf [of k] have "k = frm @ ''/'' @ r" by (auto simp: prefix_def)
      with k show "frm @ ''/'' @ r \<in> set ?ks" by simp
    next
      assume a: "frm @ ''/'' @ r \<in> set ?ks"
      then have "node_at ?m2 (frm @ ''/'' @ r) \<noteq> None" using same ks by auto
      with a q show "\<exists>k\<in>set ?ks. q = dst @ drop (length frm) k \<and> node_at ?m2 k \<noteq> None" by force
    qed
    have "renamed frm dst n (node_at m) q = node_at m (frm @ ''/'' @ r)"
      using nq True q by (simp add: renamed_def)
    moreover have "node_at m q = None" using assms(5) True by blast
    ultimately show ?thesis
      using fold nq ex same [of "frm @ ''/'' @ r"] q assms(6) by (auto simp: ks)
  next
    case False
    have "\<not> (\<exists>k\<in>set ?ks. q = dst @ drop (length frm) k \<and> node_at ?m2 k \<noteq> None)"
    proof
      assume "\<exists>k\<in>set ?ks. q = dst @ drop (length frm) k \<and> node_at ?m2 k \<noteq> None"
      then obtain k where "k \<in> set ?ks" "q = dst @ drop (length frm) k" by blast
      with pf [of k] False show False by simp
    qed
    then have "node_at (fold (move_child frm dst) ?ks ?m2) q = (if q \<in> set ?ks then None else node_at ?m2 q)"
      using fold by presburger
    also have "\<dots> = renamed frm dst n (node_at m) q"
      using self assms(2,3,6) False by (auto simp: renamed_def ks)
    finally show ?thesis .
  qed
qed

lemma prefix_below_trans: "prefix (a @ ''/'') b \<Longrightarrow> prefix (b @ ''/'') c \<Longrightarrow> prefix (a @ ''/'') c"
  by (auto simp: prefix_def)

lemma wf_renamed:
  assumes wf: "wf_mem m" and n: "node_at m frm = Some n" and anc: "ancestors_ok m dst" and ne: "frm \<noteq> []"
    and d: "frm \<noteq> dst" "\<not> prefix (frm @ ''/'') dst" "\<not> prefix (dst @ ''/'') frm"
    and t: "node_at m' = renamed frm dst n (node_at m)"
  shows "wf_mem m'"
  unfolding wf_mem_def
proof (intro allI impI)
  fix a q
  assume a: "a \<noteq> [] \<and> prefix (a @ ''/'') q \<and> node_at m' q \<noteq> None"
  have keep: "dir_at m' b" if "dir_at m b" "b \<noteq> frm" "\<not> prefix (frm @ ''/'') b" "b \<noteq> dst" "\<not> prefix (dst @ ''/'') b" for b
    using that by (simp add: dir_at_def t renamed_def)
  have up: "dir_at m' b" if b: "b \<noteq> []" "prefix (b @ ''/'') dst" for b
  proof (rule keep)
    show "dir_at m b" using anc b by (simp add: ancestors_ok_def)
    show "b \<noteq> frm" "\<not> prefix (frm @ ''/'') b" "b \<noteq> dst" "\<not> prefix (dst @ ''/'') b"
      using b d not_own_ancestor [of dst] prefix_below_trans by blast+
  qed
  show "dir_at m' a"
  proof (cases "q = dst")
    case True
    then show ?thesis using up a by simp
  next
    case nd: False
    show ?thesis
    proof (cases "prefix (dst @ ''/'') q")
      case True
      then obtain r where q: "q = dst @ ''/'' @ r" by (auto simp: prefix_def)
      have nfq: "q \<noteq> frm" "\<not> prefix (frm @ ''/'') q"
        using True d below_comparable [of frm q dst] by blast+
      have src: "node_at m (frm @ ''/'' @ r) \<noteq> None"
        using a True nd nfq q by (simp add: t renamed_def)
      consider "a = dst" | "prefix (a @ ''/'') dst" | "prefix (dst @ ''/'') a"
        using below_comparable [of a q dst] a True by blast
      then show ?thesis
      proof cases
        case 1
        have "prefix (frm @ ''/'') (frm @ ''/'' @ r)" by simp
        with wf src ne have "dir_at m frm" unfolding wf_mem_def by blast
        then show ?thesis using 1 n by (simp add: dir_at_def t renamed_def)
      next
        case 2
        then show ?thesis using up a by blast
      next
        case 3
        then obtain u where u: "a = dst @ ''/'' @ u" by (auto simp: prefix_def)
        have "prefix ((frm @ ''/'' @ u) @ ''/'') (frm @ ''/'' @ r)" using a u q by simp
        with wf src ne have "dir_at m (frm @ ''/'' @ u)" unfolding wf_mem_def by blast
        moreover have "a \<noteq> dst" "a \<noteq> frm" "\<not> prefix (frm @ ''/'') a"
          using 3 u d below_comparable [of frm a dst] by auto
        ultimately show ?thesis using 3 u by (simp add: dir_at_def t renamed_def)
      qed
    next
      case False
      then have q: "q \<noteq> frm" "\<not> prefix (frm @ ''/'') q" "node_at m q \<noteq> None"
        using a nd by (auto simp: t renamed_def split: if_splits)
      show ?thesis
      proof (rule keep)
        show "dir_at m a" using wf a q unfolding wf_mem_def by blast
        show "a \<noteq> frm" "\<not> prefix (frm @ ''/'') a" "a \<noteq> dst" "\<not> prefix (dst @ ''/'') a"
          using a q False prefix_below_trans by blast+
      qed
    qed
  qed
qed

section \<open>Every operation keeps the tree well formed\<close>

lemma isDir_file [simp]: "\<not> isDir \<lparr> mode = md AND ModePerm, data = bs, link = l \<rparr>"
  and isSymlink_file [simp]: "\<not> isSymlink \<lparr> mode = md AND ModePerm, data = bs, link = l \<rparr>"
  and IsRegular_file [simp]: "IsRegular \<lparr> mode = md AND ModePerm, data = bs, link = l \<rparr>"
  by (simp_all add: isDir_def isSymlink_def IsRegular_def ModePerm_def ModeDir_def ModeSymlink_def ModeType_def
      and.assoc)

lemma isDir_dir_node [simp]: "isDir (dir_node md)" and isSymlink_dir_node [simp]: "\<not> isSymlink (dir_node md)"
  by (simp_all add: isDir_def isSymlink_def dir_node_def ModePerm_def ModeDir_def ModeSymlink_def
      bit.conj_disj_distrib2 and.assoc)

lemma isSymlink_link [simp]: "isSymlink \<lparr> mode = ModeSymlink OR ModePerm, data = d, link = l \<rparr>"
  and isDir_link [simp]: "\<not> isDir \<lparr> mode = ModeSymlink OR ModePerm, data = d, link = l \<rparr>"
  by (simp_all add: isDir_def isSymlink_def ModePerm_def ModeDir_def ModeSymlink_def)

lemma wf_calls [simp]: "wf_mem (m\<lparr>calls := c\<rparr>) = wf_mem m"
  by (rule wf_mem_cong) simp

lemma resolve_cong: "node_at m = node_at m' \<Longrightarrow> resolve m = resolve m'"
  by (intro ext) (simp only: resolve_def)

lemma resolve_calls [simp]: "resolve (m\<lparr>calls := c\<rparr>) = resolve m"
  by (rule resolve_cong) simp

lemma node_calls [simp]: "node (m\<lparr>calls := c\<rparr>) = node m"
  by (intro ext) (simp add: node_def split: sum.splits)

lemma requireDir_calls [simp]: "requireDir (m\<lparr>calls := c\<rparr>) = requireDir m"
  by (intro ext) (simp add: requireDir_def)

lemma childrenOf_calls [simp]: "childrenOf (m\<lparr>calls := c\<rparr>) = childrenOf m"
  by (intro ext) (simp add: childrenOf_def)

lemma node_key: "node m name f = Inr (p, n) \<Longrightarrow> is_key p \<and> node_at m p = Some n"
  by (auto simp: node_def split: if_splits sum.splits option.splits dest: resolve_key)

lemma key_not_Nil: "is_key p \<Longrightarrow> p \<noteq> []"
  by (auto simp: is_key_def is_clean_def path_clean_def rooted_def)

lemma wf_Create: "wf_mem m \<Longrightarrow> wf_mem (snd (Create name md m))"
  by (auto simp: Create_def prog_simps fail_def split: option.splits sum.splits
      intro!: wf_put requireDir_ancestors dest: resolve_key)
    (auto simp: dir_at_def)

lemma wf_Write: "wf_mem m \<Longrightarrow> wf_mem (snd (Write w bs m))"
proof -
  assume wf: "wf_mem m"
  have "wf_mem (put p (n\<lparr>data := d\<rparr>) m')" if "wf_mem m'" "node_at m' p = Some n" for m' p n d
    using that by (intro wf_put) (auto simp: wf_mem_alt dir_at_def isDir_def)
  with wf show ?thesis
    by (auto simp: Write_def prog_simps fail_def split: option.splits)
qed

lemma wf_Symlink: "wf_mem m \<Longrightarrow> wf_mem (snd (Symlink t name m))"
  by (auto simp: Symlink_def prog_simps fail_def split: option.splits sum.splits
      intro!: wf_put requireDir_ancestors dest: resolve_key)
    (auto simp: dir_at_def)

lemma wf_Remove: "wf_mem m \<Longrightarrow> wf_mem (snd (Remove name m))"
  by (auto simp: Remove_def prog_simps fail_def split: option.splits sum.splits intro!: wf_Remove_node)

lemma wf_RemoveAll: "wf_mem m \<Longrightarrow> wf_mem (snd (RemoveAll name m))"
  using wf_RemoveAll_node [of "m\<lparr>calls := calls m + 1\<rparr>"]
  by (auto simp: RemoveAll_def prog_simps fail_def split: option.splits sum.splits)

lemma joinPath_abs [path_simps]:
  assumes "simples xs" "simple y"
  shows "joinPath (abs_path xs) y = abs_path (xs @ [y])"
proof (cases "xs = []")
  case True
  then show ?thesis by (simp add: joinPath_def abs_path_def)
next
  case False
  have "abs_path xs \<noteq> ''/''" "abs_path xs \<noteq> ''.''" "abs_path xs \<noteq> []"
    using False simples_join_Nil [OF assms(1)] by (auto simp: abs_path_def)
  moreover have "y \<noteq> []" using assms(2) by (simp add: simple_def)
  ultimately show ?thesis
    using join_abs_path [of xs "[y]"] assms by (simp add: joinPath_def path_join_def)
qed

lemma splitElems_abs [path_simps]: "simples es \<Longrightarrow> splitElems (abs_path es) = es"
proof (cases "es = []")
  case False
  assume s: "simples es"
  have "join_with ''/'' es \<noteq> ''.''"
  proof
    assume "join_with ''/'' es = ''.''"
    then have "es = [''.'']" using split_on_join [of es slash] s False by (simp add: simples_no_slash)
    with s show False by (simp add: simple_def)
  qed
  moreover have "filter (\<lambda>e. e \<noteq> [] \<and> e \<noteq> ''.'') es = es"
    using s by (intro filter_True) (auto simp: simples_def simple_def)
  ultimately show ?thesis
    using s False split_on_join [of es slash] simples_join_Nil [OF s]
    by (simp add: splitElems_def abs_path_def simples_no_slash)
qed (simp add: splitElems_def abs_path_def)

lemma rel_normal_no_dot: "rel_normal es \<Longrightarrow> ''.'' \<notin> set es"
proof -
  have "''.'' \<notin> set (norm_elems r st xs)" if "''.'' \<notin> set st" for r st xs
    using that
  proof (induction r st xs rule: norm_elems.induct)
    case (2 r st e es)
    then show ?case by (cases st) auto
  qed simp
  from this [of "[]" False es] show "rel_normal es \<Longrightarrow> ''.'' \<notin> set es" by (simp add: rel_normal_def)
qed

lemma splitElems_rel: "rel_normal es \<Longrightarrow> splitElems (rel_path es) = es"
proof (cases "es = []")
  case False
  assume r: "rel_normal es"
  have j: "split_on slash (join_with ''/'' es) = es"
    using r False by (simp add: rel_normal_def split_on_join)
  have nd: "join_with ''/'' es \<noteq> ''.''"
  proof
    assume "join_with ''/'' es = ''.''"
    then have "es = [''.'']" using j by simp
    with rel_normal_no_dot [OF r] show False by simp
  qed
  have nr: "\<not> prefix ''/'' (join_with ''/'' es)"
    using rel_path_not_rooted [OF r] False by (simp add: rel_path_def rooted_def)
  have ne: "join_with ''/'' es \<noteq> []"
    using rel_normal_nonempty [OF r] False by (auto simp: join_with_eq_Nil)
  have "filter (\<lambda>e. e \<noteq> [] \<and> e \<noteq> ''.'') es = es"
    using rel_normal_no_dot [OF r] rel_normal_nonempty [OF r] by (intro filter_True) auto
  then show ?thesis
    using j nd nr ne False by (simp add: splitElems_def rel_path_def)
qed (simp add: splitElems_def rel_path_def)

lemma rel_normal_prefix: "rel_normal (xs @ ys) \<Longrightarrow> rel_normal xs"
  by (induction ys rule: rev_induct) (auto dest: rel_normal_butlast simp flip: append_assoc)

lemma joinPath_rel:
  assumes "rel_normal (xs @ [y])"
  shows "joinPath (rel_path xs) y = rel_path (xs @ [y])"
proof (cases "xs = []")
  case True
  then show ?thesis by (simp add: joinPath_def rel_path_def)
next
  case False
  have r: "rel_normal xs" using assms rel_normal_butlast by blast
  have "path_clean (rel_path xs) \<noteq> ''/''"
    using r rel_path_not_rooted [OF r] by (auto simp: rooted_def)
  then have 1: "rel_path xs \<noteq> ''/''" using r by simp
  have "splitElems (rel_path xs) \<noteq> []" using splitElems_rel [OF r] False by simp
  then have 2: "rel_path xs \<noteq> ''.''" "rel_path xs \<noteq> []" by (auto simp: splitElems_def)
  have "y \<noteq> []" using rel_normal_nonempty [OF assms] by simp
  moreover have "join_with ''/'' [rel_path xs, y] = rel_path (xs @ [y])"
    using False by (simp add: rel_path_def join_with_append)
  ultimately show ?thesis
    using 1 2 assms by (simp add: joinPath_def path_join_def)
qed

text \<open>The loop of \<open>MkdirAll\<close>, for absolute and relative names alike.\<close>

lemma wf_mkdir_loop:
  assumes step: "\<And>xs y ys. Q (xs @ y # ys) \<Longrightarrow> joinPath (F xs) y = F (xs @ [y])"
    and anc: "\<And>xs y ys a. Q (xs @ y # ys) \<Longrightarrow> a \<noteq> [] \<Longrightarrow> prefix (a @ ''/'') (F (xs @ [y])) \<Longrightarrow>
      (xs \<noteq> [] \<and> a = F xs) \<or> prefix (a @ ''/'') (F xs)"
    and none: "\<And>a. a \<noteq> [] \<Longrightarrow> \<not> prefix (a @ ''/'') (F [])"
  shows "Q (xs @ ys) \<Longrightarrow> wf_mem m \<Longrightarrow> (xs \<noteq> [] \<longrightarrow> dir_at m (F xs)) \<Longrightarrow>
    wf_mem (snd (mkdir_loop md (F xs) ys m))"
proof (induction ys arbitrary: xs m)
  case (Cons y ys)
  have j: "joinPath (F xs) y = F (xs @ [y])" using step Cons.prems(1) by blast
  have Q: "Q ((xs @ [y]) @ ys)" using Cons.prems(1) by simp
  show ?case
  proof (cases "node_at m (F (xs @ [y]))")
    case None
    have "ancestors_ok m (F (xs @ [y]))"
      unfolding ancestors_ok_def
    proof (intro allI impI)
      fix a
      assume a: "a \<noteq> [] \<and> prefix (a @ ''/'') (F (xs @ [y]))"
      then consider "xs \<noteq> []" "a = F xs" | "prefix (a @ ''/'') (F xs)" using anc Cons.prems(1) by blast
      then show "dir_at m a"
      proof cases
        case 1
        then show ?thesis using Cons.prems(3) by simp
      next
        case 2
        then have "xs \<noteq> []" using none a by auto
        then have "node_at m (F xs) \<noteq> None" using Cons.prems(3) by (auto simp: dir_at_def)
        then show ?thesis using Cons.prems(2) 2 a unfolding wf_mem_def by blast
      qed
    qed
    then have "wf_mem (put (F (xs @ [y])) (dir_node md) m)" using Cons.prems(2) by (simp add: wf_put)
    moreover have "dir_at (put (F (xs @ [y])) (dir_node md) m) (F (xs @ [y]))" by (simp add: dir_at_def)
    ultimately show ?thesis using Cons.IH [OF Q] None by (simp add: j Let_def)
  next
    case (Some n)
    show ?thesis
    proof (cases "isDir n")
      case True
      then have "dir_at m (F (xs @ [y]))" using Some by (simp add: dir_at_def)
      then show ?thesis using Cons.IH [OF Q Cons.prems(2)] Some True by (simp add: j Let_def)
    next
      case False
      then show ?thesis using Some Cons.prems by (simp add: j Let_def)
    qed
  qed
qed simp

lemma no_slash_prefix: "slash \<notin> set u \<Longrightarrow> \<not> prefix (a @ ''/'') u"
  by (auto simp: prefix_def)

lemma wf_mkdir_abs:
  assumes "simples es" "wf_mem m"
  shows "wf_mem (snd (mkdir_loop md ''/'' es m))"
proof -
  have root: "abs_path [] = ''/''" by (simp add: abs_path_def)
  have "wf_mem (snd (mkdir_loop md (abs_path []) es m))"
  proof (rule wf_mkdir_loop [where Q = simples])
    fix xs y ys a
    assume s: "simples (xs @ y # ys)" and a: "a \<noteq> []" "prefix (a @ ''/'') (abs_path (xs @ [y]))"
    then have "is_clean (abs_path (xs @ [y]))" "path_dir (abs_path (xs @ [y])) = abs_path xs"
      by (simp_all add: is_clean_def Dir_abs)
    from clean_ancestor [OF this(1) a] this(2)
    have c: "a = abs_path xs \<or> prefix (a @ ''/'') (abs_path xs)" by simp
    have "xs \<noteq> []" if "a = abs_path xs"
    proof
      assume "xs = []"
      then have "prefix ''//'' (slash # y)" using that a by (simp add: abs_path_def)
      then show False using s by (cases y) (auto simp: simple_def)
    qed
    with c show "xs \<noteq> [] \<and> a = abs_path xs \<or> prefix (a @ ''/'') (abs_path xs)" by blast
  next
    fix a :: string
    assume "a \<noteq> []"
    then show "\<not> prefix (a @ ''/'') (abs_path [])" by (auto simp: root prefix_def Cons_eq_append_conv)
  qed (use assms in \<open>auto simp: joinPath_abs\<close>)
  then show ?thesis by (simp add: root)
qed

lemma wf_mkdir_rel:
  assumes "rel_normal es" "wf_mem m"
  shows "wf_mem (snd (mkdir_loop md ''.'' es m))"
proof -
  have cur: "rel_path [] = ''.''" by (simp add: rel_path_def)
  have "wf_mem (snd (mkdir_loop md (rel_path []) es m))"
  proof (rule wf_mkdir_loop [where Q = rel_normal])
    fix xs y ys a
    assume s: "rel_normal (xs @ y # ys)" and a: "a \<noteq> []" "prefix (a @ ''/'') (rel_path (xs @ [y]))"
    then have r: "rel_normal (xs @ [y])" using rel_normal_prefix [of "xs @ [y]" ys] by simp
    then have ns: "slash \<notin> set y" by (simp add: rel_normal_def)
    have "xs \<noteq> []" using a no_slash_prefix [OF ns] by (auto simp: rel_path_def)
    moreover then have "rel_path (xs @ [y]) = rel_path xs @ slash # y"
      by (simp add: rel_path_def join_with_append)
    moreover obtain t where "rel_path (xs @ [y]) = a @ slash # t" using a by (auto simp: prefix_def)
    ultimately show "xs \<noteq> [] \<and> a = rel_path xs \<or> prefix (a @ ''/'') (rel_path xs)"
      using last_slash_prefix ns by metis
  next
    fix xs y ys
    assume "rel_normal (xs @ y # ys)"
    then have "rel_normal (xs @ [y])" using rel_normal_prefix [of "xs @ [y]" ys] by simp
    then show "joinPath (rel_path xs) y = rel_path (xs @ [y])" by (rule joinPath_rel)
  qed (use assms in \<open>auto simp: rel_path_def prefix_def Cons_eq_append_conv\<close>)
  then show ?thesis by (simp add: cur)
qed

lemma wf_mkdir_key:
  assumes "is_key p" "wf_mem m"
  shows "wf_mem (snd (mkdir_loop md (if prefix ''/'' p then ''/'' else ''.'') (splitElems p) m))"
proof (cases "is_clean p")
  case True
  then show ?thesis
  proof (cases rule: is_clean_cases)
    case (1 es)
    then show ?thesis using wf_mkdir_abs assms rooted_abs_path [of es] by (simp add: splitElems_abs rooted_def)
  next
    case (2 es)
    then show ?thesis using wf_mkdir_rel assms rel_path_not_rooted [of es] by (simp add: splitElems_rel rooted_def)
  qed
next
  case False
  then have p: "p = ''/..''" using assms by (simp add: is_key_def)
  have "ancestors_ok m ''/..''" by (auto simp: ancestors_ok_def prefix_def Cons_eq_append_conv)
  then have "wf_mem (put ''/..'' (dir_node md) m)" using assms(2) by (simp add: wf_put)
  then show ?thesis
    using assms(2) by (simp add: p splitElems_def joinPath_def Let_def split: option.splits if_splits)
qed

lemma wf_MkdirAll:
  assumes "wf_mem m"
  shows "wf_mem (snd (MkdirAll name md m))"
proof -
  have "wf_mem (snd (mkdir_loop md (if prefix ''/'' p then ''/'' else ''.'') (splitElems p) (m\<lparr>calls := c\<rparr>)))"
    if "resolve m name True = Inr p" for p c
    using that assms by (intro wf_mkdir_key) (auto dest: resolve_key)
  with assms show ?thesis
    by (simp add: MkdirAll_def prog_simps fail_def split: option.splits sum.splits)
qed

text \<open>
  Renaming the root directory itself is the one call that is not refused although the
  destination lies below it: the guard compares \<open>//\<close> with the destination.
\<close>

lemma Rename_ok_table:
  assumes wf: "wf_mem m" and n: "node m oldname False = Inr (frm, n)" and dst: "resolve m newname False = Inr dst"
    and root: "frm \<noteq> ''/''" and r: "Rename oldname newname m = (Inr (), m')"
  shows "node_at m' = (if frm = dst then node_at m else renamed frm dst n (node_at m)) \<and> wf_mem m'"
proof -
  let ?m0 = "m\<lparr>calls := calls m + 1\<rparr>"
  note k = node_key [OF n] and kd = resolve_key [OF dst]
  show ?thesis
  proof (cases "frm = dst")
    case True
    then show ?thesis
      using r n dst wf by (auto simp: Rename_def prog_simps fail_def split: option.splits sum.splits if_splits)
  next
    case ne: False
    from r n dst have c1: "Fail m (calls m) ''rename'' (canon newname) = None" and c2: "newname \<noteq> []"
      by (auto simp: Rename_def prog_simps fail_def split: option.splits if_splits)
    from r n dst ne c1 c2 obtain u where req: "requireDir m dst = Inr u"
      by (cases "requireDir m dst") (simp_all add: Rename_def prog_simps fail_def)
    have ins: "\<not> prefix (frm @ ''/'') (dst @ ''/'')"
      using r n dst ne c1 c2 req by (auto simp: Rename_def prog_simps fail_def)
    have ex: "isDir e = isDir n \<and> (isDir e \<longrightarrow> childrenOf m dst = [])" if "node_at m dst = Some e" for e
      using r n dst ne c1 c2 req ins that by (simp add: Rename_def prog_simps fail_def split: if_splits)
    have m': "m' = (if node_at m dst = None then fold (move_child frm dst) (childrenOf ?m0 frm) (put dst n (del frm ?m0))
        else fold (move_child frm dst) (childrenOf (del dst ?m0) frm) (put dst n (del frm (del dst ?m0))))"
      using r n dst ne c1 c2 req ins
      by (cases "node_at m dst") (simp_all add: Rename_def prog_simps fail_def Let_def split: if_splits)
    have nb: "\<not> prefix (frm @ ''/'') dst" using ins by (auto dest: prefix_order.trans)
    have below: "node_at m q = None" if q: "prefix (dst @ ''/'') q" for q
    proof (cases "dir_at m dst")
      case True
      then have "childrenOf m dst = []" using ex by (auto simp: dir_at_def)
      then show ?thesis
        using q not_own_ancestor [of dst] prefix_slash_children [OF q] set_childrenOf [of m dst]
        by (auto split: if_splits)
    next
      case False
      then show ?thesis using wf_no_double_slash [OF wf False _ q] key_not_Nil [OF kd] by blast
    qed
    have nb2: "\<not> prefix (dst @ ''/'') frm" using below [of frm] k by auto
    have t: "node_at m' = renamed frm dst n (node_at m)"
      unfolding m' using rename_table [OF root ne nb nb2, of m] below by (simp del: childrenOf_calls)
    moreover have "wf_mem m'"
      using wf_renamed [OF wf _ requireDir_ancestors [OF wf kd req] _ ne nb nb2 t] k key_not_Nil [of frm] by simp
    ultimately show ?thesis using ne by simp
  qed
qed

lemma Rename_error_table: "Rename oldname newname m = (Inl e, m') \<Longrightarrow> node_at m' = node_at m"
  by (auto simp: Rename_def prog_simps fail_def Let_def split: option.splits sum.splits prod.splits if_splits)

lemma Rename_ok_names:
  assumes "Rename oldname newname m = (Inr (), m')"
  shows "\<exists>frm n dst. node m oldname False = Inr (frm, n) \<and> resolve m newname False = Inr dst"
proof (cases "node m oldname False")
  case (Inl e)
  then show ?thesis using assms by (auto simp: Rename_def prog_simps fail_def split: option.splits if_splits)
next
  case (Inr fn)
  then show ?thesis
    using assms
    by (cases "resolve m newname False"; cases fn)
      (auto simp: Rename_def prog_simps fail_def split: option.splits if_splits)
qed

lemma wf_Rename:
  assumes "wf_mem m" "resolve m oldname False \<noteq> Inr ''/''"
  shows "wf_mem (snd (Rename oldname newname m))"
proof (cases "Rename oldname newname m")
  case (Pair r m')
  show ?thesis
  proof (cases r)
    case (Inl e)
    then show ?thesis using Rename_error_table [of oldname newname m e m'] Pair assms(1) wf_mem_cong [of m' m] by simp
  next
    case (Inr u)
    then obtain frm n dst where n: "node m oldname False = Inr (frm, n)" "resolve m newname False = Inr dst"
      using Rename_ok_names Pair by fastforce
    moreover have "frm \<noteq> ''/''" using n assms(2) by (auto simp: node_def split: if_splits sum.splits option.splits)
    ultimately show ?thesis using Rename_ok_table [OF assms(1)] Pair Inr by simp
  qed
qed

text \<open>
  Every sequence of calls on a \<open>Mem\<close>.  Reading operations change nothing but the call counter, so
  one rule with an arbitrary new counter stands for them; the hook may be replaced between calls.
\<close>

inductive mem_step :: "mem \<Rightarrow> mem \<Rightarrow> bool" where
  create: "mem_step m (snd (Create name md m))"
| writing: "mem_step m (snd (Write w bs m))"
| mkdirall: "mem_step m (snd (MkdirAll name md m))"
| remove: "mem_step m (snd (Remove name m))"
| removeall: "mem_step m (snd (RemoveAll name m))"
| rename: "resolve m oldname False \<noteq> Inr ''/'' \<Longrightarrow> mem_step m (snd (Rename oldname newname m))"
| symlink: "mem_step m (snd (Symlink target name m))"
| tempname: "mem_step m (snd (TempName name m))"
| open_file: "mem_step m (snd (Open name m))"
| sync: "mem_step m (snd (Sync w m))"
| syncdir: "mem_step m (snd (SyncDir name m))"
| hook: "mem_step m (m\<lparr>Fail := h\<rparr>)"

lemma wf_mem_step: "mem_step m m' \<Longrightarrow> wf_mem m \<Longrightarrow> wf_mem m'"
proof (induction rule: mem_step.induct)
  case (tempname m name)
  then show ?case using wf_mem_cong [of "m\<lparr>tmpSeq := c\<rparr>" m for c] by (simp add: TempName_def Let_def)
next
  case (open_file m name)
  then show ?case by (auto simp: Open_def prog_simps fail_def split: option.splits sum.splits)
next
  case (sync m w)
  then show ?case by (auto simp: Sync_def prog_simps fail_def split: option.splits)
next
  case (syncdir m name)
  then show ?case by (auto simp: SyncDir_def prog_simps fail_def split: option.splits sum.splits)
next
  case (hook m h)
  then show ?case using wf_mem_cong [of "m\<lparr>Fail := h\<rparr>" m] by simp
qed (simp_all add: wf_Create wf_Write wf_MkdirAll wf_Remove wf_RemoveAll wf_Rename wf_Symlink)

lemma wf_NewMem: "wf_mem NewMem"
  by (auto simp: wf_mem_def NewMem_def node_at_def prefix_def Cons_eq_append_conv split: if_splits)



end
