(* ===== verification/Triple.thy ===== *)
theory Triple
  imports Prelude
begin

text \<open>
  Pre- and postconditions for effectful code.  \<open>triple P p Q E\<close> says that from a world in \<open>P\<close> the
  program ends either normally, with \<open>Q\<close> of its result and the new world, or with an error and
  \<open>E\<close> of the new world.  A crash is a failure hook that fails every call from some point on, so
  \<open>E\<close> under an arbitrary hook is what holds after a crash; \<open>E\<close> false under a hook that never
  fails is what shows that the code gets to its end.
\<close>

definition triple :: "('w \<Rightarrow> bool) \<Rightarrow> ('w, 'a) prog \<Rightarrow> ('a \<Rightarrow> 'w \<Rightarrow> bool) \<Rightarrow> (error \<Rightarrow> 'w \<Rightarrow> bool) \<Rightarrow> bool" where
  "triple P p Q E \<longleftrightarrow> (\<forall>w. P w \<longrightarrow> (case p w of (Inl e, w') \<Rightarrow> E e w' | (Inr x, w') \<Rightarrow> Q x w'))"

lemma tripleI:
  assumes "\<And>w x w'. P w \<Longrightarrow> p w = (Inr x, w') \<Longrightarrow> Q x w'"
    and "\<And>w e w'. P w \<Longrightarrow> p w = (Inl e, w') \<Longrightarrow> E e w'"
  shows "triple P p Q E"
  using assms by (auto simp: triple_def split: prod.splits sum.splits)

lemma triple_Inr: "triple P p Q E \<Longrightarrow> P w \<Longrightarrow> p w = (Inr x, w') \<Longrightarrow> Q x w'"
  by (auto simp: triple_def)

lemma triple_Inl: "triple P p Q E \<Longrightarrow> P w \<Longrightarrow> p w = (Inl e, w') \<Longrightarrow> E e w'"
  by (auto simp: triple_def)

lemma triple_snd:
  assumes "triple P p (\<lambda>_. R) (\<lambda>_. R)" "P w"
  shows "R (snd (p w))"
  using assms by (cases "p w"; cases "fst (p w)") (auto simp: triple_def)

lemma triple_weaken:
  assumes "triple P' p Q' E'" "\<And>w. P w \<Longrightarrow> P' w" "\<And>x w. Q' x w \<Longrightarrow> Q x w" "\<And>e w. E' e w \<Longrightarrow> E e w"
  shows "triple P p Q E"
  using assms by (fastforce simp: triple_def split: prod.splits sum.splits)

lemma triple_pre: "triple P' p Q E \<Longrightarrow> (\<And>w. P w \<Longrightarrow> P' w) \<Longrightarrow> triple P p Q E"
  by (rule triple_weaken)

named_theorems triple_rules \<open>one rule for each way of putting programs together\<close>

lemma triple_attempt [triple_rules]:
  assumes "triple P p R F" "\<And>e. triple (F e) (h e) Q E" "\<And>x. triple (R x) (k x) Q E"
  shows "triple P (attempt p h k) Q E"
  using assms by (fastforce simp: triple_def attempt_def split: prod.splits sum.splits)

lemma triple_throw: "(\<And>w. P w \<Longrightarrow> E e w) \<Longrightarrow> triple P (throw e) Q E"
  by (simp add: triple_def throw_def)

lemma triple_ret: "(\<And>w. P w \<Longrightarrow> Q x w) \<Longrightarrow> triple P (ret x) Q E"
  by (simp add: triple_def ret_def)

lemma triple_bind [triple_rules]:
  assumes "triple P p R E" "\<And>x. triple (R x) (k x) Q E"
  shows "triple P (bind p k) Q E"
  using assms by (fastforce simp: triple_def bind_def attempt_def throw_def split: prod.splits sum.splits)

lemma triple_wrap [triple_rules]:
  assumes "triple P p Q (\<lambda>e. E (s # e))"
  shows "triple P (wrap s p) Q E"
  using assms by (auto simp: triple_def wrap_def attempt_def throw_def ret_def split: prod.splits sum.splits)

lemma triple_ignore [triple_rules]:
  assumes "triple P p (\<lambda>_. Q ()) (\<lambda>_. Q ())"
  shows "triple P (ignore p) Q E"
  using assms by (auto simp: triple_def ignore_def attempt_def ret_def split: prod.splits sum.splits)

lemma triple_lift:
  assumes "\<And>w x. P w \<Longrightarrow> r = Inr x \<Longrightarrow> Q x w" "\<And>w e. P w \<Longrightarrow> r = Inl e \<Longrightarrow> E e w"
  shows "triple P (lift r) Q E"
  using assms by (auto simp: triple_def lift_def split: sum.splits)

lemma bind_lift [simp]: "bind (lift (Inr x)) k = k x" "bind (lift (Inl e)) k = throw e"
  by (simp_all add: fun_eq_iff bind_def attempt_def lift_def)

lemma bind_bind: "bind (bind p k) k' = bind p (\<lambda>x. bind (k x) k')"
  by (auto simp: fun_eq_iff bind_def attempt_def throw_def split: prod.splits sum.splits)

lemma triple_fact: "(b \<Longrightarrow> triple P p Q E) \<Longrightarrow> triple (\<lambda>w. P w \<and> b) p Q E"
  by (auto simp: triple_def)

lemma triple_if [triple_rules]:
  assumes "b \<Longrightarrow> triple P p Q E" "\<not> b \<Longrightarrow> triple P q Q E"
  shows "triple P (if b then p else q) Q E"
  using assms by simp

lemma triple_for_each:
  assumes "\<And>x. x \<in> set xs \<Longrightarrow> triple I (f x) (\<lambda>_. I) E"
  shows "triple I (for_each xs f) (\<lambda>_. I) E"
  using assms by (induction xs) (auto intro!: triple_ret triple_bind)

end
