(* ===== verification/FsxWrite.thy ===== *)
theory FsxWrite
  imports FsxLaws Triple
begin

text \<open>
  The filesystem seen by code that works on plain absolute names, whose ancestors are real
  directories: what each operation does to the node table there, and the durable-write
  contract of \<open>WriteFileAtomic\<close> under an arbitrary failure hook.
\<close>

section \<open>Plain names\<close>

definition link_at :: "mem \<Rightarrow> string \<Rightarrow> bool" where
  "link_at m p \<longleftrightarrow> (\<exists>n. node_at m p = Some n \<and> isSymlink n)"

definition real_dir :: "mem \<Rightarrow> string \<Rightarrow> bool" where
  "real_dir m p \<longleftrightarrow> (\<exists>n. node_at m p = Some n \<and> isDir n \<and> \<not> isSymlink n)"

definition dirs_ok :: "mem \<Rightarrow> string list \<Rightarrow> bool" where
  "dirs_ok m ds \<longleftrightarrow> simples ds \<and> (\<forall>i\<le>length ds. real_dir m (abs_path (take i ds)))"

definition dirs_tab :: "(string \<Rightarrow> memNode option) \<Rightarrow> string list \<Rightarrow> bool" where
  "dirs_tab f ds \<longleftrightarrow> simples ds \<and>
     (\<forall>i\<le>length ds. \<exists>n. f (abs_path (take i ds)) = Some n \<and> isDir n \<and> \<not> isSymlink n)"

lemma dirs_ok_tab: "dirs_ok m ds = dirs_tab (node_at m) ds"
  by (simp add: dirs_ok_def dirs_tab_def real_dir_def)

lemma real_dir_not_link: "real_dir m p \<Longrightarrow> \<not> link_at m p"
  by (auto simp: real_dir_def link_at_def)

lemma canon_abs [path_simps, simp]: "simples es \<Longrightarrow> canon (abs_path es) = abs_path es"
  by (simp add: canon_def Slash_def)

lemma abs_path_nonempty [simp]: "abs_path es \<noteq> []"
  by (simp add: abs_path_def)

lemma resolve_loop_plain:
  assumes "simples (xs @ ys)"
    and "\<And>zs us. ys = zs @ us \<Longrightarrow> zs \<noteq> [] \<Longrightarrow> us \<noteq> [] \<or> f \<Longrightarrow>
      \<not> (\<exists>n. nd (abs_path (xs @ zs)) = Some n \<and> isSymlink n)"
  shows "resolve_loop nd f h (abs_path xs) ys = Inr (abs_path (xs @ ys))"
  using assms
proof (induction ys arbitrary: xs)
  case (Cons y ys)
  have j: "joinPath (abs_path xs) y = abs_path (xs @ [y])"
    using Cons.prems(1) by (simp add: joinPath_abs)
  have nl: "\<not> (isSymlink n \<and> (f \<or> ys \<noteq> []))" if "nd (abs_path (xs @ [y])) = Some n" for n
    using Cons.prems(2) [of "[y]" ys] that by auto
  have IH: "resolve_loop nd f h (abs_path (xs @ [y])) ys = Inr (abs_path (xs @ y # ys))"
  proof -
    have "resolve_loop nd f h (abs_path (xs @ [y])) ys = Inr (abs_path ((xs @ [y]) @ ys))"
    proof (rule Cons.IH)
      fix zs us
      assume "ys = zs @ us" "zs \<noteq> []" "us \<noteq> [] \<or> f"
      then show "\<not> (\<exists>n. nd (abs_path ((xs @ [y]) @ zs)) = Some n \<and> isSymlink n)"
        using Cons.prems(2) [of "y # zs" us] by simp
    qed (use Cons.prems(1) in simp)
    then show ?thesis by simp
  qed
  then show ?case
    using nl by (auto simp: j Let_def split: option.splits)
qed simp

lemma prefix_abs: "prefix ''/'' (abs_path es)"
  by (simp add: abs_path_def)

lemma resolve_plain:
  assumes s: "simples es" and nl: "\<And>i. 0 < i \<Longrightarrow> i < length es \<Longrightarrow> \<not> link_at m (abs_path (take i es))"
    and last: "f \<Longrightarrow> \<not> link_at m (abs_path es)"
  shows "resolve m (abs_path es) f = Inr (abs_path es)"
proof (cases "es = []")
  case True
  have "splitElems (abs_path []) = []" "canon (abs_path []) = abs_path []" by (simp_all add: splitElems_abs)
  then show ?thesis using True by (simp add: resolve_def prefix_abs) (simp add: abs_path_def)
next
  case False
  have root: "abs_path [] = ''/''" by (simp add: abs_path_def)
  have "resolve_loop (node_at m) f 0 (abs_path []) es = Inr (abs_path ([] @ es))"
  proof (rule resolve_loop_plain)
    fix zs us
    assume z: "es = zs @ us" "zs \<noteq> []" "us \<noteq> [] \<or> f"
    show "\<not> (\<exists>n. node_at m (abs_path ([] @ zs)) = Some n \<and> isSymlink n)"
      using nl [of "length zs"] last z by (cases "us = []") (auto simp: link_at_def)
  qed (use s in simp)
  then show ?thesis
    using s by (simp add: resolve_def splitElems_abs prefix_abs root)
qed

lemma dirs_ok_not_link:
  assumes "dirs_ok m ds" "i \<le> length ds"
  shows "\<not> link_at m (abs_path (take i (ds @ es)))"
  using assms by (auto simp: dirs_ok_def intro!: real_dir_not_link)

text \<open>A name in a real directory resolves to itself, unless it is a link that is followed.\<close>

lemma resolve_in_dir:
  assumes d: "dirs_ok m ds" and e: "simple e" and f: "f \<Longrightarrow> \<not> link_at m (abs_path (ds @ [e]))"
  shows "resolve m (abs_path (ds @ [e])) f = Inr (abs_path (ds @ [e]))"
proof (rule resolve_plain)
  show "simples (ds @ [e])" using d e by (simp add: dirs_ok_def)
  show "\<not> link_at m (abs_path (take i (ds @ [e])))" if "i < length (ds @ [e])" for i
    using dirs_ok_not_link [OF d, of i "[e]"] that by simp
qed (use f in simp)

lemma resolve_dir: "dirs_ok m ds \<Longrightarrow> resolve m (abs_path ds) f = Inr (abs_path ds)"
proof (rule resolve_plain)
  assume d: "dirs_ok m ds"
  then show "simples ds" by (simp add: dirs_ok_def)
  show "\<not> link_at m (abs_path (take i ds))" if "i < length ds" for i
    using dirs_ok_not_link [OF d, of i "[]"] that by simp
  show "\<not> link_at m (abs_path ds)" using dirs_ok_not_link [OF d, of "length ds" "[]"] by simp
qed

lemma node_in_dir:
  assumes "dirs_ok m ds" "simple e" "f \<Longrightarrow> \<not> link_at m (abs_path (ds @ [e]))"
  shows "node m (abs_path (ds @ [e])) f =
    (case node_at m (abs_path (ds @ [e])) of None \<Rightarrow> Inl [ErrNotExist] | Some n \<Rightarrow> Inr (abs_path (ds @ [e]), n))"
  using resolve_in_dir [OF assms] by (simp add: node_def)

lemma requireDir_in_dir:
  assumes "dirs_ok m ds" "simple e"
  shows "requireDir m (abs_path (ds @ [e])) = Inr ()"
proof -
  have "real_dir m (abs_path ds)" using assms by (auto simp: dirs_ok_def)
  then show ?thesis using assms by (auto simp: requireDir_def real_dir_def Dir_abs dirs_ok_def)
qed

lemma dirs_ok_cong: "dirs_ok m ds \<Longrightarrow> (\<And>i. i \<le> length ds \<Longrightarrow>
  node_at m' (abs_path (take i ds)) = node_at m (abs_path (take i ds))) \<Longrightarrow> dirs_ok m' ds"
  by (simp add: dirs_ok_def real_dir_def)

lemma dirs_ok_calls [simp]: "dirs_ok (m\<lparr>calls := c\<rparr>) ds = dirs_ok m ds"
  by (simp add: dirs_ok_def real_dir_def)

lemma dirs_ok_tmpSeq [simp]: "dirs_ok (m\<lparr>tmpSeq := c\<rparr>) ds = dirs_ok m ds"
  by (simp add: dirs_ok_def real_dir_def)

lemma in_dir_not_ancestor:
  assumes "simples ds" "simple e" "i \<le> length ds"
  shows "abs_path (take i ds) \<noteq> abs_path (ds @ [e])"
proof -
  have "simples (take i ds)" using assms(1) by (meson in_set_takeD simples_def)
  moreover have "take i ds \<noteq> ds @ [e]" 
  proof
    assume "take i ds = ds @ [e]"
    then have "length (take i ds) = Suc (length ds)" by simp
    then show False by simp
  qed
  ultimately show ?thesis using assms by (simp add: abs_path_inj)
qed

lemma dirs_ok_put:
  assumes "dirs_ok m ds" "simple e"
  shows "dirs_ok (put (abs_path (ds @ [e])) n m) ds" "dirs_ok (del (abs_path (ds @ [e])) m) ds"
  using assms in_dir_not_ancestor [of ds e] by (auto simp: dirs_ok_def real_dir_def)

section \<open>Operations on plain names\<close>

text \<open>
  \<open>tab m0 f\<close>: the node table is \<open>f\<close>, and the hook and the process are those of \<open>m0\<close>.  \<open>hooked\<close>: the hook
  refuses some call; the operations below fail on plain names only when it does.
\<close>

definition tab :: "mem \<Rightarrow> (string \<Rightarrow> memNode option) \<Rightarrow> mem \<Rightarrow> bool" where
  "tab m0 f m \<longleftrightarrow> node_at m = f \<and> same_env m0 m"

definition hook_err :: "mem \<Rightarrow> error \<Rightarrow> bool" where
  "hook_err m e \<longleftrightarrow> (\<exists>k op name. Fail m k op name = Some e)"

definition hooked :: "mem \<Rightarrow> bool" where
  "hooked m \<longleftrightarrow> (\<exists>k op name. Fail m k op name \<noteq> None)"

text \<open>An honest hook does not pass a failure off as a missing file.\<close>

definition honest :: "mem \<Rightarrow> bool" where
  "honest m \<longleftrightarrow> (\<forall>e. hook_err m e \<longrightarrow> \<not> IsNotExist e)"

lemma hook_err_hooked: "hook_err m e \<Longrightarrow> hooked m"
  by (auto simp: hook_err_def hooked_def)

abbreviation file_node :: "32 word \<Rightarrow> string \<Rightarrow> memNode" where
  "file_node md bs \<equiv> \<lparr> mode = md AND ModePerm, data = bs, link = [] \<rparr>"

lemma tab_node_at: "tab m0 f m \<Longrightarrow> node_at m = f"
  by (simp add: tab_def)

lemma tab_same: "tab m (node_at m) m"
  by (simp add: tab_def)

lemma tab_calls [simp]: "tab m0 f m \<Longrightarrow> tab m0 f (m\<lparr>calls := Suc (calls m)\<rparr>)"
  by (auto simp: tab_def same_env_def)

lemma tab_put: "tab m0 f m \<Longrightarrow> tab m0 (f(p \<mapsto> n)) (put p n (m\<lparr>calls := Suc (calls m)\<rparr>))"
  by (auto simp: tab_def same_env_def put_def node_at_def update_conv')

lemma tab_del: "tab m0 f m \<Longrightarrow> tab m0 (f(p := None)) (del p (m\<lparr>calls := Suc (calls m)\<rparr>))"
  by (auto simp: tab_def same_env_def del_def node_at_def delete_conv')

lemma fail_cases':
  assumes "tab m0 f m"
  obtains e where "fail op name m = (Inl e, m\<lparr>calls := Suc (calls m)\<rparr>)" "hooked m0" "hook_err m0 e"
  | "fail op name m = (Inr (), m\<lparr>calls := Suc (calls m)\<rparr>)"
  using assms that
  by (cases "Fail m (calls m) op name") (auto simp: fail_def hooked_def hook_err_def tab_def same_env_def)

text \<open>Each operation at the name \<open>e\<close> of the real directory \<open>ds\<close>.\<close>

lemma Create_plain:
  assumes dt: "dirs_tab f ds" and elem: "simple e" and p: "p = abs_path (ds @ [e])"
    and reg: "\<And>n. f p = Some n \<Longrightarrow> \<not> isDir n \<and> \<not> isSymlink n"
  shows "triple (tab m0 f) (Create p md)
    (\<lambda>w m. w = \<lparr> wpath = p, wclosed = False \<rparr> \<and> tab m0 (f(p \<mapsto> file_node md [])) m)
    (\<lambda>_ m. tab m0 f m \<and> hooked m0)"
  unfolding triple_def
proof (intro allI impI)
  fix m
  assume t: "tab m0 f m"
  then have d: "dirs_ok m ds" using dt by (simp add: dirs_ok_tab tab_def)
  have r: "resolve m p True = Inr p" "requireDir m p = Inr ()"
    using resolve_in_dir [OF d elem, folded p] requireDir_in_dir [OF d elem, folded p] assms t
    by (auto simp: link_at_def tab_def)
  show "case Create p md m of (Inl er, m') \<Rightarrow> tab m0 f m' \<and> hooked m0
    | (Inr w, m') \<Rightarrow> w = \<lparr> wpath = p, wclosed = False \<rparr> \<and> tab m0 (f(p \<mapsto> file_node md [])) m'"
    using r assms t tab_put [OF t, of p "file_node md []"]
    by (cases rule: fail_cases' [OF t, of "''create''" "canon p"])
      (auto simp: Create_def prog_simps tab_node_at split: option.splits)
qed

lemma Write_plain:
  assumes n: "f p = Some n"
  shows "triple (tab m0 f) (Write \<lparr> wpath = p, wclosed = False \<rparr> bs)
    (\<lambda>_. tab m0 (f(p \<mapsto> n\<lparr>data := data n @ bs\<rparr>))) (\<lambda>_ m. tab m0 f m \<and> hooked m0)"
  unfolding triple_def
proof (intro allI impI)
  fix m
  assume t: "tab m0 f m"
  show "case Write \<lparr> wpath = p, wclosed = False \<rparr> bs m of (Inl er, m') \<Rightarrow> tab m0 f m' \<and> hooked m0
    | (Inr _, m') \<Rightarrow> tab m0 (f(p \<mapsto> n\<lparr>data := data n @ bs\<rparr>)) m'"
    using assms t tab_put [OF t, of p "n\<lparr>data := data n @ bs\<rparr>"]
    by (cases rule: fail_cases' [OF t, of "''write''" p])
      (auto simp: Write_def prog_simps tab_node_at split: option.splits)
qed

lemma Remove_plain:
  assumes dt: "dirs_tab f ds" and elem: "simple e" and p: "p = abs_path (ds @ [e])"
    and below: "\<And>q. prefix (p @ ''/'') q \<Longrightarrow> f q = None"
  shows "triple (tab m0 f) (Remove p)
    (\<lambda>_. tab m0 (f(p := None))) (\<lambda>e m. tab m0 f m \<and> (hook_err m0 e \<or> (f p = None \<and> e = [ErrNotExist])))"
  unfolding triple_def
proof (intro allI impI)
  fix m
  assume t: "tab m0 f m"
  then have d: "dirs_ok m ds" using dt by (simp add: dirs_ok_tab tab_def)
  have n: "node m p False = (case f p of None \<Rightarrow> Inl [ErrNotExist] | Some n \<Rightarrow> Inr (p, n))"
    using node_in_dir [OF d elem, of False, folded p] t by (simp add: tab_def)
  have "p \<noteq> ''/''" using elem d abs_path_inj [of "ds @ [e]" "[]"] by (auto simp: p abs_path_def dirs_ok_def)
  then have ch: "childrenOf m p = []"
    using childrenOf_below [of p m] below t by (auto simp: tab_def set_empty [symmetric] simp del: set_empty)
  show "case Remove p m of (Inl er, m') \<Rightarrow> tab m0 f m' \<and> (hook_err m0 er \<or> (f p = None \<and> er = [ErrNotExist]))
    | (Inr _, m') \<Rightarrow> tab m0 (f(p := None)) m'"
    using n ch t tab_del [OF t, of p]
    by (cases rule: fail_cases' [OF t, of "''remove''" "canon p"])
      (auto simp: Remove_def prog_simps split: option.splits)
qed

lemma Symlink_plain:
  assumes dt: "dirs_tab f ds" and elem: "simple e" and p: "p = abs_path (ds @ [e])"
  shows "triple (tab m0 f) (Symlink target p)
    (\<lambda>_ m. f p = None \<and> tab m0 (f(p \<mapsto> \<lparr> mode = ModeSymlink OR ModePerm, data = [], link = target \<rparr>)) m)
    (\<lambda>_ m. tab m0 f m \<and> (hooked m0 \<or> f p \<noteq> None \<or> target = []))"
  unfolding triple_def
proof (intro allI impI)
  fix m
  assume t: "tab m0 f m"
  then have d: "dirs_ok m ds" using dt by (simp add: dirs_ok_tab tab_def)
  have r: "resolve m p False = Inr p" "requireDir m p = Inr ()" "p \<noteq> []"
    using resolve_in_dir [OF d elem, folded p] requireDir_in_dir [OF d elem, folded p] by (auto simp: p)
  show "case Symlink target p m of (Inl er, m') \<Rightarrow> tab m0 f m' \<and> (hooked m0 \<or> f p \<noteq> None \<or> target = [])
    | (Inr _, m') \<Rightarrow> f p = None \<and> tab m0 (f(p \<mapsto> \<lparr> mode = ModeSymlink OR ModePerm, data = [], link = target \<rparr>)) m'"
    using r t tab_put [OF t, of p "\<lparr> mode = ModeSymlink OR ModePerm, data = [], link = target \<rparr>"]
    by (cases rule: fail_cases' [OF t, of "''symlink''" "canon p"])
      (auto simp: Symlink_def prog_simps tab_node_at Slash_def split: option.splits)
qed


lemma Sync_plain: "triple (tab m0 f) (Sync \<lparr> wpath = p, wclosed = False \<rparr>) (\<lambda>_. tab m0 f) (\<lambda>_ m. tab m0 f m \<and> hooked m0)"
  unfolding triple_def
proof (intro allI impI)
  fix m
  assume t: "tab m0 f m"
  show "case Sync \<lparr> wpath = p, wclosed = False \<rparr> m of (Inl er, m') \<Rightarrow> tab m0 f m' \<and> hooked m0 | (Inr _, m') \<Rightarrow> tab m0 f m'"
    using t by (cases rule: fail_cases' [OF t, of "''sync''" p]) (auto simp: Sync_def prog_simps)
qed

lemma Close_plain: "triple (tab m0 f) (Close \<lparr> wpath = p, wclosed = False \<rparr>) (\<lambda>_. tab m0 f) (\<lambda>_ m. False)"
  by (simp add: triple_def Close_def prog_simps)

lemma SyncDir_plain:
  assumes dt: "dirs_tab f ds" and p: "p = abs_path ds"
  shows "triple (tab m0 f) (SyncDir p) (\<lambda>_. tab m0 f) (\<lambda>_ m. tab m0 f m \<and> hooked m0)"
  unfolding triple_def
proof (intro allI impI)
  fix m
  assume t: "tab m0 f m"
  then have d: "dirs_ok m ds" using dt by (simp add: dirs_ok_tab tab_def)
  then obtain n where "node_at m p = Some n" by (auto simp: dirs_ok_def real_dir_def p)
  then have "node m p True = Inr (p, n)" using resolve_dir [OF d] by (simp add: node_def p)
  then show "case SyncDir p m of (Inl er, m') \<Rightarrow> tab m0 f m' \<and> hooked m0 | (Inr _, m') \<Rightarrow> tab m0 f m'"
    using t by (cases rule: fail_cases' [OF t, of "''sync''" "canon p"]) (auto simp: SyncDir_def prog_simps)
qed

text \<open>Renaming one file of a directory over another, or over nothing.\<close>

lemma same_env_put_del [simp]:
  "same_env m0 (put p n m) = same_env m0 m" "same_env m0 (del p m) = same_env m0 m"
  by (simp_all add: same_env_def put_def del_def)

lemma same_env_move [simp]: "same_env m0 (fold (move_child a b) ks m) = same_env m0 m"
  by (induction ks arbitrary: m) (auto simp: move_child_def split: option.splits)

lemma same_env_calls [simp]: "same_env m0 m \<Longrightarrow> same_env m0 (m\<lparr>calls := Suc (calls m)\<rparr>)"
  by (simp add: same_env_def)

lemma same_env_Rename: "same_env m (snd (Rename a b m))"
  by (auto simp: Rename_def prog_simps fail_def Let_def split: option.splits sum.splits prod.splits if_splits)

lemma simple_siblings_not_below:
  assumes "simples ds" "simple t" "simple e"
  shows "\<not> prefix (abs_path (ds @ [t]) @ ''/'') (abs_path (ds @ [e]))"
proof
  assume "prefix (abs_path (ds @ [t]) @ ''/'') (abs_path (ds @ [e]))"
  then obtain u where u: "abs_path (ds @ [e]) = abs_path (ds @ [t]) @ slash # u" by (auto simp: prefix_def)
  have "abs_path (ds @ [e]) = abs_path ds @ (if ds = [] then e else slash # e)"
    "abs_path (ds @ [t]) = abs_path ds @ (if ds = [] then t else slash # t)"
    by (auto simp: abs_path_def join_with_append)
  with u have "e = t @ slash # u" by (auto split: if_splits)
  then show False using assms(3) by (auto simp: simple_def)
qed

lemma Rename_plain:
  assumes dt: "dirs_tab f ds" and elem: "simple t" "simple e" "t \<noteq> e"
    and p: "p = abs_path (ds @ [t])" "q = abs_path (ds @ [e])"
    and nt: "f p = Some n" "\<not> isDir n" and nd: "\<And>x. f q = Some x \<Longrightarrow> \<not> isDir x"
    and below: "\<And>x. prefix (p @ ''/'') x \<Longrightarrow> f x = None" "\<And>x. prefix (q @ ''/'') x \<Longrightarrow> f x = None"
    and wf: "\<And>m. tab m0 f m \<Longrightarrow> wf_mem m"
  shows "triple (tab m0 f) (Rename p q) (\<lambda>_. tab m0 (f(p := None, q \<mapsto> n))) (\<lambda>_ m. tab m0 f m \<and> hooked m0)"
  unfolding triple_def
proof (intro allI impI)
  fix m
  assume t: "tab m0 f m"
  then have d: "dirs_ok m ds" using dt by (simp add: dirs_ok_tab tab_def)
  have s: "simples ds" using d by (simp add: dirs_ok_def)
  have r: "node m p False = Inr (p, n)" "resolve m q False = Inr q" "requireDir m q = Inr ()"
    using node_in_dir [OF d elem(1), of False, folded p] resolve_in_dir [OF d elem(2), of False, folded p]
      requireDir_in_dir [OF d elem(2), folded p] nt t by (auto simp: tab_def)
  have pq: "p \<noteq> q" "q \<noteq> []" "p \<noteq> ''/''"
    using elem s abs_path_inj [of "ds @ [t]" "ds @ [e]"] abs_path_inj [of "ds @ [t]" "[]"]
    by (auto simp: p) (simp add: abs_path_def)
  have nb: "\<not> prefix (p @ ''/'') (q @ ''/'')"
    using simple_siblings_not_below [OF s elem(1,2)] pq by (auto simp: p)
  have ren: "renamed p q n (node_at m) = f(p := None, q \<mapsto> n)"
    using t below pq by (auto simp: renamed_def tab_def fun_eq_iff prefix_def)
  show "case Rename p q m of (Inl er, m') \<Rightarrow> tab m0 f m' \<and> hooked m0 | (Inr _, m') \<Rightarrow> tab m0 (f(p := None, q \<mapsto> n)) m'"
  proof (cases rule: fail_cases' [OF t, of "''rename''" "canon q"])
    case (1 e)
    then show ?thesis using t pq by (simp add: Rename_def prog_simps)
  next
    case 2
    then obtain m' where m': "Rename p q m = (Inr (), m')"
      using r pq nb nt nd t by (cases "f q") (auto simp: Rename_def prog_simps tab_node_at Let_def)
    moreover have "same_env m m'" using same_env_Rename [of m p q] m' by simp
    ultimately show ?thesis
      using Rename_ok_table [OF wf [OF t] r(1,2) pq(3) m'] pq ren t same_env_trans by (auto simp: tab_def)
  qed
qed

section \<open>Durable writes\<close>

definition scratch_suffix :: "nat \<Rightarrow> nat \<Rightarrow> string" where
  "scratch_suffix i k = ''.idunn-'' @ show_nat i @ ''-'' @ show_nat k @ ''.tmp''"

definition tmp_of :: "nat \<Rightarrow> string \<Rightarrow> nat \<Rightarrow> string" where
  "tmp_of i name k = name @ scratch_suffix i k"

lemma abs_path_snoc: "abs_path (ds @ [e]) @ s = abs_path (ds @ [e @ s])"
  by (cases "ds = []") (auto simp: abs_path_def join_with_append)

lemma digits_no_slash: "slash \<notin> set (show_nat n)"
proof
  assume "slash \<in> set (show_nat n)"
  then have "is_digit slash" using show_nat_digits [of n] by (auto simp: list_all_iff)
  then show False by (simp add: is_digit_def)
qed

lemma simple_scratch: "simple e \<Longrightarrow> simple (e @ scratch_suffix i k)"
  using digits_no_slash by (auto simp: simple_def scratch_suffix_def)

lemma scratch_suffix_nonempty [simp]: "scratch_suffix i k \<noteq> []"
  by (simp add: scratch_suffix_def)

definition wf_tab :: "(string \<Rightarrow> memNode option) \<Rightarrow> bool" where
  "wf_tab f \<longleftrightarrow> (\<forall>p q. p \<noteq> [] \<and> prefix (p @ ''/'') q \<and> f q \<noteq> None \<longrightarrow> (\<exists>n. f p = Some n \<and> isDir n))"

lemma wf_mem_tab: "wf_mem m = wf_tab (node_at m)"
  by (simp add: wf_mem_def wf_tab_def dir_at_def)

lemma wf_tab_below: "wf_tab f \<Longrightarrow> p \<noteq> [] \<Longrightarrow> (\<And>n. f p = Some n \<Longrightarrow> \<not> isDir n) \<Longrightarrow> prefix (p @ ''/'') q \<Longrightarrow> f q = None"
  unfolding wf_tab_def by blast

definition plain_file :: "memNode option \<Rightarrow> bool" where
  "plain_file t \<longleftrightarrow> (\<forall>n. t = Some n \<longrightarrow> \<not> isDir n \<and> \<not> isSymlink n)"

lemma plain_file_simps [simp]: "plain_file None" "plain_file (Some (file_node md bs))"
  by (simp_all add: plain_file_def)

text \<open>The ancestors of a name in a directory are that directory and its ancestors.\<close>

lemma in_dir_ancestor:
  assumes "simples ds" "simple e" "a \<noteq> []" "prefix (a @ ''/'') (abs_path (ds @ [e]))"
  shows "\<exists>i\<le>length ds. a = abs_path (take i ds)"
  using assms
proof (induction ds arbitrary: e rule: rev_induct)
  case Nil
  then have "prefix (a @ ''/'') (slash # e)" by (simp add: abs_path_def)
  then have "prefix (a @ ''/'') (slash # e)" "slash \<notin> set e" using Nil by (auto simp: simple_def)
  then show ?case using Nil(3) by (cases a) (auto simp: prefix_def)
next
  case (snoc d ds)
  have s: "simples (ds @ [d] @ [e])" using snoc.prems by simp
  have "is_clean (abs_path ((ds @ [d]) @ [e]))" "path_dir (abs_path ((ds @ [d]) @ [e])) = abs_path (ds @ [d])"
    using s by (simp_all add: is_clean_def Dir_abs del: append_assoc)
  then consider "a = abs_path (ds @ [d])" | "prefix (a @ ''/'') (abs_path (ds @ [d]))"
    using clean_ancestor [of "abs_path ((ds @ [d]) @ [e])" a] snoc.prems by auto
  then show ?case
  proof cases
    case 1
    then show ?thesis by (intro exI [of _ "length (ds @ [d])"]) simp
  next
    case 2
    then obtain i where "i \<le> length ds" "a = abs_path (take i ds)" using snoc.IH [of d] snoc.prems by auto
    then show ?thesis by (intro exI [of _ i]) simp
  qed
qed

lemma wf_tab_file:
  assumes wf: "wf_tab f" and dt: "dirs_tab f ds" and e: "simple e" and p: "p = abs_path (ds @ [e])"
    and nd: "\<And>n. f p = Some n \<Longrightarrow> \<not> isDir n"
  shows "wf_tab (f(p := t))"
  unfolding wf_tab_def
proof (intro allI impI)
  fix a q
  assume a: "a \<noteq> [] \<and> prefix (a @ ''/'') q \<and> (f(p := t)) q \<noteq> None"
  have s: "simples ds" using dt by (simp add: dirs_tab_def)
  have below: "f q = None" if "prefix (p @ ''/'') q" for q
    using wf_tab_below [OF wf _ nd that] by (simp add: p)
  show "\<exists>n. (f(p := t)) a = Some n \<and> isDir n"
  proof (cases "q = p")
    case True
    then obtain i where i: "i \<le> length ds" "a = abs_path (take i ds)"
      using in_dir_ancestor [OF s e, of a] a p by blast
    then show ?thesis using dt in_dir_not_ancestor [OF s e i(1)] by (auto simp: dirs_tab_def p)
  next
    case False
    then have "f q \<noteq> None" using a by simp
    then obtain n where "f a = Some n" "isDir n" using wf a unfolding wf_tab_def by blast
    moreover have "a \<noteq> p" using below a False by auto
    ultimately show ?thesis by simp
  qed
qed

lemma dirs_tab_upd:
  assumes "dirs_tab f ds" "simple e" "p = abs_path (ds @ [e])"
  shows "dirs_tab (f(p := t)) ds"
  using assms in_dir_not_ancestor [of ds e] by (auto simp: dirs_tab_def)

lemma TempName_plain: "triple (tab m0 f) (TempName name) (\<lambda>t m. \<exists>k. t = tmp_of (pid m0) name k \<and> tab m0 f m) (\<lambda>_ _. False)"
  by (auto simp: triple_def TempName_def Let_def tmp_of_def scratch_suffix_def tab_def same_env_def)


text \<open>
  The contract of a durable write.  Whatever call the hook refuses, the name holds its old node or
  the complete new file, nothing but the name and its scratch file is touched, and the scratch
  file is gone when the call succeeds.  The call fails only if the hook refuses something or the
  producer fails by itself (\<open>B\<close>).
\<close>

definition written :: "mem \<Rightarrow> (string \<Rightarrow> memNode option) \<Rightarrow> string \<Rightarrow> memNode \<Rightarrow> mem \<Rightarrow> bool" where
  "written m0 f name n m \<longleftrightarrow> (\<exists>k. tab m0 (f(tmp_of (pid m0) name k := None, name \<mapsto> n)) m)"

definition unwritten :: "mem \<Rightarrow> (string \<Rightarrow> memNode option) \<Rightarrow> string \<Rightarrow> mem \<Rightarrow> bool" where
  "unwritten m0 f name m \<longleftrightarrow> (\<exists>k t. plain_file t \<and> tab m0 (f(tmp_of (pid m0) name k := t)) m)"

lemma triple_Ex: "(\<And>x. triple (P x) p Q E) \<Longrightarrow> triple (\<lambda>m. \<exists>x. P x m) p Q E"
  by (rule tripleI) (blast dest: triple_Inr triple_Inl)+

text \<open>
  A write in progress: the table is \<open>f\<close> but for the scratch file at \<open>tmp\<close>, which stands beside the
  name in a real directory.
\<close>

definition scratch_ctx :: "(string \<Rightarrow> memNode option) \<Rightarrow> string list \<Rightarrow> string \<Rightarrow> string \<Rightarrow> string \<Rightarrow> bool" where
  "scratch_ctx f ds e name tmp \<longleftrightarrow> dirs_tab f ds \<and> simple e \<and> name = abs_path (ds @ [e]) \<and> wf_tab f \<and>
     (\<forall>n. f name = Some n \<longrightarrow> \<not> isDir n) \<and> (\<forall>n. f tmp = Some n \<longrightarrow> \<not> isDir n) \<and>
     (\<exists>t. tmp = abs_path (ds @ [t]) \<and> simple t \<and> t \<noteq> e)"

lemma scratch_ctxD:
  assumes "scratch_ctx f ds e name tmp"
  obtains t where "dirs_tab (f(tmp := x)) ds" "simple t" "t \<noteq> e" "simple e" "tmp = abs_path (ds @ [t])"
    "name = abs_path (ds @ [e])" "tmp \<noteq> name" "wf_tab (f(tmp := x))" "dirs_tab (f(tmp := x, name := y)) ds"
proof -
  from assms obtain t where t: "tmp = abs_path (ds @ [t])" "simple t" "t \<noteq> e" by (auto simp: scratch_ctx_def)
  from assms have s: "simples ds" "simple e" "name = abs_path (ds @ [e])" by (auto simp: scratch_ctx_def dirs_tab_def)
  have d: "dirs_tab (f(tmp := x)) ds" using assms dirs_tab_upd t by (simp add: scratch_ctx_def)
  have w: "wf_tab (f(tmp := x))" using assms wf_tab_file t by (simp add: scratch_ctx_def)
  have "tmp \<noteq> name" using t s abs_path_inj [of "ds @ [t]" "ds @ [e]"] by simp
  then show ?thesis using that [OF d t(2,3) s(2) t(1) s(3) _ w] dirs_tab_upd [OF d s(2,3)] by blast
qed

lemma scratch_ctx_file:
  assumes "scratch_ctx f ds e name tmp" "scratch_ctx f ds e name tmp \<Longrightarrow> x = tmp \<or> x = name"
    "\<And>n. u = Some n \<Longrightarrow> \<not> isDir n" "prefix (x @ ''/'') q"
  shows "(f(tmp := u)) q = None"
proof -
  obtain t where t: "wf_tab (f(tmp := u))" "tmp = abs_path (ds @ [t])" "name = abs_path (ds @ [e])" "tmp \<noteq> name"
    using scratch_ctxD [OF assms(1)] by metis
  show ?thesis
    by (rule wf_tab_below [OF t(1) _ _ assms(4)])
      (use assms t not_sym [OF abs_path_nonempty] in \<open>auto simp: scratch_ctx_def split: if_splits\<close>)
qed

lemma rename_tmp:
  assumes c: "scratch_ctx f ds e name tmp" and n: "\<not> isDir n"
  shows "triple (tab m0 (f(tmp \<mapsto> n))) (Rename tmp name) (\<lambda>_. tab m0 (f(tmp := None, name \<mapsto> n)))
    (\<lambda>_ m. tab m0 (f(tmp \<mapsto> n)) m \<and> hooked m0)"
proof -
  let ?F = "f(tmp \<mapsto> n)"
  obtain t where t: "dirs_tab ?F ds" "simple t" "t \<noteq> e" "simple e" "tmp = abs_path (ds @ [t])"
    "name = abs_path (ds @ [e])" "tmp \<noteq> name" "wf_tab ?F"
    using scratch_ctxD [OF c] by metis
  have "triple (tab m0 ?F) (Rename tmp name) (\<lambda>_. tab m0 (?F(tmp := None, name \<mapsto> n)))
    (\<lambda>_ m. tab m0 ?F m \<and> hooked m0)"
  proof (rule Rename_plain [OF t(1,2,4,3,5,6)])
    show "?F tmp = Some n" "\<not> isDir n" using n by simp_all
    show "\<not> isDir x" if "?F name = Some x" for x using that c t(7) by (simp add: scratch_ctx_def split: if_splits)
    show "?F x = None" if "prefix (tmp @ ''/'') x" for x using scratch_ctx_file [OF c _ _ that] n by blast
    show "?F x = None" if "prefix (name @ ''/'') x" for x using scratch_ctx_file [OF c _ _ that] n by blast
    show "wf_mem m" if "tab m0 ?F m" for m using that t(8) by (simp add: wf_mem_tab tab_def)
  qed
  then show ?thesis by simp
qed

definition half :: "mem \<Rightarrow> (string \<Rightarrow> memNode option) \<Rightarrow> string \<Rightarrow> bool \<Rightarrow> mem \<Rightarrow> bool" where
  "half m0 f tmp B m \<longleftrightarrow> B \<and> (\<exists>t. plain_file t \<and> tab m0 (f(tmp := t)) m)"

lemma remove_tmp:
  assumes c: "scratch_ctx f ds e name tmp"
  shows "triple (half m0 f tmp B) (bind (ignore (Remove tmp)) (\<lambda>_. throw er)) Q (\<lambda>_. half m0 f tmp B)"
proof (rule triple_bind [where R = "\<lambda>_. half m0 f tmp B"])
  have "triple (tab m0 (f(tmp := u))) (Remove tmp) (\<lambda>_ m. \<exists>u. plain_file u \<and> tab m0 (f(tmp := u)) m)
    (\<lambda>_ m. \<exists>u. plain_file u \<and> tab m0 (f(tmp := u)) m)" if u: "plain_file u" for u
  proof -
    obtain t where t: "dirs_tab (f(tmp := u)) ds" "simple t" "tmp = abs_path (ds @ [t])"
      using scratch_ctxD [OF c] by metis
    have "(f(tmp := u)) q = None" if "prefix (tmp @ ''/'') q" for q
      using scratch_ctx_file [OF c _ _ that] u by (auto simp: plain_file_def)
    then show ?thesis
      using u by (intro triple_weaken [OF Remove_plain [OF t]]) (auto intro: exI [of _ None])
  qed
  then show "triple (half m0 f tmp B) (ignore (Remove tmp)) (\<lambda>_. half m0 f tmp B) (\<lambda>_. half m0 f tmp B)"
    by (intro triple_ignore) (fastforce simp: triple_def half_def split: prod.splits sum.splits)
qed (auto intro!: triple_throw)

lemma abandon:
  assumes "scratch_ctx f ds e name tmp"
  shows "triple (half m0 f tmp B) (bind (ignore (Close \<lparr> wpath = tmp, wclosed = False \<rparr>))
      (\<lambda>_. bind (ignore (Remove tmp)) (\<lambda>_. throw er))) Q (\<lambda>_. half m0 f tmp B)"
  by (rule triple_bind [OF _ remove_tmp [OF assms]]) (simp add: triple_def Close_def prog_simps)

lemma fill_scratch_plain:
  assumes c: "scratch_ctx f ds e name tmp" and B: "hooked m0 \<Longrightarrow> B" and n: "plain_file (Some n)"
    and prod: "triple P produce (\<lambda>_. tab m0 (f(tmp \<mapsto> n))) (\<lambda>_. half m0 f tmp B)"
  shows "triple P (fill_scratch tmp name \<lparr> wpath = tmp, wclosed = False \<rparr> produce)
    (\<lambda>_. tab m0 (f(tmp := None, name \<mapsto> n)))
    (\<lambda>_ m. half m0 f tmp B m \<or> B \<and> tab m0 (f(tmp := None, name \<mapsto> n)) m)"
proof -
  let ?w = "\<lparr> wpath = tmp, wclosed = False \<rparr>" and ?D = "tab m0 (f(tmp := None, name \<mapsto> n))"
  let ?Q = "\<lambda>_ :: unit. ?D" and ?E = "\<lambda>_ :: error. \<lambda>m. half m0 f tmp B m \<or> B \<and> ?D m"
  let ?H = "half m0 f tmp B" and ?F = "tab m0 (f(tmp \<mapsto> n))"
  have full: "?H m" if "?F m \<and> hooked m0" for m using that B n by (auto simp: half_def)
  have ab: "triple ?H (bind (ignore (Close ?w)) (\<lambda>_. bind (ignore (Remove tmp)) (\<lambda>_. throw er))) ?Q ?E"
    "triple ?H (bind (ignore (Remove tmp)) (\<lambda>_. throw er)) ?Q ?E" for er
    by (blast intro: triple_weaken [OF abandon [OF c]] triple_weaken [OF remove_tmp [OF c]])+
  have sy: "triple ?F (Sync ?w) (\<lambda>_. ?F) (\<lambda>_. ?H)"
    using full by (intro triple_weaken [OF Sync_plain]) auto
  have cl: "triple ?F (Close ?w) (\<lambda>_. ?F) (\<lambda>_. ?H)"
    by (intro triple_weaken [OF Close_plain]) auto
  have rn: "triple ?F (Rename tmp name) (\<lambda>_. ?D) (\<lambda>_. ?H)"
    using full n by (intro triple_weaken [OF rename_tmp [OF c]]) (auto simp: plain_file_def)
  have d: "dirs_tab (f(tmp := None, name \<mapsto> n)) ds" using scratch_ctxD [OF c] by metis
  have D: "Dir name = abs_path ds" using c by (simp add: Dir_def Slash_def Dir_abs dirs_tab_def scratch_ctx_def)
  have sd: "triple ?D (SyncDir (Dir name)) ?Q ?E"
    using B by (intro triple_weaken [OF SyncDir_plain [OF d D]]) auto
  show ?thesis
    unfolding fill_scratch_def
    by (rule triple_attempt [OF prod ab(1)] triple_attempt [OF sy ab(1)] triple_attempt [OF cl ab(2)]
        triple_attempt [OF rn ab(2)] sd)+
qed

text \<open>The same for a producer that decides on its own what it writes, as long as that is in \<open>V\<close>.\<close>

lemma fill_scratch_makes:
  assumes c: "scratch_ctx f ds e name tmp" and B: "hooked m0 \<Longrightarrow> B"
    and prod: "triple P produce (\<lambda>_ m. \<exists>bs. V bs \<and> tab m0 (f(tmp \<mapsto> file_node md bs)) m) (\<lambda>_. half m0 f tmp B)"
  shows "triple P (fill_scratch tmp name \<lparr> wpath = tmp, wclosed = False \<rparr> produce)
    (\<lambda>_ m. \<exists>bs. V bs \<and> tab m0 (f(tmp := None, name \<mapsto> file_node md bs)) m)
    (\<lambda>_ m. half m0 f tmp B m \<or> B \<and> (\<exists>bs. V bs \<and> tab m0 (f(tmp := None, name \<mapsto> file_node md bs)) m))"
  unfolding triple_def
proof (intro allI impI)
  fix w
  assume w: "P w"
  let ?p = "fill_scratch tmp name \<lparr> wpath = tmp, wclosed = False \<rparr> produce"
  have tr: "triple (\<lambda>x. x = w) ?p (\<lambda>_. tab m0 (f(tmp := None, name \<mapsto> file_node md bs)))
      (\<lambda>_ m. half m0 f tmp B m \<or> B \<and> tab m0 (f(tmp := None, name \<mapsto> file_node md bs)) m)"
    if "triple (\<lambda>x. x = w) produce (\<lambda>_. tab m0 (f(tmp \<mapsto> file_node md bs))) (\<lambda>_. half m0 f tmp B)" for bs
    using fill_scratch_plain [OF c B _ that] by simp
  show "case ?p w of
      (Inl er, m) \<Rightarrow> half m0 f tmp B m \<or> B \<and> (\<exists>bs. V bs \<and> tab m0 (f(tmp := None, name \<mapsto> file_node md bs)) m)
    | (Inr _, m) \<Rightarrow> \<exists>bs. V bs \<and> tab m0 (f(tmp := None, name \<mapsto> file_node md bs)) m"
  proof (cases "fst (produce w)")
    case (Inr u)
    then obtain m1 where p: "produce w = (Inr u, m1)" by (cases "produce w") auto
    then obtain bs where bs: "V bs" "tab m0 (f(tmp \<mapsto> file_node md bs)) m1" using triple_Inr [OF prod w] by blast
    have "triple (\<lambda>x. x = w) produce (\<lambda>_. tab m0 (f(tmp \<mapsto> file_node md bs))) (\<lambda>_. half m0 f tmp B)"
      using bs(2) p by (simp add: triple_def)
    from tr [OF this] show ?thesis using bs(1) by (auto simp: triple_def split: prod.splits sum.splits)
  next
    case (Inl er)
    then obtain m1 where p: "produce w = (Inl er, m1)" by (cases "produce w") auto
    then have "half m0 f tmp B m1" using triple_Inl [OF prod w] by blast
    then have "triple (\<lambda>x. x = w) produce (\<lambda>_. tab m0 (f(tmp \<mapsto> file_node md bs))) (\<lambda>_. half m0 f tmp B)" for bs
      using p by (simp add: triple_def)
    note both = tr [OF this, of "[]"] tr [OF this, of "''a''"]
    have "\<not> (tab m0 (f(tmp := None, name \<mapsto> file_node md [])) m \<and> tab m0 (f(tmp := None, name \<mapsto> file_node md ''a'')) m)" for m
      by (auto simp: tab_def dest: fun_cong [of _ _ name])
    then show ?thesis using both by (auto simp: triple_def split: prod.splits sum.splits)
  qed
qed

lemma scratch_ctxI:
  assumes "dirs_tab f ds" "simple e" "name = abs_path (ds @ [e])" "wf_tab f" "\<And>n. f name = Some n \<Longrightarrow> \<not> isDir n"
    "plain_file (f (tmp_of i name k))"
  shows "scratch_ctx f ds e name (tmp_of i name k)"
  using assms abs_path_snoc [of ds e "scratch_suffix i k"] simple_scratch [of e i k]
  by (auto simp: scratch_ctx_def plain_file_def tmp_of_def intro!: exI [of _ "e @ scratch_suffix i k"])

lemma WriteStreamAtomic_makes:
  assumes dt: "dirs_tab f ds" and e: "simple e" and name: "name = abs_path (ds @ [e])" and wf: "wf_tab f"
    and nd: "\<And>n. f name = Some n \<Longrightarrow> \<not> isDir n"
    and reg: "\<And>k. plain_file (f (tmp_of (pid m0) name k))"
    and B: "hooked m0 \<Longrightarrow> B"
    and prod: "\<And>p. triple (tab m0 (f(p \<mapsto> file_node md []))) (produce \<lparr> wpath = p, wclosed = False \<rparr>)
       (\<lambda>_ m. \<exists>bs. V bs \<and> tab m0 (f(p \<mapsto> file_node md bs)) m) (\<lambda>_. half m0 f p B)"
  shows "triple (tab m0 f) (WriteStreamAtomic name md produce)
    (\<lambda>_ m. \<exists>bs. V bs \<and> written m0 f name (file_node md bs) m)
    (\<lambda>_ m. B \<and> (unwritten m0 f name m \<or> (\<exists>bs. V bs \<and> written m0 f name (file_node md bs) m)))"
    (is "triple _ _ ?Q ?E")
proof -
  have one: "triple (tab m0 f) (bind (Create t md) (\<lambda>w. fill_scratch t name w (produce w)))
    (\<lambda>_ m. \<exists>bs. V bs \<and> written m0 f name (file_node md bs) m)
    (\<lambda>_ m. B \<and> (unwritten m0 f name m \<or> (\<exists>bs. V bs \<and> written m0 f name (file_node md bs) m)))"
    if t: "t = tmp_of (pid m0) name k" for t k
  proof -
    have c: "scratch_ctx f ds e name t" using scratch_ctxI [OF dt e name wf nd reg] t by simp
    then obtain t' where t': "simple t'" "t = abs_path (ds @ [t'])" by (auto simp: scratch_ctx_def)
    have u: "unwritten m0 f name m" if "plain_file x" "tab m0 (f(t := x)) m" for x m
      using that t by (auto simp: unwritten_def)
    have cr: "triple (tab m0 f) (Create t md)
      (\<lambda>w m. w = \<lparr> wpath = t, wclosed = False \<rparr> \<and> tab m0 (f(t \<mapsto> file_node md [])) m) ?E"
      using reg [of k] u [OF reg [of k]] B t
      by (intro triple_weaken [OF Create_plain [OF dt t']]) (auto simp: plain_file_def)
    have fl: "triple (tab m0 (f(t \<mapsto> file_node md []))) (fill_scratch t name \<lparr> wpath = t, wclosed = False \<rparr>
        (produce \<lparr> wpath = t, wclosed = False \<rparr>)) ?Q ?E"
      using u t by (intro triple_weaken [OF fill_scratch_makes [OF c B prod]]) (auto simp: written_def half_def)
    show ?thesis
      by (rule triple_bind [OF cr]) (use fl in \<open>auto simp: triple_def\<close>)
  qed
  show ?thesis
    unfolding WriteStreamAtomic_def
  proof (rule triple_bind)
    show "triple (tab m0 f) (TempName name) (\<lambda>t m. \<exists>k. t = tmp_of (pid m0) name k \<and> tab m0 f m) ?E"
      by (rule triple_weaken [OF TempName_plain]) auto
    show "triple (\<lambda>m. \<exists>k. t = tmp_of (pid m0) name k \<and> tab m0 f m)
        (bind (Create t md) (\<lambda>w. fill_scratch t name w (produce w))) ?Q ?E" for t
      by (rule triple_Ex) (use one in \<open>auto simp: triple_def\<close>)
  qed
qed

lemma WriteStreamAtomic_plain:
  assumes "dirs_tab f ds" "simple e" "name = abs_path (ds @ [e])" "wf_tab f" "\<And>n. f name = Some n \<Longrightarrow> \<not> isDir n"
    "\<And>k. plain_file (f (tmp_of (pid m0) name k))" "hooked m0 \<Longrightarrow> B"
    and "\<And>p. triple (tab m0 (f(p \<mapsto> file_node md []))) (produce \<lparr> wpath = p, wclosed = False \<rparr>)
       (\<lambda>_. tab m0 (f(p \<mapsto> file_node md bs))) (\<lambda>_. half m0 f p B)"
  shows "triple (tab m0 f) (WriteStreamAtomic name md produce)
    (\<lambda>_. written m0 f name (file_node md bs))
    (\<lambda>_ m. B \<and> (unwritten m0 f name m \<or> written m0 f name (file_node md bs) m))"
  using WriteStreamAtomic_makes [OF assms(1-7), of md produce "\<lambda>x. x = bs"] assms(8) by simp

lemma WriteFileAtomic_plain:
  assumes "dirs_tab f ds" "simple e" "name = abs_path (ds @ [e])" "wf_tab f"
    "\<And>n. f name = Some n \<Longrightarrow> \<not> isDir n" "\<And>k. plain_file (f (tmp_of (pid m0) name k))"
  shows "triple (tab m0 f) (WriteFileAtomic name bs md)
    (\<lambda>_. written m0 f name (file_node md bs))
    (\<lambda>_ m. hooked m0 \<and> (unwritten m0 f name m \<or> written m0 f name (file_node md bs) m))"
proof -
  have "WriteFileAtomic name bs md = WriteStreamAtomic name md (\<lambda>w. Write w bs)"
    by (simp add: WriteFileAtomic_def WriteStreamAtomic_def)
  moreover have "triple (tab m0 (f(p \<mapsto> file_node md []))) (Write \<lparr> wpath = p, wclosed = False \<rparr> bs)
       (\<lambda>_. tab m0 (f(p \<mapsto> file_node md bs))) (\<lambda>_. half m0 f p (hooked m0))" for p
    by (rule triple_weaken [OF Write_plain [of "f(p \<mapsto> file_node md [])" p "file_node md []"]])
      (auto simp: half_def intro!: exI [of _ "Some (file_node md [])"])
  ultimately show ?thesis using WriteStreamAtomic_plain [OF assms, where B = "hooked m0"] by simp
qed

section \<open>Reading, making and removing\<close>

lemma ReadFile_plain:
  assumes dt: "dirs_tab f ds" and e: "simple e" and p: "p = abs_path (ds @ [e])" and lim: "0 < limit"
    and reg: "plain_file (f p)"
  shows "triple (tab m0 f) (ReadFile p limit)
    (\<lambda>bs m. tab m0 f m \<and> (\<exists>n. f p = Some n \<and> bs = data n \<and> int (length bs) \<le> limit))
    (\<lambda>er m. tab m0 f m \<and> (hook_err m0 er \<or> (f p = None \<and> er = [ErrNotExist]) \<or>
       (\<exists>n. f p = Some n \<and> limit < int (length (data n)))))"
  unfolding triple_def
proof (intro allI impI)
  fix m
  assume t: "tab m0 f m"
  then have d: "dirs_ok m ds" using dt by (simp add: dirs_ok_tab tab_def)
  have n: "node m p True = (case f p of None \<Rightarrow> Inl [ErrNotExist] | Some n \<Rightarrow> Inr (p, n))"
    using node_in_dir [OF d e, of True, folded p] t reg by (auto simp: tab_def plain_file_def link_at_def)
  show "case ReadFile p limit m of
      (Inl er, m') \<Rightarrow> tab m0 f m' \<and> (hook_err m0 er \<or> (f p = None \<and> er = [ErrNotExist]) \<or>
        (\<exists>n. f p = Some n \<and> limit < int (length (data n))))
    | (Inr bs, m') \<Rightarrow> tab m0 f m' \<and> (\<exists>n. f p = Some n \<and> bs = data n \<and> int (length bs) \<le> limit)"
  proof (cases rule: fail_cases' [OF t, of "''open''" "canon p"])
    case (1 er)
    then show ?thesis using lim t by (simp add: ReadFile_def Open_def prog_simps)
  next
    case 2
    show ?thesis
    proof (cases "f p")
      case None
      then show ?thesis using n 2 lim t by (simp add: ReadFile_def Open_def prog_simps)
    next
      case (Some nd)
      then show ?thesis
        using n 2 lim t reg by (auto simp: ReadFile_def Open_def prog_simps Let_def plain_file_def min_def)
    qed
  qed
qed

lemma mkdir_loop_exist:
  assumes "\<And>i. i \<le> length (xs @ ys) \<Longrightarrow> real_dir m (abs_path (take i (xs @ ys)))" "simples (xs @ ys)"
  shows "mkdir_loop md (abs_path xs) ys m = (Inr (), m)"
  using assms
proof (induction ys arbitrary: xs)
  case (Cons y ys)
  have j: "joinPath (abs_path xs) y = abs_path (xs @ [y])" using Cons.prems by (simp add: joinPath_abs)
  have "real_dir m (abs_path (xs @ [y]))" using Cons.prems(1) [of "length xs + 1"] by simp
  then obtain n where "node_at m (abs_path (xs @ [y])) = Some n" "isDir n" by (auto simp: real_dir_def)
  then show ?case using Cons.IH [of "xs @ [y]"] Cons.prems by (simp add: j Let_def)
qed simp

lemma MkdirAll_exist:
  assumes dt: "dirs_tab f ds" and p: "p = abs_path ds"
  shows "triple (tab m0 f) (MkdirAll p md) (\<lambda>_. tab m0 f) (\<lambda>_ m. tab m0 f m \<and> hooked m0)"
  unfolding triple_def
proof (intro allI impI)
  fix m
  assume t: "tab m0 f m"
  then have d: "dirs_ok m ds" using dt by (simp add: dirs_ok_tab tab_def)
  have r: "resolve m p True = Inr p" using resolve_dir [OF d] p by simp
  have s: "simples ds" and l: "mkdir_loop md (abs_path []) ds (m\<lparr>calls := c\<rparr>) = (Inr (), m\<lparr>calls := c\<rparr>)" for c
    using d mkdir_loop_exist [of "[]" ds "m\<lparr>calls := c\<rparr>"] by (simp_all add: dirs_ok_def real_dir_def)
  have root: "abs_path [] = ''/''" by (simp add: abs_path_def)
  have sp: "prefix ''/'' p" "splitElems p = ds" using s by (simp_all add: p prefix_abs splitElems_abs)
  show "case MkdirAll p md m of (Inl er, m') \<Rightarrow> tab m0 f m' \<and> hooked m0 | (Inr _, m') \<Rightarrow> tab m0 f m'"
    using r sp s t l [unfolded root]
    by (cases rule: fail_cases' [OF t, of "''mkdirall''" "canon p"])
      (auto simp: MkdirAll_def prog_simps p)
qed

text \<open>\<open>MkdirAll\<close> of a name in a real directory: the directory is there afterwards.\<close>

lemma mkdir_loop_last:
  assumes "\<And>i. i \<le> length (xs @ ys) \<Longrightarrow> real_dir m (abs_path (take i (xs @ ys)))" "simples (xs @ ys @ [e])"
    and "\<And>n. node_at m (abs_path (xs @ ys @ [e])) = Some n \<Longrightarrow> isDir n"
  shows "mkdir_loop md (abs_path xs) (ys @ [e]) m =
    (Inr (), if node_at m (abs_path (xs @ ys @ [e])) = None then put (abs_path (xs @ ys @ [e])) (dir_node md) m else m)"
  using assms
proof (induction ys arbitrary: xs)
  case Nil
  have j: "joinPath (abs_path xs) e = abs_path (xs @ [e])" using Nil.prems by (simp add: joinPath_abs)
  then show ?case using Nil.prems(3) by (auto simp: Let_def split: option.splits)
next
  case (Cons y ys)
  have j: "joinPath (abs_path xs) y = abs_path (xs @ [y])" using Cons.prems by (simp add: joinPath_abs)
  have "real_dir m (abs_path (xs @ [y]))" using Cons.prems(1) [of "length xs + 1"] by simp
  then obtain n where "node_at m (abs_path (xs @ [y])) = Some n" "isDir n" by (auto simp: real_dir_def)
  then show ?case using Cons.IH [of "xs @ [y]"] Cons.prems by (simp add: j Let_def)
qed

definition with_dir :: "32 word \<Rightarrow> string \<Rightarrow> (string \<Rightarrow> memNode option) \<Rightarrow> string \<Rightarrow> memNode option" where
  "with_dir md p f = (if f p = None then f(p \<mapsto> dir_node md) else f)"

lemma MkdirAll_plain:
  assumes dt: "dirs_tab f ds" and e: "simple e" and p: "p = abs_path (ds @ [e])"
    and real: "\<And>n. f p = Some n \<Longrightarrow> isDir n \<and> \<not> isSymlink n"
  shows "triple (tab m0 f) (MkdirAll p md) (\<lambda>_. tab m0 (with_dir md p f)) (\<lambda>_ m. tab m0 f m \<and> hooked m0)"
  unfolding triple_def
proof (intro allI impI)
  fix m
  assume t: "tab m0 f m"
  then have d: "dirs_ok m ds" using dt by (simp add: dirs_ok_tab tab_def)
  have s: "simples (ds @ [e])" using d e by (simp add: dirs_ok_def)
  have r: "resolve m p True = Inr p" using resolve_in_dir [OF d e] real t p by (auto simp: link_at_def tab_def)
  let ?m = "m\<lparr>calls := Suc (calls m)\<rparr>"
  have l: "mkdir_loop md ''/'' (ds @ [e]) ?m = (Inr (), if f p = None then put p (dir_node md) ?m else ?m)"
    using mkdir_loop_last [of "[]" ds ?m e md] d s real t
    by (auto simp: dirs_ok_def real_dir_def p tab_def) (auto simp: abs_path_def)
  have sp: "prefix ''/'' p" "splitElems p = ds @ [e]" using s by (simp_all add: p prefix_abs splitElems_abs)
  show "case MkdirAll p md m of (Inl er, m') \<Rightarrow> tab m0 f m' \<and> hooked m0 | (Inr _, m') \<Rightarrow> tab m0 (with_dir md p f) m'"
    using r sp s t l tab_put [OF t, of p "dir_node md"]
    by (cases rule: fail_cases' [OF t, of "''mkdirall''" "canon p"])
      (auto simp: MkdirAll_def prog_simps with_dir_def p)
qed

lemma with_dir_dirs:
  assumes dt: "dirs_tab f ds" and e: "simple e" and p: "p = abs_path (ds @ [e])"
    and real: "\<And>n. f p = Some n \<Longrightarrow> isDir n \<and> \<not> isSymlink n"
  shows "dirs_tab (with_dir md p f) (ds @ [e])"
proof -
  have s: "simples ds" using dt by (simp add: dirs_tab_def)
  have "\<exists>n. with_dir md p f (abs_path (take i (ds @ [e]))) = Some n \<and> isDir n \<and> \<not> isSymlink n" if "i \<le> length (ds @ [e])" for i
  proof (cases "i \<le> length ds")
    case True
    then show ?thesis using dt in_dir_not_ancestor [OF s e True] by (auto simp: dirs_tab_def with_dir_def p)
  next
    case False
    then have "take i (ds @ [e]) = ds @ [e]" using that by simp
    then show ?thesis using real p by (cases "f p") (auto simp: with_dir_def)
  qed
  then show ?thesis using s e by (simp add: dirs_tab_def)
qed

lemma wf_with_dir:
  assumes "wf_tab f" "dirs_tab f ds" "simple e" "p = abs_path (ds @ [e])"
  shows "wf_tab (with_dir md p f)"
  using wf_tab_file [OF assms, of "Some (dir_node md)"] assms by (auto simp: with_dir_def)

text \<open>\<open>RemoveAll\<close> of a name in a real directory: that name and everything below it.\<close>

definition pruned :: "string \<Rightarrow> (string \<Rightarrow> memNode option) \<Rightarrow> string \<Rightarrow> memNode option" where
  "pruned p f q = (if q = p \<or> prefix (p @ ''/'') q then None else f q)"

lemma RemoveAll_plain:
  assumes dt: "dirs_tab f ds" and e: "simple e" and p: "p = abs_path (ds @ [e])" and wf: "wf_tab f"
  shows "triple (tab m0 f) (RemoveAll p) (\<lambda>_. tab m0 (pruned p f)) (\<lambda>_ m. tab m0 f m \<and> hooked m0)"
  unfolding triple_def
proof (intro allI impI)
  fix m
  assume t: "tab m0 f m"
  then have d: "dirs_ok m ds" using dt by (simp add: dirs_ok_tab tab_def)
  then have r: "resolve m p False = Inr p" and pn: "p \<noteq> []" "p \<noteq> ''/''"
    using resolve_in_dir [OF d e, of False] abs_path_inj [of "ds @ [e]" "[]"] e
    by (auto simp: p dirs_ok_def) (simp add: abs_path_def)
  let ?m = "m\<lparr>calls := Suc (calls m)\<rparr>"
  have fold: "same_env m0 (fold del ks x) = same_env m0 x" for ks x by (induction ks arbitrary: x) auto
  have gone: "tab m0 (pruned p f) (del p (fold del (childrenOf m p) ?m))"
  proof -
    have "node_at (del p (fold del (childrenOf m p) ?m)) q = pruned p f q" for q
      using t pn by (auto simp: pruned_def node_at_fold_del childrenOf_below tab_def)
    then show ?thesis using t by (auto simp: tab_def fold)
  qed
  have none: "pruned p f = f" if "f p = None"
    using wf_tab_below [OF wf pn(1)] that by (auto simp: pruned_def fun_eq_iff)
  show "case RemoveAll p m of (Inl er, m') \<Rightarrow> tab m0 f m' \<and> hooked m0 | (Inr _, m') \<Rightarrow> tab m0 (pruned p f) m'"
    using r pn t gone none
    by (cases rule: fail_cases' [OF t, of "''removeall''" "canon p"])
      (auto simp: RemoveAll_def prog_simps tab_node_at split: option.splits)
qed

lemma pruned_other: "q \<noteq> p \<Longrightarrow> \<not> prefix (p @ ''/'') q \<Longrightarrow> pruned p f q = f q"
  by (simp add: pruned_def)

lemma wf_tab_pruned: "wf_tab f \<Longrightarrow> wf_tab (pruned p f)"
proof -
  assume wf: "wf_tab f"
  have "pruned p f a = f a" if "prefix (a @ ''/'') q" "pruned p f q \<noteq> None" for a q
    using that prefix_below_trans [of p a q] by (auto simp: pruned_def split: if_splits)
  moreover have "f q \<noteq> None" if "pruned p f q \<noteq> None" for q
    using that by (auto simp: pruned_def split: if_splits)
  ultimately show ?thesis using wf unfolding wf_tab_def by metis
qed

text \<open>
  C3.  Durable writes.  Into a real directory, over a file, a link or nothing, with any scratch
  files of earlier runs lying around: whichever filesystem calls fail - one, or all from some
  point on as in a crash - \<open>WriteFileAtomic\<close> leaves under the name either exactly what was there
  or the complete new contents, touches nothing else but its own scratch names, succeeds with the
  new contents readable under the name, and fails only if some call was made to fail.
\<close>

theorem WriteFileAtomic_durable:
  assumes "wf_mem m" "dirs_ok m ds" "simple e" "name = abs_path (ds @ [e])"
    and "\<forall>n. node_at m name = Some n \<longrightarrow> \<not> isDir n"
    and "\<forall>k. plain_file (node_at m (tmp_of (pid m) name k))"
    and "WriteFileAtomic name bs md m = (r, m')"
  shows "(node_at m' name = node_at m name \<or> node_at m' name = Some (file_node md bs)) \<and>
    (\<forall>q. q \<noteq> name \<longrightarrow> (\<forall>k. q \<noteq> tmp_of (pid m) name k) \<longrightarrow> node_at m' q = node_at m q) \<and>
    (r = Inr () \<longrightarrow> node_at m' name = Some (file_node md bs)) \<and>
    (\<not> hooked m \<longrightarrow> r = Inr () \<and>
      (\<forall>limit. 0 < limit \<longrightarrow> int (length bs) \<le> limit \<longrightarrow> fst (ReadFile name limit m') = Inr bs))"
proof -
  let ?f = "node_at m" and ?new = "file_node md bs"
  have dt: "dirs_tab ?f ds" and wf: "wf_tab ?f" using assms(1,2) by (simp_all add: dirs_ok_tab wf_mem_tab)
  note tr = WriteFileAtomic_plain [OF dt assms(3,4) wf, of m bs md]
  have tr: "triple (tab m ?f) (WriteFileAtomic name bs md) (\<lambda>_. written m ?f name ?new)
    (\<lambda>_ w. hooked m \<and> (unwritten m ?f name w \<or> written m ?f name ?new w))"
    using tr assms(5,6) by blast
  have tn: "tmp_of i name k \<noteq> name" "name \<noteq> tmp_of i name k" for i k by (simp_all add: tmp_of_def)
  have w: "node_at m' name = Some ?new \<and>
      (\<forall>q. q \<noteq> name \<longrightarrow> (\<forall>k. q \<noteq> tmp_of (pid m) name k) \<longrightarrow> node_at m' q = node_at m q)"
    if "written m ?f name ?new m'" using that tn by (auto simp: written_def tab_def)
  have u: "node_at m' name = node_at m name \<and>
      (\<forall>q. q \<noteq> name \<longrightarrow> (\<forall>k. q \<noteq> tmp_of (pid m) name k) \<longrightarrow> node_at m' q = node_at m q)"
    if "unwritten m ?f name m'" using that tn by (auto simp: unwritten_def tab_def)
  have rd: "fst (ReadFile name limit m') = Inr bs"
    if written: "written m ?f name ?new m'" and nh: "\<not> hooked m" and lim: "0 < limit" "int (length bs) \<le> limit" for limit
  proof -
    from written obtain k where k: "tab m (?f(tmp_of (pid m) name k := None, name \<mapsto> ?new)) m'"
      by (auto simp: written_def)
    have c: "scratch_ctx ?f ds e name (tmp_of (pid m) name k)"
      using scratch_ctxI [OF dt assms(3,4) wf] assms(5,6) by blast
    have "dirs_tab (?f(tmp_of (pid m) name k := None, name \<mapsto> ?new)) ds" using scratch_ctxD [OF c] by metis
    note tr = ReadFile_plain [OF this assms(3,4) lim(1), of m, simplified]
    show ?thesis using tr k nh lim by (cases "ReadFile name limit m'"; cases "fst (ReadFile name limit m')") (fastforce simp: triple_def dest: hook_err_hooked)+
  qed
  show ?thesis
  proof (cases r)
    case (Inr x)
    then have "written m ?f name ?new m'" using triple_Inr [OF tr tab_same] assms(7) by simp
    then show ?thesis using w rd Inr by simp
  next
    case (Inl er)
    then have "hooked m" "unwritten m ?f name m' \<or> written m ?f name ?new m'"
      using triple_Inl [OF tr tab_same] assms(7) by simp_all
    then show ?thesis using w u Inl by (elim disjE) auto
  qed
qed

theorem WriteFileAtomic_durable_witness:
  "fst (ReadFile ''/f'' 10 (snd (WriteFileAtomic ''/f'' ''new'' 0x1A4 NewMem))) = Inr ''new''"
proof -
  have d: "dirs_ok NewMem []" by (simp add: dirs_ok_def real_dir_def abs_path_def node_at_def NewMem_def)
  have n: "node_at NewMem (slash # CHR ''f'' # x) = None" for x by (simp add: node_at_def NewMem_def)
  have "\<not> hooked NewMem" by (simp add: hooked_def NewMem_def)
  then show ?thesis
    using WriteFileAtomic_durable [OF wf_NewMem d, of "''f''" "''/f''" "''new''" "0x1A4"
        "fst (WriteFileAtomic ''/f'' ''new'' 0x1A4 NewMem)" "snd (WriteFileAtomic ''/f'' ''new'' 0x1A4 NewMem)"]
    by (simp add: simple_def abs_path_def tmp_of_def n)
qed

end
