(* ===== verification/Json.thy ===== *)
theory Json
  imports Prelude
begin

unbundle bit_operations_syntax

text \<open>
  The part of Go's \<open>encoding/json\<close> that the sources use: \<open>MarshalIndent(v, "", "  ")\<close> of structs
  (with HTML escaping), a \<open>Decoder\<close> that reads the first value of the input and reports with
  \<open>More\<close> whether another one follows, and decoding into structs: field names match without regard
  to case, \<open>null\<close> leaves a field alone, a repeated key decodes into what is already there, and an
  unknown key is an error (\<open>DisallowUnknownFields\<close>).
\<close>

section \<open>UTF-8\<close>

abbreviation byte :: "nat \<Rightarrow> char" where "byte n \<equiv> char_of n"

definition between :: "nat \<Rightarrow> char \<Rightarrow> nat \<Rightarrow> bool" where
  "between a c b \<longleftrightarrow> a \<le> (of_char c :: nat) \<and> of_char c \<le> b"

text \<open>
  The length of the well-formed multi-byte sequence at the head of the input, 0 if there is none:
  \<open>utf8.DecodeRune\<close> consumes that many bytes, or one byte as an invalid one.
\<close>

fun rune_len :: "string \<Rightarrow> nat" where
  "rune_len (a # b # r) =
     (if between 0xC2 a 0xDF then (if between 0x80 b 0xBF then 2 else 0)
      else if between 0xE0 a 0xEF then
        (if between (if of_char a = (0xE0 :: nat) then 0xA0 else 0x80) b (if of_char a = (0xED :: nat) then 0x9F else 0xBF) then
           (case r of c # _ \<Rightarrow> (if between 0x80 c 0xBF then 3 else 0) | [] \<Rightarrow> 0)
         else 0)
      else if between 0xF0 a 0xF4 then
        (if between (if of_char a = (0xF0 :: nat) then 0x90 else 0x80) b (if of_char a = (0xF4 :: nat) then 0x8F else 0xBF) then
           (case r of c # d # _ \<Rightarrow> (if between 0x80 c 0xBF \<and> between 0x80 d 0xBF then 4 else 0) | _ \<Rightarrow> 0)
         else 0)
      else 0)"
| "rune_len _ = 0"

definition is_ascii :: "char \<Rightarrow> bool" where
  "is_ascii c \<longleftrightarrow> (of_char c :: nat) < 0x80"

text \<open>\<open>utf8.AppendRune\<close>; surrogates and numbers beyond the range become U+FFFD.\<close>

definition rune_error :: string where
  "rune_error = [byte 0xEF, byte 0xBF, byte 0xBD]"

definition encode_rune :: "nat \<Rightarrow> string" where
  "encode_rune r =
     (if r < 0x80 then [byte r]
      else if r < 0x800 then [byte (0xC0 + r div 64), byte (0x80 + r mod 64)]
      else if (0xD800 \<le> r \<and> r \<le> 0xDFFF) \<or> r > 0x10FFFF then rune_error
      else if r < 0x10000 then [byte (0xE0 + r div 4096), byte (0x80 + (r div 64) mod 64), byte (0x80 + r mod 64)]
      else [byte (0xF0 + r div 262144), byte (0x80 + (r div 4096) mod 64), byte (0x80 + (r div 64) mod 64), byte (0x80 + r mod 64)])"

function valid_utf8 :: "string \<Rightarrow> bool" where
  "valid_utf8 [] = True"
| "valid_utf8 (c # cs) =
     (if is_ascii c then valid_utf8 cs
      else if rune_len (c # cs) = 0 then False
      else valid_utf8 (drop (rune_len (c # cs)) (c # cs)))"
  by pat_completeness auto
termination
  by (relation "measure length") auto

section \<open>Strings\<close>

definition hex_digit :: "nat \<Rightarrow> char" where
  "hex_digit n = (if n < 10 then byte (48 + n) else byte (87 + n))"

definition hex_val :: "char \<Rightarrow> nat option" where
  "hex_val c =
     (if between 48 c 57 then Some (of_char c - 48)
      else if between 97 c 102 then Some (of_char c - 87)
      else if between 65 c 70 then Some (of_char c - 55)
      else None)"

definition u4 :: "nat \<Rightarrow> string" where
  "u4 n = [byte 92, CHR ''u'', hex_digit (n div 4096), hex_digit ((n div 256) mod 16), hex_digit ((n div 16) mod 16), hex_digit (n mod 16)]"

text \<open>The characters written as they are: printable ASCII but quotes, backslash and the HTML ones.\<close>

definition html_safe :: "char \<Rightarrow> bool" where
  "html_safe c \<longleftrightarrow> 32 \<le> (of_char c :: nat) \<and> is_ascii c \<and>
     c \<noteq> byte 34 \<and> c \<noteq> byte 92 \<and> c \<noteq> CHR ''<'' \<and> c \<noteq> CHR ''>'' \<and> c \<noteq> CHR ''&''"

definition quote_char :: "char \<Rightarrow> string" where
  "quote_char c =
     (if html_safe c then [c]
      else if c = byte 34 \<or> c = byte 92 then [byte 92, c]
      else if c = byte 8 then [byte 92, CHR ''b'']
      else if c = byte 12 then [byte 92, CHR ''f'']
      else if c = byte 10 then [byte 92, CHR ''n'']
      else if c = byte 13 then [byte 92, CHR ''r'']
      else if c = byte 9 then [byte 92, CHR ''t'']
      else u4 (of_char c))"

definition line_sep :: "string \<Rightarrow> nat option" where
  "line_sep s =
     (if prefix [byte 0xE2, byte 0x80, byte 0xA8] s then Some 0x2028
      else if prefix [byte 0xE2, byte 0x80, byte 0xA9] s then Some 0x2029 else None)"

function quote_body :: "string \<Rightarrow> string" where
  "quote_body [] = []"
| "quote_body (c # cs) =
     (if is_ascii c then quote_char c @ quote_body cs
      else if rune_len (c # cs) = 0 then u4 0xFFFD @ quote_body cs
      else (case line_sep (c # cs) of Some n \<Rightarrow> u4 n | None \<Rightarrow> take (rune_len (c # cs)) (c # cs))
             @ quote_body (drop (rune_len (c # cs)) (c # cs)))"
  by pat_completeness auto
termination
  by (relation "measure length") auto

definition quote :: "string \<Rightarrow> string" where
  "quote s = byte 34 # quote_body s @ [byte 34]"

text \<open>\<open>getu4\<close>: the number of an escape \<open>\u\<close> with four hexadecimal digits.\<close>

definition getu4 :: "string \<Rightarrow> nat option" where
  "getu4 s = (case s of
     x # u # a # b # c # d # _ \<Rightarrow>
       (if x = byte 92 \<and> u = CHR ''u'' then
          (case (hex_val a, hex_val b, hex_val c, hex_val d) of
             (Some a, Some b, Some c, Some d) \<Rightarrow> Some (((a * 16 + b) * 16 + c) * 16 + d)
           | _ \<Rightarrow> None)
        else None)
   | _ \<Rightarrow> None)"

definition simple_escape :: "char \<Rightarrow> char option" where
  "simple_escape c =
     (if c = byte 34 \<or> c = byte 92 \<or> c = slash then Some c
      else if c = CHR ''b'' then Some (byte 8)
      else if c = CHR ''f'' then Some (byte 12)
      else if c = CHR ''n'' then Some (byte 10)
      else if c = CHR ''r'' then Some (byte 13)
      else if c = CHR ''t'' then Some (byte 9)
      else None)"

text \<open>A high surrogate followed by an escaped low one is one rune; any other surrogate is U+FFFD.\<close>

definition surrogate_pair :: "nat \<Rightarrow> string \<Rightarrow> nat option" where
  "surrogate_pair r rest =
     (case getu4 rest of
        Some r2 \<Rightarrow> (if 0xD800 \<le> r \<and> r < 0xDC00 \<and> 0xDC00 \<le> r2 \<and> r2 < 0xE000
                    then Some ((r - 0xD800) * 1024 + (r2 - 0xDC00) + 0x10000) else None)
      | None \<Rightarrow> None)"

text \<open>
  The string token after its opening quote: its decoded contents and the rest of the input.
\<close>

function read_str :: "string \<Rightarrow> (string \<times> string) option" where
  "read_str [] = None"
| "read_str (c # cs) =
     (if c = byte 34 then Some ([], cs)
      else if c = byte 92 then
        (case getu4 (c # cs) of
           Some r \<Rightarrow>
             (case surrogate_pair r (drop 5 cs) of
                Some rr \<Rightarrow> map_option (apfst (\<lambda>t. encode_rune rr @ t)) (read_str (drop 11 cs))
              | None \<Rightarrow> map_option (apfst (\<lambda>t. encode_rune r @ t)) (read_str (drop 5 cs)))
         | None \<Rightarrow>
             (case cs of
                [] \<Rightarrow> None
              | e # es \<Rightarrow> (case simple_escape e of
                  None \<Rightarrow> None
                | Some x \<Rightarrow> map_option (apfst (\<lambda>t. x # t)) (read_str es))))
      else if (of_char c :: nat) < 32 then None
      else if is_ascii c then map_option (apfst (\<lambda>t. c # t)) (read_str cs)
      else if rune_len (c # cs) = 0 then map_option (apfst (\<lambda>t. rune_error @ t)) (read_str cs)
      else map_option (apfst (\<lambda>t. take (rune_len (c # cs)) (c # cs) @ t))
             (read_str (drop (rune_len (c # cs)) (c # cs))))"
  by pat_completeness auto
termination
  by (relation "measure length") auto

declare read_str.simps(2) [simp del]

subsection \<open>What is written is read back\<close>

lemma of_char_less [simp]: "(of_char c :: nat) < 256"
  using of_char_mod_256 [of c, where 'a = nat] by (metis mod_less_divisor zero_less_numeral)

lemma hex_val_digit: "n < 16 \<Longrightarrow> hex_val (hex_digit n) = Some n"
  by (auto simp: hex_val_def hex_digit_def between_def of_char_of)

lemma getu4_u4:
  assumes "n < 0x10000"
  shows "getu4 (u4 n @ t) = Some n"
proof -
  have q: "n div 256 = n div 16 div 16" "n div 4096 = n div 256 div 16" by (simp_all add: div_mult2_eq [symmetric])
  have "n div 4096 * 16 + n div 256 mod 16 = n div 256" "n div 256 * 16 + n div 16 mod 16 = n div 16"
    unfolding q by (simp_all only: div_mult_mod_eq)
  then have "((n div 4096 * 16 + n div 256 mod 16) * 16 + n div 16 mod 16) * 16 + n mod 16 = n" by simp
  then show ?thesis using assms by (simp add: getu4_def u4_def hex_val_digit)
qed

lemma read_str_u4:
  assumes "n < 0xD800"
  shows "read_str (u4 n @ t) = map_option (apfst (\<lambda>s. encode_rune n @ s)) (read_str t)"
proof -
  have g: "getu4 (u4 n @ t) = Some n" using assms by (simp add: getu4_u4)
  have sp: "surrogate_pair n t = None" using assms by (auto simp: surrogate_pair_def split: option.splits)
  obtain x where x: "u4 n @ t = byte 92 # x" "drop 5 x = t" by (simp add: u4_def)
  show ?thesis using g sp unfolding x(1) by (simp add: x(2) read_str.simps)
qed

lemma encode_ascii: "is_ascii c \<Longrightarrow> encode_rune (of_char c) = [c]"
  by (simp add: encode_rune_def is_ascii_def)

lemma simple_escapes:
  "simple_escape (byte 34) = Some (byte 34)" "simple_escape (byte 92) = Some (byte 92)"
  "simple_escape (CHR ''b'') = Some (byte 8)" "simple_escape (CHR ''f'') = Some (byte 12)"
  "simple_escape (CHR ''n'') = Some (byte 10)" "simple_escape (CHR ''r'') = Some (byte 13)"
  "simple_escape (CHR ''t'') = Some (byte 9)" "simple_escape (CHR ''u'') = None"
  by code_simp+

lemma read_str_char:
  assumes "is_ascii c"
  shows "read_str (quote_char c @ t) = map_option (apfst (\<lambda>s. c # s)) (read_str t)"
proof (cases "html_safe c")
  case True
  then show ?thesis using assms by (simp add: quote_char_def html_safe_def read_str.simps)
next
  case False
  have esc: "read_str (byte 92 # e # t) = map_option (apfst (\<lambda>s. x # s)) (read_str t)"
    if "simple_escape e = Some x" for e x
  proof -
    have "e \<noteq> CHR ''u''" using that simple_escapes(8) by auto
    then have "getu4 (byte 92 # e # t) = None" by (simp add: getu4_def split: list.splits)
    then show ?thesis using that(1) by (simp add: read_str.simps(2) [of "byte 92"])
  qed
  have "read_str (u4 (of_char c) @ t) = map_option (apfst (\<lambda>s. c # s)) (read_str t)"
    using assms read_str_u4 [of "of_char c" t] by (simp add: encode_ascii is_ascii_def)
  with False show ?thesis
    by (auto simp: quote_char_def intro: simple_escapes(1-7) [THEN esc])
qed

lemma rune_len_take: "rune_len s \<noteq> 0 \<Longrightarrow> rune_len (take (rune_len s) s @ t) = rune_len s"
  by (cases s rule: rune_len.cases) (auto split: list.splits if_splits)

lemma rune_len_bound: "rune_len s \<le> length s"
  by (cases s rule: rune_len.cases) (auto split: list.splits)

lemma rune_head: "rune_len (c # cs) \<noteq> 0 \<Longrightarrow> \<not> is_ascii c"
  by (cases cs) (auto simp: is_ascii_def between_def split: if_splits)

lemma non_ascii: "\<not> is_ascii c \<Longrightarrow> c \<noteq> byte 34 \<and> c \<noteq> byte 92 \<and> \<not> (of_char c :: nat) < 32"
  by (auto simp: is_ascii_def of_char_of)

lemma line_sep_rune: "line_sep s = Some n \<Longrightarrow> rune_len s = 3 \<and> encode_rune n = take 3 s \<and> n < 0xD800"
  by (auto simp: line_sep_def prefix_def between_def of_char_of encode_rune_def split: if_splits)

lemma read_str_rune:
  assumes "rune_len s \<noteq> 0"
  shows "read_str ((case line_sep s of Some n \<Rightarrow> u4 n | None \<Rightarrow> take (rune_len s) s) @ t)
    = map_option (apfst (\<lambda>u. take (rune_len s) s @ u)) (read_str t)"
proof (cases "line_sep s")
  case (Some n)
  then show ?thesis using line_sep_rune [OF Some] by (simp add: read_str_u4)
next
  case None
  obtain c cs where s: "s = c # cs" using assms by (cases s) auto
  obtain k where k: "rune_len s = Suc k" using assms by (cases "rune_len s") auto
  have h: "take (rune_len s) s @ t = c # take k cs @ t" by (simp add: s k [unfolded s])
  have r: "rune_len (c # take k cs @ t) = Suc k" using rune_len_take [OF assms, of t] unfolding h by (simp only: k)
  have l: "length (take k cs) = k" using rune_len_bound [of s] by (simp add: k) (simp add: s)
  have "read_str (c # take k cs @ t) = map_option (apfst (\<lambda>u. take (Suc k) (c # take k cs @ t) @ u))
      (read_str (drop (Suc k) (c # take k cs @ t)))"
    using non_ascii [OF rune_head [OF assms [unfolded s]]] rune_head [OF assms [unfolded s]]
    by (simp add: r read_str.simps(2) [of c] del: take_Suc_Cons drop_Suc_Cons rune_len.simps)
  then show ?thesis using None l by (simp only: h option.case) (simp add: s k [unfolded s])
qed

lemma read_str_quote: "valid_utf8 s \<Longrightarrow> read_str (quote_body s @ byte 34 # t) = Some (s, t)"
proof (induction s rule: valid_utf8.induct)
  case (2 c cs)
  show ?case
  proof (cases "is_ascii c")
    case True
    then show ?thesis using 2 by (simp add: read_str_char)
  next
    case False
    let ?n = "rune_len (c # cs)"
    have n: "?n \<noteq> 0" and v: "valid_utf8 (drop ?n (c # cs))" using 2 False by (auto split: if_splits)
    note IH = "2.IH"(2) [OF False n v]
    show ?thesis
      using False n read_str_rune [OF n, of "quote_body (drop ?n (c # cs)) @ byte 34 # t"]
      by (simp add: IH del: rune_len.simps)
  qed
qed (simp add: read_str.simps)

end
