(* ===== verification/JsonValue.thy ===== *)
theory JsonValue
  imports Json
begin

text \<open>
  JSON values: the scanner of \<open>encoding/json\<close> as a stack machine over tokens, the indented
  printer, and the round trip between them; then decoding into Go structs.
\<close>

section \<open>Values and tokens\<close>

datatype json =
    JNull
  | JBool bool
  | JNum string
  | JStr string
  | JArr "json list"
  | JObj "(string \<times> json) list"

datatype tok = TLBrace | TRBrace | TLBrack | TRBrack | TColon | TComma | TStr string | TNum string | TTrue | TFalse | TNull

definition is_space :: "char \<Rightarrow> bool" where
  "is_space c \<longleftrightarrow> c = byte 32 \<or> c = byte 9 \<or> c = byte 13 \<or> c = byte 10"

definition skip_space :: "string \<Rightarrow> string" where
  "skip_space s = dropWhile is_space s"

text \<open>A number literal: the integer part, then an optional fraction, then an optional exponent.\<close>

definition read_int :: "string \<Rightarrow> (string \<times> string) option" where
  "read_int s = (case s of
     [] \<Rightarrow> None
   | c # cs \<Rightarrow> (if c = CHR ''0'' then Some ([c], cs)
               else if is_digit c then Some (takeWhile is_digit s, dropWhile is_digit s)
               else None))"

definition read_frac :: "string \<Rightarrow> (string \<times> string) option" where
  "read_frac s = (case s of
     c # cs \<Rightarrow> (if c = CHR ''.'' then
         (if takeWhile is_digit cs = [] then None else Some (c # takeWhile is_digit cs, dropWhile is_digit cs))
       else Some ([], s))
   | [] \<Rightarrow> Some ([], s))"

definition read_exp :: "string \<Rightarrow> (string \<times> string) option" where
  "read_exp s = (case s of
     c # cs \<Rightarrow> (if c = CHR ''e'' \<or> c = CHR ''E'' then
         (let sg = (case cs of x # _ \<Rightarrow> (if x = CHR ''+'' \<or> x = CHR ''-'' then [x] else []) | [] \<Rightarrow> []);
              ds = drop (length sg) cs in
          if takeWhile is_digit ds = [] then None
          else Some (c # sg @ takeWhile is_digit ds, dropWhile is_digit ds))
       else Some ([], s))
   | [] \<Rightarrow> Some ([], s))"

definition read_num :: "string \<Rightarrow> (string \<times> string) option" where
  "read_num s =
     (let (sg, r0) = (case s of c # cs \<Rightarrow> (if c = CHR ''-'' then ([c], cs) else ([], s)) | [] \<Rightarrow> ([], s)) in
      case read_int r0 of None \<Rightarrow> None | Some (i, r1) \<Rightarrow>
      (case read_frac r1 of None \<Rightarrow> None | Some (fr, r2) \<Rightarrow>
      (case read_exp r2 of None \<Rightarrow> None | Some (ex, r3) \<Rightarrow> Some (sg @ i @ fr @ ex, r3))))"

definition next_tok :: "string \<Rightarrow> (tok \<times> string) option" where
  "next_tok s = (case skip_space s of
     [] \<Rightarrow> None
   | c # cs \<Rightarrow>
       (if c = CHR ''{'' then Some (TLBrace, cs)
        else if c = CHR ''}'' then Some (TRBrace, cs)
        else if c = CHR ''['' then Some (TLBrack, cs)
        else if c = CHR '']'' then Some (TRBrack, cs)
        else if c = CHR '':'' then Some (TColon, cs)
        else if c = CHR '','' then Some (TComma, cs)
        else if c = byte 34 then map_option (apfst TStr) (read_str cs)
        else if c = CHR ''t'' then map_option (Pair TTrue) (cut_prefix ''true'' (c # cs))
        else if c = CHR ''f'' then map_option (Pair TFalse) (cut_prefix ''false'' (c # cs))
        else if c = CHR ''n'' then map_option (Pair TNull) (cut_prefix ''null'' (c # cs))
        else map_option (apfst TNum) (read_num (c # cs))))"

section \<open>The scanner\<close>

text \<open>
  An open container: the elements read so far in reverse, for an object with the key the next
  value belongs to.  The modes are the scanner's states between tokens.
\<close>

datatype frame = FArr "json list" | FObj "(string \<times> json) list" string

datatype scan_mode = MValue | MValueOrEnd | MKey | MKeyOrEnd | MColon | MNext

datatype scan_step = Stop | Done json | Go "frame list" scan_mode

definition maxNestingDepth :: nat where
  "maxNestingDepth = 10000"

fun push :: "json \<Rightarrow> frame list \<Rightarrow> scan_step" where
  "push v [] = Done v"
| "push v (FArr vs # st) = Go (FArr (v # vs) # st) MNext"
| "push v (FObj kvs k # st) = Go (FObj ((k, v) # kvs) k # st) MNext"

fun close_frame :: "frame list \<Rightarrow> scan_step" where
  "close_frame (FArr vs # st) = push (JArr (rev vs)) st"
| "close_frame (FObj kvs _ # st) = push (JObj (rev kvs)) st"
| "close_frame [] = Stop"

definition open_frame :: "frame \<Rightarrow> scan_mode \<Rightarrow> frame list \<Rightarrow> scan_step" where
  "open_frame f md st = (if length st < maxNestingDepth then Go (f # st) md else Stop)"

fun begin_value :: "tok \<Rightarrow> frame list \<Rightarrow> scan_step" where
  "begin_value (TStr s) st = push (JStr s) st"
| "begin_value (TNum n) st = push (JNum n) st"
| "begin_value TTrue st = push (JBool True) st"
| "begin_value TFalse st = push (JBool False) st"
| "begin_value TNull st = push JNull st"
| "begin_value TLBrack st = open_frame (FArr []) MValueOrEnd st"
| "begin_value TLBrace st = open_frame (FObj [] []) MKeyOrEnd st"
| "begin_value _ st = Stop"

fun scan :: "scan_mode \<Rightarrow> tok \<Rightarrow> frame list \<Rightarrow> scan_step" where
  "scan MValue t st = begin_value t st"
| "scan MValueOrEnd t st = (if t = TRBrack then close_frame st else begin_value t st)"
| "scan MKeyOrEnd t st =
     (if t = TRBrace then close_frame st else
      case (t, st) of (TStr k, FObj kvs _ # st') \<Rightarrow> Go (FObj kvs k # st') MColon | _ \<Rightarrow> Stop)"
| "scan MKey t st = (case (t, st) of (TStr k, FObj kvs _ # st') \<Rightarrow> Go (FObj kvs k # st') MColon | _ \<Rightarrow> Stop)"
| "scan MColon t st = (if t = TColon then Go st MValue else Stop)"
| "scan MNext t st =
     (case st of
        FArr _ # _ \<Rightarrow> (if t = TComma then Go st MValue else if t = TRBrack then close_frame st else Stop)
      | FObj _ _ # _ \<Rightarrow> (if t = TComma then Go st MKey else if t = TRBrace then close_frame st else Stop)
      | [] \<Rightarrow> Stop)"

lemma dropWhile_length: "length (dropWhile P xs) \<le> length xs"
  by (induction xs) auto

lemma read_str_length: "read_str s = Some (t, r) \<Longrightarrow> length r < length s"
proof (induction s arbitrary: t r rule: length_induct)
  case (1 s)
  show ?case
  proof (cases s)
    case Nil
    then show ?thesis using "1.prems" by (simp add: read_str.simps)
  next
    case (Cons c cs)
    have IH: "length r < Suc (length cs)" if "read_str u = Some (t, r)" "length u \<le> length cs" for u t r
    proof -
      have "length u < length s" using that(2) Cons by simp
      then show ?thesis using "1.IH" that by (metis less_SucI less_le_trans)
    qed
    from "1.prems" [unfolded Cons] show ?thesis
      unfolding Cons
      by (subst (asm) read_str.simps)
        (auto split: if_splits option.splits list.splits elim!: IH simp del: rune_len.simps,
         use IH in fastforce)
  qed
qed

lemma read_int_length: "read_int s = Some (n, r) \<Longrightarrow> length r < length s"
  using dropWhile_length [of is_digit] by (auto simp: read_int_def less_Suc_eq_le split: list.splits if_splits)

lemma read_frac_length: "read_frac s = Some (n, r) \<Longrightarrow> length r \<le> length s"
  using dropWhile_length [of is_digit] by (auto simp: read_frac_def intro: le_SucI split: list.splits if_splits)

lemma read_exp_length: "read_exp s = Some (n, r) \<Longrightarrow> length r \<le> length s"
proof -
  have "length (dropWhile is_digit u) \<le> Suc (length u)" "length (dropWhile is_digit u) \<le> Suc (Suc (length u))" for u
    using dropWhile_length [of is_digit u] by simp_all
  then show "read_exp s = Some (n, r) \<Longrightarrow> length r \<le> length s"
    by (auto simp: read_exp_def Let_def split: list.splits if_splits)
qed

lemma read_num_length: "read_num s = Some (n, r) \<Longrightarrow> length r < length s"
  by (auto simp: read_num_def split: list.splits if_splits option.splits
      dest!: read_int_length read_frac_length read_exp_length)

lemma next_tok_length: "next_tok s = Some (t, r) \<Longrightarrow> length r < length s"
proof -
  assume a: "next_tok s = Some (t, r)"
  obtain c cs where c: "skip_space s = c # cs" using a by (auto simp: next_tok_def split: list.splits)
  have "length (c # cs) \<le> length s" using c dropWhile_length [of is_space s] by (simp add: skip_space_def)
  moreover have "length r < length (c # cs)"
    using a c by (auto simp: next_tok_def cut_prefix_def prefix_def less_SucI
        split: if_splits option.splits dest!: read_str_length read_num_length)
  ultimately show ?thesis by simp
qed

function run_scan :: "scan_mode \<Rightarrow> frame list \<Rightarrow> string \<Rightarrow> (json \<times> string) option" where
  "run_scan md st s = (case next_tok s of
     None \<Rightarrow> None
   | Some (t, r) \<Rightarrow> (case scan md t st of
       Stop \<Rightarrow> None
     | Done v \<Rightarrow> Some (v, r)
     | Go st' md' \<Rightarrow> run_scan md' st' r))"
  by pat_completeness auto
termination
  by (relation "measure (\<lambda>(md, st, s). length s)") (auto dest: next_tok_length)

declare run_scan.simps [simp del]

text \<open>\<open>Decoder.Decode\<close> up to the conversion into a Go value, and \<open>Decoder.More\<close>.\<close>

definition decode_value :: "string \<Rightarrow> (json \<times> string) option" where
  "decode_value s = run_scan MValue [] s"

definition More :: "string \<Rightarrow> bool" where
  "More r = (case skip_space r of [] \<Rightarrow> False | c # _ \<Rightarrow> c \<noteq> CHR '']'' \<and> c \<noteq> CHR ''}'')"

section \<open>The printer\<close>

definition nl :: "nat \<Rightarrow> string" where
  "nl n = byte 10 # replicate (2 * n) (byte 32)"

text \<open>\<open>MarshalIndent(v, "", "  ")\<close>; a member of an object is its key, a colon, a space and the value.\<close>

fun print_json :: "nat \<Rightarrow> json \<Rightarrow> string" where
  "print_json n JNull = ''null''"
| "print_json n (JBool b) = (if b then ''true'' else ''false'')"
| "print_json n (JNum l) = l"
| "print_json n (JStr s) = quote s"
| "print_json n (JArr []) = ''[]''"
| "print_json n (JArr (v # vs)) =
     CHR ''['' # nl (n + 1) @ print_json (n + 1) v @
     concat (map (\<lambda>w. CHR '','' # nl (n + 1) @ print_json (n + 1) w) vs) @ nl n @ '']''"
| "print_json n (JObj []) = ''{}''"
| "print_json n (JObj (kv # kvs)) =
     CHR ''{'' # nl (n + 1) @ quote (fst kv) @ '': '' @ print_json (n + 1) (snd kv) @
     concat (map (\<lambda>w. CHR '','' # nl (n + 1) @ quote (fst w) @ '': '' @ print_json (n + 1) (snd w)) kvs) @ nl n @ ''}''"

definition MarshalIndent :: "json \<Rightarrow> string" where
  "MarshalIndent v = print_json 0 v"

section \<open>Reading back what was printed\<close>

definition valid_num :: "string \<Rightarrow> bool" where
  "valid_num l \<longleftrightarrow> read_num l = Some (l, [])"

fun valid_json :: "json \<Rightarrow> bool" where
  "valid_json (JNum l) = valid_num l"
| "valid_json (JStr s) = valid_utf8 s"
| "valid_json (JArr vs) = (\<forall>v\<in>set vs. valid_json v)"
| "valid_json (JObj kvs) = (\<forall>kv\<in>set kvs. valid_utf8 (fst kv) \<and> valid_json (snd kv))"
| "valid_json _ = True"

fun nesting :: "json \<Rightarrow> nat" where
  "nesting (JArr vs) = 1 + Max (insert 0 (nesting ` set vs))"
| "nesting (JObj kvs) = 1 + Max (insert 0 ((\<lambda>kv. nesting (snd kv)) ` set kvs))"
| "nesting _ = 0"

definition cont :: "scan_step \<Rightarrow> string \<Rightarrow> (json \<times> string) option" where
  "cont d r = (case d of Stop \<Rightarrow> None | Done v \<Rightarrow> Some (v, r) | Go st md \<Rightarrow> run_scan md st r)"

lemma cont_simps [simp]:
  "cont Stop r = None" "cont (Done v) r = Some (v, r)"
  by (simp_all add: cont_def)

lemma cont_Go: "next_tok r = Some (t, r') \<Longrightarrow> cont (Go st md) r = cont (scan md t st) r'"
  by (simp add: cont_def run_scan.simps [of md st r])

lemma byte_lits:
  "byte 8 = CHR 0x08" "byte 9 = CHR 0x09" "byte 10 = CHR 0x0A" "byte 12 = CHR 0x0C" "byte 13 = CHR 0x0D"
  "byte 32 = CHR 0x20" "byte 34 = CHR 0x22" "byte 92 = CHR 0x5C"
  by code_simp+

lemma next_tok_space: "\<forall>c\<in>set w. is_space c \<Longrightarrow> next_tok (w @ s) = next_tok s"
  by (simp add: next_tok_def skip_space_def)

lemma next_tok_nl [simp]: "next_tok (nl n @ s) = next_tok s"
  by (rule next_tok_space) (simp add: nl_def is_space_def)

lemma next_tok_blank [simp]: "next_tok (CHR '' '' # s) = next_tok s"
  using next_tok_space [of "'' ''"] by (simp add: is_space_def byte_lits)

lemma punctuation_not_space:
  "\<not> is_space (CHR ''['')" "\<not> is_space (CHR '']'')" "\<not> is_space (CHR ''{'')" "\<not> is_space (CHR ''}'')"
  "\<not> is_space (CHR '','')" "\<not> is_space (CHR '':'')" "\<not> is_space (byte 34)"
  "\<not> is_space (CHR ''t'')" "\<not> is_space (CHR ''f'')" "\<not> is_space (CHR ''n'')"
  by (simp_all add: is_space_def byte_lits)

lemma next_tok_punct [simp]:
  "next_tok (CHR ''['' # s) = Some (TLBrack, s)" "next_tok (CHR '']'' # s) = Some (TRBrack, s)"
  "next_tok (CHR ''{'' # s) = Some (TLBrace, s)" "next_tok (CHR ''}'' # s) = Some (TRBrace, s)"
  "next_tok (CHR '','' # s) = Some (TComma, s)" "next_tok (CHR '':'' # s) = Some (TColon, s)"
  by (simp_all add: next_tok_def skip_space_def punctuation_not_space)

lemma next_tok_word [simp]:
  "next_tok (CHR ''t'' # CHR ''r'' # CHR ''u'' # CHR ''e'' # s) = Some (TTrue, s)"
  "next_tok (CHR ''f'' # CHR ''a'' # CHR ''l'' # CHR ''s'' # CHR ''e'' # s) = Some (TFalse, s)"
  "next_tok (CHR ''n'' # CHR ''u'' # CHR ''l'' # CHR ''l'' # s) = Some (TNull, s)"
  by (simp_all add: next_tok_def skip_space_def punctuation_not_space cut_prefix_def byte_lits)

lemma next_tok_str: "valid_utf8 s \<Longrightarrow> next_tok (quote s @ r) = Some (TStr s, r)"
  by (simp add: quote_def next_tok_def skip_space_def punctuation_not_space read_str_quote)
    (simp add: byte_lits)

text \<open>A number ends where a byte follows that no number contains.\<close>

definition num_end :: "string \<Rightarrow> bool" where
  "num_end r \<longleftrightarrow> (case r of [] \<Rightarrow> True | c # _ \<Rightarrow> \<not> is_digit c \<and> c \<noteq> CHR ''.'' \<and> c \<noteq> CHR ''e'' \<and> c \<noteq> CHR ''E'')"

lemma takeWhile_end: "num_end r \<Longrightarrow> takeWhile is_digit (s @ r) = takeWhile is_digit s"
  and dropWhile_end: "num_end r \<Longrightarrow> dropWhile is_digit (s @ r) = dropWhile is_digit s @ r"
  by (induction s) (auto simp: num_end_def split: list.splits)

lemma read_int_end: "read_int s = Some (i, t) \<Longrightarrow> num_end r \<Longrightarrow> read_int (s @ r) = Some (i, t @ r)"
  using takeWhile_end [of r s] dropWhile_end [of r s] by (auto simp: read_int_def split: list.splits if_splits)

lemma read_frac_end: "read_frac s = Some (i, t) \<Longrightarrow> num_end r \<Longrightarrow> read_frac (s @ r) = Some (i, t @ r)"
  by (cases s) (auto simp: read_frac_def takeWhile_end dropWhile_end num_end_def split: list.splits if_splits)

lemma read_exp_end: "read_exp s = Some (i, t) \<Longrightarrow> num_end r \<Longrightarrow> read_exp (s @ r) = Some (i, t @ r)"
proof (cases s)
  case Nil
  assume "read_exp s = Some (i, t)" "num_end r"
  then show ?thesis using Nil by (auto simp: read_exp_def num_end_def split: list.splits)
next
  case (Cons c cs)
  assume "read_exp s = Some (i, t)" "num_end r"
  then show ?thesis
    using Cons takeWhile_end [of r] dropWhile_end [of r]
    by (cases cs) (auto simp: read_exp_def Let_def split: if_splits)
qed

lemma read_num_end:
  assumes "read_num s = Some (l, t)" "num_end r"
  shows "read_num (s @ r) = Some (l, t @ r)"
proof -
  let ?sg = "\<lambda>s. case s of c # cs \<Rightarrow> (if c = CHR ''-'' then ([c], cs) else ([], s)) | [] \<Rightarrow> ([], s)"
  obtain sg u where sg: "?sg s = (sg, u)" by (cases "?sg s") auto
  from assms(1) obtain i r1 fr r2 ex where p: "read_int u = Some (i, r1)" "read_frac r1 = Some (fr, r2)"
    "read_exp r2 = Some (ex, t)" "l = sg @ i @ fr @ ex"
    by (auto simp: read_num_def sg split: option.splits)
  have "s \<noteq> []" using p(1) sg by (auto simp: read_int_def)
  then have "?sg (s @ r) = (sg, u @ r)" using sg by (cases s) (auto split: if_splits)
  then show ?thesis
    using read_int_end [OF p(1) assms(2)] read_frac_end [OF p(2) assms(2)] read_exp_end [OF p(3) assms(2)] p(4)
    by (simp add: read_num_def)
qed

lemma next_tok_num:
  assumes "valid_num l" "num_end r"
  shows "next_tok (l @ r) = Some (TNum l, r)"
proof -
  have n: "read_num (l @ r) = Some (l, r)" using read_num_end [of l l "[]" r] assms by (simp add: valid_num_def)
  obtain c cs where l: "l = c # cs" using assms(1) by (cases l) (auto simp: valid_num_def read_num_def read_int_def)
  have "c = CHR ''-'' \<or> is_digit c"
    using assms(1) by (auto simp: l valid_num_def read_num_def read_int_def is_digit_def split: if_splits option.splits)
  then have "\<not> is_space c" "c \<noteq> CHR ''{''" "c \<noteq> CHR ''}''" "c \<noteq> CHR ''[''" "c \<noteq> CHR '']''" "c \<noteq> CHR '':''"
    "c \<noteq> CHR '',''" "c \<noteq> byte 34" "c \<noteq> CHR ''t''" "c \<noteq> CHR ''f''" "c \<noteq> CHR ''n''"
    by (auto simp: is_space_def byte_lits is_digit_def)
  then show ?thesis using n by (simp add: next_tok_def skip_space_def l)
qed

lemma cont_nl [simp]: "cont (Go st md) (nl n @ s) = cont (Go st md) s"
  by (simp add: cont_def run_scan.simps [of md st])

lemma cont_blank [simp]: "cont (Go st md) (CHR '' '' # s) = cont (Go st md) s"
  by (simp add: cont_def run_scan.simps [of md st])

lemma num_end_simps [simp]:
  "num_end (nl n @ s)" "num_end (CHR '','' # s)" "num_end []" "num_end (CHR '']'' # s)" "num_end (CHR ''}'' # s)"
  by (simp_all add: num_end_def nl_def byte_lits is_digit_def)

definition value_mode :: "scan_mode \<Rightarrow> bool" where
  "value_mode md \<longleftrightarrow> md = MValue \<or> md = MValueOrEnd"

lemma scan_value: "value_mode md \<Longrightarrow> t \<noteq> TRBrack \<Longrightarrow> scan md t st = begin_value t st"
  by (auto simp: value_mode_def)

text \<open>A printed value is scanned as that value, in whatever container it stands.\<close>

definition scans_as :: "nat \<Rightarrow> json \<Rightarrow> bool" where
  "scans_as n v \<longleftrightarrow> (\<forall>st r md. length st + nesting v \<le> maxNestingDepth \<longrightarrow> num_end r \<longrightarrow> value_mode md \<longrightarrow>
     cont (Go st md) (print_json n v @ r) = cont (push v st) r)"

lemma scan_array_tail:
  assumes "\<forall>v\<in>set vs. scans_as (n + 1) v \<and> Suc (length st) + nesting v \<le> maxNestingDepth"
  shows "cont (Go (FArr acc # st) MNext)
      (concat (map (\<lambda>w. CHR '','' # nl (n + 1) @ print_json (n + 1) w) vs) @ nl n @ CHR '']'' # r) =
    cont (push (JArr (rev acc @ vs)) st) r"
  using assms
proof (induction vs arbitrary: acc)
  case Nil
  then show ?case by (simp add: cont_Go)
next
  case (Cons v vs)
  let ?t = "concat (map (\<lambda>w. CHR '','' # nl (n + 1) @ print_json (n + 1) w) vs) @ nl n @ CHR '']'' # r"
  have "num_end ?t" by (cases vs) simp_all
  then have "cont (Go (FArr acc # st) MValue) (print_json (n + 1) v @ ?t) = cont (push v (FArr acc # st)) ?t"
    using Cons.prems unfolding scans_as_def by (simp add: value_mode_def)
  then show ?case using Cons by (simp add: cont_Go)
qed

lemma scan_object_tail:
  assumes "\<forall>w\<in>set kvs. scans_as (n + 1) (snd w) \<and> valid_utf8 (fst w) \<and> Suc (length st) + nesting (snd w) \<le> maxNestingDepth"
  shows "cont (Go (FObj acc k # st) MNext)
      (concat (map (\<lambda>w. CHR '','' # nl (n + 1) @ quote (fst w) @ '': '' @ print_json (n + 1) (snd w)) kvs) @ nl n @ CHR ''}'' # r) =
    cont (push (JObj (rev acc @ kvs)) st) r"
  using assms
proof (induction kvs arbitrary: acc k)
  case Nil
  then show ?case by (simp add: cont_Go)
next
  case (Cons w kvs)
  let ?t = "concat (map (\<lambda>w. CHR '','' # nl (n + 1) @ quote (fst w) @ '': '' @ print_json (n + 1) (snd w)) kvs) @ nl n @ CHR ''}'' # r"
  have "num_end ?t" by (cases kvs) simp_all
  then have v: "cont (Go (FObj acc (fst w) # st) MValue) (print_json (n + 1) (snd w) @ ?t) =
      cont (push (snd w) (FObj acc (fst w) # st)) ?t"
    using Cons.prems unfolding scans_as_def by (simp add: value_mode_def)
  have q: "next_tok (quote (fst w) @ x) = Some (TStr (fst w), x)" for x using Cons.prems by (simp add: next_tok_str)
  show ?case using Cons v by (simp add: cont_Go q)
qed

lemma nesting_member: "v \<in> set vs \<Longrightarrow> nesting v < nesting (JArr vs)"
  "w \<in> set kvs \<Longrightarrow> nesting (snd w) < nesting (JObj kvs)"
  by (auto simp: less_Suc_eq_le intro!: Max_ge)

lemma scans_array:
  assumes "\<And>v. v \<in> set vs \<Longrightarrow> scans_as (n + 1) v"
  shows "scans_as n (JArr vs)"
proof (cases vs)
  case (Cons v ws)
  show ?thesis
    unfolding scans_as_def
  proof (intro allI impI)
    fix st :: "frame list" and r md
    assume a: "length st + nesting (JArr vs) \<le> maxNestingDepth" "num_end r" "value_mode md"
    have d: "Suc (length st) + nesting u \<le> maxNestingDepth" if "u \<in> set vs" for u
      using nesting_member(1) [OF that] a(1) by linarith
    let ?t = "concat (map (\<lambda>w. CHR '','' # nl (n + 1) @ print_json (n + 1) w) ws) @ nl n @ CHR '']'' # r"
    have "num_end ?t" by (cases ws) simp_all
    then have "cont (Go (FArr [] # st) MValueOrEnd) (print_json (n + 1) v @ ?t) = cont (push v (FArr [] # st)) ?t"
      using assms [of v] d [of v] Cons unfolding scans_as_def by (simp add: value_mode_def)
    also have "\<dots> = cont (push (JArr (v # ws)) st) r"
      using scan_array_tail [of ws n st "[v]" r] assms d Cons by simp
    finally show "cont (Go st md) (print_json n (JArr vs) @ r) = cont (push (JArr vs) st) r"
      using a d [of v] Cons by (simp add: cont_Go scan_value open_frame_def)
  qed
qed (auto simp: scans_as_def cont_Go scan_value open_frame_def)

lemma scans_object:
  assumes "\<And>w. w \<in> set kvs \<Longrightarrow> scans_as (n + 1) (snd w) \<and> valid_utf8 (fst w)"
  shows "scans_as n (JObj kvs)"
proof (cases kvs)
  case (Cons w ws)
  show ?thesis
    unfolding scans_as_def
  proof (intro allI impI)
    fix st :: "frame list" and r md
    assume a: "length st + nesting (JObj kvs) \<le> maxNestingDepth" "num_end r" "value_mode md"
    have d: "Suc (length st) + nesting (snd u) \<le> maxNestingDepth" if "u \<in> set kvs" for u
      using nesting_member(2) [OF that] a(1) by linarith
    let ?t = "concat (map (\<lambda>w. CHR '','' # nl (n + 1) @ quote (fst w) @ '': '' @ print_json (n + 1) (snd w)) ws) @ nl n @ CHR ''}'' # r"
    have "num_end ?t" by (cases ws) simp_all
    then have "cont (Go (FObj [] (fst w) # st) MValue) (print_json (n + 1) (snd w) @ ?t) = cont (push (snd w) (FObj [] (fst w) # st)) ?t"
      using assms [of w] d [of w] Cons unfolding scans_as_def by (simp add: value_mode_def)
    also have "\<dots> = cont (push (JObj (w # ws)) st) r"
      using scan_object_tail [of ws n st "[w]" "fst w" r] assms d Cons by simp
    finally have v: "cont (Go (FObj [] (fst w) # st) MValue) (print_json (n + 1) (snd w) @ ?t) = cont (push (JObj (w # ws)) st) r" .
    have q: "next_tok (quote (fst w) @ x) = Some (TStr (fst w), x)" for x using assms [of w] Cons by (simp add: next_tok_str)
    show "cont (Go st md) (print_json n (JObj kvs) @ r) = cont (push (JObj kvs) st) r"
      using a d [of w] Cons v by (simp add: cont_Go scan_value open_frame_def q)
  qed
qed (auto simp: scans_as_def cont_Go scan_value open_frame_def)

lemma print_scans: "valid_json v \<Longrightarrow> scans_as n v"
proof (induction v arbitrary: n)
  case (JArr vs)
  then show ?case by (intro scans_array) simp
next
  case (JObj kvs)
  have "scans_as (n + 1) (snd w) \<and> valid_utf8 (fst w)" if "w \<in> set kvs" for w
    using JObj.IH [of w "snd w" "n + 1"] JObj.prems that by (cases w) auto
  then show ?case by (rule scans_object)
qed (auto simp: scans_as_def cont_Go scan_value next_tok_num next_tok_str)

lemma decode_print:
  assumes "valid_json v" "nesting v \<le> maxNestingDepth" "num_end r"
  shows "decode_value (MarshalIndent v @ r) = Some (v, r)"
  using print_scans [OF assms(1), of 0] assms(2,3)
  by (simp add: scans_as_def value_mode_def decode_value_def MarshalIndent_def cont_def [of "Go [] MValue", simplified, symmetric])

section \<open>Decoding into structs\<close>

text \<open>
  Field names match exactly or, failing that, without regard to case, where the Kelvin sign and
  the long s fold to ASCII letters.
\<close>

fun fold_name :: "string \<Rightarrow> string" where
  "fold_name [] = []"
| "fold_name (c # cs) =
     (if prefix [byte 0xE2, byte 0x84, byte 0xAA] (c # cs) then CHR ''K'' # fold_name (drop 2 cs)
      else if prefix [byte 0xC5, byte 0xBF] (c # cs) then CHR ''S'' # fold_name (drop 1 cs)
      else to_upper c # fold_name cs)"

definition match_field :: "string list \<Rightarrow> string \<Rightarrow> string option" where
  "match_field names k =
     (if k \<in> set names then Some k else find (\<lambda>n. fold_name n = fold_name k) names)"

text \<open>
  \<open>decode_fields names put\<close> decodes the members one after the other into the struct; \<open>put name v\<close>
  stores one of them.  A key that matches no field is an error.
\<close>

fun decode_fields :: "string list \<Rightarrow> (string \<Rightarrow> json \<Rightarrow> 'r \<Rightarrow> 'r result) \<Rightarrow> (string \<times> json) list \<Rightarrow> 'r \<Rightarrow> 'r result" where
  "decode_fields names put [] r = Inr r"
| "decode_fields names put ((k, v) # kvs) r =
     (case match_field names k of
        None \<Rightarrow> Inl [ErrJSON]
      | Some n \<Rightarrow> (case put n v r of Inl e \<Rightarrow> Inl e | Inr r' \<Rightarrow> decode_fields names put kvs r'))"

definition decode_struct :: "string list \<Rightarrow> (string \<Rightarrow> json \<Rightarrow> 'r \<Rightarrow> 'r result) \<Rightarrow> json \<Rightarrow> 'r \<Rightarrow> 'r result" where
  "decode_struct names put v r = (case v of
     JObj kvs \<Rightarrow> decode_fields names put kvs r | JNull \<Rightarrow> Inr r | _ \<Rightarrow> Inl [ErrJSON])"

definition dec_string :: "json \<Rightarrow> string \<Rightarrow> string result" where
  "dec_string v old = (case v of JStr s \<Rightarrow> Inr s | JNull \<Rightarrow> Inr old | _ \<Rightarrow> Inl [ErrJSON])"

definition dec_bool :: "json \<Rightarrow> bool \<Rightarrow> bool result" where
  "dec_bool v old = (case v of JBool b \<Rightarrow> Inr b | JNull \<Rightarrow> Inr old | _ \<Rightarrow> Inl [ErrJSON])"

text \<open>\<open>strconv.ParseInt(s, 10, 64)\<close> of a number literal.\<close>

definition parse_int64 :: "string \<Rightarrow> int option" where
  "parse_int64 l =
     (let (neg, ds) = (case l of c # cs \<Rightarrow> (if c = CHR ''-'' then (True, cs) else (False, l)) | [] \<Rightarrow> (False, l));
          n = int (num_of ds); i = (if neg then - n else n) in
      if ds \<noteq> [] \<and> list_all is_digit ds \<and> - (2 ^ 63) \<le> i \<and> i < 2 ^ 63 then Some i else None)"

definition dec_int :: "json \<Rightarrow> int \<Rightarrow> int result" where
  "dec_int v old = (case v of
     JNum l \<Rightarrow> (case parse_int64 l of Some i \<Rightarrow> Inr i | None \<Rightarrow> Inl [ErrJSON])
   | JNull \<Rightarrow> Inr old | _ \<Rightarrow> Inl [ErrJSON])"

text \<open>
  A slice field keeps its backing array: decoding again into the field decodes into the elements
  that are already there, also those beyond the present length.  The pair is the backing array
  and the length.
\<close>

type_synonym 'a slice = "'a list \<times> nat"

definition elems :: "'a slice \<Rightarrow> 'a list" where
  "elems sl = take (snd sl) (fst sl)"

fun dec_elems :: "(json \<Rightarrow> 'a \<Rightarrow> 'a result) \<Rightarrow> 'a \<Rightarrow> json list \<Rightarrow> 'a list \<Rightarrow> 'a list result" where
  "dec_elems dec zero [] back = Inr []"
| "dec_elems dec zero (v # vs) back =
     (case dec v (case back of [] \<Rightarrow> zero | b # _ \<Rightarrow> b) of
        Inl e \<Rightarrow> Inl e
      | Inr x \<Rightarrow> (case dec_elems dec zero vs (tl back) of Inl e \<Rightarrow> Inl e | Inr xs \<Rightarrow> Inr (x # xs)))"

definition dec_slice :: "(json \<Rightarrow> 'a \<Rightarrow> 'a result) \<Rightarrow> 'a \<Rightarrow> json \<Rightarrow> 'a slice \<Rightarrow> 'a slice result" where
  "dec_slice dec zero v old = (case v of
     JNull \<Rightarrow> Inr ([], 0)
   | JArr [] \<Rightarrow> Inr ([], 0)
   | JArr vs \<Rightarrow> (case dec_elems dec zero vs (fst old) of
       Inl e \<Rightarrow> Inl e | Inr xs \<Rightarrow> Inr (xs @ drop (length xs) (fst old), length xs))
   | _ \<Rightarrow> Inl [ErrJSON])"

text \<open>
  \<open>decode_doc\<close> is the sequence every reader of a stored document starts with: \<open>Decode\<close>, then refuse
  trailing data as far as \<open>More\<close> sees it.
\<close>

definition decode_doc :: "string list \<Rightarrow> (string \<Rightarrow> json \<Rightarrow> 'r \<Rightarrow> 'r result) \<Rightarrow> 'r \<Rightarrow> string \<Rightarrow> 'r result" where
  "decode_doc names put zero s = (case decode_value s of
     None \<Rightarrow> Inl [ErrJSON]
   | Some (v, rest) \<Rightarrow> (case decode_struct names put v zero of
       Inl e \<Rightarrow> Inl e
     | Inr r \<Rightarrow> (if More rest then Inl [] else Inr r)))"

definition num :: "int \<Rightarrow> json" where
  "num i = JNum (show_int i)"

subsection \<open>Decoding what was encoded\<close>

lemma match_field_exact [simp]: "k \<in> set names \<Longrightarrow> match_field names k = Some k"
  by (simp add: match_field_def)

lemma digits_not_minus: "CHR ''-'' \<notin> set (show_nat n)"
proof
  assume "CHR ''-'' \<in> set (show_nat n)"
  then have "is_digit (CHR ''-'')" using show_nat_digits by blast
  then show False by (simp add: is_digit_def)
qed

lemma show_nat_head: "0 < n \<Longrightarrow> hd (show_nat n) \<noteq> CHR ''0''"
proof (induction n rule: show_nat.induct)
  case (1 n)
  show ?case
  proof (cases "n < 10")
    case True
    then have "digit_val (hd (show_nat n)) = n" by (simp add: show_nat.simps [of n] digit_val_char)
    then show ?thesis using 1 by (auto simp: digit_val_def)
  next
    case False
    then show ?thesis using 1 by (simp add: show_nat.simps [of n])
  qed
qed

lemma parse_show_int:
  assumes "- (2 ^ 63) \<le> i" "i < 2 ^ 63"
  shows "parse_int64 (show_int i) = Some i"
proof -
  obtain c cs where c: "show_nat (nat i) = c # cs" by (cases "show_nat (nat i)") auto
  moreover have "c \<noteq> CHR ''-''" using digits_not_minus [of "nat i"] c by auto
  ultimately show ?thesis
    using assms show_nat_digits [of "nat i"] num_of_show_nat [of "nat i"]
    by (auto simp: parse_int64_def show_int_def num_of_show_nat list_all_iff show_nat_digits)
qed

lemma read_num_show_nat: "read_int (show_nat n) = Some (show_nat n, [])"
proof -
  obtain c cs where c: "show_nat n = c # cs" by (cases "show_nat n") auto
  have d: "\<forall>x\<in>set (c # cs). is_digit x" using show_nat_digits [of n] c by simp
  show ?thesis
  proof (cases "n = 0")
    case True
    then show ?thesis by (simp add: show_nat.simps digit_char_def read_int_def)
  next
    case False
    then have "c \<noteq> CHR ''0''" using show_nat_head [of n] c by simp
    then show ?thesis using d c by (simp add: read_int_def takeWhile_eq_all_conv)
  qed
qed

lemma valid_num_show: "valid_num (show_int i)"
proof -
  obtain c cs where c: "show_nat (nat i) = c # cs" by (cases "show_nat (nat i)") auto
  moreover have "c \<noteq> CHR ''-''" using digits_not_minus [of "nat i"] c by auto
  moreover have "read_int (c # cs) = Some (c # cs, [])" using read_num_show_nat [of "nat i"] c by simp
  ultimately show ?thesis
    using read_num_show_nat [of "nat (- i)"]
    by (simp add: valid_num_def read_num_def show_int_def read_frac_def read_exp_def)
qed

lemma decode_doc_print:
  assumes "valid_json v" "nesting v \<le> maxNestingDepth" "num_end rest" "\<not> More rest"
  shows "decode_doc names put zero (MarshalIndent v @ rest) = decode_struct names put v zero"
  using decode_print [OF assms(1-3)] assms(4) by (simp add: decode_doc_def split: sum.splits)

end
