(* ===== verification/Layout.thy ===== *)
theory Layout
  imports FsxWrite JsonValue Semver Safepath
begin

text \<open>
  \<open>internal/layout\<close>: what an installation looks like on disk.  The fixed names and paths, the
  install state \<open>state.json\<close>, the pointer \<open>current\<close> in its two forms (a symbolic link on POSIX, a
  one-line file on Windows), and the launcher that rides along with an update.
\<close>

section \<open>Names and paths\<close>

definition CurrentName :: string where "CurrentName = ''current''"
definition VersionsName :: string where "VersionsName = ''versions''"
definition MetaName :: string where "MetaName = ''.updater''"
definition JournalName :: string where "JournalName = ''journal.json''"
definition StateName :: string where "StateName = ''state.json''"
definition ClockName :: string where "ClockName = ''clock.json''"
definition StagingName :: string where "StagingName = ''staging''"
definition IntegrationsName :: string where "IntegrationsName = ''integrations.json''"
definition ProbationName :: string where "ProbationName = ''probation.json''"

lemmas layout_names = CurrentName_def VersionsName_def MetaName_def JournalName_def StateName_def
  ClockName_def StagingName_def IntegrationsName_def ProbationName_def

definition DirMode :: "32 word" where "DirMode = 0x1ED"
definition MetaFileMode :: "32 word" where "MetaFileMode = 0x1A4"

definition Current :: "string \<Rightarrow> string" where "Current root = Join [root, CurrentName]"
definition Versions :: "string \<Rightarrow> string" where "Versions root = Join [root, VersionsName]"
definition Meta :: "string \<Rightarrow> string" where "Meta root = Join [root, MetaName]"
definition Journal_path :: "string \<Rightarrow> string" where "Journal_path root = Join [root, MetaName, JournalName]"
definition State_path :: "string \<Rightarrow> string" where "State_path root = Join [root, MetaName, StateName]"
definition Clock :: "string \<Rightarrow> string" where "Clock root = Join [root, MetaName, ClockName]"
definition Integrations :: "string \<Rightarrow> string" where "Integrations root = Join [root, MetaName, IntegrationsName]"
definition ProbationFile :: "string \<Rightarrow> string" where "ProbationFile root = Join [root, MetaName, ProbationName]"
definition Staging :: "string \<Rightarrow> string" where "Staging root = Join [root, MetaName, StagingName]"

definition ValidateVersion :: "string \<Rightarrow> unit result" where
  "ValidateVersion version =
     (if version = [] then Inl [ErrLayout]
      else if \<not> ValidVersion version then Inl [ErrLayout]
      else Inr ())"

definition VersionDir :: "string \<Rightarrow> string \<Rightarrow> string result" where
  "VersionDir root version =
     (case ValidateVersion version of Inl e \<Rightarrow> Inl e | Inr _ \<Rightarrow> Inr (Join [root, VersionsName, version]))"

definition InstalledVersions :: "string \<Rightarrow> (mem, string list) prog" where
  "InstalledVersions root =
     attempt (ReadDir (Versions root))
       (\<lambda>e. if IsNotExist e then ret [] else throw (ErrLayout # e))
       (\<lambda>entries. ret (map iname (filter (\<lambda>e. isDir (inode e) \<and> ValidVersion (iname e)) entries)))"

section \<open>The install state\<close>

definition StateSchema :: int where "StateSchema = 1"
definition MaxStateLen :: int where "MaxStateLen = 65536"

record Install =
  in_schema :: int
  in_name :: string
  in_version :: string
  in_layout :: int

definition install_zero :: Install where
  "install_zero = \<lparr> in_schema = 0, in_name = [], in_version = [], in_layout = 0 \<rparr>"

definition install_fields :: "string list" where
  "install_fields = [''schema_version'', ''name'', ''version'', ''layout_schema'']"

definition install_json :: "Install \<Rightarrow> json" where
  "install_json i = JObj [(''schema_version'', num (in_schema i)), (''name'', JStr (in_name i)),
     (''version'', JStr (in_version i)), (''layout_schema'', num (in_layout i))]"

definition put_install :: "string \<Rightarrow> json \<Rightarrow> Install \<Rightarrow> Install result" where
  "put_install n v r =
     (if n = ''schema_version'' then map_sum id (\<lambda>x. r\<lparr>in_schema := x\<rparr>) (dec_int v (in_schema r))
      else if n = ''name'' then map_sum id (\<lambda>x. r\<lparr>in_name := x\<rparr>) (dec_string v (in_name r))
      else if n = ''version'' then map_sum id (\<lambda>x. r\<lparr>in_version := x\<rparr>) (dec_string v (in_version r))
      else map_sum id (\<lambda>x. r\<lparr>in_layout := x\<rparr>) (dec_int v (in_layout r)))"

definition check_install :: "Install \<Rightarrow> Install option result" where
  "check_install i =
     (if in_schema i \<noteq> StateSchema then Inl [ErrLayout]
      else if in_name i = [] then Inl [ErrLayout]
      else if \<not> ValidVersion (in_version i) then Inl [ErrLayout]
      else if in_layout i \<le> 0 then Inl [ErrLayout]
      else Inr (Some i))"

definition ReadInstall :: "string \<Rightarrow> (mem, Install option) prog" where
  "ReadInstall root =
     attempt (ReadFile (State_path root) MaxStateLen)
       (\<lambda>e. if IsNotExist e then ret None else throw (ErrLayout # e))
       (\<lambda>raw. case decode_doc install_fields put_install install_zero raw of
          Inl e \<Rightarrow> throw (ErrLayout # e)
        | Inr i \<Rightarrow> lift (check_install i))"

definition WriteInstall :: "string \<Rightarrow> Install \<Rightarrow> (mem, unit) prog" where
  "WriteInstall root i0 =
     (let i = i0\<lparr>in_schema := StateSchema\<rparr> in
      if in_name i = [] then throw [ErrLayout]
      else bind (lift (ValidateVersion (in_version i))) (\<lambda>_.
        if in_layout i \<le> 0 then throw [ErrLayout]
        else bind (wrap ErrLayout (MkdirAll (Meta root) DirMode)) (\<lambda>_.
          wrap ErrLayout (WriteFileAtomic (State_path root) (MarshalIndent (install_json i) @ [byte 10]) MetaFileMode))))"

section \<open>The pointer\<close>

definition MaxPointerLen :: int where "MaxPointerLen = 4096"

definition relVersionTarget :: "string \<Rightarrow> string" where
  "relVersionTarget version = VersionsName @ ''/'' @ version"

definition versionFromTarget :: "string \<Rightarrow> string result" where
  "versionFromTarget target =
     (let clean = Clean_path target; pre = VersionsName @ ''/'' in
      if length clean \<le> length pre \<or> take (length pre) clean \<noteq> pre then Inl [ErrLayout]
      else let version = drop (length pre) clean in
        (case ValidateVersion version of Inl e \<Rightarrow> Inl e | Inr _ \<Rightarrow> Inr version))"

text \<open>
  \<open>strings.TrimSpace\<close>: the white space of Unicode, as the byte sequences of its runes.
\<close>

definition space_runes :: "string list" where
  "space_runes = map (\<lambda>n. [byte n]) [9, 10, 11, 12, 13, 32] @
     [[byte 0xC2, byte 0x85], [byte 0xC2, byte 0xA0], [byte 0xE1, byte 0x9A, byte 0x80],
      [byte 0xE2, byte 0x80, byte 0xA8], [byte 0xE2, byte 0x80, byte 0xA9], [byte 0xE2, byte 0x80, byte 0xAF],
      [byte 0xE2, byte 0x81, byte 0x9F], [byte 0xE3, byte 0x80, byte 0x80]] @
     map (\<lambda>n. [byte 0xE2, byte 0x80, byte n]) [0x80, 0x81, 0x82, 0x83, 0x84, 0x85, 0x86, 0x87, 0x88, 0x89, 0x8A]"

fun trim_left :: "string list \<Rightarrow> nat \<Rightarrow> string \<Rightarrow> string" where
  "trim_left ws 0 s = s"
| "trim_left ws (Suc n) s =
     (case find (\<lambda>w. prefix w s) ws of None \<Rightarrow> s | Some w \<Rightarrow> trim_left ws n (drop (length w) s))"

definition TrimSpace :: "string \<Rightarrow> string" where
  "TrimSpace s =
     (let l = trim_left space_runes (length s) s in
      rev (trim_left (map rev space_runes) (length l) (rev l)))"

text \<open>The two forms of the pointer; a build has one of them.\<close>

datatype pointerForm = symlinkPointer | filePointer

definition read_symlink :: "string \<Rightarrow> (mem, string) prog" where
  "read_symlink root =
     attempt (Lstat (Current root))
       (\<lambda>e. if IsNotExist e then ret [] else throw (ErrLayout # e))
       (\<lambda>info. if \<not> isSymlink (inode info) then throw [ErrLayout]
               else wrap ErrLayout (Readlink (Current root)))"

definition write_symlink :: "string \<Rightarrow> string \<Rightarrow> (mem, unit) prog" where
  "write_symlink root target =
     bind (TempName (Current root)) (\<lambda>tmp.
     bind (wrap ErrLayout (Symlink target tmp)) (\<lambda>_.
     attempt (Rename tmp (Current root))
       (\<lambda>e. bind (ignore (Remove tmp)) (\<lambda>_. throw (ErrLayout # e)))
       (\<lambda>_. wrap ErrLayout (SyncDir root))))"

definition read_file_pointer :: "string \<Rightarrow> (mem, string) prog" where
  "read_file_pointer root =
     attempt (Lstat (Current root))
       (\<lambda>e. if IsNotExist e then ret [] else throw (ErrLayout # e))
       (\<lambda>info. if \<not> IsRegular (inode info) then throw [ErrLayout]
        else bind (wrap ErrLayout (ReadFile (Current root) MaxPointerLen)) (\<lambda>raw.
          let target = TrimSpace raw in
          if target = [] then throw [ErrLayout]
          else if byte 13 \<in> set target \<or> byte 10 \<in> set target then throw [ErrLayout]
          else ret target))"

definition write_file_pointer :: "string \<Rightarrow> string \<Rightarrow> (mem, unit) prog" where
  "write_file_pointer root target =
     wrap ErrLayout (WriteFileAtomic (Current root) (target @ [byte 10]) 0x1A4)"

fun pointer_read :: "pointerForm \<Rightarrow> string \<Rightarrow> (mem, string) prog" where
  "pointer_read symlinkPointer = read_symlink"
| "pointer_read filePointer = read_file_pointer"

fun pointer_write :: "pointerForm \<Rightarrow> string \<Rightarrow> string \<Rightarrow> (mem, unit) prog" where
  "pointer_write symlinkPointer = write_symlink"
| "pointer_write filePointer = write_file_pointer"

definition PointerTarget :: "pointerForm \<Rightarrow> string \<Rightarrow> (mem, string) prog" where
  "PointerTarget pf root =
     bind (pointer_read pf root) (\<lambda>target. if target = [] then ret [] else lift (versionFromTarget target))"

definition SetPointer :: "pointerForm \<Rightarrow> string \<Rightarrow> string \<Rightarrow> (mem, unit) prog" where
  "SetPointer pf root version =
     bind (lift (ValidateVersion version)) (\<lambda>_. pointer_write pf root (relVersionTarget version))"

definition RemovePointer :: "string \<Rightarrow> (mem, unit) prog" where
  "RemovePointer root =
     attempt (Remove (Current root)) (\<lambda>e. if IsNotExist e then ret () else throw (ErrLayout # e)) ret"

section \<open>The launcher of an update\<close>

definition LauncherNextName :: string where "LauncherNextName = ''launcher.next''"
definition launcherPendingSuffix :: string where "launcherPendingSuffix = ''.launcher''"

fun contains :: "string \<Rightarrow> string \<Rightarrow> bool" where
  "contains p [] = (p = [])"
| "contains p (c # cs) = (prefix p (c # cs) \<or> contains p cs)"

definition ValidateLauncherName :: "string \<Rightarrow> unit result" where
  "ValidateLauncherName nm =
     (case Clean nm of
        Inl e \<Rightarrow> Inl (ErrLayout # e)
      | Inr clean \<Rightarrow>
          if clean \<noteq> nm \<or> contains ''/'' nm then Inl [ErrLayout]
          else if list_ex (\<lambda>r. fold_name nm = fold_name r) [CurrentName, VersionsName, MetaName] then Inl [ErrLayout]
          else if contains ''.idunn-'' nm then Inl [ErrLayout]
          else Inr ())"

definition LauncherNextDir :: "string \<Rightarrow> string" where
  "LauncherNextDir root = Join [root, MetaName, LauncherNextName]"

definition LauncherNext :: "string \<Rightarrow> string \<Rightarrow> string result" where
  "LauncherNext root nm =
     (case ValidateLauncherName nm of Inl e \<Rightarrow> Inl e | Inr _ \<Rightarrow> Inr (Join [LauncherNextDir root, nm]))"

definition LauncherPendingDir :: "string \<Rightarrow> string \<Rightarrow> string result" where
  "LauncherPendingDir root version =
     (case ValidateVersion version of
        Inl e \<Rightarrow> Inl e | Inr _ \<Rightarrow> Inr (Join [Staging root, version @ launcherPendingSuffix]))"

definition WriteLauncherPendingStream ::
  "string \<Rightarrow> string \<Rightarrow> string \<Rightarrow> (memWriter \<Rightarrow> (mem, unit) prog) \<Rightarrow> (mem, unit) prog" where
  "WriteLauncherPendingStream root version nm produce =
     bind (lift (ValidateLauncherName nm)) (\<lambda>_.
     bind (lift (LauncherPendingDir root version)) (\<lambda>dir.
     bind (wrap ErrLayout (RemoveAll dir)) (\<lambda>_.
     bind (wrap ErrLayout (MkdirAll dir DirMode)) (\<lambda>_.
     wrap ErrLayout (WriteStreamAtomic (Join [dir, nm]) MetaFileMode produce)))))"

definition WriteLauncherPending :: "string \<Rightarrow> string \<Rightarrow> string \<Rightarrow> string \<Rightarrow> (mem, unit) prog" where
  "WriteLauncherPending root version nm bs = WriteLauncherPendingStream root version nm (\<lambda>w. Write w bs)"

definition RemoveLauncherPending :: "string \<Rightarrow> string \<Rightarrow> (mem, unit) prog" where
  "RemoveLauncherPending root version =
     bind (lift (LauncherPendingDir root version)) (\<lambda>dir. wrap ErrLayout (RemoveAll dir))"

definition removeIfEmpty :: "string \<Rightarrow> (mem, unit) prog" where
  "removeIfEmpty dir =
     attempt (Remove dir) (\<lambda>e. if IsNotExist e then ret () else throw (ErrLayout # e)) ret"

text \<open>\<open>PromoteLauncher\<close> from the point where the one pending file is known.\<close>

definition promote_file :: "string \<Rightarrow> string \<Rightarrow> string \<Rightarrow> (mem, unit) prog" where
  "promote_file root dir nm =
     (let src = Join [dir, nm]; nxt = LauncherNextDir root in
      bind (wrap ErrLayout (Lstat src)) (\<lambda>info.
      if \<not> IsRegular (inode info) then throw [ErrLayout]
      else bind (attempt (Lstat nxt)
               (\<lambda>e. if IsNotExist e then ret () else throw (ErrLayout # e))
               (\<lambda>ni. if \<not> isDir (inode ni) \<or> isSymlink (inode ni) then throw [ErrLayout] else ret ())) (\<lambda>_.
           bind (wrap ErrLayout (MkdirAll nxt DirMode)) (\<lambda>_.
           bind (attempt (ReadDir nxt) (\<lambda>_. ret ()) (\<lambda>old.
                  for_each (filter (\<lambda>e. iname e \<noteq> nm) old) (\<lambda>e. wrap ErrLayout (RemoveAll (Join [nxt, iname e]))))) (\<lambda>_.
           bind (wrap ErrLayout (Rename src (Join [nxt, nm]))) (\<lambda>_.
           bind (wrap ErrLayout (SyncDir nxt)) (\<lambda>_. removeIfEmpty dir)))))))"

definition PromoteLauncher :: "string \<Rightarrow> string \<Rightarrow> (mem, unit) prog" where
  "PromoteLauncher root version =
     bind (lift (LauncherPendingDir root version)) (\<lambda>dir.
     attempt (Lstat dir)
       (\<lambda>e. if IsNotExist e then ret () else throw (ErrLayout # e))
       (\<lambda>info.
          if \<not> isDir (inode info) \<or> isSymlink (inode info) then throw [ErrLayout]
          else bind (wrap ErrLayout (ReadDir dir)) (\<lambda>entries.
            case entries of
              [] \<Rightarrow> removeIfEmpty dir
            | [e] \<Rightarrow> bind (lift (ValidateLauncherName (iname e))) (\<lambda>_. promote_file root dir (iname e))
            | _ \<Rightarrow> throw [ErrLayout])))"

end
