(* ===== verification/LayoutLaws.thy ===== *)
theory LayoutLaws
  imports Layout
begin

text \<open>
  The laws of the install layout: version strings as path elements, the paths of an absolute
  root, the round trip of the install state, and the contract of the pointer with both of its
  forms as instances.
\<close>

section \<open>Version strings\<close>

definition version_char :: "char \<Rightarrow> bool" where
  "version_char c \<longleftrightarrow> ident_char c \<or> c = CHR ''+''"

lemma before_chars:
  assumes "\<forall>x\<in>set (before c s). P x" "c \<in> set s \<longrightarrow> P c \<and> (\<forall>x\<in>set (after c s). P x)"
  shows "\<forall>x\<in>set s. P x"
proof (cases "c \<in> set s")
  case True
  have "set s = set (before c s) \<union> {c} \<union> set (after c s)"
    by (subst before_after [OF True]) auto
  then show ?thesis using assms True by auto
next
  case False
  then have "before c s = s" by (simp add: before_def takeWhile_none)
  then show ?thesis using assms(1) by simp
qed

lemma core_chars: "core_ok s \<Longrightarrow> \<forall>x\<in>set s. is_digit x \<or> x = CHR ''.''"
proof -
  assume a: "core_ok s"
  have "set s \<subseteq> set ''.'' \<union> \<Union> (set ` set (split_on CHR ''.'' s))"
    using set_join_with [of "''.''" "split_on CHR ''.'' s"] join_split_on [of "CHR ''.''" s] by simp
  then show ?thesis using a by (fastforce simp: core_ok_def list_all_iff digits1_def)
qed

lemma valid_version_chars:
  assumes "ValidVersion v"
  shows "\<forall>x\<in>set v. version_char x"
proof -
  let ?a = "before CHR ''+'' v"
  have c: "core_ok (before CHR ''-'' ?a)" "opt_group CHR ''-'' ?a" "opt_group CHR ''+'' v"
    using assms by (simp_all add: ValidVersion_def Let_def)
  have w: "version_char x" if "ident_char x \<or> is_digit x \<or> x = CHR ''.'' \<or> x = CHR ''-'' \<or> x = CHR ''+''" for x
    using that unfolding version_char_def ident_char_def by blast
  have "\<forall>x\<in>set ?a. version_char x"
  proof (rule before_chars [of "CHR ''-''"])
    show "\<forall>x\<in>set (before CHR ''-'' ?a). version_char x" using core_chars [OF c(1)] w by blast
    show "CHR ''-'' \<in> set ?a \<longrightarrow> version_char CHR ''-'' \<and> (\<forall>x\<in>set (after CHR ''-'' ?a). version_char x)"
      using c(2) w unfolding opt_group_def list_all_iff by blast
  qed
  then show ?thesis
    by (rule before_chars) (use c(3) w in \<open>unfold opt_group_def list_all_iff, blast\<close>)
qed

lemma valid_version_digit:
  assumes "ValidVersion v"
  shows "\<exists>c cs. v = c # cs \<and> is_digit c"
proof -
  let ?s = "before CHR ''-'' (before CHR ''+'' v)"
  have c: "core_ok ?s" using assms by (simp add: ValidVersion_def Let_def)
  then obtain d ds where d: "split_on CHR ''.'' ?s = d # ds" "digits1 d"
    by (cases "split_on CHR ''.'' ?s") (auto simp: core_ok_def)
  then obtain x xs where x: "d = x # xs" "is_digit x" by (cases d) (auto simp: digits1_def)
  have "?s = join_with ''.'' (d # ds)" using join_split_on [of "CHR ''.''" ?s] d by simp
  then obtain t where "?s = x # t" using x by (cases ds) auto
  moreover have "prefix ?s v" unfolding before_def by (metis prefix_order.trans takeWhile_is_prefix)
  ultimately show ?thesis using x by (auto simp: prefix_def)
qed

text \<open>The bytes of a version, as a finite table the evaluator can run through.\<close>

definition version_alphabet :: string where
  "version_alphabet = ''0123456789abcdefghijklmnopqrstuvwxyzABCDEFGHIJKLMNOPQRSTUVWXYZ.-+''"

lemma version_char_alphabet: "version_char c \<longleftrightarrow> c \<in> set version_alphabet"
  by (auto simp: version_char_def ident_char_def is_digit_def is_lower_def is_upper_def version_alphabet_def)

lemma alphabet_facts:
  "\<forall>c\<in>set version_alphabet. c \<noteq> slash \<and> is_ascii c \<and> html_safe c \<and> c \<noteq> byte 10 \<and> c \<noteq> byte 13 \<and> c \<noteq> byte 0 \<and>
     (\<forall>w\<in>set space_runes. hd w \<noteq> c \<and> last w \<noteq> c)"
  by code_simp

lemma version_char_facts:
  assumes "version_char c"
  shows "c \<noteq> slash" "is_ascii c" "html_safe c" "c \<noteq> byte 10" "c \<noteq> byte 13"
    "w \<in> set space_runes \<Longrightarrow> hd w \<noteq> c" "w \<in> set space_runes \<Longrightarrow> last w \<noteq> c"
  using assms alphabet_facts unfolding version_char_alphabet by blast+

lemma simple_version: "ValidVersion v \<Longrightarrow> simple v"
proof -
  assume v: "ValidVersion v"
  obtain c cs where c: "v = c # cs" "is_digit c" using valid_version_digit [OF v] by blast
  have "\<not> is_digit (CHR ''.'')" by (simp add: is_digit_def)
  then have "c \<noteq> CHR ''.''" using c by auto
  moreover have "slash \<notin> set v" using valid_version_chars [OF v] version_char_facts(1) by blast
  ultimately show ?thesis using c by (simp add: simple_def)
qed

lemma ascii_utf8: "\<forall>c\<in>set s. is_ascii c \<Longrightarrow> valid_utf8 s"
  by (induction s) auto

lemma version_utf8: "ValidVersion v \<Longrightarrow> valid_utf8 v"
  using valid_version_chars version_char_facts(2) by (intro ascii_utf8) blast

lemma ValidateVersion_Inr [simp]: "ValidateVersion v = Inr u \<longleftrightarrow> ValidVersion v"
  using valid_version_digit [of v] by (auto simp: ValidateVersion_def)

lemma ValidateVersion_ok [simp]: "ValidVersion v \<Longrightarrow> ValidateVersion v = Inr ()"
  by simp

section \<open>Paths under a root\<close>

lemma simple_names [simp]:
  "simple CurrentName" "simple VersionsName" "simple MetaName" "simple JournalName" "simple StateName"
  "simple ClockName" "simple StagingName" "simple IntegrationsName" "simple ProbationName" "simple LauncherNextName"
  by (simp_all add: simple_def layout_names LauncherNextName_def)

lemma layout_paths:
  assumes "simples rs"
  shows "Current (abs_path rs) = abs_path (rs @ [CurrentName])"
    "Versions (abs_path rs) = abs_path (rs @ [VersionsName])"
    "Meta (abs_path rs) = abs_path (rs @ [MetaName])"
    "Journal_path (abs_path rs) = abs_path ((rs @ [MetaName]) @ [JournalName])"
    "State_path (abs_path rs) = abs_path ((rs @ [MetaName]) @ [StateName])"
    "Staging (abs_path rs) = abs_path ((rs @ [MetaName]) @ [StagingName])"
    "ValidVersion v \<Longrightarrow> VersionDir (abs_path rs) v = Inr (abs_path ((rs @ [VersionsName]) @ [v]))"
  using assms simple_version [of v] valid_version_digit [of v]
  by (auto simp: Current_def Versions_def Meta_def Journal_path_def State_path_def Staging_def VersionDir_def
      ValidateVersion_def Join_abs split: sum.splits)

section \<open>The install state\<close>

definition int64 :: "int \<Rightarrow> bool" where
  "int64 i \<longleftrightarrow> - (2 ^ 63) \<le> i \<and> i < 2 ^ 63"

lemma newline_end [simp]: "num_end [byte 10]" "\<not> More [byte 10]"
  by (simp_all add: num_end_def More_def skip_space_def is_space_def is_digit_def byte_lits)

lemma dec_num [simp]: "int64 i \<Longrightarrow> dec_int (num i) old = Inr i"
  by (simp add: dec_int_def num_def parse_show_int int64_def)

lemma dec_str [simp]: "dec_string (JStr s) old = Inr s"
  by (simp add: dec_string_def)

lemma valid_json_num [simp]: "valid_json (num i)"
  by (simp add: num_def valid_num_show)

lemma nesting_num [simp]: "nesting (num i) = 0"
  by (simp add: num_def)

lemma decode_install:
  assumes "valid_utf8 (in_name i)" "valid_utf8 (in_version i)" "int64 (in_schema i)" "int64 (in_layout i)"
  shows "decode_doc install_fields put_install install_zero (MarshalIndent (install_json i) @ [byte 10]) = Inr i"
proof -
  have "valid_json (install_json i)" "nesting (install_json i) \<le> maxNestingDepth"
    using assms by (simp_all add: install_json_def maxNestingDepth_def ascii_utf8 is_ascii_def)
  then have "decode_doc install_fields put_install install_zero (MarshalIndent (install_json i) @ [byte 10]) =
      decode_struct install_fields put_install (install_json i) install_zero"
    by (rule decode_doc_print [OF _ _ newline_end])
  also have "\<dots> = Inr i"
    using assms by (simp add: install_json_def decode_struct_def put_install_def install_fields_def install_zero_def)
  finally show ?thesis .
qed

text \<open>
  Where an install lives: a root of real directories, in it \<open>.updater\<close> absent or a real directory
  and \<open>versions\<close> likewise; the stored documents are absent or plain files.
\<close>

definition meta_ok :: "string list \<Rightarrow> (string \<Rightarrow> memNode option) \<Rightarrow> bool" where
  "meta_ok rs f \<longleftrightarrow> dirs_tab f rs \<and> wf_tab f \<and>
     (\<forall>n. f (abs_path (rs @ [MetaName])) = Some n \<longrightarrow> isDir n \<and> \<not> isSymlink n)"

lemma write_child_file:
  assumes dt: "dirs_tab f ds" and wf: "wf_tab f" and x: "simple x" and e: "simple e"
    and name: "name = abs_path ((ds @ [x]) @ [e])" and d: "d = abs_path (ds @ [x])"
    and real: "\<And>n. f d = Some n \<Longrightarrow> isDir n \<and> \<not> isSymlink n"
    and nd: "\<And>n. f name = Some n \<Longrightarrow> \<not> isDir n"
    and reg: "\<And>k. plain_file (f (tmp_of (pid m0) name k))"
  shows "triple (tab m0 f) (bind (wrap s (MkdirAll d DirMode)) (\<lambda>_. wrap s (WriteFileAtomic name bs md)))
    (\<lambda>_. written m0 (with_dir DirMode d f) name (file_node md bs))
    (\<lambda>_ m. hooked m0 \<and> (tab m0 f m \<or> unwritten m0 (with_dir DirMode d f) name m \<or>
       written m0 (with_dir DirMode d f) name (file_node md bs) m))"
proof -
  let ?g = "with_dir DirMode d f"
  have mk: "triple (tab m0 f) (MkdirAll d DirMode) (\<lambda>_. tab m0 ?g) (\<lambda>_ m. tab m0 f m \<and> hooked m0)"
    by (rule MkdirAll_plain [OF dt x d real])
  have g: "dirs_tab ?g (ds @ [x])" "wf_tab ?g"
    using with_dir_dirs [OF dt x d real] wf_with_dir [OF wf dt x d] by simp_all
  have s: "simples ds" using dt by (simp add: dirs_tab_def)
  have dn: "?g q = f q" if q: "q = name \<or> (\<exists>k. q = tmp_of (pid m0) name k)" for q
  proof -
    obtain e' where "q = abs_path ((ds @ [x]) @ [e'])" "simple e'"
      using q e simple_scratch [OF e] unfolding name tmp_of_def abs_path_snoc by blast
    then have "d \<noteq> q" using in_dir_not_ancestor [of "ds @ [x]" e' "length (ds @ [x])"] s x by (simp add: d)
    then show ?thesis by (auto simp: with_dir_def)
  qed
  have wr: "triple (tab m0 ?g) (WriteFileAtomic name bs md) (\<lambda>_. written m0 ?g name (file_node md bs))
      (\<lambda>_ m. hooked m0 \<and> (unwritten m0 ?g name m \<or> written m0 ?g name (file_node md bs) m))"
    by (rule WriteFileAtomic_plain [OF g(1) e name g(2)]) (use dn nd reg in \<open>(metis | force)+\<close>)
  show ?thesis
    by (rule triple_bind; rule triple_wrap; rule triple_weaken [OF mk] triple_weaken [OF wr]; blast)
qed

lemma write_meta_file:
  assumes ok: "meta_ok rs f" and e: "simple e"
    and name: "name = abs_path ((rs @ [MetaName]) @ [e])" and d: "d = abs_path (rs @ [MetaName])"
    and nd: "\<And>n. f name = Some n \<Longrightarrow> \<not> isDir n"
    and reg: "\<And>k. plain_file (f (tmp_of (pid m0) name k))"
  shows "triple (tab m0 f) (bind (wrap s (MkdirAll d DirMode)) (\<lambda>_. wrap s (WriteFileAtomic name bs md)))
    (\<lambda>_. written m0 (with_dir DirMode d f) name (file_node md bs))
    (\<lambda>_ m. hooked m0 \<and> (tab m0 f m \<or> unwritten m0 (with_dir DirMode d f) name m \<or>
       written m0 (with_dir DirMode d f) name (file_node md bs) m))"
proof -
  have "dirs_tab f rs" "wf_tab f" "\<And>n. f d = Some n \<Longrightarrow> isDir n \<and> \<not> isSymlink n" using ok by (auto simp: meta_ok_def d)
  then show ?thesis using nd reg by (intro write_child_file [OF _ _ _ e name d]) simp_all
qed

lemma not_hooked_honest: "\<not> hooked m \<Longrightarrow> honest m"
  by (auto simp: honest_def dest: hook_err_hooked)

lemma meta_child_not_meta:
  "simples rs \<Longrightarrow> simple e \<Longrightarrow> abs_path ((rs @ [MetaName]) @ [e]) \<noteq> abs_path (rs @ [MetaName])"
  using in_dir_not_ancestor [of "rs @ [MetaName]" e "length (rs @ [MetaName])"] by auto

lemma written_dirs:
  assumes "dirs_tab f ds" "simple e" "name = abs_path (ds @ [e])"
  shows "dirs_tab (f(tmp_of i name k := t, name := u)) ds"
proof -
  have "dirs_tab (f(tmp_of i name k := t)) ds"
    using assms simple_scratch [OF assms(2)] by (intro dirs_tab_upd) (auto simp: tmp_of_def abs_path_snoc)
  then show ?thesis by (rule dirs_tab_upd [OF _ assms(2,3)])
qed

section \<open>Stored documents\<close>

text \<open>
  The contract of a document under \<open>.updater\<close>: \<open>store\<close> refuses what is not \<open>ok\<close> before it touches anything and
  otherwise writes the \<open>bytes\<close> of the value atomically; \<open>load\<close> parses what it finds; and the bytes of a
  value parse to the value, completed by \<open>full\<close>.
\<close>

locale document =
  fixes entry :: string and limit :: int and parse_doc :: "string \<Rightarrow> 'a option result" and bytes :: "'a \<Rightarrow> string"
    and ok :: "'a \<Rightarrow> bool" and full :: "'a \<Rightarrow> 'a"
    and load :: "string \<Rightarrow> (mem, 'a option) prog" and store :: "string \<Rightarrow> 'a \<Rightarrow> (mem, unit) prog"
  assumes entry: "simple entry" and limit: "0 < limit"
    and load_eq: "simples rs \<Longrightarrow> load (abs_path rs) = attempt (ReadFile (abs_path ((rs @ [MetaName]) @ [entry])) limit)
      (\<lambda>e. if IsNotExist e then ret None else throw (ErrLayout # e)) (\<lambda>raw. lift (parse_doc raw))"
    and store_ok: "simples rs \<Longrightarrow> ok x \<Longrightarrow> store (abs_path rs) x =
      bind (wrap ErrLayout (MkdirAll (abs_path (rs @ [MetaName])) DirMode)) (\<lambda>_.
      wrap ErrLayout (WriteFileAtomic (abs_path ((rs @ [MetaName]) @ [entry])) (bytes x) MetaFileMode))"
    and store_bad: "\<not> ok x \<Longrightarrow> \<exists>e. store root x = throw e"
begin

lemma load_plain:
  assumes dt: "dirs_tab f (rs @ [MetaName])" and p: "p = abs_path ((rs @ [MetaName]) @ [entry])"
    and n: "f p = Some n" "plain_file (Some n)" "int (length (data n)) \<le> limit"
    and c: "parse_doc (data n) = Inr x" and h: "honest m0"
  shows "triple (tab m0 f) (load (abs_path rs)) (\<lambda>r m. r = x \<and> tab m0 f m) (\<lambda>_ m. tab m0 f m \<and> hooked m0)"
proof -
  have s: "simples rs" using dt by (simp add: dirs_tab_def)
  have rd: "triple (tab m0 f) (ReadFile p limit) (\<lambda>bs m. bs = data n \<and> tab m0 f m)
      (\<lambda>e m. tab m0 f m \<and> hooked m0 \<and> \<not> IsNotExist e)"
    using n h by (intro triple_weaken [OF ReadFile_plain [OF dt entry p limit]])
      (auto simp: plain_file_def honest_def intro: hook_err_hooked)
  show ?thesis
    unfolding load_eq [OF s] p [symmetric]
    by (rule triple_attempt [OF rd]) (use c in \<open>auto simp: triple_def lift_def throw_def\<close>)
qed

lemma store_plain:
  assumes "meta_ok rs f" "ok x" "p = abs_path ((rs @ [MetaName]) @ [entry])" "d = abs_path (rs @ [MetaName])"
    "plain_file (f p)" "\<And>k. plain_file (f (tmp_of (pid m0) p k))"
  shows "triple (tab m0 f) (store (abs_path rs) x)
    (\<lambda>_. written m0 (with_dir DirMode d f) p (file_node MetaFileMode (bytes x)))
    (\<lambda>_ m. hooked m0 \<and> (tab m0 f m \<or> unwritten m0 (with_dir DirMode d f) p m \<or>
       written m0 (with_dir DirMode d f) p (file_node MetaFileMode (bytes x)) m))"
proof -
  have s: "simples rs" using assms(1) by (simp add: meta_ok_def dirs_tab_def)
  show ?thesis
    unfolding store_ok [OF s assms(2)] assms(3,4)
    by (rule write_meta_file [OF assms(1) entry refl refl]) (use assms(3,5,6) in \<open>auto simp: plain_file_def\<close>)
qed

lemma store_load:
  assumes "meta_ok rs (node_at m)" and "name = abs_path ((rs @ [MetaName]) @ [entry])"
    and "plain_file (node_at m name)" and "\<forall>k. plain_file (node_at m (tmp_of (pid m) name k))"
    and "ok x \<Longrightarrow> parse_doc (bytes x) = Inr (Some (full x))" and "int (length (bytes x)) \<le> limit"
    and "store (abs_path rs) x m = (r, m')"
  shows "(node_at m' name = node_at m name \<or> node_at m' name = Some (file_node MetaFileMode (bytes x))) \<and>
    (\<not> hooked m \<longrightarrow> (r = Inr () \<longleftrightarrow> ok x)) \<and>
    (\<not> hooked m \<longrightarrow> r = Inr () \<longrightarrow> fst (load (abs_path rs) m') = Inr (Some (full x)))"
proof (cases "ok x")
  case False
  then obtain e where "store (abs_path rs) x = throw e" using store_bad by blast
  then have "r = Inl e" "m' = m" using assms(7) by (simp_all add: throw_def)
  then show ?thesis using False by simp
next
  case True
  let ?d = "abs_path (rs @ [MetaName])" and ?n = "file_node MetaFileMode (bytes x)"
  let ?g = "with_dir DirMode ?d (node_at m)"
  have s: "simples rs" using assms(1) by (simp add: meta_ok_def dirs_tab_def)
  note tr = store_plain [OF assms(1) True assms(2) refl assms(3) spec [OF assms(4)]]
  have gn: "?g name = node_at m name" using meta_child_not_meta [OF s entry] by (simp add: assms(2) with_dir_def)
  have tn: "tmp_of (pid m) name k \<noteq> name" "name \<noteq> tmp_of (pid m) name k" for k by (simp_all add: tmp_of_def)
  have rd: "fst (load (abs_path rs) m') = Inr (Some (full x))" if w: "written m ?g name ?n m'" and nh: "\<not> hooked m"
  proof -
    obtain k where k: "tab m (?g(tmp_of (pid m) name k := None, name \<mapsto> ?n)) m'" using w by (auto simp: written_def)
    have g: "dirs_tab ?g (rs @ [MetaName])" using with_dir_dirs [OF _ _ refl, of "node_at m" rs MetaName DirMode] assms(1) by (simp add: meta_ok_def)
    have "triple (tab m (?g(tmp_of (pid m) name k := None, name \<mapsto> ?n))) (load (abs_path rs))
        (\<lambda>y w. y = Some (full x) \<and> tab m (?g(tmp_of (pid m) name k := None, name \<mapsto> ?n)) w)
        (\<lambda>_ w. tab m (?g(tmp_of (pid m) name k := None, name \<mapsto> ?n)) w \<and> hooked m)"
      using assms(5,6) True not_hooked_honest [OF nh] by (intro load_plain [OF written_dirs [OF g entry assms(2)] assms(2)]) auto
    then show ?thesis using k nh by (cases "load (abs_path rs) m'"; cases "fst (load (abs_path rs) m')") (auto simp: triple_def)
  qed
  show ?thesis
  proof (cases r)
    case (Inr y)
    then have w: "written m ?g name ?n m'" using triple_Inr [OF tr tab_same] assms(7) by simp
    then have "node_at m' name = Some ?n" by (auto simp: written_def tab_def)
    then show ?thesis using rd w Inr True by simp
  next
    case (Inl e)
    then have "hooked m \<and> (tab m (node_at m) m' \<or> unwritten m ?g name m' \<or> written m ?g name ?n m')"
      using triple_Inl [OF tr tab_same] assms(7) by simp
    then show ?thesis using gn tn by (auto simp: written_def unwritten_def tab_def)
  qed
qed

end

subsection \<open>The install state as a document\<close>

definition install_bytes :: "Install \<Rightarrow> string" where
  "install_bytes i = MarshalIndent (install_json (i\<lparr>in_schema := StateSchema\<rparr>)) @ [byte 10]"

definition install_ok :: "Install \<Rightarrow> bool" where
  "install_ok i \<longleftrightarrow> in_name i \<noteq> [] \<and> ValidVersion (in_version i) \<and> 0 < in_layout i"

definition parse_install :: "string \<Rightarrow> Install option result" where
  "parse_install raw = (case decode_doc install_fields put_install install_zero raw of
     Inl e \<Rightarrow> Inl (ErrLayout # e) | Inr i \<Rightarrow> check_install i)"

interpretation sta: document StateName MaxStateLen parse_install install_bytes install_ok
  "\<lambda>i. i\<lparr>in_schema := StateSchema\<rparr>" ReadInstall WriteInstall
proof unfold_locales
  fix rs :: "string list" and x :: Install and root :: string
  show "ReadInstall (abs_path rs) = attempt (ReadFile (abs_path ((rs @ [MetaName]) @ [StateName])) MaxStateLen)
      (\<lambda>e. if IsNotExist e then ret None else throw (ErrLayout # e)) (\<lambda>raw. lift (parse_install raw))" if "simples rs"
    unfolding ReadInstall_def layout_paths(5) [OF that]
    by (rule arg_cong [where f = "attempt _ _"]) (auto simp: parse_install_def fun_eq_iff throw_def lift_def split: sum.splits)
  show "WriteInstall (abs_path rs) x = bind (wrap ErrLayout (MkdirAll (abs_path (rs @ [MetaName])) DirMode)) (\<lambda>_.
      wrap ErrLayout (WriteFileAtomic (abs_path ((rs @ [MetaName]) @ [StateName])) (install_bytes x) MetaFileMode))"
    if "simples rs" "install_ok x"
    using that(2) by (simp add: WriteInstall_def Let_def layout_paths(3,5) [OF that(1)] install_bytes_def install_ok_def)
  show "\<exists>e. WriteInstall root x = throw e" if "\<not> install_ok x"
    using that by (cases "ValidateVersion (in_version x)") (auto simp: WriteInstall_def Let_def install_ok_def fun_eq_iff prog_simps)
qed (simp_all add: MaxStateLen_def)

lemma parse_install_bytes:
  assumes "install_ok i" "valid_utf8 (in_name i)" "int64 (in_layout i)"
  shows "parse_install (install_bytes i) = Inr (Some (i\<lparr>in_schema := StateSchema\<rparr>))"
  using assms decode_install [of "i\<lparr>in_schema := StateSchema\<rparr>"] version_utf8
  by (simp add: parse_install_def install_bytes_def install_ok_def int64_def StateSchema_def check_install_def)

text \<open>
  C31.  The install state survives: in a root of real directories, where \<open>.updater\<close> is absent or a
  real directory and \<open>state.json\<close> a plain file or absent, whatever calls fail, \<open>state.json\<close> holds its
  old contents or the complete new document; with no call failing \<open>WriteInstall\<close> succeeds exactly
  on a state with a name, a valid version and a positive layout, and \<open>ReadInstall\<close> then returns
  that state with the schema version filled in.
\<close>

theorem WriteInstall_roundtrip:
  assumes "meta_ok rs (node_at m)" and "name = abs_path ((rs @ [MetaName]) @ [StateName])"
    and "plain_file (node_at m name)" and "\<forall>k. plain_file (node_at m (tmp_of (pid m) name k))"
    and "i' = i\<lparr>in_schema := StateSchema\<rparr>" and "valid_utf8 (in_name i)" and "int64 (in_layout i)"
    and "bs = MarshalIndent (install_json i') @ [byte 10]" and "int (length bs) \<le> MaxStateLen"
    and "WriteInstall (abs_path rs) i m = (r, m')"
  shows "(node_at m' name = node_at m name \<or> node_at m' name = Some (file_node MetaFileMode bs)) \<and>
    (\<not> hooked m \<longrightarrow> (r = Inr () \<longleftrightarrow> in_name i \<noteq> [] \<and> ValidVersion (in_version i) \<and> 0 < in_layout i)) \<and>
    (\<not> hooked m \<longrightarrow> r = Inr () \<longrightarrow> fst (ReadInstall (abs_path rs) m') = Inr (Some i'))"
  using sta.store_load [OF assms(1-4) parse_install_bytes [OF _ assms(6,7)] _ assms(10)] assms(5,8,9)
  by (simp add: install_bytes_def install_ok_def)

definition sample_install :: Install where
  "sample_install = \<lparr> in_schema = 1, in_name = ''app'', in_version = ''1.0.0'', in_layout = 1 \<rparr>"

lemma meta_ok_NewMem: "meta_ok [] (node_at NewMem)"
proof -
  have "wf_tab (node_at NewMem)" using wf_NewMem by (simp add: wf_mem_tab)
  moreover have "dirs_tab (node_at NewMem) []" by (simp add: dirs_tab_def abs_path_def node_at_def NewMem_def)
  ultimately show ?thesis by (simp add: meta_ok_def abs_path_def node_at_def NewMem_def MetaName_def)
qed

lemma NewMem_node: "node_at NewMem p = (if p = ''/'' \<or> p = ''.'' then Some (dir_node 0x1ED) else None)"
  by (simp add: node_at_def NewMem_def)

lemma NewMem_not_hooked: "\<not> hooked NewMem"
  by (simp add: hooked_def NewMem_def)

theorem WriteInstall_roundtrip_witness:
  "fst (ReadInstall ''/'' (snd (WriteInstall ''/'' sample_install NewMem))) = Inr (Some sample_install)"
proof -
  let ?n = "abs_path (([] @ [MetaName]) @ [StateName])"
  have v: "ValidVersion ''1.0.0''" "valid_utf8 (in_name sample_install)"
    "int (length (MarshalIndent (install_json sample_install) @ [byte 10])) \<le> MaxStateLen" by code_simp+
  have root: "abs_path [] = ''/''" by (simp add: abs_path_def)
  have i: "sample_install = sample_install\<lparr>in_schema := StateSchema\<rparr>" "int64 (in_layout sample_install)"
    by (simp_all add: sample_install_def StateSchema_def int64_def)
  have n: "plain_file (node_at NewMem ?n)" "\<forall>k. plain_file (node_at NewMem (tmp_of (pid NewMem) ?n k))"
    by (simp_all add: NewMem_node abs_path_def layout_names tmp_of_def)
  note rt = WriteInstall_roundtrip [OF meta_ok_NewMem refl n i(1) v(2) i(2) refl v(3), unfolded root, of
      "fst (WriteInstall ''/'' sample_install NewMem)" "snd (WriteInstall ''/'' sample_install NewMem)"]
  have ok: "in_name sample_install \<noteq> [] \<and> ValidVersion (in_version sample_install) \<and> 0 < in_layout sample_install"
    using v(1) by (simp add: sample_install_def)
  show ?thesis
    using rt [OF prod.collapse [symmetric], THEN conjunct2] NewMem_not_hooked ok by blast
qed

end
