(* ===== verification/Pointer.thy ===== *)
theory Pointer
  imports LayoutLaws
begin

text \<open>
  The contract of \<open>current\<close>, the commit point of an update: reading it names the version that was
  written last, and writing it, whatever fails, leaves the old pointer or the new one.  Both forms
  of the pointer meet it, and everything recovery does rests on the contract alone.
\<close>

section \<open>Reading single names\<close>

lemma Lstat_plain:
  assumes "dirs_tab f ds" "simple e" "p = abs_path (ds @ [e])"
  shows "triple (tab m0 f) (Lstat p) (\<lambda>i m. tab m0 f m \<and> f p = Some (inode i))
    (\<lambda>er m. tab m0 f m \<and> f p = None \<and> er = [ErrNotExist])"
proof -
  have "node m p False = (case f p of None \<Rightarrow> Inl [ErrNotExist] | Some n \<Rightarrow> Inr (p, n))" if "tab m0 f m" for m
    using node_in_dir [of m ds e False] assms that by (simp add: dirs_ok_tab tab_def split: option.splits)
  then show ?thesis by (auto simp: triple_def Lstat_def stat_def split: option.splits)
qed

lemma Readlink_plain:
  assumes "dirs_tab f ds" "simple e" "p = abs_path (ds @ [e])" "f p = Some n" "isSymlink n"
  shows "triple (tab m0 f) (Readlink p) (\<lambda>t m. tab m0 f m \<and> t = link n) (\<lambda>_ _. False)"
proof -
  have "node m p False = Inr (p, n)" if "tab m0 f m" for m
    using node_in_dir [of m ds e False] assms that by (simp add: dirs_ok_tab tab_def)
  then show ?thesis using assms(5) by (auto simp: triple_def Readlink_def)
qed

section \<open>The contract\<close>

text \<open>
  \<open>holds n t\<close>: the node \<open>n\<close> at \<open>current\<close> stands for the target \<open>t\<close>, where no node stands for none;
  \<open>litter n\<close>: what an interrupted write may leave at a scratch name.
\<close>

abbreviation cur :: "string list \<Rightarrow> string" where "cur rs \<equiv> abs_path (rs @ [CurrentName])"

definition short_version :: "string \<Rightarrow> bool" where
  "short_version v \<longleftrightarrow> ValidVersion v \<and> int (length (relVersionTarget v)) < MaxPointerLen"

definition clear_scratch :: "mem \<Rightarrow> (string \<Rightarrow> memNode option) \<Rightarrow> string \<Rightarrow> bool" where
  "clear_scratch m0 f p \<longleftrightarrow> (\<forall>k. f (tmp_of (pid m0) p k) = None)"

locale pointer_form =
  fixes rd :: "string \<Rightarrow> (mem, string) prog" and wr :: "string \<Rightarrow> string \<Rightarrow> (mem, unit) prog"
    and holds :: "memNode option \<Rightarrow> string \<Rightarrow> bool" and litter :: "memNode option \<Rightarrow> bool"
  assumes holds_None: "holds None t \<longleftrightarrow> t = []"
    and holds_file: "holds (Some n) t \<Longrightarrow> \<not> isDir n \<and> t \<noteq> []"
    and holds_unique: "holds x t \<Longrightarrow> holds x t' \<Longrightarrow> t = t'"
    and litter_None: "litter None"
    and plain_litter: "plain_file x \<Longrightarrow> litter x"
    and litter_file: "litter (Some n) \<Longrightarrow> \<not> isDir n"
    and read: "dirs_tab f rs \<Longrightarrow> holds (f (cur rs)) t \<Longrightarrow>
      triple (tab m0 f) (rd (abs_path rs)) (\<lambda>x m. x = t \<and> tab m0 f m) (\<lambda>_ m. tab m0 f m \<and> hooked m0)"
    and put: "dirs_tab f rs \<Longrightarrow> wf_tab f \<Longrightarrow> (\<And>n. f (cur rs) = Some n \<Longrightarrow> \<not> isDir n) \<Longrightarrow>
      (\<And>k. litter (f (tmp_of (pid m0) (cur rs) k))) \<Longrightarrow> short_version v \<Longrightarrow>
      triple (tab m0 f) (wr (abs_path rs) (relVersionTarget v))
        (\<lambda>_ m. \<exists>n. holds (Some n) (relVersionTarget v) \<and> written m0 f (cur rs) n m)
        (\<lambda>_ m. (hooked m0 \<or> \<not> clear_scratch m0 f (cur rs)) \<and>
          ((\<exists>k t. litter t \<and> tab m0 (f(tmp_of (pid m0) (cur rs) k := t)) m) \<or>
           (\<exists>n. holds (Some n) (relVersionTarget v) \<and> written m0 f (cur rs) n m)))"
begin

text \<open>The version \<open>current\<close> names in a table, the empty string if there is none.\<close>

definition points :: "(string \<Rightarrow> memNode option) \<Rightarrow> string list \<Rightarrow> string \<Rightarrow> bool" where
  "points f rs v \<longleftrightarrow> (if v = [] then f (cur rs) = None else ValidVersion v \<and> holds (f (cur rs)) (relVersionTarget v))"

lemma points_not_dir: "points f rs v \<Longrightarrow> f (cur rs) = Some n \<Longrightarrow> \<not> isDir n"
  using holds_file by (auto simp: points_def split: if_splits)

lemma points_unique: "points f rs v \<Longrightarrow> points f rs w \<Longrightarrow> v = w"
  using holds_None holds_unique by (auto simp: points_def relVersionTarget_def split: if_splits)

lemma points_cong: "f (cur rs) = g (cur rs) \<Longrightarrow> points f rs v = points g rs v"
  by (simp add: points_def)

end

section \<open>Targets\<close>

lemma versionFromTarget_rel: "ValidVersion v \<Longrightarrow> versionFromTarget (relVersionTarget v) = Inr v"
proof -
  assume v: "ValidVersion v"
  have j: "relVersionTarget v = join_with ''/'' [VersionsName, v]" by (simp add: relVersionTarget_def)
  have "Clean_path (relVersionTarget v) = relVersionTarget v"
    unfolding j Clean_path_def Slash_def using path_clean_simples [of "[VersionsName, v]"] simple_version [OF v] by simp
  moreover have "v \<noteq> []" using valid_version_digit [OF v] by auto
  ultimately show ?thesis using v by (simp add: versionFromTarget_def Let_def relVersionTarget_def)
qed

lemma versionFromTarget_valid: "versionFromTarget t = Inr v \<Longrightarrow> ValidVersion v"
  by (auto simp: versionFromTarget_def Let_def split: if_splits sum.splits)

context pointer_form
begin

lemma read_version:
  assumes "dirs_tab f rs" "points f rs v"
  shows "triple (tab m0 f) (bind (rd (abs_path rs)) (\<lambda>t. if t = [] then ret [] else lift (versionFromTarget t)))
    (\<lambda>x m. x = v \<and> tab m0 f m) (\<lambda>_ m. tab m0 f m \<and> hooked m0)"
proof (rule triple_bind)
  let ?t = "if v = [] then [] else relVersionTarget v"
  have "holds (f (cur rs)) ?t" using assms(2) holds_None by (auto simp: points_def)
  then show "triple (tab m0 f) (rd (abs_path rs)) (\<lambda>x m. x = ?t \<and> tab m0 f m) (\<lambda>_ m. tab m0 f m \<and> hooked m0)"
    by (rule read [OF assms(1)])
  show "triple (\<lambda>m. x = ?t \<and> tab m0 f m) (if x = [] then ret [] else lift (versionFromTarget x))
      (\<lambda>x m. x = v \<and> tab m0 f m) (\<lambda>_ m. tab m0 f m \<and> hooked m0)" for x
    using versionFromTarget_rel [of v] assms(2)
    by (auto simp: triple_def ret_def lift_def points_def relVersionTarget_def split: if_splits)
qed

end

section \<open>The symbolic link\<close>

definition holds_link :: "memNode option \<Rightarrow> string \<Rightarrow> bool" where
  "holds_link n t = (case n of None \<Rightarrow> t = [] | Some n \<Rightarrow> isSymlink n \<and> \<not> isDir n \<and> link n = t \<and> t \<noteq> [])"

definition litter_link :: "memNode option \<Rightarrow> bool" where
  "litter_link t \<longleftrightarrow> (\<forall>n. t = Some n \<longrightarrow> \<not> isDir n)"

abbreviation link_node :: "string \<Rightarrow> memNode" where
  "link_node t \<equiv> \<lparr> mode = ModeSymlink OR ModePerm, data = [], link = t \<rparr>"

lemma read_symlink_plain:
  assumes dt: "dirs_tab f rs" and h: "holds_link (f (cur rs)) t"
  shows "triple (tab m0 f) (read_symlink (abs_path rs)) (\<lambda>x m. x = t \<and> tab m0 f m) (\<lambda>_ m. tab m0 f m \<and> hooked m0)"
proof -
  have s: "simples rs" using dt by (simp add: dirs_tab_def)
  have ls: "triple (tab m0 f) (Lstat (cur rs)) (\<lambda>i m. tab m0 f m \<and> f (cur rs) = Some (inode i))
    (\<lambda>er m. tab m0 f m \<and> f (cur rs) = None \<and> er = [ErrNotExist])" by (rule Lstat_plain [OF dt _ refl]) simp
  show ?thesis
    unfolding read_symlink_def layout_paths(1) [OF s]
  proof (rule triple_attempt [OF ls])
    show "triple (\<lambda>m. tab m0 f m \<and> f (cur rs) = None \<and> e = [ErrNotExist])
      (if IsNotExist e then ret [] else throw (ErrLayout # e)) (\<lambda>x m. x = t \<and> tab m0 f m) (\<lambda>_ m. tab m0 f m \<and> hooked m0)" for e
      using h by (auto simp: triple_def ret_def IsNotExist_def throw_def holds_link_def)
    show "triple (\<lambda>m. tab m0 f m \<and> f (cur rs) = Some (inode i))
      (if \<not> isSymlink (inode i) then throw [ErrLayout] else wrap ErrLayout (Readlink (cur rs)))
      (\<lambda>x m. x = t \<and> tab m0 f m) (\<lambda>_ m. tab m0 f m \<and> hooked m0)" for i
    proof (cases "f (cur rs) = Some (inode i)")
      case True
      then have "isSymlink (inode i)" "link (inode i) = t" using h by (auto simp: holds_link_def)
      then show ?thesis
        using True Readlink_plain [OF dt _ refl True, of m0]
        by (auto intro!: triple_wrap triple_weaken [OF Readlink_plain [OF dt _ refl True, of m0]])
    qed (simp add: triple_def)
  qed
qed

lemma write_symlink_at:
  assumes dt: "dirs_tab f rs" and wf: "wf_tab f" and nd: "\<And>n. f (cur rs) = Some n \<Longrightarrow> \<not> isDir n"
    and lit: "litter_link (f tmp)" and tmp: "tmp = tmp_of (pid m0) (cur rs) k" and t: "t \<noteq> []"
  shows "triple (tab m0 f) (bind (wrap ErrLayout (Symlink t tmp)) (\<lambda>_.
     attempt (Rename tmp (cur rs)) (\<lambda>e. bind (ignore (Remove tmp)) (\<lambda>_. throw (ErrLayout # e)))
       (\<lambda>_. wrap ErrLayout (SyncDir (abs_path rs)))))
    (\<lambda>_. written m0 f (cur rs) (link_node t))
    (\<lambda>_ m. (hooked m0 \<or> f tmp \<noteq> None) \<and>
      ((\<exists>u. litter_link u \<and> tab m0 (f(tmp := u)) m) \<or> written m0 f (cur rs) (link_node t) m))"
    (is "triple _ _ ?Q ?E")
proof -
  let ?e = "CurrentName @ scratch_suffix (pid m0) k" and ?F = "f(tmp \<mapsto> link_node t)"
  let ?D = "tab m0 (f(tmp := None, cur rs \<mapsto> link_node t))"
  have c: "scratch_ctx f rs CurrentName (cur rs) tmp"
    using dt wf nd lit simple_scratch [of CurrentName]
    by (auto simp: scratch_ctx_def litter_link_def tmp tmp_of_def abs_path_snoc intro!: exI [of _ ?e])
  have p: "tmp = abs_path (rs @ [?e])" "simple ?e" by (simp_all add: tmp tmp_of_def abs_path_snoc simple_scratch)
  have sl: "triple (tab m0 f) (Symlink t tmp) (\<lambda>_ m. f tmp = None \<and> tab m0 ?F m)
      (\<lambda>_ m. tab m0 f m \<and> (hooked m0 \<or> f tmp \<noteq> None \<or> t = []))"
    by (rule Symlink_plain [OF dt p(2,1)])
  have rn: "triple (tab m0 ?F) (Rename tmp (cur rs)) (\<lambda>_. ?D) (\<lambda>_ m. tab m0 ?F m \<and> hooked m0)"
    by (rule rename_tmp [OF c]) simp
  have fd: "dirs_tab ?F rs" "dirs_tab (f(tmp := None, cur rs \<mapsto> link_node t)) rs" using scratch_ctxD [OF c] by metis+
  have below: "?F q = None" if "prefix (tmp @ ''/'') q" for q
    using scratch_ctx_file [OF c _ _ that, of "Some (link_node t)"] by auto
  let ?L = "\<lambda>m. \<exists>u. litter_link u \<and> tab m0 (f(tmp := u)) m"
  have L: "?L m" if "tab m0 (?F(tmp := None)) m \<or> tab m0 ?F m" for m
    using that by (auto simp: litter_link_def intro: exI [of _ None] exI [of _ "Some (link_node t)"])
  have "triple (tab m0 ?F) (Remove tmp) (\<lambda>_. ?L) (\<lambda>_. ?L)"
    using L by (intro triple_weaken [OF Remove_plain [OF fd(1) p(2,1) below]]) blast+
  then have rm: "triple (\<lambda>m. tab m0 ?F m \<and> hooked m0) (bind (ignore (Remove tmp)) (\<lambda>_. throw er)) ?Q ?E" for er
    by (intro triple_fact triple_bind [where R = "\<lambda>_. ?L"] triple_ignore triple_throw) auto
  have sy: "triple ?D (SyncDir (abs_path rs)) (\<lambda>_. ?D) (\<lambda>_ m. ?D m \<and> hooked m0)"
    by (rule SyncDir_plain [OF fd(2) refl])
  have D: "written m0 f (cur rs) (link_node t) m" if "?D m" for m using that by (auto simp: written_def tmp)
  have sw: "triple ?D (wrap ErrLayout (SyncDir (abs_path rs))) ?Q ?E"
    using D by (intro triple_wrap triple_weaken [OF sy]) blast+
  have err: "?E er m" if "tab m0 f m \<and> (hooked m0 \<or> f tmp \<noteq> None \<or> t = [])" for er m
  proof -
    have "tab m0 (f(tmp := f tmp)) m" using that by simp
    then show ?thesis using that lit t by blast
  qed
  have sl': "triple (tab m0 f) (wrap ErrLayout (Symlink t tmp)) (\<lambda>_. tab m0 ?F) ?E"
    using err by (intro triple_wrap triple_weaken [OF sl]) blast+
  show ?thesis
    by (rule triple_bind [OF sl'], rule triple_attempt [OF rn rm sw])
qed

lemma write_symlink_plain:
  assumes dt: "dirs_tab f rs" and wf: "wf_tab f" and nd: "\<And>n. f (cur rs) = Some n \<Longrightarrow> \<not> isDir n"
    and lit: "\<And>k. litter_link (f (tmp_of (pid m0) (cur rs) k))" and t: "t \<noteq> []"
  shows "triple (tab m0 f) (write_symlink (abs_path rs) t)
    (\<lambda>_. written m0 f (cur rs) (link_node t))
    (\<lambda>_ m. (hooked m0 \<or> \<not> clear_scratch m0 f (cur rs)) \<and>
      ((\<exists>k u. litter_link u \<and> tab m0 (f(tmp_of (pid m0) (cur rs) k := u)) m) \<or> written m0 f (cur rs) (link_node t) m))"
    (is "triple _ _ ?Q ?E")
proof -
  have s: "simples rs" using dt by (simp add: dirs_tab_def)
  have at: "triple (tab m0 f) (bind (wrap ErrLayout (Symlink t tmp)) (\<lambda>_.
     attempt (Rename tmp (cur rs)) (\<lambda>e. bind (ignore (Remove tmp)) (\<lambda>_. throw (ErrLayout # e)))
       (\<lambda>_. wrap ErrLayout (SyncDir (abs_path rs))))) ?Q ?E" if tmp: "tmp = tmp_of (pid m0) (cur rs) k" for tmp k
    by (rule triple_weaken [OF write_symlink_at [OF dt wf nd _ tmp t]])
      (use lit tmp in \<open>auto simp: clear_scratch_def\<close>)
  show ?thesis
    unfolding write_symlink_def layout_paths(1) [OF s]
  proof (rule triple_bind)
    show "triple (tab m0 f) (TempName (cur rs)) (\<lambda>tmp m. \<exists>k. tmp = tmp_of (pid m0) (cur rs) k \<and> tab m0 f m) ?E"
      by (rule triple_weaken [OF TempName_plain]) auto
    show "triple (\<lambda>m. \<exists>k. tmp = tmp_of (pid m0) (cur rs) k \<and> tab m0 f m) (bind (wrap ErrLayout (Symlink t tmp)) (\<lambda>_.
     attempt (Rename tmp (cur rs)) (\<lambda>e. bind (ignore (Remove tmp)) (\<lambda>_. throw (ErrLayout # e)))
       (\<lambda>_. wrap ErrLayout (SyncDir (abs_path rs))))) ?Q ?E" for tmp
      by (rule triple_Ex) (use at in \<open>auto simp: triple_def\<close>)
  qed
qed

interpretation lnk: pointer_form read_symlink write_symlink holds_link litter_link
proof unfold_locales
  fix f rs v and m0 :: mem
  assume a: "dirs_tab f rs" "wf_tab f" "\<And>n. f (cur rs) = Some n \<Longrightarrow> \<not> isDir n"
    "\<And>k. litter_link (f (tmp_of (pid m0) (cur rs) k))"
  have t: "relVersionTarget v \<noteq> []" by (simp add: relVersionTarget_def)
  have h: "holds_link (Some (link_node (relVersionTarget v))) (relVersionTarget v)" using t by (simp add: holds_link_def)
  show "triple (tab m0 f) (write_symlink (abs_path rs) (relVersionTarget v))
        (\<lambda>_ m. \<exists>n. holds_link (Some n) (relVersionTarget v) \<and> written m0 f (cur rs) n m)
        (\<lambda>_ m. (hooked m0 \<or> \<not> clear_scratch m0 f (cur rs)) \<and>
          ((\<exists>k t. litter_link t \<and> tab m0 (f(tmp_of (pid m0) (cur rs) k := t)) m) \<or>
           (\<exists>n. holds_link (Some n) (relVersionTarget v) \<and> written m0 f (cur rs) n m)))"
    using h by (intro triple_weaken [OF write_symlink_plain [OF a t]]) blast+
qed (auto simp: holds_link_def litter_link_def plain_file_def read_symlink_plain split: option.splits)

section \<open>The pointer file\<close>

definition holds_text :: "memNode option \<Rightarrow> string \<Rightarrow> bool" where
  "holds_text n t = (case n of None \<Rightarrow> t = [] | Some n \<Rightarrow> IsRegular n \<and> \<not> isDir n \<and> \<not> isSymlink n \<and>
     TrimSpace (data n) = t \<and> t \<noteq> [] \<and> byte 13 \<notin> set t \<and> byte 10 \<notin> set t \<and> int (length (data n)) \<le> MaxPointerLen)"

lemma read_file_pointer_plain:
  assumes dt: "dirs_tab f rs" and h: "holds_text (f (cur rs)) t"
  shows "triple (tab m0 f) (read_file_pointer (abs_path rs)) (\<lambda>x m. x = t \<and> tab m0 f m) (\<lambda>_ m. tab m0 f m \<and> hooked m0)"
proof -
  have s: "simples rs" using dt by (simp add: dirs_tab_def)
  have ls: "triple (tab m0 f) (Lstat (cur rs)) (\<lambda>i m. tab m0 f m \<and> f (cur rs) = Some (inode i))
    (\<lambda>er m. tab m0 f m \<and> f (cur rs) = None \<and> er = [ErrNotExist])" by (rule Lstat_plain [OF dt _ refl]) simp
  have rdf: "triple (tab m0 f) (ReadFile (cur rs) MaxPointerLen) (\<lambda>bs m. bs = data n \<and> tab m0 f m) (\<lambda>_ m. tab m0 f m \<and> hooked m0)"
    if n: "f (cur rs) = Some n" for n
    using h n by (intro triple_weaken [OF ReadFile_plain [OF dt _ refl, of CurrentName MaxPointerLen m0]])
      (auto simp: MaxPointerLen_def holds_text_def plain_file_def intro: hook_err_hooked)
  show ?thesis
    unfolding read_file_pointer_def layout_paths(1) [OF s]
  proof (rule triple_attempt [OF ls])
    show "triple (\<lambda>m. tab m0 f m \<and> f (cur rs) = None \<and> e = [ErrNotExist])
      (if IsNotExist e then ret [] else throw (ErrLayout # e)) (\<lambda>x m. x = t \<and> tab m0 f m) (\<lambda>_ m. tab m0 f m \<and> hooked m0)" for e
      using h by (auto simp: triple_def ret_def IsNotExist_def throw_def holds_text_def)
    show "triple (\<lambda>m. tab m0 f m \<and> f (cur rs) = Some (inode i))
      (if \<not> IsRegular (inode i) then throw [ErrLayout]
        else bind (wrap ErrLayout (ReadFile (cur rs) MaxPointerLen)) (\<lambda>raw.
          let target = TrimSpace raw in
          if target = [] then throw [ErrLayout]
          else if byte 13 \<in> set target \<or> byte 10 \<in> set target then throw [ErrLayout]
          else ret target))
      (\<lambda>x m. x = t \<and> tab m0 f m) (\<lambda>_ m. tab m0 f m \<and> hooked m0)" for i
    proof (cases "f (cur rs) = Some (inode i)")
      case True
      then have n: "IsRegular (inode i)" "TrimSpace (data (inode i)) = t" "t \<noteq> []" "byte 13 \<notin> set t" "byte 10 \<notin> set t"
        using h by (auto simp: holds_text_def)
      have "triple (tab m0 f) (bind (wrap ErrLayout (ReadFile (cur rs) MaxPointerLen)) (\<lambda>raw.
          let target = TrimSpace raw in
          if target = [] then throw [ErrLayout]
          else if byte 13 \<in> set target \<or> byte 10 \<in> set target then throw [ErrLayout]
          else ret target)) (\<lambda>x m. x = t \<and> tab m0 f m) (\<lambda>_ m. tab m0 f m \<and> hooked m0)"
        by (rule triple_bind [OF triple_wrap [OF rdf [OF True]]]) (use n in \<open>auto simp: triple_def ret_def Let_def\<close>)
      then show ?thesis using n True by (simp add: triple_def)
    qed (simp add: triple_def)
  qed
qed

lemma trim_left_none: "(\<And>w. w \<in> set ws \<Longrightarrow> \<not> prefix w s) \<Longrightarrow> trim_left ws n s = s"
  by (cases n) (auto simp: find_None_iff [THEN iffD2])

lemma newline_space:
  "\<forall>w\<in>set space_runes. w \<noteq> [] \<and> (last w = byte 10 \<longrightarrow> w = [byte 10]) \<and> hd w \<noteq> CHR ''v''" "[byte 10] \<in> set space_runes"
  by code_simp+

lemma trim_target:
  assumes "ValidVersion v"
  shows "TrimSpace (relVersionTarget v @ [byte 10]) = relVersionTarget v"
proof -
  let ?t = "relVersionTarget v"
  have v: "v \<noteq> []" "version_char (last v)"
    using valid_version_digit [OF assms] valid_version_chars [OF assms] by auto
  have lt: "?t \<noteq> []" "last ?t = last v" "hd ?t = CHR ''v''" using v by (simp_all add: relVersionTarget_def VersionsName_def)
  have l: "trim_left space_runes n (?t @ [byte 10]) = ?t @ [byte 10]" for n
  proof (rule trim_left_none)
    fix w
    assume "w \<in> set space_runes"
    then have "w \<noteq> []" "hd w \<noteq> CHR ''v''" using newline_space(1) by blast+
    then show "\<not> prefix w (?t @ [byte 10])" using lt by (cases w; cases ?t) auto
  qed
  have r: "trim_left (map rev space_runes) n (rev ?t) = rev ?t" for n
  proof (rule trim_left_none)
    fix w
    assume "w \<in> set (map rev space_runes)"
    then obtain u where u: "w = rev u" "u \<in> set space_runes" by auto
    then have "u \<noteq> []" "last u \<noteq> last ?t" using newline_space(1) version_char_facts(7) [OF v(2) u(2)] lt by auto
    then show "\<not> prefix w (rev ?t)" using lt(1) u(1) by (cases u rule: rev_cases; cases ?t rule: rev_cases) auto
  qed
  obtain w where w: "find (\<lambda>w. prefix w (byte 10 # rev ?t)) (map rev space_runes) = Some w"
    using newline_space(2) by (fastforce simp: find_None_iff elim!: option.exhaust [of "find _ _"])
  then obtain u where u: "w = rev u" "u \<in> set space_runes" "prefix w (byte 10 # rev ?t)"
    by (auto simp: find_Some_iff)
  then have "u \<noteq> []" using newline_space(1) by blast
  then have "last u = byte 10" using u by (cases u rule: rev_cases) auto
  then have "w = [byte 10]" using u newline_space(1) by auto
  then have "trim_left (map rev space_runes) (Suc n) (byte 10 # rev ?t) = rev ?t" for n using w r by simp
  then have "trim_left (map rev space_runes) (length (?t @ [byte 10])) (rev (?t @ [byte 10])) = rev ?t"
    by (simp del: trim_left.simps)
  then show ?thesis unfolding TrimSpace_def l Let_def by simp
qed

lemma write_file_pointer_plain:
  assumes dt: "dirs_tab f rs" and wf: "wf_tab f" and nd: "\<And>n. f (cur rs) = Some n \<Longrightarrow> \<not> isDir n"
    and lit: "\<And>k. plain_file (f (tmp_of (pid m0) (cur rs) k))"
  shows "triple (tab m0 f) (write_file_pointer (abs_path rs) t)
    (\<lambda>_. written m0 f (cur rs) (file_node 0x1A4 (t @ [byte 10])))
    (\<lambda>_ m. hooked m0 \<and> (unwritten m0 f (cur rs) m \<or> written m0 f (cur rs) (file_node 0x1A4 (t @ [byte 10])) m))"
proof -
  have s: "simples rs" using dt by (simp add: dirs_tab_def)
  show ?thesis
    unfolding write_file_pointer_def layout_paths(1) [OF s]
    by (rule triple_wrap, rule WriteFileAtomic_plain [OF dt _ refl wf nd lit]) simp_all
qed

lemma holds_text_target:
  assumes "short_version v"
  shows "holds_text (Some (file_node 0x1A4 (relVersionTarget v @ [byte 10]))) (relVersionTarget v)"
proof -
  have v: "ValidVersion v" "int (length (relVersionTarget v)) < MaxPointerLen" using assms by (simp_all add: short_version_def)
  have "\<forall>c\<in>set (relVersionTarget v). c \<noteq> byte 10 \<and> c \<noteq> byte 13"
    using valid_version_chars [OF v(1)] version_char_facts(4,5)
    by (auto simp: relVersionTarget_def VersionsName_def byte_lits)
  then show ?thesis using v trim_target [OF v(1)] by (auto simp: holds_text_def relVersionTarget_def)
qed

interpretation fil: pointer_form read_file_pointer write_file_pointer holds_text plain_file
proof unfold_locales
  fix f rs v and m0 :: mem
  assume a: "dirs_tab f rs" "wf_tab f" "\<And>n. f (cur rs) = Some n \<Longrightarrow> \<not> isDir n"
    "\<And>k. plain_file (f (tmp_of (pid m0) (cur rs) k))" "short_version v"
  show "triple (tab m0 f) (write_file_pointer (abs_path rs) (relVersionTarget v))
        (\<lambda>_ m. \<exists>n. holds_text (Some n) (relVersionTarget v) \<and> written m0 f (cur rs) n m)
        (\<lambda>_ m. (hooked m0 \<or> \<not> clear_scratch m0 f (cur rs)) \<and>
          ((\<exists>k t. plain_file t \<and> tab m0 (f(tmp_of (pid m0) (cur rs) k := t)) m) \<or>
           (\<exists>n. holds_text (Some n) (relVersionTarget v) \<and> written m0 f (cur rs) n m)))"
    using holds_text_target [OF a(5)]
    by (intro triple_weaken [OF write_file_pointer_plain [OF a(1-4)]]) (auto simp: unwritten_def)
qed (auto simp: holds_text_def plain_file_def read_file_pointer_plain split: option.splits)

section \<open>Both forms at once\<close>

fun holds_ptr :: "pointerForm \<Rightarrow> memNode option \<Rightarrow> string \<Rightarrow> bool" where
  "holds_ptr symlinkPointer = holds_link"
| "holds_ptr filePointer = holds_text"

fun litter_ptr :: "pointerForm \<Rightarrow> memNode option \<Rightarrow> bool" where
  "litter_ptr symlinkPointer = litter_link"
| "litter_ptr filePointer = plain_file"

interpretation ptr: pointer_form "pointer_read pf" "pointer_write pf" "holds_ptr pf" "litter_ptr pf" for pf
  using lnk.pointer_form_axioms fil.pointer_form_axioms by (cases pf) simp_all

lemma PointerTarget_plain:
  assumes "dirs_tab f rs" "ptr.points pf f rs v"
  shows "triple (tab m0 f) (PointerTarget pf (abs_path rs)) (\<lambda>x m. x = v \<and> tab m0 f m) (\<lambda>_ m. tab m0 f m \<and> hooked m0)"
  unfolding PointerTarget_def by (rule ptr.read_version [OF assms])

text \<open>After a write the pointer names the new version, after a failed one the old or the new.\<close>

definition repointed :: "pointerForm \<Rightarrow> mem \<Rightarrow> (string \<Rightarrow> memNode option) \<Rightarrow> string list \<Rightarrow> string \<Rightarrow> mem \<Rightarrow> bool" where
  "repointed pf m0 f rs v m \<longleftrightarrow> (\<exists>n k. holds_ptr pf (Some n) (relVersionTarget v) \<and>
     tab m0 (f(tmp_of (pid m0) (cur rs) k := None, cur rs \<mapsto> n)) m)"

definition unpointed :: "pointerForm \<Rightarrow> mem \<Rightarrow> (string \<Rightarrow> memNode option) \<Rightarrow> string list \<Rightarrow> mem \<Rightarrow> bool" where
  "unpointed pf m0 f rs m \<longleftrightarrow> (\<exists>k t. litter_ptr pf t \<and> tab m0 (f(tmp_of (pid m0) (cur rs) k := t)) m)"

lemma SetPointer_plain:
  assumes "dirs_tab f rs" "wf_tab f" "\<And>n. f (cur rs) = Some n \<Longrightarrow> \<not> isDir n"
    "\<And>k. litter_ptr pf (f (tmp_of (pid m0) (cur rs) k))" "short_version v"
  shows "triple (tab m0 f) (SetPointer pf (abs_path rs) v) (\<lambda>_. repointed pf m0 f rs v)
    (\<lambda>_ m. (hooked m0 \<or> \<not> clear_scratch m0 f (cur rs)) \<and> (unpointed pf m0 f rs m \<or> repointed pf m0 f rs v m))"
proof -
  have "ValidVersion v" using assms(5) by (simp add: short_version_def)
  then have "SetPointer pf (abs_path rs) v = pointer_write pf (abs_path rs) (relVersionTarget v)"
    by (simp add: SetPointer_def)
  moreover have "triple (tab m0 f) (pointer_write pf (abs_path rs) (relVersionTarget v))
      (\<lambda>_ m. \<exists>n. holds_ptr pf (Some n) (relVersionTarget v) \<and> written m0 f (cur rs) n m)
      (\<lambda>_ m. (hooked m0 \<or> \<not> clear_scratch m0 f (cur rs)) \<and>
        ((\<exists>k t. litter_ptr pf t \<and> tab m0 (f(tmp_of (pid m0) (cur rs) k := t)) m) \<or>
         (\<exists>n. holds_ptr pf (Some n) (relVersionTarget v) \<and> written m0 f (cur rs) n m)))"
    using ptr.put [OF assms(1,2) _ _ assms(5), of pf m0] assms(3,4) by blast
  ultimately show ?thesis by (simp add: repointed_def [abs_def] unpointed_def written_def)
qed

text \<open>The same tree after a restart: a new process, and calls work again.\<close>

definition restarted :: "nat \<Rightarrow> mem \<Rightarrow> mem" where
  "restarted i m = m\<lparr>Fail := (\<lambda>_ _ _. None), pid := i, tmpSeq := 0\<rparr>"

lemma restarted_simps [simp]: "node_at (restarted i m) = node_at m" "\<not> hooked (restarted i m)" "pid (restarted i m) = i"
  by (simp_all add: restarted_def hooked_def)

lemma run_unhooked:
  assumes "triple (tab m f) p (\<lambda>x w. x = v \<and> tab m f w) (\<lambda>_ w. tab m f w \<and> hooked m)" "node_at m = f" "\<not> hooked m"
  shows "fst (p m) = Inr v"
  using assms tab_same [of m] by (cases "p m"; cases "fst (p m)") (auto simp: triple_def)

text \<open>
  C14.  The commit point is atomic, in both of its forms: whichever calls fail while \<open>current\<close> is
  repointed, afterwards it is the old node or names the new version, nothing else but scratch
  names changed, and a successful call has made it name the new version.  The call succeeds if no
  call fails and no scratch name of this process is taken.
\<close>

theorem SetPointer_atomic:
  assumes "wf_mem m" "dirs_ok m rs" "\<forall>n. node_at m (abs_path (rs @ [CurrentName])) = Some n \<longrightarrow> \<not> isDir n"
    and "\<forall>k. litter_ptr pf (node_at m (tmp_of (pid m) (abs_path (rs @ [CurrentName])) k))"
    and "ValidVersion v" "int (length (relVersionTarget v)) < MaxPointerLen"
    and "SetPointer pf (abs_path rs) v m = (r, m')"
  shows "(node_at m' (abs_path (rs @ [CurrentName])) = node_at m (abs_path (rs @ [CurrentName])) \<or>
      fst (PointerTarget pf (abs_path rs) (restarted i m')) = Inr v) \<and>
    (\<forall>q. q \<noteq> abs_path (rs @ [CurrentName]) \<longrightarrow> (\<forall>k. q \<noteq> tmp_of (pid m) (abs_path (rs @ [CurrentName])) k) \<longrightarrow>
      node_at m' q = node_at m q) \<and>
    (r = Inr () \<longrightarrow> fst (PointerTarget pf (abs_path rs) (restarted i m')) = Inr v) \<and>
    (\<not> hooked m \<longrightarrow> clear_scratch m (node_at m) (abs_path (rs @ [CurrentName])) \<longrightarrow> r = Inr ())"
proof -
  let ?f = "node_at m" and ?c = "cur rs"
  have dt: "dirs_tab ?f rs" and wf: "wf_tab ?f" using assms(1,2) by (simp_all add: dirs_ok_tab wf_mem_tab)
  have sv: "short_version v" using assms(5,6) by (simp add: short_version_def)
  have tr: "triple (tab m ?f) (SetPointer pf (abs_path rs) v) (\<lambda>_. repointed pf m ?f rs v)
      (\<lambda>_ w. (hooked m \<or> \<not> clear_scratch m ?f ?c) \<and> (unpointed pf m ?f rs w \<or> repointed pf m ?f rs v w))"
    using SetPointer_plain [OF dt wf _ _ sv] assms(3,4) by blast
  have tn: "tmp_of j ?c k \<noteq> ?c" "?c \<noteq> tmp_of j ?c k" for j k by (simp_all add: tmp_of_def)
  have rep: "fst (PointerTarget pf (abs_path rs) (restarted i m')) = Inr v \<and>
      (\<forall>q. q \<noteq> ?c \<longrightarrow> (\<forall>k. q \<noteq> tmp_of (pid m) ?c k) \<longrightarrow> node_at m' q = ?f q)" if "repointed pf m ?f rs v m'"
  proof -
    from that obtain n k where n: "holds_ptr pf (Some n) (relVersionTarget v)"
      and t: "node_at m' = ?f(tmp_of (pid m) ?c k := None, ?c \<mapsto> n)" by (auto simp: repointed_def tab_def)
    have d: "dirs_tab (node_at m') rs" unfolding t by (rule written_dirs [OF dt _ refl]) simp
    have "v \<noteq> []" using valid_version_digit [OF assms(5)] by auto
    then have "ptr.points pf (node_at m') rs v" using n assms(5) by (simp add: ptr.points_def t)
    from PointerTarget_plain [OF d this, of "restarted i m'"]
    have "fst (PointerTarget pf (abs_path rs) (restarted i m')) = Inr v" by (rule run_unhooked) simp_all
    then show ?thesis by (simp add: t)
  qed
  have un: "node_at m' ?c = ?f ?c \<and> (\<forall>q. (\<forall>k. q \<noteq> tmp_of (pid m) ?c k) \<longrightarrow> node_at m' q = ?f q)" if "unpointed pf m ?f rs m'"
    using that tn by (auto simp: unpointed_def tab_def)
  show ?thesis
  proof (cases r)
    case (Inr x)
    then have "repointed pf m ?f rs v m'" using triple_Inr [OF tr tab_same] assms(7) by simp
    then show ?thesis using rep Inr by simp
  next
    case (Inl e)
    then have "(hooked m \<or> \<not> clear_scratch m ?f ?c) \<and> (unpointed pf m ?f rs m' \<or> repointed pf m ?f rs v m')"
      using triple_Inl [OF tr tab_same] assms(7) by simp
    then show ?thesis using rep un Inl by auto
  qed
qed

theorem SetPointer_atomic_witness:
  "fst (PointerTarget symlinkPointer ''/'' (restarted 7 (snd (SetPointer symlinkPointer ''/'' ''1.0.0'' NewMem)))) = Inr ''1.0.0''"
proof -
  let ?c = "abs_path ([] @ [CurrentName])"
  have root: "abs_path [] = ''/''" by (simp add: abs_path_def)
  have d: "dirs_ok NewMem []" using meta_ok_NewMem by (simp add: meta_ok_def dirs_ok_tab)
  have v: "ValidVersion ''1.0.0''" "int (length (relVersionTarget ''1.0.0'')) < MaxPointerLen" by code_simp+
  have n: "node_at NewMem ?c = None" "node_at NewMem (tmp_of j ?c k) = None" for j k
    by (simp_all add: NewMem_node abs_path_def CurrentName_def tmp_of_def)
  note at = SetPointer_atomic [OF wf_NewMem d _ _ v, of symlinkPointer "fst (SetPointer symlinkPointer ''/'' ''1.0.0'' NewMem)"
      "snd (SetPointer symlinkPointer ''/'' ''1.0.0'' NewMem)" 7]
  show ?thesis
    using at n NewMem_not_hooked by (simp add: root litter_link_def clear_scratch_def)
qed

end
