(* ===== verification/Journal.thy ===== *)
theory Journal
  imports Pointer
begin

text \<open>
  \<open>core/txn/journal.go\<close>: the transaction journal.  Its records, the table of transitions, parsing a
  stored journal, and the durable append.
\<close>

section \<open>States and records\<close>

definition StateBegin :: string where "StateBegin = ''BEGIN''"
definition StateStaged :: string where "StateStaged = ''STAGED''"
definition StateMigrated :: string where "StateMigrated = ''MIGRATED''"
definition StateSwapped :: string where "StateSwapped = ''SWAPPED''"
definition StateCommitted :: string where "StateCommitted = ''COMMITTED''"
definition StateRolledBack :: string where "StateRolledBack = ''ROLLED_BACK''"
definition StateDeferred :: string where "StateDeferred = ''DEFERRED''"
definition StateUninstalling :: string where "StateUninstalling = ''UNINSTALLING''"

lemmas state_names = StateBegin_def StateStaged_def StateMigrated_def StateSwapped_def StateCommitted_def
  StateRolledBack_def StateDeferred_def StateUninstalling_def

definition PhaseCheck :: string where "PhaseCheck = ''check''"
definition PhaseStage :: string where "PhaseStage = ''stage''"
definition PhaseQuiesce :: string where "PhaseQuiesce = ''quiesce''"
definition PhaseMigrate :: string where "PhaseMigrate = ''migrate''"
definition PhaseApply :: string where "PhaseApply = ''apply''"
definition PhaseVerify :: string where "PhaseVerify = ''verify''"
definition PhaseCommit :: string where "PhaseCommit = ''commit''"
definition PhaseGC :: string where "PhaseGC = ''gc''"
definition PhaseRollback :: string where "PhaseRollback = ''rollback''"

record Record =
  State :: string
  Name :: string
  FromVersion :: string
  ToVersion :: string
  Phase :: string

definition JournalSchema :: int where "JournalSchema = 1"
definition MaxRecords :: nat where "MaxRecords = 32"
definition MaxJournalLen :: int where "MaxJournalLen = 65536"

definition allowed :: "string \<Rightarrow> string list option" where
  "allowed = map_of
     [(StateBegin, [StateStaged, StateRolledBack]),
      (StateStaged, [StateMigrated, StateRolledBack, StateDeferred]),
      (StateMigrated, [StateSwapped, StateRolledBack]),
      (StateSwapped, [StateCommitted, StateRolledBack]),
      (StateCommitted, [StateBegin, StateUninstalling]),
      (StateDeferred, [StateMigrated, StateRolledBack, StateBegin, StateUninstalling]),
      (StateRolledBack, [StateBegin, StateUninstalling]),
      (StateUninstalling, [])]"

definition checkTransition :: "Record \<Rightarrow> Record \<Rightarrow> unit result" where
  "checkTransition prev nxt =
     (if State nxt \<in> set (case allowed (State prev) of None \<Rightarrow> [] | Some ss \<Rightarrow> ss) then
        (if State nxt \<noteq> StateBegin \<and>
            (FromVersion nxt \<noteq> FromVersion prev \<or> ToVersion nxt \<noteq> ToVersion prev \<or> Name nxt \<noteq> Name prev)
         then Inl [ErrJournal] else Inr ())
      else Inl [ErrJournal])"

section \<open>The document\<close>

record document =
  doc_schema :: int
  doc_records :: "Record slice"

definition record_zero :: Record where
  "record_zero = \<lparr> State = [], Name = [], FromVersion = [], ToVersion = [], Phase = [] \<rparr>"

definition record_fields :: "string list" where
  "record_fields = [''state'', ''name'', ''from_version'', ''to_version'', ''phase'']"

definition record_json :: "Record \<Rightarrow> json" where
  "record_json r = JObj [(''state'', JStr (State r)), (''name'', JStr (Name r)),
     (''from_version'', JStr (FromVersion r)), (''to_version'', JStr (ToVersion r)), (''phase'', JStr (Phase r))]"

definition put_record :: "string \<Rightarrow> json \<Rightarrow> Record \<Rightarrow> Record result" where
  "put_record n v r =
     (if n = ''state'' then map_sum id (\<lambda>x. r\<lparr>State := x\<rparr>) (dec_string v (State r))
      else if n = ''name'' then map_sum id (\<lambda>x. r\<lparr>Name := x\<rparr>) (dec_string v (Name r))
      else if n = ''from_version'' then map_sum id (\<lambda>x. r\<lparr>FromVersion := x\<rparr>) (dec_string v (FromVersion r))
      else if n = ''to_version'' then map_sum id (\<lambda>x. r\<lparr>ToVersion := x\<rparr>) (dec_string v (ToVersion r))
      else map_sum id (\<lambda>x. r\<lparr>Phase := x\<rparr>) (dec_string v (Phase r)))"

definition document_zero :: document where
  "document_zero = \<lparr> doc_schema = 0, doc_records = ([], 0) \<rparr>"

definition document_fields :: "string list" where
  "document_fields = [''schema_version'', ''records'']"

definition document_json :: "Record list \<Rightarrow> json" where
  "document_json rs = JObj [(''schema_version'', num JournalSchema), (''records'', JArr (map record_json rs))]"

definition put_document :: "string \<Rightarrow> json \<Rightarrow> document \<Rightarrow> document result" where
  "put_document n v d =
     (if n = ''schema_version'' then map_sum id (\<lambda>x. d\<lparr>doc_schema := x\<rparr>) (dec_int v (doc_schema d))
      else map_sum id (\<lambda>x. d\<lparr>doc_records := x\<rparr>)
        (dec_slice (decode_struct record_fields put_record) record_zero v (doc_records d)))"

fun check_history :: "Record list \<Rightarrow> unit result" where
  "check_history (a # b # rs) =
     (case checkTransition a b of Inl e \<Rightarrow> Inl e | Inr _ \<Rightarrow> check_history (b # rs))"
| "check_history _ = Inr ()"

definition parse :: "string \<Rightarrow> Record list result" where
  "parse raw =
     (case decode_doc document_fields put_document document_zero raw of
        Inl e \<Rightarrow> Inl (ErrJournal # e)
      | Inr doc \<Rightarrow>
          let rs = elems (doc_records doc) in
          if doc_schema doc \<noteq> JournalSchema then Inl [ErrJournal]
          else if length rs = 0 then Inl [ErrJournal]
          else if length rs > MaxRecords then Inl [ErrJournal]
          else if State (hd rs) \<noteq> StateBegin \<and> State (hd rs) \<noteq> StateUninstalling then Inl [ErrJournal]
          else (case check_history rs of Inl e \<Rightarrow> Inl e | Inr _ \<Rightarrow> Inr rs))"

section \<open>The journal\<close>

text \<open>The handle: the root it was opened under and the history as far as it is durable.\<close>

record Journal =
  jroot :: string
  records :: "Record list"

definition Open_journal :: "string \<Rightarrow> (mem, Journal) prog" where
  "Open_journal root =
     (if root = [] then throw [ErrJournal]
      else attempt (ReadFile (Journal_path root) MaxJournalLen)
        (\<lambda>e. if IsNotExist e then ret \<lparr> jroot = root, records = [] \<rparr> else throw (ErrJournal # e))
        (\<lambda>raw. case parse raw of
           Inl e \<Rightarrow> throw e
         | Inr rs \<Rightarrow> ret \<lparr> jroot = root, records = rs \<rparr>))"

text \<open>The history after appending a record, or why it is refused; a \<open>BEGIN\<close> opens a new one.\<close>

definition next_history :: "Record list \<Rightarrow> Record \<Rightarrow> Record list result" where
  "next_history recs r =
     (if recs = [] then
        (if State r \<noteq> StateBegin \<and> State r \<noteq> StateUninstalling then Inl [ErrJournal] else Inr [r])
      else (case checkTransition (last recs) r of
          Inl e \<Rightarrow> Inl e
        | Inr _ \<Rightarrow> Inr (if State r = StateBegin then [r] else recs @ [r])))"

definition journal_bytes :: "Record list \<Rightarrow> string" where
  "journal_bytes rs = MarshalIndent (document_json rs) @ [byte 10]"

definition Append :: "Journal \<Rightarrow> Record \<Rightarrow> (mem, Journal) prog" where
  "Append j r =
     (if State r = [] then throw [ErrJournal]
      else if allowed (State r) = None then throw [ErrJournal]
      else if ToVersion r = [] then throw [ErrJournal]
      else if Name r = [] then throw [ErrJournal]
      else (case next_history (records j) r of
          Inl e \<Rightarrow> throw e
        | Inr nxt \<Rightarrow>
            if length nxt > MaxRecords then throw [ErrJournal]
            else bind (wrap ErrJournal (MkdirAll (Meta (jroot j)) DirMode)) (\<lambda>_.
                 bind (wrap ErrJournal (WriteFileAtomic (Journal_path (jroot j)) (journal_bytes nxt) MetaFileMode)) (\<lambda>_.
                 ret (j\<lparr>records := nxt\<rparr>)))))"

definition Last :: "Journal \<Rightarrow> Record option" where
  "Last j = (if records j = [] then None else Some (last (records j)))"

end
