(* ===== verification/JournalLaws.thy ===== *)
theory JournalLaws
  imports Journal
begin

text \<open>
  The journal as a state machine and as a stored document: histories that \<open>Append\<close> can produce are
  exactly those that \<open>parse\<close> accepts, what was appended is read back after a restart, and a failed
  append leaves the old history or the new one.
\<close>

section \<open>Legal histories\<close>

definition legal :: "Record list \<Rightarrow> bool" where
  "legal rs \<longleftrightarrow> rs \<noteq> [] \<and> length rs \<le> MaxRecords \<and>
     (State (hd rs) = StateBegin \<or> State (hd rs) = StateUninstalling) \<and> check_history rs = Inr ()"

definition text_record :: "Record \<Rightarrow> bool" where
  "text_record r \<longleftrightarrow> valid_utf8 (State r) \<and> valid_utf8 (Name r) \<and> valid_utf8 (FromVersion r) \<and>
     valid_utf8 (ToVersion r) \<and> valid_utf8 (Phase r)"

lemma check_history_snoc:
  "xs \<noteq> [] \<Longrightarrow> check_history (xs @ [r]) = Inr () \<longleftrightarrow> check_history xs = Inr () \<and> checkTransition (last xs) r = Inr ()"
proof (induction xs rule: check_history.induct)
  case (1 a b rs)
  then show ?case by (cases "checkTransition a b") (auto split: sum.splits)
qed (auto split: sum.splits)

lemma next_history_legal:
  assumes "recs = [] \<or> legal recs" "next_history recs r = Inr nxt" "length nxt \<le> MaxRecords"
  shows "legal nxt \<and> last nxt = r"
proof (cases "recs = []")
  case True
  then show ?thesis using assms by (auto simp: next_history_def legal_def split: if_splits)
next
  case False
  then have "checkTransition (last recs) r = Inr ()" "nxt = (if State r = StateBegin then [r] else recs @ [r])"
    using assms(2) by (auto simp: next_history_def split: sum.splits)
  then show ?thesis using assms(1,3) False by (auto simp: legal_def check_history_snoc)
qed

section \<open>The stored document\<close>

lemma decode_record: "decode_struct record_fields put_record (record_json r) old = Inr r"
  by (simp add: decode_struct_def record_json_def put_record_def record_fields_def)

lemma dec_records: "dec_elems (decode_struct record_fields put_record) record_zero (map record_json rs) bk = Inr rs"
  by (induction rs arbitrary: bk) (simp_all add: decode_record)

lemma decode_document:
  assumes "rs \<noteq> []"
  shows "decode_struct document_fields put_document (document_json rs) document_zero =
    Inr \<lparr> doc_schema = JournalSchema, doc_records = (rs, length rs) \<rparr>"
proof -
  have "int64 JournalSchema" by (simp add: int64_def JournalSchema_def)
  moreover obtain v vs where "map record_json rs = v # vs" using assms by (cases rs) auto
  then have "dec_slice (decode_struct record_fields put_record) record_zero (JArr (map record_json rs)) ([], 0) = Inr (rs, length rs)"
    using dec_records [of rs "[]"] by (simp add: dec_slice_def)
  ultimately show ?thesis
    by (simp add: decode_struct_def document_json_def put_document_def document_fields_def document_zero_def)
qed

lemma valid_document:
  assumes "\<forall>r\<in>set rs. text_record r"
  shows "valid_json (document_json rs)" "nesting (document_json rs) \<le> maxNestingDepth"
proof -
  have "nesting (JArr (map record_json rs)) \<le> 2"
    by (auto simp: record_json_def image_image intro!: Max.boundedI)
  then show "nesting (document_json rs) \<le> maxNestingDepth" by (auto simp: document_json_def maxNestingDepth_def)
  show "valid_json (document_json rs)"
    using assms by (simp add: document_json_def record_json_def text_record_def ascii_utf8 is_ascii_def)
qed

lemma parse_document:
  assumes "\<forall>r\<in>set rs. text_record r" "rs \<noteq> []" "num_end rest" "\<not> More rest"
  shows "parse (MarshalIndent (document_json rs) @ rest) = (if legal rs then Inr rs else Inl [ErrJournal])"
proof -
  have t: "checkTransition a b = Inl e \<Longrightarrow> e = [ErrJournal]" for a b e
    by (auto simp: checkTransition_def split: if_splits)
  have e: "check_history xs = Inl e \<Longrightarrow> e = [ErrJournal]" for xs e
    by (induction xs rule: check_history.induct) (auto split: sum.splits dest: t)
  have "decode_doc document_fields put_document document_zero (MarshalIndent (document_json rs) @ rest) =
      Inr \<lparr> doc_schema = JournalSchema, doc_records = (rs, length rs) \<rparr>"
    by (rule trans [OF decode_doc_print [OF valid_document [OF assms(1)] assms(3,4)] decode_document [OF assms(2)]])
  then show ?thesis
    using assms(2) e by (auto simp: parse_def Let_def elems_def legal_def split: sum.splits)
qed

lemma parse_legal: "parse raw = Inr rs \<Longrightarrow> legal rs"
  by (auto simp: parse_def Let_def legal_def split: sum.splits if_splits)

text \<open>
  C17.  What the journal reads back.  A journal as \<open>Append\<close> writes it is read back as exactly its
  records if they open with \<open>BEGIN\<close> or \<open>UNINSTALLING\<close> and go by allowed transitions that keep the
  transaction's identity, and refused otherwise; and whatever bytes \<open>parse\<close> accepts, what it
  returns is such a sequence.
\<close>

theorem parse_reads_back:
  assumes "\<forall>r\<in>set rs. text_record r" and "rs \<noteq> []"
  shows "parse (journal_bytes rs) = (if legal rs then Inr rs else Inl [ErrJournal]) \<and>
    (\<forall>raw xs. parse raw = Inr xs \<longrightarrow> legal xs)"
  using parse_document [OF assms newline_end] parse_legal by (simp add: journal_bytes_def)

text \<open>
  Trailing data.  The check that no data follows the document does not see a closing bracket:
  a journal followed by a stray \<open>}\<close> or \<open>]\<close> and then anything at all is read as if it ended there.
\<close>

theorem parse_ignores_trailing_bracket:
  assumes "\<forall>r\<in>set rs. text_record r" and "legal rs"
  shows "parse (journal_bytes rs @ ''}'' @ junk) = Inr rs \<and> parse (journal_bytes rs @ '']'' @ junk) = Inr rs"
proof -
  have ne: "rs \<noteq> []" using assms(2) by (simp add: legal_def)
  have "num_end (byte 10 # CHR ''}'' # junk)" "\<not> More (byte 10 # CHR ''}'' # junk)"
    "num_end (byte 10 # CHR '']'' # junk)" "\<not> More (byte 10 # CHR '']'' # junk)"
    by (simp_all add: num_end_def More_def skip_space_def is_space_def is_digit_def byte_lits)
  then show ?thesis
    using parse_document [OF assms(1) ne] assms(2) by (simp add: journal_bytes_def)
qed

definition sample_begin :: Record where
  "sample_begin = \<lparr> State = StateBegin, Name = ''app'', FromVersion = ''1.0.0'', ToVersion = ''1.1.0'', Phase = PhaseCheck \<rparr>"

lemma sample_begin_ok: "text_record sample_begin \<and> legal [sample_begin]"
  by code_simp

theorem parse_reads_back_witness: "parse (journal_bytes [sample_begin]) = Inr [sample_begin]"
  using parse_reads_back [of "[sample_begin]"] sample_begin_ok by simp

theorem parse_ignores_trailing_bracket_witness: "parse (journal_bytes [sample_begin] @ ''}'' @ ''garbage'') = Inr [sample_begin]"
  using parse_ignores_trailing_bracket [of "[sample_begin]" "''garbage''"] sample_begin_ok by simp

section \<open>The state machine\<close>

text \<open>Records \<open>Append\<close> does not refuse out of hand, and the histories its calls produce.\<close>

definition acceptable :: "Record \<Rightarrow> bool" where
  "acceptable r \<longleftrightarrow> State r \<noteq> [] \<and> allowed (State r) \<noteq> None \<and> ToVersion r \<noteq> [] \<and> Name r \<noteq> []"

inductive appended :: "Record list \<Rightarrow> bool" where
  none: "appended []"
| more: "appended rs \<Longrightarrow> acceptable r \<Longrightarrow> next_history rs r = Inr rs' \<Longrightarrow> length rs' \<le> MaxRecords \<Longrightarrow> appended rs'"

text \<open>How far a transaction has got; every step but a new \<open>BEGIN\<close> takes it further.\<close>

definition progress :: "string \<Rightarrow> nat" where
  "progress s = (case map_of [(StateBegin, 0), (StateStaged, 1), (StateDeferred, 2), (StateMigrated, 3), (StateSwapped, 4),
     (StateCommitted, 5), (StateRolledBack, 5), (StateUninstalling, 6)] s of None \<Rightarrow> 0 | Some n \<Rightarrow> n)"

lemma progress_bound: "progress s \<le> 6"
  by (simp add: progress_def state_names)

lemma transition_progress:
  assumes "checkTransition a b = Inr ()" "State b \<noteq> StateBegin"
  shows "progress (State a) < progress (State b)"
proof -
  have "State b \<in> set (case allowed (State a) of None \<Rightarrow> [] | Some ss \<Rightarrow> ss)"
    using assms by (auto simp: checkTransition_def split: if_splits)
  then show ?thesis using assms(2)
    by (auto simp: allowed_def progress_def state_names split: if_splits)
qed

lemma history_progress:
  "check_history (a # rs) = Inr () \<Longrightarrow> \<forall>r\<in>set rs. State r \<noteq> StateBegin \<Longrightarrow>
     progress (State a) + length rs \<le> progress (State (last (a # rs)))"
proof (induction rs arbitrary: a)
  case (Cons b rs)
  then have "checkTransition a b = Inr ()" "check_history (b # rs) = Inr ()" by (auto split: sum.splits)
  then show ?case using Cons.IH [of b] Cons.prems(2) transition_progress [of a b] by simp
qed simp

lemma history_identity:
  "check_history (a # rs) = Inr () \<Longrightarrow> \<forall>r\<in>set rs. State r \<noteq> StateBegin \<Longrightarrow> r \<in> set rs \<Longrightarrow>
     FromVersion r = FromVersion a \<and> ToVersion r = ToVersion a \<and> Name r = Name a"
proof (induction rs arbitrary: a)
  case (Cons b rs)
  then have "checkTransition a b = Inr ()" "check_history (b # rs) = Inr ()" by (auto split: sum.splits)
  then show ?case using Cons by (auto simp: checkTransition_def split: if_splits)
qed simp

lemma appended_legal: "appended rs \<Longrightarrow> rs = [] \<or> legal rs \<and> (\<forall>r\<in>set (tl rs). State r \<noteq> StateBegin) \<and> (\<forall>r\<in>set rs. acceptable r)"
proof (induction rule: appended.induct)
  case (more rs r rs')
  have "legal rs'" using next_history_legal more by blast
  moreover have "rs' = [r] \<or> rs' = rs @ [r] \<and> State r \<noteq> StateBegin \<and> rs \<noteq> []"
    using more(3) by (auto simp: next_history_def split: if_splits sum.splits)
  ultimately show ?case using more by (cases rs) auto
qed simp

lemma legal_appended:
  "legal rs \<Longrightarrow> \<forall>r\<in>set (tl rs). State r \<noteq> StateBegin \<Longrightarrow> \<forall>r\<in>set rs. acceptable r \<Longrightarrow> appended rs"
proof (induction rs rule: rev_induct)
  case (snoc r rs)
  show ?case
  proof (cases "rs = []")
    case True
    then have "next_history [] r = Inr [r]" using snoc.prems by (auto simp: next_history_def legal_def)
    then show ?thesis using True snoc.prems appended.more [OF appended.none, of r] by (simp add: MaxRecords_def)
  next
    case False
    then have "legal rs" "checkTransition (last rs) r = Inr ()"
      using snoc.prems(1) check_history_snoc [OF False, of r] by (auto simp: legal_def)
    moreover have "State r \<noteq> StateBegin" using snoc.prems(2) False by (cases rs) auto
    ultimately have "next_history rs r = Inr (rs @ [r])" using False by (simp add: next_history_def)
    moreover have "appended rs" using snoc False \<open>legal rs\<close> by (cases rs rule: list.exhaust) auto
    ultimately show ?thesis using appended.more [of rs r "rs @ [r]"] snoc.prems by (simp add: legal_def)
  qed
qed (simp add: legal_def)

lemma appended_split:
  assumes "appended rs"
  obtains "rs = []" | a xs where "rs = a # xs" "check_history (a # xs) = Inr ()" "\<forall>r\<in>set xs. State r \<noteq> StateBegin"
  using appended_legal [OF assms] by (cases rs rule: list.exhaust) (auto simp: legal_def)

lemma appended_bound: "appended rs \<Longrightarrow> length rs \<le> 7"
proof (erule appended_split)
  fix a xs
  assume a: "rs = a # xs" "check_history (a # xs) = Inr ()" "\<forall>r\<in>set xs. State r \<noteq> StateBegin"
  then show "length rs \<le> 7"
    using history_progress [OF a(2,3)] progress_bound [of "State (last (a # xs))"] by simp
qed simp

lemma appended_identity:
  assumes "appended rs" "r \<in> set rs"
  shows "FromVersion r = FromVersion (hd rs) \<and> ToVersion r = ToVersion (hd rs) \<and> Name r = Name (hd rs)"
  using assms(1)
proof (cases rule: appended_split)
  case (2 a xs)
  then show ?thesis using assms(2) history_identity [OF 2(2,3)] by auto
qed (use assms(2) in simp)

text \<open>
  C16.  The journal's state machine.  The histories that appends can produce are exactly the
  sequences of acceptable records that open with \<open>BEGIN\<close> or \<open>UNINSTALLING\<close>, go by allowed
  transitions and hold no later \<open>BEGIN\<close>; such a history names one application and one pair of
  versions throughout, and never has more than seven records, so the ceiling of \<open>MaxRecords\<close> is
  out of reach.
\<close>

theorem appended_characterised:
  "(appended rs \<longleftrightarrow> rs = [] \<or> legal rs \<and> (\<forall>r\<in>set (tl rs). State r \<noteq> StateBegin) \<and> (\<forall>r\<in>set rs. acceptable r)) \<and>
   (appended rs \<longrightarrow> length rs \<le> 7 \<and> (\<forall>r\<in>set rs. FromVersion r = FromVersion (hd rs) \<and>
      ToVersion r = ToVersion (hd rs) \<and> Name r = Name (hd rs)))"
proof (intro conjI impI)
  show "appended rs \<longleftrightarrow> rs = [] \<or> legal rs \<and> (\<forall>r\<in>set (tl rs). State r \<noteq> StateBegin) \<and> (\<forall>r\<in>set rs. acceptable r)"
    using appended_legal legal_appended appended.none by blast
qed (use appended_bound appended_identity in blast)+

theorem appended_characterised_witness: "length [sample_begin] \<le> 7"
proof -
  have "acceptable sample_begin" by code_simp
  then have "appended [sample_begin]" using appended_characterised [THEN conjunct1, of "[sample_begin]"] sample_begin_ok by simp
  then show ?thesis using appended_characterised [THEN conjunct2, THEN mp, of "[sample_begin]"] by blast
qed

text \<open>
  Not every history that \<open>parse\<close> accepts could have been appended: \<open>Append\<close> starts a new
  history at each \<open>BEGIN\<close>, but a stored one with a \<open>BEGIN\<close> in its middle is accepted.
\<close>

theorem parse_accepts_unappendable:
  "\<exists>rs. parse (journal_bytes rs) = Inr rs \<and> \<not> appended rs"
proof -
  let ?b = sample_begin and ?r = "sample_begin\<lparr>State := StateRolledBack\<rparr>"
  have l: "text_record ?r \<and> legal [?b, ?r, ?b]" by code_simp
  then have "parse (journal_bytes [?b, ?r, ?b]) = Inr [?b, ?r, ?b]"
    using parse_document [of "[?b, ?r, ?b]", OF _ _ newline_end] sample_begin_ok by (simp add: journal_bytes_def)
  moreover have "\<not> appended [?b, ?r, ?b]"
  proof
    assume "appended [?b, ?r, ?b]"
    then show False using appended_legal [of "[?b, ?r, ?b]"] by (simp add: sample_begin_def)
  qed
  ultimately show ?thesis by blast
qed

end
