(* ===== verification/Trees.thy ===== *)
theory Trees
  imports JournalLaws
begin

text \<open>
  Subtrees of the node table, as recovery sees them: which keys lie below which, what removing a
  subtree leaves alone, and what clearing the scratch names of a directory can remove.
\<close>

definition in_tree :: "string \<Rightarrow> string \<Rightarrow> bool" where
  "in_tree p q \<longleftrightarrow> q = p \<or> prefix (p @ ''/'') q"

lemma in_tree_self [simp]: "in_tree p p"
  by (simp add: in_tree_def)

lemma in_tree_trans: "in_tree a b \<Longrightarrow> in_tree b c \<Longrightarrow> in_tree a c"
  by (auto simp: in_tree_def dest: prefix_below_trans)

lemma in_tree_comparable: "in_tree a q \<Longrightarrow> in_tree b q \<Longrightarrow> in_tree a b \<or> in_tree b a"
  using below_comparable [of a q b] by (auto simp: in_tree_def)

lemma pruned_in_tree: "pruned p f q = (if in_tree p q then None else f q)"
  by (simp add: pruned_def in_tree_def)

lemma abs_path_snoc2: "ps \<noteq> [] \<Longrightarrow> abs_path (ps @ e # es) = abs_path ps @ slash # join_with ''/'' (e # es)"
  by (simp add: abs_path_def join_with_append)

lemma in_tree_append: "ps \<noteq> [] \<Longrightarrow> in_tree (abs_path ps) (abs_path (ps @ us))"
  by (cases us) (simp_all add: abs_path_snoc2 in_tree_def)

lemma in_tree_abs:
  assumes "simples ps" "simples qs" "ps \<noteq> []"
  shows "in_tree (abs_path ps) (abs_path qs) \<longleftrightarrow> prefix ps qs"
proof
  assume "prefix ps qs"
  then obtain rs where "qs = ps @ rs" by (auto simp: prefix_def)
  then show "in_tree (abs_path ps) (abs_path qs)"
    using abs_path_snoc2 [OF assms(3)] by (cases rs) (auto simp: in_tree_def)
next
  assume t: "in_tree (abs_path ps) (abs_path qs)"
  show "prefix ps qs"
  proof (cases "abs_path qs = abs_path ps")
    case True
    then show ?thesis using abs_path_inj [of qs ps] assms by simp
  next
    case False
    then have "prefix (abs_path ps @ ''/'') (abs_path qs)" using t by (simp add: in_tree_def)
    then have "qs \<noteq> []" by (auto simp: abs_path_def prefix_def)
    then obtain xs e where q: "qs = xs @ [e]" by (cases qs rule: rev_cases) auto
    then obtain i where i: "i \<le> length xs" "abs_path ps = abs_path (take i xs)"
      using in_dir_ancestor [of xs e "abs_path ps"] \<open>prefix (abs_path ps @ ''/'') (abs_path qs)\<close> assms(2) by auto
    have "simples (take i xs)" using assms(2) q by (auto simp: simples_def dest: in_set_takeD)
    then have "ps = take i xs" using i(2) assms(1) abs_path_inj by blast
    then show ?thesis using q i(1) by (metis append_take_drop_id prefixI prefix_append prefix_prefix take_is_prefix)
  qed
qed

text \<open>Two siblings, or two paths that part ways, have no key in common.\<close>

lemma trees_disjoint:
  assumes "simples (ps @ a # as)" "simples (ps @ b # bs)" "a \<noteq> b" "in_tree (abs_path (ps @ a # as)) q"
  shows "\<not> in_tree (abs_path (ps @ b # bs)) q"
proof
  assume b: "in_tree (abs_path (ps @ b # bs)) q"
  have "\<not> in_tree (abs_path (ps @ a # as)) (abs_path (ps @ b # bs))"
    "\<not> in_tree (abs_path (ps @ b # bs)) (abs_path (ps @ a # as))"
    using assms in_tree_abs [OF assms(1,2)] in_tree_abs [OF assms(2,1)] by auto
  then show False using in_tree_comparable [OF assms(4) b] by blast
qed

end
