(* ===== verification/Release.thy ===== *)
theory Release
  imports JsonValue Safepath Semver
begin

text \<open>
  The signed release documents of \<open>core/release\<close>: the descriptor (\<open>descriptor.go\<close>, \<open>parse.go\<close>), the
  release policy (\<open>policy.go\<close>), the channel pointer and the target paths (\<open>channel.go\<close>).
\<close>

section \<open>Numbers of the documents\<close>

text \<open>\<open>strconv.ParseUint(s, 10, 32)\<close> of a number literal, as \<open>encoding/json\<close> applies it to a \<open>uint32\<close>.\<close>

definition dec_uint32 :: "json \<Rightarrow> 32 word \<Rightarrow> 32 word result" where
  "dec_uint32 v old = (case v of
     JNum l \<Rightarrow> (if l \<noteq> [] \<and> list_all is_digit l \<and> num_of l < 2 ^ 32 then Inr (word_of_nat (num_of l)) else Inl [ErrJSON])
   | JNull \<Rightarrow> Inr old | _ \<Rightarrow> Inl [ErrJSON])"

text \<open>
  \<open>strconv.ParseFloat(s, 64)\<close>: the number nearest to the literal, ties to even, or out of range.  The
  exponent stops growing at five digits.
\<close>

definition half_even :: "int \<Rightarrow> int \<Rightarrow> int" where
  "half_even a b =
     (let q = a div b; r = a mod b in
      if 2 * r < b then q else if 2 * r > b then q + 1 else if even q then q else q + 1)"

fun bit_len :: "nat \<Rightarrow> nat" where
  "bit_len n = (if n = 0 then 0 else Suc (bit_len (n div 2)))"

declare bit_len.simps [simp del]

text \<open>A floating-point number: \<open>(m, e)\<close> stands for \<open>m * 2 ^ e\<close>.\<close>

type_synonym float = "int \<times> int"

definition float64 :: "int \<Rightarrow> int \<Rightarrow> float option" where
  "float64 a b =
     (let e0 = int (bit_len (nat \<bar>a\<bar>)) - int (bit_len (nat b)) - 53;
          scale = (\<lambda>e. if e < 0 then (\<bar>a\<bar> * 2 ^ nat (- e), b) else (\<bar>a\<bar>, b * 2 ^ nat e));
          e1 = (case scale e0 of (x, y) \<Rightarrow> if 2 ^ 53 * y \<le> x then e0 + 1 else e0);
          e = max e1 (- 1074);
          m = (case scale e of (x, y) \<Rightarrow> half_even x y) in
      if 0 \<le> e \<and> 2 ^ 1024 \<le> m * 2 ^ nat e then None else Some (if a < 0 then - m else m, e))"

definition float_less_0 :: "float \<Rightarrow> bool" where
  "float_less_0 x \<longleftrightarrow> fst x < 0"

definition float_above_1 :: "float \<Rightarrow> bool" where
  "float_above_1 x \<longleftrightarrow> (case x of (m, e) \<Rightarrow> if e < 0 then m > 2 ^ nat (- e) else m > 1 \<or> m = 1 \<and> e > 0)"

definition exp_value :: "string \<Rightarrow> int" where
  "exp_value ds = foldl (\<lambda>e c. if e < 10000 then e * 10 + int (digit_val c) else e) 0 ds"

definition parse_float :: "string \<Rightarrow> float option" where
  "parse_float l =
     (let neg = prefix ''-'' l; s = (if neg then drop 1 l else l);
          ip = takeWhile is_digit s; s1 = drop (length ip) s;
          fp = (if prefix ''.'' s1 then takeWhile is_digit (drop 1 s1) else []);
          s2 = (if prefix ''.'' s1 then drop (1 + length fp) s1 else s1);
          s3 = drop 1 s2;
          x = (if s2 = [] then 0
               else if prefix ''-'' s3 then - exp_value (drop 1 s3)
               else if prefix ''+'' s3 then exp_value (drop 1 s3) else exp_value s3);
          n = int (num_of (ip @ fp)); k = x - int (length fp); a = (if neg then - n else n) in
      if k < 0 then float64 a (10 ^ nat (- k)) else float64 (a * 10 ^ nat k) 1)"

definition dec_float :: "json \<Rightarrow> float \<Rightarrow> float result" where
  "dec_float v old = (case v of
     JNum l \<Rightarrow> (case parse_float l of Some x \<Rightarrow> Inr x | None \<Rightarrow> Inl [ErrJSON])
   | JNull \<Rightarrow> Inr old | _ \<Rightarrow> Inl [ErrJSON])"

section \<open>The documents\<close>

definition SchemaVersion :: int where "SchemaVersion = 1"
definition LayoutSchema :: int where "LayoutSchema = 1"
definition MaxJSONLen :: int where "MaxJSONLen = 1048576"

definition KindExe :: string where "KindExe = ''exe''"
definition KindLib :: string where "KindLib = ''lib''"
definition KindData :: string where "KindData = ''data''"

record FileRef =
  fr_target :: string
  fr_dst :: string
  fr_mode :: "32 word"
  fr_kind :: string

record Requirements =
  rq_from :: string
  rq_client :: string

record Descriptor =
  ds_schema :: int
  ds_name :: string
  ds_version :: string
  ds_channel :: string
  ds_os :: string
  ds_arch :: string
  ds_files :: "FileRef slice"
  ds_requirements :: Requirements
  ds_rollout :: float
  ds_layout :: int

definition file_zero :: FileRef where
  "file_zero = \<lparr> fr_target = [], fr_dst = [], fr_mode = 0, fr_kind = [] \<rparr>"

definition requirements_zero :: Requirements where
  "requirements_zero = \<lparr> rq_from = [], rq_client = [] \<rparr>"

definition descriptor_zero :: Descriptor where
  "descriptor_zero = \<lparr> ds_schema = 0, ds_name = [], ds_version = [], ds_channel = [], ds_os = [], ds_arch = [],
     ds_files = ([], 0), ds_requirements = requirements_zero, ds_rollout = (0, 0), ds_layout = 0 \<rparr>"

definition descriptorFields :: "string list" where
  "descriptorFields = [''schema_version'', ''name'', ''version'', ''channel'', ''os'', ''arch'', ''files'',
     ''requirements'', ''rollout'', ''layout_schema'']"
definition fileFields :: "string list" where "fileFields = [''target'', ''dst'', ''mode'', ''kind'']"
definition requirementsFields :: "string list" where "requirementsFields = [''min_from_version'', ''min_client_version'']"

definition put_file :: "string \<Rightarrow> json \<Rightarrow> FileRef \<Rightarrow> FileRef result" where
  "put_file n v r =
     (if n = ''target'' then map_sum id (\<lambda>x. r\<lparr>fr_target := x\<rparr>) (dec_string v (fr_target r))
      else if n = ''dst'' then map_sum id (\<lambda>x. r\<lparr>fr_dst := x\<rparr>) (dec_string v (fr_dst r))
      else if n = ''mode'' then map_sum id (\<lambda>x. r\<lparr>fr_mode := x\<rparr>) (dec_uint32 v (fr_mode r))
      else map_sum id (\<lambda>x. r\<lparr>fr_kind := x\<rparr>) (dec_string v (fr_kind r)))"

definition put_requirements :: "string \<Rightarrow> json \<Rightarrow> Requirements \<Rightarrow> Requirements result" where
  "put_requirements n v r =
     (if n = ''min_from_version'' then map_sum id (\<lambda>x. r\<lparr>rq_from := x\<rparr>) (dec_string v (rq_from r))
      else map_sum id (\<lambda>x. r\<lparr>rq_client := x\<rparr>) (dec_string v (rq_client r)))"

definition put_descriptor :: "string \<Rightarrow> json \<Rightarrow> Descriptor \<Rightarrow> Descriptor result" where
  "put_descriptor n v d =
     (if n = ''schema_version'' then map_sum id (\<lambda>x. d\<lparr>ds_schema := x\<rparr>) (dec_int v (ds_schema d))
      else if n = ''name'' then map_sum id (\<lambda>x. d\<lparr>ds_name := x\<rparr>) (dec_string v (ds_name d))
      else if n = ''version'' then map_sum id (\<lambda>x. d\<lparr>ds_version := x\<rparr>) (dec_string v (ds_version d))
      else if n = ''channel'' then map_sum id (\<lambda>x. d\<lparr>ds_channel := x\<rparr>) (dec_string v (ds_channel d))
      else if n = ''os'' then map_sum id (\<lambda>x. d\<lparr>ds_os := x\<rparr>) (dec_string v (ds_os d))
      else if n = ''arch'' then map_sum id (\<lambda>x. d\<lparr>ds_arch := x\<rparr>) (dec_string v (ds_arch d))
      else if n = ''files'' then map_sum id (\<lambda>x. d\<lparr>ds_files := x\<rparr>)
        (dec_slice (decode_struct fileFields put_file) file_zero v (ds_files d))
      else if n = ''requirements'' then map_sum id (\<lambda>x. d\<lparr>ds_requirements := x\<rparr>)
        (decode_struct requirementsFields put_requirements v (ds_requirements d))
      else if n = ''rollout'' then map_sum id (\<lambda>x. d\<lparr>ds_rollout := x\<rparr>) (dec_float v (ds_rollout d))
      else map_sum id (\<lambda>x. d\<lparr>ds_layout := x\<rparr>) (dec_int v (ds_layout d)))"

section \<open>Strict decoding\<close>

text \<open>\<open>json.Unmarshal\<close> takes one value and nothing but blanks after it.\<close>

definition unmarshal_value :: "string \<Rightarrow> json option" where
  "unmarshal_value raw = (case decode_value raw of
     None \<Rightarrow> None | Some (v, rest) \<Rightarrow> if list_all is_space rest then Some v else None)"

text \<open>\<open>checkKeys\<close> of a value: into a map go the members of an object, none from null.\<close>

definition check_keys :: "string list \<Rightarrow> json \<Rightarrow> unit result" where
  "check_keys allowed v = (case v of
     JObj kvs \<Rightarrow> if list_all (\<lambda>(k, _). k \<in> set allowed) kvs then Inr () else Inl [ErrInvalid]
   | JNull \<Rightarrow> Inr ()
   | _ \<Rightarrow> Inl [ErrInvalid, ErrJSON])"

definition checkKeys :: "string \<Rightarrow> string list \<Rightarrow> unit result" where
  "checkKeys raw allowed = (case unmarshal_value raw of
     None \<Rightarrow> Inl [ErrInvalid, ErrJSON] | Some v \<Rightarrow> check_keys allowed v)"

definition decodeStrict :: "string list \<Rightarrow> (string \<Rightarrow> json \<Rightarrow> 'r \<Rightarrow> 'r result) \<Rightarrow> 'r \<Rightarrow> string \<Rightarrow> 'r result" where
  "decodeStrict names put zero raw =
     (if length raw = 0 then Inl [ErrInvalid]
      else if int (length raw) > MaxJSONLen then Inl [ErrInvalid]
      else (case decode_doc names put zero raw of Inl e \<Rightarrow> Inl (ErrInvalid # e) | Inr r \<Rightarrow> Inr r))"

text \<open>The member of an object that a raw field ends up with: the last of its name.\<close>

definition raw_member :: "string \<Rightarrow> json \<Rightarrow> json option" where
  "raw_member k v = (case v of JObj kvs \<Rightarrow> map_of (rev kvs) k | _ \<Rightarrow> None)"

fun check_all :: "string list \<Rightarrow> json list \<Rightarrow> unit result" where
  "check_all allowed [] = Inr ()"
| "check_all allowed (v # vs) = (case check_keys allowed v of Inl e \<Rightarrow> Inl e | Inr _ \<Rightarrow> check_all allowed vs)"

definition checkDescriptorKeys :: "string \<Rightarrow> unit result" where
  "checkDescriptorKeys raw =
     (case checkKeys raw descriptorFields of
        Inl e \<Rightarrow> Inl e
      | Inr _ \<Rightarrow>
          (case unmarshal_value raw of
             None \<Rightarrow> Inl [ErrInvalid, ErrJSON]
           | Some v \<Rightarrow>
               (case (case raw_member ''files'' v of
                        None \<Rightarrow> Inr () | Some JNull \<Rightarrow> Inr ()
                      | Some (JArr vs) \<Rightarrow> check_all fileFields vs
                      | _ \<Rightarrow> Inl [ErrInvalid, ErrJSON]) of
                  Inl e \<Rightarrow> Inl e
                | Inr _ \<Rightarrow>
                    (case raw_member ''requirements'' v of
                       None \<Rightarrow> Inr () | Some JNull \<Rightarrow> Inr ()
                     | Some w \<Rightarrow> check_keys requirementsFields w))))"

section \<open>The descriptor\<close>

definition validateRequirements :: "Requirements \<Rightarrow> unit result" where
  "validateRequirements r =
     (if rq_from r \<noteq> [] \<and> \<not> ValidVersion (rq_from r) then Inl [ErrInvalid]
      else if rq_client r \<noteq> [] \<and> \<not> ValidVersion (rq_client r) then Inl [ErrInvalid]
      else Inr ())"

text \<open>The loop over the files, with the targets and destinations seen so far.\<close>

fun check_files :: "string list \<Rightarrow> string list \<Rightarrow> FileRef list \<Rightarrow> unit result" where
  "check_files seenTarget seenDst [] = Inr ()"
| "check_files seenTarget seenDst (f # fs) =
     (case CleanTarget (fr_target f) of
        Inl e \<Rightarrow> Inl (ErrInvalid # e)
      | Inr target \<Rightarrow>
          if target \<noteq> fr_target f then Inl [ErrInvalid]
          else (case Clean (fr_dst f) of
            Inl e \<Rightarrow> Inl (ErrInvalid # e)
          | Inr dst \<Rightarrow>
              if dst \<noteq> fr_dst f then Inl [ErrInvalid]
              else if fr_kind f \<notin> {KindExe, KindLib, KindData} then Inl [ErrInvalid]
              else if and (fr_mode f) (not 0x1FF) \<noteq> 0 then Inl [ErrInvalid]
              else if fr_target f \<in> set seenTarget then Inl [ErrInvalid]
              else if dst \<in> set seenDst then Inl [ErrInvalid]
              else check_files (fr_target f # seenTarget) (dst # seenDst) fs))"

definition check_descriptor :: "Descriptor \<Rightarrow> unit result" where
  "check_descriptor d =
     (if ds_schema d \<noteq> SchemaVersion then Inl [ErrInvalid]
      else if ds_layout d \<noteq> LayoutSchema then Inl [ErrInvalid]
      else if list_ex (\<lambda>x. x = []) [ds_name d, ds_channel d, ds_os d, ds_arch d] then Inl [ErrInvalid]
      else if \<not> ValidVersion (ds_version d) then Inl [ErrInvalid]
      else if float_less_0 (ds_rollout d) \<or> float_above_1 (ds_rollout d) then Inl [ErrInvalid]
      else (case validateRequirements (ds_requirements d) of
        Inl e \<Rightarrow> Inl e
      | Inr _ \<Rightarrow> if length (elems (ds_files d)) = 0 then Inl [ErrInvalid] else check_files [] [] (elems (ds_files d))))"

definition ParseDescriptor :: "string \<Rightarrow> Descriptor result" where
  "ParseDescriptor raw =
     (case decodeStrict descriptorFields put_descriptor descriptor_zero raw of
        Inl e \<Rightarrow> Inl e
      | Inr d \<Rightarrow> (case checkDescriptorKeys raw of
          Inl e \<Rightarrow> Inl e
        | Inr _ \<Rightarrow> (case check_descriptor d of Inl e \<Rightarrow> Inl e | Inr _ \<Rightarrow> Inr d)))"

section \<open>The channel pointer\<close>

record ChannelPointer =
  cp_schema :: int
  cp_channel :: string
  cp_os :: string
  cp_arch :: string
  cp_version :: string
  cp_descriptor :: string

definition pointer_zero :: ChannelPointer where
  "pointer_zero = \<lparr> cp_schema = 0, cp_channel = [], cp_os = [], cp_arch = [], cp_version = [], cp_descriptor = [] \<rparr>"

definition pointerFields :: "string list" where
  "pointerFields = [''schema_version'', ''channel'', ''os'', ''arch'', ''version'', ''descriptor'']"

definition put_pointer :: "string \<Rightarrow> json \<Rightarrow> ChannelPointer \<Rightarrow> ChannelPointer result" where
  "put_pointer n v p =
     (if n = ''schema_version'' then map_sum id (\<lambda>x. p\<lparr>cp_schema := x\<rparr>) (dec_int v (cp_schema p))
      else if n = ''channel'' then map_sum id (\<lambda>x. p\<lparr>cp_channel := x\<rparr>) (dec_string v (cp_channel p))
      else if n = ''os'' then map_sum id (\<lambda>x. p\<lparr>cp_os := x\<rparr>) (dec_string v (cp_os p))
      else if n = ''arch'' then map_sum id (\<lambda>x. p\<lparr>cp_arch := x\<rparr>) (dec_string v (cp_arch p))
      else if n = ''version'' then map_sum id (\<lambda>x. p\<lparr>cp_version := x\<rparr>) (dec_string v (cp_version p))
      else map_sum id (\<lambda>x. p\<lparr>cp_descriptor := x\<rparr>) (dec_string v (cp_descriptor p)))"

definition check_pointer :: "ChannelPointer \<Rightarrow> unit result" where
  "check_pointer p =
     (if cp_schema p \<noteq> SchemaVersion then Inl [ErrInvalid]
      else if list_ex (\<lambda>x. x = []) [cp_channel p, cp_os p, cp_arch p] then Inl [ErrInvalid]
      else if \<not> ValidVersion (cp_version p) then Inl [ErrInvalid]
      else (case CleanTarget (cp_descriptor p) of
        Inl e \<Rightarrow> Inl (ErrInvalid # e)
      | Inr target \<Rightarrow> if target \<noteq> cp_descriptor p then Inl [ErrInvalid] else Inr ()))"

definition ParsePointer :: "string \<Rightarrow> ChannelPointer result" where
  "ParsePointer raw =
     (case decodeStrict pointerFields put_pointer pointer_zero raw of
        Inl e \<Rightarrow> Inl e
      | Inr p \<Rightarrow> (case checkKeys raw pointerFields of
          Inl e \<Rightarrow> Inl e
        | Inr _ \<Rightarrow> (case check_pointer p of Inl e \<Rightarrow> Inl e | Inr _ \<Rightarrow> Inr p)))"

section \<open>The release policy\<close>

definition MaxProbationAttempts :: int where "MaxProbationAttempts = 20"
definition MaxProbationRestarts :: int where "MaxProbationRestarts = 20"
definition policySuffix :: string where "policySuffix = ''_policy.json''"

record ProbationPolicy =
  pp_attempts :: int
  pp_restarts :: int

record Policy =
  po_schema :: int
  po_name :: string
  po_version :: string
  po_os :: string
  po_arch :: string
  po_probation :: "ProbationPolicy option"

definition policy_zero :: Policy where
  "policy_zero = \<lparr> po_schema = 0, po_name = [], po_version = [], po_os = [], po_arch = [], po_probation = None \<rparr>"

definition probation_policy_zero :: ProbationPolicy where
  "probation_policy_zero = \<lparr> pp_attempts = 0, pp_restarts = 0 \<rparr>"

definition policyFields :: "string list" where
  "policyFields = [''schema_version'', ''name'', ''version'', ''os'', ''arch'', ''probation'']"
definition probationPolicyFields :: "string list" where "probationPolicyFields = [''attempts'', ''restarts'']"

definition put_probation_policy :: "string \<Rightarrow> json \<Rightarrow> ProbationPolicy \<Rightarrow> ProbationPolicy result" where
  "put_probation_policy n v r =
     (if n = ''attempts'' then map_sum id (\<lambda>x. r\<lparr>pp_attempts := x\<rparr>) (dec_int v (pp_attempts r))
      else map_sum id (\<lambda>x. r\<lparr>pp_restarts := x\<rparr>) (dec_int v (pp_restarts r)))"

text \<open>A pointer field: null clears it, anything else is decoded into what it points to.\<close>

definition dec_ptr :: "(json \<Rightarrow> 'a \<Rightarrow> 'a result) \<Rightarrow> 'a \<Rightarrow> json \<Rightarrow> 'a option \<Rightarrow> 'a option result" where
  "dec_ptr dec zero v old =
     (if v = JNull then Inr None else map_sum id Some (dec v (case old of None \<Rightarrow> zero | Some x \<Rightarrow> x)))"

definition put_policy :: "string \<Rightarrow> json \<Rightarrow> Policy \<Rightarrow> Policy result" where
  "put_policy n v p =
     (if n = ''schema_version'' then map_sum id (\<lambda>x. p\<lparr>po_schema := x\<rparr>) (dec_int v (po_schema p))
      else if n = ''name'' then map_sum id (\<lambda>x. p\<lparr>po_name := x\<rparr>) (dec_string v (po_name p))
      else if n = ''version'' then map_sum id (\<lambda>x. p\<lparr>po_version := x\<rparr>) (dec_string v (po_version p))
      else if n = ''os'' then map_sum id (\<lambda>x. p\<lparr>po_os := x\<rparr>) (dec_string v (po_os p))
      else if n = ''arch'' then map_sum id (\<lambda>x. p\<lparr>po_arch := x\<rparr>) (dec_string v (po_arch p))
      else map_sum id (\<lambda>x. p\<lparr>po_probation := x\<rparr>)
        (dec_ptr (decode_struct probationPolicyFields put_probation_policy) probation_policy_zero v (po_probation p)))"

definition check_policy :: "Policy \<Rightarrow> unit result" where
  "check_policy p =
     (if po_schema p \<noteq> SchemaVersion then Inl [ErrInvalid]
      else if list_ex (\<lambda>x. x = []) [po_name p, po_os p, po_arch p] then Inl [ErrInvalid]
      else if \<not> ValidVersion (po_version p) then Inl [ErrInvalid]
      else (case po_probation p of
        None \<Rightarrow> Inr ()
      | Some pp \<Rightarrow>
          if pp_attempts pp < 0 \<or> pp_attempts pp > MaxProbationAttempts then Inl [ErrInvalid]
          else if pp_restarts pp < 0 \<or> pp_restarts pp > MaxProbationRestarts then Inl [ErrInvalid]
          else Inr ()))"

definition ParsePolicy :: "string \<Rightarrow> Policy result" where
  "ParsePolicy raw =
     (case decodeStrict policyFields put_policy policy_zero raw of
        Inl e \<Rightarrow> Inl e
      | Inr p \<Rightarrow> (case checkKeys raw policyFields of
          Inl e \<Rightarrow> Inl e
        | Inr _ \<Rightarrow> (case unmarshal_value raw of
            None \<Rightarrow> Inl [ErrInvalid, ErrJSON]
          | Some v \<Rightarrow>
              (case (case raw_member ''probation'' v of
                       None \<Rightarrow> Inr () | Some JNull \<Rightarrow> Inr () | Some w \<Rightarrow> check_keys probationPolicyFields w) of
                 Inl e \<Rightarrow> Inl e
               | Inr _ \<Rightarrow> (case check_policy p of Inl e \<Rightarrow> Inl e | Inr _ \<Rightarrow> Inr p)))))"

section \<open>Target paths\<close>

definition PointerPath :: "string \<Rightarrow> string \<Rightarrow> string \<Rightarrow> string" where
  "PointerPath channel goos goarch = ''channels/'' @ channel @ ''/'' @ goos @ ''-'' @ goarch @ ''/latest.json''"

definition DescriptorPath :: "string \<Rightarrow> string \<Rightarrow> string \<Rightarrow> string" where
  "DescriptorPath goos goarch version = ''releases/'' @ goos @ ''-'' @ goarch @ ''/'' @ version @ ''.json''"

definition VersionOfDescriptorPath :: "string \<Rightarrow> string \<Rightarrow> string \<Rightarrow> string option" where
  "VersionOfDescriptorPath targetPath goos goarch =
     (let pre = ''releases/'' @ goos @ ''-'' @ goarch @ ''/'' in
      if \<not> prefix pre targetPath then None
      else (case cut_suffix ''.json'' (drop (length pre) targetPath) of
        None \<Rightarrow> None | Some version \<Rightarrow> if ValidVersion version then Some version else None))"

definition PolicyPath :: "string \<Rightarrow> string \<Rightarrow> string \<Rightarrow> string" where
  "PolicyPath goos goarch version = ''releases/'' @ goos @ ''-'' @ goarch @ ''/'' @ version @ policySuffix"

text \<open>\<open>strings.Cut\<close>.\<close>

definition cut :: "char \<Rightarrow> string \<Rightarrow> (string \<times> string) option" where
  "cut c s = (if c \<in> set s then Some (before c s, after c s) else None)"

definition VersionOfPolicyPath :: "string \<Rightarrow> (string \<times> string \<times> string) option" where
  "VersionOfPolicyPath targetPath =
     (case cut_prefix ''releases/'' targetPath of
        None \<Rightarrow> None
      | Some rest \<Rightarrow> (case cut CHR ''/'' rest of
          None \<Rightarrow> None
        | Some (platform, file) \<Rightarrow> (case cut CHR ''-'' platform of
            None \<Rightarrow> None
          | Some (goos, goarch) \<Rightarrow>
              if goos = [] \<or> goarch = [] then None
              else (case cut_suffix policySuffix file of
                None \<Rightarrow> None
              | Some version \<Rightarrow>
                  if \<not> ValidVersion version \<or> PolicyPath goos goarch version \<noteq> targetPath then None
                  else Some (goos, goarch, version)))))"

definition hex_encode :: "string \<Rightarrow> string" where
  "hex_encode bs = concat (map (\<lambda>c. [hex_digit (of_char c div 16), hex_digit (of_char c mod 16)]) bs)"

definition PayloadPath :: "string \<Rightarrow> string \<Rightarrow> string" where
  "PayloadPath major digest = ''payloads/v'' @ major @ ''/'' @ hex_encode digest"

definition payloadOfPath :: "string \<Rightarrow> (string \<times> string) option" where
  "payloadOfPath targetPath =
     (case cut_prefix ''payloads/v'' targetPath of
        None \<Rightarrow> None
      | Some rest \<Rightarrow> (case cut CHR ''/'' rest of
          None \<Rightarrow> None
        | Some (major, digest) \<Rightarrow>
            if major = [] \<or> \<not> list_all is_digit major then None
            else if length digest \<noteq> 64 \<or> \<not> list_all (\<lambda>c. c \<in> set ''0123456789abcdef'') digest then None
            else Some (major, digest)))"

definition PatchPath :: "string \<Rightarrow> string \<Rightarrow> string option" where
  "PatchPath fromPayload toPayload =
     (case payloadOfPath fromPayload of
        None \<Rightarrow> None
      | Some (_, frm) \<Rightarrow> (case payloadOfPath toPayload of
          None \<Rightarrow> None
        | Some (major, to) \<Rightarrow>
            if frm = to then None else Some (''patches/v'' @ major @ ''/'' @ frm @ ''-'' @ to)))"

end
