(* ===== verification/Recover.thy ===== *)
theory Recover
  imports Trees Release
begin

text \<open>
  \<open>core/txn/recover.go\<close>: bringing an installation back to a valid state after a crash or a failed
  step, and finishing a deferred update.  The migrator is the host's code: a parameter that acts on
  the same world.  Where the code returns a result beside an error the model keeps the error.
\<close>

record Context =
  hc_from :: string
  hc_to :: string
  hc_root :: string
  hc_stage :: string

record Migrator =
  Migrate :: "Context \<Rightarrow> (mem, unit) prog"
  Rollback_hook :: "Context \<Rightarrow> (mem, unit) prog"

record Result =
  Recovered :: bool
  Completed :: bool
  Deferred :: bool
  rFrom :: string
  rTo :: string

definition no_result :: Result where
  "no_result = \<lparr> Recovered = False, Completed = False, Deferred = False, rFrom = [], rTo = [] \<rparr>"

text \<open>The record that takes the transaction of \<open>r\<close> to a state.\<close>

definition at_state :: "Record \<Rightarrow> string \<Rightarrow> string \<Rightarrow> Record" where
  "at_state r s ph = \<lparr> State = s, Name = Name r, FromVersion = FromVersion r, ToVersion = ToVersion r, Phase = ph \<rparr>"

section \<open>Litter\<close>

definition scratch_name :: "string \<Rightarrow> bool" where
  "scratch_name n \<longleftrightarrow> contains ''.idunn-'' n \<and> suffix ''.tmp'' n"

definition removeScratch :: "string \<Rightarrow> (mem, unit) prog" where
  "removeScratch dir =
     attempt (ReadDir dir)
       (\<lambda>e. if IsNotExist e then ret () else throw (ErrJournal # e))
       (\<lambda>entries. for_each (filter (\<lambda>e. scratch_name (iname e)) entries)
          (\<lambda>e. wrap ErrJournal (RemoveAll (Join [dir, iname e]))))"

definition cleanOrphans :: "string \<Rightarrow> (mem, unit) prog" where
  "cleanOrphans root =
     bind (wrap ErrJournal (RemoveAll (Staging root))) (\<lambda>_.
       for_each [root, Meta root, Versions root] removeScratch)"

section \<open>Undoing\<close>

definition restorePointer :: "pointerForm \<Rightarrow> string \<Rightarrow> Record \<Rightarrow> (mem, unit) prog" where
  "restorePointer pf root lst =
     (if FromVersion lst = [] then RemovePointer root
      else bind (PointerTarget pf root) (\<lambda>live.
        if live = FromVersion lst then ret ()
        else bind (lift (VersionDir root (FromVersion lst))) (\<lambda>dir.
             bind (wrap ErrJournal (Stat dir)) (\<lambda>_.
             SetPointer pf root (FromVersion lst)))))"

definition rollback :: "pointerForm \<Rightarrow> string \<Rightarrow> Journal \<Rightarrow> Record \<Rightarrow> Migrator option \<Rightarrow> (mem, unit) prog" where
  "rollback pf root j lst mig =
     bind (restorePointer pf root lst) (\<lambda>_.
     bind (case mig of
             None \<Rightarrow> ret ()
           | Some mg \<Rightarrow> wrap ErrJournal (Rollback_hook mg
               \<lparr> hc_from = FromVersion lst, hc_to = ToVersion lst, hc_root = root, hc_stage = Staging root \<rparr>)) (\<lambda>_.
     bind (if ToVersion lst \<noteq> FromVersion lst then
             bind (lift (VersionDir root (ToVersion lst))) (\<lambda>dir. wrap ErrJournal (RemoveAll dir))
           else ret ()) (\<lambda>_.
     bind (Append j (at_state lst StateRolledBack PhaseRollback)) (\<lambda>_.
     cleanOrphans root))))"

section \<open>Finishing\<close>

definition settleCommitted :: "pointerForm \<Rightarrow> string \<Rightarrow> Record \<Rightarrow> (mem, unit) prog" where
  "settleCommitted pf root lst =
     bind (lift (LauncherPendingDir root (ToVersion lst))) (\<lambda>pending.
     let promote = bind (PointerTarget pf root) (\<lambda>live.
           bind (if live = ToVersion lst then wrap ErrJournal (PromoteLauncher root (ToVersion lst)) else ret ()) (\<lambda>_.
           cleanOrphans root)) in
     attempt (Lstat pending) (\<lambda>e. if IsNotExist e then cleanOrphans root else promote) (\<lambda>_. promote))"

definition complete :: "pointerForm \<Rightarrow> string \<Rightarrow> Journal \<Rightarrow> Record \<Rightarrow> (mem, unit) prog" where
  "complete pf root j lst =
     bind (PointerTarget pf root) (\<lambda>live.
     if live \<noteq> ToVersion lst then throw [ErrJournal]
     else bind (if State lst = StateMigrated
                then bind (Append j (at_state lst StateSwapped PhaseApply)) (\<lambda>j'. ret (j', at_state lst StateSwapped PhaseApply))
                else ret (j, lst)) (\<lambda>(j', l').
          bind (WriteInstall root \<lparr> in_schema = 0, in_name = Name l', in_version = ToVersion l', in_layout = LayoutSchema \<rparr>) (\<lambda>_.
          bind (Append j' (at_state l' StateCommitted PhaseCommit)) (\<lambda>_.
          settleCommitted pf root (at_state l' StateCommitted PhaseCommit)))))"

section \<open>Recovery\<close>

definition RecoverResult :: "pointerForm \<Rightarrow> string \<Rightarrow> Migrator option \<Rightarrow> (mem, Result) prog" where
  "RecoverResult pf root mig =
     bind (Open_journal root) (\<lambda>j.
     case Last j of
       None \<Rightarrow> bind (cleanOrphans root) (\<lambda>_. ret no_result)
     | Some lst \<Rightarrow>
         let res = \<lparr> Recovered = True, Completed = False, Deferred = False,
                     rFrom = FromVersion lst, rTo = ToVersion lst \<rparr> in
         if State lst = StateCommitted then bind (settleCommitted pf root lst) (\<lambda>_. ret no_result)
         else if State lst = StateRolledBack then bind (cleanOrphans root) (\<lambda>_. ret no_result)
         else if State lst = StateUninstalling then throw [ErrUninstalling, ErrJournal]
         else if State lst = StateDeferred then ret (res\<lparr>Recovered := False, Deferred := True\<rparr>)
         else if State lst = StateSwapped then
           bind (complete pf root j lst) (\<lambda>_. ret (res\<lparr>Completed := True\<rparr>))
         else if State lst = StateMigrated then
           bind (PointerTarget pf root) (\<lambda>live.
             if live = ToVersion lst then bind (complete pf root j lst) (\<lambda>_. ret (res\<lparr>Completed := True\<rparr>))
             else bind (rollback pf root j lst mig) (\<lambda>_. ret res))
         else if State lst = StateBegin then bind (rollback pf root j lst None) (\<lambda>_. ret res)
         else if State lst = StateStaged then bind (rollback pf root j lst mig) (\<lambda>_. ret res)
         else throw [ErrJournal])"

definition Recover :: "pointerForm \<Rightarrow> string \<Rightarrow> Migrator option \<Rightarrow> (mem, unit) prog" where
  "Recover pf root mig = bind (RecoverResult pf root mig) (\<lambda>_. ret ())"

definition Rollback :: "pointerForm \<Rightarrow> string \<Rightarrow> Migrator option \<Rightarrow> (mem, unit) prog" where
  "Rollback pf root mig =
     bind (Open_journal root) (\<lambda>j.
     case Last j of
       None \<Rightarrow> cleanOrphans root
     | Some lst \<Rightarrow>
         if State lst = StateCommitted then settleCommitted pf root lst
         else if State lst = StateRolledBack then cleanOrphans root
         else if State lst = StateUninstalling then throw [ErrUninstalling, ErrJournal]
         else if State lst = StateBegin then rollback pf root j lst None
         else rollback pf root j lst mig)"

text \<open>
  \<open>ResumeDeferred\<close>; \<open>ctxErr\<close> is what the context says, \<open>swap\<close> the pointer move of the caller, absent
  if the caller passed none.
\<close>

definition ResumeDeferred ::
  "pointerForm \<Rightarrow> error option \<Rightarrow> string \<Rightarrow> Migrator option \<Rightarrow> (string \<Rightarrow> (mem, unit) prog) option \<Rightarrow> (mem, Result) prog" where
  "ResumeDeferred pf ctxErr root mig swap =
     (case swap of
        None \<Rightarrow> throw [ErrJournal]
      | Some sw \<Rightarrow>
          bind (Open_journal root) (\<lambda>j.
          case Last j of
            None \<Rightarrow> ret no_result
          | Some lst \<Rightarrow>
              if State lst \<noteq> StateDeferred then ret no_result
              else (case ctxErr of
                  Some e \<Rightarrow> throw e
                | None \<Rightarrow>
                    bind (case mig of
                            None \<Rightarrow> ret ()
                          | Some mg \<Rightarrow> wrap ErrJournal (Migrate mg
                              \<lparr> hc_from = FromVersion lst, hc_to = ToVersion lst, hc_root = root,
                                hc_stage = Join [Staging root, ToVersion lst] \<rparr>)) (\<lambda>_.
                    bind (Append j (at_state lst StateMigrated PhaseMigrate)) (\<lambda>j1.
                    bind (sw (ToVersion lst)) (\<lambda>_.
                    bind (Append j1 (at_state lst StateSwapped PhaseApply)) (\<lambda>j2.
                    bind (complete pf root j2 (at_state lst StateSwapped PhaseApply)) (\<lambda>_.
                    ret \<lparr> Recovered = True, Completed = True, Deferred = True,
                          rFrom = FromVersion lst, rTo = ToVersion lst \<rparr>))))))))"

end
