(* ===== verification/RecoverLaws.thy ===== *)
theory RecoverLaws
  imports Recover
begin

text \<open>
  Recovery after a crash.  The invariant of an interrupted update says where the pointer may be in
  each state of the journal; recovery keeps it whatever fails, and when nothing fails it ends with
  the old version untouched or the new one complete.
\<close>

section \<open>The update under recovery\<close>

text \<open>
  One update: the pointer form of the build, the elements of the root, the name of the
  application, the versions before and after (none before a first install), and the node table
  whose version trees are to survive.
\<close>

record update =
  u_pf :: pointerForm
  u_root :: "string list"
  u_name :: string
  u_from :: string
  u_to :: string
  u_snap :: "string \<Rightarrow> memNode option"

abbreviation meta_dir :: "update \<Rightarrow> string list" where "meta_dir u \<equiv> u_root u @ [MetaName]"
abbreviation versions_dir :: "update \<Rightarrow> string list" where "versions_dir u \<equiv> u_root u @ [VersionsName]"
abbreviation journal_key :: "update \<Rightarrow> string" where "journal_key u \<equiv> abs_path (meta_dir u @ [JournalName])"
abbreviation state_key :: "update \<Rightarrow> string" where "state_key u \<equiv> abs_path (meta_dir u @ [StateName])"
abbreviation staging_key :: "update \<Rightarrow> string" where "staging_key u \<equiv> abs_path (meta_dir u @ [StagingName])"
abbreviation pending_key :: "update \<Rightarrow> string" where
  "pending_key u \<equiv> abs_path (meta_dir u @ [StagingName, u_to u @ launcherPendingSuffix])"
abbreviation current_key :: "update \<Rightarrow> string" where "current_key u \<equiv> cur (u_root u)"
abbreviation version_key_of :: "update \<Rightarrow> string \<Rightarrow> string" where "version_key_of u v \<equiv> abs_path (versions_dir u @ [v])"

definition good_version :: "string \<Rightarrow> bool" where
  "good_version v \<longleftrightarrow> short_version v \<and> \<not> scratch_name v"

definition good_update :: "update \<Rightarrow> bool" where
  "good_update u \<longleftrightarrow> simples (u_root u) \<and> u_name u \<noteq> [] \<and> valid_utf8 (u_name u) \<and>
     (u_from u = [] \<or> good_version (u_from u)) \<and> good_version (u_to u) \<and> u_from u \<noteq> u_to u \<and>
     6 * (length (u_name u) + length (u_from u) + length (u_to u)) \<le> 8000"

text \<open>
  The tree is an install tree whose scratch names hold only what interrupted writes leave, and the
  update stages no launcher.
\<close>

definition base_ok :: "update \<Rightarrow> (string \<Rightarrow> memNode option) \<Rightarrow> bool" where
  "base_ok u f \<longleftrightarrow> dirs_tab f (meta_dir u) \<and> dirs_tab f (versions_dir u) \<and> wf_tab f \<and>
     plain_file (f (journal_key u)) \<and> plain_file (f (state_key u)) \<and>
     (\<forall>n. f (staging_key u) = Some n \<longrightarrow> isDir n \<and> \<not> isSymlink n) \<and> f (pending_key u) = None \<and>
     (\<forall>i k. plain_file (f (tmp_of i (journal_key u) k)) \<and> plain_file (f (tmp_of i (state_key u) k)) \<and>
        litter_ptr (u_pf u) (f (tmp_of i (current_key u) k)))"

text \<open>The journal on disk is a history of this update, whose last record is in state \<open>s\<close>.\<close>

definition of_update :: "update \<Rightarrow> Record \<Rightarrow> bool" where
  "of_update u r \<longleftrightarrow> Name r = u_name u \<and> FromVersion r = u_from u \<and> ToVersion r = u_to u \<and>
     length (State r) \<le> 12 \<and> length (Phase r) \<le> 16 \<and> text_record r"

definition journal_at :: "update \<Rightarrow> (string \<Rightarrow> memNode option) \<Rightarrow> Record list \<Rightarrow> bool" where
  "journal_at u f recs \<longleftrightarrow> (\<exists>n. f (journal_key u) = Some n \<and> data n = journal_bytes recs) \<and>
     appended recs \<and> recs \<noteq> [] \<and> (\<forall>r\<in>set recs. of_update u r)"

abbreviation points_to :: "update \<Rightarrow> (string \<Rightarrow> memNode option) \<Rightarrow> string \<Rightarrow> bool" where
  "points_to u f v \<equiv> ptr.points (u_pf u) f (u_root u) v"

text \<open>The old version's tree is as it was, and so is the new one's once \<open>current\<close> names it.\<close>

definition trees_ok :: "update \<Rightarrow> (string \<Rightarrow> memNode option) \<Rightarrow> bool" where
  "trees_ok u f \<longleftrightarrow>
     (u_from u \<noteq> [] \<longrightarrow> (\<forall>q. in_tree (version_key_of u (u_from u)) q \<longrightarrow> f q = u_snap u q)) \<and>
     (points_to u f (u_to u) \<longrightarrow> (\<forall>q. in_tree (version_key_of u (u_to u)) q \<longrightarrow> f q = u_snap u q))"

text \<open>\<open>current\<close> names \<open>v\<close>, and the journal holds \<open>recs\<close>.\<close>

definition update_inv :: "update \<Rightarrow> string \<Rightarrow> Record list \<Rightarrow> (string \<Rightarrow> memNode option) \<Rightarrow> bool" where
  "update_inv u v recs f \<longleftrightarrow> good_update u \<and> base_ok u f \<and> trees_ok u f \<and> points_to u f v \<and> journal_at u f recs"

text \<open>Where \<open>current\<close> may point in each state of the journal.\<close>

definition pointer_ok :: "update \<Rightarrow> string \<Rightarrow> string \<Rightarrow> bool" where
  "pointer_ok u s v \<longleftrightarrow>
     (if s = StateMigrated then v = u_from u \<or> v = u_to u
      else if s = StateSwapped \<or> s = StateCommitted then v = u_to u
      else v = u_from u)"

section \<open>Size of the journal\<close>

lemma quote_char_length: "length (quote_char c) \<le> 6"
  by (simp add: quote_char_def u4_def)

lemma quote_body_length: "length (quote_body s) \<le> 6 * length s"
proof (induction s rule: quote_body.induct)
  case (2 c cs)
  let ?n = "rune_len (c # cs)"
  show ?case
  proof (cases "is_ascii c")
    case True
    then show ?thesis using 2(1) quote_char_length [of c] by simp
  next
    case False
    have u: "length (u4 k) = 6" for k by (simp add: u4_def)
    show ?thesis
    proof (cases "?n = 0")
      case True
      then show ?thesis using 2(2) False by (simp add: u)
    next
      case n: False
      have b: "?n \<le> length (c # cs)" by (rule rune_len_bound)
      have "length (case line_sep (c # cs) of Some k \<Rightarrow> u4 k | None \<Rightarrow> take ?n (c # cs)) \<le> 6 * ?n"
        using n b by (auto simp: u split: option.splits)
      moreover have "length (quote_body (drop ?n (c # cs))) \<le> 6 * (length (c # cs) - ?n)"
        using 2(3) [OF False n] by simp
      ultimately show ?thesis using False n b by (simp del: rune_len.simps drop_Suc_Cons take_Suc_Cons)
    qed
  qed
qed simp

lemma quote_length: "length (quote s) \<le> 6 * length s + 2"
  using quote_body_length [of s] by (simp add: quote_def)

lemma record_length:
  assumes "of_update u r" "good_update u"
  shows "length (print_json 2 (record_json r)) \<le> 8400"
proof -
  have "length (quote (State r)) \<le> 74" "length (quote (Phase r)) \<le> 98"
    using assms(1) quote_length [of "State r"] quote_length [of "Phase r"] by (auto simp: of_update_def)
  moreover have "length (quote (Name r)) + length (quote (FromVersion r)) + length (quote (ToVersion r)) \<le> 8006"
    using assms quote_length [of "u_name u"] quote_length [of "u_from u"] quote_length [of "u_to u"]
    by (simp add: of_update_def good_update_def)
  moreover have "length (quote ''state'') + length (quote ''name'') + length (quote ''from_version'') +
      length (quote ''to_version'') + length (quote ''phase'') = 46" by code_simp
  ultimately show ?thesis by (simp add: record_json_def nl_def)
qed

lemma journal_length:
  assumes "good_update u" "appended recs" "\<forall>r\<in>set recs. of_update u r"
  shows "int (length (journal_bytes recs)) \<le> MaxJournalLen"
proof -
  have len: "length recs \<le> 7" using appended_bound [OF assms(2)] by simp
  have cat: "length (concat (map g rs)) \<le> n * length rs" if "\<forall>r\<in>set rs. length (g r) \<le> n" for g :: "Record \<Rightarrow> string" and n rs
    using that by (induction rs) auto
  have k: "length (quote ''schema_version'') + length (quote ''records'') + length (print_json 1 (num JournalSchema)) = 26" by code_simp
  show ?thesis
  proof (cases recs)
    case Nil
    then show ?thesis using k by (simp add: journal_bytes_def MarshalIndent_def document_json_def nl_def MaxJournalLen_def)
  next
    case (Cons r rs)
    let ?g = "\<lambda>r. CHR '','' # nl 2 @ print_json 2 (record_json r)"
    have "length (concat (map ?g rs)) \<le> 8406 * length rs"
      using assms record_length by (intro cat) (auto simp: Cons nl_def)
    moreover have "length (print_json 2 (record_json r)) \<le> 8400" using record_length [of u r] assms Cons by simp
    ultimately show ?thesis
      using k len Cons
      by (simp add: journal_bytes_def MarshalIndent_def document_json_def nl_def MaxJournalLen_def comp_def numeral_2_eq_2)
  qed
qed

section \<open>Frames\<close>

lemma contains_mid: "contains p (a @ p @ b)"
proof (induction a)
  case Nil
  have "prefix p (p @ b)" by simp
  then show ?case by (cases "p @ b") auto
qed simp

lemma scratch_name_suffix: "scratch_name (e @ scratch_suffix i k)"
proof -
  have "contains ''.idunn-'' (e @ ''.idunn-'' @ (show_nat i @ ''-'' @ show_nat k @ ''.tmp''))" by (rule contains_mid)
  moreover have "suffix ''.tmp'' (e @ scratch_suffix i k)" by (simp add: scratch_suffix_def suffix_def)
  ultimately show ?thesis by (simp add: scratch_name_def scratch_suffix_def)
qed

lemma names_not_scratch:
  "\<not> scratch_name CurrentName" "\<not> scratch_name VersionsName" "\<not> scratch_name MetaName" "\<not> scratch_name JournalName"
  "\<not> scratch_name StateName" "\<not> scratch_name StagingName"
  by code_simp+

lemma names_distinct:
  "CurrentName \<noteq> VersionsName" "CurrentName \<noteq> MetaName" "VersionsName \<noteq> MetaName" "JournalName \<noteq> StateName"
  "JournalName \<noteq> StagingName" "StateName \<noteq> StagingName"
  by (simp_all add: layout_names)

text \<open>
  The keys the invariant speaks of while \<open>current\<close> names \<open>v\<close>, journal, state and staging area apart:
  the directories of the install, the pointer, and the version trees in use.
\<close>

definition protected :: "update \<Rightarrow> string \<Rightarrow> string \<Rightarrow> bool" where
  "protected u v q \<longleftrightarrow> (\<exists>i. q = abs_path (take i (meta_dir u)) \<or> q = abs_path (take i (versions_dir u))) \<or>
     q = current_key u \<or> (u_from u \<noteq> [] \<and> in_tree (version_key_of u (u_from u)) q) \<or>
     (v = u_to u \<and> in_tree (version_key_of u (u_to u)) q)"

definition scratch_ok :: "update \<Rightarrow> (string \<Rightarrow> memNode option) \<Rightarrow> bool" where
  "scratch_ok u f \<longleftrightarrow> (\<forall>i k. plain_file (f (tmp_of i (journal_key u) k)) \<and> plain_file (f (tmp_of i (state_key u) k)) \<and>
        litter_ptr (u_pf u) (f (tmp_of i (current_key u) k)))"

lemma inv_frame:
  assumes inv: "update_inv u v recs f" and same: "\<And>q. protected u v q \<Longrightarrow> g q = f q" and wf: "wf_tab g"
    and sc: "scratch_ok u g" and pl: "plain_file (g (state_key u))"
    and stg: "\<And>n. g (staging_key u) = Some n \<Longrightarrow> isDir n \<and> \<not> isSymlink n" "g (pending_key u) = None"
    and jn: "plain_file (g (journal_key u))" "journal_at u g recs'"
  shows "update_inv u v recs' g"
proof -
  have d: "dirs_tab g ds" if "dirs_tab f ds" "\<And>i. protected u v (abs_path (take i ds))" for ds
    using that same by (simp add: dirs_tab_def)
  have "dirs_tab g (meta_dir u)" "dirs_tab g (versions_dir u)"
    using inv by (auto intro!: d simp: update_inv_def base_ok_def protected_def)
  moreover have c: "g (current_key u) = f (current_key u)" by (rule same) (simp add: protected_def)
  then have pt: "points_to u g w = points_to u f w" for w by (rule ptr.points_cong)
  moreover have "trees_ok u g"
    using inv pt same ptr.points_unique [of "u_pf u" f "u_root u" v "u_to u"] unfolding update_inv_def trees_ok_def protected_def by auto
  ultimately show ?thesis
    using inv wf sc pl stg jn by (simp add: update_inv_def base_ok_def scratch_ok_def)
qed

text \<open>Places where litter is cleared: scratch names directly in one of the three directories.\<close>

definition scratch_place :: "update \<Rightarrow> string \<Rightarrow> bool" where
  "scratch_place u p \<longleftrightarrow> (\<exists>ds n. p = abs_path (ds @ [n]) \<and> (ds = u_root u \<or> ds = meta_dir u \<or> ds = versions_dir u) \<and>
     simple n \<and> scratch_name n)"

lemma update_simples:
  assumes "good_update u"
  shows "simples (u_root u)" "simple (u_to u)" "u_from u \<noteq> [] \<Longrightarrow> simple (u_from u)"
    "\<not> scratch_name (u_to u)" "u_from u \<noteq> [] \<Longrightarrow> \<not> scratch_name (u_from u)"
  using assms simple_version by (auto simp: good_update_def good_version_def short_version_def)

lemma simple_pending: "simple e \<Longrightarrow> simple (e @ launcherPendingSuffix)"
  by (auto simp: simple_def launcherPendingSuffix_def append_eq_Cons_conv)

lemma scratch_unprotected:
  assumes g: "good_update u" and p: "scratch_place u p"
  shows "protected u v q \<Longrightarrow> \<not> in_tree p q" "\<not> in_tree p (journal_key u)" "\<not> in_tree p (state_key u)" "\<not> in_tree p (staging_key u)"
    "\<not> in_tree p (pending_key u)"
proof -
  obtain ds n where d: "p = abs_path (ds @ [n])" "ds = u_root u \<or> ds = meta_dir u \<or> ds = versions_dir u" "simple n" "scratch_name n"
    using p by (auto simp: scratch_place_def)
  from d(2) obtain as where a: "ds = u_root u @ as" "as = [] \<or> as = [MetaName] \<or> as = [VersionsName]"
    by (metis append_Nil2)
  have ds: "p = abs_path (u_root u @ as @ [n])" "as = [] \<or> as = [MetaName] \<or> as = [VersionsName]" "simple n" "scratch_name n"
    using d a by simp_all
  note s = update_simples [OF g] and ns = names_not_scratch
  have sd: "simples (u_root u @ as @ [n])" using ds s by auto
  have key: "\<not> in_tree p (abs_path (u_root u @ zs))" if "simples zs" "\<forall>z\<in>set zs. \<not> scratch_name z" for zs
  proof -
    have "\<not> prefix (as @ [n]) zs" using that(2) ds(4) by (auto simp: prefix_def)
    then show ?thesis using in_tree_abs [OF sd, of "u_root u @ zs"] that(1) s(1) ds(1) by simp
  qed
  have anc: "\<not> in_tree p (abs_path (take i (u_root u @ zs)))" if "simples zs" "\<forall>z\<in>set zs. \<not> scratch_name z" for i zs
  proof -
    have "\<not> prefix (u_root u @ as @ [n]) (u_root u @ zs)" using that(2) ds(4) by (auto simp: prefix_def)
    then have "\<not> prefix (u_root u @ as @ [n]) (take i (u_root u @ zs))" using prefix_order.trans take_is_prefix by blast
    moreover have "simples (take i (u_root u @ zs))" using that(1) s(1) by (auto simp: simples_def dest: in_set_takeD)
    ultimately show ?thesis using in_tree_abs [OF sd] ds(1) by simp
  qed
  have tree: "\<not> in_tree p q" if q: "in_tree (version_key_of u v) q" and v: "simple v" "\<not> scratch_name v" for v q
  proof
    assume "in_tree p q"
    moreover have "\<not> in_tree p (version_key_of u v)" using key [of "[VersionsName, v]"] v ns by simp
    ultimately have "in_tree (version_key_of u v) p" using in_tree_comparable [OF q] by blast
    then have "prefix (versions_dir u @ [v]) (u_root u @ as @ [n])" using in_tree_abs [OF _ sd] s(1) v ds(1) by simp
    then show False using ds v names_distinct by auto
  qed
  show "\<not> in_tree p (journal_key u)" "\<not> in_tree p (state_key u)" "\<not> in_tree p (staging_key u)"
    using key [of "[MetaName, x]" for x] ns by simp_all
  have "\<not> scratch_name (u_to u @ launcherPendingSuffix)" by (simp add: scratch_name_def launcherPendingSuffix_def suffix_def)
  then show "\<not> in_tree p (pending_key u)" using key [of "[MetaName, StagingName, u_to u @ launcherPendingSuffix]"] ns s(2) simple_pending by simp
  show "\<not> in_tree p q" if "protected u v q"
    using that anc [of "[MetaName]"] anc [of "[VersionsName]"] key [of "[CurrentName]"] tree s ns
    unfolding protected_def by auto
qed

text \<open>Scratch names of the files of an update are such places.\<close>

lemma scratch_place_tmp:
  assumes "good_update u"
  shows "scratch_place u (tmp_of i (journal_key u) k)" "scratch_place u (tmp_of i (state_key u) k)"
    "scratch_place u (tmp_of i (current_key u) k)"
proof -
  have "scratch_place u (tmp_of i (abs_path (ds @ [e])) k)" if "ds = u_root u \<or> ds = meta_dir u" "simple e" for ds e
    using that simple_scratch [of e i k] scratch_name_suffix [of e i k]
    unfolding scratch_place_def tmp_of_def abs_path_snoc by blast
  from this [of "meta_dir u" JournalName] this [of "meta_dir u" StateName] this [of "u_root u" CurrentName]
  show "scratch_place u (tmp_of i (journal_key u) k)" "scratch_place u (tmp_of i (state_key u) k)"
    "scratch_place u (tmp_of i (current_key u) k)" by simp_all
qed

lemma tmp_names_distinct:
  assumes "good_update u"
  shows "tmp_of i (journal_key u) k \<noteq> tmp_of i' (state_key u) k'" "tmp_of i (journal_key u) k \<noteq> tmp_of i' (current_key u) k'"
    "tmp_of i (state_key u) k \<noteq> tmp_of i' (current_key u) k'"
proof -
  have s: "simples (u_root u)" using update_simples [OF assms] by simp
  have "abs_path (meta_dir u @ [a]) \<noteq> abs_path (meta_dir u @ [b])" if "a \<noteq> b" "simple a" "simple b" for a b
    using that s abs_path_inj [of "meta_dir u @ [a]" "meta_dir u @ [b]"] by auto
  moreover have "JournalName @ x \<noteq> StateName @ y" for x y by (simp add: layout_names)
  ultimately show "tmp_of i (journal_key u) k \<noteq> tmp_of i' (state_key u) k'"
    unfolding tmp_of_def abs_path_snoc using simple_scratch by simp
  have "abs_path (meta_dir u @ [a]) \<noteq> abs_path (u_root u @ [b])" if "simple a" "simple b" for a b
    using that s abs_path_inj [of "meta_dir u @ [a]" "u_root u @ [b]"] by auto
  then show "tmp_of i (journal_key u) k \<noteq> tmp_of i' (current_key u) k'" "tmp_of i (state_key u) k \<noteq> tmp_of i' (current_key u) k'"
    unfolding tmp_of_def abs_path_snoc using simple_scratch by simp_all
qed

lemma meta_names_unprotected:
  assumes g: "good_update u" and e: "simple e"
  shows "\<not> protected u v (abs_path (meta_dir u @ [e]))"
proof
  assume p: "protected u v (abs_path (meta_dir u @ [e]))"
  note s = update_simples [OF g]
  have sm: "simples (meta_dir u @ [e])" using s e by simp
  have tk: "abs_path (meta_dir u @ [e]) \<noteq> abs_path (take i ds)" if "ds = meta_dir u \<or> ds = versions_dir u" for i ds
  proof
    assume "abs_path (meta_dir u @ [e]) = abs_path (take i ds)"
    moreover have "simples ds" using that s(1) by auto
    then have "simples (take i ds)" by (meson in_set_takeD simples_def)
    ultimately have "meta_dir u @ [e] = take i ds" using sm abs_path_inj by blast
    then have "length (meta_dir u @ [e]) \<le> length ds" by (metis length_take min.cobounded1)
    then show False using that by auto
  qed
  have "\<not> in_tree (version_key_of u v) (abs_path (meta_dir u @ [e]))" if "simple v" for v
    using in_tree_abs [of "versions_dir u @ [v]" "meta_dir u @ [e]"] s that sm names_distinct by auto
  moreover have "abs_path (meta_dir u @ [e]) \<noteq> current_key u" using abs_path_inj [of "meta_dir u @ [e]" "u_root u @ [CurrentName]"] sm s by auto
  ultimately show False using p tk s unfolding protected_def by blast
qed

lemma meta_keys_distinct:
  assumes "good_update u"
  shows "journal_key u \<noteq> state_key u" "journal_key u \<noteq> staging_key u" "state_key u \<noteq> staging_key u"
    "journal_key u \<noteq> pending_key u" "state_key u \<noteq> pending_key u"
proof -
  note s = update_simples [OF assms]
  have "abs_path (meta_dir u @ [a]) = abs_path (meta_dir u @ [b]) \<longleftrightarrow> a = b" if "simple a" "simple b" for a b
    using that s abs_path_inj [of "meta_dir u @ [a]" "meta_dir u @ [b]"] by auto
  then show "journal_key u \<noteq> state_key u" "journal_key u \<noteq> staging_key u" "state_key u \<noteq> staging_key u"
    using names_distinct by simp_all
  have "abs_path (meta_dir u @ [a]) \<noteq> pending_key u" if "simple a" for a
    using that s simple_pending [OF s(2)] abs_path_inj [of "meta_dir u @ [a]" "meta_dir u @ [StagingName, u_to u @ launcherPendingSuffix]"] by auto
  then show "journal_key u \<noteq> pending_key u" "state_key u \<noteq> pending_key u" by simp_all
qed


section \<open>Steps that keep the invariant\<close>

lemma inv_parts:
  assumes "update_inv u v recs f"
  shows "good_update u" "dirs_tab f (meta_dir u)" "dirs_tab f (versions_dir u)" "dirs_tab f (u_root u)" "wf_tab f"
    "points_to u f v" "journal_at u f recs" "scratch_ok u f" "plain_file (f (journal_key u))" "plain_file (f (state_key u))"
    "f (pending_key u) = None"
proof -
  have d: "dirs_tab f (meta_dir u)" using assms by (simp add: update_inv_def base_ok_def)
  have "\<exists>n. f (abs_path (take i (u_root u))) = Some n \<and> isDir n \<and> \<not> isSymlink n" if "i \<le> length (u_root u)" for i
    using d that unfolding dirs_tab_def by (auto dest!: spec [of _ i])
  then show "dirs_tab f (u_root u)" using d by (simp add: dirs_tab_def)
qed (use assms in \<open>auto simp: update_inv_def base_ok_def scratch_ok_def\<close>)

lemma inv_pruned:
  assumes inv: "update_inv u v recs f" and other: "\<And>q. protected u v q \<Longrightarrow> \<not> in_tree p q"
    and j: "\<not> in_tree p (journal_key u)" 
  shows "update_inv u v recs (pruned p f)"
proof (rule inv_frame [OF inv])
  show "pruned p f q = f q" if "protected u v q" for q using other [OF that] by (simp add: pruned_in_tree)
  show "wf_tab (pruned p f)" using inv_parts [OF inv] wf_tab_pruned by blast
  show "scratch_ok u (pruned p f)" using inv_parts(8) [OF inv] ptr.litter_None by (auto simp: scratch_ok_def pruned_in_tree)
  show "journal_at u (pruned p f) recs" using inv_parts(7) [OF inv] j by (simp add: journal_at_def pruned_in_tree)
qed (use inv inv_parts [OF inv] in \<open>auto simp: pruned_in_tree update_inv_def base_ok_def split: if_splits\<close>)

text \<open>What a write may leave at a scratch name.\<close>

definition tmp_key :: "update \<Rightarrow> string \<Rightarrow> memNode option \<Rightarrow> bool" where
  "tmp_key u p t \<longleftrightarrow> (\<exists>i k. (p = tmp_of i (journal_key u) k \<or> p = tmp_of i (state_key u) k) \<and> plain_file t \<or>
     p = tmp_of i (current_key u) k \<and> litter_ptr (u_pf u) t)"

lemma inv_tmp:
  assumes inv: "update_inv u v recs f" and t: "tmp_key u p t"
  shows "update_inv u v recs (f(p := t))"
proof -
  note i = inv_parts [OF inv]
  have p: "scratch_place u p" using t scratch_place_tmp [OF i(1)] by (auto simp: tmp_key_def)
  note n = scratch_unprotected [OF i(1) p]
  have o: "(f(p := t)) q = f q" if "\<not> in_tree p q" for q using that by auto
  have sc: "scratch_ok u (f(p := t))"
    using t i(8) tmp_names_distinct [OF i(1)] tmp_names_distinct [OF i(1), THEN not_sym] by (auto simp: tmp_key_def scratch_ok_def)
  have nd: "\<not> isDir x" if "f p = Some x" for x
    using t i(8) that ptr.litter_file unfolding tmp_key_def scratch_ok_def plain_file_def by metis
  obtain ds e where d: "p = abs_path (ds @ [e])" "ds = u_root u \<or> ds = meta_dir u \<or> ds = versions_dir u" "simple e"
    using p by (auto simp: scratch_place_def)
  have "wf_tab (f(p := t))"
    using d i(2-4) by (intro wf_tab_file [OF i(5) _ d(3,1) nd]) auto
  moreover have "journal_at u (f(p := t)) recs" using i(7) o [OF n(2)] by (simp add: journal_at_def)
  ultimately show ?thesis
    using sc o n i inv by (intro inv_frame [OF inv]) (auto simp: update_inv_def base_ok_def)
qed

lemma inv_state:
  assumes inv: "update_inv u v recs f" and n: "plain_file (Some n)"
  shows "update_inv u v recs (f(state_key u \<mapsto> n))"
proof -
  note i = inv_parts [OF inv] and k = meta_keys_distinct [OF inv_parts(1) [OF inv]]
  note un = scratch_unprotected [OF i(1)] scratch_place_tmp [OF i(1)]
  have o: "(f(state_key u \<mapsto> n)) q = f q" if "protected u v q" for q
    using meta_names_unprotected [OF i(1), of StateName v] that by auto
  have "tmp_of j (journal_key u) l \<noteq> state_key u" "tmp_of j (state_key u) l \<noteq> state_key u" "tmp_of j (current_key u) l \<noteq> state_key u" for j l
    using un by (metis in_tree_self)+
  then have sc: "scratch_ok u (f(state_key u \<mapsto> n))" using i(8) by (simp add: scratch_ok_def)
  have "wf_tab (f(state_key u \<mapsto> n))"
    using i(10) by (intro wf_tab_file [OF i(5,2) _ refl]) (auto simp: plain_file_def)
  moreover have "journal_at u (f(state_key u \<mapsto> n)) recs" using i(7) k by (simp add: journal_at_def)
  ultimately show ?thesis
    using o sc i k n inv by (intro inv_frame [OF inv]) (auto simp: update_inv_def base_ok_def)
qed

lemma inv_journal:
  assumes inv: "update_inv u v recs f" and n: "plain_file (Some n)" "data n = journal_bytes recs'"
    and r: "appended recs'" "recs' \<noteq> []" "\<forall>r\<in>set recs'. of_update u r"
  shows "update_inv u v recs' (f(journal_key u \<mapsto> n))"
proof -
  note i = inv_parts [OF inv] and k = meta_keys_distinct [OF inv_parts(1) [OF inv]]
  note un = scratch_unprotected [OF i(1)] scratch_place_tmp [OF i(1)]
  have o: "(f(journal_key u \<mapsto> n)) q = f q" if "protected u v q" for q
    using meta_names_unprotected [OF i(1), of JournalName v] that by auto
  have "tmp_of j (journal_key u) l \<noteq> journal_key u" "tmp_of j (state_key u) l \<noteq> journal_key u" "tmp_of j (current_key u) l \<noteq> journal_key u" for j l
    using un by (metis in_tree_self)+
  then have sc: "scratch_ok u (f(journal_key u \<mapsto> n))" using i(8) by (simp add: scratch_ok_def)
  have "wf_tab (f(journal_key u \<mapsto> n))"
    using i(9) by (intro wf_tab_file [OF i(5,2) _ refl]) (auto simp: plain_file_def)
  moreover have "journal_at u (f(journal_key u \<mapsto> n)) recs'" using n r by (simp add: journal_at_def)
  ultimately show ?thesis
    using o sc i k n inv by (intro inv_frame [OF inv]) (auto simp: update_inv_def base_ok_def)
qed

text \<open>
  \<open>kept C\<close>: the world holds some table in which \<open>current\<close> names \<open>v\<close> and the journal holds \<open>recs\<close>, and which has \<open>C\<close>.
\<close>

definition kept :: "((string \<Rightarrow> memNode option) \<Rightarrow> bool) \<Rightarrow> mem \<Rightarrow> update \<Rightarrow> string \<Rightarrow> Record list \<Rightarrow> mem \<Rightarrow> bool" where
  "kept C m0 u v recs m \<longleftrightarrow> (\<exists>f. update_inv u v recs f \<and> C f \<and> tab m0 f m)"

lemma triple_kept:
  assumes "\<And>f. update_inv u v recs f \<Longrightarrow> C f \<Longrightarrow> triple (tab m0 f) p Q E"
  shows "triple (kept C m0 u v recs) p Q E"
  by (rule tripleI) (use assms in \<open>auto simp: kept_def dest: triple_Inr triple_Inl\<close>)

lemma keptI: "update_inv u v recs f \<Longrightarrow> C f \<Longrightarrow> tab m0 f m \<Longrightarrow> kept C m0 u v recs m"
  by (auto simp: kept_def)

lemma kept_mono: "kept C m0 u v recs m \<Longrightarrow> (\<And>f. C f \<Longrightarrow> D f) \<Longrightarrow> kept D m0 u v recs m"
  by (auto simp: kept_def)

text \<open>
  What an update relies on of the host: its code may change the disk, but keeps its hands off the install tree, that is
  off the directories above it, the pointer, and what lies below \<open>versions\<close> and \<open>.updater\<close>.
\<close>

definition near :: "string list \<Rightarrow> string \<Rightarrow> bool" where
  "near rs q \<longleftrightarrow> (\<exists>i. q = abs_path (take i rs)) \<or>
     (\<exists>e. (e \<in> {CurrentName, VersionsName, MetaName} \<or> scratch_name e) \<and> in_tree (abs_path (rs @ [e])) q)"

definition besides :: "mem \<Rightarrow> string list \<Rightarrow> (string \<Rightarrow> memNode option) \<Rightarrow> mem \<Rightarrow> bool" where
  "besides m0 rs f m \<longleftrightarrow> (\<exists>g. tab m0 g m \<and> (wf_tab f \<longrightarrow> wf_tab g) \<and> (\<forall>q. near rs q \<longrightarrow> g q = f q))"

text \<open>
  \<open>sturdy u C\<close>: \<open>C\<close> is about the install tree, and says nothing about the files in its metadata directory;
  \<open>frail C\<close>: removing things does not make it false.
\<close>

definition sturdy :: "update \<Rightarrow> ((string \<Rightarrow> memNode option) \<Rightarrow> bool) \<Rightarrow> bool" where
  "sturdy u C \<longleftrightarrow>
     (\<forall>f e t. C f \<and> wf_tab f \<and> dirs_tab f (meta_dir u) \<and> simple e \<and> e \<noteq> StagingName \<and> plain_file t \<and>
        plain_file (f (abs_path (meta_dir u @ [e]))) \<longrightarrow> C (f(abs_path (meta_dir u @ [e]) := t))) \<and>
     (\<forall>f g. C f \<longrightarrow> (wf_tab f \<longrightarrow> wf_tab g) \<longrightarrow> (\<forall>q. near (u_root u) q \<longrightarrow> g q = f q) \<longrightarrow> C g)"

definition frail :: "((string \<Rightarrow> memNode option) \<Rightarrow> bool) \<Rightarrow> bool" where
  "frail C \<longleftrightarrow> (\<forall>f p. C f \<longrightarrow> C (pruned p f))"

lemma frailD: "frail C \<Longrightarrow> C f \<Longrightarrow> C (pruned p f)"
  by (simp add: frail_def)

text \<open>The staging area is gone.\<close>

definition swept :: "update \<Rightarrow> (string \<Rightarrow> memNode option) \<Rightarrow> bool" where
  "swept u f \<longleftrightarrow> (\<forall>q. in_tree (staging_key u) q \<longrightarrow> f q = None)"

abbreviation tidy :: "((string \<Rightarrow> memNode option) \<Rightarrow> bool) \<Rightarrow> update \<Rightarrow> (string \<Rightarrow> memNode option) \<Rightarrow> bool" where
  "tidy C u \<equiv> \<lambda>f. C f \<and> swept u f"

lemma swept_pruned: "swept u f \<Longrightarrow> swept u (pruned p f)"
  by (auto simp: swept_def pruned_in_tree)

lemma anything [simp]: "sturdy u (\<lambda>_. True)" "frail (\<lambda>_. True)"
  by (simp_all add: sturdy_def frail_def)

text \<open>The invariant looks only at keys near the root.\<close>

lemma near_below: "e \<in> {CurrentName, VersionsName, MetaName} \<or> scratch_name e \<Longrightarrow> near rs (abs_path (rs @ e # es))"
  using in_tree_append [of "rs @ [e]" es] by (auto simp: near_def)

lemma near_keys:
  assumes g: "good_update u"
  shows "protected u v q \<Longrightarrow> near (u_root u) q" "scratch_place u q \<Longrightarrow> near (u_root u) q"
    "near (u_root u) (journal_key u)" "near (u_root u) (state_key u)" "near (u_root u) (staging_key u)" "near (u_root u) (pending_key u)"
proof -
  show "near (u_root u) (journal_key u)" "near (u_root u) (state_key u)" "near (u_root u) (staging_key u)" "near (u_root u) (pending_key u)"
    using near_below [of MetaName] by simp_all
  have tk: "near (u_root u) (abs_path (take i (u_root u @ [e])))" if "e \<in> {CurrentName, VersionsName, MetaName}" for i e
  proof (cases "i \<le> length (u_root u)")
    case True
    then show ?thesis by (auto simp: near_def)
  next
    case False
    then show ?thesis using near_below [of e "u_root u" "[]"] that by auto
  qed
  have tr: "near (u_root u) q" if "in_tree (version_key_of u w) q" for w q
  proof -
    have "in_tree (abs_path (versions_dir u)) q" by (rule in_tree_trans [OF in_tree_append that]) simp
    then show ?thesis unfolding near_def by blast
  qed
  show "near (u_root u) q" if "protected u v q"
    using that tk [of MetaName] tk [of VersionsName] tr near_below [of CurrentName "u_root u" "[]"] unfolding protected_def by auto
  show "near (u_root u) q" if "scratch_place u q"
  proof -
    obtain ds n where d: "q = abs_path (ds @ [n])" "ds = u_root u \<or> ds = meta_dir u \<or> ds = versions_dir u" "scratch_name n"
      using \<open>scratch_place u q\<close> unfolding scratch_place_def by blast
    then show ?thesis
      using near_below [of n "u_root u" "[]"] near_below [of MetaName "u_root u" "[n]"] near_below [of VersionsName "u_root u" "[n]"] by auto
  qed
qed

lemma inv_cong:
  assumes inv: "update_inv u v recs f" and wf: "wf_tab f \<longrightarrow> wf_tab g" and eq: "\<And>q. near (u_root u) q \<Longrightarrow> g q = f q"
  shows "update_inv u v recs g"
proof -
  note p = inv_parts [OF inv] and t = scratch_place_tmp [OF inv_parts(1) [OF inv]]
  note n = near_keys [OF p(1), THEN eq]
  have stg: "isDir x \<and> \<not> isSymlink x" if "f (staging_key u) = Some x" for x using inv that by (simp add: update_inv_def base_ok_def)
  show ?thesis
  proof (rule inv_frame [OF inv])
    show "g q = f q" if "protected u v q" for q by (rule n(1) [OF that])
    show "scratch_ok u g" using p(8) t n(2) by (simp only: scratch_ok_def simp_thms)
    show "journal_at u g recs" using p(7) unfolding journal_at_def n(3) .
    show "wf_tab g" using p(5) wf by blast
    show "plain_file (g (state_key u))" using p(10) by (simp only: n(4))
    show "plain_file (g (journal_key u))" using p(9) by (simp only: n(3))
    show "g (pending_key u) = None" using p(11) by (simp only: n(6))
    show "isDir x \<and> \<not> isSymlink x" if "g (staging_key u) = Some x" for x using stg [of x] that unfolding n(5) by blast
  qed
qed

lemma besides_kept:
  assumes "besides m0 (u_root u) f m" "update_inv u v recs f" "sturdy u C" "C f"
  shows "kept C m0 u v recs m"
proof -
  obtain g where g: "tab m0 g m" "wf_tab f \<longrightarrow> wf_tab g" "\<forall>q. near (u_root u) q \<longrightarrow> g q = f q"
    using assms(1) by (auto simp: besides_def)
  have "update_inv u v recs g" by (rule inv_cong [OF assms(2) g(2)]) (use g(3) in blast)
  moreover have "C g" using assms(3,4) g(2,3) unfolding sturdy_def by blast
  ultimately show ?thesis using g(1) by (rule keptI)
qed

lemma root_path: "good_update u \<Longrightarrow> simples (u_root u)"
  by (simp add: good_update_def)

subsection \<open>Writing documents\<close>

lemma sturdy_tmp:
  assumes "sturdy u C" "C f" "update_inv u v recs f" "plain_file t"
  shows "C (f(tmp_of i (journal_key u) k := t))" "C (f(tmp_of i (state_key u) k := t))"
proof -
  note p = inv_parts [OF assms(3)]
  have "C (f(tmp_of i (abs_path (meta_dir u @ [e])) k := t))"
    if e: "simple e" "plain_file (f (tmp_of i (abs_path (meta_dir u @ [e])) k))" for e
  proof -
    have "e @ scratch_suffix i k \<noteq> StagingName" using scratch_name_suffix [of e i k] names_not_scratch(6) by metis
    moreover have "simple (e @ scratch_suffix i k)" by (rule simple_scratch [OF e(1)])
    ultimately show ?thesis
      using e(2) assms(1,2,4) p(2,5) unfolding tmp_of_def abs_path_snoc sturdy_def by blast
  qed
  from this [of JournalName] this [of StateName] show
    "C (f(tmp_of i (journal_key u) k := t))" "C (f(tmp_of i (state_key u) k := t))"
    using p(8) by (simp_all add: scratch_ok_def)
qed

lemma sturdy_doc:
  assumes "sturdy u C" "C f" "update_inv u v recs f" "plain_file t"
  shows "C (f(journal_key u := t))" "C (f(state_key u := t))"
proof -
  note p = inv_parts [OF assms(3)]
  have "C (f(abs_path (meta_dir u @ [e]) := t))" if "simple e" "e \<noteq> StagingName" "plain_file (f (abs_path (meta_dir u @ [e])))" for e
    using that assms(1,2,4) p(2,5) by (simp add: sturdy_def)
  from this [of JournalName] this [of StateName] show "C (f(journal_key u := t))" "C (f(state_key u := t))"
    using p(9,10) names_distinct(5,6) by simp_all
qed

text \<open>Of a document that was written, or not, the journal may say more afterwards.\<close>

lemma written_journal_kept:
  assumes "update_inv u v recs f" "written m0 f (journal_key u) n m" "plain_file (Some n)" "data n = journal_bytes recs'"
    "appended recs'" "recs' \<noteq> []" "\<forall>r\<in>set recs'. of_update u r" and C: "sturdy u C" "C f"
  shows "kept C m0 u v recs' m"
proof -
  obtain k where k: "tab m0 (f(tmp_of (pid m0) (journal_key u) k := None, journal_key u \<mapsto> n)) m"
    using assms(2) by (auto simp: written_def)
  have "tmp_key u (tmp_of (pid m0) (journal_key u) k) None" by (auto simp: tmp_key_def)
  note i = inv_tmp [OF assms(1) this]
  have "C (f(tmp_of (pid m0) (journal_key u) k := None))" by (rule sturdy_tmp(1) [OF C assms(1)]) simp
  from sturdy_doc(1) [OF C(1) this i assms(3)] inv_journal [OF i assms(3-7)] show ?thesis using k by (blast intro: keptI)
qed

lemma written_state_kept:
  assumes "update_inv u v recs f" "written m0 f (state_key u) n m" "plain_file (Some n)" and C: "sturdy u C" "C f"
  shows "kept C m0 u v recs m"
proof -
  obtain k where k: "tab m0 (f(tmp_of (pid m0) (state_key u) k := None, state_key u \<mapsto> n)) m"
    using assms(2) by (auto simp: written_def)
  have "tmp_key u (tmp_of (pid m0) (state_key u) k) None" by (auto simp: tmp_key_def)
  note i = inv_tmp [OF assms(1) this]
  have "C (f(tmp_of (pid m0) (state_key u) k := None))" by (rule sturdy_tmp(2) [OF C assms(1)]) simp
  from sturdy_doc(2) [OF C(1) this i assms(3)] inv_state [OF i assms(3)] show ?thesis using k by (blast intro: keptI)
qed

lemma unwritten_kept:
  assumes "update_inv u v recs f" "unwritten m0 f (state_key u) m \<or> unwritten m0 f (journal_key u) m" and C: "sturdy u C" "C f"
  shows "kept C m0 u v recs m"
proof -
  obtain x k t where k: "tab m0 (f(tmp_of (pid m0) x k := t)) m" "plain_file t" "x = journal_key u \<or> x = state_key u"
    using assms(2) unfolding unwritten_def by blast
  then have "tmp_key u (tmp_of (pid m0) x k) t" by (auto simp: tmp_key_def)
  from inv_tmp [OF assms(1) this] k show ?thesis using sturdy_tmp [OF C assms(1)] by (blast intro: keptI)
qed

subsection \<open>The journal\<close>

lemma parse_kept: "journal_at u f recs \<Longrightarrow> parse (journal_bytes recs) = Inr recs"
  using parse_document [of recs, OF _ _ newline_end] appended_legal [of recs]
  by (auto simp: journal_at_def journal_bytes_def of_update_def)

lemma Open_plain:
  assumes h: "honest m0" and inv: "update_inv u v recs f"
  shows "triple (tab m0 f) (Open_journal (abs_path (u_root u)))
    (\<lambda>j m. tab m0 f m \<and> j = \<lparr> jroot = abs_path (u_root u), records = recs \<rparr>) (\<lambda>_ m. tab m0 f m \<and> hooked m0)"
proof -
  note i = inv_parts [OF inv]
  obtain n where n: "f (journal_key u) = Some n" "data n = journal_bytes recs" using i(7) by (auto simp: journal_at_def)
  have "int (length (data n)) \<le> MaxJournalLen" using journal_length [OF i(1)] i(7) n by (simp add: journal_at_def)
  then have rd: "triple (tab m0 f) (ReadFile (journal_key u) MaxJournalLen) (\<lambda>bs m. bs = journal_bytes recs \<and> tab m0 f m)
      (\<lambda>e m. (tab m0 f m \<and> hooked m0) \<and> \<not> IsNotExist e)"
    using n h by (intro triple_weaken [OF ReadFile_plain [OF i(2) _ refl _ i(9)]])
      (auto simp: MaxJournalLen_def honest_def intro: hook_err_hooked)
  show ?thesis
    unfolding Open_journal_def layout_paths(4) [OF root_path [OF i(1)]] if_not_P [OF abs_path_nonempty]
    by (rule triple_attempt [OF rd]) (use parse_kept [OF i(7)] in \<open>auto simp: triple_def throw_def ret_def\<close>)
qed

lemma Open_kept:
  assumes "honest m0"
  shows "triple (kept C m0 u v recs) (Open_journal (abs_path (u_root u)))
    (\<lambda>j m. j = \<lparr> jroot = abs_path (u_root u), records = recs \<rparr> \<and> kept C m0 u v recs m) (\<lambda>_ m. kept C m0 u v recs m \<and> hooked m0)"
  by (rule triple_kept, rule triple_weaken [OF Open_plain [OF assms]]) (auto intro: keptI)

lemma meta_ok_inv: "update_inv u v recs f \<Longrightarrow> meta_ok (u_root u) f"
  using inv_parts [of u v recs f] by (auto simp: meta_ok_def dirs_tab_def dest!: spec [of _ "length (meta_dir u)"])

lemma with_dir_inv: "update_inv u v recs f \<Longrightarrow> with_dir md (abs_path (meta_dir u)) f = f"
  using inv_parts(2) [of u v recs f] by (auto simp: with_dir_def dirs_tab_def dest!: spec [of _ "length (meta_dir u)"])

lemma Append_kept:
  assumes r: "of_update u r" "acceptable r" "State r \<noteq> StateBegin" and t: "checkTransition (last recs) r = Inr ()"
    and j: "jroot j = abs_path (u_root u)" "records j = recs" and C: "sturdy u C"
  shows "triple (kept C m0 u v recs) (Append j r)
    (\<lambda>j' m. j' = j\<lparr>records := recs @ [r]\<rparr> \<and> kept C m0 u v (recs @ [r]) m)
    (\<lambda>_ m. (kept C m0 u v recs m \<or> kept C m0 u v (recs @ [r]) m) \<and> hooked m0)"
proof (rule triple_kept)
  fix f
  assume inv: "update_inv u v recs f" and Cf: "C f"
  note i = inv_parts [OF inv]
  let ?new = "recs @ [r]"
  have a: "appended recs" "recs \<noteq> []" "\<forall>r\<in>set recs. of_update u r" using i(7) by (auto simp: journal_at_def)
  have nh: "next_history recs r = Inr ?new" using a t r by (simp add: next_history_def)
  have len: "length ?new \<le> MaxRecords" using appended_bound [OF a(1)] by (simp add: MaxRecords_def)
  have ap: "appended ?new" by (rule appended.more [OF a(1) r(2) nh len])
  have ok: "plain_file (Some (file_node MetaFileMode (journal_bytes ?new)))" by simp
  have reg: "plain_file (f (tmp_of (pid m0) (journal_key u) k))" for k using i(8) by (simp add: scratch_ok_def)
  have wr: "triple (tab m0 f) (bind (wrap ErrJournal (MkdirAll (abs_path (meta_dir u)) DirMode)) (\<lambda>_.
      wrap ErrJournal (WriteFileAtomic (journal_key u) (journal_bytes ?new) MetaFileMode)))
    (\<lambda>_. kept C m0 u v ?new) (\<lambda>_ m. (kept C m0 u v recs m \<or> kept C m0 u v ?new m) \<and> hooked m0)"
    using i(9) written_journal_kept [OF inv _ ok _ ap _ _ C Cf] unwritten_kept [OF inv _ C Cf] keptI [where C = C, OF inv Cf] a r
    by (intro triple_weaken [OF write_meta_file [OF meta_ok_inv [OF inv] _ refl refl _ reg]])
      (auto simp: plain_file_def with_dir_inv [OF inv])
  have "Append j r = bind (bind (wrap ErrJournal (MkdirAll (abs_path (meta_dir u)) DirMode)) (\<lambda>_.
      wrap ErrJournal (WriteFileAtomic (journal_key u) (journal_bytes ?new) MetaFileMode))) (\<lambda>_. ret (j\<lparr>records := ?new\<rparr>))"
    using r(2) nh len j by (auto simp: Append_def acceptable_def layout_paths [OF root_path [OF i(1)]] bind_bind)
  then show "triple (tab m0 f) (Append j r)
    (\<lambda>j' m. j' = j\<lparr>records := ?new\<rparr> \<and> kept C m0 u v ?new m) (\<lambda>_ m. (kept C m0 u v recs m \<or> kept C m0 u v ?new m) \<and> hooked m0)"
    by (simp only:) (rule triple_bind [OF wr], rule triple_ret, simp)
qed

subsection \<open>State and pointer\<close>

lemma WriteInstall_kept:
  assumes i: "in_name x = u_name u" "in_version x = u_to u" "0 < in_layout x" and C: "sturdy u C"
  shows "triple (kept C m0 u v recs) (WriteInstall (abs_path (u_root u)) x) (\<lambda>_. kept C m0 u v recs) (\<lambda>_ m. kept C m0 u v recs m \<and> hooked m0)"
proof (rule triple_kept)
  fix f
  assume inv: "update_inv u v recs f" and Cf: "C f"
  note p = inv_parts [OF inv]
  have ok: "in_name x \<noteq> []" "ValidVersion (in_version x)" "0 < in_layout x"
    using i p(1) by (auto simp: good_update_def good_version_def short_version_def)
  have reg: "plain_file (f (tmp_of (pid m0) (state_key u) k))" for k using p(8) by (simp add: scratch_ok_def)
  show "triple (tab m0 f) (WriteInstall (abs_path (u_root u)) x) (\<lambda>_. kept C m0 u v recs) (\<lambda>_ m. kept C m0 u v recs m \<and> hooked m0)"
    using p(10) written_state_kept [OF inv _ _ C Cf] unwritten_kept [OF inv _ C Cf] keptI [where C = C, OF inv Cf] ok
    by (intro triple_weaken [OF sta.store_plain [OF meta_ok_inv [OF inv] _ refl refl p(10) reg]])
      (auto simp: install_ok_def with_dir_inv [OF inv])
qed

lemma PointerTarget_kept:
  "triple (kept C m0 u v recs) (PointerTarget (u_pf u) (abs_path (u_root u))) (\<lambda>x m. x = v \<and> kept C m0 u v recs m) (\<lambda>_ m. kept C m0 u v recs m \<and> hooked m0)"
proof (rule triple_kept)
  fix f
  assume inv: "update_inv u v recs f" and Cf: "C f"
  show "triple (tab m0 f) (PointerTarget (u_pf u) (abs_path (u_root u))) (\<lambda>x m. x = v \<and> kept C m0 u v recs m) (\<lambda>_ m. kept C m0 u v recs m \<and> hooked m0)"
    using keptI [where C = C, OF inv Cf] inv_parts [OF inv] by (intro triple_weaken [OF PointerTarget_plain [of f "u_root u" "u_pf u" v]]) auto
qed

subsection \<open>Clearing litter\<close>

lemma path_base_no_slash:
  assumes "c \<in> set s" "c \<noteq> slash"
  shows "slash \<notin> set (path_base s)" "path_base s \<noteq> []"
proof -
  have ne: "s \<noteq> []" "\<not> (\<forall>x\<in>set s. x = slash)" using assms by auto
  let ?d = "dropWhile (\<lambda>c. c = slash) (rev s)"
  have d: "?d \<noteq> []" using assms by (auto simp: dropWhile_eq_Nil_conv)
  then have "hd ?d \<noteq> slash" by (rule hd_dropWhile)
  then have "takeWhile (\<lambda>c. c \<noteq> slash) ?d \<noteq> []" using d by (cases ?d) auto
  then show "path_base s \<noteq> []" "slash \<notin> set (path_base s)"
    using ne d by (auto simp: path_base_def dest: set_takeWhileD)
qed

text \<open>What a directory lists are single names.\<close>

lemma child_base:
  assumes k: "key \<in> set (childrenOf m p)" "p = abs_path ds" "simples ds"
    and n: "slash \<notin> set (drop (length (if p = ''/'' then ''/'' else p @ ''/'')) key)"
  shows "slash \<notin> set (path_base key)" "path_base key \<noteq> []"
proof -
  let ?pre = "if p = ''/'' then ''/'' else p @ ''/''"
  have pre: "prefix ?pre key" "key \<noteq> p" using k(1) by (auto simp: set_childrenOf)
  then obtain r where r: "key = ?pre @ r" by (auto simp: prefix_def)
  have "\<exists>c\<in>set key. c \<noteq> slash"
  proof (cases r)
    case Nil
    then have "p \<noteq> ''/''" using r pre by auto
    then obtain e es where "ds = e # es" "simple e" using k(2,3) by (cases ds) (auto simp: abs_path_def)
    then have e: "e \<noteq> []" "slash \<notin> set e" "p = slash # join_with ''/'' (e # es)" using k(2) by (auto simp: simple_def abs_path_def)
    have "hd e \<in> set (join_with ''/'' (e # es))" using elem_in_join [of e "e # es" "''/''"] hd_in_set [OF e(1)] by auto
    then have "hd e \<in> set p" by (simp only: e(3) list.set_intros(2))
    then have "hd e \<in> set key" using r Nil \<open>p \<noteq> ''/''\<close> by simp
    moreover have "hd e \<noteq> slash" using e(2) hd_in_set [OF e(1)] by metis
    ultimately show ?thesis by blast
  next
    case (Cons c r')
    then show ?thesis using n r by auto
  qed
  then show "slash \<notin> set (path_base key)" "path_base key \<noteq> []" using path_base_no_slash by blast+
qed

lemma ReadDir_plain:
  assumes dt: "dirs_tab f ds"
  shows "triple (tab m0 f) (ReadDir (abs_path ds))
    (\<lambda>es m. tab m0 f m \<and> (\<forall>e\<in>set es. iname e \<noteq> [] \<and> slash \<notin> set (iname e))) (\<lambda>_ _. False)"
proof -
  have "case ReadDir (abs_path ds) m of (Inl e, m') \<Rightarrow> False
    | (Inr es, m') \<Rightarrow> tab m0 f m' \<and> (\<forall>e\<in>set es. iname e \<noteq> [] \<and> slash \<notin> set (iname e))" if t: "tab m0 f m" for m
  proof -
    have d: "dirs_ok m ds" using dt t by (simp add: dirs_ok_tab tab_def)
    then obtain n where n: "node_at m (abs_path ds) = Some n" "isDir n"
      by (auto simp: dirs_ok_def real_dir_def dest!: spec [of _ "length ds"])
    have "node m (abs_path ds) True = Inr (abs_path ds, n)" using resolve_dir [OF d] n by (simp add: node_def)
    moreover have "simples ds" using dt by (simp add: dirs_tab_def)
    ultimately show ?thesis
      using t n child_base [of _ m "abs_path ds" ds]
      by (auto simp: ReadDir_def Let_def List.map_filter_def)
  qed
  then show ?thesis by (simp add: triple_def)
qed

lemma RemoveAll_kept:
  assumes "\<And>f. update_inv u v recs f \<Longrightarrow> dirs_tab f ds" "simple e" "p = abs_path (ds @ [e])" "good_update u"
    and "\<And>q. protected u v q \<Longrightarrow> \<not> in_tree p q" "\<not> in_tree p (journal_key u)" and C: "frail C"
  shows "triple (kept C m0 u v recs) (RemoveAll p) (\<lambda>_. kept C m0 u v recs) (\<lambda>_ m. kept C m0 u v recs m \<and> hooked m0)"
proof (rule triple_kept)
  fix f
  assume inv: "update_inv u v recs f" and Cf: "C f"
  have "update_inv u v recs (pruned p f)" by (rule inv_pruned [OF inv assms(5,6)])
  then show "triple (tab m0 f) (RemoveAll p) (\<lambda>_. kept C m0 u v recs) (\<lambda>_ m. kept C m0 u v recs m \<and> hooked m0)"
    using keptI [where C = C, OF inv Cf] keptI [where C = C, OF _ C [unfolded frail_def, rule_format, OF Cf]] inv_parts(5) [OF inv]
    by (intro triple_weaken [OF RemoveAll_plain [OF assms(1) [OF inv] assms(2,3)]]) auto
qed

lemma staging_unprotected:
  assumes g: "good_update u"
  shows "protected u v q \<Longrightarrow> \<not> in_tree (staging_key u) q" "\<not> in_tree (staging_key u) (journal_key u)"
proof -
  note s = update_simples [OF g]
  have ss: "simples (meta_dir u @ [StagingName])" using s by simp
  have k: "in_tree (staging_key u) (abs_path qs) \<longleftrightarrow> prefix (meta_dir u @ [StagingName]) qs" if "simples qs" for qs
    by (rule in_tree_abs [OF ss that]) simp
  show "\<not> in_tree (staging_key u) (journal_key u)" using k [of "meta_dir u @ [JournalName]"] s names_distinct by auto
  have tk: "\<not> in_tree (staging_key u) (abs_path (take i ds))" if "ds = meta_dir u \<or> ds = versions_dir u" for i ds
  proof -
    have "simples ds" using that s by auto
    then have "simples (take i ds)" by (meson in_set_takeD simples_def)
    moreover have "\<not> prefix (meta_dir u @ [StagingName]) (take i ds)"
    proof
      assume "prefix (meta_dir u @ [StagingName]) (take i ds)"
      then have "length (meta_dir u @ [StagingName]) \<le> length (take i ds)" by (rule prefix_length_le)
      then show False using that by auto
    qed
    ultimately show ?thesis using k by blast
  qed
  have tree: "\<not> in_tree (staging_key u) q" if "in_tree (version_key_of u w) q" "simple w" for w q
    using trees_disjoint [of "u_root u" VersionsName "[w]" MetaName "[StagingName]" q] that s names_distinct by auto
  have "\<not> in_tree (staging_key u) (current_key u)" using k [of "u_root u @ [CurrentName]"] s by auto
  then show "\<not> in_tree (staging_key u) q" if "protected u v q"
    using that tk tree s unfolding protected_def by blast
qed

lemma removeScratch_kept:
  assumes g: "good_update u" and ds: "ds = u_root u \<or> ds = meta_dir u \<or> ds = versions_dir u" and C: "frail C"
  shows "triple (kept C m0 u v recs) (removeScratch (abs_path ds)) (\<lambda>_. kept C m0 u v recs) (\<lambda>_ m. kept C m0 u v recs m \<and> hooked m0)"
proof -
  let ?k = "kept C m0 u v recs"
  have d: "dirs_tab f ds" if "update_inv u v recs f" for f using inv_parts(2-4) [OF that] ds by auto
  have s: "simples ds" using ds update_simples [OF g] by auto
  have rd: "triple ?k (ReadDir (abs_path ds)) (\<lambda>es m. ?k m \<and> (\<forall>e\<in>set es. iname e \<noteq> [] \<and> slash \<notin> set (iname e))) (\<lambda>_ _. False)"
    by (rule triple_kept, rule triple_weaken [OF ReadDir_plain [OF d]]) (auto intro: keptI)
  have rm: "triple ?k (wrap ErrJournal (RemoveAll (Join [abs_path ds, iname e]))) (\<lambda>_. ?k) (\<lambda>_ m. ?k m \<and> hooked m0)"
    if e: "iname e \<noteq> []" "slash \<notin> set (iname e)" "scratch_name (iname e)" for e
  proof -
    have "\<not> scratch_name ''.''" "\<not> scratch_name ''..''" by code_simp+
    then have se: "simple (iname e)" using e by (auto simp: simple_def)
    let ?p = "abs_path (ds @ [iname e])"
    have "scratch_place u ?p" using ds se e(3) unfolding scratch_place_def by blast
    then have "triple ?k (RemoveAll ?p) (\<lambda>_. ?k) (\<lambda>_ m. ?k m \<and> hooked m0)"
      using scratch_unprotected [OF g] by (intro RemoveAll_kept [OF d se refl g _ _ C]) blast+
    then show ?thesis using s se by (auto simp: Join_abs intro!: triple_wrap)
  qed
  have each: "triple (\<lambda>m. ?k m \<and> (\<forall>e\<in>set es. iname e \<noteq> [] \<and> slash \<notin> set (iname e)))
      (for_each (filter (\<lambda>e. scratch_name (iname e)) es) (\<lambda>e. wrap ErrJournal (RemoveAll (Join [abs_path ds, iname e]))))
      (\<lambda>_. ?k) (\<lambda>_ m. ?k m \<and> hooked m0)" for es
    by (rule triple_fact, rule triple_for_each) (use rm in auto)
  show ?thesis
    unfolding removeScratch_def by (rule triple_attempt [OF rd _ each]) (simp add: triple_def)
qed

text \<open>Litter goes, and the staging area with it.\<close>

lemma sweep_staging:
  assumes g: "good_update u" and C: "\<And>f. C f \<Longrightarrow> C (pruned (staging_key u) f)"
  shows "triple (kept C m0 u v recs) (RemoveAll (staging_key u)) (\<lambda>_. kept (tidy C u) m0 u v recs) (\<lambda>_ m. kept C m0 u v recs m \<and> hooked m0)"
proof (rule triple_kept)
  fix f
  assume inv: "update_inv u v recs f" and Cf: "C f"
  have "update_inv u v recs (pruned (staging_key u) f)"
    by (rule inv_pruned [OF inv]) (use staging_unprotected [OF g] in auto)
  moreover have "C (pruned (staging_key u) f) \<and> swept u (pruned (staging_key u) f)"
    using C Cf by (simp add: swept_def pruned_in_tree)
  moreover have "simple StagingName" by (simp add: simple_def layout_names)
  ultimately show "triple (tab m0 f) (RemoveAll (staging_key u)) (\<lambda>_. kept (tidy C u) m0 u v recs) (\<lambda>_ m. kept C m0 u v recs m \<and> hooked m0)"
    using inv_parts(5) [OF inv] Cf
    by (intro triple_weaken [OF RemoveAll_plain [OF inv_parts(2) [OF inv] _ refl]]) (auto intro: keptI keptI [OF inv])
qed

lemma cleanOrphans_kept:
  assumes g: "good_update u" and C: "frail C"
  shows "triple (kept C m0 u v recs) (cleanOrphans (abs_path (u_root u))) (\<lambda>_. kept (tidy C u) m0 u v recs)
    (\<lambda>_ m. kept C m0 u v recs m \<and> hooked m0)"
  unfolding cleanOrphans_def layout_paths(2,3,6) [OF root_path [OF g]]
proof (rule triple_bind [OF triple_wrap [OF sweep_staging [where C = C, OF g frailD [OF C]]]])
  let ?D = "tidy C u"
  have "frail ?D" using C swept_pruned by (auto simp: frail_def)
  then have "triple (kept ?D m0 u v recs) (for_each [abs_path (u_root u), abs_path (meta_dir u), abs_path (versions_dir u)] removeScratch)
      (\<lambda>_. kept ?D m0 u v recs) (\<lambda>_ m. kept ?D m0 u v recs m \<and> hooked m0)"
    by (intro triple_for_each) (use removeScratch_kept [OF g] in auto)
  then show "triple (kept ?D m0 u v recs) (for_each [abs_path (u_root u), abs_path (meta_dir u), abs_path (versions_dir u)] removeScratch)
      (\<lambda>_. kept ?D m0 u v recs) (\<lambda>_ m. kept C m0 u v recs m \<and> hooked m0)" for x :: unit
    by (rule triple_weaken) (auto elim: kept_mono)
qed

end
