(* ===== verification/RecoverSample.thy ===== *)
theory RecoverSample
  imports RecoverLaws
begin

text \<open>
  A small install, in which the theorems on recovery are applied: two version directories, a
  pointer that is a link, and a journal.
\<close>

definition sample_disk :: "string \<Rightarrow> Record list \<Rightarrow> mem" where
  "sample_disk v recs = NewMem\<lparr>nodes :=
     [(''/'', dir_node 0x1ED), (''/.updater'', dir_node 0x1ED), (''/versions'', dir_node 0x1ED),
      (''/versions/1.0.0'', dir_node 0x1ED), (''/versions/1.1.0'', dir_node 0x1ED),
      (''/current'', link_node (relVersionTarget v)),
      (''/.updater/journal.json'', file_node MetaFileMode (journal_bytes recs))]\<rparr>"

definition sample_update :: update where
  "sample_update = \<lparr> u_pf = symlinkPointer, u_root = [], u_name = ''app'', u_from = ''1.0.0'', u_to = ''1.1.0'',
     u_snap = (\<lambda>q. if q = ''/versions/1.0.0'' \<or> q = ''/versions/1.1.0'' then Some (dir_node 0x1ED) else None) \<rparr>"

lemma sample_node: "node_at (sample_disk v recs) q =
  (if q \<in> {''/'', ''/.updater'', ''/versions'', ''/versions/1.0.0'', ''/versions/1.1.0''} then Some (dir_node 0x1ED)
   else if q = ''/current'' then Some (link_node (relVersionTarget v))
   else if q = ''/.updater/journal.json'' then Some (file_node MetaFileMode (journal_bytes recs)) else None)"
  by (simp add: node_at_def sample_disk_def)

lemma sample_keys:
  "abs_path [] = ''/''" "abs_path [MetaName] = ''/.updater''" "abs_path [VersionsName] = ''/versions''"
  "abs_path [CurrentName] = ''/current''" "abs_path [MetaName, JournalName] = ''/.updater/journal.json''"
  "abs_path [MetaName, StateName] = ''/.updater/state.json''" "abs_path [MetaName, StagingName] = ''/.updater/staging''"
  "abs_path [MetaName, StagingName, ''1.1.0.launcher''] = ''/.updater/staging/1.1.0.launcher''"
  "abs_path [VersionsName, ''1.0.0''] = ''/versions/1.0.0''" "abs_path [VersionsName, ''1.1.0''] = ''/versions/1.1.0''"
  by (simp_all add: abs_path_def layout_names)

lemma sample_good: "good_update sample_update"
proof -
  have "good_version ''1.0.0''" "good_version ''1.1.0''" unfolding good_version_def short_version_def by code_simp+
  moreover have "valid_utf8 ''app''" by code_simp
  ultimately show ?thesis by (simp add: good_update_def sample_update_def)
qed

lemma sample_wf: "wf_tab (node_at (sample_disk v recs))"
proof -
  let ?ks = "[''/'', ''/.updater'', ''/versions'', ''/versions/1.0.0'', ''/versions/1.1.0'', ''/current'', ''/.updater/journal.json'']"
  have t: "list_all (\<lambda>q. list_all (\<lambda>p. p \<noteq> [] \<and> prefix (p @ ''/'') q \<longrightarrow> p \<in> {''/'', ''/.updater'', ''/versions''}) (prefixes q)) ?ks"
    by code_simp
  show ?thesis
    unfolding wf_tab_def
  proof (intro allI impI)
    fix p q
    assume a: "p \<noteq> [] \<and> prefix (p @ ''/'') q \<and> node_at (sample_disk v recs) q \<noteq> None"
    then have "q \<in> set ?ks" by (auto simp: sample_node split: if_splits)
    moreover have "p \<in> set (prefixes q)" using a by (auto simp: in_set_prefixes dest: append_prefixD)
    ultimately have "p \<in> {''/'', ''/.updater'', ''/versions''}" using t a unfolding list_all_iff by blast
    then show "\<exists>n. node_at (sample_disk v recs) p = Some n \<and> isDir n" by (auto simp: sample_node)
  qed
qed

lemma sample_inv:
  assumes "v = ''1.0.0'' \<or> v = ''1.1.0''" "appended recs" "recs \<noteq> []" "\<forall>r\<in>set recs. of_update sample_update r"
  shows "update_inv sample_update v recs (node_at (sample_disk v recs))"
proof -
  let ?u = sample_update and ?f = "node_at (sample_disk v recs)"
  have u: "u_root ?u = []" "u_from ?u = ''1.0.0''" "u_to ?u = ''1.1.0''" "u_pf ?u = symlinkPointer" by (simp_all add: sample_update_def)
  have d: "dirs_tab ?f [MetaName]" "dirs_tab ?f [VersionsName]"
    unfolding dirs_tab_def by (auto simp: le_Suc_eq sample_keys sample_node)
  have s: "plain_file (?f (tmp_of i ''/.updater/journal.json'' k))" "plain_file (?f (tmp_of i ''/.updater/state.json'' k))"
    "litter_link (?f (tmp_of i ''/current'' k))" for i k
    by (simp_all add: sample_node tmp_of_def scratch_suffix_def litter_link_def)
  have b: "base_ok ?u ?f"
    using d s sample_wf by (simp add: base_ok_def u sample_keys launcherPendingSuffix_def) (simp add: sample_node)
  have tr: "?f q = u_snap ?u q" if "in_tree ''/versions/1.0.0'' q \<or> in_tree ''/versions/1.1.0'' q" for q
  proof -
    from that obtain zs where "q = ''/versions/1.0.0'' \<or> q = ''/versions/1.1.0'' \<or> q = ''/versions/1.0.0/'' @ zs \<or> q = ''/versions/1.1.0/'' @ zs"
      unfolding in_tree_def prefix_def append_assoc [symmetric] by fastforce
    then show ?thesis by (elim disjE) (simp_all add: sample_node sample_update_def)
  qed
  have v: "ValidVersion v" "v \<noteq> []" using assms(1) by (auto, code_simp+)
  have "points_to ?u ?f v" using v by (simp add: ptr.points_def lnk.points_def u sample_keys sample_node holds_link_def relVersionTarget_def)
  moreover have "journal_at ?u ?f recs" using assms by (simp add: journal_at_def u sample_keys sample_node)
  moreover have "trees_ok ?u ?f" using tr by (simp add: trees_ok_def u sample_keys)
  ultimately show ?thesis using sample_good b by (simp add: update_inv_def)
qed

text \<open>Histories of the sample update.\<close>

definition sample_record :: "string \<Rightarrow> string \<Rightarrow> Record" where
  "sample_record s ph = \<lparr> State = s, Name = ''app'', FromVersion = ''1.0.0'', ToVersion = ''1.1.0'', Phase = ph \<rparr>"

definition sample_begun :: "Record list" where
  "sample_begun = [sample_record StateBegin PhaseCheck]"

definition sample_deferred :: "Record list" where
  "sample_deferred = sample_begun @ [sample_record StateStaged PhaseStage, sample_record StateDeferred PhaseQuiesce]"

definition sample_swapped :: "Record list" where
  "sample_swapped = sample_begun @ [sample_record StateStaged PhaseStage, sample_record StateMigrated PhaseMigrate, sample_record StateSwapped PhaseApply]"

definition sample_committed :: "Record list" where
  "sample_committed = sample_swapped @ [sample_record StateCommitted PhaseCommit]"

lemma sample_histories:
  assumes "recs \<in> {sample_begun, sample_deferred, sample_swapped, sample_committed}"
  shows "appended recs" "recs \<noteq> []" "\<forall>r\<in>set recs. of_update sample_update r"
proof -
  have "list_all (\<lambda>recs. legal recs \<and> list_all (\<lambda>r. State r \<noteq> StateBegin) (tl recs) \<and> list_all acceptable recs \<and> recs \<noteq> [] \<and>
     list_all (of_update sample_update) recs) [sample_begun, sample_deferred, sample_swapped, sample_committed]"
    unfolding of_update_def legal_def acceptable_def text_record_def by code_simp
  then show "appended recs" "recs \<noteq> []" "\<forall>r\<in>set recs. of_update sample_update r"
    using assms by (auto simp: list_all_iff intro!: legal_appended)
qed

lemma sample_disk_env: "\<not> hooked (sample_disk v recs)" "honest (sample_disk v recs)" "pid (sample_disk v recs) = pid NewMem"
proof -
  show h: "\<not> hooked (sample_disk v recs)" by (simp add: hooked_def sample_disk_def NewMem_def)
  show "honest (sample_disk v recs)" by (rule not_hooked_honest [OF h])
qed (simp add: sample_disk_def)

end
