(* ===== verification/RecoverSafe.thy ===== *)
theory RecoverSafe
  imports RecoverSample
begin

text \<open>
  What recovery guarantees: whichever call fails, the install stays recoverable, and when none does
  it ends fully on the old version or fully on the new one.
\<close>

section \<open>Records of recovery\<close>

definition resting :: "((string \<Rightarrow> memNode option) \<Rightarrow> bool) \<Rightarrow> mem \<Rightarrow> update \<Rightarrow> string \<Rightarrow> string \<Rightarrow> mem \<Rightarrow> bool" where
  "resting C m0 u v s m \<longleftrightarrow> (\<exists>recs. kept C m0 u v recs m \<and> State (last recs) = s)"

text \<open>
  \<open>safe\<close>: \<open>current\<close> names \<open>v\<close>, as the journal lets it, and the transaction is neither deferred nor an
  uninstall.
\<close>

definition in_flight :: "update \<Rightarrow> string \<Rightarrow> Record list \<Rightarrow> bool" where
  "in_flight u v recs \<longleftrightarrow> pointer_ok u (State (last recs)) v \<and> State (last recs) \<noteq> StateDeferred \<and> State (last recs) \<noteq> StateUninstalling"

definition safe :: "((string \<Rightarrow> memNode option) \<Rightarrow> bool) \<Rightarrow> mem \<Rightarrow> update \<Rightarrow> string \<Rightarrow> mem \<Rightarrow> bool" where
  "safe C m0 u v m \<longleftrightarrow> (\<exists>recs. kept C m0 u v recs m \<and> in_flight u v recs)"

lemma resting_mono: "resting C m0 u v s m \<Longrightarrow> (\<And>f. C f \<Longrightarrow> D f) \<Longrightarrow> resting D m0 u v s m"
  unfolding resting_def by (blast intro: kept_mono)

lemma safeI:
  "kept C m0 u v recs m \<Longrightarrow> pointer_ok u (State (last recs)) v \<Longrightarrow> State (last recs) \<noteq> StateDeferred \<Longrightarrow>
   State (last recs) \<noteq> StateUninstalling \<Longrightarrow> safe C m0 u v m"
  by (auto simp: safe_def in_flight_def)

lemma states_neq [simp]:
  shows "StateBegin \<noteq> StateStaged" "StateBegin \<noteq> StateMigrated" "StateBegin \<noteq> StateSwapped"
    "StateBegin \<noteq> StateCommitted" "StateBegin \<noteq> StateRolledBack" "StateBegin \<noteq> StateDeferred"
    "StateBegin \<noteq> StateUninstalling" "StateStaged \<noteq> StateBegin" "StateStaged \<noteq> StateMigrated"
    "StateStaged \<noteq> StateSwapped" "StateStaged \<noteq> StateCommitted" "StateStaged \<noteq> StateRolledBack"
    "StateStaged \<noteq> StateDeferred" "StateStaged \<noteq> StateUninstalling" "StateMigrated \<noteq> StateBegin"
    "StateMigrated \<noteq> StateStaged" "StateMigrated \<noteq> StateSwapped" "StateMigrated \<noteq> StateCommitted"
    "StateMigrated \<noteq> StateRolledBack" "StateMigrated \<noteq> StateDeferred" "StateMigrated \<noteq> StateUninstalling"
    "StateSwapped \<noteq> StateBegin" "StateSwapped \<noteq> StateStaged" "StateSwapped \<noteq> StateMigrated"
    "StateSwapped \<noteq> StateCommitted" "StateSwapped \<noteq> StateRolledBack" "StateSwapped \<noteq> StateDeferred"
    "StateSwapped \<noteq> StateUninstalling" "StateCommitted \<noteq> StateBegin" "StateCommitted \<noteq> StateStaged"
    "StateCommitted \<noteq> StateMigrated" "StateCommitted \<noteq> StateSwapped" "StateCommitted \<noteq> StateRolledBack"
    "StateCommitted \<noteq> StateDeferred" "StateCommitted \<noteq> StateUninstalling" "StateRolledBack \<noteq> StateBegin"
    "StateRolledBack \<noteq> StateStaged" "StateRolledBack \<noteq> StateMigrated" "StateRolledBack \<noteq> StateSwapped"
    "StateRolledBack \<noteq> StateCommitted" "StateRolledBack \<noteq> StateDeferred"
    "StateRolledBack \<noteq> StateUninstalling" "StateDeferred \<noteq> StateBegin" "StateDeferred \<noteq> StateStaged"
    "StateDeferred \<noteq> StateMigrated" "StateDeferred \<noteq> StateSwapped" "StateDeferred \<noteq> StateCommitted"
    "StateDeferred \<noteq> StateRolledBack" "StateDeferred \<noteq> StateUninstalling"
    "StateUninstalling \<noteq> StateBegin" "StateUninstalling \<noteq> StateStaged"
    "StateUninstalling \<noteq> StateMigrated" "StateUninstalling \<noteq> StateSwapped"
    "StateUninstalling \<noteq> StateCommitted" "StateUninstalling \<noteq> StateRolledBack"
    "StateUninstalling \<noteq> StateDeferred"
  by (simp_all add: state_names)

lemma known_states:
  assumes "s \<in> {StateStaged, StateDeferred, StateMigrated, StateSwapped, StateCommitted, StateRolledBack}"
  shows "s \<noteq> []" "allowed s \<noteq> None" "length s \<le> 12" "valid_utf8 s" "s \<noteq> StateBegin"
proof -
  have "list_all (\<lambda>s. s \<noteq> [] \<and> allowed s \<noteq> None \<and> length s \<le> 12 \<and> valid_utf8 s \<and> s \<noteq> StateBegin) 
      [StateStaged, StateDeferred, StateMigrated, StateSwapped, StateCommitted, StateRolledBack]" by code_simp
  then show "s \<noteq> []" "allowed s \<noteq> None" "length s \<le> 12" "valid_utf8 s" "s \<noteq> StateBegin" using assms by auto
qed

lemma known_phases:
  assumes "ph \<in> {PhaseCheck, PhaseStage, PhaseQuiesce, PhaseMigrate, PhaseApply, PhaseCommit, PhaseRollback}"
  shows "length ph \<le> 16" "valid_utf8 ph"
proof -
  have "list_all (\<lambda>s. length s \<le> 16 \<and> valid_utf8 s) [PhaseCheck, PhaseStage, PhaseQuiesce, PhaseMigrate, PhaseApply, PhaseCommit, PhaseRollback]" by code_simp
  then show "length ph \<le> 16" "valid_utf8 ph" using assms by auto
qed

lemma at_state_ok:
  assumes "good_update u" "of_update u lst" "s \<in> {StateStaged, StateDeferred, StateMigrated, StateSwapped, StateCommitted, StateRolledBack}"
    "ph \<in> {PhaseCheck, PhaseStage, PhaseQuiesce, PhaseMigrate, PhaseApply, PhaseCommit, PhaseRollback}"
  shows "of_update u (at_state lst s ph)" "acceptable (at_state lst s ph)" "State (at_state lst s ph) = s"
proof -
  have "u_to u \<noteq> []" using assms(1) valid_version_digit [of "u_to u"] by (auto simp: good_update_def good_version_def short_version_def)
  then show "of_update u (at_state lst s ph)" "acceptable (at_state lst s ph)" "State (at_state lst s ph) = s"
    using assms(1,2) known_states [OF assms(3)] known_phases [OF assms(4)]
    by (auto simp: at_state_def of_update_def text_record_def acceptable_def good_update_def)
qed

text \<open>The moves of an update and of its recovery.\<close>

definition moves :: "(string \<times> string) list" where
  "moves = [(StateBegin, StateRolledBack), (StateStaged, StateRolledBack), (StateMigrated, StateRolledBack),
      (StateSwapped, StateRolledBack), (StateMigrated, StateSwapped), (StateSwapped, StateCommitted), (StateDeferred, StateMigrated),
      (StateBegin, StateStaged), (StateStaged, StateMigrated), (StateStaged, StateDeferred)]"

lemma moves_allowed:
  assumes "(a, b) \<in> set moves"
  shows "\<exists>ss. allowed a = Some ss \<and> b \<in> set ss" "b \<noteq> StateBegin"
proof -
  have "list_all (\<lambda>(a, b). b \<in> set (the (allowed a)) \<and> allowed a \<noteq> None \<and> b \<noteq> StateBegin) moves" by code_simp
  then show "\<exists>ss. allowed a = Some ss \<and> b \<in> set ss" "b \<noteq> StateBegin" using assms by (auto simp: list_all_iff)
qed

lemma transition_ok:
  assumes "of_update u lst" "of_update u r" "(State lst, State r) \<in> set moves"
  shows "checkTransition lst r = Inr ()"
  using moves_allowed [OF assms(3)] assms(1,2) by (auto simp: checkTransition_def of_update_def)

lemma transitions:
  assumes "(State lst, s) \<in> set moves"
  shows "checkTransition lst (at_state lst s ph) = Inr ()"
  using moves_allowed [OF assms] by (auto simp: checkTransition_def at_state_def)

lemma inv_last:
  assumes "kept C m0 u v recs m"
  shows "good_update u" "of_update u (last recs)" "recs \<noteq> []"
  using assms by (auto simp: kept_def update_inv_def journal_at_def)

section \<open>Finishing\<close>

lemma pending_path: "good_update u \<Longrightarrow> LauncherPendingDir (abs_path (u_root u)) (u_to u) = Inr (pending_key u)"
  using Join_abs [of "meta_dir u @ [StagingName]" "[u_to u @ launcherPendingSuffix]"] layout_paths(6) [of "u_root u"] update_simples [of u] simple_pending
  unfolding LauncherPendingDir_def good_update_def good_version_def short_version_def by (simp add: ValidateVersion_ok)

lemma Lstat_pending:
  "triple (kept C m0 u v recs) (Lstat (pending_key u)) (\<lambda>_ _. False) (\<lambda>e m. e = [ErrNotExist] \<and> kept C m0 u v recs m)"
proof (rule triple_kept)
  fix f
  assume inv: "update_inv u v recs f" and Cf: "C f"
  note p = inv_parts [OF inv] and s = update_simples [OF inv_parts(1) [OF inv]]
  let ?x = "u_to u @ launcherPendingSuffix"
  have "Lstat (pending_key u) m = (Inl [ErrNotExist], m)" if t: "tab m0 f m" for m
  proof -
    have d: "dirs_ok m (meta_dir u)" using p(2) t by (simp add: dirs_ok_tab tab_def)
    have st: "\<not> link_at m (staging_key u)" using inv t by (auto simp: link_at_def tab_def update_inv_def base_ok_def)
    have "resolve m (pending_key u) False = Inr (pending_key u)"
    proof (rule resolve_plain)
      show "simples (meta_dir u @ [StagingName, ?x])" using s simple_pending by simp
      show "\<not> link_at m (abs_path (take i (meta_dir u @ [StagingName, ?x])))" if "i < length (meta_dir u @ [StagingName, ?x])" for i
      proof (cases "i \<le> length (meta_dir u)")
        case True
        then show ?thesis by (rule dirs_ok_not_link [OF d])
      next
        case False
        then have "i = length (meta_dir u @ [StagingName])" using that by simp
        then have "take i (meta_dir u @ [StagingName, ?x]) = meta_dir u @ [StagingName]" by simp
        then show ?thesis using st by metis
      qed
    qed simp
    then show ?thesis using p(11) t by (simp add: Lstat_def stat_def node_def tab_def)
  qed
  then show "triple (tab m0 f) (Lstat (pending_key u)) (\<lambda>_ _. False) (\<lambda>e m. e = [ErrNotExist] \<and> kept C m0 u v recs m)"
    using keptI [where C = C, OF inv Cf] by (simp add: triple_def)
qed

lemma settle_kept:
  assumes g: "good_update u" and to: "ToVersion lst = u_to u" and C: "frail C"
  shows "triple (kept C m0 u v recs) (settleCommitted (u_pf u) (abs_path (u_root u)) lst) (\<lambda>_. kept (tidy C u) m0 u v recs) (\<lambda>_ m. kept C m0 u v recs m \<and> hooked m0)"
  unfolding settleCommitted_def to pending_path [OF g] bind_lift Let_def
  by (rule triple_attempt [OF Lstat_pending])
    (use cleanOrphans_kept [OF g C, of m0 v recs] in \<open>auto simp: triple_def IsNotExist_def\<close>)

lemma commit_kept:
  assumes g: "good_update u" and l: "of_update u lst" "State lst = StateSwapped" "last recs = lst"
    and j: "jroot j = abs_path (u_root u)" "records j = recs" and C: "sturdy u C" "frail C"
  shows "triple (kept C m0 u (u_to u) recs)
    (bind (WriteInstall (abs_path (u_root u)) \<lparr> in_schema = 0, in_name = Name lst, in_version = ToVersion lst, in_layout = LayoutSchema \<rparr>) (\<lambda>_.
     bind (Append j (at_state lst StateCommitted PhaseCommit)) (\<lambda>_.
     settleCommitted (u_pf u) (abs_path (u_root u)) (at_state lst StateCommitted PhaseCommit))))
    (\<lambda>_. resting (tidy C u) m0 u (u_to u) StateCommitted) (\<lambda>_ m. safe C m0 u (u_to u) m \<and> hooked m0)"
proof -
  let ?r = "at_state lst StateCommitted PhaseCommit" and ?k = "kept C m0 u (u_to u)"
  have ok: "of_update u ?r" "acceptable ?r" "State ?r = StateCommitted" using at_state_ok [OF g l(1)] by simp_all
  have tr: "checkTransition (last recs) ?r = Inr ()" using transitions [of lst] l by (simp add: moves_def)
  have sf: "safe C m0 u (u_to u) m" if "?k recs m \<or> ?k (recs @ [?r]) m" for m
    using that safeI [of C m0 u "u_to u" recs m] safeI [of C m0 u "u_to u" "recs @ [?r]" m] l ok by (auto simp: pointer_ok_def)
  have wi: "triple (?k recs) (WriteInstall (abs_path (u_root u)) \<lparr> in_schema = 0, in_name = Name lst, in_version = ToVersion lst, in_layout = LayoutSchema \<rparr>)
      (\<lambda>_. ?k recs) (\<lambda>_ m. safe C m0 u (u_to u) m \<and> hooked m0)"
    using l sf C by (intro triple_weaken [OF WriteInstall_kept [where C = C]]) (auto simp: of_update_def LayoutSchema_def)
  have ap: "triple (?k recs) (Append j ?r) (\<lambda>_. ?k (recs @ [?r])) (\<lambda>_ m. safe C m0 u (u_to u) m \<and> hooked m0)"
    using sf ok tr j C by (intro triple_weaken [OF Append_kept [where C = C]]) auto
  have st: "triple (?k (recs @ [?r])) (settleCommitted (u_pf u) (abs_path (u_root u)) ?r) (\<lambda>_. resting (tidy C u) m0 u (u_to u) StateCommitted)
      (\<lambda>_ m. safe C m0 u (u_to u) m \<and> hooked m0)"
    using sf ok g l C by (intro triple_weaken [OF settle_kept [where C = C]]) (auto simp: resting_def of_update_def at_state_def)
  show ?thesis by (rule triple_bind [OF wi triple_bind [OF ap st]])
qed

lemma complete_kept:
  assumes g: "good_update u" and l: "of_update u lst" "State lst = StateMigrated \<or> State lst = StateSwapped" "last recs = lst"
    and j: "jroot j = abs_path (u_root u)" "records j = recs" and C: "sturdy u C" "frail C"
  shows "triple (kept C m0 u (u_to u) recs) (complete (u_pf u) (abs_path (u_root u)) j lst)
    (\<lambda>_. resting (tidy C u) m0 u (u_to u) StateCommitted) (\<lambda>_ m. safe C m0 u (u_to u) m \<and> hooked m0)"
proof -
  let ?k = "kept C m0 u (u_to u)" and ?E = "\<lambda>_ m. safe C m0 u (u_to u) m \<and> hooked m0"
  have sf: "safe C m0 u (u_to u) m" if "?k recs m" for m using that l by (auto intro!: safeI simp: pointer_ok_def)
  have pt: "triple (?k recs) (PointerTarget (u_pf u) (abs_path (u_root u))) (\<lambda>x m. ?k recs m \<and> x = u_to u) ?E"
    using sf by (intro triple_weaken [OF PointerTarget_kept [where C = C]]) auto
  let ?s = "at_state lst StateSwapped PhaseApply"
  have ok: "of_update u ?s" "acceptable ?s" "State ?s = StateSwapped" using at_state_ok [OF g l(1)] by simp_all
  have sw: "triple (?k recs) (if State lst = StateMigrated
        then bind (Append j ?s) (\<lambda>j'. ret (j', ?s)) else ret (j, lst))
      (\<lambda>x m. \<exists>recs'. (?k recs' m \<and> (jroot (fst x) = abs_path (u_root u) \<and> records (fst x) = recs' \<and> of_update u (snd x) \<and>
         State (snd x) = StateSwapped \<and> last recs' = snd x))) ?E"
  proof (rule triple_if)
    assume mg: "State lst = StateMigrated"
    have sf': "safe C m0 u (u_to u) m" if "?k (recs @ [?s]) m" for m using safeI [OF that] ok by (simp add: pointer_ok_def)
    have "triple (?k recs) (Append j ?s) (\<lambda>j' m. j' = j\<lparr>records := recs @ [?s]\<rparr> \<and> ?k (recs @ [?s]) m) ?E"
      using sf sf' ok j C transitions [of lst StateSwapped, unfolded moves_def] mg l by (intro triple_weaken [OF Append_kept [where C = C]]) auto
    then show "triple (?k recs) (bind (Append j ?s) (\<lambda>j'. ret (j', ?s)))
      (\<lambda>x m. \<exists>recs'. (?k recs' m \<and> (jroot (fst x) = abs_path (u_root u) \<and> records (fst x) = recs' \<and> of_update u (snd x) \<and>
         State (snd x) = StateSwapped \<and> last recs' = snd x))) ?E"
      by (rule triple_bind) (use ok j in \<open>auto intro!: triple_ret exI [of _ "recs @ [?s]"]\<close>)
  qed (use l j in \<open>auto intro!: triple_ret\<close>)
  show ?thesis
    unfolding complete_def
  proof (rule triple_bind [OF pt], rule triple_fact)
    fix live
    assume "live = u_to u"
    then have nl: "\<not> live \<noteq> ToVersion lst" using l by (simp add: of_update_def)
    show "triple (?k recs) (if live \<noteq> ToVersion lst then throw [ErrJournal] else bind (if State lst = StateMigrated
        then bind (Append j ?s) (\<lambda>j'. ret (j', ?s)) else ret (j, lst)) (\<lambda>(j', l').
          bind (WriteInstall (abs_path (u_root u)) \<lparr> in_schema = 0, in_name = Name l', in_version = ToVersion l', in_layout = LayoutSchema \<rparr>) (\<lambda>_.
          bind (Append j' (at_state l' StateCommitted PhaseCommit)) (\<lambda>_.
          settleCommitted (u_pf u) (abs_path (u_root u)) (at_state l' StateCommitted PhaseCommit)))))
      (\<lambda>_. resting (tidy C u) m0 u (u_to u) StateCommitted) ?E"
      unfolding if_not_P [OF nl]
    proof (rule triple_bind [OF sw], rule triple_Ex, rule triple_fact)
      fix x :: "Journal \<times> Record" and recs'
      assume "jroot (fst x) = abs_path (u_root u) \<and> records (fst x) = recs' \<and> of_update u (snd x) \<and>
         State (snd x) = StateSwapped \<and> last recs' = snd x"
      then show "triple (?k recs') (case x of (j', l') \<Rightarrow>
          bind (WriteInstall (abs_path (u_root u)) \<lparr> in_schema = 0, in_name = Name l', in_version = ToVersion l', in_layout = LayoutSchema \<rparr>) (\<lambda>_.
          bind (Append j' (at_state l' StateCommitted PhaseCommit)) (\<lambda>_.
          settleCommitted (u_pf u) (abs_path (u_root u)) (at_state l' StateCommitted PhaseCommit))))
        (\<lambda>_. resting (tidy C u) m0 u (u_to u) StateCommitted) ?E"
        unfolding case_prod_beta using C by (intro commit_kept [OF g]) auto
    qed
  qed
qed

section \<open>Undoing\<close>

text \<open>
  The host's migrator, as far as recovery relies on it: its rollback keeps its hands off the install
  tree, and it fails only if \<open>b\<close>.
\<close>

definition polite :: "mem \<Rightarrow> update \<Rightarrow> bool \<Rightarrow> Migrator option \<Rightarrow> bool" where
  "polite m0 u b mig \<longleftrightarrow> (\<forall>mg c f. mig = Some mg \<longrightarrow>
     triple (tab m0 f) (Rollback_hook mg c) (\<lambda>_. besides m0 (u_root u) f) (\<lambda>_ m. besides m0 (u_root u) f m \<and> b))"

lemma polite_kept:
  assumes "polite m0 u b (Some mg)" "sturdy u C"
  shows "triple (kept C m0 u v recs) (Rollback_hook mg c) (\<lambda>_. kept C m0 u v recs) (\<lambda>_ m. kept C m0 u v recs m \<and> b)"
proof (rule triple_kept)
  fix f
  assume f: "update_inv u v recs f" "C f"
  have "triple (tab m0 f) (Rollback_hook mg c) (\<lambda>_. besides m0 (u_root u) f) (\<lambda>_ m. besides m0 (u_root u) f m \<and> b)"
    using assms(1) by (simp add: polite_def)
  then show "triple (tab m0 f) (Rollback_hook mg c) (\<lambda>_. kept C m0 u v recs) (\<lambda>_ m. kept C m0 u v recs m \<and> b)"
    by (rule triple_weaken) (auto intro: besides_kept [OF _ f(1) assms(2) f(2)])
qed

lemma polite_None [simp]: "polite m0 u b None"
  by (simp add: polite_def)

lemma RemovePointer_kept:
  assumes h: "honest m0"
  shows "triple (kept C m0 u [] recs) (RemovePointer (abs_path (u_root u))) (\<lambda>_. kept C m0 u [] recs) (\<lambda>_ m. kept C m0 u [] recs m \<and> hooked m0)"
proof (rule triple_kept)
  fix f
  assume inv: "update_inv u [] recs f" and Cf: "C f"
  note p = inv_parts [OF inv]
  have none: "f (current_key u) = None" using p(6) by (simp add: ptr.points_def)
  then have "f q = None" if "prefix (current_key u @ ''/'') q" for q
    using wf_tab_below [OF p(5) abs_path_nonempty _ that] by simp
  then have rm: "triple (tab m0 f) (Remove (current_key u)) (\<lambda>_. kept C m0 u [] recs)
      (\<lambda>e m. kept C m0 u [] recs m \<and> (IsNotExist e \<or> hooked m0))"
    using none keptI [where C = C, OF inv Cf] by (intro triple_weaken [OF Remove_plain [OF p(4) _ refl]])
      (auto simp: fun_upd_idem IsNotExist_def intro: hook_err_hooked)
  show "triple (tab m0 f) (RemovePointer (abs_path (u_root u))) (\<lambda>_. kept C m0 u [] recs) (\<lambda>_ m. kept C m0 u [] recs m \<and> hooked m0)"
    unfolding RemovePointer_def layout_paths(1) [OF root_path [OF p(1)]]
    by (rule triple_attempt [OF rm]) (auto simp: triple_def ret_def throw_def)
qed

lemma restore_kept:
  assumes "honest m0" "FromVersion lst = u_from u"
  shows "triple (kept C m0 u (u_from u) recs) (restorePointer (u_pf u) (abs_path (u_root u)) lst)
    (\<lambda>_. kept C m0 u (u_from u) recs) (\<lambda>_ m. kept C m0 u (u_from u) recs m \<and> hooked m0)"
proof (cases "u_from u = []")
  case True
  then show ?thesis using RemovePointer_kept [OF assms(1)] assms(2) by (simp add: restorePointer_def)
next
  case False
  show ?thesis
    unfolding restorePointer_def assms(2) if_not_P [OF False]
    by (rule triple_bind [OF PointerTarget_kept]) (auto simp: triple_def ret_def)
qed

lemma version_unprotected:
  assumes g: "good_update u" and v: "v \<noteq> u_to u"
  shows "protected u v q \<Longrightarrow> \<not> in_tree (version_key_of u (u_to u)) q" "\<not> in_tree (version_key_of u (u_to u)) (journal_key u)"
proof -
  note s = update_simples [OF g]
  have ss: "simples (versions_dir u @ [u_to u])" using s by simp
  have k: "in_tree (version_key_of u (u_to u)) (abs_path qs) \<longleftrightarrow> prefix (versions_dir u @ [u_to u]) qs" if "simples qs" for qs
    by (rule in_tree_abs [OF ss that]) simp
  show "\<not> in_tree (version_key_of u (u_to u)) (journal_key u)" using k [of "meta_dir u @ [JournalName]"] s names_distinct by auto
  have tk: "\<not> in_tree (version_key_of u (u_to u)) (abs_path (take i ds))" if "ds = meta_dir u \<or> ds = versions_dir u" for i ds
  proof -
    have "simples ds" using that s by auto
    then have "simples (take i ds)" by (meson in_set_takeD simples_def)
    moreover have "\<not> prefix (versions_dir u @ [u_to u]) (take i ds)"
      using that prefix_length_le [of "versions_dir u @ [u_to u]" "take i ds"] by auto
    ultimately show ?thesis using k by blast
  qed
  have tree: "\<not> in_tree (version_key_of u (u_to u)) q" if "in_tree (version_key_of u (u_from u)) q" "u_from u \<noteq> []" for q
    using trees_disjoint [of "versions_dir u" "u_from u" "[]" "u_to u" "[]" q] that s g by (auto simp: good_update_def)
  have "\<not> in_tree (version_key_of u (u_to u)) (current_key u)" using k [of "u_root u @ [CurrentName]"] s by auto
  then show "\<not> in_tree (version_key_of u (u_to u)) q" if "protected u v q"
    using that tk tree v unfolding protected_def by blast
qed

definition rollback_tail :: "update \<Rightarrow> Journal \<Rightarrow> Record \<Rightarrow> Migrator option \<Rightarrow> (mem, unit) prog" where
  "rollback_tail u j lst mig =
     bind (case mig of
             None \<Rightarrow> ret ()
           | Some mg \<Rightarrow> wrap ErrJournal (Rollback_hook mg \<lparr> hc_from = u_from u, hc_to = u_to u, hc_root = abs_path (u_root u),
               hc_stage = Staging (abs_path (u_root u)) \<rparr>)) (\<lambda>_.
     bind (if u_to u \<noteq> u_from u then
             bind (lift (VersionDir (abs_path (u_root u)) (u_to u))) (\<lambda>dir. wrap ErrJournal (RemoveAll dir)) else ret ()) (\<lambda>_.
     bind (Append j (at_state lst StateRolledBack PhaseRollback)) (\<lambda>_. cleanOrphans (abs_path (u_root u)))))"

lemma rollback_split:
  "of_update u lst \<Longrightarrow> rollback pf (abs_path (u_root u)) j lst mig =
     bind (restorePointer pf (abs_path (u_root u)) lst) (\<lambda>_. rollback_tail u j lst mig)"
  unfolding rollback_def rollback_tail_def of_update_def by (elim conjE) (simp only:)

lemma tail_kept:
  assumes g: "good_update u" and l: "of_update u lst" "last recs = lst"
    and st: "State lst \<in> {StateBegin, StateStaged, StateMigrated, StateSwapped}"
    and j: "jroot j = abs_path (u_root u)" "records j = recs"
    and mig: "polite m0 u b mig" and hb: "hooked m0 \<Longrightarrow> b" and C: "sturdy u C" "frail C"
  shows "triple (kept C m0 u (u_from u) recs) (rollback_tail u j lst mig)
    (\<lambda>_. resting (tidy C u) m0 u (u_from u) StateRolledBack) (\<lambda>_ m. (kept C m0 u (u_from u) recs m \<or> resting C m0 u (u_from u) StateRolledBack m) \<and> b)"
    (is "triple _ _ ?Q ?E")
proof -
  let ?k = "kept C m0 u (u_from u)" and ?r = "at_state lst StateRolledBack PhaseRollback"
  have ok: "of_update u ?r" "acceptable ?r" "State ?r = StateRolledBack" using at_state_ok [OF g l(1)] by simp_all
  have n: "u_from u \<noteq> u_to u" using g by (simp add: good_update_def)
  have rs: "resting C m0 u (u_from u) StateRolledBack m" if "?k (recs @ [?r]) m" for m using that ok by (auto simp: resting_def)
  have rs2: "resting (tidy C u) m0 u (u_from u) StateRolledBack m" if "kept (tidy C u) m0 u (u_from u) (recs @ [?r]) m" for m using that ok by (auto simp: resting_def)
  have mg: "triple (?k recs) (case mig of None \<Rightarrow> ret () | Some mg \<Rightarrow> wrap ErrJournal (Rollback_hook mg c)) (\<lambda>_. ?k recs) ?E" for c
  proof (cases mig)
    case (Some g)
    then have "triple (?k recs) (Rollback_hook g c) (\<lambda>_. ?k recs) (\<lambda>_ m. ?k recs m \<and> b)" using mig polite_kept C(1) by blast
    then show ?thesis using Some by (auto intro!: triple_wrap elim!: triple_weaken)
  qed (auto intro: triple_ret)
  have "triple (?k recs) (RemoveAll (version_key_of u (u_to u))) (\<lambda>_. ?k recs) (\<lambda>_ m. ?k recs m \<and> hooked m0)"
    using version_unprotected [OF g n] update_simples [OF g] C(2) by (intro RemoveAll_kept [OF inv_parts(3) _ refl g]) auto
  then have ra: "triple (?k recs) (wrap ErrJournal (RemoveAll (version_key_of u (u_to u)))) (\<lambda>_. ?k recs) ?E"
    using hb by (intro triple_wrap) (elim triple_weaken, auto)
  have vd: "VersionDir (abs_path (u_root u)) (u_to u) = Inr (version_key_of u (u_to u))"
    using layout_paths(7) [OF root_path [OF g]] g by (simp add: good_update_def good_version_def short_version_def)
  have ap: "triple (?k recs) (Append j ?r) (\<lambda>_. ?k (recs @ [?r])) ?E"
    using rs hb ok j l st C transitions [of lst StateRolledBack, unfolded moves_def] by (intro triple_weaken [OF Append_kept [where C = C]]) auto
  have co: "triple (?k (recs @ [?r])) (cleanOrphans (abs_path (u_root u))) ?Q ?E"
    using rs rs2 hb by (intro triple_weaken [OF cleanOrphans_kept [OF g C(2)]]) auto
  have rm: "triple (?k recs) (if u_to u \<noteq> u_from u then bind (lift (Inr (version_key_of u (u_to u)))) (\<lambda>dir. wrap ErrJournal (RemoveAll dir)) else ret ())
      (\<lambda>_. ?k recs) ?E" using ra n by simp
  show ?thesis
    unfolding rollback_tail_def vd by (rule triple_bind [OF mg triple_bind [OF rm triple_bind [OF ap co]]])
qed

lemma rollback_kept:
  assumes g: "good_update u" and h: "honest m0" and l: "of_update u lst" "last recs = lst"
    and st: "State lst \<in> {StateBegin, StateStaged, StateMigrated}"
    and j: "jroot j = abs_path (u_root u)" "records j = recs"
    and mig: "polite m0 u b mig" and hb: "hooked m0 \<Longrightarrow> b" and C: "sturdy u C" "frail C"
  shows "triple (kept C m0 u (u_from u) recs) (rollback (u_pf u) (abs_path (u_root u)) j lst mig)
    (\<lambda>_. resting (tidy C u) m0 u (u_from u) StateRolledBack) (\<lambda>_ m. safe C m0 u (u_from u) m \<and> b)"
proof -
  let ?k = "kept C m0 u (u_from u)" and ?E = "\<lambda>_ m. safe C m0 u (u_from u) m \<and> b"
  have n: "FromVersion lst = u_from u" using l by (simp add: of_update_def)
  have sf: "safe C m0 u (u_from u) m" if "?k recs m" for m using safeI [OF that] l st by (auto simp: pointer_ok_def)
  have sf': "safe C m0 u (u_from u) m" if "resting C m0 u (u_from u) StateRolledBack m" for m
    using that by (auto simp: resting_def pointer_ok_def intro: safeI)
  have rp: "triple (?k recs) (restorePointer (u_pf u) (abs_path (u_root u)) lst) (\<lambda>_. ?k recs) ?E"
    using sf hb by (intro triple_weaken [OF restore_kept [where C = C, OF h n]]) auto
  have tl: "triple (?k recs) (rollback_tail u j lst mig) (\<lambda>_. resting (tidy C u) m0 u (u_from u) StateRolledBack) ?E"
    using st sf sf' by (intro triple_weaken [OF tail_kept [where C = C, OF g l _ j mig hb C]]) auto
  show ?thesis unfolding rollback_split [OF l(1)] by (rule triple_bind [OF rp tl])
qed

section \<open>Recovery\<close>

lemma journal_states:
  assumes "appended recs" "recs \<noteq> []"
  shows "State (last recs) \<in> {StateBegin, StateStaged, StateMigrated, StateSwapped, StateCommitted, StateRolledBack, StateDeferred, StateUninstalling}"
proof -
  have "acceptable (last recs)" using appended_legal [OF assms(1)] assms(2) by auto
  then have "State (last recs) \<in> fst ` set [(StateBegin, [StateStaged, StateRolledBack]),
      (StateStaged, [StateMigrated, StateRolledBack, StateDeferred]),
      (StateMigrated, [StateSwapped, StateRolledBack]),
      (StateSwapped, [StateCommitted, StateRolledBack]),
      (StateCommitted, [StateBegin, StateUninstalling]),
      (StateDeferred, [StateMigrated, StateRolledBack, StateBegin, StateUninstalling]),
      (StateRolledBack, [StateBegin, StateUninstalling]),
      (StateUninstalling, [])]"
    unfolding acceptable_def allowed_def map_of_eq_None_iff by blast
  then show ?thesis by auto
qed

text \<open>The side the interrupted update comes down on.\<close>

definition verdict :: "update \<Rightarrow> string \<Rightarrow> string" where
  "verdict u v = (if v = u_to u then StateCommitted else StateRolledBack)"

lemma RecoverResult_kept:
  assumes h: "honest m0" and mig: "polite m0 u b mig" and hb: "hooked m0 \<Longrightarrow> b" and fl: "in_flight u v recs"
    and C: "sturdy u C" "frail C"
  shows "triple (kept C m0 u v recs) (RecoverResult (u_pf u) (abs_path (u_root u)) mig)
    (\<lambda>_. resting (tidy C u) m0 u v (verdict u v)) (\<lambda>_ m. safe C m0 u v m \<and> b)"
proof (cases "\<exists>m. kept C m0 u v recs m")
  case True
  then obtain m1 where k1: "kept C m0 u v recs m1" by blast
  let ?k = "kept C m0 u v recs" and ?E = "\<lambda>_ m. safe C m0 u v m \<and> b" and ?l = "last recs" and ?r = "abs_path (u_root u)"
  let ?j = "\<lparr> jroot = ?r, records = recs \<rparr>" and ?Q = "\<lambda>_. resting (tidy C u) m0 u v (verdict u v)"
  have g: "good_update u" and l: "of_update u ?l" and ne: "recs \<noteq> []" using inv_last [OF k1] by simp_all
  have ap: "appended recs" using k1 by (auto simp: kept_def update_inv_def journal_at_def)
  have ft: "u_from u \<noteq> u_to u" using g by (simp add: good_update_def)
  have nm: "ToVersion ?l = u_to u" "FromVersion ?l = u_from u" using l by (simp_all add: of_update_def)
  have sf: "safe C m0 u v m" if "?k m" for m using that fl by (auto simp: safe_def)
  have op: "triple ?k (Open_journal ?r) (\<lambda>j m. ?k m \<and> j = ?j) ?E"
    using sf hb by (intro triple_weaken [OF Open_kept [where C = C, OF h]]) auto
  have rest: "resting (tidy C u) m0 u v (verdict u v) m" if "kept (tidy C u) m0 u v recs m" "State ?l = verdict u v" for m
    using that by (auto simp: resting_def)
  have clean: "triple ?k (bind (cleanOrphans ?r) (\<lambda>_. ret x)) ?Q ?E" if "State ?l = verdict u v" for x :: Result
    using sf hb rest that by (intro triple_bind [OF triple_weaken [OF cleanOrphans_kept [where C = C, OF g C(2)]]] triple_ret) auto
  have settle: "triple ?k (bind (settleCommitted (u_pf u) ?r ?l) (\<lambda>_. ret x)) ?Q ?E" if "State ?l = verdict u v" for x :: Result
    using sf hb rest that by (intro triple_bind [OF triple_weaken [OF settle_kept [where C = C, OF g nm(1) C(2)]]] triple_ret) auto
  have fin: "triple ?k (bind (complete (u_pf u) ?r ?j ?l) (\<lambda>_. ret x)) ?Q ?E"
    if v: "v = u_to u" and s: "State ?l = StateMigrated \<or> State ?l = StateSwapped" for x :: Result
    using triple_weaken [OF complete_kept [where C = C, OF g l s refl _ _ C, of ?j m0]] hb v
    by (intro triple_bind [where R = ?Q] triple_ret) (auto simp: verdict_def)
  have undo: "triple ?k (bind (rollback (u_pf u) ?r ?j ?l mg) (\<lambda>_. ret x)) ?Q ?E"
    if v: "v = u_from u" and s: "State ?l \<in> {StateBegin, StateStaged, StateMigrated}" and pm: "polite m0 u b mg" for x :: Result and mg
    using rollback_kept [where C = C, OF g h l refl s _ _ pm hb C, of ?j] hb v pm ft
    by (auto simp: verdict_def intro!: triple_bind triple_ret)
  have mid: "triple ?k (bind (PointerTarget (u_pf u) ?r) (\<lambda>live.
             if live = ToVersion ?l then bind (complete (u_pf u) ?r ?j ?l) (\<lambda>_. ret x)
             else bind (rollback (u_pf u) ?r ?j ?l mig) (\<lambda>_. ret y))) ?Q ?E" if s: "State ?l = StateMigrated" for x y :: Result
  proof (rule triple_bind)
    show "triple ?k (PointerTarget (u_pf u) ?r) (\<lambda>x m. ?k m \<and> x = v) ?E"
      using sf hb by (intro triple_weaken [OF PointerTarget_kept [where C = C]]) auto
    show "triple (\<lambda>m. ?k m \<and> live = v) (if live = ToVersion ?l then bind (complete (u_pf u) ?r ?j ?l) (\<lambda>_. ret x)
             else bind (rollback (u_pf u) ?r ?j ?l mig) (\<lambda>_. ret y)) ?Q ?E" for live
      using fin undo [OF _ _ mig] s fl nm by (intro triple_fact triple_if) (auto simp: in_flight_def pointer_ok_def)
  qed
  show ?thesis
    unfolding RecoverResult_def
  proof (rule triple_bind [OF op], rule triple_fact)
    fix j
    assume "j = ?j"
    then have lst: "j = ?j" "Last ?j = Some ?l" using ne by (simp_all add: Last_def)
    have po: "pointer_ok u (State ?l) v" "State ?l \<noteq> StateDeferred" "State ?l \<noteq> StateUninstalling" using fl by (simp_all add: in_flight_def)
    from journal_states [OF ap ne] po(2,3) consider "State ?l = StateBegin" | "State ?l = StateStaged" | "State ?l = StateMigrated"
      | "State ?l = StateSwapped" | "State ?l = StateCommitted" | "State ?l = StateRolledBack" by blast
    then show "triple ?k (case Last j of
       None \<Rightarrow> bind (cleanOrphans ?r) (\<lambda>_. ret no_result)
     | Some lst \<Rightarrow>
         let res = \<lparr> Recovered = True, Completed = False, Deferred = False, rFrom = FromVersion lst, rTo = ToVersion lst \<rparr> in
         if State lst = StateCommitted then bind (settleCommitted (u_pf u) ?r lst) (\<lambda>_. ret no_result)
         else if State lst = StateRolledBack then bind (cleanOrphans ?r) (\<lambda>_. ret no_result)
         else if State lst = StateUninstalling then throw [ErrUninstalling, ErrJournal]
         else if State lst = StateDeferred then ret (res\<lparr>Recovered := False, Deferred := True\<rparr>)
         else if State lst = StateSwapped then bind (complete (u_pf u) ?r j lst) (\<lambda>_. ret (res\<lparr>Completed := True\<rparr>))
         else if State lst = StateMigrated then
           bind (PointerTarget (u_pf u) ?r) (\<lambda>live.
             if live = ToVersion lst then bind (complete (u_pf u) ?r j lst) (\<lambda>_. ret (res\<lparr>Completed := True\<rparr>))
             else bind (rollback (u_pf u) ?r j lst mig) (\<lambda>_. ret res))
         else if State lst = StateBegin then bind (rollback (u_pf u) ?r j lst None) (\<lambda>_. ret res)
         else if State lst = StateStaged then bind (rollback (u_pf u) ?r j lst mig) (\<lambda>_. ret res)
         else throw [ErrJournal]) ?Q ?E"
      unfolding lst option.case Let_def
      by cases (use po ft clean settle fin mid undo [OF _ _ mig] undo [OF _ _ polite_None] in \<open>auto simp: pointer_ok_def verdict_def\<close>)
  qed
qed (auto simp: triple_def)


lemma sample_in_flight: "in_flight sample_update ''1.0.0'' sample_begun"
  unfolding in_flight_def pointer_ok_def by code_simp


section \<open>Repeated crashes\<close>

text \<open>A start of the program in which the calls \<open>h\<close> picks fail, and a number of such starts.\<close>

definition rebooted :: "(nat \<Rightarrow> string \<Rightarrow> string \<Rightarrow> error option) \<Rightarrow> nat \<Rightarrow> mem \<Rightarrow> mem" where
  "rebooted h i m = m\<lparr>Fail := h, pid := i, tmpSeq := 0\<rparr>"

fun recoveries :: "pointerForm \<Rightarrow> string \<Rightarrow> Migrator option \<Rightarrow> ((nat \<Rightarrow> string \<Rightarrow> string \<Rightarrow> error option) \<times> nat) list \<Rightarrow> mem \<Rightarrow> mem" where
  "recoveries pf root mig [] m = m"
| "recoveries pf root mig ((h, i) # hs) m = recoveries pf root mig hs (snd (RecoverResult pf root mig (rebooted h i m)))"

lemma rebooted_node [simp]: "node_at (rebooted h i m) = node_at m"
  by (simp add: rebooted_def)

definition honest_hook :: "(nat \<Rightarrow> string \<Rightarrow> string \<Rightarrow> error option) \<Rightarrow> bool" where
  "honest_hook h \<longleftrightarrow> (\<forall>k op name e. h k op name = Some e \<longrightarrow> \<not> IsNotExist e)"

lemma rebooted_honest: "honest_hook h \<Longrightarrow> honest (rebooted h i m)"
  by (auto simp: honest_def hook_err_def rebooted_def honest_hook_def)

lemma recoveries_safe:
  assumes "update_inv u v recs (node_at m)" "in_flight u v recs"
    and "\<forall>h\<in>fst ` set hs. honest_hook h"
    and "\<And>m0. polite m0 u (hooked m0) mig"
  shows "\<exists>recs'. update_inv u v recs' (node_at (recoveries (u_pf u) (abs_path (u_root u)) mig hs m)) \<and> in_flight u v recs'"
  using assms(1,2,3)
proof (induction hs arbitrary: m recs)
  case (Cons x hs)
  obtain h i where x: "x = (h, i)" by (cases x)
  let ?m = "rebooted h i m"
  have hn: "honest ?m" using Cons.prems(3) x by (intro rebooted_honest) auto
  have k: "kept (\<lambda>_. True) ?m u v recs ?m" using Cons.prems(1) tab_same [of ?m] by (auto simp: kept_def)
  have v: "v = u_to u \<or> v = u_from u" using Cons.prems(2) by (auto simp: in_flight_def pointer_ok_def split: if_splits)
  have sf: "safe (\<lambda>_. True) ?m u v w" if "resting (\<lambda>_. True) ?m u v (verdict u v) w" for w
    using that v by (auto simp: resting_def verdict_def pointer_ok_def split: if_splits intro: safeI)
  have "triple (kept (\<lambda>_. True) ?m u v recs) (RecoverResult (u_pf u) (abs_path (u_root u)) mig) (\<lambda>_. safe (\<lambda>_. True) ?m u v) (\<lambda>_. safe (\<lambda>_. True) ?m u v)"
    using sf by (intro triple_weaken [OF RecoverResult_kept [where C = "\<lambda>_. True", OF hn assms(4) _ Cons.prems(2) anything]]) (auto dest: resting_mono)
  from triple_snd [OF this k] obtain recs' where
    "update_inv u v recs' (node_at (snd (RecoverResult (u_pf u) (abs_path (u_root u)) mig ?m)))" "in_flight u v recs'"
    by (auto simp: safe_def kept_def tab_def)
  from Cons.IH [OF this] Cons.prems(3) show ?case by (simp add: x)
qed auto



section \<open>Deferred updates and uninstalls\<close>

text \<open>
  C6.  What recovery leaves alone.  A deferred update is nothing to recover: whatever calls fail, the
  tree is exactly as it was, staged version and staging area included, and without a failing call
  the result says so.  An installation being uninstalled is refused, likewise untouched.
\<close>

theorem Recover_leaves_resting:
  assumes "update_inv u v recs (node_at m)" and "honest m"
    and "State (last recs) = StateDeferred \<or> State (last recs) = StateUninstalling"
    and "RecoverResult (u_pf u) (abs_path (u_root u)) mig m = (r, m')"
  shows "node_at m' = node_at m \<and>
    (\<not> hooked m \<longrightarrow> r = (if State (last recs) = StateDeferred
      then Inr \<lparr> Recovered = False, Completed = False, Deferred = True, rFrom = u_from u, rTo = u_to u \<rparr>
      else Inl [ErrUninstalling, ErrJournal]))"
proof -
  have j: "recs \<noteq> []" "of_update u (last recs)" using assms(1) by (auto simp: update_inv_def journal_at_def)
  let ?f = "node_at m" and ?res = "\<lparr> Recovered = False, Completed = False, Deferred = True, rFrom = u_from u, rTo = u_to u \<rparr>"
  have "triple (tab m ?f) (RecoverResult (u_pf u) (abs_path (u_root u)) mig)
      (\<lambda>x w. tab m ?f w \<and> State (last recs) = StateDeferred \<and> x = ?res)
      (\<lambda>e w. tab m ?f w \<and> (hooked m \<or> State (last recs) = StateUninstalling \<and> e = [ErrUninstalling, ErrJournal]))"
    (is "triple _ _ ?Q ?E")
  proof -
    have op: "triple (tab m ?f) (Open_journal (abs_path (u_root u)))
      (\<lambda>j w. tab m ?f w \<and> j = \<lparr> jroot = abs_path (u_root u), records = recs \<rparr>) ?E"
      by (rule triple_weaken [OF Open_plain [OF assms(2,1)]]) auto
    show ?thesis
      unfolding RecoverResult_def
      by (rule triple_bind [OF op], rule triple_fact)
        (use assms(3) j in \<open>auto simp: Last_def Let_def of_update_def intro!: triple_ret triple_throw\<close>)
  qed
  from triple_Inr [OF this tab_same] triple_Inl [OF this tab_same] show ?thesis
    using assms(4) by (cases r) (auto simp: tab_def)
qed

theorem Recover_leaves_resting_witness:
  "fst (RecoverResult symlinkPointer ''/'' None (sample_disk ''1.0.0'' sample_deferred)) =
     Inr \<lparr> Recovered = False, Completed = False, Deferred = True, rFrom = ''1.0.0'', rTo = ''1.1.0'' \<rparr>"
proof -
  have s: "State (last sample_deferred) = StateDeferred" by (simp add: sample_deferred_def sample_record_def)
  show ?thesis
    using Recover_leaves_resting [OF sample_inv sample_disk_env(2), of "''1.0.0''" sample_deferred None
      "fst (RecoverResult symlinkPointer ''/'' None (sample_disk ''1.0.0'' sample_deferred))"
      "snd (RecoverResult symlinkPointer ''/'' None (sample_disk ''1.0.0'' sample_deferred))"]
      sample_histories [of sample_deferred] s sample_disk_env(1) sample_keys(1)
    by (simp add: sample_update_def)
qed

end
