(* ===== verification/RollbackLaws.thy ===== *)
theory RollbackLaws
  imports RecoverSafe
begin

text \<open>
  Undoing an update in the process that made it, when \<open>current\<close> may already name the new version.
\<close>

section \<open>Moving the pointer back\<close>

lemma inv_point:
  assumes inv: "update_inv u v recs f" and pt: "points_to u (f(current_key u := x)) w"
    and nd: "\<And>n. x = Some n \<Longrightarrow> \<not> isDir n"
    and to: "w = u_to u \<Longrightarrow> \<forall>q. in_tree (version_key_of u (u_to u)) q \<longrightarrow> f q = u_snap u q"
  shows "update_inv u w recs (f(current_key u := x))"
proof -
  note p = inv_parts [OF inv] and s = update_simples [OF inv_parts(1) [OF inv]]
  let ?g = "f(current_key u := x)" and ?c = "current_key u"
  have eq: "abs_path qs = ?c \<longleftrightarrow> qs = u_root u @ [CurrentName]" if "simples qs" for qs
    using abs_path_inj [OF that, of "u_root u @ [CurrentName]"] s by auto
  have d: "dirs_tab ?g ds" if "dirs_tab f ds" "ds = meta_dir u \<or> ds = versions_dir u" for ds
  proof -
    have "abs_path (take i ds) \<noteq> ?c" for i
    proof -
      have "simples (take i ds)" using that s by (auto simp: dirs_tab_def simples_def dest!: in_set_takeD)
      moreover have "take i ds \<noteq> u_root u @ [CurrentName]"
      proof
        assume a: "take i ds = u_root u @ [CurrentName]"
        then have "length (take i ds) = Suc (length (u_root u))" by simp
        then have "length (u_root u) < i" by simp
        then show False using a that(2) names_distinct by (auto simp: take_Cons')
      qed
      ultimately show ?thesis using eq by blast
    qed
    then show ?thesis using that(1) by (simp add: dirs_tab_def)
  qed
  have m: "abs_path (meta_dir u @ e # es) \<noteq> ?c" if "simples (e # es)" for e es
    using eq [of "meta_dir u @ e # es"] that s by auto
  have t: "tmp_of i (journal_key u) k \<noteq> ?c" "tmp_of i (state_key u) k \<noteq> ?c" "tmp_of i ?c k \<noteq> ?c" for i k
  proof -
    have pc: "protected u v ?c" by (simp add: protected_def)
    show "tmp_of i (journal_key u) k \<noteq> ?c" "tmp_of i (state_key u) k \<noteq> ?c" "tmp_of i ?c k \<noteq> ?c"
      using scratch_unprotected(1) [OF p(1) scratch_place_tmp(1) [OF p(1)] pc, of i k]
        scratch_unprotected(1) [OF p(1) scratch_place_tmp(2) [OF p(1)] pc, of i k] by (metis in_tree_self)+ (simp add: tmp_of_def)
  qed
  have j: "journal_key u \<noteq> ?c" "state_key u \<noteq> ?c" "staging_key u \<noteq> ?c" "pending_key u \<noteq> ?c"
    using m [of JournalName "[]"] m [of StateName "[]"] m [of StagingName "[]"] m [of StagingName "[u_to u @ launcherPendingSuffix]"]
      s simple_pending by simp_all
  have nd0: "\<not> isDir n" if "f ?c = Some n" for n using ptr.points_not_dir [OF p(6) that] .
  have wf: "wf_tab ?g" by (rule wf_tab_file [OF p(5,4) _ refl nd0]) simp
  have tree: "?g q = f q" if "in_tree (version_key_of u w) q" "simple w" for w q
  proof -
    have "\<not> in_tree (version_key_of u w) ?c" using in_tree_abs [of "versions_dir u @ [w]" "u_root u @ [CurrentName]"] s that(2) by auto
    then show ?thesis using that(1) by auto
  qed
  have "trees_ok u ?g"
    using inv tree s to ptr.points_unique [OF pt] p(1) by (auto simp: update_inv_def trees_ok_def good_update_def)
  moreover have "base_ok u ?g"
    using inv d j t wf p by (simp add: update_inv_def base_ok_def)
  ultimately show ?thesis using inv pt j by (simp add: update_inv_def journal_at_def)
qed

lemma repointed_kept:
  assumes inv: "update_inv u v recs f" and f: "u_from u \<noteq> []" and r: "repointed (u_pf u) m0 f (u_root u) (u_from u) m"
  shows "kept (\<lambda>_. True) m0 u (u_from u) recs m"
proof -
  obtain n k where n: "holds_ptr (u_pf u) (Some n) (relVersionTarget (u_from u))"
    and t: "tab m0 (f(tmp_of (pid m0) (current_key u) k := None, current_key u \<mapsto> n)) m" using r by (auto simp: repointed_def)
  have "tmp_key u (tmp_of (pid m0) (current_key u) k) None" using ptr.litter_None by (auto simp: tmp_key_def)
  note inv1 = inv_tmp [OF inv this]
  have "ValidVersion (u_from u)" using inv_parts(1) [OF inv] f by (simp add: good_update_def good_version_def short_version_def)
  then have "update_inv u (u_from u) recs (f(tmp_of (pid m0) (current_key u) k := None, current_key u \<mapsto> n))"
    using n f ptr.holds_file [OF n] inv_parts(1) [OF inv] by (intro inv_point [OF inv1]) (auto simp: ptr.points_def good_update_def)
  then show ?thesis using t by (simp add: keptI)
qed

text \<open>Without failing calls, and with no scratch link of this process in the way.\<close>

lemma restore_moves:
  assumes inv: "update_inv u v recs f" and nh: "\<not> hooked m0" and cs: "clear_scratch m0 f (current_key u)"
    and dir: "u_from u \<noteq> [] \<longrightarrow> dirs_tab f (versions_dir u @ [u_from u])" and l: "FromVersion lst = u_from u"
  shows "triple (tab m0 f) (restorePointer (u_pf u) (abs_path (u_root u)) lst) (\<lambda>_. kept (\<lambda>_. True) m0 u (u_from u) recs) (\<lambda>_ _. False)"
proof -
  note p = inv_parts [OF inv] and s = update_simples [OF inv_parts(1) [OF inv]]
  have nd0: "\<not> isDir n" if "f (current_key u) = Some n" for n using ptr.points_not_dir [OF p(6) that] .
  show ?thesis
  proof (cases "u_from u = []")
    case True
    have "f q = None" if "prefix (current_key u @ ''/'') q" for q by (rule wf_tab_below [OF p(5) abs_path_nonempty nd0 that])
    note rm = Remove_plain [OF p(4) _ refl this, of CurrentName m0]
    have g: "update_inv u (u_from u) recs (f(current_key u := None))"
      using True p(1) by (intro inv_point [OF inv]) (auto simp: ptr.points_def good_update_def)
    have i: "f(current_key u := None) = f" if "f (current_key u) = None" using that by (simp add: fun_upd_idem)
    have "triple (tab m0 f) (Remove (current_key u)) (\<lambda>_. kept (\<lambda>_. True) m0 u (u_from u) recs) (\<lambda>e m. kept (\<lambda>_. True) m0 u (u_from u) recs m \<and> e = [ErrNotExist])"
      using keptI [where C = "\<lambda>_. True", OF g] nh i by (intro triple_weaken [OF rm]) (auto dest: hook_err_hooked)
    then have "triple (tab m0 f) (RemovePointer (abs_path (u_root u))) (\<lambda>_. kept (\<lambda>_. True) m0 u (u_from u) recs) (\<lambda>_ _. False)"
      unfolding RemovePointer_def layout_paths(1) [OF root_path [OF p(1)]]
      by (rule triple_attempt) (auto simp: triple_def ret_def IsNotExist_def)
    then show ?thesis using True l by (simp add: restorePointer_def)
  next
    case False
    let ?d = "version_key_of u (u_from u)"
    have sv: "short_version (u_from u)" using p(1) False by (simp add: good_update_def good_version_def)
    have vd: "VersionDir (abs_path (u_root u)) (u_from u) = Inr ?d"
      using layout_paths(7) [OF root_path [OF p(1)]] sv by (simp add: short_version_def)
    have pt: "triple (tab m0 f) (PointerTarget (u_pf u) (abs_path (u_root u))) (\<lambda>x m. tab m0 f m \<and> x = v) (\<lambda>_ _. False)"
      using nh by (intro triple_weaken [OF PointerTarget_plain [OF p(4,6)]]) auto
    have st: "triple (tab m0 f) (wrap ErrJournal (Stat ?d)) (\<lambda>_. tab m0 f) (\<lambda>_ _. False)"
    proof -
      have "\<exists>i. Stat ?d m = (Inr i, m)" if t: "tab m0 f m" for m
      proof -
        have d: "dirs_ok m (versions_dir u @ [u_from u])" using dir False t by (simp add: dirs_ok_tab tab_def)
        then obtain n where "node_at m ?d = Some n" by (auto simp: dirs_ok_def real_dir_def dest!: spec [of _ "length (versions_dir u @ [u_from u])"])
        then show ?thesis using resolve_dir [OF d] by (simp add: Stat_def stat_def node_def)
      qed
      then show ?thesis by (intro triple_wrap) (fastforce simp: triple_def)
    qed
    have sp: "triple (tab m0 f) (SetPointer (u_pf u) (abs_path (u_root u)) (u_from u)) (\<lambda>_. kept (\<lambda>_. True) m0 u (u_from u) recs) (\<lambda>_ _. False)"
      using p(8) nh cs repointed_kept [OF inv False]
      by (intro triple_weaken [OF SetPointer_plain [OF p(4,5) nd0 _ sv]]) (auto simp: scratch_ok_def)
    have stay: "kept (\<lambda>_. True) m0 u (u_from u) recs m" if "tab m0 f m" "v = u_from u" for m using that inv by (auto intro: keptI)
    show ?thesis
      unfolding restorePointer_def l vd bind_lift if_not_P [OF False]
    proof (rule triple_bind [OF pt], rule triple_fact)
      fix live
      assume "live = v"
      then show "triple (tab m0 f) (if live = u_from u then ret () else bind (wrap ErrJournal (Stat ?d)) (\<lambda>_. SetPointer (u_pf u) (abs_path (u_root u)) (u_from u)))
         (\<lambda>_. kept (\<lambda>_. True) m0 u (u_from u) recs) (\<lambda>_ _. False)"
        by (intro triple_if triple_ret triple_bind [OF st sp]) (auto intro: stay)
    qed
  qed
qed

text \<open>
  C7.  Undoing a swapped update.  When no call and no hook fails, \<open>Rollback\<close> takes an update that got as
  far as the swap back: \<open>current\<close> names the old version again, the tree of that version is intact, and
  the journal says \<open>ROLLED_BACK\<close>.
\<close>

theorem Rollback_undoes_swap:
  assumes "update_inv u (u_to u) recs (node_at m)" and "State (last recs) = StateSwapped" and "\<not> hooked m"
    and "clear_scratch m (node_at m) (current_key u)"
    and "u_from u \<noteq> [] \<longrightarrow> dirs_ok m (versions_dir u @ [u_from u])" and "polite m u False mig"
    and "Rollback (u_pf u) (abs_path (u_root u)) mig m = (r, m')"
  shows "r = Inr () \<and> (\<exists>recs'. update_inv u (u_from u) recs' (node_at m') \<and> State (last recs') = StateRolledBack)"
proof -
  let ?f = "node_at m" and ?j = "\<lparr> jroot = abs_path (u_root u), records = recs \<rparr>" and ?l = "last recs"
  let ?Q = "\<lambda>_. resting (tidy (\<lambda>_. True) u) m u (u_from u) StateRolledBack"
  have l: "recs \<noteq> []" "of_update u ?l" "good_update u" using assms(1) by (auto simp: update_inv_def journal_at_def)
  have n: "FromVersion ?l = u_from u" using l by (simp add: of_update_def)
  have op: "triple (tab m ?f) (Open_journal (abs_path (u_root u))) (\<lambda>j w. tab m ?f w \<and> j = ?j) (\<lambda>_ _. False)"
    using assms(3) by (intro triple_weaken [OF Open_plain [OF not_hooked_honest assms(1)]]) auto
  have rp: "triple (tab m ?f) (restorePointer (u_pf u) (abs_path (u_root u)) ?l) (\<lambda>_. kept (\<lambda>_. True) m u (u_from u) recs) (\<lambda>_ _. False)"
    using restore_moves [OF assms(1,3,4) _ n] assms(5) by (simp add: dirs_ok_tab)
  have "triple (kept (\<lambda>_. True) m u (u_from u) recs) (rollback_tail u ?j ?l mig) ?Q (\<lambda>_ _. False)"
    using assms(2,3) by (intro triple_weaken [OF tail_kept [where C = "\<lambda>_. True", OF l(3,2) refl _ _ _ assms(6)]]) auto
  from triple_bind [OF rp this] have rb: "triple (tab m ?f) (rollback (u_pf u) (abs_path (u_root u)) ?j ?l mig) ?Q (\<lambda>_ _. False)"
    unfolding rollback_split [OF l(2)] .
  have "triple (tab m ?f) (Rollback (u_pf u) (abs_path (u_root u)) mig) ?Q (\<lambda>_ _. False)"
    unfolding Rollback_def by (rule triple_bind [OF op], rule triple_fact) (use l assms(2) rb in \<open>simp add: Last_def\<close>)
  from triple_Inr [OF this tab_same] triple_Inl [OF this tab_same] show ?thesis
    using assms(7) by (cases r) (auto simp: resting_def kept_def tab_def)
qed



definition failing_migrator :: Migrator where
  "failing_migrator = \<lparr> Migrate = (\<lambda>_. ret ()), Rollback_hook = (\<lambda>_. throw [ErrHook]) \<rparr>"

lemma sample_swapped_ok:
  "update_inv sample_update (u_to sample_update) sample_swapped (node_at (sample_disk ''1.1.0'' sample_swapped))"
  "State (last sample_swapped) = StateSwapped"
  "clear_scratch (sample_disk ''1.1.0'' sample_swapped) (node_at (sample_disk ''1.1.0'' sample_swapped)) (current_key sample_update)"
  "dirs_ok (sample_disk ''1.1.0'' sample_swapped) (versions_dir sample_update @ [u_from sample_update])"
proof -
  have v: "ValidVersion ''1.0.0''" by code_simp
  show "update_inv sample_update (u_to sample_update) sample_swapped (node_at (sample_disk ''1.1.0'' sample_swapped))"
    using sample_inv [of "''1.1.0''" sample_swapped] sample_histories [of sample_swapped] by (simp add: sample_update_def)
  show "State (last sample_swapped) = StateSwapped" by (simp add: sample_swapped_def sample_record_def)
  show "clear_scratch (sample_disk ''1.1.0'' sample_swapped) (node_at (sample_disk ''1.1.0'' sample_swapped)) (current_key sample_update)"
    by (simp add: clear_scratch_def sample_update_def sample_keys sample_node tmp_of_def scratch_suffix_def)
  show "dirs_ok (sample_disk ''1.1.0'' sample_swapped) (versions_dir sample_update @ [u_from sample_update])"
    using simple_version [OF v] unfolding dirs_ok_tab dirs_tab_def by (auto simp: sample_update_def le_Suc_eq sample_keys sample_node)
qed

theorem Rollback_undoes_swap_witness:
  "fst (Rollback symlinkPointer ''/'' None (sample_disk ''1.1.0'' sample_swapped)) = Inr ()"
  using Rollback_undoes_swap [OF sample_swapped_ok(1,2) sample_disk_env(1) sample_swapped_ok(3), of None
      "fst (Rollback symlinkPointer ''/'' None (sample_disk ''1.1.0'' sample_swapped))"
      "snd (Rollback symlinkPointer ''/'' None (sample_disk ''1.1.0'' sample_swapped))"]
    sample_swapped_ok(4) sample_keys(1) by (simp add: sample_update_def)


end
