(* ===== verification/ReleaseLaws.thy ===== *)
theory ReleaseLaws
  imports Release LayoutLaws
begin

text \<open>
  What a release document that parses promises, and which documents parse.
\<close>

section \<open>Descriptors\<close>

definition wf_file :: "FileRef \<Rightarrow> bool" where
  "wf_file f \<longleftrightarrow> (\<exists>es. safe_rel (fr_target f) es) \<and> (\<exists>es. safe_rel (fr_dst f) es) \<and>
     fr_kind f \<in> {KindExe, KindLib, KindData} \<and> unat (fr_mode f) < 512"

definition wf_descriptor :: "Descriptor \<Rightarrow> bool" where
  "wf_descriptor d \<longleftrightarrow> ds_schema d = 1 \<and> ds_layout d = 1 \<and> ds_name d \<noteq> [] \<and> ds_channel d \<noteq> [] \<and> ds_os d \<noteq> [] \<and> ds_arch d \<noteq> [] \<and>
     ValidVersion (ds_version d) \<and> \<not> float_less_0 (ds_rollout d) \<and> \<not> float_above_1 (ds_rollout d) \<and>
     (rq_from (ds_requirements d) = [] \<or> ValidVersion (rq_from (ds_requirements d))) \<and>
     (rq_client (ds_requirements d) = [] \<or> ValidVersion (rq_client (ds_requirements d))) \<and>
     elems (ds_files d) \<noteq> [] \<and> (\<forall>f\<in>set (elems (ds_files d)). wf_file f) \<and>
     distinct (map fr_target (elems (ds_files d))) \<and> distinct (map fr_dst (elems (ds_files d)))"

lemma mode_bits: "and (m :: 32 word) (- 512) = 0 \<longleftrightarrow> unat m < 512"
proof -
  have "(- 512 :: 32 word) = not (mask 9)" by (simp add: mask_eq_exp_minus_1)
  moreover have "and m (not (mask 9)) = push_bit 9 (drop_bit 9 m)"
    by (rule bit_word_eqI) (auto simp: bit_simps)
  moreover have "push_bit 9 (drop_bit 9 m) = 0 \<longleftrightarrow> drop_bit 9 m = 0"
  proof
    assume "push_bit 9 (drop_bit 9 m) = 0"
    then have "drop_bit 9 (push_bit 9 (drop_bit 9 m)) = 0" by simp
    moreover have "drop_bit 9 (push_bit 9 (drop_bit 9 m)) = drop_bit 9 m"
      by (rule bit_word_eqI) (auto simp: bit_simps dest: bit_imp_le_length)
    ultimately show "drop_bit 9 m = 0" by simp
  qed simp
  moreover have "drop_bit 9 m = 0 \<longleftrightarrow> unat m < 512"
    unfolding unsigned_eq_0_iff [where 'a = nat, symmetric] unat_drop_bit_eq by (simp add: drop_bit_eq_div div_eq_0_iff)
  ultimately show ?thesis by simp
qed

lemma CleanTarget_fixed: "(\<exists>t. CleanTarget x = Inr t \<and> t = x) \<longleftrightarrow> (\<exists>es. safe_rel x es)"
  using safe_rel_intro [of x x] safe_rel_Clean by (auto simp: CleanTarget_def)

lemma check_files_Inr:
  "check_files st sd fs = Inr () \<longleftrightarrow> (\<forall>f\<in>set fs. wf_file f) \<and> distinct (map fr_target fs) \<and> distinct (map fr_dst fs) \<and>
     set (map fr_target fs) \<inter> set st = {} \<and> set (map fr_dst fs) \<inter> set sd = {}"
proof (induction fs arbitrary: st sd)
  case (Cons f fs)
  have t: "CleanTarget (fr_target f) = Inr (fr_target f) \<longleftrightarrow> (\<exists>es. safe_rel (fr_target f) es)"
    and d: "Clean (fr_dst f) = Inr (fr_dst f) \<longleftrightarrow> (\<exists>es. safe_rel (fr_dst f) es)"
    using CleanTarget_fixed [of "fr_target f"] CleanTarget_fixed [of "fr_dst f"] by (auto simp: CleanTarget_def)
  have "check_files st sd (f # fs) = Inr () \<longleftrightarrow> CleanTarget (fr_target f) = Inr (fr_target f) \<and> Clean (fr_dst f) = Inr (fr_dst f) \<and>
      fr_kind f \<in> {KindExe, KindLib, KindData} \<and> unat (fr_mode f) < 512 \<and> fr_target f \<notin> set st \<and> fr_dst f \<notin> set sd \<and>
      check_files (fr_target f # st) (fr_dst f # sd) fs = Inr ()"
    by (auto simp: mode_bits split: sum.splits)
  then show ?case
    unfolding t d Cons.IH wf_file_def by auto
qed simp

lemma check_descriptor_Inr: "check_descriptor d = Inr () \<longleftrightarrow> wf_descriptor d"
proof -
  have "validateRequirements r = Inr () \<longleftrightarrow> (rq_from r = [] \<or> ValidVersion (rq_from r)) \<and> (rq_client r = [] \<or> ValidVersion (rq_client r))" for r
    by (auto simp: validateRequirements_def)
  moreover have "(case validateRequirements r of Inl e \<Rightarrow> Inl e | Inr _ \<Rightarrow> k) = Inr () \<longleftrightarrow> validateRequirements r = Inr () \<and> k = Inr ()" for r k
    by (auto split: sum.splits)
  ultimately show ?thesis
    by (auto simp: check_descriptor_def wf_descriptor_def check_files_Inr SchemaVersion_def LayoutSchema_def)
qed

lemma ParseDescriptor_wf: "ParseDescriptor raw = Inr d \<Longrightarrow> wf_descriptor d"
  by (auto simp: ParseDescriptor_def check_descriptor_Inr [symmetric] split: sum.splits)

section \<open>Reading back\<close>

text \<open>The documents as the packer prints them; a rollout of zero is left out.\<close>

definition file_json :: "FileRef \<Rightarrow> json" where
  "file_json f = JObj [(''target'', JStr (fr_target f)), (''dst'', JStr (fr_dst f)), (''mode'', num (uint (fr_mode f))), (''kind'', JStr (fr_kind f))]"

definition requirements_json :: "Requirements \<Rightarrow> json" where
  "requirements_json r = JObj [(''min_from_version'', JStr (rq_from r)), (''min_client_version'', JStr (rq_client r))]"

definition descriptor_json :: "Descriptor \<Rightarrow> json" where
  "descriptor_json d = JObj [(''schema_version'', num (ds_schema d)), (''name'', JStr (ds_name d)), (''version'', JStr (ds_version d)),
     (''channel'', JStr (ds_channel d)), (''os'', JStr (ds_os d)), (''arch'', JStr (ds_arch d)),
     (''files'', JArr (map file_json (elems (ds_files d)))), (''requirements'', requirements_json (ds_requirements d)),
     (''layout_schema'', num (ds_layout d))]"

definition text_descriptor :: "Descriptor \<Rightarrow> bool" where
  "text_descriptor d \<longleftrightarrow> int64 (ds_schema d) \<and> int64 (ds_layout d) \<and> ds_rollout d = (0, 0) \<and>
     valid_utf8 (ds_name d) \<and> valid_utf8 (ds_version d) \<and> valid_utf8 (ds_channel d) \<and> valid_utf8 (ds_os d) \<and> valid_utf8 (ds_arch d) \<and>
     valid_utf8 (rq_from (ds_requirements d)) \<and> valid_utf8 (rq_client (ds_requirements d)) \<and>
     (\<exists>f fs. ds_files d = (f # fs, Suc (length fs)) \<and>
       (\<forall>x\<in>set (f # fs). valid_utf8 (fr_target x) \<and> valid_utf8 (fr_dst x) \<and> valid_utf8 (fr_kind x)))"

lemma dec_uint32_num [simp]: "dec_uint32 (num (uint w)) old = Inr w"
proof -
  have "show_int (uint w) = show_nat (unat w)" by (simp add: show_int_def)
  moreover have "unat w < 2 ^ 32" using unsigned_less [of w, where 'a = nat] by simp
  ultimately show ?thesis
    by (simp add: dec_uint32_def num_def num_of_show_nat list_all_iff show_nat_digits)
qed

lemma decode_struct_obj: "decode_struct names st (JObj kvs) r = decode_fields names st kvs r"
  by (simp add: decode_struct_def)

lemma decode_file: "decode_struct fileFields put_file (file_json f) old = Inr f"
  by (simp add: decode_struct_def file_json_def put_file_def fileFields_def)

lemma decode_requirements: "decode_struct requirementsFields put_requirements (requirements_json r) old = Inr r"
  by (simp add: decode_struct_def requirements_json_def put_requirements_def requirementsFields_def)

lemma dec_files: "dec_elems (decode_struct fileFields put_file) file_zero (map file_json fs) bk = Inr fs"
  by (induction fs arbitrary: bk) (simp_all add: decode_file)

lemma decode_descriptor:
  assumes "text_descriptor d"
  shows "decode_struct descriptorFields put_descriptor (descriptor_json d) descriptor_zero = Inr d"
proof -
  obtain f fs where f: "ds_files d = (f # fs, Suc (length fs))" using assms by (auto simp: text_descriptor_def)
  have "dec_slice (decode_struct fileFields put_file) file_zero (JArr (map file_json (elems (ds_files d)))) ([], 0) = Inr (ds_files d)"
    using dec_files [of "f # fs" "[]"] by (simp add: f elems_def dec_slice_def)
  then show ?thesis
    using assms by (simp add: decode_struct_obj descriptor_json_def put_descriptor_def descriptorFields_def descriptor_zero_def
        decode_requirements text_descriptor_def)
qed

lemma valid_file_json:
  assumes "valid_utf8 (fr_target f)" "valid_utf8 (fr_dst f)" "valid_utf8 (fr_kind f)"
  shows "valid_json (file_json f)" "nesting (file_json f) = 1"
  using assms by (simp_all add: file_json_def ascii_utf8 is_ascii_def)

lemma valid_descriptor_json:
  assumes "text_descriptor d"
  shows "valid_json (descriptor_json d)" "nesting (descriptor_json d) \<le> maxNestingDepth"
proof -
  have r: "valid_json (requirements_json (ds_requirements d))" "nesting (requirements_json (ds_requirements d)) = 1"
    using assms by (simp_all add: requirements_json_def text_descriptor_def ascii_utf8 is_ascii_def)
  have v: "\<forall>x\<in>set (elems (ds_files d)). valid_json (file_json x) \<and> nesting (file_json x) = 1"
    using assms valid_file_json by (auto simp: text_descriptor_def elems_def)
  then have "nesting (JArr (map file_json (elems (ds_files d)))) \<le> 2" by auto
  then show "nesting (descriptor_json d) \<le> maxNestingDepth" using r by (auto simp: descriptor_json_def maxNestingDepth_def)
  show "valid_json (descriptor_json d)"
    using assms r v by (simp add: descriptor_json_def text_descriptor_def ascii_utf8 is_ascii_def)
qed

lemma unmarshal_print:
  assumes "valid_json v" "nesting v \<le> maxNestingDepth"
  shows "unmarshal_value (MarshalIndent v) = Some v" "decode_doc names st zero (MarshalIndent v) = decode_struct names st v zero"
  using decode_print [OF assms, of "[]"] decode_doc_print [OF assms, of "[]" names st zero]
  by (simp_all add: unmarshal_value_def num_end_def More_def skip_space_def)

lemma print_json_nonempty: "valid_json v \<Longrightarrow> MarshalIndent v \<noteq> []"
proof (cases v)
  case (JArr vs)
  then show ?thesis by (cases vs) (simp_all add: MarshalIndent_def)
next
  case (JObj kvs)
  then show ?thesis by (cases kvs) (auto simp: MarshalIndent_def)
next
  case (JNum l)
  assume "valid_json v"
  then show ?thesis using JNum by (auto simp: MarshalIndent_def valid_num_def read_num_def read_int_def)
qed (simp_all add: MarshalIndent_def quote_def)

lemma check_files_keys: "check_all fileFields (map file_json fs) = Inr ()"
  by (induction fs) (simp_all add: check_keys_def file_json_def fileFields_def)

lemma descriptor_keys:
  assumes "text_descriptor d"
  shows "checkDescriptorKeys (MarshalIndent (descriptor_json d)) = Inr ()"
  using unmarshal_print(1) [OF valid_descriptor_json [OF assms]] check_files_keys
  by (simp add: checkDescriptorKeys_def checkKeys_def check_keys_def descriptor_json_def descriptorFields_def raw_member_def
      requirements_json_def requirementsFields_def)

lemma parse_printed:
  assumes "text_descriptor d" "int (length (MarshalIndent (descriptor_json d))) \<le> MaxJSONLen"
  shows "ParseDescriptor (MarshalIndent (descriptor_json d)) = Inr d \<longleftrightarrow> wf_descriptor d"
proof -
  note v = valid_descriptor_json [OF assms(1)]
  have "decodeStrict descriptorFields put_descriptor descriptor_zero (MarshalIndent (descriptor_json d)) = Inr d"
    using unmarshal_print(2) [OF v, of descriptorFields put_descriptor descriptor_zero] decode_descriptor [OF assms(1)]
      print_json_nonempty [OF v(1)] assms(2)
    by (simp add: decodeStrict_def)
  then have "ParseDescriptor (MarshalIndent (descriptor_json d)) = Inr d \<longleftrightarrow> check_descriptor d = Inr ()"
    using descriptor_keys [OF assms(1)] by (auto simp: ParseDescriptor_def split: sum.splits)
  then show ?thesis by (simp add: check_descriptor_Inr)
qed


definition sample_descriptor :: Descriptor where
  "sample_descriptor = \<lparr> ds_schema = 1, ds_name = ''app'', ds_version = ''1.0.0'', ds_channel = ''stable'', ds_os = ''linux'', ds_arch = ''amd64'',
     ds_files = ([\<lparr> fr_target = ''payloads/v1/x'', fr_dst = ''bin/app'', fr_mode = 0x1ED, fr_kind = KindExe \<rparr>], 1),
     ds_requirements = requirements_zero, ds_rollout = (0, 0), ds_layout = 1 \<rparr>"

lemma sample_descriptor_ok:
  "text_descriptor sample_descriptor" "int (length (MarshalIndent (descriptor_json sample_descriptor))) \<le> MaxJSONLen" "wf_descriptor sample_descriptor"
proof -
  show "text_descriptor sample_descriptor"
    by (simp add: text_descriptor_def sample_descriptor_def int64_def requirements_zero_def KindExe_def ascii_utf8 is_ascii_def)
  show "int (length (MarshalIndent (descriptor_json sample_descriptor))) \<le> MaxJSONLen" by code_simp
  have "check_descriptor sample_descriptor = Inr ()" by code_simp
  then show "wf_descriptor sample_descriptor" by (simp add: check_descriptor_Inr)
qed


section \<open>Where the files go\<close>

lemma safe_join:
  assumes "safe_rel c es" "simples rs"
  shows "Join [abs_path rs, c] = abs_path (rs @ es)" "simples es" "es \<noteq> []"
proof -
  show si: "simples es" "es \<noteq> []" using assms(1) good_simples by (simp_all add: safe_rel_def)
  have c: "c = join_with ''/'' es" using assms(1) by (simp add: safe_rel_def)
  have ne: "c \<noteq> []" using c simples_join_Nil [OF si(1)] si(2) by simp
  have "Join [abs_path rs, c] = path_clean (join_with ''/'' [abs_path rs, c])"
    using ne by (simp add: Join_def path_join_def Slash_def abs_path_def)
  also have "join_with ''/'' [abs_path rs, c] = join_with ''/'' (abs_path rs # es)"
    using c si(2) by (simp add: join_with_Cons)
  finally show "Join [abs_path rs, c] = abs_path (rs @ es)" using join_abs_path [OF assms(2) si(1,2)] by simp
qed

text \<open>
  C28.  Where an accepted release is installed.  Under any install root, every file of a descriptor that
  parses goes strictly below the root, and no two files go to the same place.
\<close>

theorem descriptor_confined:
  assumes "ParseDescriptor raw = Inr d" and "simples rs"
  shows "(\<forall>f\<in>set (elems (ds_files d)). \<exists>es. es \<noteq> [] \<and> simples es \<and> Join [abs_path rs, fr_dst f] = abs_path (rs @ es)) \<and>
    distinct (map (\<lambda>f. Join [abs_path rs, fr_dst f]) (elems (ds_files d)))"
proof -
  let ?fs = "elems (ds_files d)"
  have wf: "\<forall>f\<in>set ?fs. wf_file f" "distinct (map fr_dst ?fs)" using ParseDescriptor_wf [OF assms(1)] by (simp_all add: wf_descriptor_def)
  have one: "\<exists>es. es \<noteq> [] \<and> simples es \<and> Join [abs_path rs, fr_dst f] = abs_path (rs @ es) \<and> fr_dst f = join_with ''/'' es" if f: "f \<in> set ?fs" for f
  proof -
    obtain es where "safe_rel (fr_dst f) es" using wf(1) f by (auto simp: wf_file_def)
    then show ?thesis using safe_join [OF _ assms(2)] by (auto simp: safe_rel_def)
  qed
  have "inj_on (\<lambda>x. Join [abs_path rs, x]) (fr_dst ` set ?fs)"
  proof (rule inj_onI)
    fix x y
    assume "x \<in> fr_dst ` set ?fs" "y \<in> fr_dst ` set ?fs" and e: "Join [abs_path rs, x] = Join [abs_path rs, y]"
    then obtain es es' where x: "simples es" "Join [abs_path rs, x] = abs_path (rs @ es)" "x = join_with ''/'' es"
      and y: "simples es'" "Join [abs_path rs, y] = abs_path (rs @ es')" "y = join_with ''/'' es'" using one by blast
    then have "rs @ es = rs @ es'" using e assms(2) abs_path_inj [of "rs @ es" "rs @ es'"] by simp
    then show "x = y" using x(3) y(3) by simp
  qed
  then have "distinct (map (\<lambda>x. Join [abs_path rs, x]) (map fr_dst ?fs))" using wf(2) by (simp only: distinct_map set_map)
  then show ?thesis using one by (auto simp: comp_def)
qed

theorem descriptor_confined_witness:
  "distinct (map (\<lambda>f. Join [abs_path [''opt''], fr_dst f]) (elems (ds_files sample_descriptor)))"
proof -
  have "ParseDescriptor (MarshalIndent (descriptor_json sample_descriptor)) = Inr sample_descriptor"
    using parse_printed [OF sample_descriptor_ok(1,2)] sample_descriptor_ok(3) by simp
  then show ?thesis by (rule descriptor_confined [THEN conjunct2]) (simp add: simple_def)
qed

section \<open>Spellings\<close>

text \<open>A descriptor whose files are given twice, the first time with a misspelt key.\<close>

definition twice_json :: "Descriptor \<Rightarrow> json" where
  "twice_json d = (case descriptor_json d of JObj kvs \<Rightarrow>
     JObj ((''files'', JArr (map (\<lambda>f. JObj [(''TARGET'', JStr (fr_target f)), (''dst'', JStr (fr_dst f)),
        (''mode'', num (uint (fr_mode f))), (''kind'', JStr (fr_kind f))]) (elems (ds_files d)))) #
       map (\<lambda>(k, v). (k, if k = ''files'' then JArr (map (\<lambda>_. JObj []) (elems (ds_files d))) else v)) kvs) | v \<Rightarrow> v)"

text \<open>
  More than one spelling.  A document in which \<open>files\<close> occurs twice, first with the key \<open>TARGET\<close> in
  capitals and then with empty objects, is accepted and read as the descriptor itself: the first
  array is decoded without regard to case and its elements live on, and the check of the spelling
  sees only the second.
\<close>

theorem misspelt_keys_accepted:
  "MarshalIndent (twice_json sample_descriptor) \<noteq> MarshalIndent (descriptor_json sample_descriptor) \<and>
   ParseDescriptor (MarshalIndent (twice_json sample_descriptor)) = Inr sample_descriptor"
proof -
  let ?v = "twice_json sample_descriptor"
  have v: "valid_json ?v" "nesting ?v \<le> maxNestingDepth" by code_simp+
  have l: "int (length (MarshalIndent ?v)) \<le> MaxJSONLen" "MarshalIndent ?v \<noteq> []"
    "length (MarshalIndent ?v) \<noteq> length (MarshalIndent (descriptor_json sample_descriptor))" by code_simp+
  have d: "decode_struct descriptorFields put_descriptor ?v descriptor_zero = Inr sample_descriptor"
    "check_descriptor sample_descriptor = Inr ()" by code_simp+
  have k: "check_keys descriptorFields ?v = Inr ()" "raw_member ''files'' ?v = Some (JArr [JObj []])"
    "(case raw_member ''requirements'' ?v of None \<Rightarrow> Inr () | Some JNull \<Rightarrow> Inr () | Some w \<Rightarrow> check_keys requirementsFields w) = Inr ()" by code_simp+
  have "checkDescriptorKeys (MarshalIndent ?v) = Inr ()"
    using unmarshal_print(1) [OF v] k by (simp add: checkDescriptorKeys_def checkKeys_def check_keys_def [of fileFields])
  then show ?thesis
    using unmarshal_print(2) [OF v, of descriptorFields put_descriptor descriptor_zero] d l
    by (auto simp: ParseDescriptor_def decodeStrict_def)
qed

end
