(* ===== verification/ReleasePaths.thy ===== *)
theory ReleasePaths
  imports Release LayoutLaws
begin

text \<open>
  The target paths of a repository: each kind of path can be read back, and no path is of two kinds.
\<close>

section \<open>Descriptors and policies\<close>

lemma VersionOfDescriptorPath_iff:
  "VersionOfDescriptorPath p goos goarch = Some v \<longleftrightarrow> p = DescriptorPath goos goarch v \<and> ValidVersion v"
proof -
  let ?pre = "''releases/'' @ goos @ ''-'' @ goarch @ ''/''"
  have "VersionOfDescriptorPath p goos goarch = Some v \<longleftrightarrow>
      prefix ?pre p \<and> cut_suffix ''.json'' (drop (length ?pre) p) = Some v \<and> ValidVersion v"
    by (auto simp: VersionOfDescriptorPath_def Let_def split: option.splits)
  also have "\<dots> \<longleftrightarrow> p = ?pre @ v @ ''.json'' \<and> ValidVersion v"
    by (auto simp: cut_suffix_Some prefix_def)
  finally show ?thesis by (simp add: DescriptorPath_def)
qed

lemma cut_Some: "cut c s = Some (a, b) \<longleftrightarrow> s = a @ c # b \<and> c \<notin> set a"
proof
  assume "cut c s = Some (a, b)"
  then have "c \<in> set s" "a = before c s" "b = after c s" by (auto simp: cut_def split: if_splits)
  then show "s = a @ c # b \<and> c \<notin> set a" using before_after [of c s] set_takeWhileD [of _ "\<lambda>x. x \<noteq> c" s] by (auto simp: before_def)
next
  assume s: "s = a @ c # b \<and> c \<notin> set a"
  then have "before c s = a" using takeWhile_until [of c a b] by (simp add: before_def)
  then show "cut c s = Some (a, b)" using s by (simp add: cut_def after_def)
qed

lemma VersionOfPolicyPath_iff:
  "VersionOfPolicyPath p = Some (goos, goarch, v) \<longleftrightarrow>
     p = PolicyPath goos goarch v \<and> ValidVersion v \<and> goos \<noteq> [] \<and> goarch \<noteq> [] \<and> CHR ''-'' \<notin> set goos \<and>
     slash \<notin> set goos \<and> slash \<notin> set goarch"
proof
  assume "VersionOfPolicyPath p = Some (goos, goarch, v)"
  then obtain rest platform fl where
    "cut_prefix ''releases/'' p = Some rest" "cut CHR ''/'' rest = Some (platform, fl)"
    "cut CHR ''-'' platform = Some (goos, goarch)" "goos \<noteq> []" "goarch \<noteq> []"
    "cut_suffix policySuffix fl = Some v" "ValidVersion v" "PolicyPath goos goarch v = p"
    by (auto simp: VersionOfPolicyPath_def split: option.splits if_splits)
  then show "p = PolicyPath goos goarch v \<and> ValidVersion v \<and> goos \<noteq> [] \<and> goarch \<noteq> [] \<and> CHR ''-'' \<notin> set goos \<and>
     slash \<notin> set goos \<and> slash \<notin> set goarch"
    by (auto simp: cut_Some)
next
  assume a: "p = PolicyPath goos goarch v \<and> ValidVersion v \<and> goos \<noteq> [] \<and> goarch \<noteq> [] \<and> CHR ''-'' \<notin> set goos \<and>
     slash \<notin> set goos \<and> slash \<notin> set goarch"
  then have "cut_prefix ''releases/'' p = Some ((goos @ CHR ''-'' # goarch) @ CHR ''/'' # (v @ policySuffix))"
    by (simp add: cut_prefix_Some PolicyPath_def)
  moreover have "cut CHR ''/'' ((goos @ CHR ''-'' # goarch) @ CHR ''/'' # (v @ policySuffix)) = Some (goos @ CHR ''-'' # goarch, v @ policySuffix)"
    using a unfolding cut_Some by simp
  moreover have "cut CHR ''-'' (goos @ CHR ''-'' # goarch) = Some (goos, goarch)" using a unfolding cut_Some by simp
  moreover have "cut_suffix policySuffix (v @ policySuffix) = Some v" by (simp add: cut_suffix_Some)
  ultimately show "VersionOfPolicyPath p = Some (goos, goarch, v)" using a by (simp add: VersionOfPolicyPath_def)
qed

lemma underscore_not_version: "ValidVersion v \<Longrightarrow> CHR ''_'' \<notin> set v"
proof
  assume "ValidVersion v" "CHR ''_'' \<in> set v"
  then have "version_char (CHR ''_'')" using valid_version_chars by blast
  moreover have "\<not> version_char (CHR ''_'')" unfolding version_char_def by code_simp
  ultimately show False by simp
qed

lemma name_tail:
  assumes "a @ ''_policy'' = y @ slash # w"
  shows "CHR ''_'' \<in> set w"
proof -
  from assms consider us where "us @ ''_policy'' = slash # w" | us where "''_policy'' = us @ slash # w"
    unfolding append_eq_append_conv2 by blast
  then show ?thesis
  proof cases
    case (1 us)
    then show ?thesis by (cases us) auto
  next
    case (2 us)
    then have "slash \<in> set ''_policy''" by (metis in_set_conv_decomp)
    then show ?thesis by simp
  qed
qed

text \<open>
  C29.  Descriptors and policies by name.  Reading the version out of a descriptor path, or platform
  and version out of a policy path, inverts making the path; nothing else is read as one; and no
  policy is ever read as a descriptor, whatever platform is asked for.
\<close>

theorem release_paths_inverse:
  "(VersionOfDescriptorPath p goos goarch = Some v \<longleftrightarrow> p = DescriptorPath goos goarch v \<and> ValidVersion v) \<and>
   (VersionOfPolicyPath p = Some (goos, goarch, v) \<longleftrightarrow> p = PolicyPath goos goarch v \<and> ValidVersion v \<and>
      goos \<noteq> [] \<and> goarch \<noteq> [] \<and> CHR ''-'' \<notin> set goos \<and> CHR ''/'' \<notin> set goos \<and> CHR ''/'' \<notin> set goarch) \<and>
   VersionOfDescriptorPath (PolicyPath goos goarch v) goos' goarch' = None"
proof -
  have "VersionOfDescriptorPath (PolicyPath goos goarch v) goos' goarch' \<noteq> Some w" for w
  proof
    assume "VersionOfDescriptorPath (PolicyPath goos goarch v) goos' goarch' = Some w"
    then have eq: "PolicyPath goos goarch v = DescriptorPath goos' goarch' w" and w: "ValidVersion w"
      by (simp_all add: VersionOfDescriptorPath_iff)
    let ?y = "''releases/'' @ goos' @ ''-'' @ goarch'"
    have "(''releases/'' @ goos @ ''-'' @ goarch @ ''/'' @ v @ ''_policy'') @ ''.json'' = (?y @ ''/'' @ w) @ ''.json''"
      using eq by (simp add: PolicyPath_def DescriptorPath_def policySuffix_def)
    then have e: "(''releases/'' @ goos @ ''-'' @ goarch @ ''/'' @ v) @ ''_policy'' = ?y @ slash # w"
      by (simp only: append_same_eq) simp
    have "slash \<notin> set w" using valid_version_chars [OF w] version_char_facts(1) by blast
    then show False using name_tail [OF e] underscore_not_version [OF w] by blast
  qed
  then have "VersionOfDescriptorPath (PolicyPath goos goarch v) goos' goarch' = None" by (metis option.exhaust)
  then show ?thesis using VersionOfDescriptorPath_iff VersionOfPolicyPath_iff by simp
qed

section \<open>Payloads and patches\<close>

lemma hex_digit_set: "n < 16 \<Longrightarrow> hex_digit n \<in> set ''0123456789abcdef''"
proof -
  have "list_all (\<lambda>n. hex_digit n \<in> set ''0123456789abcdef'') [0..<16]" by code_simp
  then show "n < 16 \<Longrightarrow> hex_digit n \<in> set ''0123456789abcdef''" by (simp only: list_all_iff set_upt) auto
qed

lemma hex_encode_length: "length (hex_encode bs) = 2 * length bs"
  by (induction bs) (simp_all add: hex_encode_def)

lemma of_char_256: "of_char (c :: char) < (256 :: nat)"
  by simp

lemma hex_encode_inj: "hex_encode a = hex_encode b \<Longrightarrow> a = b"
proof (induction a arbitrary: b)
  case Nil
  then show ?case by (cases b) (simp_all add: hex_encode_def)
next
  case (Cons x a)
  then obtain y b' where b: "b = y # b'" by (cases b) (simp_all add: hex_encode_def)
  have e: "hex_digit (of_char x div 16) = hex_digit (of_char y div 16)" "hex_digit (of_char x mod 16) = hex_digit (of_char y mod 16)" "hex_encode a = hex_encode b'"
    using Cons.prems by (simp_all add: b hex_encode_def)
  have "(of_char x :: nat) div 16 = of_char y div 16" "(of_char x :: nat) mod 16 = of_char y mod 16"
    using arg_cong [OF e(1), of hex_val] arg_cong [OF e(2), of hex_val] of_char_256 [of x] of_char_256 [of y] by (simp_all add: hex_val_digit)
  then have "(of_char x :: nat) = of_char y" by (metis div_mult_mod_eq)
  then show ?case using Cons.IH [OF e(3)] b by simp
qed

lemma payloadOfPath_iff:
  "payloadOfPath p = Some (major, h) \<longleftrightarrow> p = ''payloads/v'' @ major @ ''/'' @ h \<and> major \<noteq> [] \<and> list_all is_digit major \<and>
     length h = 64 \<and> list_all (\<lambda>c. c \<in> set ''0123456789abcdef'') h"
proof -
  have "payloadOfPath p = Some (major, h) \<longleftrightarrow> (\<exists>rest. cut_prefix ''payloads/v'' p = Some rest \<and> cut CHR ''/'' rest = Some (major, h)) \<and>
      major \<noteq> [] \<and> list_all is_digit major \<and> length h = 64 \<and> list_all (\<lambda>c. c \<in> set ''0123456789abcdef'') h"
    by (auto simp: payloadOfPath_def split: option.splits if_splits simp del: set_simps)
  moreover have "slash \<notin> set major" if "list_all is_digit major" using that by (auto simp: list_all_iff is_digit_def)
  ultimately show ?thesis by (auto simp: cut_prefix_Some cut_Some simp del: set_simps)
qed

lemma payload_of_PayloadPath:
  assumes "major \<noteq> []" "list_all is_digit major" "length bs = 32"
  shows "payloadOfPath (PayloadPath major bs) = Some (major, hex_encode bs)"
proof -
  have "list_all (\<lambda>c. c \<in> set ''0123456789abcdef'') (hex_encode bs)"
  proof -
    have "hex_digit (of_char c div 16) \<in> set ''0123456789abcdef''" "hex_digit (of_char c mod 16) \<in> set ''0123456789abcdef''" for c :: char
    proof -
      have "of_char c div 16 < (16 :: nat)" using of_char_256 [of c] by linarith
      then show "hex_digit (of_char c div 16) \<in> set ''0123456789abcdef''" by (rule hex_digit_set)
      show "hex_digit (of_char c mod 16) \<in> set ''0123456789abcdef''" by (rule hex_digit_set) simp
    qed
    then show ?thesis unfolding hex_encode_def list_all_iff by fastforce
  qed
  then show ?thesis using assms hex_encode_length [of bs] unfolding payloadOfPath_iff by (simp add: PayloadPath_def)
qed

text \<open>
  C30.  Patches by name.  Between two payloads of 32-byte digests there is a patch path exactly if the
  digests differ; it lies in the release line of the payload it produces, and two pairs of payloads
  that share a patch path have the same digests.
\<close>

theorem PatchPath_exact:
  assumes "major \<noteq> []" "list_all is_digit major" "length a = 32" "major' \<noteq> []" "list_all is_digit major'" "length b = 32"
    and "length a2 = 32" "length b2 = 32"
  shows "PatchPath (PayloadPath major a) (PayloadPath major' b) =
      (if a = b then None else Some (''patches/v'' @ major' @ ''/'' @ hex_encode a @ ''-'' @ hex_encode b)) \<and>
    (a \<noteq> b \<longrightarrow> PatchPath (PayloadPath major a) (PayloadPath major' b) = PatchPath (PayloadPath major a2) (PayloadPath major' b2) \<longrightarrow> a2 = a \<and> b2 = b)"
proof -
  have p: "PatchPath (PayloadPath major x) (PayloadPath major' y) =
      (if x = y then None else Some (''patches/v'' @ major' @ ''/'' @ hex_encode x @ ''-'' @ hex_encode y))" if "length x = 32" "length y = 32" for x y
    using payload_of_PayloadPath [OF assms(1,2) that(1)] payload_of_PayloadPath [OF assms(4,5) that(2)] hex_encode_inj [of x y]
    by (auto simp: PatchPath_def)
  have "a2 = a \<and> b2 = b" if "hex_encode a @ ''-'' @ hex_encode b = hex_encode a2 @ ''-'' @ hex_encode b2"
  proof -
    have "length (hex_encode a) = length (hex_encode a2)" using assms hex_encode_length by simp
    then have "hex_encode a = hex_encode a2" "hex_encode b = hex_encode b2" using that by simp_all
    then show ?thesis using hex_encode_inj by blast
  qed
  then show ?thesis using p [OF assms(3,6)] p [OF assms(7,8)] by (auto split: if_splits)
qed

theorem PatchPath_exact_witness:
  "PatchPath (PayloadPath ''1'' (replicate 32 CHR ''a'')) (PayloadPath ''2'' (replicate 32 CHR ''b'')) =
     Some (''patches/v'' @ ''2'' @ ''/'' @ hex_encode (replicate 32 CHR ''a'') @ ''-'' @ hex_encode (replicate 32 CHR ''b''))"
proof -
  have "replicate 32 (CHR ''a'') \<noteq> replicate 32 (CHR ''b'')" by code_simp
  then show ?thesis
    using PatchPath_exact [of "''1''" "replicate 32 (CHR ''a'')" "''2''" "replicate 32 (CHR ''b'')" "replicate 32 (CHR ''a'')" "replicate 32 (CHR ''b'')"]
    by (simp add: is_digit_def)
qed

end
