(* ===== verification/Sanitize.thy ===== *)
theory Sanitize
  imports Layout
begin

text \<open>
  \<open>SanitizeReason\<close> of \<open>internal/layout/probation.go\<close>: an application's own words made safe to store and
  show, with the functions of the standard library it is made of.
\<close>

definition MaxProbationReason :: nat where "MaxProbationReason = 512"

text \<open>\<open>strings.ToValidUTF8\<close>: a run of invalid bytes becomes one replacement; the flag says that a run is on.\<close>

function to_valid :: "bool \<Rightarrow> string \<Rightarrow> string" where
  "to_valid run [] = []"
| "to_valid run (c # cs) =
     (if is_ascii c then c # to_valid False cs
      else if rune_len (c # cs) = 0 then (if run then [] else rune_error) @ to_valid True cs
      else take (rune_len (c # cs)) (c # cs) @ to_valid False (drop (rune_len (c # cs)) (c # cs)))"
  by pat_completeness auto
termination
  by (relation "measure (length \<circ> snd)") auto

text \<open>\<open>strings.Map\<close> with the function that turns control characters into spaces.\<close>

definition control :: "char \<Rightarrow> bool" where
  "control c \<longleftrightarrow> (of_char c :: nat) < 32 \<or> (of_char c :: nat) = 127"

definition c1_control :: "string \<Rightarrow> bool" where
  "c1_control s = (case s of a # b # _ \<Rightarrow> a = byte 0xC2 \<and> between 0x80 b 0x9F | _ \<Rightarrow> False)"

function map_control :: "string \<Rightarrow> string" where
  "map_control [] = []"
| "map_control (c # cs) =
     (if is_ascii c then (if control c then CHR '' '' else c) # map_control cs
      else if rune_len (c # cs) = 0 then rune_error @ map_control cs
      else (if c1_control (c # cs) then '' '' else take (rune_len (c # cs)) (c # cs)) @ map_control (drop (rune_len (c # cs)) (c # cs)))"
  by pat_completeness auto
termination
  by (relation "measure length") auto

declare to_valid.simps(2) [simp del] map_control.simps(2) [simp del]

text \<open>\<open>utf8.RuneStart\<close>, and the loop that moves the cut to the start of a rune.\<close>

definition RuneStart :: "char \<Rightarrow> bool" where
  "RuneStart c \<longleftrightarrow> \<not> between 0x80 c 0xBF"

fun cut_point :: "string \<Rightarrow> nat \<Rightarrow> nat" where
  "cut_point s 0 = 0"
| "cut_point s (Suc n) = (if RuneStart (s ! Suc n) then Suc n else cut_point s n)"

definition SanitizeReason :: "string \<Rightarrow> string" where
  "SanitizeReason s0 =
     (let s = TrimSpace (map_control (to_valid False s0)) in
      if length s \<le> MaxProbationReason then s else TrimSpace (take (cut_point s MaxProbationReason) s))"

section \<open>Runes\<close>

lemma rune_tail:
  assumes "i < rune_len s" "0 < i"
  shows "\<not> RuneStart (s ! i)"
proof -
  obtain a b r where s: "s = a # b # r" using assms(1) by (cases s rule: rune_len.cases) auto
  have i: "i = 1 \<or> i = 2 \<or> i = 3" using assms by (auto simp: s split: if_splits list.splits)
  show ?thesis
    using i assms by (elim disjE) (auto simp: s RuneStart_def between_def nth_Cons' numeral_eq_Suc split: if_splits list.splits)
qed

lemma rune_start: "rune_len s \<noteq> 0 \<Longrightarrow> RuneStart (hd s)"
  by (cases s rule: rune_len.cases) (auto simp: RuneStart_def between_def split: if_splits)

lemma rune_len_append: "rune_len u \<noteq> 0 \<Longrightarrow> rune_len (u @ w) = rune_len u"
  by (cases u rule: rune_len.cases) (auto split: if_splits list.splits)

lemma ascii_start: "is_ascii c \<Longrightarrow> RuneStart c"
  by (simp add: is_ascii_def RuneStart_def between_def)

text \<open>A rune at the head that is followed by the start of another does not reach past it.\<close>

lemma rune_len_split:
  assumes "rune_len (u @ w) \<noteq> 0" "u \<noteq> []" "w = [] \<or> RuneStart (hd w)"
  shows "rune_len (u @ w) \<le> length u"
proof (rule ccontr)
  assume "\<not> rune_len (u @ w) \<le> length u"
  then have l: "length u < rune_len (u @ w)" by simp
  then have "\<not> RuneStart ((u @ w) ! length u)" using assms(2) by (intro rune_tail) auto
  moreover have "w \<noteq> []" using l rune_len_bound [of "u @ w"] by auto
  then have "(u @ w) ! length u = hd w" by (simp add: nth_append hd_conv_nth)
  ultimately show False using assms(3) \<open>w \<noteq> []\<close> by simp
qed

lemma rune_len_take_eq:
  assumes "rune_len (u @ w) \<noteq> 0" "rune_len (u @ w) \<le> length u"
  shows "rune_len u = rune_len (u @ w)"
proof -
  have t: "take (rune_len (u @ w)) (u @ w) = take (rune_len (u @ w)) u" using assms(2) by simp
  show ?thesis using rune_len_take [OF assms(1), of "drop (rune_len (u @ w)) u"] unfolding t append_take_drop_id .
qed

lemma valid_split:
  assumes "valid_utf8 (u @ w)" "w = [] \<or> RuneStart (hd w)"
  shows "valid_utf8 u \<and> valid_utf8 w"
  using assms
proof (induction u rule: valid_utf8.induct)
  case (2 c cs)
  show ?case
  proof (cases "is_ascii c")
    case True
    then show ?thesis using 2 by simp
  next
    case False
    let ?n = "rune_len ((c # cs) @ w)"
    have n: "?n \<noteq> 0" using 2(3) False by (auto split: if_splits)
    have le: "?n \<le> length (c # cs)" by (rule rune_len_split [OF n _ 2(4)]) simp
    have eq: "rune_len (c # cs) = ?n" by (rule rune_len_take_eq [OF n le])
    have "valid_utf8 (drop ?n ((c # cs) @ w))" using 2(3) False n by (simp del: rune_len.simps drop_Suc_Cons)
    moreover have "drop ?n ((c # cs) @ w) = drop ?n (c # cs) @ w" unfolding drop_append using le by simp
    ultimately have "valid_utf8 (drop (rune_len (c # cs)) (c # cs) @ w)" by (simp only: eq)
    then show ?thesis using 2(2) [OF False] 2(4) False n eq by (simp del: rune_len.simps drop_Suc_Cons)
  qed
qed simp

lemma valid_rune_append:
  assumes "rune_len s \<noteq> 0"
  shows "valid_utf8 (take (rune_len s) s @ t) = valid_utf8 t"
proof -
  obtain c cs where s: "s = c # cs" using assms by (cases s) auto
  let ?n = "rune_len s"
  obtain k where k: "?n = Suc k" using assms by (cases ?n) auto
  have h: "take ?n s @ t = c # (take k cs @ t)" unfolding k by (simp add: s)
  have r: "rune_len (c # (take k cs @ t)) = ?n" using rune_len_take [OF assms, of t] h by simp
  have "\<not> is_ascii c" using rune_head [of c cs] assms s by simp
  moreover have "length (take k cs) = k" using rune_len_bound [of s] unfolding k by (simp add: s)
  then have "drop ?n (c # (take k cs @ t)) = t" unfolding k by simp
  ultimately show ?thesis unfolding h using r k by (simp del: rune_len.simps)
qed

section \<open>Valid, without controls\<close>

lemma to_valid_valid: "valid_utf8 (to_valid run s)"
proof (induction run s rule: to_valid.induct)
  case (2 run c cs)
  have e: "rune_len rune_error = 3" "take 3 rune_error = rune_error" by code_simp+
  then have er: "valid_utf8 (rune_error @ t) = valid_utf8 t" for t using valid_rune_append [of rune_error t] by simp
  show ?case using 2 valid_rune_append [of "c # cs"] er by (simp add: to_valid.simps(2) [of run] del: rune_len.simps drop_Suc_Cons take_Suc_Cons)
qed simp

lemma to_valid_id: "valid_utf8 s \<Longrightarrow> to_valid run s = s"
proof (induction s arbitrary: run rule: valid_utf8.induct)
  case (2 c cs)
  show ?case
  proof (cases "is_ascii c")
    case False
    then have "rune_len (c # cs) \<noteq> 0" "valid_utf8 (drop (rune_len (c # cs)) (c # cs))" using 2(3) by (auto simp del: rune_len.simps drop_Suc_Cons split: if_splits)
    then show ?thesis using 2(2) False by (simp add: to_valid.simps(2) del: rune_len.simps drop_Suc_Cons take_Suc_Cons)
  qed (use 2 in \<open>simp add: to_valid.simps(2)\<close>)
qed simp

lemma map_control_valid: "valid_utf8 s \<Longrightarrow> valid_utf8 (map_control s)"
proof (induction s rule: valid_utf8.induct)
  case (2 c cs)
  show ?case
  proof (cases "is_ascii c")
    case True
    moreover have "is_ascii (CHR '' '')" by (simp add: is_ascii_def)
    ultimately show ?thesis using 2 by (simp add: map_control.simps(2))
  next
    case False
    then have n: "rune_len (c # cs) \<noteq> 0" "valid_utf8 (drop (rune_len (c # cs)) (c # cs))" using 2(3) by (auto simp del: rune_len.simps drop_Suc_Cons split: if_splits)
    have "is_ascii (CHR '' '')" by (simp add: is_ascii_def)
    then show ?thesis using 2(2) False n valid_rune_append [OF n(1)] by (simp add: map_control.simps(2) del: rune_len.simps drop_Suc_Cons take_Suc_Cons)
  qed
qed simp

lemma map_control_append: "valid_utf8 u \<Longrightarrow> map_control (u @ w) = map_control u @ map_control w"
proof (induction u rule: valid_utf8.induct)
  case (2 c cs)
  show ?case
  proof (cases "is_ascii c")
    case False
    then have n: "rune_len (c # cs) \<noteq> 0" "valid_utf8 (drop (rune_len (c # cs)) (c # cs))" using 2(3) by (auto simp del: rune_len.simps drop_Suc_Cons split: if_splits)
    let ?n = "rune_len (c # cs)"
    have a: "rune_len (c # cs @ w) = ?n" using rune_len_append [OF n(1), of w] by simp
    have b: "?n \<le> length (c # cs)" by (rule rune_len_bound)
    have "c1_control (c # cs @ w) = c1_control (c # cs)" using n(1) by (cases cs) (auto simp: c1_control_def)
    moreover have "take ?n (c # cs @ w) = take ?n (c # cs)" "drop ?n (c # cs @ w) = drop ?n (c # cs) @ w"
      using take_append [of ?n "c # cs" w] drop_append [of ?n "c # cs" w] b by simp_all
    ultimately show ?thesis
      using 2(2) [OF False n(1) n(2)] False n(1) a by (simp add: map_control.simps(2) del: rune_len.simps drop_Suc_Cons take_Suc_Cons)
  qed (use 2 in \<open>simp add: map_control.simps(2)\<close>)
qed simp

lemma map_control_length: "valid_utf8 s \<Longrightarrow> length (map_control s) \<le> length s"
proof (induction s rule: valid_utf8.induct)
  case (2 c cs)
  show ?case
  proof (cases "is_ascii c")
    case False
    then have n: "rune_len (c # cs) \<noteq> 0" "valid_utf8 (drop (rune_len (c # cs)) (c # cs))" using 2(3) by (auto simp del: rune_len.simps drop_Suc_Cons split: if_splits)
    then have "length (map_control (drop (rune_len (c # cs)) (c # cs))) \<le> length (c # cs) - rune_len (c # cs)"
      using 2(2) [OF False n(1) n(2)] by (simp del: rune_len.simps drop_Suc_Cons)
    then show ?thesis using False n(1) rune_len_bound [of "c # cs"]
      by (auto simp add: map_control.simps(2) simp del: rune_len.simps drop_Suc_Cons take_Suc_Cons)
  qed (use 2 in \<open>simp add: map_control.simps(2)\<close>)
qed simp

lemma map_control_idem: "valid_utf8 s \<Longrightarrow> map_control (map_control s) = map_control s"
proof (induction s rule: valid_utf8.induct)
  case (2 c cs)
  have sp: "is_ascii (CHR '' '')" "\<not> control (CHR '' '')" by (simp_all add: is_ascii_def control_def)
  show ?case
  proof (cases "is_ascii c")
    case False
    let ?n = "rune_len (c # cs)"
    have n: "?n \<noteq> 0" "valid_utf8 (drop ?n (c # cs))" using 2(3) False by (auto simp del: rune_len.simps drop_Suc_Cons split: if_splits)
    have r: "valid_utf8 (take ?n (c # cs))" using valid_rune_append [OF n(1), of "[]"] by simp
    have t: "map_control (take ?n (c # cs)) = take ?n (c # cs)" if "\<not> c1_control (c # cs)"
    proof -
      obtain k where k: "?n = Suc k" using n(1) by (cases ?n) auto
      have h: "take ?n (c # cs) = c # take k cs" unfolding k by simp
      have rl: "rune_len (c # take k cs) = ?n" using rune_len_take [OF n(1), of "[]"] h by simp
      have "\<not> c1_control (c # take k cs)" using that by (cases cs; cases k) (auto simp: c1_control_def)
      moreover have "take ?n (c # take k cs) = c # take k cs" "drop ?n (c # take k cs) = []" unfolding k by simp_all
      ultimately show ?thesis unfolding h using False rl n(1) by (simp add: map_control.simps(2) del: rune_len.simps)
    qed
    have IH: "map_control (map_control (drop ?n (c # cs))) = map_control (drop ?n (c # cs))" by (rule 2(2) [OF False n])
    show ?thesis
    proof (cases "c1_control (c # cs)")
      case True
      then show ?thesis using False n(1) IH sp by (simp add: map_control.simps(2) del: rune_len.simps drop_Suc_Cons take_Suc_Cons)
    next
      case nc: False
      have "map_control (c # cs) = take ?n (c # cs) @ map_control (drop ?n (c # cs))"
        using False n(1) nc by (simp add: map_control.simps(2) del: rune_len.simps drop_Suc_Cons take_Suc_Cons)
      then show ?thesis using map_control_append [OF r] t [OF nc] IH by simp
    qed
  qed (use 2 sp in \<open>simp add: map_control.simps(2)\<close>)
qed simp

lemma map_control_part:
  assumes "valid_utf8 u" "valid_utf8 w" "map_control (u @ w) = u @ w"
  shows "map_control u = u \<and> map_control w = w"
proof -
  have "map_control u @ map_control w = u @ w" using map_control_append [OF assms(1)] assms(3) by simp
  moreover from arg_cong [OF this, of length] have "length (map_control u) = length u"
    using map_control_length [OF assms(1)] map_control_length [OF assms(2)] by simp
  ultimately show ?thesis by simp
qed

section \<open>Trimming\<close>

definition trimmed :: "string \<Rightarrow> bool" where
  "trimmed s \<longleftrightarrow> (\<forall>w\<in>set space_runes. \<not> prefix w s \<and> \<not> suffix w s)"

lemma space_runes_ok: "\<forall>w\<in>set space_runes. w \<noteq> [] \<and> RuneStart (hd w) \<and> valid_utf8 w"
  by code_simp

lemma trim_left_drop:
  assumes "\<forall>w\<in>set ws. w \<noteq> []"
  shows "\<exists>vs. s = concat vs @ trim_left ws n s \<and> set vs \<subseteq> set ws \<and> (length s \<le> n \<longrightarrow> (\<forall>w\<in>set ws. \<not> prefix w (trim_left ws n s)))"
proof (induction n arbitrary: s)
  case 0
  have "\<forall>w\<in>set ws. \<not> prefix w s" if "length s \<le> 0" using that assms by auto
  then show ?case by (intro exI [of _ "[]"]) simp
next
  case (Suc n)
  show ?case
  proof (cases "find (\<lambda>w. prefix w s) ws")
    case None
    have "\<forall>w\<in>set ws. \<not> prefix w s" using None by (simp add: find_None_iff)
    then show ?thesis using None by (intro exI [of _ "[]"]) simp
  next
    case (Some w)
    then have w: "w \<in> set ws" "prefix w s" by (auto simp: find_Some_iff)
    obtain vs where vs: "drop (length w) s = concat vs @ trim_left ws n (drop (length w) s)" "set vs \<subseteq> set ws"
      "length (drop (length w) s) \<le> n \<longrightarrow> (\<forall>u\<in>set ws. \<not> prefix u (trim_left ws n (drop (length w) s)))"
      using Suc.IH [of "drop (length w) s"] by blast
    have t: "trim_left ws (Suc n) s = trim_left ws n (drop (length w) s)" using Some by simp
    have "s = w @ drop (length w) s" using w(2) by (auto simp: prefix_def)
    also have "\<dots> = w @ concat vs @ trim_left ws n (drop (length w) s)" using vs(1) by (rule arg_cong)
    finally have "s = concat (w # vs) @ trim_left ws (Suc n) s" unfolding t by (simp only: concat.simps append_assoc)
    moreover have "length (drop (length w) s) \<le> n" if "length s \<le> Suc n" using that w(1) assms by (cases w) auto
    ultimately show ?thesis using vs(2,3) w(1) unfolding t by (intro exI [of _ "w # vs"]) simp
  qed
qed

lemma TrimSpace_parts:
  "\<exists>us vs. s = concat us @ TrimSpace s @ concat vs \<and> set us \<subseteq> set space_runes \<and> set vs \<subseteq> set space_runes \<and> trimmed (TrimSpace s)"
proof -
  let ?l = "trim_left space_runes (length s) s" and ?ws = "map rev space_runes"
  let ?r = "trim_left ?ws (length ?l) (rev ?l)"
  have ne: "\<forall>w\<in>set space_runes. w \<noteq> []" "\<forall>w\<in>set ?ws. w \<noteq> []" using space_runes_ok by auto
  obtain us where us: "s = concat us @ ?l" "set us \<subseteq> set space_runes" "\<forall>w\<in>set space_runes. \<not> prefix w ?l"
    using trim_left_drop [OF ne(1), of s "length s"] by auto
  obtain vs where vs: "rev ?l = concat vs @ ?r" "set vs \<subseteq> set ?ws" "\<forall>w\<in>set ?ws. \<not> prefix w ?r"
    using trim_left_drop [OF ne(2), of "rev ?l" "length ?l"] by auto
  have t: "TrimSpace s = rev ?r" by (simp add: TrimSpace_def Let_def)
  have "?l = rev ?r @ concat (rev (map rev vs))" using arg_cong [OF vs(1), of rev] by (simp add: rev_concat rev_map)
  moreover have "set (rev (map rev vs)) \<subseteq> set space_runes" using vs(2) by auto
  moreover have "\<not> suffix w (rev ?r)" if "w \<in> set space_runes" for w
    using vs(3) that by (auto simp: suffix_to_prefix)
  moreover have "\<not> prefix w (rev ?r)" if "w \<in> set space_runes" for w
    using us(3) that calculation(1) prefix_append [of w "rev ?r" "concat (rev (map rev vs))"] by auto
  ultimately show ?thesis using us(1,2) unfolding t trimmed_def by (metis append_assoc)
qed

lemma trimmed_fixed:
  assumes "trimmed s"
  shows "TrimSpace s = s"
proof -
  have stay: "trim_left ws n s = s" if "\<forall>w\<in>set ws. \<not> prefix w s" for ws n s
    using that by (cases n) (auto simp: find_None_iff [THEN iffD2])
  have "trim_left space_runes (length s) s = s" using assms by (intro stay) (simp add: trimmed_def)
  moreover have "trim_left (map rev space_runes) (length s) (rev s) = rev s"
    using assms by (intro stay) (auto simp: trimmed_def suffix_to_prefix)
  ultimately show ?thesis by (simp add: TrimSpace_def Let_def)
qed

lemma concat_runes:
  assumes "set vs \<subseteq> set space_runes"
  shows "concat vs = [] \<or> RuneStart (hd (concat vs))"
  using assms space_runes_ok by (cases vs) (auto simp: hd_append)

lemma TrimSpace_clean:
  assumes "valid_utf8 s" "map_control s = s"
  shows "valid_utf8 (TrimSpace s)" "map_control (TrimSpace s) = TrimSpace s" "trimmed (TrimSpace s)" "length (TrimSpace s) \<le> length s"
proof -
  obtain us vs where p: "s = concat us @ TrimSpace s @ concat vs" "set us \<subseteq> set space_runes" "set vs \<subseteq> set space_runes" "trimmed (TrimSpace s)"
    using TrimSpace_parts by blast
  have cu: "valid_utf8 (concat us @ t) = valid_utf8 t" for t
    using p(2) 
  proof (induction us)
    case (Cons w us)
    have a: "valid_utf8 (x @ t) = valid_utf8 t" if "x \<in> set space_runes" for x t
    proof -
      have "list_all (\<lambda>x. is_ascii (hd x) \<and> length x = 1 \<or> rune_len x = length x \<and> x \<noteq> []) space_runes" by code_simp
      then have "is_ascii (hd x) \<and> length x = 1 \<or> rune_len x = length x \<and> x \<noteq> []" using that by (simp only: list_all_iff)
      then show ?thesis
      proof
        assume "is_ascii (hd x) \<and> length x = 1"
        then show ?thesis by (cases x) auto
      next
        assume r: "rune_len x = length x \<and> x \<noteq> []"
        then show ?thesis using valid_rune_append [of x t] by simp
      qed
    qed
    then show ?case using Cons by simp
  qed simp
  have v: "valid_utf8 (TrimSpace s @ concat vs)" using assms(1) p(1) cu by metis
  have w: "valid_utf8 (TrimSpace s)" "valid_utf8 (concat vs)" using valid_split [OF v concat_runes [OF p(3)]] by simp_all
  show "valid_utf8 (TrimSpace s)" by (rule w(1))
  have u: "valid_utf8 (concat us)" using cu [of "[]"] by simp
  have "map_control (TrimSpace s @ concat vs) = TrimSpace s @ concat vs"
    using map_control_part [OF u v] assms(2) p(1) by metis
  then show "map_control (TrimSpace s) = TrimSpace s" using map_control_part [OF w] by blast
  show "trimmed (TrimSpace s)" by (rule p(4))
  show "length (TrimSpace s) \<le> length s" using arg_cong [OF p(1), of length] by simp
qed

section \<open>The result\<close>

definition clean_reason :: "string \<Rightarrow> bool" where
  "clean_reason s \<longleftrightarrow> valid_utf8 s \<and> map_control s = s \<and> trimmed s \<and> length s \<le> MaxProbationReason"

lemma cut_point_ok: "cut_point s n \<le> n" "cut_point s n = 0 \<or> RuneStart (s ! cut_point s n)"
  by (induction n) auto

lemma SanitizeReason_clean: "clean_reason (SanitizeReason s)"
proof -
  let ?m = "map_control (to_valid False s)"
  let ?t = "TrimSpace ?m"
  have m: "valid_utf8 ?m" "map_control ?m = ?m"
    using map_control_valid map_control_idem to_valid_valid by simp_all
  note t = TrimSpace_clean [OF m]
  show ?thesis
  proof (cases "length ?t \<le> MaxProbationReason")
    case True
    then show ?thesis using t by (simp add: SanitizeReason_def Let_def clean_reason_def)
  next
    case False
    let ?c = "cut_point ?t MaxProbationReason"
    have c: "?c \<le> MaxProbationReason" "?c = 0 \<or> RuneStart (?t ! ?c)" by (rule cut_point_ok)+
    have lc: "?c < length ?t" using c(1) False by simp
    have "valid_utf8 (take ?c ?t) \<and> map_control (take ?c ?t) = take ?c ?t"
    proof (cases "?c = 0")
      case nz: False
      have h: "hd (drop ?c ?t) = ?t ! ?c" using lc by (rule hd_drop_conv_nth)
      have v: "valid_utf8 (take ?c ?t) \<and> valid_utf8 (drop ?c ?t)"
        using t(1) c(2) nz h by (intro valid_split) auto
      then show ?thesis using map_control_part [of "take ?c ?t" "drop ?c ?t"] t(2) by simp
    qed simp
    then have "valid_utf8 (take ?c ?t)" "map_control (take ?c ?t) = take ?c ?t" by simp_all
    note u = TrimSpace_clean [OF this]
    have "length (TrimSpace (take ?c ?t)) \<le> MaxProbationReason" using u(4) c(1) by simp
    then show ?thesis using u False by (simp add: SanitizeReason_def Let_def clean_reason_def)
  qed
qed

lemma SanitizeReason_fixed: "clean_reason s \<Longrightarrow> SanitizeReason s = s"
  by (simp add: SanitizeReason_def Let_def clean_reason_def to_valid_id trimmed_fixed)


end
