(* ===== verification/Probation.thy ===== *)
theory Probation
  imports Sanitize Release
begin

text \<open>
  \<open>internal/layout/probation.go\<close> and \<open>probation_outcome.go\<close>: the record of a committed version that has to
  show it is healthy, and the outcomes of failed probations that wait to be reported.
\<close>

section \<open>The record\<close>

definition ProbationSchema :: int where "ProbationSchema = 1"
definition MaxProbationLen :: int where "MaxProbationLen = 16384"

definition ProbationActive :: string where "ProbationActive = ''probation''"
definition ProbationConfirmed :: string where "ProbationConfirmed = ''confirmed''"
definition ProbationUnhealthy :: string where "ProbationUnhealthy = ''unhealthy''"
definition ProbationReverting :: string where "ProbationReverting = ''reverting''"
definition ProbationReverted :: string where "ProbationReverted = ''reverted''"
definition ProbationKept :: string where "ProbationKept = ''kept''"

lemmas probation_statuses = ProbationActive_def ProbationConfirmed_def ProbationUnhealthy_def
  ProbationReverting_def ProbationReverted_def ProbationKept_def

record BlockedVersion =
  bv_version :: string
  bv_reason :: string

record Probation =
  pb_schema :: int
  pb_version :: string
  pb_previous :: string
  pb_status :: string
  pb_attempts :: int
  pb_attempts_allowed :: int
  pb_restarts :: int
  pb_restarts_allowed :: int
  pb_restart_pending :: bool
  pb_reason :: string
  pb_blocked :: "BlockedVersion option"

definition blocked_zero :: BlockedVersion where
  "blocked_zero = \<lparr> bv_version = [], bv_reason = [] \<rparr>"

definition probation_zero :: Probation where
  "probation_zero = \<lparr> pb_schema = 0, pb_version = [], pb_previous = [], pb_status = [], pb_attempts = 0,
     pb_attempts_allowed = 0, pb_restarts = 0, pb_restarts_allowed = 0, pb_restart_pending = False,
     pb_reason = [], pb_blocked = None \<rparr>"

definition blocked_fields :: "string list" where
  "blocked_fields = [''version'', ''reason'']"

definition probation_fields :: "string list" where
  "probation_fields = [''schema_version'', ''version'', ''previous'', ''status'', ''attempts'', ''attempts_allowed'',
     ''restarts'', ''restarts_allowed'', ''restart_pending'', ''reason'', ''blocked'']"

definition blocked_json :: "BlockedVersion \<Rightarrow> json" where
  "blocked_json b = JObj [(''version'', JStr (bv_version b)), (''reason'', JStr (bv_reason b))]"

text \<open>The members with \<open>omitempty\<close> are left out when empty.\<close>

definition probation_json :: "Probation \<Rightarrow> json" where
  "probation_json p = JObj ([(''schema_version'', num (pb_schema p)), (''version'', JStr (pb_version p)),
     (''previous'', JStr (pb_previous p)), (''status'', JStr (pb_status p)), (''attempts'', num (pb_attempts p)),
     (''attempts_allowed'', num (pb_attempts_allowed p)), (''restarts'', num (pb_restarts p)),
     (''restarts_allowed'', num (pb_restarts_allowed p)), (''restart_pending'', JBool (pb_restart_pending p))] @
     (if pb_reason p = [] then [] else [(''reason'', JStr (pb_reason p))]) @
     (case pb_blocked p of None \<Rightarrow> [] | Some b \<Rightarrow> [(''blocked'', blocked_json b)]))"

definition put_blocked :: "string \<Rightarrow> json \<Rightarrow> BlockedVersion \<Rightarrow> BlockedVersion result" where
  "put_blocked n v b =
     (if n = ''version'' then map_sum id (\<lambda>x. b\<lparr>bv_version := x\<rparr>) (dec_string v (bv_version b))
      else map_sum id (\<lambda>x. b\<lparr>bv_reason := x\<rparr>) (dec_string v (bv_reason b)))"

definition put_probation :: "string \<Rightarrow> json \<Rightarrow> Probation \<Rightarrow> Probation result" where
  "put_probation n v p =
     (if n = ''schema_version'' then map_sum id (\<lambda>x. p\<lparr>pb_schema := x\<rparr>) (dec_int v (pb_schema p))
      else if n = ''version'' then map_sum id (\<lambda>x. p\<lparr>pb_version := x\<rparr>) (dec_string v (pb_version p))
      else if n = ''previous'' then map_sum id (\<lambda>x. p\<lparr>pb_previous := x\<rparr>) (dec_string v (pb_previous p))
      else if n = ''status'' then map_sum id (\<lambda>x. p\<lparr>pb_status := x\<rparr>) (dec_string v (pb_status p))
      else if n = ''attempts'' then map_sum id (\<lambda>x. p\<lparr>pb_attempts := x\<rparr>) (dec_int v (pb_attempts p))
      else if n = ''attempts_allowed'' then map_sum id (\<lambda>x. p\<lparr>pb_attempts_allowed := x\<rparr>) (dec_int v (pb_attempts_allowed p))
      else if n = ''restarts'' then map_sum id (\<lambda>x. p\<lparr>pb_restarts := x\<rparr>) (dec_int v (pb_restarts p))
      else if n = ''restarts_allowed'' then map_sum id (\<lambda>x. p\<lparr>pb_restarts_allowed := x\<rparr>) (dec_int v (pb_restarts_allowed p))
      else if n = ''restart_pending'' then map_sum id (\<lambda>x. p\<lparr>pb_restart_pending := x\<rparr>) (dec_bool v (pb_restart_pending p))
      else if n = ''reason'' then map_sum id (\<lambda>x. p\<lparr>pb_reason := x\<rparr>) (dec_string v (pb_reason p))
      else map_sum id (\<lambda>x. p\<lparr>pb_blocked := x\<rparr>)
        (dec_ptr (decode_struct blocked_fields put_blocked) blocked_zero v (pb_blocked p)))"

definition validate_blocked :: "BlockedVersion \<Rightarrow> unit result" where
  "validate_blocked b =
     (case ValidateVersion (bv_version b) of
        Inl e \<Rightarrow> Inl (ErrLayout # e)
      | Inr _ \<Rightarrow> if bv_reason b \<noteq> SanitizeReason (bv_reason b) then Inl [ErrLayout] else Inr ())"

definition validate_probation :: "Probation \<Rightarrow> unit result" where
  "validate_probation p =
     (case ValidateVersion (pb_version p) of
        Inl e \<Rightarrow> Inl (ErrLayout # e)
      | Inr _ \<Rightarrow> (case ValidateVersion (pb_previous p) of
          Inl e \<Rightarrow> Inl (ErrLayout # e)
        | Inr _ \<Rightarrow>
            if pb_version p = pb_previous p then Inl [ErrLayout]
            else if pb_status p \<notin> {ProbationActive, ProbationConfirmed, ProbationUnhealthy, ProbationReverting, ProbationReverted, ProbationKept}
              then Inl [ErrLayout]
            else if pb_attempts_allowed p < 1 \<or> pb_attempts_allowed p > MaxProbationAttempts then Inl [ErrLayout]
            else if pb_restarts_allowed p < 0 \<or> pb_restarts_allowed p > MaxProbationRestarts then Inl [ErrLayout]
            else if pb_attempts p < 0 \<or> pb_attempts p > pb_attempts_allowed p + 1 then Inl [ErrLayout]
            else if pb_restarts p < 0 \<or> pb_restarts p > pb_restarts_allowed p + 1 then Inl [ErrLayout]
            else if pb_reason p \<noteq> SanitizeReason (pb_reason p) then Inl [ErrLayout]
            else (case pb_blocked p of None \<Rightarrow> Inr () | Some b \<Rightarrow> validate_blocked b)))"

definition check_probation :: "Probation \<Rightarrow> Probation option result" where
  "check_probation p =
     (if pb_schema p \<noteq> ProbationSchema then Inl [ErrLayout]
      else (case validate_probation p of Inl e \<Rightarrow> Inl e | Inr _ \<Rightarrow> Inr (Some p)))"

definition ReadProbation :: "string \<Rightarrow> (mem, Probation option) prog" where
  "ReadProbation root =
     attempt (ReadFile (ProbationFile root) MaxProbationLen)
       (\<lambda>e. if IsNotExist e then ret None else throw (ErrLayout # e))
       (\<lambda>raw. case decode_doc probation_fields put_probation probation_zero raw of
          Inl e \<Rightarrow> throw (ErrLayout # e)
        | Inr p \<Rightarrow> lift (check_probation p))"

definition WriteProbation :: "string \<Rightarrow> Probation \<Rightarrow> (mem, unit) prog" where
  "WriteProbation root p0 =
     (let p = p0\<lparr>pb_schema := ProbationSchema\<rparr> in
      bind (lift (validate_probation p)) (\<lambda>_.
      bind (wrap ErrLayout (MkdirAll (Meta root) DirMode)) (\<lambda>_.
      wrap ErrLayout (WriteFileAtomic (ProbationFile root) (MarshalIndent (probation_json p) @ [byte 10]) MetaFileMode))))"

definition ProbationPins :: "string \<Rightarrow> (mem, string list) prog" where
  "ProbationPins root =
     bind (ReadProbation root) (\<lambda>r. ret (case r of
       None \<Rightarrow> []
     | Some p \<Rightarrow> if pb_status p \<in> {ProbationActive, ProbationUnhealthy, ProbationReverting} then [pb_previous p] else []))"

section \<open>Time\<close>

text \<open>
  An instant in UTC is the number of nanoseconds since the zero time, the first of January of year
  one; the date is that of the proleptic Gregorian calendar, whose years here start in March.
\<close>

type_synonym time = int

definition IsZero :: "time \<Rightarrow> bool" where
  "IsZero t \<longleftrightarrow> t = 0"

definition date_of :: "int \<Rightarrow> int \<times> int \<times> int" where
  "date_of days =
     (let z = days + 306; era = z div 146097; doe = z mod 146097;
          yoe = (doe - doe div 1460 + doe div 36524 - doe div 146096) div 365;
          doy = doe - (365 * yoe + yoe div 4 - yoe div 100);
          mp = (5 * doy + 2) div 153;
          m = (if mp < 10 then mp + 3 else mp - 9) in
      (yoe + era * 400 + (if m \<le> 2 then 1 else 0), m, doy - (153 * mp + 2) div 5 + 1))"

definition zero_pad :: "nat \<Rightarrow> int \<Rightarrow> string" where
  "zero_pad n i = (let s = show_nat (nat i) in replicate (n - length s) (CHR ''0'') @ s)"

text \<open>\<open>Time.MarshalJSON\<close>: RFC 3339 with the nanoseconds that are there; years have four digits.\<close>

definition time_json :: "time \<Rightarrow> json result" where
  "time_json t =
     (let ns = t mod 1000000000; secs = t div 1000000000; s = secs mod 86400;
          (y, mo, d) = date_of (secs div 86400);
          frac = (if ns = 0 then [] else CHR ''.'' # rev (dropWhile (\<lambda>c. c = CHR ''0'') (rev (zero_pad 9 ns)))) in
      if y < 0 \<or> y > 9999 then Inl [ErrJSON]
      else Inr (JStr (zero_pad 4 y @ ''-'' @ zero_pad 2 mo @ ''-'' @ zero_pad 2 d @ ''T'' @
        zero_pad 2 (s div 3600) @ '':'' @ zero_pad 2 (s div 60 mod 60) @ '':'' @ zero_pad 2 (s mod 60) @ frac @ ''Z'')))"

section \<open>Pending outcomes\<close>

definition ProbationOutcomesName :: string where "ProbationOutcomesName = ''probation-outcomes''"

definition ProbationOutcomes :: "string \<Rightarrow> string" where
  "ProbationOutcomes root = Join [root, MetaName, ProbationOutcomesName]"

definition ProbationOutcomeSchema :: int where "ProbationOutcomeSchema = 1"
definition MaxProbationOutcomes :: nat where "MaxProbationOutcomes = 16"

definition ProbationResultRolledBack :: string where "ProbationResultRolledBack = ''rolled_back''"
definition ProbationResultKept :: string where "ProbationResultKept = ''kept''"

definition ProbationClassUnconfirmed :: string where "ProbationClassUnconfirmed = ''unconfirmed''"
definition ProbationClassUnhealthy :: string where "ProbationClassUnhealthy = ''unhealthy''"
definition ProbationClassRestarts :: string where "ProbationClassRestarts = ''restarts''"
definition ProbationClassReinstalled :: string where "ProbationClassReinstalled = ''reinstalled''"

lemmas probation_words = ProbationResultRolledBack_def ProbationResultKept_def ProbationClassUnconfirmed_def
  ProbationClassUnhealthy_def ProbationClassRestarts_def ProbationClassReinstalled_def

record ProbationOutcome =
  oc_schema :: int
  oc_from :: string
  oc_to :: string
  oc_os :: string
  oc_arch :: string
  oc_result :: string
  oc_class :: string
  oc_at :: time

definition outcome_json :: "ProbationOutcome \<Rightarrow> json result" where
  "outcome_json o' = map_sum id (\<lambda>at. JObj [(''schema_version'', num (oc_schema o')), (''from_version'', JStr (oc_from o')),
     (''to_version'', JStr (oc_to o')), (''os'', JStr (oc_os o')), (''arch'', JStr (oc_arch o')),
     (''result'', JStr (oc_result o')), (''class'', JStr (oc_class o')), (''at'', at)]) (time_json (oc_at o'))"

definition validate_outcome :: "ProbationOutcome \<Rightarrow> unit result" where
  "validate_outcome o' =
     (case ValidateVersion (oc_from o') of
        Inl e \<Rightarrow> Inl (ErrLayout # e)
      | Inr _ \<Rightarrow> (case ValidateVersion (oc_to o') of
          Inl e \<Rightarrow> Inl (ErrLayout # e)
        | Inr _ \<Rightarrow>
            if oc_os o' = [] \<or> oc_arch o' = [] \<or> list_ex (\<lambda>c. c \<in> {CHR ''/'', byte 92, CHR '' ''}) (oc_os o' @ oc_arch o') then Inl [ErrLayout]
            else if oc_result o' \<notin> {ProbationResultRolledBack, ProbationResultKept} then Inl [ErrLayout]
            else if oc_class o' \<notin> {ProbationClassUnconfirmed, ProbationClassUnhealthy, ProbationClassRestarts, ProbationClassReinstalled}
              then Inl [ErrLayout]
            else if IsZero (oc_at o') then Inl [ErrLayout]
            else Inr ()))"

definition probationOutcomeName :: "ProbationOutcome \<Rightarrow> string" where
  "probationOutcomeName o' = oc_to o' @ ''_'' @ oc_result o' @ ''_'' @ oc_class o' @ ''.json''"

definition ProbationOutcomeNames :: "string \<Rightarrow> (mem, string list) prog" where
  "ProbationOutcomeNames root =
     attempt (ReadDir (ProbationOutcomes root))
       (\<lambda>e. if IsNotExist e then ret [] else throw (ErrLayout # e))
       (\<lambda>entries. ret (sort (filter (\<lambda>n. suffix ''.json'' n \<and> \<not> contains ''.idunn-'' n) (map iname entries))))"

definition WriteProbationOutcome :: "string \<Rightarrow> ProbationOutcome \<Rightarrow> (mem, unit) prog" where
  "WriteProbationOutcome root o0 =
     (let o' = o0\<lparr>oc_schema := ProbationOutcomeSchema\<rparr>; nm = probationOutcomeName o'; dir = ProbationOutcomes root in
      bind (lift (validate_outcome o')) (\<lambda>_.
      bind (ProbationOutcomeNames root) (\<lambda>pending.
      if length pending \<ge> MaxProbationOutcomes \<and> nm \<notin> set pending then throw [ErrLayout]
      else (case outcome_json o' of
          Inl e \<Rightarrow> throw (ErrLayout # e)
        | Inr j \<Rightarrow>
            bind (wrap ErrLayout (MkdirAll dir DirMode)) (\<lambda>_.
            wrap ErrLayout (WriteFileAtomic (Join [dir, nm]) (MarshalIndent j @ [byte 10]) MetaFileMode))))))"

definition RemoveProbationOutcome :: "string \<Rightarrow> string \<Rightarrow> (mem, unit) prog" where
  "RemoveProbationOutcome root nm = wrap ErrLayout (RemoveAll (Join [ProbationOutcomes root, Base nm]))"

text \<open>What \<open>encoding/json\<close> makes of a stored outcome, an instant among its members, is a parameter: the value, or the
  error for a document that does not decode or has something behind it.\<close>

type_synonym outcome_reader = "string \<Rightarrow> ProbationOutcome result"

definition maxProbationOutcomeLen :: int where "maxProbationOutcomeLen = 4096"

definition ReadProbationOutcome :: "outcome_reader \<Rightarrow> string \<Rightarrow> string \<Rightarrow> (mem, ProbationOutcome) prog" where
  "ReadProbationOutcome outcome_of root nm =
     bind (wrap ErrLayout (ReadFile (Join [ProbationOutcomes root, Base nm]) maxProbationOutcomeLen)) (\<lambda>raw.
     case outcome_of raw of
       Inl e \<Rightarrow> throw (ErrLayout # e)
     | Inr o' \<Rightarrow>
         if oc_schema o' \<noteq> ProbationOutcomeSchema then throw [ErrLayout]
         else bind (lift (validate_outcome o')) (\<lambda>_. ret o'))"

end
