(* ===== verification/Stage.thy ===== *)
theory Stage
  imports Probation
begin

text \<open>
  The parts of \<open>core/stage/stage.go\<close> that work on the install tree alone: the launcher configuration, the
  checked directories of a staging tree, the swap of \<open>current\<close> and the collection of old versions.
\<close>

definition MinRetain :: int where "MinRetain = 2"

section \<open>Where files go\<close>

record Launcher =
  l_source :: string
  l_name :: string

definition Launcher_Enabled :: "Launcher \<Rightarrow> bool" where
  "Launcher_Enabled l \<longleftrightarrow> l_source l \<noteq> [] \<or> l_name l \<noteq> []"

definition SanitizeDst :: "string \<Rightarrow> string result" where
  "SanitizeDst dst = Clean dst"

definition Launcher_Validate :: "Launcher \<Rightarrow> unit result" where
  "Launcher_Validate l =
     (if \<not> Launcher_Enabled l then Inr ()
      else if l_source l = [] \<or> l_name l = [] then Inl [ErrStage]
      else (case SanitizeDst (l_source l) of
        Inl e \<Rightarrow> Inl (ErrStage # e)
      | Inr src \<Rightarrow>
          if src \<noteq> l_source l then Inl [ErrStage]
          else (case ValidateLauncherName (l_name l) of Inl e \<Rightarrow> Inl (ErrStage # e) | Inr _ \<Rightarrow> Inr ())))"

definition splitPath :: "string \<Rightarrow> string list" where
  "splitPath rel = filter (\<lambda>e. e \<noteq> [] \<and> e \<noteq> ''.'') (Split rel)"

definition refuseSymlink :: "string \<Rightarrow> (mem, unit) prog" where
  "refuseSymlink name =
     attempt (Lstat name)
       (\<lambda>e. if IsNotExist e then ret () else throw (ErrStage # e))
       (\<lambda>info. if isSymlink (inode info) then throw [ErrStage] else ret ())"

fun make_dirs :: "string \<Rightarrow> string list \<Rightarrow> (mem, string) prog" where
  "make_dirs dir [] = ret dir"
| "make_dirs dir (e # es) =
     (let d = Join [dir, e] in
      bind (refuseSymlink d) (\<lambda>_.
      bind (wrap ErrStage (MkdirAll d DirMode)) (\<lambda>_. make_dirs d es)))"

definition makeDirs :: "string \<Rightarrow> string \<Rightarrow> (mem, string) prog" where
  "makeDirs base rel = (if rel = ''.'' \<or> rel = [] then ret base else make_dirs base (splitPath rel))"

unbundle bit_operations_syntax

definition file_mode :: "FileRef \<Rightarrow> 32 word" where
  "file_mode f = (if fr_mode f \<noteq> 0 then fr_mode f AND 0x1FF else if fr_kind f = KindExe then 0x1ED else 0x1A4)"

section \<open>The swap\<close>

definition check_stager :: "string \<Rightarrow> unit result" where
  "check_stager root = (if root = [] then Inl [ErrStage] else Inr ())"

definition Swap :: "pointerForm \<Rightarrow> string \<Rightarrow> string \<Rightarrow> (mem, unit) prog" where
  "Swap pf root versionDir =
     bind (lift (check_stager root)) (\<lambda>_.
     bind (lift (ValidateVersion (Base versionDir))) (\<lambda>_.
     bind (wrap ErrStage (Stat versionDir)) (\<lambda>_.
     SetPointer pf root (Base versionDir))))"

section \<open>Old versions\<close>

text \<open>
  \<open>retained\<close>; \<open>sortSlice\<close> is \<open>sort.Slice\<close>, which may order equal elements as it likes.  The versions it
  compares have been compared with the live one before, so none of its comparisons fails.
\<close>

fun split_versions :: "string \<Rightarrow> string list \<Rightarrow> (string list \<times> string list) result" where
  "split_versions live [] = Inr ([], [])"
| "split_versions live (v # vs) =
     (case Compare v live of
        Inl e \<Rightarrow> Inl e
      | Inr c \<Rightarrow> (case split_versions live vs of
          Inl e \<Rightarrow> Inl e
        | Inr (newer, older) \<Rightarrow> Inr (if c > 0 then v # newer else newer, if c < 0 then v # older else older)))"

definition newer_first :: "string \<Rightarrow> string \<Rightarrow> bool" where
  "newer_first a b = (case Compare a b of Inl _ \<Rightarrow> False | Inr c \<Rightarrow> c > 0)"

type_synonym slice_sort = "(string \<Rightarrow> string \<Rightarrow> bool) \<Rightarrow> string list \<Rightarrow> string list"

definition retained :: "slice_sort \<Rightarrow> string list \<Rightarrow> string \<Rightarrow> int \<Rightarrow> string list result" where
  "retained sortSlice versions live retain =
     (case split_versions live versions of
        Inl e \<Rightarrow> Inl e
      | Inr (newer, older) \<Rightarrow> Inr (live # newer @ take (nat (retain - 1)) (sortSlice newer_first older)))"

text \<open>The loop over what goes: it carries on past a directory that will not, and reports them together.\<close>

fun remove_versions :: "string \<Rightarrow> string list \<Rightarrow> error list \<Rightarrow> (mem, error list) prog" where
  "remove_versions root [] failed = ret failed"
| "remove_versions root (v # vs) failed =
     bind (lift (VersionDir root v)) (\<lambda>dir.
     attempt (RemoveAll dir) (\<lambda>e. remove_versions root vs (failed @ [e])) (\<lambda>_. remove_versions root vs failed))"

definition GC :: "slice_sort \<Rightarrow> pointerForm \<Rightarrow> string \<Rightarrow> int \<Rightarrow> (mem, unit) prog" where
  "GC sortSlice pf root retain =
     bind (lift (check_stager root)) (\<lambda>_.
     if retain < MinRetain then throw [ErrStage]
     else bind (PointerTarget pf root) (\<lambda>live.
       if live = [] then ret ()
       else bind (InstalledVersions root) (\<lambda>versions.
            bind (lift (retained sortSlice versions live retain)) (\<lambda>keep.
            bind (wrap ErrIncompleteGC (ProbationPins root)) (\<lambda>pinned.
            bind (remove_versions root (filter (\<lambda>v. v \<notin> set keep \<and> v \<notin> set pinned) versions) []) (\<lambda>failed.
            if failed \<noteq> [] then throw (ErrIncompleteGC # concat failed) else ret ()))))))"

end
