(* ===== verification/LaunchProbation.thy ===== *)
theory LaunchProbation
  imports Stage Recover
begin

text \<open>
  \<open>core/launch/probation.go\<close>: how a start deals with a version on probation.  The migrator and the
  application lock are the host's code and act on the same world; the events for an observer are left
  out, and so is the context, which is only handed on to the host.
\<close>

record AppLock =
  TryLock :: "(mem, bool) prog"
  Unlock :: "(mem, unit) prog"

text \<open>
  What a start is configured with, as far as probation uses it; the pointer form and the platform are those
  of the build, the time is that of the clock.
\<close>

record Options =
  o_form :: pointerForm
  o_root :: string
  o_migrate :: "Migrator option"
  o_lock :: "AppLock option"
  o_now :: time
  o_goos :: string
  o_goarch :: string

record ProbationResult =
  pr_version :: string
  pr_attempt :: int
  pr_restart :: bool
  pr_reverted :: bool
  pr_to :: string
  pr_reason :: string
  pr_kept :: bool
  pr_err :: "error option"

definition no_probation :: ProbationResult where
  "no_probation = \<lparr> pr_version = [], pr_attempt = 0, pr_restart = False, pr_reverted = False, pr_to = [],
     pr_reason = [], pr_kept = False, pr_err = None \<rparr>"

section \<open>What the application reports\<close>

definition mark :: "string \<Rightarrow> string \<Rightarrow> (Probation \<Rightarrow> Probation) \<Rightarrow> (mem, unit) prog" where
  "mark root version change =
     (if root = [] then throw [ErrLaunch]
      else bind (wrap ErrLaunch (ReadProbation root)) (\<lambda>r.
        case r of
          None \<Rightarrow> ret ()
        | Some p \<Rightarrow>
            if pb_version p \<noteq> version \<or> pb_status p \<noteq> ProbationActive then ret ()
            else wrap ErrLaunch (WriteProbation root (change p))))"

definition MarkHealthy :: "string \<Rightarrow> string \<Rightarrow> (mem, unit) prog" where
  "MarkHealthy root version =
     mark root version (\<lambda>p. p\<lparr>pb_status := ProbationConfirmed, pb_restart_pending := False\<rparr>)"

definition MarkUnhealthy :: "string \<Rightarrow> string \<Rightarrow> string \<Rightarrow> (mem, unit) prog" where
  "MarkUnhealthy root version reason =
     mark root version (\<lambda>p. p\<lparr>pb_status := ProbationUnhealthy,
       pb_reason := (if SanitizeReason reason = [] then ''the application reported itself unhealthy'' else SanitizeReason reason)\<rparr>)"

text \<open>Before the application leaves through \<open>Relaunch\<close>; errors are dropped.\<close>

definition markRestart :: "pointerForm \<Rightarrow> string \<Rightarrow> (mem, unit) prog" where
  "markRestart pf root =
     ignore (bind (ReadProbation root) (\<lambda>r.
       case r of
         None \<Rightarrow> ret ()
       | Some p \<Rightarrow>
           if pb_status p \<noteq> ProbationActive then ret ()
           else bind (PointerTarget pf root) (\<lambda>live.
             if live \<noteq> pb_version p then ret ()
             else WriteProbation root
               (p\<lparr>pb_restarts := (if pb_restarts p \<le> pb_restarts_allowed p then pb_restarts p + 1 else pb_restarts p),
                  pb_restart_pending := True\<rparr>))))"

section \<open>Rolling a version back\<close>

definition plural :: "int \<Rightarrow> string \<Rightarrow> string" where
  "plural n noun = (if n = 1 then ''1 '' @ noun else show_int n @ '' '' @ noun @ ''s'')"

definition recordOutcome :: "Options \<Rightarrow> Probation \<Rightarrow> string \<Rightarrow> string \<Rightarrow> (mem, unit) prog" where
  "recordOutcome opts p rslt cls =
     (if cls = [] then ret ()
      else ignore (WriteProbationOutcome (o_root opts)
        \<lparr> oc_schema = 0, oc_from = pb_previous p, oc_to = pb_version p, oc_os = o_goos opts, oc_arch = o_goarch opts,
          oc_result = rslt, oc_class = cls, oc_at = o_now opts \<rparr>))"

text \<open>The previous version is gone: the version stays.\<close>

definition keep_version :: "Options \<Rightarrow> ProbationResult \<Rightarrow> Probation \<Rightarrow> string \<Rightarrow> string \<Rightarrow> (mem, ProbationResult) prog" where
  "keep_version opts pr p reason cls =
     (let p' = p\<lparr>pb_status := ProbationKept,
            pb_reason := SanitizeReason (reason @ ''; '' @ pb_previous p @ '' is no longer installed, so it stays'')\<rparr> in
      bind (WriteProbation (o_root opts) p') (\<lambda>_.
      bind (recordOutcome opts p' ProbationResultKept cls) (\<lambda>_.
      ret (pr\<lparr>pr_kept := True, pr_reason := pb_reason p'\<rparr>))))"

text \<open>From the point where the rollback is recorded: every step can be repeated.\<close>

definition finish_revert :: "Options \<Rightarrow> ProbationResult \<Rightarrow> Probation \<Rightarrow> string \<Rightarrow> string \<Rightarrow> (mem, ProbationResult) prog" where
  "finish_revert opts pr p reason prevDir =
     (let root = o_root opts;
          p' = p\<lparr>pb_status := ProbationReverted, pb_reason := reason, pb_restart_pending := False,
                 pb_blocked := Some \<lparr> bv_version = pb_version p, bv_reason = reason \<rparr>\<rparr> in
      bind (Swap (o_form opts) root prevDir) (\<lambda>_.
      bind (case o_migrate opts of
              None \<Rightarrow> ret ()
            | Some mg \<Rightarrow> Rollback_hook mg
                \<lparr> hc_from = pb_previous p, hc_to = pb_version p, hc_root = root, hc_stage = Staging root \<rparr>) (\<lambda>_.
      bind (ReadInstall root) (\<lambda>r.
      case r of
        None \<Rightarrow> throw [ErrLaunch]
      | Some inst \<Rightarrow>
          bind (if in_version inst \<noteq> pb_previous p then
                  WriteInstall root \<lparr> in_schema = 0, in_name = in_name inst, in_version = pb_previous p, in_layout = LayoutSchema \<rparr>
                else ret ()) (\<lambda>_.
          bind (WriteProbation root p') (\<lambda>_.
          bind (case VersionDir root (pb_version p) of Inl _ \<Rightarrow> ret () | Inr dir \<Rightarrow> ignore (RemoveAll dir)) (\<lambda>_.
          ret (pr\<lparr>pr_reverted := True, pr_to := pb_previous p, pr_reason := reason\<rparr>))))))))"

definition start_revert :: "Options \<Rightarrow> ProbationResult \<Rightarrow> Probation \<Rightarrow> string \<Rightarrow> string \<Rightarrow> string \<Rightarrow> (mem, ProbationResult) prog" where
  "start_revert opts pr p reason cls prevDir =
     (if pb_status p \<noteq> ProbationReverting then
        let p' = p\<lparr>pb_status := ProbationReverting, pb_reason := reason\<rparr> in
        bind (WriteProbation (o_root opts) p') (\<lambda>_.
        bind (recordOutcome opts p' ProbationResultRolledBack cls) (\<lambda>_.
        finish_revert opts pr p' reason prevDir))
      else finish_revert opts pr p reason prevDir)"

definition revert_steps :: "Options \<Rightarrow> ProbationResult \<Rightarrow> Probation \<Rightarrow> string \<Rightarrow> string \<Rightarrow> (mem, ProbationResult) prog" where
  "revert_steps opts pr p reason cls =
     bind (lift (VersionDir (o_root opts) (pb_previous p))) (\<lambda>prevDir.
     attempt (Stat prevDir)
       (\<lambda>e. if \<not> IsNotExist e then throw e
            else if pb_status p = ProbationReverting then throw e
            else keep_version opts pr p reason cls)
       (\<lambda>_. start_revert opts pr p reason cls prevDir))"

text \<open>\<open>revert\<close>: under the lock, if there is one; what stops it ends up in the result, never in the start.\<close>

definition revert :: "Options \<Rightarrow> ProbationResult \<Rightarrow> Probation \<Rightarrow> string \<Rightarrow> string \<Rightarrow> bool \<Rightarrow> (mem, ProbationResult) prog" where
  "revert opts pr0 p reason0 cls locked =
     (let pr = pr0\<lparr>pr_version := pb_version p\<rparr>; reason = SanitizeReason reason0;
          body = attempt (revert_steps opts pr p reason cls) (\<lambda>e. ret (pr\<lparr>pr_err := Some (ErrLaunch # e)\<rparr>)) ret in
      case o_lock opts of
        None \<Rightarrow> body
      | Some lk \<Rightarrow>
          if locked then body
          else attempt (TryLock lk)
            (\<lambda>e. ret (pr\<lparr>pr_err := Some e\<rparr>))
            (\<lambda>held. if \<not> held then ret pr
                    else bind body (\<lambda>r. bind (ignore (Unlock lk)) (\<lambda>_. ret r))))"

section \<open>A start\<close>

definition too_many_restarts :: "Probation \<Rightarrow> string" where
  "too_many_restarts p =
     ''asked to be restarted more than '' @ plural (pb_restarts_allowed p) ''time'' @ '' without confirming it is healthy''"

definition not_confirmed :: "Probation \<Rightarrow> string" where
  "not_confirmed p = ''not confirmed healthy after '' @ plural (pb_attempts_allowed p) ''start''"

definition count_start :: "Options \<Rightarrow> ProbationResult \<Rightarrow> Probation \<Rightarrow> (mem, ProbationResult) prog" where
  "count_start opts pr p =
     attempt (WriteProbation (o_root opts) p) (\<lambda>e. ret (pr\<lparr>pr_err := Some (ErrLaunch # e)\<rparr>)) (\<lambda>_. ret pr)"

definition probation_live :: "Options \<Rightarrow> bool \<Rightarrow> Probation \<Rightarrow> (mem, ProbationResult) prog" where
  "probation_live opts locked p =
     (let pr = no_probation\<lparr>pr_version := pb_version p\<rparr> in
      if pb_status p = ProbationUnhealthy then revert opts no_probation p (pb_reason p) ProbationClassUnhealthy locked
      else if pb_status p = ProbationReverted then revert opts no_probation p (pb_reason p) ProbationClassReinstalled locked
      else if pb_status p = ProbationActive then
        (if pb_restart_pending p then
           (if pb_restarts p > pb_restarts_allowed p then revert opts pr p (too_many_restarts p) ProbationClassRestarts locked
            else count_start opts (pr\<lparr>pr_restart := True\<rparr>) (p\<lparr>pb_restart_pending := False\<rparr>))
         else
           (if pb_attempts p \<ge> pb_attempts_allowed p then revert opts pr p (not_confirmed p) ProbationClassUnconfirmed locked
            else count_start opts (pr\<lparr>pr_attempt := pb_attempts p + 1\<rparr>) (p\<lparr>pb_attempts := pb_attempts p + 1\<rparr>)))
      else ret no_probation)"

definition probation :: "Options \<Rightarrow> bool \<Rightarrow> (mem, ProbationResult) prog" where
  "probation opts locked =
     attempt (ReadProbation (o_root opts))
       (\<lambda>e. ret (no_probation\<lparr>pr_err := Some (ErrLaunch # e)\<rparr>))
       (\<lambda>r. case r of
          None \<Rightarrow> ret no_probation
        | Some p \<Rightarrow>
            if pb_status p = ProbationReverting then revert opts no_probation p (pb_reason p) [] locked
            else attempt (PointerTarget (o_form opts) (o_root opts))
              (\<lambda>e. ret (no_probation\<lparr>pr_err := Some (ErrLaunch # e)\<rparr>))
              (\<lambda>live. if live \<noteq> pb_version p then ret no_probation else probation_live opts locked p))"

end
