(* ===== verification/ProbationLaws.thy ===== *)
theory ProbationLaws
  imports Probation LayoutLaws
begin

text \<open>
  The probation record as a stored document: what makes a record sound, that only sound records are
  written and read, and that a sound record survives writing and reading.
\<close>

definition sound_probation :: "Probation \<Rightarrow> bool" where
  "sound_probation p \<longleftrightarrow> ValidVersion (pb_version p) \<and> ValidVersion (pb_previous p) \<and> pb_version p \<noteq> pb_previous p \<and>
     pb_status p \<in> {ProbationActive, ProbationConfirmed, ProbationUnhealthy, ProbationReverting, ProbationReverted, ProbationKept} \<and>
     1 \<le> pb_attempts_allowed p \<and> pb_attempts_allowed p \<le> MaxProbationAttempts \<and>
     0 \<le> pb_restarts_allowed p \<and> pb_restarts_allowed p \<le> MaxProbationRestarts \<and>
     0 \<le> pb_attempts p \<and> pb_attempts p \<le> pb_attempts_allowed p + 1 \<and>
     0 \<le> pb_restarts p \<and> pb_restarts p \<le> pb_restarts_allowed p + 1 \<and> clean_reason (pb_reason p) \<and>
     (\<forall>b. pb_blocked p = Some b \<longrightarrow> ValidVersion (bv_version b) \<and> clean_reason (bv_reason b))"

lemma sanitized_iff: "r = SanitizeReason r \<longleftrightarrow> clean_reason r"
  using SanitizeReason_clean [of r] SanitizeReason_fixed [of r] by metis

lemma validate_sound: "validate_probation p = Inr () \<longleftrightarrow> sound_probation p"
  by (auto simp: validate_probation_def validate_blocked_def sound_probation_def sanitized_iff not_less
      split: sum.splits option.splits if_splits)

lemma sound_schema [simp]: "sound_probation (p\<lparr>pb_schema := s\<rparr>) = sound_probation p"
  by (simp add: sound_probation_def)

section \<open>Decoding what was encoded\<close>

lemma status_utf8: "s \<in> {ProbationActive, ProbationConfirmed, ProbationUnhealthy, ProbationReverting, ProbationReverted, ProbationKept} \<Longrightarrow> valid_utf8 s"
  by (auto simp: probation_statuses ascii_utf8 is_ascii_def)

lemma sound_text:
  assumes "sound_probation p"
  shows "valid_utf8 (pb_version p)" "valid_utf8 (pb_previous p)" "valid_utf8 (pb_status p)" "valid_utf8 (pb_reason p)"
    "pb_blocked p = Some b \<Longrightarrow> valid_utf8 (bv_version b) \<and> valid_utf8 (bv_reason b)"
    "int64 (pb_attempts p)" "int64 (pb_attempts_allowed p)" "int64 (pb_restarts p)" "int64 (pb_restarts_allowed p)"
  using assms version_utf8 status_utf8
  by (auto simp: sound_probation_def clean_reason_def int64_def MaxProbationAttempts_def MaxProbationRestarts_def)

lemma probation_json_valid:
  assumes "sound_probation p"
  shows "valid_json (probation_json p)" "nesting (probation_json p) \<le> maxNestingDepth"
proof -
  show "valid_json (probation_json p)"
    using sound_text(1-4) [OF assms] sound_text(5) [OF assms, of "the (pb_blocked p)"]
    by (cases "pb_blocked p") (simp_all add: probation_json_def blocked_json_def ascii_utf8 is_ascii_def)
  show "nesting (probation_json p) \<le> maxNestingDepth"
    by (cases "pb_blocked p") (simp_all add: probation_json_def blocked_json_def maxNestingDepth_def)
qed

lemma dec_blocked: "decode_struct blocked_fields put_blocked (blocked_json b) blocked_zero = Inr b"
  by (simp add: blocked_json_def decode_struct_def put_blocked_def blocked_fields_def blocked_zero_def)

lemma decode_struct_JObj: "decode_struct names pt (JObj kvs) r = decode_fields names pt kvs r"
  by (simp add: decode_struct_def)

lemma dec_JBool [simp]: "dec_bool (JBool b) old = Inr b"
  by (simp add: dec_bool_def)

lemma decode_probation_struct:
  assumes "sound_probation p" "int64 (pb_schema p)"
  shows "decode_struct probation_fields put_probation (probation_json p) probation_zero = Inr p"
proof -
  have nn: "blocked_json b \<noteq> JNull" for b by (simp add: blocked_json_def)
  show ?thesis
    using sound_text(6-9) [OF assms(1)] assms(2)
    by (cases "pb_reason p = []"; cases "pb_blocked p")
      (simp_all add: probation_json_def decode_struct_JObj put_probation_def probation_fields_def probation_zero_def
        dec_ptr_def nn dec_blocked)
qed

lemma decode_probation:
  assumes "sound_probation p" "int64 (pb_schema p)"
  shows "decode_doc probation_fields put_probation probation_zero (MarshalIndent (probation_json p) @ [byte 10]) = Inr p"
  using decode_probation_struct [OF assms] by (subst decode_doc_print [OF probation_json_valid [OF assms(1)] newline_end])

section \<open>The document\<close>

definition probation_bytes :: "Probation \<Rightarrow> string" where
  "probation_bytes p = MarshalIndent (probation_json (p\<lparr>pb_schema := ProbationSchema\<rparr>)) @ [byte 10]"

definition parse_probation :: "string \<Rightarrow> Probation option result" where
  "parse_probation raw = (case decode_doc probation_fields put_probation probation_zero raw of
     Inl e \<Rightarrow> Inl (ErrLayout # e) | Inr p \<Rightarrow> check_probation p)"

lemma probation_path: "simples rs \<Longrightarrow> ProbationFile (abs_path rs) = abs_path ((rs @ [MetaName]) @ [ProbationName])"
  by (simp add: ProbationFile_def Join_abs)

interpretation pro: document ProbationName MaxProbationLen parse_probation probation_bytes sound_probation
  "\<lambda>p. p\<lparr>pb_schema := ProbationSchema\<rparr>" ReadProbation WriteProbation
proof unfold_locales
  fix rs :: "string list" and x :: Probation and root :: string
  show "ReadProbation (abs_path rs) = attempt (ReadFile (abs_path ((rs @ [MetaName]) @ [ProbationName])) MaxProbationLen)
      (\<lambda>e. if IsNotExist e then ret None else throw (ErrLayout # e)) (\<lambda>raw. lift (parse_probation raw))" if "simples rs"
    unfolding ReadProbation_def probation_path [OF that]
    by (rule arg_cong [where f = "attempt _ _"]) (auto simp: parse_probation_def fun_eq_iff throw_def lift_def split: sum.splits)
  show "WriteProbation (abs_path rs) x = bind (wrap ErrLayout (MkdirAll (abs_path (rs @ [MetaName])) DirMode)) (\<lambda>_.
      wrap ErrLayout (WriteFileAtomic (abs_path ((rs @ [MetaName]) @ [ProbationName])) (probation_bytes x) MetaFileMode))"
    if "simples rs" "sound_probation x"
  proof -
    have "validate_probation (x\<lparr>pb_schema := ProbationSchema\<rparr>) = Inr ()" using that(2) by (simp add: validate_sound)
    then show ?thesis by (simp add: WriteProbation_def Let_def probation_path [OF that(1)] layout_paths(3) [OF that(1)] probation_bytes_def)
  qed
  show "\<exists>e. WriteProbation root x = throw e" if "\<not> sound_probation x"
  proof -
    have "validate_probation (x\<lparr>pb_schema := ProbationSchema\<rparr>) \<noteq> Inr ()" using that by (simp add: validate_sound)
    then obtain e where "validate_probation (x\<lparr>pb_schema := ProbationSchema\<rparr>) = Inl e" by (cases "validate_probation (x\<lparr>pb_schema := ProbationSchema\<rparr>)") auto
    then show ?thesis by (auto simp: WriteProbation_def)
  qed
qed (simp_all add: MaxProbationLen_def)

lemma check_sound: "check_probation p = Inr x \<longleftrightarrow> x = Some p \<and> pb_schema p = ProbationSchema \<and> sound_probation p"
  using validate_sound [of p] by (cases "validate_probation p") (auto simp: check_probation_def)

lemma parse_probation_bytes: "sound_probation p \<Longrightarrow> parse_probation (probation_bytes p) = Inr (Some (p\<lparr>pb_schema := ProbationSchema\<rparr>))"
  using decode_probation [of "p\<lparr>pb_schema := ProbationSchema\<rparr>"]
  by (simp add: parse_probation_def probation_bytes_def check_sound int64_def ProbationSchema_def)

text \<open>
  C32.  Probation records survive.  Whatever calls fail, \<open>probation.json\<close> holds its old contents or the
  complete new record; with no call failing \<open>WriteProbation\<close> succeeds exactly on a sound record, which
  \<open>ReadProbation\<close> then returns with the schema version filled in.
\<close>

theorem WriteProbation_roundtrip:
  assumes "meta_ok rs (node_at m)" and "name = abs_path ((rs @ [MetaName]) @ [ProbationName])"
    and "plain_file (node_at m name)" and "\<forall>k. plain_file (node_at m (tmp_of (pid m) name k))"
    and "p' = p\<lparr>pb_schema := ProbationSchema\<rparr>" and "bs = MarshalIndent (probation_json p') @ [byte 10]"
    and "int (length bs) \<le> MaxProbationLen" and "WriteProbation (abs_path rs) p m = (r, m')"
  shows "(node_at m' name = node_at m name \<or> node_at m' name = Some (file_node MetaFileMode bs)) \<and>
    (\<not> hooked m \<longrightarrow> (r = Inr () \<longleftrightarrow> sound_probation p)) \<and>
    (\<not> hooked m \<longrightarrow> r = Inr () \<longrightarrow> fst (ReadProbation (abs_path rs) m') = Inr (Some p'))"
  using pro.store_load [OF assms(1-4) parse_probation_bytes _ assms(8)] assms(5-7) by (simp add: probation_bytes_def)

definition sample_probation :: Probation where
  "sample_probation = \<lparr> pb_schema = 1, pb_version = ''2.0.0'', pb_previous = ''1.0.0'', pb_status = ProbationActive, pb_attempts = 0,
     pb_attempts_allowed = 2, pb_restarts = 0, pb_restarts_allowed = 1, pb_restart_pending = False,
     pb_reason = [], pb_blocked = None \<rparr>"

theorem WriteProbation_roundtrip_witness:
  "fst (ReadProbation ''/'' (snd (WriteProbation ''/'' sample_probation NewMem))) = Inr (Some sample_probation)"
proof -
  let ?n = "abs_path (([] @ [MetaName]) @ [ProbationName])"
  have v: "validate_probation sample_probation = Inr ()"
    "int (length (MarshalIndent (probation_json sample_probation) @ [byte 10])) \<le> MaxProbationLen" by code_simp+
  have ok: "sound_probation sample_probation" using v(1) by (simp add: validate_sound)
  have root: "abs_path [] = ''/''" by (simp add: abs_path_def)
  have i: "sample_probation = sample_probation\<lparr>pb_schema := ProbationSchema\<rparr>"
    by (simp add: sample_probation_def ProbationSchema_def)
  have n: "plain_file (node_at NewMem ?n)" "\<forall>k. plain_file (node_at NewMem (tmp_of (pid NewMem) ?n k))"
    by (simp_all add: NewMem_node abs_path_def layout_names tmp_of_def)
  note rt = WriteProbation_roundtrip [OF meta_ok_NewMem refl n i refl v(2), unfolded root, of
      "fst (WriteProbation ''/'' sample_probation NewMem)" "snd (WriteProbation ''/'' sample_probation NewMem)"]
  show ?thesis using rt [OF prod.collapse [symmetric], THEN conjunct2] NewMem_not_hooked ok by blast
qed

text \<open>
  C33.  No record on disk turns probation into "never roll back".  Whatever bytes \<open>probation.json\<close> holds,
  a record that \<open>ReadProbation\<close> returns allows between 1 and 20 attempts and at most 20 restarts, counts
  at most one more than it allows, concerns two different valid versions and carries only clean reasons.
\<close>

theorem ReadProbation_sound:
  assumes "ReadProbation root m = (Inr (Some p), m')"
  shows "sound_probation p \<and> pb_schema p = ProbationSchema \<and> pb_attempts p \<le> 21 \<and> pb_restarts p \<le> 21"
proof -
  have "sound_probation p \<and> pb_schema p = ProbationSchema"
    using assms check_sound
    by (auto simp: ReadProbation_def attempt_def throw_def ret_def lift_def split: prod.splits sum.splits if_splits)
  then show ?thesis by (auto simp: sound_probation_def MaxProbationAttempts_def MaxProbationRestarts_def)
qed

theorem ReadProbation_sound_witness:
  "pb_attempts sample_probation \<le> 21"
proof -
  have m: "fst (ReadProbation ''/'' (snd (WriteProbation ''/'' sample_probation NewMem))) = Inr (Some sample_probation)"
    by code_simp
  have "ReadProbation ''/'' (snd (WriteProbation ''/'' sample_probation NewMem)) =
      (Inr (Some sample_probation), snd (ReadProbation ''/'' (snd (WriteProbation ''/'' sample_probation NewMem))))"
    by (rule prod_eqI) (use m in simp_all)
  from ReadProbation_sound [OF this] show ?thesis by simp
qed

end
