(* ===== verification/LaunchSite.thy ===== *)
theory LaunchSite
  imports LaunchProbation ProbationLaws Triple
begin

text \<open>
  What a start does about a probation, over what it relies on: an abstract specification of the
  start and of the application's reports, the contract of the installation as the launcher sees it, and
  the proof that the launcher implements the specification over every installation with that contract.
\<close>

section \<open>The specification\<close>

text \<open>
  The state of an installation with a record: the version \<open>current\<close> names, the record, and the version of
  the install state.
\<close>

type_synonym site = "string \<times> Probation \<times> string"

definition reverted :: "Probation \<Rightarrow> string \<Rightarrow> Probation" where
  "reverted p reason = p\<lparr>pb_status := ProbationReverted, pb_reason := SanitizeReason reason, pb_restart_pending := False,
     pb_blocked := Some \<lparr> bv_version = pb_version p, bv_reason = SanitizeReason reason \<rparr>\<rparr>"

definition reverting :: "Probation \<Rightarrow> string \<Rightarrow> Probation" where
  "reverting p reason = p\<lparr>pb_status := ProbationReverting, pb_reason := SanitizeReason reason\<rparr>"

text \<open>Why a start rolls back the version that runs, if it does.\<close>

definition verdict_of :: "Probation \<Rightarrow> string option" where
  "verdict_of p =
     (if pb_status p = ProbationUnhealthy \<or> pb_status p = ProbationReverted then Some (pb_reason p)
      else if pb_status p \<noteq> ProbationActive then None
      else if pb_restart_pending p then (if pb_restarts p > pb_restarts_allowed p then Some (too_many_restarts p) else None)
      else if pb_attempts p \<ge> pb_attempts_allowed p then Some (not_confirmed p) else None)"

definition counted :: "Probation \<Rightarrow> Probation" where
  "counted p =
     (if pb_status p \<noteq> ProbationActive then p
      else if pb_restart_pending p then p\<lparr>pb_restart_pending := False\<rparr>
      else p\<lparr>pb_attempts := pb_attempts p + 1\<rparr>)"

fun start_spec :: "site \<Rightarrow> site" where
  "start_spec (v, p, i) =
     (if pb_status p = ProbationReverting then (pb_previous p, reverted p (pb_reason p), pb_previous p)
      else if v \<noteq> pb_version p then (v, p, i)
      else (case verdict_of p of
        Some reason \<Rightarrow> (pb_previous p, reverted p reason, pb_previous p)
      | None \<Rightarrow> (v, counted p, i)))"

fun relaunch_spec :: "site \<Rightarrow> site" where
  "relaunch_spec (v, p, i) =
     (if pb_status p = ProbationActive \<and> v = pb_version p
      then (v, p\<lparr>pb_restarts := min (pb_restarts p + 1) (pb_restarts_allowed p + 1), pb_restart_pending := True\<rparr>, i)
      else (v, p, i))"

text \<open>
  What an interrupted start may leave of a site: the site itself, the counted record, or a rollback in
  which the pointer moves only once the record says so, and the record says it is over only once the
  pointer and the install state are back.
\<close>

fun partway :: "site \<Rightarrow> site \<Rightarrow> bool" where
  "partway (v, p, i) (v', p', i') \<longleftrightarrow>
     (v', p', i') = (v, p, i) \<or>
     (v', p', i') = start_spec (v, p, i) \<or>
     pb_status p' = ProbationReverting \<and> (v' = v \<or> v' = pb_previous p) \<and> (i' = i \<or> i' = pb_previous p) \<and>
       (p' = p \<or> v = pb_version p \<and> (\<exists>reason. verdict_of p = Some reason \<and> p' = reverting p reason))"

declare start_spec.simps [simp del] partway.simps [simp del]

lemma partway_self [simp]: "partway s s" "partway s (start_spec s)"
  by (cases s; cases "start_spec s"; simp add: partway.simps)+

section \<open>The contract\<close>

text \<open>
  \<open>W (v, p, i)\<close> holds of the worlds with that site; \<open>b\<close> says that something may get in the way: a failing
  call, a failing hook of the host, or a lock that is not to be had.
\<close>

locale launch_site =
  fixes opts :: Options and W :: "site \<Rightarrow> mem \<Rightarrow> bool" and b :: bool
    and old :: string and new :: string and app :: string and old_dir :: string and new_dir :: string
  assumes record_ok: "W (v, p, i) m \<Longrightarrow> sound_probation p \<and> pb_schema p = ProbationSchema \<and> pb_version p = new \<and> pb_previous p = old"
    and state_ok: "W (v, p, i) m \<Longrightarrow> o_root opts \<noteq> [] \<and> VersionDir (o_root opts) old = Inr old_dir \<and> VersionDir (o_root opts) new = Inr new_dir"
    and read_record: "triple (W (v, p, i)) (ReadProbation (o_root opts)) (\<lambda>r m. W (v, p, i) m \<and> r = Some p) (\<lambda>_ m. W (v, p, i) m \<and> b)"
    and write_record: "sound_probation q \<Longrightarrow> pb_schema q = ProbationSchema \<Longrightarrow> pb_version q = new \<Longrightarrow> pb_previous q = old \<Longrightarrow>
      pb_blocked q = pb_blocked p \<or> (\<exists>r. pb_blocked q = Some \<lparr> bv_version = new, bv_reason = r \<rparr>) \<Longrightarrow>
      triple (W (v, p, i)) (WriteProbation (o_root opts) q) (\<lambda>_. W (v, q, i)) (\<lambda>_ m. (W (v, p, i) m \<or> W (v, q, i) m) \<and> b)"
    and outcome: "triple (W (v, p, i)) (recordOutcome opts q rslt cls) (\<lambda>_. W (v, p, i)) (\<lambda>_ _. False)"
    and pointer: "triple (W (v, p, i)) (PointerTarget (o_form opts) (o_root opts)) (\<lambda>x m. W (v, p, i) m \<and> x = v) (\<lambda>_ m. W (v, p, i) m \<and> b)"
    and stat_old: "triple (W (v, p, i)) (Stat old_dir) (\<lambda>_. W (v, p, i)) (\<lambda>_ _. False)"
    and swap: "triple (W (v, p, i)) (Swap (o_form opts) (o_root opts) old_dir) (\<lambda>_. W (old, p, i)) (\<lambda>_ m. (W (v, p, i) m \<or> W (old, p, i) m) \<and> b)"
    and hook: "o_migrate opts = Some mg \<Longrightarrow> triple (W (v, p, i)) (Rollback_hook mg c) (\<lambda>_. W (v, p, i)) (\<lambda>_ m. W (v, p, i) m \<and> b)"
    and read_state: "triple (W (v, p, i)) (ReadInstall (o_root opts)) (\<lambda>r m. W (v, p, i) m \<and> (\<exists>x. r = Some x \<and> in_version x = i \<and> in_name x = app))
      (\<lambda>_ m. W (v, p, i) m \<and> b)"
    and write_state: "triple (W (v, p, i)) (WriteInstall (o_root opts) \<lparr> in_schema = 0, in_name = app, in_version = old, in_layout = LayoutSchema \<rparr>)
      (\<lambda>_. W (v, p, old)) (\<lambda>_ m. (W (v, p, i) m \<or> W (v, p, old) m) \<and> b)"
    and remove_new: "triple (W (old, p, i)) (ignore (RemoveAll new_dir)) (\<lambda>_. W (old, p, i)) (\<lambda>_ _. False)"
    and lock: "o_lock opts = Some lk \<Longrightarrow> triple (W (v, p, i)) (TryLock lk) (\<lambda>held m. W (v, p, i) m \<and> (held \<or> b)) (\<lambda>_ m. W (v, p, i) m \<and> b)"
    and unlock: "o_lock opts = Some lk \<Longrightarrow> triple (W (v, p, i)) (ignore (Unlock lk)) (\<lambda>_. W (v, p, i)) (\<lambda>_ _. False)"
begin

text \<open>A world in which a start from \<open>s\<close> was interrupted.\<close>

definition stopped :: "site \<Rightarrow> mem \<Rightarrow> bool" where
  "stopped s m \<longleftrightarrow> b \<and> (\<exists>s'. partway s s' \<and> W s' m)"

lemma stoppedI: "W s' m \<Longrightarrow> b \<Longrightarrow> partway s s' \<Longrightarrow> stopped s m"
  unfolding stopped_def by blast

lemma reverted_ok:
  assumes "sound_probation p"
  shows "sound_probation (reverted p r)" "pb_schema (reverted p r) = pb_schema p" "pb_version (reverted p r) = pb_version p"
    "pb_previous (reverted p r) = pb_previous p" "sound_probation (reverting p r)"
  using assms SanitizeReason_clean by (simp_all add: reverted_def reverting_def sound_probation_def)

subsection \<open>Finishing a rollback\<close>

lemma finish_spec:
  assumes mid: "\<And>v' i'. v' \<in> {v, old} \<Longrightarrow> i' \<in> {i, old} \<Longrightarrow> partway s (v', p, i')"
    and fin: "partway s (old, reverted p reason, old)"
    and p: "sound_probation p" "pb_schema p = ProbationSchema" "pb_version p = new" "pb_previous p = old"
    and dir: "VersionDir (o_root opts) new = Inr new_dir"
  shows "triple (W (v, p, i)) (finish_revert opts pr p (SanitizeReason reason) old_dir)
    (\<lambda>r m. W (old, reverted p reason, old) m \<and> pr_err r = pr_err pr) (\<lambda>_. stopped s)"
proof -
  let ?q = "reverted p reason" and ?root = "o_root opts"
  have q: "p\<lparr>pb_status := ProbationReverted, pb_reason := SanitizeReason reason, pb_restart_pending := False,
      pb_blocked := Some \<lparr> bv_version = new, bv_reason = SanitizeReason reason \<rparr>\<rparr> = ?q" using p(3) by (simp add: reverted_def)
  have sw: "triple (W (v, p, i)) (Swap (o_form opts) ?root old_dir) (\<lambda>_. W (old, p, i)) (\<lambda>_. stopped s)"
    by (rule triple_weaken [OF swap]) (use mid in \<open>auto intro: stoppedI\<close>)
  have hk: "triple (W (old, p, i)) (case o_migrate opts of None \<Rightarrow> ret () | Some mg \<Rightarrow> Rollback_hook mg c) (\<lambda>_. W (old, p, i)) (\<lambda>_. stopped s)" for c
  proof (cases "o_migrate opts")
    case (Some mg)
    then show ?thesis using mid by (auto intro!: triple_weaken [OF hook [OF Some]] intro: stoppedI)
  qed (auto intro: triple_ret)
  have rd: "triple (W (old, p, i)) (ReadInstall ?root) (\<lambda>r m. \<exists>x. W (old, p, i) m \<and> (r = Some x \<and> in_version x = i \<and> in_name x = app)) (\<lambda>_. stopped s)"
    by (rule triple_weaken [OF read_state]) (use mid in \<open>auto intro: stoppedI\<close>)
  have wi: "triple (W (old, p, i)) (if in_version x \<noteq> old then
        WriteInstall ?root \<lparr> in_schema = 0, in_name = in_name x, in_version = old, in_layout = LayoutSchema \<rparr> else ret ())
      (\<lambda>_. W (old, p, old)) (\<lambda>_. stopped s)" if "in_version x = i" "in_name x = app" for x
  proof (rule triple_if)
    show "triple (W (old, p, i)) (WriteInstall ?root \<lparr> in_schema = 0, in_name = in_name x, in_version = old, in_layout = LayoutSchema \<rparr>)
      (\<lambda>_. W (old, p, old)) (\<lambda>_. stopped s)"
      unfolding that(2) by (rule triple_weaken [OF write_state]) (use mid in \<open>auto intro: stoppedI\<close>)
  qed (use that in \<open>auto intro: triple_ret\<close>)
  have wp: "triple (W (old, p, old)) (WriteProbation ?root ?q) (\<lambda>_. W (old, ?q, old)) (\<lambda>_. stopped s)"
    using reverted_ok [OF p(1)] p mid fin
    by (intro triple_weaken [OF write_record]) (auto simp: reverted_def intro: stoppedI)
  have rm: "triple (W (old, ?q, old)) (ignore (RemoveAll new_dir)) (\<lambda>_. W (old, ?q, old)) (\<lambda>_. stopped s)"
    by (rule triple_weaken [OF remove_new]) auto
  have rt: "triple (W (old, ?q, old)) (ret (pr\<lparr>pr_reverted := True, pr_to := old, pr_reason := SanitizeReason reason\<rparr>))
      (\<lambda>r m. W (old, ?q, old) m \<and> pr_err r = pr_err pr) (\<lambda>_. stopped s)" by (rule triple_ret) simp
  show ?thesis
    unfolding finish_revert_def Let_def p(3,4) q dir sum.case
  proof (rule triple_bind [OF sw triple_bind [OF hk triple_bind [OF rd]]], rule triple_Ex, rule triple_fact)
    fix r x
    assume "r = Some x \<and> in_version x = i \<and> in_name x = app"
    then have r: "r = Some x" "in_version x = i" "in_name x = app" by simp_all
    show "triple (W (old, p, i)) (case r of None \<Rightarrow> throw [ErrLaunch]
      | Some inst \<Rightarrow> bind (if in_version inst \<noteq> old then
          WriteInstall ?root \<lparr> in_schema = 0, in_name = in_name inst, in_version = old, in_layout = LayoutSchema \<rparr> else ret ()) (\<lambda>_.
          bind (WriteProbation ?root ?q) (\<lambda>_. bind (ignore (RemoveAll new_dir)) (\<lambda>_.
          ret (pr\<lparr>pr_reverted := True, pr_to := old, pr_reason := SanitizeReason reason\<rparr>)))))
      (\<lambda>r m. W (old, ?q, old) m \<and> pr_err r = pr_err pr) (\<lambda>_. stopped s)"
      unfolding r(1) option.case by (rule triple_bind [OF wi [OF r(2,3)] triple_bind [OF wp triple_bind [OF rm rt]]])
  qed
qed

lemma start_revert_spec:
  assumes why: "v = new" "verdict_of p = Some reason" and cl: "pb_status p \<noteq> ProbationReverting"
    and dir: "VersionDir (o_root opts) new = Inr new_dir"
    and p: "sound_probation p" "pb_schema p = ProbationSchema" "pb_version p = new" "pb_previous p = old"
  shows "triple (W (v, p, i)) (start_revert opts pr p (SanitizeReason reason) cls old_dir)
    (\<lambda>r m. W (old, reverted p reason, old) m \<and> pr_err r = pr_err pr) (\<lambda>_. stopped (v, p, i))"
proof -
  let ?q = "reverting p reason"
  have q: "sound_probation ?q" "pb_schema ?q = ProbationSchema" "pb_version ?q = new" "pb_previous ?q = old" "pb_status ?q = ProbationReverting"
    using reverted_ok [OF p(1)] p by (simp_all add: reverting_def)
  have rr: "reverted ?q reason = reverted p reason" by (simp add: reverted_def reverting_def)
  have mid: "partway (v, p, i) (v', ?q, i')" if "v' \<in> {v, old}" "i' \<in> {i, old}" for v' i'
    using that why p q(5) by (auto simp: partway.simps)
  have "start_spec (v, p, i) = (old, reverted p reason, old)" using cl why p by (simp add: start_spec.simps)
  then have fin: "partway (v, p, i) (old, reverted ?q reason, old)" unfolding rr using partway_self(2) [of "(v, p, i)"] by simp
  have bl: "pb_blocked ?q = pb_blocked p \<or> (\<exists>r. pb_blocked ?q = Some \<lparr> bv_version = new, bv_reason = r \<rparr>)" by (simp add: reverting_def)
  have wr: "triple (W (v, p, i)) (WriteProbation (o_root opts) ?q) (\<lambda>_. W (v, ?q, i)) (\<lambda>_. stopped (v, p, i))"
    using mid partway_self(1) by (intro triple_weaken [OF write_record [OF q(1-4) bl]]) (blast intro: stoppedI)+
  have oc: "triple (W (v, ?q, i)) (recordOutcome opts ?q x cls) (\<lambda>_. W (v, ?q, i)) (\<lambda>_. stopped (v, p, i))" for x
    by (rule triple_weaken [OF outcome]) auto
  note fs = finish_spec [OF mid fin q(1-4) dir, where pr = pr, unfolded rr]
  show ?thesis
    using triple_bind [OF wr triple_bind [OF oc fs]] cl by (simp add: start_revert_def reverting_def Let_def)
qed

text \<open>A rollback, begun or resumed.\<close>

definition due :: "site \<Rightarrow> string \<Rightarrow> bool" where
  "due s reason \<longleftrightarrow> (case s of (v, p, i) \<Rightarrow>
     pb_status p = ProbationReverting \<and> reason = pb_reason p \<or>
     pb_status p \<noteq> ProbationReverting \<and> v = new \<and> verdict_of p = Some reason)"

lemma revert_steps_spec:
  assumes due: "due (v, p, i) reason"
  shows "triple (W (v, p, i)) (revert_steps opts pr p (SanitizeReason reason) cls)
    (\<lambda>r m. W (old, reverted p reason, old) m \<and> pr_err r = pr_err pr) (\<lambda>_. stopped (v, p, i))"
proof (cases "\<exists>m. W (v, p, i) m")
  case False
  then show ?thesis by (simp add: triple_def)
next
  case True
  then obtain m where m: "W (v, p, i) m" by blast
  note p = record_ok [OF m] and d = state_ok [OF m]
  have rest: "triple (W (v, p, i)) (start_revert opts pr p (SanitizeReason reason) cls old_dir)
    (\<lambda>r m. W (old, reverted p reason, old) m \<and> pr_err r = pr_err pr) (\<lambda>_. stopped (v, p, i))"
  proof (cases "pb_status p = ProbationReverting")
    case True
    then have r: "reason = pb_reason p" using due by (simp add: due_def)
    have "triple (W (v, p, i)) (finish_revert opts pr p (SanitizeReason reason) old_dir)
      (\<lambda>r m. W (old, reverted p reason, old) m \<and> pr_err r = pr_err pr) (\<lambda>_. stopped (v, p, i))"
      using True r p d by (intro finish_spec) (auto simp: partway.simps start_spec.simps)
    then show ?thesis using True by (simp add: start_revert_def)
  next
    case False
    then show ?thesis using due p d by (intro start_revert_spec) (auto simp: due_def)
  qed
  have "VersionDir (o_root opts) (pb_previous p) = Inr old_dir" using p d by simp
  then show ?thesis
    unfolding revert_steps_def using triple_attempt [OF stat_old _ rest] by (simp add: triple_def)
qed

lemma revert_spec:
  assumes due: "due (v, p, i) reason"
  shows "triple (W (v, p, i)) (revert opts pr p reason cls locked)
    (\<lambda>r m. stopped (v, p, i) m \<or> W (old, reverted p reason, old) m \<and> pr_err r = pr_err pr) (\<lambda>_ _. False)"
    (is "triple _ _ ?Q _")
proof -
  let ?pr = "pr\<lparr>pr_version := pb_version p\<rparr>"
  let ?body = "attempt (revert_steps opts ?pr p (SanitizeReason reason) cls) (\<lambda>e. ret (?pr\<lparr>pr_err := Some (ErrLaunch # e)\<rparr>)) ret"
  have body: "triple (W (v, p, i)) ?body ?Q (\<lambda>_ _. False)"
    by (rule triple_attempt [OF revert_steps_spec [OF due]]) (auto intro!: triple_ret)
  show ?thesis
  proof (cases "o_lock opts = None \<or> locked")
    case True
    then show ?thesis using body by (auto simp: revert_def Let_def split: option.splits)
  next
    case False
    then obtain lk where lk: "o_lock opts = Some lk" by auto
    have ul: "triple (?Q r) (bind (ignore (Unlock lk)) (\<lambda>_. ret r)) ?Q (\<lambda>_ _. False)" for r
    proof -
      have "triple (W s') (bind (ignore (Unlock lk)) (\<lambda>_. ret r)) (\<lambda>r' m. r' = r \<and> W s' m) (\<lambda>_ _. False)" for s'
        by (cases s') (auto intro!: triple_bind [OF unlock [OF lk]] triple_ret)
      note w = triple_Inr [OF this] triple_Inl [OF this]
      show ?thesis unfolding stopped_def by (rule tripleI) (use w in blast)+
    qed
    have self: "stopped (v, p, i) m" if "W (v, p, i) m" "b" for m using that by (rule stoppedI) simp
    have tl: "triple (W (v, p, i)) (TryLock lk) (\<lambda>held m. W (v, p, i) m \<and> (held \<or> b)) (\<lambda>_. stopped (v, p, i))"
      by (rule triple_weaken [OF lock [OF lk]]) (auto intro: self)
    have "triple (\<lambda>m. W (v, p, i) m \<and> (held \<or> b)) (if \<not> held then ret ?pr else bind ?body (\<lambda>r. bind (ignore (Unlock lk)) (\<lambda>_. ret r))) ?Q (\<lambda>_ _. False)" for held
      by (rule triple_if, rule triple_ret, use self in blast, rule triple_pre [OF triple_bind [OF body ul]], simp)
    then have "triple (W (v, p, i)) (attempt (TryLock lk) (\<lambda>e. ret (?pr\<lparr>pr_err := Some e\<rparr>))
        (\<lambda>held. if \<not> held then ret ?pr else bind ?body (\<lambda>r. bind (ignore (Unlock lk)) (\<lambda>_. ret r)))) ?Q (\<lambda>_ _. False)"
      by (intro triple_attempt [OF tl] triple_ret) auto
    then show ?thesis using False lk by (simp add: revert_def Let_def)
  qed
qed

subsection \<open>A start\<close>

lemma stopped_self: "W s m \<Longrightarrow> b \<Longrightarrow> stopped s m"
  by (rule stoppedI [OF _ _ partway_self(1)])

lemma count_spec:
  assumes "sound_probation q" "pb_schema q = ProbationSchema" "pb_version q = new" "pb_previous q = old"
      "pb_blocked q = pb_blocked p \<or> (\<exists>r. pb_blocked q = Some \<lparr> bv_version = new, bv_reason = r \<rparr>)"
    and n: "start_spec (v, p, i) = (v, q, i)" and e: "pr_err pr = None"
  shows "triple (W (v, p, i)) (count_start opts pr q)
    (\<lambda>r m. stopped (v, p, i) m \<or> W (start_spec (v, p, i)) m \<and> pr_err r = None) (\<lambda>_ _. False)"
proof -
  have pw: "partway (v, p, i) (v, q, i)" using partway_self(2) [of "(v, p, i)"] n by simp
  have "triple (W (v, p, i)) (WriteProbation (o_root opts) q) (\<lambda>_. W (v, q, i)) (\<lambda>_. stopped (v, p, i))"
    using pw by (intro triple_weaken [OF write_record [OF assms(1-5)]]) (blast intro: stoppedI stopped_self)+
  then show ?thesis
    unfolding count_start_def n by (rule triple_attempt) (use e in \<open>auto intro!: triple_ret\<close>)
qed

lemma counted_ok:
  assumes "sound_probation p" "verdict_of p = None"
  shows "sound_probation (counted p)" "pb_schema (counted p) = pb_schema p" "pb_version (counted p) = pb_version p"
    "pb_previous (counted p) = pb_previous p" "pb_blocked (counted p) = pb_blocked p"
  using assms by (auto simp: sound_probation_def counted_def verdict_of_def split: if_splits)

lemma live_spec:
  assumes w: "W (new, p, i) m" and nr: "pb_status p \<noteq> ProbationReverting"
  shows "triple (W (new, p, i)) (probation_live opts locked p)
    (\<lambda>r m. stopped (new, p, i) m \<or> W (start_spec (new, p, i)) m \<and> pr_err r = None) (\<lambda>_ _. False)"
proof -
  note p = record_ok [OF w]
  have rv: "triple (W (new, p, i)) (revert opts pr p reason cls locked)
      (\<lambda>r m. stopped (new, p, i) m \<or> W (start_spec (new, p, i)) m \<and> pr_err r = None) (\<lambda>_ _. False)"
    if "verdict_of p = Some reason" "pr_err pr = None" for pr reason cls
    using revert_spec [of new p i reason pr cls locked] that nr p by (simp add: due_def start_spec.simps)
  have ct: "triple (W (new, p, i)) (count_start opts pr q)
      (\<lambda>r m. stopped (new, p, i) m \<or> W (start_spec (new, p, i)) m \<and> pr_err r = None) (\<lambda>_ _. False)"
    if "verdict_of p = None" "pr_err pr = None" "q = counted p" for pr q
    using counted_ok [of p] that nr p by (intro count_spec) (auto simp: start_spec.simps)
  have id: "triple (W (new, p, i)) (ret no_probation)
      (\<lambda>r m. stopped (new, p, i) m \<or> W (start_spec (new, p, i)) m \<and> pr_err r = None) (\<lambda>_ _. False)"
    if "verdict_of p = None" "counted p = p"
    using that nr p by (intro triple_ret) (simp add: start_spec.simps no_probation_def)
  have ne: "ProbationReverted \<noteq> ProbationUnhealthy" "ProbationActive \<noteq> ProbationUnhealthy" "ProbationActive \<noteq> ProbationReverted"
    by (simp_all add: probation_statuses)
  show ?thesis
    unfolding probation_live_def Let_def
    by (intro triple_if; (rule rv ct id)?)
      (auto simp: verdict_of_def counted_def no_probation_def ne split: if_splits)
qed

lemma probation_spec:
  "triple (W s) (probation opts locked) (\<lambda>r m. stopped s m \<or> W (start_spec s) m \<and> pr_err r = None) (\<lambda>_ _. False)"
proof (cases "\<exists>m. W s m")
  case False
  then show ?thesis by (simp add: triple_def)
next
  case True
  obtain v p i where s: "s = (v, p, i)" by (cases s)
  from True obtain m where m: "W (v, p, i) m" unfolding s by blast
  note p = record_ok [OF m]
  let ?Q = "\<lambda>r m. stopped (v, p, i) m \<or> W (start_spec (v, p, i)) m \<and> pr_err r = None"
  have rd: "triple (W (v, p, i)) (ReadProbation (o_root opts)) (\<lambda>r m. W (v, p, i) m \<and> r = Some p) (\<lambda>_. stopped (v, p, i))"
    by (rule triple_weaken [OF read_record]) (blast intro: stopped_self)+
  have pt: "triple (W (v, p, i)) (PointerTarget (o_form opts) (o_root opts)) (\<lambda>x m. W (v, p, i) m \<and> x = v) (\<lambda>_. stopped (v, p, i))"
    by (rule triple_weaken [OF pointer]) (blast intro: stopped_self)+
  have er: "triple (stopped (v, p, i)) (ret r) ?Q (\<lambda>_ _. False)" for r by (rule triple_ret) blast
  have "triple (W (v, p, i)) (if pb_status p = ProbationReverting then revert opts no_probation p (pb_reason p) [] locked
      else attempt (PointerTarget (o_form opts) (o_root opts)) (\<lambda>e. ret (no_probation\<lparr>pr_err := Some (ErrLaunch # e)\<rparr>))
        (\<lambda>live. if live \<noteq> pb_version p then ret no_probation else probation_live opts locked p)) ?Q (\<lambda>_ _. False)"
  proof (rule triple_if)
    assume r: "pb_status p = ProbationReverting"
    show "triple (W (v, p, i)) (revert opts no_probation p (pb_reason p) [] locked) ?Q (\<lambda>_ _. False)"
      using revert_spec [of v p i "pb_reason p" no_probation "[]" locked] r p by (simp add: due_def start_spec.simps no_probation_def)
  next
    assume nr: "pb_status p \<noteq> ProbationReverting"
    show "triple (W (v, p, i)) (attempt (PointerTarget (o_form opts) (o_root opts)) (\<lambda>e. ret (no_probation\<lparr>pr_err := Some (ErrLaunch # e)\<rparr>))
        (\<lambda>live. if live \<noteq> pb_version p then ret no_probation else probation_live opts locked p)) ?Q (\<lambda>_ _. False)"
    proof (rule triple_attempt [OF pt er], rule triple_fact)
      fix x
      assume "x = v"
      then show "triple (W (v, p, i)) (if x \<noteq> pb_version p then ret no_probation else probation_live opts locked p) ?Q (\<lambda>_ _. False)"
        using live_spec [OF _ nr, of i m locked] m p nr
        by (auto intro!: triple_ret simp: start_spec.simps no_probation_def)
    qed
  qed
  then show ?thesis
    unfolding probation_def s by (intro triple_attempt [OF rd er] triple_fact) simp
qed

subsection \<open>Reports\<close>

lemma relaunch_meets:
  "triple (W s) (markRestart (o_form opts) (o_root opts)) (\<lambda>_ m. W (relaunch_spec s) m \<or> W s m \<and> b) (\<lambda>_ _. False)"
proof (cases "\<exists>m. W s m")
  case False
  then show ?thesis by (simp add: triple_def)
next
  case True
  obtain v p i where s: "s = (v, p, i)" by (cases s)
  from True obtain m where m: "W (v, p, i) m" unfolding s by blast
  note p = record_ok [OF m]
  let ?Q = "\<lambda>m. W (relaunch_spec s) m \<or> W s m \<and> b"
  let ?q = "p\<lparr>pb_restarts := (if pb_restarts p \<le> pb_restarts_allowed p then pb_restarts p + 1 else pb_restarts p), pb_restart_pending := True\<rparr>"
  have q: "sound_probation ?q" "pb_schema ?q = ProbationSchema" "pb_version ?q = new" "pb_previous ?q = old"
    "pb_blocked ?q = pb_blocked p \<or> (\<exists>r. pb_blocked ?q = Some \<lparr> bv_version = new, bv_reason = r \<rparr>)"
    using p by (auto simp: sound_probation_def)
  have le: "pb_restarts p \<le> pb_restarts_allowed p + 1" using p by (simp add: sound_probation_def)
  have go: "relaunch_spec s = (v, ?q, i)" if "pb_status p = ProbationActive" "v = pb_version p"
    using that le by (simp add: s min_def)
  have no: "relaunch_spec s = s" if "pb_status p \<noteq> ProbationActive \<or> v \<noteq> pb_version p" using that by (auto simp: s)
  have wr: "triple (W s) (WriteProbation (o_root opts) ?q) (\<lambda>_. ?Q) (\<lambda>_. ?Q)" if "pb_status p = ProbationActive" "v = pb_version p"
    unfolding go [OF that] unfolding s by (rule triple_weaken [OF write_record [OF q]]) blast+
  have rd: "triple (W s) (ReadProbation (o_root opts)) (\<lambda>r m. W s m \<and> r = Some p) (\<lambda>_. ?Q)"
    unfolding s by (rule triple_weaken [OF read_record]) auto
  have pt: "triple (W s) (PointerTarget (o_form opts) (o_root opts)) (\<lambda>x m. W s m \<and> x = v) (\<lambda>_. ?Q)"
    unfolding s by (rule triple_weaken [OF pointer]) auto
  have st: "triple (W s) (ret ()) (\<lambda>_. ?Q) (\<lambda>_. ?Q)" if "pb_status p \<noteq> ProbationActive \<or> v \<noteq> pb_version p"
    by (rule triple_ret) (simp add: no [OF that])
  have on: "triple (W s) (bind (PointerTarget (o_form opts) (o_root opts)) (\<lambda>live. if live \<noteq> pb_version p then ret () else
      WriteProbation (o_root opts) ?q)) (\<lambda>_. ?Q) (\<lambda>_. ?Q)" if "\<not> pb_status p \<noteq> ProbationActive"
    by (rule triple_bind [OF pt], rule triple_fact, rule triple_if) (use that st wr in blast)+
  have "triple (W s) (if pb_status p \<noteq> ProbationActive then ret ()
      else bind (PointerTarget (o_form opts) (o_root opts)) (\<lambda>live. if live \<noteq> pb_version p then ret () else
        WriteProbation (o_root opts) ?q)) (\<lambda>_. ?Q) (\<lambda>_. ?Q)"
    by (rule triple_if) (use st on in blast)+
  then have "triple (W s) (bind (ReadProbation (o_root opts)) (\<lambda>r. case r of None \<Rightarrow> ret ()
    | Some p \<Rightarrow> if pb_status p \<noteq> ProbationActive then ret ()
      else bind (PointerTarget (o_form opts) (o_root opts)) (\<lambda>live. if live \<noteq> pb_version p then ret () else
        WriteProbation (o_root opts) (p\<lparr>pb_restarts := (if pb_restarts p \<le> pb_restarts_allowed p then pb_restarts p + 1 else pb_restarts p), pb_restart_pending := True\<rparr>))))
     (\<lambda>_. ?Q) (\<lambda>_. ?Q)"
    by (intro triple_bind [OF rd] triple_fact) simp
  then show ?thesis unfolding markRestart_def by (rule triple_ignore)
qed

text \<open>A report changes the record of the version it is about while that is on probation, and nothing else.\<close>

lemma mark_meets:
  assumes ch: "\<And>p. sound_probation p \<Longrightarrow> sound_probation (change p) \<and> pb_schema (change p) = pb_schema p \<and>
      pb_version (change p) = pb_version p \<and> pb_previous (change p) = pb_previous p \<and> pb_blocked (change p) = pb_blocked p"
  shows "triple (W (v, p, i)) (mark (o_root opts) x change)
    (\<lambda>_. W (v, if pb_version p = x \<and> pb_status p = ProbationActive then change p else p, i))
    (\<lambda>_ m. b \<and> (W (v, p, i) m \<or> pb_version p = x \<and> pb_status p = ProbationActive \<and> W (v, change p, i) m))"
    (is "triple _ _ ?Q ?E")
proof (cases "\<exists>m. W (v, p, i) m")
  case False
  then show ?thesis by (simp add: triple_def)
next
  case True
  then obtain m where m: "W (v, p, i) m" by blast
  note p = record_ok [OF m] and d = state_ok [OF m]
  have wr: "triple (W (v, p, i)) (wrap ErrLaunch (WriteProbation (o_root opts) (change p))) ?Q ?E"
    if "pb_version p = x" "pb_status p = ProbationActive"
    using ch [of p] p that by (intro triple_wrap triple_weaken [OF write_record]) auto
  have rd: "triple (W (v, p, i)) (wrap ErrLaunch (ReadProbation (o_root opts))) (\<lambda>r m. W (v, p, i) m \<and> r = Some p) ?E"
    by (rule triple_wrap, rule triple_weaken [OF read_record]) auto
  have "triple (W (v, p, i)) (if pb_version p \<noteq> x \<or> pb_status p \<noteq> ProbationActive then ret ()
      else wrap ErrLaunch (WriteProbation (o_root opts) (change p))) ?Q ?E"
    by (rule triple_if) (use wr in \<open>auto intro!: triple_ret\<close>)
  then have st: "triple (\<lambda>m. W (v, p, i) m \<and> r = Some p) (case r of None \<Rightarrow> ret ()
    | Some p \<Rightarrow> if pb_version p \<noteq> x \<or> pb_status p \<noteq> ProbationActive then ret () else wrap ErrLaunch (WriteProbation (o_root opts) (change p))) ?Q ?E" for r
    by (intro triple_fact) (simp only: option.case)
  have nr: "o_root opts \<noteq> []" using d by simp
  show ?thesis unfolding mark_def if_not_P [OF nr] by (rule triple_bind [OF rd st])
qed

end

section \<open>Properties of the specification\<close>

text \<open>
  How much probation is left: the attempts that remain, and the restarts that remain with the one that
  is one too many.  Each start of a version that never confirms uses some of it up.
\<close>

definition patience :: "Probation \<Rightarrow> nat" where
  "patience p = nat (pb_attempts_allowed p - pb_attempts p) + nat (pb_restarts_allowed p + 1 - pb_restarts p) +
     (if pb_restart_pending p \<and> pb_restarts p \<le> pb_restarts_allowed p then 1 else 0)"

text \<open>Starts, each followed by the application asking for a restart or not.\<close>

fun starts_spec :: "bool list \<Rightarrow> site \<Rightarrow> site" where
  "starts_spec [] s = s"
| "starts_spec (again # bs) s = starts_spec bs (if again then relaunch_spec (start_spec s) else start_spec s)"

definition rolled_back :: "Probation \<Rightarrow> site \<Rightarrow> bool" where
  "rolled_back p s \<longleftrightarrow> (case s of (v, q, i) \<Rightarrow> v = pb_previous p \<and> i = pb_previous p \<and> pb_status q = ProbationReverted \<and>
     pb_version q = pb_version p \<and> pb_previous q = pb_previous p \<and>
     (\<exists>r. pb_blocked q = Some \<lparr> bv_version = pb_version p, bv_reason = r \<rparr>))"

lemma status_neq [simp]:
  "ProbationActive \<noteq> ProbationReverting" "ProbationReverting \<noteq> ProbationActive" "ProbationReverted \<noteq> ProbationReverting"
  "ProbationReverting \<noteq> ProbationReverted" "ProbationReverted \<noteq> ProbationActive" "ProbationActive \<noteq> ProbationReverted"
  "ProbationActive \<noteq> ProbationUnhealthy" "ProbationUnhealthy \<noteq> ProbationActive" "ProbationUnhealthy \<noteq> ProbationReverting"
  "ProbationReverting \<noteq> ProbationUnhealthy"
  "ProbationConfirmed \<noteq> ProbationActive" "ProbationConfirmed \<noteq> ProbationReverting" "ProbationConfirmed \<noteq> ProbationUnhealthy"
  "ProbationConfirmed \<noteq> ProbationReverted"
  by (simp_all add: probation_statuses)

lemma rolled_back_reverted: "rolled_back p (pb_previous p, reverted p r, pb_previous p)"
  by (simp add: rolled_back_def reverted_def)

lemma rolled_back_start:
  assumes "rolled_back p s" "pb_version p \<noteq> pb_previous p"
  shows "start_spec s = s" "relaunch_spec s = s"
  using assms by (auto simp: rolled_back_def start_spec.simps split: prod.splits)

lemma rolled_back_stays: "rolled_back p s \<Longrightarrow> pb_version p \<noteq> pb_previous p \<Longrightarrow> starts_spec bs s = s"
  by (induction bs) (auto simp: rolled_back_start)

lemma starts_end:
  assumes "pb_status p = ProbationActive" "pb_version p \<noteq> pb_previous p" "patience p < length bs"
  shows "rolled_back p (starts_spec bs (pb_version p, p, i))"
  using assms
proof (induction bs arbitrary: p)
  case (Cons again bs)
  let ?s = "start_spec (pb_version p, p, i)"
  show ?case
  proof (cases "verdict_of p")
    case (Some reason)
    then have s: "?s = (pb_previous p, reverted p reason, pb_previous p)" using Cons.prems by (simp add: start_spec.simps)
    have rb: "rolled_back p ?s" unfolding s by (rule rolled_back_reverted)
    then show ?thesis using rolled_back_start [OF rb] rolled_back_stays [OF rb] Cons.prems(2) by simp
  next
    case None
    let ?q = "counted p" and ?r = "\<lambda>q. q\<lparr>pb_restarts := min (pb_restarts q + 1) (pb_restarts_allowed q + 1), pb_restart_pending := True\<rparr>"
    have s: "?s = (pb_version p, ?q, i)" using None Cons.prems by (simp add: start_spec.simps)
    have q: "pb_status ?q = ProbationActive" "pb_version ?q = pb_version p" "pb_previous ?q = pb_previous p" "\<not> pb_restart_pending ?q"
      using Cons.prems(1) by (auto simp: counted_def)
    have less: "patience ?q < patience p"
      using None Cons.prems(1) by (auto simp: patience_def counted_def verdict_of_def split: if_splits)
    have "patience (?r ?q) \<le> patience ?q" using q(4) by (auto simp: patience_def min_def)
    then have "patience (?r ?q) < length bs" "patience ?q < length bs" using less Cons.prems(3) by simp_all
    then have "rolled_back (?r ?q) (starts_spec bs (pb_version (?r ?q), ?r ?q, i))" "rolled_back ?q (starts_spec bs (pb_version ?q, ?q, i))"
      using q Cons.prems(2) by (intro Cons.IH; simp)+
    then show ?thesis using q s by (simp add: rolled_back_def)
  qed
qed simp

text \<open>What an interrupted start leaves is finished by the next one with the same result.\<close>

lemma resumed:
  assumes "partway s s'" "s' \<noteq> s" "s' \<noteq> start_spec s"
  shows "start_spec s' = start_spec s"
proof -
  obtain v p i v' p' i' where s: "s = (v, p, i)" "s' = (v', p', i')" by (cases s; cases s')
  have n: "pb_status p' = ProbationReverting" "p' = p \<or> (\<exists>reason. v = pb_version p \<and> verdict_of p = Some reason \<and> p' = reverting p reason)"
    using assms unfolding s by (auto simp: partway.simps)
  have rr: "reverted (reverting p reason) (SanitizeReason reason) = reverted p reason" for reason
    using SanitizeReason_fixed [OF SanitizeReason_clean] by (simp add: reverted_def reverting_def)
  from n(2) show ?thesis
  proof
    assume "p' = p"
    then show ?thesis using n(1) s by (simp add: start_spec.simps)
  next
    assume "\<exists>reason. v = pb_version p \<and> verdict_of p = Some reason \<and> p' = reverting p reason"
    then obtain reason where r: "v = pb_version p" "verdict_of p = Some reason" "p' = reverting p reason" by blast
    show ?thesis
    proof (cases "pb_status p = ProbationReverting")
      case True
      then show ?thesis using r(2) by (simp add: verdict_of_def)
    next
      case False
      then show ?thesis using r n(1) s rr by (simp add: start_spec.simps) (simp add: reverting_def)
    qed
  qed
qed

end
