(* ===== verification/Foreign.thy ===== *)
theory Foreign
  imports RollbackLaws Probation
begin

text \<open>
  Keys of the metadata directory that the journal does not use: what happens there is no concern of an update.
\<close>

section \<open>Keys under the root\<close>

abbreviation key :: "update \<Rightarrow> string list \<Rightarrow> string" where "key u zs \<equiv> abs_path (u_root u @ zs)"

lemma key_eq:
  assumes "good_update u" "simples zs" "simples zs'"
  shows "key u zs = key u zs' \<longleftrightarrow> zs = zs'"
  using abs_path_inj [of "u_root u @ zs" "u_root u @ zs'"] assms update_simples(1) [OF assms(1)] by auto

lemma key_tree:
  assumes "good_update u" "simples zs" "simples zs'" "zs \<noteq> []"
  shows "in_tree (key u zs) (key u zs') \<longleftrightarrow> prefix zs zs'"
  using in_tree_abs [of "u_root u @ zs" "u_root u @ zs'"] assms update_simples(1) [OF assms(1)] by simp

lemma tmp_key_of: "tmp_of i (key u (zs @ [e])) k = key u (zs @ [e @ scratch_suffix i k])"
  unfolding tmp_of_def append_assoc [symmetric] abs_path_snoc ..

lemma outcomes_name [simp]: "simple ProbationOutcomesName"
  by (simp add: simple_def ProbationOutcomesName_def)

section \<open>Names the update does not use\<close>

text \<open>Whatever happens below a foreign name of \<open>.updater\<close>, the update is not concerned.\<close>

definition foreign :: "string \<Rightarrow> bool" where
  "foreign e \<longleftrightarrow> simple e \<and> e \<noteq> StagingName \<and> \<not> prefix JournalName e \<and> \<not> prefix StateName e"

lemma foreign_names:
  "foreign ProbationName" "foreign (ProbationName @ scratch_suffix i k)" "foreign ProbationOutcomesName"
proof -
  have "simple (ProbationName @ scratch_suffix i k)" by (rule simple_scratch) simp
  then show "foreign (ProbationName @ scratch_suffix i k)" unfolding foreign_def by (intro conjI) (simp_all add: layout_names)
  show "foreign ProbationName" "foreign ProbationOutcomesName"
    unfolding foreign_def by (intro conjI; simp add: layout_names ProbationOutcomesName_def simple_def)+
qed

lemma foreign_apart:
  assumes g: "good_update u" and e: "foreign e" and t: "in_tree (key u [MetaName, e]) q"
  shows "\<not> protected u v q" "q \<noteq> journal_key u" "q \<noteq> state_key u" "q \<noteq> staging_key u" "q \<noteq> pending_key u"
    "q \<noteq> tmp_of i (journal_key u) k" "q \<noteq> tmp_of i (state_key u) k" "q \<noteq> tmp_of i (current_key u) k"
proof -
  note s = update_simples [OF g]
  have se: "simple e" "simples [MetaName, e]" using e by (simp_all add: foreign_def)
  have ne: "q \<noteq> key u zs" if "simples zs" "\<not> prefix [MetaName, e] zs" for zs
    using key_tree [OF g se(2) that(1)] that(2) t by auto
  have sc: "simple (n @ scratch_suffix i k)" if "simple n" for n using simple_scratch [OF that] .
  show "q \<noteq> journal_key u" "q \<noteq> state_key u" "q \<noteq> staging_key u" "q \<noteq> pending_key u"
    using ne [of "[MetaName, JournalName]"] ne [of "[MetaName, StateName]"] ne [of "[MetaName, StagingName]"]
      ne [of "[MetaName, StagingName, u_to u @ launcherPendingSuffix]"] e s simple_pending by (auto simp: foreign_def)
  have pj: "e \<noteq> JournalName @ x" "e \<noteq> StateName @ x" for x using e by (auto simp: foreign_def)
  show "q \<noteq> tmp_of i (journal_key u) k" "q \<noteq> tmp_of i (state_key u) k" "q \<noteq> tmp_of i (current_key u) k"
    using ne [of "[MetaName, JournalName @ scratch_suffix i k]"] ne [of "[MetaName, StateName @ scratch_suffix i k]"]
      ne [of "[CurrentName @ scratch_suffix i k]"] pj sc
      tmp_key_of [of i u "[MetaName]" JournalName k] tmp_key_of [of i u "[MetaName]" StateName k] tmp_key_of [of i u "[]" CurrentName k]
    by simp_all
  show "\<not> protected u v q"
  proof
    assume p: "protected u v q"
    have tk: "q \<noteq> abs_path (take j (u_root u @ [n]))" if "simple n" for j n
    proof (cases "j \<le> length (u_root u)")
      case True
      have "simples (take j (u_root u))" using s(1) by (auto simp: simples_def dest: in_set_takeD)
      moreover have "\<not> prefix (u_root u @ [MetaName, e]) (take j (u_root u))"
        using prefix_length_le [of "u_root u @ [MetaName, e]" "take j (u_root u)"] by auto
      ultimately show ?thesis using in_tree_abs [of "u_root u @ [MetaName, e]"] True s(1) se t by auto
    next
      case False
      then have "take j (u_root u @ [n]) = u_root u @ [n]" by simp
      then show ?thesis using ne [of "[n]"] that by simp
    qed
    have tree: "\<not> in_tree (version_key_of u w) q" if "simple w" for w
      using trees_disjoint [of "u_root u" MetaName "[e]" VersionsName "[w]" q] t s(1) se that names_distinct by auto
    have "q \<noteq> current_key u" using ne [of "[CurrentName]"] by simp
    then show False
      using p tk [of MetaName] tk [of VersionsName] tree s unfolding protected_def by auto
  qed
qed

lemma inv_foreign:
  assumes inv: "update_inv u v recs f" and e: "foreign e" and wf: "wf_tab g"
    and same: "\<And>q. \<not> in_tree (key u [MetaName, e]) q \<Longrightarrow> g q = f q"
  shows "update_inv u v recs g"
proof -
  note i = inv_parts [OF inv]
  note ap = foreign_apart [OF i(1) e]
  have eq: "protected u v q \<Longrightarrow> g q = f q" "g (journal_key u) = f (journal_key u)" "g (state_key u) = f (state_key u)"
    "g (staging_key u) = f (staging_key u)" "g (pending_key u) = f (pending_key u)"
    "g (tmp_of i (journal_key u) k) = f (tmp_of i (journal_key u) k)" "g (tmp_of i (state_key u) k) = f (tmp_of i (state_key u) k)"
    "g (tmp_of i (current_key u) k) = f (tmp_of i (current_key u) k)" for q i k
    using ap by (blast intro: same)+
  have st: "f (staging_key u) = Some n \<Longrightarrow> isDir n \<and> \<not> isSymlink n" for n using inv by (simp add: update_inv_def base_ok_def)
  have "scratch_ok u g" using i(8) unfolding scratch_ok_def eq .
  moreover have "journal_at u g recs" using i(7) unfolding journal_at_def eq .
  moreover have "plain_file (g (state_key u))" "plain_file (g (journal_key u))" "g (pending_key u) = None"
    "g (staging_key u) = Some n \<Longrightarrow> isDir n \<and> \<not> isSymlink n" for n
    using i st unfolding eq by blast+
  ultimately show ?thesis using eq(1) wf by (intro inv_frame [OF inv])
qed

end
