(* ===== verification/SiteTab.thy ===== *)
theory SiteTab
  imports LaunchSite Foreign
begin

text \<open>
  The install tree as the launcher's site: the tree of a committed update together with its probation
  record, its install state and the waiting outcomes, and the proof that it keeps the launcher's contract.
\<close>

section \<open>The site\<close>

abbreviation probation_key :: "update \<Rightarrow> string" where "probation_key u \<equiv> key u [MetaName, ProbationName]"
abbreviation outcomes_key :: "update \<Rightarrow> string" where "outcomes_key u \<equiv> key u [MetaName, ProbationOutcomesName]"

definition installed :: "update \<Rightarrow> string \<Rightarrow> Install" where
  "installed u i = \<lparr> in_schema = 0, in_name = u_name u, in_version = i, in_layout = LayoutSchema \<rparr>"

definition holds_doc :: "memNode option \<Rightarrow> string \<Rightarrow> bool" where
  "holds_doc x bs \<longleftrightarrow> (\<exists>n. x = Some n \<and> \<not> isDir n \<and> \<not> isSymlink n \<and> data n = bs)"

text \<open>
  What the launcher needs beyond the update itself: the version to go back to, at the scratch names of the
  record only files, in the directory of the outcomes nothing but files, and scratch pointers only of
  the processes \<open>U\<close>.
\<close>

definition surroundings :: "update \<Rightarrow> nat set \<Rightarrow> (string \<Rightarrow> memNode option) \<Rightarrow> bool" where
  "surroundings u U f \<longleftrightarrow> (\<exists>n. f (key u [VersionsName, u_from u]) = Some n \<and> isDir n \<and> \<not> isSymlink n) \<and>
     (\<forall>j k. plain_file (f (key u [MetaName, ProbationName @ scratch_suffix j k]))) \<and>
     (\<forall>n. f (outcomes_key u) = Some n \<longrightarrow> isDir n \<and> \<not> isSymlink n) \<and>
     (\<forall>q. prefix (outcomes_key u @ ''/'') q \<longrightarrow> plain_file (f q)) \<and>
     (\<forall>j k. j \<notin> U \<longrightarrow> f (key u [CurrentName @ scratch_suffix j k]) = None)"

definition good_site :: "update \<Rightarrow> Probation \<Rightarrow> string \<Rightarrow> bool" where
  "good_site u p i \<longleftrightarrow> good_update u \<and> u_from u \<noteq> [] \<and> length (u_from u) \<le> 255 \<and> length (u_to u) \<le> 255 \<and> sound_probation p \<and>
     pb_schema p = ProbationSchema \<and> pb_version p = u_to u \<and> pb_previous p = u_from u \<and> (i = u_from u \<or> i = u_to u) \<and>
     (\<forall>b. pb_blocked p = Some b \<longrightarrow> length (bv_version b) \<le> 255)"

fun site_tab :: "update \<Rightarrow> Record list \<Rightarrow> nat set \<Rightarrow> site \<Rightarrow> (string \<Rightarrow> memNode option) \<Rightarrow> bool" where
  "site_tab u recs U (v, p, i) f \<longleftrightarrow> good_site u p i \<and> update_inv u v recs f \<and> surroundings u U f \<and>
     holds_doc (f (probation_key u)) (probation_bytes p) \<and> holds_doc (f (state_key u)) (install_bytes (installed u i))"

declare site_tab.simps [simp del]

lemma scratch_suffix_inj:
  assumes "scratch_suffix i k = scratch_suffix j l"
  shows "i = j"
proof -
  have t: "takeWhile (\<lambda>c. c \<noteq> CHR ''-'') (show_nat n @ CHR ''-'' # r) = show_nat n" for n r
    using digits_not_minus [of n] by (subst takeWhile_append2) auto
  have "show_nat i @ CHR ''-'' # show_nat k @ ''.tmp'' = show_nat j @ CHR ''-'' # show_nat l @ ''.tmp''"
    using assms by (simp add: scratch_suffix_def)
  then have "show_nat i = show_nat j" using t by metis
  then show ?thesis using num_of_show_nat by metis
qed

lemma neighbours [simp]:
  "ProbationName \<noteq> StateName" "StateName \<noteq> ProbationName" "ProbationName @ x \<noteq> StateName @ y" "StateName @ x \<noteq> ProbationName @ y"
  "ProbationName @ x \<noteq> StateName" "StateName @ x \<noteq> ProbationName" "StateName \<noteq> ProbationName @ x" "ProbationName \<noteq> StateName @ x"
  "ProbationName \<noteq> ProbationOutcomesName" "ProbationOutcomesName \<noteq> ProbationName" "StateName \<noteq> ProbationOutcomesName" "ProbationOutcomesName \<noteq> StateName"
  "ProbationName @ x \<noteq> ProbationOutcomesName" "ProbationOutcomesName \<noteq> ProbationName @ x"
  "StateName @ x \<noteq> ProbationOutcomesName" "ProbationOutcomesName \<noteq> StateName @ x"
  "CurrentName @ x \<noteq> MetaName" "MetaName \<noteq> CurrentName @ x" "CurrentName @ x \<noteq> VersionsName" "VersionsName \<noteq> CurrentName @ x"
  "MetaName \<noteq> VersionsName" "VersionsName \<noteq> MetaName" "CurrentName \<noteq> MetaName" "MetaName \<noteq> CurrentName"
  "CurrentName \<noteq> VersionsName" "VersionsName \<noteq> CurrentName"
  by (simp_all add: layout_names ProbationOutcomesName_def)

lemma site_simples:
  assumes "good_update u"
  shows "simple (u_to u)" "u_from u \<noteq> [] \<Longrightarrow> simple (u_from u)" "simple (ProbationName @ scratch_suffix j k)"
    "simple (StateName @ scratch_suffix j k)" "simple (CurrentName @ scratch_suffix j k)"
  using update_simples [OF assms] simple_scratch [of ProbationName] simple_scratch [of StateName] simple_scratch [of CurrentName] by simp_all

text \<open>An update of one key leaves the surroundings alone unless it is one of theirs.\<close>

definition watched :: "update \<Rightarrow> string list \<Rightarrow> bool" where
  "watched u zs \<longleftrightarrow> zs = [VersionsName, u_from u] \<or> prefix [MetaName, ProbationOutcomesName] zs \<or>
     (\<exists>j k. zs = [MetaName, ProbationName @ scratch_suffix j k] \<or> zs = [CurrentName @ scratch_suffix j k])"

lemma surroundings_upd:
  assumes s: "surroundings u U f" and g: "good_update u" "u_from u \<noteq> []" and z: "simples zs" "\<not> watched u zs"
  shows "surroundings u U (f(key u zs := x))"
proof -
  note ss = site_simples [OF g(1)]
  have n: "key u zs' \<noteq> key u zs" if "simples zs'" "zs' \<noteq> zs" for zs' using key_eq [OF g(1) that(1) z(1)] that(2) by simp
  have t: "q \<noteq> key u zs" if "prefix (outcomes_key u @ ''/'') q" for q
    using key_tree [OF g(1) _ z(1), of "[MetaName, ProbationOutcomesName]"] z(2) that by (auto simp: watched_def in_tree_def)
  have "key u [VersionsName, u_from u] \<noteq> key u zs" "outcomes_key u \<noteq> key u zs"
    "key u [MetaName, ProbationName @ scratch_suffix j k] \<noteq> key u zs" "key u [CurrentName @ scratch_suffix j k] \<noteq> key u zs" for j k
    using ss g(2) z(2) by (intro n; auto simp: watched_def)+
  then show ?thesis using s t unfolding surroundings_def by (simp only: fun_upd_apply if_False) auto
qed

lemma site_parts:
  assumes "site_tab u recs U (v, p, i) f"
  shows "good_site u p i" "update_inv u v recs f" "surroundings u U f" "good_update u" "u_from u \<noteq> []"
    "holds_doc (f (probation_key u)) (probation_bytes p)" "holds_doc (f (state_key u)) (install_bytes (installed u i))"
  using assms by (auto simp: site_tab.simps good_site_def)

lemma doc_plain: "holds_doc x bs \<Longrightarrow> plain_file x"
  by (auto simp: holds_doc_def plain_file_def)

lemma doc_file [simp]: "holds_doc (Some (file_node md bs)) bs"
  by (simp add: holds_doc_def)

text \<open>Reading one key after another was updated.\<close>

lemma other_key:
  "good_update u \<Longrightarrow> simples zs \<Longrightarrow> simples zs' \<Longrightarrow> zs' \<noteq> zs \<Longrightarrow> (f(key u zs := x)) (key u zs') = f (key u zs')"
  using key_eq by auto

subsection \<open>Updates of the record\<close>

lemma inv_meta_upd:
  assumes inv: "update_inv u v recs f" and e: "foreign e" and x: "plain_file (f (key u [MetaName, e]))"
  shows "update_inv u v recs (f(key u [MetaName, e] := x))"
proof (rule inv_foreign [OF inv e])
  have "simple e" using e by (simp add: foreign_def)
  then show "wf_tab (f(key u [MetaName, e] := x))"
    using x inv_parts(2,5) [OF inv] by (intro wf_tab_file [of f "meta_dir u" e]) (auto simp: plain_file_def)
qed auto

lemma site_record_tmp:
  assumes s: "site_tab u recs U (v, p, i) f" and t: "plain_file t"
  shows "site_tab u recs U (v, p, i) (f(key u [MetaName, ProbationName @ scratch_suffix j k] := t))"
proof -
  note a = site_parts [OF s] and ss = site_simples [OF site_parts(4) [OF s]]
  let ?z = "[MetaName, ProbationName @ scratch_suffix j k]"
  have old: "plain_file (f (key u ?z))" using a(3) by (simp add: surroundings_def)
  have n: "(f(key u ?z := t)) (key u zs) = f (key u zs)" if "simples zs" "zs \<noteq> ?z" for zs
    by (rule other_key [OF a(4) _ that]) (use ss in simp)
  have o: "(f(key u ?z := t)) q = f q" if "prefix (outcomes_key u @ ''/'') q" for q
    using key_tree [OF a(4), of "[MetaName, ProbationOutcomesName]" ?z] that ss by (auto simp: in_tree_def)
  have "surroundings u U (f(key u ?z := t))"
  proof -
    have "plain_file ((f(key u ?z := t)) (key u [MetaName, ProbationName @ scratch_suffix j' k']))" for j' k'
      using a(3) t by (simp add: surroundings_def)
    moreover have "(f(key u ?z := t)) (key u [VersionsName, u_from u]) = f (key u [VersionsName, u_from u])"
      "(f(key u ?z := t)) (outcomes_key u) = f (outcomes_key u)"
      "(f(key u ?z := t)) (key u [CurrentName @ scratch_suffix j' k']) = f (key u [CurrentName @ scratch_suffix j' k'])" for j' k'
      using a(5) ss by (intro n; simp)+
    ultimately show ?thesis using a(3) o unfolding surroundings_def by (simp del: fun_upd_apply)
  qed
  moreover have "update_inv u v recs (f(key u ?z := t))" by (rule inv_meta_upd [OF a(2) foreign_names(2) old])
  moreover have "(f(key u ?z := t)) (probation_key u) = f (probation_key u)" "(f(key u ?z := t)) (key u [MetaName, StateName]) = f (key u [MetaName, StateName])"
    by (intro n; simp)+
  ultimately show ?thesis using a unfolding site_tab.simps by (simp del: fun_upd_apply)
qed

lemma site_record:
  assumes s: "site_tab u recs U (v, p, i) f" and q: "good_site u q i" and n: "holds_doc (Some n) (probation_bytes q)"
  shows "site_tab u recs U (v, q, i) (f(probation_key u \<mapsto> n))"
proof -
  note a = site_parts [OF s]
  have "update_inv u v recs (f(probation_key u \<mapsto> n))" by (rule inv_meta_upd [OF a(2) foreign_names(1) doc_plain [OF a(6)]])
  moreover have "surroundings u U (f(probation_key u \<mapsto> n))"
    by (rule surroundings_upd [OF a(3-5)]) (auto simp: watched_def)
  moreover have "(f(probation_key u \<mapsto> n)) (key u [MetaName, StateName]) = f (key u [MetaName, StateName])"
    by (rule other_key [OF a(4)]) auto
  ultimately show ?thesis using a q n by (simp add: site_tab.simps)
qed

subsection \<open>Updates of the install state\<close>

lemma site_state_tmp:
  assumes s: "site_tab u recs U (v, p, i) f" and t: "plain_file t"
  shows "site_tab u recs U (v, p, i) (f(key u [MetaName, StateName @ scratch_suffix j k] := t))"
proof -
  note a = site_parts [OF s] and ss = site_simples [OF site_parts(4) [OF s]]
  let ?z = "[MetaName, StateName @ scratch_suffix j k]"
  have "key u ?z = tmp_of j (state_key u) k" using tmp_key_of [of j u "[MetaName]" StateName k] by simp
  then have "tmp_key u (key u ?z) t" using t unfolding tmp_key_def by blast
  then have "update_inv u v recs (f(key u ?z := t))" by (rule inv_tmp [OF a(2)])
  moreover have "surroundings u U (f(key u ?z := t))"
    using ss by (intro surroundings_upd [OF a(3-5)]) (auto simp: watched_def)
  moreover have "(f(key u ?z := t)) (probation_key u) = f (probation_key u)" "(f(key u ?z := t)) (key u [MetaName, StateName]) = f (key u [MetaName, StateName])"
    using ss by (intro other_key [OF a(4)]; simp)+
  ultimately show ?thesis using a unfolding site_tab.simps by (simp del: fun_upd_apply)
qed

lemma site_state:
  assumes s: "site_tab u recs U (v, p, i) f" and i': "i' = u_from u \<or> i' = u_to u"
    and n: "holds_doc (Some n) (install_bytes (installed u i'))"
  shows "site_tab u recs U (v, p, i') (f(key u [MetaName, StateName] \<mapsto> n))"
proof -
  note a = site_parts [OF s]
  have "update_inv u v recs (f(state_key u \<mapsto> n))" by (rule inv_state [OF a(2) doc_plain [OF n]])
  moreover have "surroundings u U (f(key u [MetaName, StateName] \<mapsto> n))"
    by (rule surroundings_upd [OF a(3-5)]) (auto simp: watched_def)
  moreover have "(f(key u [MetaName, StateName] \<mapsto> n)) (probation_key u) = f (probation_key u)"
    by (rule other_key [OF a(4)]) auto
  ultimately show ?thesis using a n i' by (simp add: site_tab.simps good_site_def)
qed

subsection \<open>Moves of the pointer\<close>

lemma site_pointer_tmp:
  assumes s: "site_tab u recs U (v, p, i) f" and t: "litter_ptr (u_pf u) t" "j \<notin> U \<Longrightarrow> t = None"
  shows "site_tab u recs U (v, p, i) (f(key u [CurrentName @ scratch_suffix j k] := t))"
proof -
  note a = site_parts [OF s] and ss = site_simples [OF site_parts(4) [OF s]]
  let ?z = "[CurrentName @ scratch_suffix j k]"
  have z: "key u ?z = tmp_of j (current_key u) k" using tmp_key_of [of j u "[]" CurrentName k] by simp
  have n: "(f(key u ?z := t)) (key u zs) = f (key u zs)" if "simples zs" "zs \<noteq> ?z" for zs
    by (rule other_key [OF a(4) _ that]) (use ss in simp)
  have o: "(f(key u ?z := t)) q = f q" if "prefix (outcomes_key u @ ''/'') q" for q
    using key_tree [OF a(4), of "[MetaName, ProbationOutcomesName]" ?z] that ss by (auto simp: in_tree_def)
  have "(f(key u ?z := t)) (key u [CurrentName @ scratch_suffix j' k']) = None" if "j' \<notin> U" for j' k'
  proof (cases "[CurrentName @ scratch_suffix j' k'] = ?z")
    case True
    then have "j' = j" using scratch_suffix_inj [of j' k' j k] by simp
    then show ?thesis using that t(2) True by simp
  next
    case False
    then show ?thesis using n [of "[CurrentName @ scratch_suffix j' k']"] ss a(3) that by (simp add: surroundings_def)
  qed
  moreover have "(f(key u ?z := t)) (key u [VersionsName, u_from u]) = f (key u [VersionsName, u_from u])"
    "(f(key u ?z := t)) (outcomes_key u) = f (outcomes_key u)"
    "(f(key u ?z := t)) (key u [MetaName, ProbationName @ scratch_suffix j' k']) = f (key u [MetaName, ProbationName @ scratch_suffix j' k'])" for j' k'
    using a(5) ss by (intro n; simp)+
  ultimately have "surroundings u U (f(key u ?z := t))" using a(3) o unfolding surroundings_def by (simp del: fun_upd_apply)
  moreover have "tmp_key u (key u ?z) t" using t(1) z unfolding tmp_key_def by blast
  then have "update_inv u v recs (f(key u ?z := t))" by (rule inv_tmp [OF a(2)])
  moreover have "(f(key u ?z := t)) (probation_key u) = f (probation_key u)" "(f(key u ?z := t)) (key u [MetaName, StateName]) = f (key u [MetaName, StateName])"
    by (intro n; simp)+
  ultimately show ?thesis using a unfolding site_tab.simps by (simp del: fun_upd_apply)
qed

lemma site_pointer:
  assumes s: "site_tab u recs U (v, p, i) f" and n: "holds_ptr (u_pf u) (Some n) (relVersionTarget (u_from u))"
  shows "site_tab u recs U (u_from u, p, i) (f(key u [CurrentName] \<mapsto> n))"
proof -
  note a = site_parts [OF s]
  have "ValidVersion (u_from u)" "u_from u \<noteq> u_to u" using a(4,5) by (simp_all add: good_update_def good_version_def short_version_def)
  then have "update_inv u (u_from u) recs (f(current_key u \<mapsto> n))"
    using n a(5) ptr.holds_file [OF n] by (intro inv_point [OF a(2)]) (auto simp: ptr.points_def)
  moreover have "surroundings u U (f(key u [CurrentName] \<mapsto> n))"
    by (rule surroundings_upd [OF a(3-5)]) (auto simp: watched_def)
  moreover have "(f(key u [CurrentName] \<mapsto> n)) (probation_key u) = f (probation_key u)"
    "(f(key u [CurrentName] \<mapsto> n)) (key u [MetaName, StateName]) = f (key u [MetaName, StateName])"
    by (intro other_key [OF a(4)]; simp)+
  ultimately show ?thesis using a unfolding site_tab.simps by (simp del: fun_upd_apply)
qed

subsection \<open>Waiting outcomes and the version that goes\<close>

lemma site_outcomes:
  assumes s: "site_tab u recs U (v, p, i) f" and wf: "wf_tab g"
    and same: "\<And>q. \<not> in_tree (outcomes_key u) q \<Longrightarrow> g q = f q"
    and d: "\<And>n. g (outcomes_key u) = Some n \<Longrightarrow> isDir n \<and> \<not> isSymlink n"
    and fl: "\<And>q. prefix (outcomes_key u @ ''/'') q \<Longrightarrow> plain_file (g q)"
  shows "site_tab u recs U (v, p, i) g"
proof -
  note a = site_parts [OF s] and ss = site_simples [OF site_parts(4) [OF s]]
  have n: "g (key u zs) = f (key u zs)" if "simples zs" "\<not> prefix [MetaName, ProbationOutcomesName] zs" for zs
    using key_tree [OF a(4) _ that(1), of "[MetaName, ProbationOutcomesName]"] that(2) by (intro same) simp
  have "g (key u [VersionsName, u_from u]) = f (key u [VersionsName, u_from u])" "g (probation_key u) = f (probation_key u)"
    "g (key u [MetaName, StateName]) = f (key u [MetaName, StateName])"
    "g (key u [MetaName, ProbationName @ scratch_suffix j k]) = f (key u [MetaName, ProbationName @ scratch_suffix j k])"
    "g (key u [CurrentName @ scratch_suffix j k]) = f (key u [CurrentName @ scratch_suffix j k])" for j k
    using a(5) ss by (intro n; simp)+
  moreover have "update_inv u v recs g" by (rule inv_foreign [OF a(2) foreign_names(3) wf same])
  ultimately show ?thesis using a d fl unfolding site_tab.simps surroundings_def by simp
qed

lemma site_pruned:
  assumes s: "site_tab u recs U (u_from u, p, i) f"
  shows "site_tab u recs U (u_from u, p, i) (pruned (key u [VersionsName, u_to u]) f)"
proof -
  note a = site_parts [OF s] and ss = site_simples [OF site_parts(4) [OF s]]
  let ?g = "pruned (key u [VersionsName, u_to u]) f"
  have ne: "u_from u \<noteq> u_to u" using a(4) by (simp add: good_update_def)
  have n: "?g (key u zs) = f (key u zs)" if "simples zs" "\<not> prefix [VersionsName, u_to u] zs" for zs
    using key_tree [OF a(4) _ that(1), of "[VersionsName, u_to u]"] that(2) ss by (simp add: pruned_in_tree)
  have o: "?g q = None \<or> ?g q = f q" for q by (simp add: pruned_in_tree)
  have "plain_file (?g q)" if "prefix (outcomes_key u @ ''/'') q" for q using o [of q] a(3) that by (auto simp: surroundings_def)
  moreover have "?g (key u [VersionsName, u_from u]) = f (key u [VersionsName, u_from u])" "?g (probation_key u) = f (probation_key u)"
    "?g (key u [MetaName, StateName]) = f (key u [MetaName, StateName])" "?g (outcomes_key u) = f (outcomes_key u)"
    "?g (key u [MetaName, ProbationName @ scratch_suffix j k]) = f (key u [MetaName, ProbationName @ scratch_suffix j k])"
    "?g (key u [CurrentName @ scratch_suffix j k]) = f (key u [CurrentName @ scratch_suffix j k])" for j k
    using a(5) ss ne by (intro n; simp)+
  moreover have "update_inv u (u_from u) recs ?g"
    using version_unprotected [OF a(4) ne] by (intro inv_pruned [OF a(2)]) simp_all
  ultimately show ?thesis using a unfolding site_tab.simps surroundings_def by simp
qed

end
