(* ===== verification/LaunchLaws.thy ===== *)
theory LaunchLaws
  imports SiteTab
begin

text \<open>
  The install tree keeps the launcher's contract, so the launcher implements its specification on it:
  probation is bounded, and a rollback gets to its end however often it is interrupted.
\<close>

section \<open>Documents fit their limits\<close>

lemma show_int_small: "0 \<le> i \<Longrightarrow> i < 100 \<Longrightarrow> length (show_int i) \<le> 2"
proof -
  assume "0 \<le> i" "i < 100"
  then have "\<not> nat i div 10 \<ge> 10" "\<not> i < 0" by auto
  then show ?thesis by (simp add: show_int_def show_nat.simps [of "nat i"] show_nat.simps [of "nat i div 10"])
qed

lemma status_length: "s \<in> {ProbationActive, ProbationConfirmed, ProbationUnhealthy, ProbationReverting, ProbationReverted, ProbationKept} \<Longrightarrow> length s \<le> 9"
  by (auto simp: probation_statuses)

lemma site_lengths:
  assumes "good_site u p i"
  shows "length (quote (pb_version p)) \<le> 1532" "length (quote (pb_previous p)) \<le> 1532" "length (quote (pb_status p)) \<le> 56"
    "length (quote (pb_reason p)) \<le> 3074" "length (show_int (pb_attempts p)) \<le> 2" "length (show_int (pb_attempts_allowed p)) \<le> 2"
    "length (show_int (pb_restarts p)) \<le> 2" "length (show_int (pb_restarts_allowed p)) \<le> 2"
    "pb_blocked p = Some b \<Longrightarrow> length (quote (bv_version b)) + length (quote (bv_reason b)) \<le> 4606"
proof -
  have p: "sound_probation p" "length (pb_version p) \<le> 255" "length (pb_previous p) \<le> 255" using assms by (auto simp: good_site_def)
  have b: "length (bv_version b) \<le> 255" "length (bv_reason b) \<le> 512" if "pb_blocked p = Some b" for b
    using assms that by (auto simp: good_site_def sound_probation_def clean_reason_def MaxProbationReason_def)
  have r: "length (pb_status p) \<le> 9" "length (pb_reason p) \<le> 512"
    using p(1) status_length [of "pb_status p"] by (simp_all add: sound_probation_def clean_reason_def MaxProbationReason_def)
  note q = quote_length
  show "length (quote (pb_version p)) \<le> 1532" "length (quote (pb_previous p)) \<le> 1532" "length (quote (pb_status p)) \<le> 56"
    "length (quote (pb_reason p)) \<le> 3074"
    using q [of "pb_version p"] q [of "pb_previous p"] q [of "pb_status p"] q [of "pb_reason p"] p(2,3) r by simp_all
  show "length (show_int (pb_attempts p)) \<le> 2" "length (show_int (pb_attempts_allowed p)) \<le> 2"
    "length (show_int (pb_restarts p)) \<le> 2" "length (show_int (pb_restarts_allowed p)) \<le> 2"
    using p(1) by (intro show_int_small; simp add: sound_probation_def MaxProbationAttempts_def MaxProbationRestarts_def)+
  show "length (quote (bv_version b)) + length (quote (bv_reason b)) \<le> 4606" if "pb_blocked p = Some b"
    using q [of "bv_version b"] q [of "bv_reason b"] b [OF that] by simp
qed

lemma probation_fits:
  assumes "good_site u p i"
  shows "int (length (probation_bytes p)) \<le> MaxProbationLen"
proof -
  note l = site_lengths [OF assms]
  have k: "length (quote ''schema_version'') + length (quote ''version'') + length (quote ''previous'') + length (quote ''status'') +
    length (quote ''attempts'') + length (quote ''attempts_allowed'') + length (quote ''restarts'') + length (quote ''restarts_allowed'') +
    length (quote ''restart_pending'') + length (quote ''reason'') + length (quote ''blocked'') + length (show_int ProbationSchema) = 134"
    by code_simp
  show ?thesis
  proof (cases "pb_blocked p")
    case None
    then show ?thesis using l(1-8) k
      by (simp add: probation_bytes_def MarshalIndent_def probation_json_def num_def nl_def MaxProbationLen_def)
  next
    case (Some b)
    show ?thesis using l(1-8) l(9) [OF Some] k
      by (simp add: Some probation_bytes_def MarshalIndent_def probation_json_def blocked_json_def num_def nl_def MaxProbationLen_def)
  qed
qed

lemma install_fits:
  assumes "good_site u p i"
  shows "int (length (install_bytes (installed u i))) \<le> MaxStateLen"
proof -
  have n: "6 * length (u_name u) \<le> 8000" "length i \<le> 255" using assms by (auto simp: good_site_def good_update_def)
  have k: "length (quote ''schema_version'') + length (quote ''name'') + length (quote ''version'') + length (quote ''layout_schema'') +
    length (show_int StateSchema) + length (show_int LayoutSchema) = 48" by code_simp
  show ?thesis using quote_length [of "u_name u"] quote_length [of i] n k
    by (simp add: install_bytes_def installed_def MarshalIndent_def install_json_def num_def nl_def MaxStateLen_def)
qed

section \<open>Steps on the site\<close>

definition at_site :: "mem \<Rightarrow> update \<Rightarrow> Record list \<Rightarrow> nat set \<Rightarrow> site \<Rightarrow> mem \<Rightarrow> bool" where
  "at_site m0 u recs U s m \<longleftrightarrow> (\<exists>f. site_tab u recs U s f \<and> tab m0 f m)"

lemma triple_site:
  assumes "\<And>f. site_tab u recs U s f \<Longrightarrow> triple (tab m0 f) p Q E"
  shows "triple (at_site m0 u recs U s) p Q E"
  by (rule tripleI) (use assms in \<open>auto simp: at_site_def dest: triple_Inr triple_Inl\<close>)

lemma siteI: "site_tab u recs U s f \<Longrightarrow> tab m0 f m \<Longrightarrow> at_site m0 u recs U s m"
  by (auto simp: at_site_def)

lemma site_root: "site_tab u recs U (v, p, i) f \<Longrightarrow> simples (u_root u)"
  using site_parts(4) update_simples(1) by blast

subsection \<open>The record\<close>

lemma ReadProbation_site:
  assumes h: "honest m0"
  shows "triple (at_site m0 u recs U (v, p, i)) (ReadProbation (abs_path (u_root u)))
    (\<lambda>r m. at_site m0 u recs U (v, p, i) m \<and> r = Some p) (\<lambda>_ m. at_site m0 u recs U (v, p, i) m \<and> hooked m0)"
proof (rule triple_site)
  fix f
  assume s: "site_tab u recs U (v, p, i) f"
  note a = site_parts [OF s]
  obtain n where n: "f (probation_key u) = Some n" "\<not> isDir n" "\<not> isSymlink n" "data n = probation_bytes p"
    using a(6) by (auto simp: holds_doc_def)
  have p: "sound_probation p" "p\<lparr>pb_schema := ProbationSchema\<rparr> = p" using a(1) by (simp_all add: good_site_def)
  have "int (length (data n)) \<le> MaxProbationLen" "parse_probation (data n) = Inr (Some p)"
    using probation_fits [OF a(1)] parse_probation_bytes [OF p(1)] p(2) n(4) by simp_all
  then have "triple (tab m0 f) (ReadProbation (abs_path (u_root u))) (\<lambda>r m. r = Some p \<and> tab m0 f m) (\<lambda>_ m. tab m0 f m \<and> hooked m0)"
    using n h by (intro pro.load_plain [OF inv_parts(2) [OF a(2)] refl]) (auto simp: plain_file_def)
  then show "triple (tab m0 f) (ReadProbation (abs_path (u_root u)))
    (\<lambda>r m. at_site m0 u recs U (v, p, i) m \<and> r = Some p) (\<lambda>_ m. at_site m0 u recs U (v, p, i) m \<and> hooked m0)"
    by (rule triple_weaken) (auto intro: siteI [OF s])
qed

lemma WriteProbation_site:
  assumes q: "good_site u q i"
  shows "triple (at_site m0 u recs U (v, p, i)) (WriteProbation (abs_path (u_root u)) q) (\<lambda>_. at_site m0 u recs U (v, q, i))
    (\<lambda>_ m. (at_site m0 u recs U (v, p, i) m \<or> at_site m0 u recs U (v, q, i) m) \<and> hooked m0)"
proof (rule triple_site)
  fix f
  assume s: "site_tab u recs U (v, p, i) f"
  note a = site_parts [OF s]
  let ?n = "file_node MetaFileMode (probation_bytes q)"
  have tk: "tmp_of j (abs_path ((u_root u @ [MetaName]) @ [ProbationName])) k = key u [MetaName, ProbationName @ scratch_suffix j k]" for j k
    using tmp_key_of [of j u "[MetaName]" ProbationName k] by simp
  have pk: "abs_path ((u_root u @ [MetaName]) @ [ProbationName]) = probation_key u" by simp
  have reg: "plain_file (f (abs_path ((u_root u @ [MetaName]) @ [ProbationName])))"
    "plain_file (f (tmp_of (pid m0) (abs_path ((u_root u @ [MetaName]) @ [ProbationName])) k))" for k
    using a(3) doc_plain [OF a(6)] unfolding tk unfolding pk surroundings_def by simp_all
  have wr: "at_site m0 u recs U (v, q, i) m" if "written m0 f (probation_key u) ?n m" for m
    using that site_record [OF site_record_tmp [OF s, of None] q, of ?n] unfolding written_def pk [symmetric] tk
    by (auto intro: siteI)
  have un: "at_site m0 u recs U (v, p, i) m" if "unwritten m0 f (probation_key u) m" for m
    using that site_record_tmp [OF s] unfolding unwritten_def pk [symmetric] tk by (auto intro: siteI)
  have ok: "sound_probation q" using q by (simp add: good_site_def)
  show "triple (tab m0 f) (WriteProbation (abs_path (u_root u)) q) (\<lambda>_. at_site m0 u recs U (v, q, i))
    (\<lambda>_ m. (at_site m0 u recs U (v, p, i) m \<or> at_site m0 u recs U (v, q, i) m) \<and> hooked m0)"
    using pro.store_plain [OF meta_ok_inv [OF a(2)] ok refl refl reg] unfolding with_dir_inv [OF a(2)] pk
    by (rule triple_weaken) (auto intro: wr un siteI [OF s])
qed

subsection \<open>The pointer\<close>

lemma PointerTarget_site:
  "triple (at_site m0 u recs U (v, p, i)) (PointerTarget (u_pf u) (abs_path (u_root u)))
    (\<lambda>x m. at_site m0 u recs U (v, p, i) m \<and> x = v) (\<lambda>_ m. at_site m0 u recs U (v, p, i) m \<and> hooked m0)"
proof (rule triple_site)
  fix f
  assume s: "site_tab u recs U (v, p, i) f"
  note i = inv_parts [OF site_parts(2) [OF s]]
  show "triple (tab m0 f) (PointerTarget (u_pf u) (abs_path (u_root u)))
    (\<lambda>x m. at_site m0 u recs U (v, p, i) m \<and> x = v) (\<lambda>_ m. at_site m0 u recs U (v, p, i) m \<and> hooked m0)"
    by (rule triple_weaken [OF PointerTarget_plain [OF i(4,6)]]) (auto intro: siteI [OF s])
qed

lemma old_dirs:
  assumes "site_tab u recs U (v, p, i) f"
  shows "dirs_tab f (versions_dir u @ [u_from u])"
proof -
  note a = site_parts [OF assms] and ss = site_simples [OF site_parts(4) [OF assms]]
  have d: "dirs_tab f (versions_dir u)" using inv_parts(3) [OF a(2)] .
  obtain n where n: "f (key u [VersionsName, u_from u]) = Some n" "isDir n" "\<not> isSymlink n" using a(3) by (auto simp: surroundings_def)
  have "\<exists>n. f (abs_path (take j (versions_dir u @ [u_from u]))) = Some n \<and> isDir n \<and> \<not> isSymlink n"
    if "j \<le> length (versions_dir u @ [u_from u])" for j
  proof (cases "j \<le> length (versions_dir u)")
    case True
    then have "take j (versions_dir u @ [u_from u]) = take j (versions_dir u)" unfolding take_append by simp
    then show ?thesis using d True by (simp add: dirs_tab_def)
  next
    case False
    then have "take j (versions_dir u @ [u_from u]) = versions_dir u @ [u_from u]" using that by simp
    then show ?thesis using n by simp
  qed
  then show ?thesis using d ss(2) a(5) by (simp add: dirs_tab_def)
qed

lemma Stat_old_site:
  "triple (at_site m0 u recs U (v, p, i)) (Stat (key u [VersionsName, u_from u])) (\<lambda>_. at_site m0 u recs U (v, p, i)) (\<lambda>_ _. False)"
proof (rule triple_site)
  fix f
  assume s: "site_tab u recs U (v, p, i) f"
  have "\<exists>x. Stat (key u [VersionsName, u_from u]) m = (Inr x, m)" if t: "tab m0 f m" for m
  proof -
    have d: "dirs_ok m (versions_dir u @ [u_from u])" using old_dirs [OF s] t by (simp add: dirs_ok_tab tab_def)
    then obtain n where "node_at m (abs_path (versions_dir u @ [u_from u])) = Some n"
      by (auto simp: dirs_ok_def real_dir_def dest!: spec [of _ "length (versions_dir u @ [u_from u])"])
    then show ?thesis using resolve_dir [OF d] by (simp add: Stat_def stat_def node_def)
  qed
  then show "triple (tab m0 f) (Stat (key u [VersionsName, u_from u])) (\<lambda>_. at_site m0 u recs U (v, p, i)) (\<lambda>_ _. False)"
    using siteI [OF s] by (fastforce simp: triple_def)
qed

lemma Base_key: "simple e \<Longrightarrow> Base (key u (zs @ [e])) = e"
  using path_base_abs [of e "u_root u @ zs"] by (simp add: Base_def Slash_def)

lemma Swap_site:
  assumes h: "hooked m0 \<Longrightarrow> pid m0 \<in> U"
  shows "triple (at_site m0 u recs U (v, p, i)) (Swap (u_pf u) (abs_path (u_root u)) (key u [VersionsName, u_from u]))
    (\<lambda>_. at_site m0 u recs U (u_from u, p, i))
    (\<lambda>_ m. (at_site m0 u recs U (v, p, i) m \<or> at_site m0 u recs U (u_from u, p, i) m) \<and> pid m0 \<in> U)"
    (is "triple _ _ ?Q ?E")
proof (cases "\<exists>f. site_tab u recs U (v, p, i) f")
  case False
  then show ?thesis by (simp add: triple_def at_site_def)
next
  case True
  then obtain f0 where f0: "site_tab u recs U (v, p, i) f0" by blast
  note g = site_parts(4,5) [OF f0]
  have sv: "short_version (u_from u)" using g by (simp add: good_update_def good_version_def)
  have bs: "Base (key u [VersionsName, u_from u]) = u_from u"
    using Base_key [of "u_from u" u "[VersionsName]"] site_simples(2) [OF g] by simp
  have ne: "check_stager (abs_path (u_root u)) = Inr ()" "ValidateVersion (u_from u) = Inr ()"
    using sv by (simp_all add: check_stager_def short_version_def)
  have sp: "triple (at_site m0 u recs U (v, p, i)) (SetPointer (u_pf u) (abs_path (u_root u)) (u_from u)) ?Q ?E"
  proof (rule triple_site)
    fix f
    assume s: "site_tab u recs U (v, p, i) f"
    note a = site_parts [OF s] and q = inv_parts [OF site_parts(2) [OF s]]
    have tk: "tmp_of j (cur (u_root u)) k = key u [CurrentName @ scratch_suffix j k]" for j k
      using tmp_key_of [of j u "[]" CurrentName k] by simp
    have cs: "clear_scratch m0 f (cur (u_root u))" if "pid m0 \<notin> U"
      using a(3) that unfolding clear_scratch_def tk by (simp add: surroundings_def)
    have re: "at_site m0 u recs U (u_from u, p, i) m" if "repointed (u_pf u) m0 f (u_root u) (u_from u) m" for m
      using that site_pointer [OF site_pointer_tmp [OF s ptr.litter_None]] unfolding repointed_def tk by (auto intro: siteI)
    have un: "at_site m0 u recs U (v, p, i) m" if "unpointed (u_pf u) m0 f (u_root u) m" "pid m0 \<in> U" for m
      using that site_pointer_tmp [OF s] unfolding unpointed_def tk by (auto intro: siteI)
    show "triple (tab m0 f) (SetPointer (u_pf u) (abs_path (u_root u)) (u_from u)) ?Q ?E"
    proof (rule triple_weaken [OF SetPointer_plain [OF q(4,5) _ _ sv]])
      show "\<not> isDir n" if "f (cur (u_root u)) = Some n" for n using ptr.points_not_dir [OF q(6) that] .
      show "litter_ptr (u_pf u) (f (tmp_of (pid m0) (cur (u_root u)) k))" for k using q(8) by (simp add: scratch_ok_def)
    qed (use re un cs h in blast)+
  qed
  have st: "triple (at_site m0 u recs U (v, p, i)) (wrap ErrStage (Stat (key u [VersionsName, u_from u]))) (\<lambda>_. at_site m0 u recs U (v, p, i)) ?E"
    by (rule triple_wrap, rule triple_weaken [OF Stat_old_site]) auto
  show ?thesis unfolding Swap_def bs ne bind_lift by (rule triple_bind [OF st sp])
qed

subsection \<open>The install state\<close>

lemma installed_ok:
  assumes "good_site u p i"
  shows "install_ok (installed u i)" "parse_install (install_bytes (installed u i)) = Inr (Some ((installed u i)\<lparr>in_schema := StateSchema\<rparr>))"
proof -
  show ok: "install_ok (installed u i)"
    using assms by (auto simp: install_ok_def installed_def good_site_def good_update_def good_version_def short_version_def LayoutSchema_def)
  have "valid_utf8 (in_name (installed u i))" "int64 (in_layout (installed u i))"
    using assms by (simp_all add: installed_def good_site_def good_update_def int64_def LayoutSchema_def)
  then show "parse_install (install_bytes (installed u i)) = Inr (Some ((installed u i)\<lparr>in_schema := StateSchema\<rparr>))"
    by (rule parse_install_bytes [OF ok])
qed

lemma ReadInstall_site:
  assumes h: "honest m0"
  shows "triple (at_site m0 u recs U (v, p, i)) (ReadInstall (abs_path (u_root u)))
    (\<lambda>r m. at_site m0 u recs U (v, p, i) m \<and> (\<exists>x. r = Some x \<and> in_version x = i \<and> in_name x = u_name u))
    (\<lambda>_ m. at_site m0 u recs U (v, p, i) m \<and> hooked m0)"
proof (rule triple_site)
  fix f
  assume s: "site_tab u recs U (v, p, i) f"
  note a = site_parts [OF s]
  let ?x = "(installed u i)\<lparr>in_schema := StateSchema\<rparr>"
  obtain n where n: "f (state_key u) = Some n" "\<not> isDir n" "\<not> isSymlink n" "data n = install_bytes (installed u i)"
    using a(7) by (auto simp: holds_doc_def)
  have "triple (tab m0 f) (ReadInstall (abs_path (u_root u))) (\<lambda>r m. r = Some ?x \<and> tab m0 f m) (\<lambda>_ m. tab m0 f m \<and> hooked m0)"
    using n h installed_ok(2) [OF a(1)] install_fits [OF a(1)]
    by (intro sta.load_plain [OF inv_parts(2) [OF a(2)] refl]) (auto simp: plain_file_def)
  then show "triple (tab m0 f) (ReadInstall (abs_path (u_root u)))
    (\<lambda>r m. at_site m0 u recs U (v, p, i) m \<and> (\<exists>x. r = Some x \<and> in_version x = i \<and> in_name x = u_name u))
    (\<lambda>_ m. at_site m0 u recs U (v, p, i) m \<and> hooked m0)"
    by (rule triple_weaken) (auto simp: installed_def intro: siteI [OF s])
qed

lemma WriteInstall_site:
  "triple (at_site m0 u recs U (v, p, i)) (WriteInstall (abs_path (u_root u)) (installed u (u_from u)))
    (\<lambda>_. at_site m0 u recs U (v, p, u_from u))
    (\<lambda>_ m. (at_site m0 u recs U (v, p, i) m \<or> at_site m0 u recs U (v, p, u_from u) m) \<and> hooked m0)"
proof (rule triple_site)
  fix f
  assume s: "site_tab u recs U (v, p, i) f"
  note a = site_parts [OF s]
  let ?x = "installed u (u_from u)"
  let ?n = "file_node MetaFileMode (install_bytes ?x)"
  have ok: "install_ok ?x" by (rule installed_ok(1) [of u p]) (use a(1) in \<open>auto simp: good_site_def\<close>)
  have tk: "tmp_of j (state_key u) k = key u [MetaName, StateName @ scratch_suffix j k]" for j k
    using tmp_key_of [of j u "[MetaName]" StateName k] by simp
  have pk: "state_key u = key u [MetaName, StateName]" by simp
  have reg: "plain_file (f (state_key u))" "plain_file (f (tmp_of (pid m0) (state_key u) k))" for k
    using inv_parts(8,10) [OF a(2)] by (simp_all add: scratch_ok_def)
  have wr: "at_site m0 u recs U (v, p, u_from u) m" if "written m0 f (state_key u) ?n m" for m
    using that site_state [OF site_state_tmp [OF s, of None], of "u_from u" ?n] unfolding written_def tk unfolding pk by (auto intro: siteI)
  have un: "at_site m0 u recs U (v, p, i) m" if "unwritten m0 f (state_key u) m" for m
    using that site_state_tmp [OF s] unfolding unwritten_def tk unfolding pk by (auto intro: siteI)
  show "triple (tab m0 f) (WriteInstall (abs_path (u_root u)) ?x) (\<lambda>_. at_site m0 u recs U (v, p, u_from u))
    (\<lambda>_ m. (at_site m0 u recs U (v, p, i) m \<or> at_site m0 u recs U (v, p, u_from u) m) \<and> hooked m0)"
    using sta.store_plain [OF meta_ok_inv [OF a(2)] ok refl refl reg] unfolding with_dir_inv [OF a(2)]
    by (rule triple_weaken) (use wr un siteI [OF s] in blast)+
qed

subsection \<open>Removing the version that failed\<close>

lemma Remove_new_site:
  "triple (at_site m0 u recs U (u_from u, p, i)) (ignore (RemoveAll (key u [VersionsName, u_to u])))
    (\<lambda>_. at_site m0 u recs U (u_from u, p, i)) (\<lambda>_ _. False)"
proof (rule triple_ignore, rule triple_site)
  fix f
  assume s: "site_tab u recs U (u_from u, p, i) f"
  note q = inv_parts [OF site_parts(2) [OF s]] and ss = site_simples [OF site_parts(4) [OF s]]
  have k: "key u [VersionsName, u_to u] = abs_path (versions_dir u @ [u_to u])" by simp
  show "triple (tab m0 f) (RemoveAll (key u [VersionsName, u_to u])) (\<lambda>_. at_site m0 u recs U (u_from u, p, i)) (\<lambda>_. at_site m0 u recs U (u_from u, p, i))"
    by (rule triple_weaken [OF RemoveAll_plain [OF q(3) ss(1) k q(5)]]) (auto intro: siteI [OF s] siteI [OF site_pruned [OF s]])
qed

subsection \<open>Outcomes\<close>

lemma outcome_name_simple:
  assumes "validate_outcome x = Inr ()"
  shows "simple (probationOutcomeName x)"
proof -
  have v: "ValidVersion (oc_to x)" "oc_result x \<in> {ProbationResultRolledBack, ProbationResultKept}"
    "oc_class x \<in> {ProbationClassUnconfirmed, ProbationClassUnhealthy, ProbationClassRestarts, ProbationClassReinstalled}"
    using assms by (auto simp: validate_outcome_def split: sum.splits if_splits)
  have "simple (oc_to x)" using simple_version v(1) by blast
  moreover have "slash \<notin> set (''_'' @ oc_result x @ ''_'' @ oc_class x @ ''.json'')" using v(2,3) by (auto simp: probation_words)
  ultimately show ?thesis by (auto simp: simple_def probationOutcomeName_def append_eq_Cons_conv)
qed

lemma outcomes_written:
  assumes s: "site_tab u recs U (v, p, i) f" and e: "simple e" and t: "plain_file t" "plain_file n"
    and g: "g = with_dir DirMode (outcomes_key u) f"
  shows "site_tab u recs U (v, p, i) (g(key u [MetaName, ProbationOutcomesName, e @ scratch_suffix j k] := t))"
    "site_tab u recs U (v, p, i) (g(key u [MetaName, ProbationOutcomesName, e @ scratch_suffix j k] := t, key u [MetaName, ProbationOutcomesName, e] := n))"
proof -
  note a = site_parts [OF s] and q = inv_parts [OF site_parts(2) [OF s]]
  have ok: "outcomes_key u = abs_path (meta_dir u @ [ProbationOutcomesName])" by simp
  have real: "isDir n \<and> \<not> isSymlink n" if "f (outcomes_key u) = Some n" for n using a(3) that by (simp add: surroundings_def)
  have d: "dirs_tab g (meta_dir u @ [ProbationOutcomesName])" "wf_tab g"
    using with_dir_dirs [OF q(2) outcomes_name ok real] wf_with_dir [OF q(5,2) outcomes_name ok] g by simp_all
  have below: "g x = f x" if "prefix (outcomes_key u @ ''/'') x" for x using that by (auto simp: g with_dir_def prefix_def)
  have fl: "plain_file (g x)" if "prefix (outcomes_key u @ ''/'') x" for x using a(3) below [OF that] that by (simp add: surroundings_def)
  have kk: "key u [MetaName, ProbationOutcomesName, y] = abs_path ((meta_dir u @ [ProbationOutcomesName]) @ [y])" for y by simp
  have wf: "wf_tab (h(key u [MetaName, ProbationOutcomesName, y] := w))"
    if "wf_tab h" "dirs_tab h (meta_dir u @ [ProbationOutcomesName])" "simple y" "plain_file (h (key u [MetaName, ProbationOutcomesName, y]))" for h y w
    by (rule wf_tab_file [OF that(1-3) kk]) (use that(4) in \<open>auto simp: plain_file_def\<close>)
  have bl: "prefix (outcomes_key u @ ''/'') (key u [MetaName, ProbationOutcomesName, y])" if "simple y" for y
    using key_tree [OF a(4), of "[MetaName, ProbationOutcomesName]" "[MetaName, ProbationOutcomesName, y]"] that
      key_eq [OF a(4), of "[MetaName, ProbationOutcomesName, y]" "[MetaName, ProbationOutcomesName]"] by (auto simp: in_tree_def)
  have se: "simple (e @ scratch_suffix j k)" using simple_scratch [OF e] .
  let ?g1 = "g(key u [MetaName, ProbationOutcomesName, e @ scratch_suffix j k] := t)"
  let ?g2 = "?g1(key u [MetaName, ProbationOutcomesName, e] := n)"
  have w1: "wf_tab ?g1" "dirs_tab ?g1 (meta_dir u @ [ProbationOutcomesName])"
    by (rule wf [OF d(2,1) se fl [OF bl [OF se]]], rule dirs_tab_upd [OF d(1) se kk])
  have p1: "plain_file (?g1 x)" if "prefix (outcomes_key u @ ''/'') x" for x using fl [OF that] t by simp
  have w2: "wf_tab ?g2" by (rule wf [OF w1 e p1 [OF bl [OF e]]])
  have o: "key u [MetaName, ProbationOutcomesName, y] \<noteq> outcomes_key u" if "simple y" for y
    using key_eq [OF a(4), of "[MetaName, ProbationOutcomesName, y]" "[MetaName, ProbationOutcomesName]"] that by simp
  have dir: "isDir n \<and> \<not> isSymlink n" if "g (outcomes_key u) = Some n" for n
    using that real g by (auto simp: with_dir_def split: if_splits)
  have out: "g x = f x" "x \<noteq> key u [MetaName, ProbationOutcomesName, y]" if "\<not> in_tree (outcomes_key u) x" "simple y" for x y
    using that bl [of y] by (auto simp: g with_dir_def in_tree_def)
  show "site_tab u recs U (v, p, i) ?g1"
    using w1(1) p1 dir o [OF se] out se by (intro site_outcomes [OF s]) auto
  show "site_tab u recs U (v, p, i) ?g2"
    using w2 p1 t(2) dir o [OF se] o [OF e] out se e by (intro site_outcomes [OF s]) auto
qed

lemma recordOutcome_site:
  assumes r: "o_root opts = abs_path (u_root u)"
  shows "triple (at_site m0 u recs U (v, p, i)) (recordOutcome opts q rslt cls) (\<lambda>_. at_site m0 u recs U (v, p, i)) (\<lambda>_ _. False)"
proof -
  let ?S = "at_site m0 u recs U (v, p, i)"
  have wr: "triple ?S (WriteProbationOutcome (abs_path (u_root u)) x) (\<lambda>_. ?S) (\<lambda>_. ?S)" for x
  proof (rule triple_site)
    fix f
    assume s: "site_tab u recs U (v, p, i) f"
    note a = site_parts [OF s] and iv = inv_parts [OF site_parts(2) [OF s]]
    let ?o = "x\<lparr>oc_schema := ProbationOutcomeSchema\<rparr>" and ?d = "outcomes_key u"
    let ?nm = "probationOutcomeName ?o"
    have root: "simples (u_root u)" by (rule site_root [OF s])
    have dir: "ProbationOutcomes (abs_path (u_root u)) = ?d" using root by (simp add: ProbationOutcomes_def Join_abs)
    have rd: "triple (tab m0 f) (ProbationOutcomeNames (abs_path (u_root u))) (\<lambda>_. tab m0 f) (\<lambda>_. tab m0 f)"
      by (auto simp: triple_def ProbationOutcomeNames_def attempt_def ret_def throw_def ReadDir_def split: prod.splits sum.splits if_splits)
    have mk: "triple (tab m0 f) (bind (wrap ErrLayout (MkdirAll ?d DirMode)) (\<lambda>_.
        wrap ErrLayout (WriteFileAtomic (key u [MetaName, ProbationOutcomesName, ?nm]) bs MetaFileMode))) (\<lambda>_. ?S) (\<lambda>_. ?S)"
      if ok: "validate_outcome ?o = Inr ()" for bs
    proof -
      have e: "simple ?nm" by (rule outcome_name_simple [OF ok])
      have nm: "key u [MetaName, ProbationOutcomesName, ?nm] = abs_path ((meta_dir u @ [ProbationOutcomesName]) @ [?nm])"
        "?d = abs_path (meta_dir u @ [ProbationOutcomesName])" by simp_all
      have tk: "tmp_of j (key u [MetaName, ProbationOutcomesName, ?nm]) k = key u [MetaName, ProbationOutcomesName, ?nm @ scratch_suffix j k]" for j k
        using tmp_key_of [of j u "[MetaName, ProbationOutcomesName]" ?nm k] by simp
      have real: "isDir n \<and> \<not> isSymlink n" if "f ?d = Some n" for n using a(3) that by (simp add: surroundings_def)
      have bl: "plain_file (f (key u [MetaName, ProbationOutcomesName, y]))" if "simple y" for y
        using key_tree [OF a(4), of "[MetaName, ProbationOutcomesName]" "[MetaName, ProbationOutcomesName, y]"] that
          key_eq [OF a(4), of "[MetaName, ProbationOutcomesName, y]" "[MetaName, ProbationOutcomesName]"] a(3)
        by (auto simp: in_tree_def surroundings_def)
      have reg: "plain_file (f (tmp_of (pid m0) (key u [MetaName, ProbationOutcomesName, ?nm]) k))" for k
        unfolding tk by (rule bl [OF simple_scratch [OF e]])
      have nd: "\<not> isDir n" if "f (key u [MetaName, ProbationOutcomesName, ?nm]) = Some n" for n
        using bl [OF e] that by (simp add: plain_file_def)
      have ow: "?S m" if "tab m0 ((with_dir DirMode ?d f)(key u [MetaName, ProbationOutcomesName, ?nm @ scratch_suffix (pid m0) k] := None,
          key u [MetaName, ProbationOutcomesName, ?nm] \<mapsto> file_node MetaFileMode bs)) m" for m k
        by (rule siteI [OF outcomes_written(2) [OF s e _ _ refl] that]) simp_all
      have ou: "?S m" if "tab m0 ((with_dir DirMode ?d f)(key u [MetaName, ProbationOutcomesName, ?nm @ scratch_suffix (pid m0) k] := t)) m" "plain_file t" for m k t
        by (rule siteI [OF outcomes_written(1) [OF s e that(2,2) refl] that(1)])
      show ?thesis
        by (rule triple_weaken [OF write_child_file [OF iv(2,5) outcomes_name e nm real nd reg]])
          (unfold written_def unwritten_def tk, (use ow ou siteI [OF s] in blast)+)
    qed
    have join: "Join [?d, ?nm] = key u [MetaName, ProbationOutcomesName, ?nm]" if "validate_outcome ?o = Inr ()"
      using outcome_name_simple [OF that] root Join_abs [of "u_root u @ [MetaName, ProbationOutcomesName]" "[?nm]"] by simp
    have st: "?S m" if "tab m0 f m" for m using siteI [OF s that] .
    show "triple (tab m0 f) (WriteProbationOutcome (abs_path (u_root u)) x) (\<lambda>_. ?S) (\<lambda>_. ?S)"
    proof (cases "validate_outcome ?o")
      case (Inl er)
      then show ?thesis using st by (simp add: WriteProbationOutcome_def triple_def throw_def)
    next
      case (Inr y)
      then have ok: "validate_outcome ?o = Inr ()" by simp
      have body: "triple (tab m0 f) (if length pending \<ge> MaxProbationOutcomes \<and> ?nm \<notin> set pending then throw [ErrLayout]
        else (case outcome_json ?o of Inl e \<Rightarrow> throw (ErrLayout # e) | Inr j \<Rightarrow>
          bind (wrap ErrLayout (MkdirAll ?d DirMode)) (\<lambda>_.
          wrap ErrLayout (WriteFileAtomic (key u [MetaName, ProbationOutcomesName, ?nm]) (MarshalIndent j @ [byte 10]) MetaFileMode)))) (\<lambda>_. ?S) (\<lambda>_. ?S)" for pending
        using mk Inr st by (cases "outcome_json ?o") (auto intro!: triple_if triple_throw)
      have rd': "triple (tab m0 f) (ProbationOutcomeNames (abs_path (u_root u))) (\<lambda>_. tab m0 f) (\<lambda>_. ?S)"
        using st by (intro triple_weaken [OF rd]) auto
      show ?thesis
        unfolding WriteProbationOutcome_def Let_def dir join [OF ok] ok bind_lift by (rule triple_bind [OF rd' body])
    qed
  qed
  show ?thesis
    unfolding recordOutcome_def r by (intro triple_if triple_ret triple_ignore wr)
qed

end
