(* ===== verification/LaunchSample.thy ===== *)
theory LaunchSample
  imports LaunchLaws
begin

text \<open>
  A small install after a committed update with a probation record, in which the theorems on the
  launcher are applied.
\<close>

definition sample_trial :: Probation where
  "sample_trial = sample_probation\<lparr>pb_version := ''1.1.0''\<rparr>"

definition sample_site :: mem where
  "sample_site = (sample_disk ''1.1.0'' sample_committed)\<lparr>nodes := nodes (sample_disk ''1.1.0'' sample_committed) @
     [(''/.updater/probation.json'', file_node MetaFileMode (probation_bytes sample_trial)),
      (''/.updater/state.json'', file_node MetaFileMode (install_bytes (installed sample_update ''1.1.0'')))]\<rparr>"

definition sample_options :: Options where
  "sample_options = \<lparr> o_form = symlinkPointer, o_root = ''/'', o_migrate = None, o_lock = None, o_now = 1, o_goos = ''linux'', o_goarch = ''amd64'' \<rparr>"

lemma sample_site_node: "node_at sample_site = (node_at (sample_disk ''1.1.0'' sample_committed))
    (key sample_update [MetaName, ProbationName] \<mapsto> file_node MetaFileMode (probation_bytes sample_trial),
     key sample_update [MetaName, StateName] \<mapsto> file_node MetaFileMode (install_bytes (installed sample_update ''1.1.0'')))"
proof -
  have k: "key sample_update [MetaName, ProbationName] = ''/.updater/probation.json''" "key sample_update [MetaName, StateName] = ''/.updater/state.json''"
    by (simp_all add: sample_update_def abs_path_def layout_names)
  show ?thesis unfolding k by (simp add: fun_eq_iff node_at_def sample_site_def sample_disk_def map_add_def)
qed

lemma sample_site_ok: "site_tab sample_update sample_committed {} (''1.1.0'', sample_trial, ''1.1.0'') (node_at sample_site)"
proof -
  let ?u = sample_update and ?f = "node_at (sample_disk ''1.1.0'' sample_committed)"
  have u: "u_root ?u = []" "u_from ?u = ''1.0.0''" "u_to ?u = ''1.1.0''" by (simp_all add: sample_update_def)
  have "validate_probation sample_trial = Inr ()" by code_simp
  then have g: "good_site ?u sample_trial ''1.1.0''"
    using sample_good by (simp add: good_site_def validate_sound u) (simp add: sample_trial_def sample_probation_def ProbationSchema_def)
  have inv: "update_inv ?u ''1.1.0'' sample_committed ?f" by (rule sample_inv) (use sample_histories [of sample_committed] in auto)
  have pk: "?f (key ?u [MetaName, ProbationName]) = None" by (simp add: u sample_node abs_path_def layout_names)
  then have i1: "update_inv ?u ''1.1.0'' sample_committed (?f(key ?u [MetaName, ProbationName] \<mapsto> file_node MetaFileMode (probation_bytes sample_trial)))"
    by (intro inv_meta_upd [OF inv foreign_names(1)]) simp
  have i2: "update_inv ?u ''1.1.0'' sample_committed (node_at sample_site)"
    unfolding sample_site_node using inv_state [OF i1, of "file_node MetaFileMode (install_bytes (installed ?u ''1.1.0''))"] by simp
  let ?ks = "[''/'', ''/.updater'', ''/versions'', ''/versions/1.0.0'', ''/versions/1.1.0'', ''/current'', ''/.updater/journal.json'']"
  have ko: "key ?u [MetaName, ProbationOutcomesName] = ''/.updater/probation-outcomes''"
    by (simp add: u abs_path_def layout_names ProbationOutcomesName_def)
  have np: "list_all (\<lambda>k. \<not> prefix ''/.updater/probation-outcomes'' k) ?ks" by code_simp
  have o: "?f q = None" if "prefix ''/.updater/probation-outcomes'' q" for q
  proof -
    have "q \<notin> set ?ks" using np that unfolding list_all_iff by blast
    then show ?thesis by (simp add: sample_node)
  qed
  have ob: "?f q = None" if "prefix (''/.updater/probation-outcomes'' @ ''/'') q" for q using o append_prefixD [OF that] by blast
  have z: "surroundings ?u {} ?f"
    unfolding surroundings_def ko
  proof (intro conjI allI impI)
    show "\<exists>n. ?f (key ?u [VersionsName, u_from ?u]) = Some n \<and> isDir n \<and> \<not> isSymlink n" by (simp add: u sample_keys sample_node)
    show "plain_file (?f (key ?u [MetaName, ProbationName @ scratch_suffix j k]))" for j k
      by (simp add: u sample_node abs_path_def layout_names scratch_suffix_def)
    show "?f (key ?u [CurrentName @ scratch_suffix j k]) = None" for j k
      by (simp add: u sample_node abs_path_def layout_names scratch_suffix_def)
    show "plain_file (?f q)" if "prefix (''/.updater/probation-outcomes'' @ ''/'') q" for q using ob [OF that] by simp
  next
    fix n
    assume "?f ''/.updater/probation-outcomes'' = Some n"
    then show "isDir n" "\<not> isSymlink n" using o [OF prefix_order.refl] by simp_all
  qed
  have "surroundings ?u {} (node_at sample_site)"
    unfolding sample_site_node by (intro surroundings_upd z sample_good) (auto simp: u watched_def)
  moreover have "key ?u [MetaName, ProbationName] \<noteq> key ?u [MetaName, StateName]" by (simp add: key_eq [OF sample_good])
  ultimately show ?thesis using g i2 by (simp add: site_tab.simps) (simp add: sample_site_node)
qed

lemma sample_site_env: "\<not> hooked sample_site"
  by (simp add: hooked_def sample_site_def sample_disk_def NewMem_def)

end
