(* ===== verification/LaunchSafe.thy ===== *)
theory LaunchSafe
  imports LaunchSample
begin

text \<open>
  The launcher on an install tree: the tree as an instance of the launcher's contract, and what follows
  for starts, restarts, reports and interrupted rollbacks.
\<close>

section \<open>The host's part\<close>

text \<open>
  What is relied on: the launcher is pointed at this installation; a hook of the host and its lock keep
  their hands off the install tree; and unless \<open>b\<close>, the hook succeeds and the lock is to be had.  \<open>U\<close> are
  the processes in which calls may fail.
\<close>

definition host_ok :: "mem \<Rightarrow> update \<Rightarrow> Record list \<Rightarrow> nat set \<Rightarrow> bool \<Rightarrow> Options \<Rightarrow> bool" where
  "host_ok m0 u recs U b opts \<longleftrightarrow> o_root opts = abs_path (u_root u) \<and> o_form opts = u_pf u \<and> honest m0 \<and>
     (hooked m0 \<longrightarrow> pid m0 \<in> U) \<and> (pid m0 \<in> U \<longrightarrow> b) \<and>
     (\<forall>mg c s. o_migrate opts = Some mg \<longrightarrow>
        triple (at_site m0 u recs U s) (Rollback_hook mg c) (\<lambda>_. at_site m0 u recs U s) (\<lambda>_ m. at_site m0 u recs U s m \<and> b)) \<and>
     (\<forall>lk s. o_lock opts = Some lk \<longrightarrow>
        triple (at_site m0 u recs U s) (TryLock lk) (\<lambda>held m. at_site m0 u recs U s m \<and> (held \<or> b)) (\<lambda>_ m. at_site m0 u recs U s m \<and> b) \<and>
        triple (at_site m0 u recs U s) (ignore (Unlock lk)) (\<lambda>_. at_site m0 u recs U s) (\<lambda>_ _. False))"

definition site_world :: "mem \<Rightarrow> update \<Rightarrow> Record list \<Rightarrow> nat set \<Rightarrow> bool \<Rightarrow> Options \<Rightarrow> site \<Rightarrow> mem \<Rightarrow> bool" where
  "site_world m0 u recs U b opts s m \<longleftrightarrow> host_ok m0 u recs U b opts \<and> at_site m0 u recs U s m"

lemma world_triple:
  assumes "host_ok m0 u recs U b opts \<Longrightarrow> triple (at_site m0 u recs U s) p Q E"
    and "\<And>x m. host_ok m0 u recs U b opts \<Longrightarrow> Q x m \<Longrightarrow> Q' x m" "\<And>e m. host_ok m0 u recs U b opts \<Longrightarrow> E e m \<Longrightarrow> E' e m"
  shows "triple (site_world m0 u recs U b opts s) p Q' E'"
  by (cases "host_ok m0 u recs U b opts")
    (use triple_weaken [OF assms(1), where P = "site_world m0 u recs U b opts s" and Q = Q' and E = E'] assms(2,3)
      in \<open>auto simp: site_world_def triple_def\<close>)

lemma world_good:
  assumes "site_world m0 u recs U b opts (v, p, i) m"
  shows "good_site u p i" "o_root opts = abs_path (u_root u)" "o_form opts = u_pf u" "good_update u" "u_from u \<noteq> []"
  using assms site_parts(1,4,5) by (auto simp: site_world_def at_site_def host_ok_def)

lemma version_dirs:
  assumes "good_update u" "u_from u \<noteq> []"
  shows "VersionDir (abs_path (u_root u)) (u_from u) = Inr (key u [VersionsName, u_from u])"
    "VersionDir (abs_path (u_root u)) (u_to u) = Inr (key u [VersionsName, u_to u])"
  using layout_paths(7) [OF root_path [OF assms(1)]] assms by (simp_all add: good_update_def good_version_def short_version_def)

interpretation lau: launch_site opts "site_world m0 u recs U b opts" b "u_from u" "u_to u" "u_name u"
  "key u [VersionsName, u_from u]" "key u [VersionsName, u_to u]" for opts m0 u recs U b
proof unfold_locales
  fix v p i m q rslt cls mg c lk
  let ?W = "site_world m0 u recs U b opts"
  show "sound_probation p \<and> pb_schema p = ProbationSchema \<and> pb_version p = u_to u \<and> pb_previous p = u_from u" if "?W (v, p, i) m"
    using world_good(1) [OF that] by (simp add: good_site_def)
  show "o_root opts \<noteq> [] \<and> VersionDir (o_root opts) (u_from u) = Inr (key u [VersionsName, u_from u]) \<and>
      VersionDir (o_root opts) (u_to u) = Inr (key u [VersionsName, u_to u])" if "?W (v, p, i) m"
    using world_good(2) [OF that] version_dirs [OF world_good(4,5) [OF that]] by simp
  show "triple (?W (v, p, i)) (ReadProbation (o_root opts)) (\<lambda>r m. ?W (v, p, i) m \<and> r = Some p) (\<lambda>_ m. ?W (v, p, i) m \<and> b)"
    by (rule world_triple, simp only: host_ok_def, rule ReadProbation_site) (auto simp: site_world_def host_ok_def)
  show "triple (?W (v, p, i)) (WriteProbation (o_root opts) q) (\<lambda>_. ?W (v, q, i)) (\<lambda>_ m. (?W (v, p, i) m \<or> ?W (v, q, i) m) \<and> b)"
    if q: "sound_probation q" "pb_schema q = ProbationSchema" "pb_version q = u_to u" "pb_previous q = u_from u"
      "pb_blocked q = pb_blocked p \<or> (\<exists>r. pb_blocked q = Some \<lparr> bv_version = u_to u, bv_reason = r \<rparr>)"
  proof (cases "\<exists>m. ?W (v, p, i) m")
    case False
    then show ?thesis by (simp add: triple_def)
  next
    case True
    then have "good_site u p i" using world_good(1) by blast
    then have g: "good_site u q i" using q by (auto simp: good_site_def)
    show ?thesis
      by (rule world_triple, simp only: host_ok_def, rule WriteProbation_site [OF g]) (auto simp: site_world_def host_ok_def)
  qed
  show "triple (?W (v, p, i)) (recordOutcome opts q rslt cls) (\<lambda>_. ?W (v, p, i)) (\<lambda>_ _. False)"
    by (rule world_triple, rule recordOutcome_site) (auto simp: site_world_def host_ok_def)
  show "triple (?W (v, p, i)) (PointerTarget (o_form opts) (o_root opts)) (\<lambda>x m. ?W (v, p, i) m \<and> x = v) (\<lambda>_ m. ?W (v, p, i) m \<and> b)"
    by (rule world_triple, simp only: host_ok_def, rule PointerTarget_site) (auto simp: site_world_def host_ok_def)
  show "triple (?W (v, p, i)) (Stat (key u [VersionsName, u_from u])) (\<lambda>_. ?W (v, p, i)) (\<lambda>_ _. False)"
    by (rule world_triple, rule Stat_old_site) (auto simp: site_world_def)
  show "triple (?W (v, p, i)) (Swap (o_form opts) (o_root opts) (key u [VersionsName, u_from u])) (\<lambda>_. ?W (u_from u, p, i))
      (\<lambda>_ m. (?W (v, p, i) m \<or> ?W (u_from u, p, i) m) \<and> b)"
    by (rule world_triple, simp only: host_ok_def, rule Swap_site) (auto simp: site_world_def host_ok_def)
  show "triple (?W (v, p, i)) (Rollback_hook mg c) (\<lambda>_. ?W (v, p, i)) (\<lambda>_ m. ?W (v, p, i) m \<and> b)" if "o_migrate opts = Some mg"
    by (rule world_triple [where Q = "\<lambda>_. at_site m0 u recs U (v, p, i)" and E = "\<lambda>_ m. at_site m0 u recs U (v, p, i) m \<and> b"])
      (use that in \<open>auto simp: site_world_def host_ok_def\<close>)
  show "triple (?W (v, p, i)) (ReadInstall (o_root opts)) (\<lambda>r m. ?W (v, p, i) m \<and> (\<exists>x. r = Some x \<and> in_version x = i \<and> in_name x = u_name u))
      (\<lambda>_ m. ?W (v, p, i) m \<and> b)"
    by (rule world_triple, simp only: host_ok_def, rule ReadInstall_site) (auto simp: site_world_def host_ok_def)
  show "triple (?W (v, p, i)) (WriteInstall (o_root opts) \<lparr> in_schema = 0, in_name = u_name u, in_version = u_from u, in_layout = LayoutSchema \<rparr>)
      (\<lambda>_. ?W (v, p, u_from u)) (\<lambda>_ m. (?W (v, p, i) m \<or> ?W (v, p, u_from u) m) \<and> b)"
    unfolding installed_def [symmetric]
    by (rule world_triple, simp only: host_ok_def, rule WriteInstall_site) (auto simp: site_world_def host_ok_def)
  show "triple (?W (u_from u, p, i)) (ignore (RemoveAll (key u [VersionsName, u_to u]))) (\<lambda>_. ?W (u_from u, p, i)) (\<lambda>_ _. False)"
    by (rule world_triple, rule Remove_new_site) (auto simp: site_world_def)
  show "triple (?W (v, p, i)) (TryLock lk) (\<lambda>held m. ?W (v, p, i) m \<and> (held \<or> b)) (\<lambda>_ m. ?W (v, p, i) m \<and> b)" if "o_lock opts = Some lk"
    by (rule world_triple [where Q = "\<lambda>held m. at_site m0 u recs U (v, p, i) m \<and> (held \<or> b)" and E = "\<lambda>_ m. at_site m0 u recs U (v, p, i) m \<and> b"])
      (use that in \<open>auto simp: site_world_def host_ok_def\<close>)
  show "triple (?W (v, p, i)) (ignore (Unlock lk)) (\<lambda>_. ?W (v, p, i)) (\<lambda>_ _. False)" if "o_lock opts = Some lk"
    by (rule world_triple [where Q = "\<lambda>_. at_site m0 u recs U (v, p, i)" and E = "\<lambda>_ _. False"])
      (use that in \<open>auto simp: site_world_def host_ok_def\<close>)
qed

section \<open>One start\<close>

lemma world_start: "site_tab u recs U s (node_at m) \<Longrightarrow> host_ok m u recs U b opts \<Longrightarrow> site_world m u recs U b opts s m"
  using tab_same [of m] by (auto simp: site_world_def at_site_def)

lemma world_tab: "site_world m0 u recs U b opts s m \<Longrightarrow> site_tab u recs U s (node_at m)"
  by (auto simp: site_world_def at_site_def tab_def)

lemma probation_total: "\<exists>r m'. probation opts locked m = (Inr r, m')"
proof -
  have t: "triple (\<lambda>_. True) (ret x) (\<lambda>_ _. True) (\<lambda>_ _. False)" for x :: ProbationResult by (rule triple_ret) simp
  have a: "triple (\<lambda>_. True) (attempt p (\<lambda>e. ret (h e)) k) (\<lambda>_ _. True) (\<lambda>_ _. False)"
    if "\<And>x. triple (\<lambda>_. True) (k x) (\<lambda>_ _. True) (\<lambda>_ _. False)" for p :: "(mem, 'x) prog" and h and k :: "'x \<Rightarrow> (mem, ProbationResult) prog"
    by (rule triple_attempt [OF _ t that]) (auto simp: triple_def split: prod.splits sum.splits)
  have i: "triple (\<lambda>_. True) (bind p (\<lambda>r. bind (ignore q) (\<lambda>_. ret r))) (\<lambda>_ _. True) (\<lambda>_ _. False)"
    if "triple (\<lambda>_. True) p (\<lambda>_ _. True) (\<lambda>_ _. False)" for p :: "(mem, ProbationResult) prog" and q :: "(mem, unit) prog"
    by (rule triple_bind [OF that], rule triple_bind [OF triple_ignore [of _ q "\<lambda>_ _. True"]])
      (auto simp: triple_def ret_def split: prod.splits sum.splits)
  have rv: "triple (\<lambda>_. True) (revert opts pr p reason cls locked) (\<lambda>_ _. True) (\<lambda>_ _. False)" for pr p reason cls
    unfolding revert_def Let_def by (auto split: option.splits intro!: triple_if a t i)
  have ct: "triple (\<lambda>_. True) (count_start opts pr p) (\<lambda>_ _. True) (\<lambda>_ _. False)" for pr p
    unfolding count_start_def by (intro a t)
  have lv: "triple (\<lambda>_. True) (probation_live opts locked p) (\<lambda>_ _. True) (\<lambda>_ _. False)" for p
    unfolding probation_live_def Let_def by (intro triple_if rv ct t)
  have "triple (\<lambda>_. True) (probation opts locked) (\<lambda>_ _. True) (\<lambda>_ _. False)"
    unfolding probation_def by (rule a) (auto split: option.splits intro!: triple_if a rv lv t)
  from triple_Inl [OF this] show ?thesis by (cases "probation opts locked m"; cases "fst (probation opts locked m)") auto
qed

text \<open>
  C9.  A start implements its specification.  On an install tree with a probation record, with no call and
  no hook failing and the lock to be had, the start ends without an error and takes the state of the
  installation - the version \<open>current\<close> names, the record, the version of the install state - to the one
  \<open>start_spec\<close> gives: the start is counted, or a version that has failed is rolled back and blocked, or
  a record that is not about the running version is left alone.  Whatever fails, the start itself
  never does, and it leaves the installation at most part-way there.
\<close>

theorem probation_refines:
  assumes "site_tab u recs U s (node_at m)" and "host_ok m u recs U b opts" and "probation opts locked m = (r, m')"
  shows "(\<exists>x. r = Inr x \<and> (\<not> b \<longrightarrow> pr_err x = None)) \<and>
    (\<not> b \<longrightarrow> site_tab u recs U (start_spec s) (node_at m')) \<and>
    (\<exists>s'. partway s s' \<and> site_tab u recs U s' (node_at m'))"
proof -
  obtain x where r: "r = Inr x" using probation_total [of opts locked m] assms(3) by auto
  have "site_world m u recs U b opts s m" by (rule world_start [OF assms(1,2)])
  then have "lau.stopped m u recs U b opts s m' \<or> site_world m u recs U b opts (start_spec s) m' \<and> pr_err x = None"
    using triple_Inr [OF lau.probation_spec] assms(3) r by blast
  then show ?thesis
    unfolding lau.stopped_def using world_tab r partway_self(2) by blast
qed

lemma sample_host:
  assumes "honest m0" "hooked m0 \<longrightarrow> pid m0 \<in> U" "pid m0 \<in> U \<longrightarrow> b"
  shows "host_ok m0 sample_update recs U b sample_options"
  using assms by (simp add: host_ok_def sample_options_def sample_update_def abs_path_def)

lemma sample_hosts: "\<forall>m0. \<not> hooked m0 \<longrightarrow> host_ok m0 sample_update recs {} False sample_options"
  using sample_host not_hooked_honest by blast

theorem probation_refines_witness:
  "\<exists>x. fst (probation sample_options False sample_site) = Inr x \<and> pr_err x = None"
  using probation_refines [OF sample_site_ok _ prod.collapse [symmetric], of False sample_options False] sample_hosts sample_site_env by blast

section \<open>Starts and restarts\<close>

text \<open>
  Starts in processes of their own, no call failing; after each the application may ask for a restart,
  also in a process of its own.
\<close>

fun starts :: "Options \<Rightarrow> (nat \<times> nat option) list \<Rightarrow> mem \<Rightarrow> mem" where
  "starts opts [] m = m"
| "starts opts ((j, again) # xs) m =
     starts opts xs (let m1 = snd (probation opts False (restarted j m)) in
       case again of None \<Rightarrow> m1 | Some k \<Rightarrow> snd (markRestart (o_form opts) (o_root opts) (restarted k m1)))"

lemma relaunch_refines:
  assumes "site_tab u recs U s (node_at m)" "host_ok m u recs U False opts"
  shows "site_tab u recs U (relaunch_spec s) (node_at (snd (markRestart (o_form opts) (o_root opts) m)))"
proof -
  have "triple (site_world m u recs U False opts s) (markRestart (o_form opts) (o_root opts))
      (\<lambda>_. site_world m u recs U False opts (relaunch_spec s)) (\<lambda>_. site_world m u recs U False opts (relaunch_spec s))"
    by (rule triple_weaken [OF lau.relaunch_meets]) auto
  from triple_snd [OF this world_start [OF assms]] show ?thesis by (rule world_tab)
qed

lemma starts_meet:
  assumes "site_tab u recs {} s (node_at m)" and h: "\<And>m0. \<not> hooked m0 \<Longrightarrow> host_ok m0 u recs {} False opts"
  shows "site_tab u recs {} (starts_spec (map (\<lambda>x. snd x \<noteq> None) xs) s) (node_at (starts opts xs m))"
  using assms(1)
proof (induction xs arbitrary: s m)
  case (Cons x xs)
  obtain j again where x: "x = (j, again)" by (cases x)
  let ?m = "restarted j m"
  let ?m1 = "snd (probation opts False ?m)"
  have "site_tab u recs {} s (node_at ?m)" using Cons.prems by simp
  from probation_refines [OF this h prod.collapse [symmetric], of False]
  have t1: "site_tab u recs {} (start_spec s) (node_at ?m1)" by simp
  show ?case
  proof (cases again)
    case None
    then show ?thesis using Cons.IH [OF t1] by (simp add: x)
  next
    case (Some k)
    let ?m2 = "restarted k ?m1"
    have "site_tab u recs {} (start_spec s) (node_at ?m2)" using t1 by simp
    from relaunch_refines [OF this h] have "site_tab u recs {} (relaunch_spec (start_spec s)) (node_at (snd (markRestart (o_form opts) (o_root opts) ?m2)))"
      by simp
    from Cons.IH [OF this] show ?thesis using Some by (simp add: x)
  qed
qed simp

lemma site_sound: "site_tab u recs U (v, p, i) f \<Longrightarrow> sound_probation p \<and> pb_version p = u_to u \<and> pb_previous p = u_from u \<and> good_update u"
  using site_parts(1,4) by (auto simp: good_site_def)

lemma sound_differs: "sound_probation p \<Longrightarrow> pb_version p \<noteq> pb_previous p"
  by (simp add: sound_probation_def)

lemma site_points:
  assumes "site_tab u recs U (v, p, i) (node_at m)"
  shows "fst (PointerTarget (u_pf u) (abs_path (u_root u)) (restarted k m)) = Inr v"
  using inv_parts(4,6) [OF site_parts(2) [OF assms]] by (intro run_unhooked [OF PointerTarget_plain [of "node_at m"]]) auto



lemma mark_refines:
  assumes "site_tab u recs U (v, p, i) (node_at m)" "host_ok m u recs U False opts"
    and "\<And>p. sound_probation p \<Longrightarrow> sound_probation (change p) \<and> pb_schema (change p) = pb_schema p \<and>
      pb_version (change p) = pb_version p \<and> pb_previous (change p) = pb_previous p \<and> pb_blocked (change p) = pb_blocked p"
    and "mark (o_root opts) x change m = (r, m')"
  shows "r = Inr () \<and> site_tab u recs U (v, if u_to u = x \<and> pb_status p = ProbationActive then change p else p, i) (node_at m')"
proof -
  note w = world_start [OF assms(1,2)]
  note tr = lau.mark_meets [OF assms(3), of m u recs U False opts v p i x]
  have v: "pb_version p = u_to u" using site_sound [OF assms(1)] by simp
  show ?thesis using triple_Inr [OF tr w] triple_Inl [OF tr w] assms(4) v by (cases r) (auto dest: world_tab)
qed

section \<open>Interrupted rollbacks\<close>

text \<open>Starts in which the calls \<open>h\<close> picks fail, one process each.\<close>

fun crashes :: "Options \<Rightarrow> ((nat \<Rightarrow> string \<Rightarrow> string \<Rightarrow> error option) \<times> nat) list \<Rightarrow> mem \<Rightarrow> mem" where
  "crashes opts [] m = m"
| "crashes opts ((h, j) # hs) m = crashes opts hs (snd (probation opts False (rebooted h j m)))"

definition rollback_due :: "update \<Rightarrow> site \<Rightarrow> bool" where
  "rollback_due u s \<longleftrightarrow> (case s of (v, p, i) \<Rightarrow> pb_status p = ProbationReverting \<or> v = u_to u \<and> verdict_of p \<noteq> None)"

lemma start_spec_due:
  assumes "site_tab u recs U s f" "rollback_due u s"
  obtains p r where "start_spec s = (u_from u, reverted p r, u_from u)" "rolled_back p (start_spec s)"
    "pb_version p = u_to u" "pb_previous p = u_from u" "pb_version p \<noteq> pb_previous p"
proof -
  obtain v p i where s: "s = (v, p, i)" by (cases s)
  note g = site_sound [OF assms(1) [unfolded s]]
  have "\<exists>r. start_spec s = (pb_previous p, reverted p r, pb_previous p)"
    using assms(2) g by (auto simp: s rollback_due_def start_spec.simps)
  then obtain r where "start_spec s = (pb_previous p, reverted p r, pb_previous p)" by blast
  then show ?thesis using that [of p r] rolled_back_reverted [of p r] g sound_differs [of p] by auto
qed

lemma start_spec_fixed: "rolled_back p (start_spec s) \<Longrightarrow> pb_version p \<noteq> pb_previous p \<Longrightarrow> start_spec (start_spec s) = start_spec s"
  by (rule rolled_back_start)

lemma crashes_meet:
  assumes "site_tab u recs U s (node_at m)" "start_spec s = t" "start_spec t = t" "snd ` set hs \<subseteq> U"
    and h: "\<And>h j m0. (h, j) \<in> set hs \<Longrightarrow> host_ok (rebooted h j m0) u recs U True opts"
  shows "\<exists>s'. start_spec s' = t \<and> site_tab u recs U s' (node_at (crashes opts hs m))"
  using assms(1,2,4) h
proof (induction hs arbitrary: s m)
  case (Cons x hs)
  obtain g j where x: "x = (g, j)" by (cases x)
  let ?m = "rebooted g j m"
  have "site_tab u recs U s (node_at ?m)" "host_ok ?m u recs U True opts" using Cons.prems by (auto simp: x)
  from probation_refines [OF this prod.collapse [symmetric], of False] obtain s' where
    s': "partway s s'" "site_tab u recs U s' (node_at (snd (probation opts False ?m)))" by blast
  have "start_spec s' = t"
    using resumed [OF s'(1)] Cons.prems(2) assms(3) by (cases "s' = s"; cases "s' = start_spec s") auto
  from Cons.IH [OF s'(2) this] Cons.prems(3,4) show ?case by (simp add: x)
qed auto

text \<open>
  C10.  A rollback gets to its end.  If a version that has failed its probation is to be rolled back, or a
  rollback is already recorded, then however many starts are cut short, and wherever, the first start in
  which nothing fails leaves \<open>current\<close> and the install state at the previous version, whose tree is
  intact, and the record reverted and blocking the version that failed: as if it had been the first.
\<close>

theorem revert_converges:
  assumes "site_tab u recs (snd ` set hs) s (node_at m)" and "rollback_due u s"
    and "\<forall>h j m0. (h, j) \<in> set hs \<longrightarrow> host_ok (rebooted h j m0) u recs (snd ` set hs) True opts"
    and "j \<notin> snd ` set hs" and "\<forall>m0. host_ok (restarted j m0) u recs (snd ` set hs) False opts"
    and "probation opts locked (restarted j (crashes opts hs m)) = (r, m')"
  shows "site_tab u recs (snd ` set hs) (start_spec s) (node_at m') \<and> (\<exists>x. r = Inr x \<and> pr_err x = None) \<and>
    fst (PointerTarget (u_pf u) (abs_path (u_root u)) (restarted k m')) = Inr (u_from u) \<and>
    (\<exists>q. start_spec s = (u_from u, q, u_from u) \<and> pb_status q = ProbationReverted \<and>
      (\<exists>x. pb_blocked q = Some \<lparr> bv_version = u_to u, bv_reason = x \<rparr>))"
proof -
  let ?U = "snd ` set hs"
  obtain p x where p: "start_spec s = (u_from u, reverted p x, u_from u)" "rolled_back p (start_spec s)"
    "pb_version p = u_to u" "pb_previous p = u_from u" "pb_version p \<noteq> pb_previous p" using start_spec_due [OF assms(1,2)] .
  have fx: "start_spec (start_spec s) = start_spec s" by (rule start_spec_fixed [OF p(2,5)])
  obtain s' where s': "start_spec s' = start_spec s" "site_tab u recs ?U s' (node_at (crashes opts hs m))"
    using crashes_meet [OF assms(1) refl fx order.refl] assms(3) by blast
  have tb: "site_tab u recs ?U s' (node_at (restarted j (crashes opts hs m)))" using s'(2) by simp
  note pr = probation_refines [OF tb spec [OF assms(5)] assms(6)]
  have st: "site_tab u recs ?U (start_spec s) (node_at m')" using pr s'(1) by simp
  have q: "pb_status (reverted p x) = ProbationReverted" "pb_blocked (reverted p x) = Some \<lparr> bv_version = u_to u, bv_reason = SanitizeReason x \<rparr>"
    using p(3) by (simp_all add: reverted_def)
  have "fst (PointerTarget (u_pf u) (abs_path (u_root u)) (restarted k m')) = Inr (u_from u)"
    by (rule site_points) (use st p(1) in auto)
  then show ?thesis using st p(1) q pr by blast
qed

definition sample_failed :: mem where
  "sample_failed = snd (MarkUnhealthy ''/'' ''1.1.0'' ''broken'' sample_site)"

lemma sample_failed_ok:
  "site_tab sample_update sample_committed {} (''1.1.0'', sample_trial\<lparr>pb_status := ProbationUnhealthy, pb_reason := ''broken''\<rparr>, ''1.1.0'') (node_at sample_failed)"
proof -
  have s: "SanitizeReason ''broken'' = ''broken''" by code_simp
  then have c: "clean_reason ''broken''" using sanitized_iff [of "''broken''"] by simp
  have u: "u_to sample_update = ''1.1.0''" "o_root sample_options = ''/''" "pb_status sample_trial = ProbationActive"
    by (simp_all add: sample_update_def sample_options_def sample_trial_def sample_probation_def)
  have "host_ok sample_site sample_update sample_committed {} False sample_options" using sample_hosts sample_site_env by blast
  from mark_refines [OF sample_site_ok this _ prod.collapse [symmetric],
    of "\<lambda>p. p\<lparr>pb_status := ProbationUnhealthy, pb_reason := ''broken''\<rparr>" "''1.1.0''"]
  show ?thesis using c u by (simp add: sample_failed_def MarkUnhealthy_def s sound_probation_def)
qed

lemma site_mono:
  assumes "site_tab u recs U s f" "U \<subseteq> V"
  shows "site_tab u recs V s f"
  using assms by (cases s) (auto simp: site_tab.simps surroundings_def)

theorem revert_converges_witness:
  "fst (PointerTarget symlinkPointer ''/'' (restarted 9 (snd (probation sample_options False (restarted 2
     (crashes sample_options [(\<lambda>k op name. if 3 \<le> k then Some [ErrInjected] else None, 1)] sample_failed)))))) = Inr ''1.0.0''"
proof -
  let ?h = "\<lambda>(k::nat) (op::string) (name::string). if 3 \<le> k then Some [ErrInjected] else None"
  let ?q = "sample_trial\<lparr>pb_status := ProbationUnhealthy, pb_reason := ''broken''\<rparr>"
  have h: "honest_hook ?h" by (simp add: honest_hook_def IsNotExist_def)
  have p: "pid (rebooted ?h 1 m0) = 1" for m0 by (simp add: rebooted_def)
  have t: "site_tab sample_update sample_committed (snd ` set [(?h, 1)]) (''1.1.0'', ?q, ''1.1.0'') (node_at sample_failed)"
    by (rule site_mono [OF sample_failed_ok]) simp
  have u: "u_to sample_update = ''1.1.0''" "u_from sample_update = ''1.0.0''" "u_pf sample_update = symlinkPointer" "u_root sample_update = []"
    by (simp_all add: sample_update_def)
  have d: "rollback_due sample_update (''1.1.0'', ?q, ''1.1.0'')" by (simp add: rollback_due_def verdict_of_def u)
  have a: "\<forall>h j m0. (h, j) \<in> set [(?h, 1)] \<longrightarrow> host_ok (rebooted h j m0) sample_update sample_committed (snd ` set [(?h, 1)]) True sample_options"
    using rebooted_honest [OF h] p by (auto intro!: sample_host)
  have b: "\<forall>m0. host_ok (restarted 2 m0) sample_update sample_committed (snd ` set [(?h, 1)]) False sample_options"
    by (auto intro!: sample_host not_hooked_honest)
  have j: "(2::nat) \<notin> snd ` set [(?h, 1)]" by simp
  from revert_converges [OF t d a j b prod.collapse [symmetric], of False 9] show ?thesis unfolding u sample_keys(1) by blast
qed

section \<open>Reports of the application\<close>

text \<open>
  C12.  A confirmed version stays.  \<open>MarkHealthy\<close> of the version on probation succeeds when no call fails, and
  from then on no start and no restart, however many, changes the version that runs, the record or the
  install state; for any other version it does nothing.
\<close>

theorem MarkHealthy_ends_probation:
  assumes "site_tab u recs {} (v, p, i) (node_at m)" and "\<forall>m0. \<not> hooked m0 \<longrightarrow> host_ok m0 u recs {} False opts" and "\<not> hooked m"
    and "MarkHealthy (o_root opts) x m = (r, m')"
    and "q = (if x = u_to u \<and> pb_status p = ProbationActive then p\<lparr>pb_status := ProbationConfirmed, pb_restart_pending := False\<rparr> else p)"
  shows "r = Inr () \<and> site_tab u recs {} (v, q, i) (node_at m') \<and>
    (x = u_to u \<and> pb_status p = ProbationActive \<longrightarrow> site_tab u recs {} (v, q, i) (node_at (starts opts xs m')))"
proof -
  have h: "host_ok m u recs {} False opts" using assms(2,3) by blast
  have st: "r = Inr () \<and> site_tab u recs {} (v, q, i) (node_at m')"
    using mark_refines [OF assms(1) h _ assms(4) [unfolded MarkHealthy_def]] assms(5) by (auto simp: sound_probation_def)
  have "starts_spec bs (v, q, i) = (v, q, i)" if "pb_status q = ProbationConfirmed" for bs
    using that by (induction bs) (auto simp: start_spec.simps verdict_of_def counted_def)
  then show ?thesis
    using st starts_meet [of u recs "(v, q, i)" m' opts xs] assms(2,5) by auto
qed

lemma sample_target: "u_to sample_update = ''1.1.0''" "o_root sample_options = ''/''" "pb_status sample_trial = ProbationActive"
  by (simp_all add: sample_update_def sample_options_def sample_trial_def sample_probation_def)

theorem MarkHealthy_ends_probation_witness:
  "fst (MarkHealthy ''/'' ''1.1.0'' sample_site) = Inr ()"
  using MarkHealthy_ends_probation [OF sample_site_ok sample_hosts sample_site_env prod.collapse [symmetric] refl, of "''1.1.0''" "[]"]
  unfolding sample_target by blast



end
