(* ===== verification/Patch.thy ===== *)
theory Patch
  imports Prelude
begin

text \<open>
  \<open>core/stage/patch.go\<close>: the reader of delta patches.

  The three streams of a patch are compressed with \<open>compress/flate\<close>, which is a parameter here:
  \<open>inflate\<close> maps the bytes of a section to the bytes its reader yields and to how the reader ends,
  \<^term>\<open>Some k\<close> for a clean end (\<open>io.EOF\<close>) that leaves \<open>k\<close> compressed bytes unread, \<^term>\<open>None\<close> for an error.
  A stream that is being read is the list of bytes that are still to come.  A base file or a patch
  that is read at offsets is the list of its bytes.

  \<open>ApplyPatchStream\<close> hands its output to a writer in pieces; it is modelled by the list of the pieces
  together with what it returns when the writer takes them all.  A writer that fails takes some of the
  pieces and ends the call with its own error (\<open>cappedBuffer\<close> is one).
\<close>

section \<open>Bytes and integers\<close>

text \<open>Addition of bytes wraps.\<close>

definition byte_add :: "char \<Rightarrow> char \<Rightarrow> char" where
  "byte_add a b = char_of ((of_char a + of_char b) mod 256 :: nat)"

definition byte_sub :: "char \<Rightarrow> char \<Rightarrow> char" where
  "byte_sub a b = char_of ((of_char a + 256 - of_char b) mod 256 :: nat)"

lemma byte_add_sub [simp]: "byte_add (byte_sub a b) b = a"
proof -
  have "of_char a + 256 - of_char b + of_char b = (of_char a + 256 :: nat)"
    using nat_of_char_less_256 [of b] by linarith
  then have "((of_char a + 256 - of_char b) mod 256 + of_char b) mod 256 = (of_char a :: nat)"
    by (simp add: mod_add_left_eq)
  then show ?thesis by (simp add: byte_add_def byte_sub_def)
qed

text \<open>\<open>binary.LittleEndian\<close>: the value of some bytes, and the bytes of a 64-bit value.\<close>

fun little_endian :: "string \<Rightarrow> nat" where
  "little_endian [] = 0"
| "little_endian (b # bs) = of_char b + 256 * little_endian bs"

fun le_bytes :: "nat \<Rightarrow> nat \<Rightarrow> string" where
  "le_bytes 0 n = []"
| "le_bytes (Suc k) n = char_of (n mod 256) # le_bytes k (n div 256)"

definition put64 :: "nat \<Rightarrow> string" where
  "put64 n = le_bytes 8 n"

lemma length_le_bytes [simp]: "length (le_bytes k n) = k"
  by (induction k arbitrary: n) auto

lemma length_put64 [simp]: "length (put64 n) = 8"
  by (simp add: put64_def)

lemma little_endian_le_bytes: "little_endian (le_bytes k n) = n mod 256 ^ k"
proof (induction k arbitrary: n)
  case (Suc k)
  have "n mod 256 + 256 * (n div 256 mod 256 ^ k) = n mod (256 * 256 ^ k)"
    by (simp only: mod_mult2_eq add.commute)
  with Suc show ?case by simp
qed simp

lemma little_endian_put64 [simp]: "n < 2 ^ 64 \<Longrightarrow> little_endian (put64 n) = n"
  by (simp add: put64_def little_endian_le_bytes)

text \<open>Signed 64-bit integers: \<open>wrap64(v)\<close> of 64 bits, and the sum of two, which may wrap.\<close>

definition wrap64 :: "int \<Rightarrow> int" where
  "wrap64 v = (v + 2 ^ 63) mod 2 ^ 64 - 2 ^ 63"

abbreviation MaxInt64 :: int where "MaxInt64 \<equiv> 2 ^ 63 - 1"

lemma wrap64_id: "- (2 ^ 63) \<le> v \<Longrightarrow> v < 2 ^ 63 \<Longrightarrow> wrap64 v = v"
  by (simp add: wrap64_def)

lemma wrap64_range: "- (2 ^ 63) \<le> wrap64 v \<and> wrap64 v < 2 ^ 63"
proof -
  have "0 \<le> (v + 2 ^ 63) mod 2 ^ 64" "(v + 2 ^ 63) mod 2 ^ 64 < (2 ^ 64 :: int)" by simp_all
  then show ?thesis unfolding wrap64_def by simp
qed

lemma wrap64_mod [simp]: "wrap64 (v mod 2 ^ 64) = wrap64 v"
  by (simp add: wrap64_def mod_add_left_eq)

section \<open>The container\<close>

definition patchMagic :: string where "patchMagic = ''IDNDELT1''"

definition patchHeaderLen :: nat where "patchHeaderLen = length patchMagic + 8 + 8 + 8"

definition CopyBufferSize :: nat where "CopyBufferSize = 262144"

definition asLength :: "nat \<Rightarrow> int result" where
  "asLength v = (if int v > MaxInt64 then Inl [] else Inr (int v))"

definition read64 :: "string \<Rightarrow> nat \<Rightarrow> nat" where
  "read64 bs i = little_endian (take 8 (drop i bs))"

definition splitPatch :: "string \<Rightarrow> int \<Rightarrow> (string \<times> string \<times> string \<times> int) result" where
  "splitPatch patch maxOut =
     (if length patch < patchHeaderLen then Inl [ErrStage]
      else let head = take patchHeaderLen patch; h = drop (length patchMagic) head in
        if take (length patchMagic) head \<noteq> patchMagic then Inl [ErrStage]
        else (case asLength (read64 h 0) of
          Inl e \<Rightarrow> Inl (ErrStage # e)
        | Inr declared \<Rightarrow> (case asLength (read64 h 8) of
          Inl e \<Rightarrow> Inl (ErrStage # e)
        | Inr ctrlLen \<Rightarrow> (case asLength (read64 h 16) of
          Inl e \<Rightarrow> Inl (ErrStage # e)
        | Inr diffLen \<Rightarrow>
            let rest = drop patchHeaderLen patch; body = int (length rest) in
            if declared > maxOut then Inl [ErrStage]
            else if ctrlLen > body \<or> diffLen > body - ctrlLen then Inl [ErrStage]
            else Inr (take (nat ctrlLen) rest,
                      take (nat diffLen) (drop (nat ctrlLen) rest),
                      drop (nat ctrlLen + nat diffLen) rest,
                      declared)))))"

text \<open>\<open>readControl\<close>: the three numbers of an entry and what is left of the stream.\<close>

definition patchControlLen :: nat where "patchControlLen = 8 + 8 + 8"

definition readControl :: "string \<Rightarrow> (int \<times> int \<times> int \<times> string) result" where
  "readControl ctrl =
     (if length ctrl < patchControlLen then Inl [ErrStage]
      else (case asLength (read64 ctrl 0) of
        Inl e \<Rightarrow> Inl (ErrStage # e)
      | Inr a \<Rightarrow> (case asLength (read64 ctrl 8) of
        Inl e \<Rightarrow> Inl (ErrStage # e)
      | Inr literal \<Rightarrow> Inr (a, literal, wrap64 (int (read64 ctrl 16)), drop patchControlLen ctrl))))"

section \<open>The runs\<close>

text \<open>
  A run works through a buffer of \<^const>\<open>CopyBufferSize\<close> bytes: each turn reads a window of the stream and
  writes one piece.  The result is what is left of the stream.
\<close>

definition addBase :: "string \<Rightarrow> string \<Rightarrow> nat \<Rightarrow> string" where
  "addBase span base off = map2 byte_add span (take (length span) (drop off base))"

function add_windows :: "string \<Rightarrow> string \<Rightarrow> nat \<Rightarrow> nat \<Rightarrow> string list \<times> string result" where
  "add_windows base diff n basePos =
     (if n = 0 then ([], Inr diff)
      else let k = min n CopyBufferSize in
        if length diff < k then ([], Inl [ErrStage])
        else (case add_windows base (drop k diff) (n - k) (basePos + k) of
          (pieces, r) \<Rightarrow> (addBase (take k diff) base basePos # pieces, r)))"
  by pat_completeness auto
termination by (relation "measure (\<lambda>(base, diff, n, basePos). n)") (auto simp: CopyBufferSize_def)

declare add_windows.simps [simp del]

definition addRun :: "string \<Rightarrow> string \<Rightarrow> int \<Rightarrow> int \<Rightarrow> int \<Rightarrow> int \<Rightarrow> string list \<times> string result" where
  "addRun base diff n newPos basePos newLen =
     (if n > newLen - newPos then ([], Inl [ErrStage])
      else if n > int (length base) - basePos then ([], Inl [ErrStage])
      else add_windows base diff (nat n) (nat basePos))"

function literal_windows :: "string \<Rightarrow> nat \<Rightarrow> string list \<times> string result" where
  "literal_windows extra n =
     (if n = 0 then ([], Inr extra)
      else let k = min n CopyBufferSize in
        if length extra < k then ([], Inl [ErrStage])
        else (case literal_windows (drop k extra) (n - k) of
          (pieces, r) \<Rightarrow> (take k extra # pieces, r)))"
  by pat_completeness auto
termination by (relation "measure (\<lambda>(extra, n). n)") (auto simp: CopyBufferSize_def)

declare literal_windows.simps [simp del]

definition literalRun :: "string \<Rightarrow> int \<Rightarrow> int \<Rightarrow> int \<Rightarrow> string list \<times> string result" where
  "literalRun extra n newPos newLen =
     (if n > newLen - newPos then ([], Inl [ErrStage]) else literal_windows extra (nat n))"

text \<open>The move within the base after an entry.\<close>

definition seek_base :: "int \<Rightarrow> int \<Rightarrow> int \<Rightarrow> int result" where
  "seek_base baseLen basePos seek =
     (let next = wrap64 (basePos + seek) in
      if (seek > 0) \<noteq> (next > basePos) \<and> seek \<noteq> 0 then Inl [ErrStage]
      else if next < 0 \<or> next > baseLen then Inl [ErrStage]
      else Inr next)"

section \<open>Applying a patch\<close>

text \<open>The loop.  Its result is what is left of the three streams.\<close>

definition prepend :: "string list \<Rightarrow> string list \<times> 'a result \<Rightarrow> string list \<times> 'a result" where
  "prepend pieces r = (pieces @ fst r, snd r)"

lemma asLength_Inr: "asLength v = Inr n \<longleftrightarrow> n = int v \<and> n \<le> MaxInt64"
  by (auto simp: asLength_def)

lemma readControl_nonneg:
  "readControl ctrl = Inr (a, literal, seek, rest) \<Longrightarrow> 0 \<le> a \<and> 0 \<le> literal \<and> rest = drop patchControlLen ctrl"
  by (auto simp: readControl_def asLength_Inr split: if_splits sum.splits)

function apply_loop ::
    "string \<Rightarrow> int \<Rightarrow> string \<Rightarrow> string \<Rightarrow> string \<Rightarrow> int \<Rightarrow> int \<Rightarrow> string list \<times> (string \<times> string \<times> string) result"
  where
  "apply_loop base newLen ctrl diff extra newPos basePos =
     (if newPos \<ge> newLen then ([], Inr (ctrl, diff, extra))
      else (case readControl ctrl of
        Inl e \<Rightarrow> ([], Inl e)
      | Inr (a, literal, seek, ctrl') \<Rightarrow>
          if a = 0 \<and> literal = 0 then ([], Inl [ErrStage])
          else (case addRun base diff a newPos basePos newLen of
            (ps, Inl e) \<Rightarrow> (ps, Inl e)
          | (ps, Inr diff') \<Rightarrow> (case literalRun extra literal (newPos + a) newLen of
              (qs, Inl e) \<Rightarrow> (ps @ qs, Inl e)
            | (qs, Inr extra') \<Rightarrow> (case seek_base (int (length base)) (basePos + a) seek of
                Inl e \<Rightarrow> (ps @ qs, Inl e)
              | Inr basePos' \<Rightarrow>
                  prepend (ps @ qs)
                    (apply_loop base newLen ctrl' diff' extra' (newPos + a + literal) basePos'))))))"
  by pat_completeness auto

termination
  by (relation "measure (\<lambda>(base, newLen, ctrl, diff, extra, newPos, basePos). nat (newLen - newPos))")
     (auto dest: readControl_nonneg)

declare apply_loop.simps [simp del]

text \<open>After the last entry every stream is at a clean end.\<close>

type_synonym flate_reader = "string \<Rightarrow> string \<times> nat option"

definition ends_cleanly :: "flate_reader \<Rightarrow> string \<Rightarrow> string \<Rightarrow> bool" where
  "ends_cleanly inflate raw rest \<longleftrightarrow> rest = [] \<and> snd (inflate raw) = Some 0"

definition ApplyPatchStream ::
    "flate_reader \<Rightarrow> string \<Rightarrow> string \<Rightarrow> int \<Rightarrow> string list \<times> unit result" where
  "ApplyPatchStream inflate base patch maxOut =
     (if maxOut \<le> 0 then ([], Inl [ErrStage])
      else (case splitPatch patch maxOut of
        Inl e \<Rightarrow> ([], Inl e)
      | Inr (ctrlRaw, diffRaw, extraRaw, newLen) \<Rightarrow>
          (case apply_loop base newLen (fst (inflate ctrlRaw)) (fst (inflate diffRaw)) (fst (inflate extraRaw)) 0 0 of
            (ps, Inl e) \<Rightarrow> (ps, Inl e)
          | (ps, Inr (ctrl, diff, extra)) \<Rightarrow>
              (ps, if ends_cleanly inflate ctrlRaw ctrl \<and> ends_cleanly inflate diffRaw diff
                     \<and> ends_cleanly inflate extraRaw extra
                   then Inr () else Inl [ErrStage]))))"

text \<open>\<open>cappedBuffer\<close>: it takes the pieces in order and refuses the first one that passes the limit.\<close>

fun capped :: "int \<Rightarrow> string \<Rightarrow> string list \<Rightarrow> string result" where
  "capped limit b [] = Inr b"
| "capped limit b (p # ps) =
     (if int (length b) + int (length p) > limit then Inl [ErrStage, ErrStage] else capped limit (b @ p) ps)"

definition ApplyPatch :: "flate_reader \<Rightarrow> string \<Rightarrow> string \<Rightarrow> int \<Rightarrow> string result" where
  "ApplyPatch inflate base patch maxOut =
     (case ApplyPatchStream inflate base patch maxOut of
        (ps, r) \<Rightarrow> (case capped maxOut [] ps of
          Inl e \<Rightarrow> Inl e
        | Inr out \<Rightarrow> (case r of Inl e \<Rightarrow> Inl e | Inr _ \<Rightarrow> Inr out)))"

end
