(* ===== verification/Delta.thy ===== *)
theory Delta
  imports Patch
begin

text \<open>
  \<open>internal/delta\<close>: the generator of delta patches (\<open>delta.go\<close>) and its table of blocks (\<open>index.go\<close>).
  \<open>compress/flate\<close> is a parameter: \<open>deflate\<close> maps a stream to its compressed bytes.  Positions are
  natural numbers; the runs \<open>encode\<close> gets from \<open>matches\<close> are in order, so no difference it takes is
  negative except the seeks, which are integers.
\<close>

unbundle bit_operations_syntax

definition magic :: string where "magic = ''IDNDELT1''"

definition blockSize :: nat where "blockSize = 64"
definition window :: nat where "window = 32"
definition windowMatches :: nat where "windowMatches = window div 2"

abbreviation (input) segment :: "'a list \<Rightarrow> nat \<Rightarrow> nat \<Rightarrow> 'a list" where
  "segment xs i j \<equiv> take (j - i) (drop i xs)"

section \<open>The rolling hash\<close>

definition hashBase :: "64 word" where "hashBase = 0x100000001b3"
definition hashPow :: "64 word" where "hashPow = hashBase ^ (blockSize - 1)"

definition byte_word :: "char \<Rightarrow> 64 word" where "byte_word b = of_nat (of_char b)"

definition rollingHash :: "string \<Rightarrow> 64 word" where
  "rollingHash block = foldl (\<lambda>h b. h * hashBase + byte_word b) 0 block"

definition roll :: "64 word \<Rightarrow> char \<Rightarrow> char \<Rightarrow> 64 word" where
  "roll h leaving joining = (h - byte_word leaving * hashPow) * hashBase + byte_word joining"

section \<open>The table of blocks\<close>

text \<open>
  Open addressing with linear probing; an entry of \<open>starts\<close> is one more than a position, so that 0 is
  an empty slot.  A probe of a table with no empty slot and no such hash would go round forever: after
  as many steps as there are slots it is back where it began, and \<open>probe\<close> is \<^const>\<open>None\<close>.
\<close>

record blockIndex =
  ix_mask :: "64 word"
  hashes :: "64 word list"
  starts :: "nat list"

fun probe :: "blockIndex \<Rightarrow> 64 word \<Rightarrow> nat \<Rightarrow> 64 word \<Rightarrow> nat option" where
  "probe ix h 0 slot = None"
| "probe ix h (Suc k) slot =
     (if starts ix ! unat slot = 0 \<or> hashes ix ! unat slot = h then Some (unat slot)
      else probe ix h k ((slot + 1) AND ix_mask ix))"

definition ix_insert :: "64 word \<Rightarrow> nat \<Rightarrow> blockIndex \<Rightarrow> blockIndex option" where
  "ix_insert h start ix =
     (case probe ix h (length (starts ix)) (h AND ix_mask ix) of
        None \<Rightarrow> None
      | Some slot \<Rightarrow>
          Some (if starts ix ! slot = 0
                then ix\<lparr>hashes := (hashes ix)[slot := h], starts := (starts ix)[slot := start + 1]\<rparr>
                else ix))"

definition ix_lookup :: "blockIndex \<Rightarrow> 64 word \<Rightarrow> string \<Rightarrow> string \<Rightarrow> nat option option" where
  "ix_lookup ix h older block =
     (case probe ix h (length (starts ix)) (h AND ix_mask ix) of
        None \<Rightarrow> None
      | Some slot \<Rightarrow>
          Some (if starts ix ! slot = 0 then None
                else let at = starts ix ! slot - 1 in
                  if segment older at (at + blockSize) = block then Some at else None))"

function table_size :: "nat \<Rightarrow> nat \<Rightarrow> nat" where
  "table_size blocks slots = (if 0 < slots \<and> slots < blocks * 2 then table_size blocks (slots * 2) else slots)"
  by pat_completeness auto
termination by (relation "measure (\<lambda>(blocks, slots). blocks * 2 - slots)") auto

declare table_size.simps [simp del]

definition empty_index :: "nat \<Rightarrow> blockIndex" where
  "empty_index slots = \<lparr>ix_mask = of_nat (slots - 1), hashes = replicate slots 0, starts = replicate slots 0\<rparr>"

fun insert_blocks :: "string \<Rightarrow> nat list \<Rightarrow> blockIndex \<Rightarrow> blockIndex option" where
  "insert_blocks older [] ix = Some ix"
| "insert_blocks older (i # is) ix =
     Option.bind (ix_insert (rollingHash (segment older i (i + blockSize))) i ix) (insert_blocks older is)"

definition indexBlocks :: "string \<Rightarrow> blockIndex option" where
  "indexBlocks older =
     (let blocks = length older div blockSize in
      insert_blocks older (map (\<lambda>k. k * blockSize) [0..<blocks]) (empty_index (table_size blocks 8)))"

section \<open>Finding the runs\<close>

record match =
  newStart :: nat
  oldStart :: nat
  run :: nat

function grow_back :: "string \<Rightarrow> string \<Rightarrow> nat \<Rightarrow> nat \<Rightarrow> nat \<Rightarrow> nat \<times> nat" where
  "grow_back older newer covered start at =
     (if start > covered \<and> at > 0 \<and> newer ! (start - 1) = older ! (at - 1)
      then grow_back older newer covered (start - 1) (at - 1) else (start, at))"
  by pat_completeness auto
termination by (relation "measure (\<lambda>(older, newer, covered, start, at). start)") auto

declare grow_back.simps [simp del]

definition agreeing :: "string \<Rightarrow> string \<Rightarrow> nat \<Rightarrow> nat \<Rightarrow> nat \<Rightarrow> nat list" where
  "agreeing older newer end oldEnd n = filter (\<lambda>k. newer ! (end + k) = older ! (oldEnd + k)) [0..<n]"

lemma window_shrinks:
  "e < l \<Longrightarrow> e' < l' \<Longrightarrow> l - (e + min window (min (l - e) (l' - e'))) < l - (e :: nat)"
  unfolding window_def by linarith

function grow_on :: "string \<Rightarrow> string \<Rightarrow> nat \<Rightarrow> nat \<Rightarrow> nat \<Rightarrow> nat" where
  "grow_on older newer end oldEnd final =
     (if end < length newer \<and> oldEnd < length older
      then let n = min window (min (length newer - end) (length older - oldEnd));
               ks = agreeing older newer end oldEnd n in
        if length ks * window < windowMatches * n then final
        else grow_on older newer (end + n) (oldEnd + n) (if ks = [] then final else end + last ks + 1)
      else final)"
  by pat_completeness auto
termination
  by (relation "measure (\<lambda>(older, newer, end, oldEnd, final). length newer - end)")
     (simp_all only: wf_measure in_measure case_prod_conv window_shrinks)

declare grow_on.simps [simp del]

definition grow :: "string \<Rightarrow> string \<Rightarrow> nat \<Rightarrow> nat \<Rightarrow> nat \<Rightarrow> match" where
  "grow older newer oldAt newAt covered =
     (case grow_back older newer covered newAt oldAt of (start, at) \<Rightarrow>
        let final = grow_on older newer (newAt + blockSize) (oldAt + blockSize) (newAt + blockSize) in
        \<lparr>newStart = start, oldStart = at, run = final - start\<rparr>)"

function scan_runs ::
    "blockIndex \<Rightarrow> string \<Rightarrow> string \<Rightarrow> 64 word \<Rightarrow> nat \<Rightarrow> nat \<Rightarrow> match list option" where
  "scan_runs ix older newer h i covered =
     (let rest = (\<lambda>covered. if i + blockSize \<ge> length newer then Some []
            else scan_runs ix older newer (roll h (newer ! i) (newer ! (i + blockSize))) (i + 1) covered) in
      if i \<ge> covered then
        (case ix_lookup ix h older (segment newer i (i + blockSize)) of
           None \<Rightarrow> None
         | Some None \<Rightarrow> rest covered
         | Some (Some at) \<Rightarrow>
             let m = grow older newer at i covered in
             map_option (Cons m) (rest (newStart m + run m)))
      else rest covered)"
  by pat_completeness auto
termination
  by (relation "measure (\<lambda>(ix, older, newer, h, i, covered). length newer - i)") auto

declare scan_runs.simps [simp del]

definition matches :: "string \<Rightarrow> string \<Rightarrow> match list option" where
  "matches older newer =
     (if length older < blockSize \<or> length newer < blockSize then Some []
      else Option.bind (indexBlocks older)
        (\<lambda>ix. scan_runs ix older newer (rollingHash (take blockSize newer)) 0 0))"

section \<open>Writing the container\<close>

definition u64 :: "int \<Rightarrow> nat" where
  "u64 n = nat (n mod 2 ^ 64)"

definition put_control :: "int \<Rightarrow> int \<Rightarrow> int \<Rightarrow> string" where
  "put_control a literal seek = put64 (u64 a) @ put64 (u64 literal) @ put64 (u64 seek)"

text \<open>The streams that one turn of the loop, and the ones after it, write.\<close>

type_synonym streams = "string \<times> string \<times> string"

fun streams_append :: "streams \<Rightarrow> streams \<Rightarrow> streams" where
  "streams_append (c, d, x) (c', d', x') = (c @ c', d @ d', x @ x')"

text \<open>
  The entry in front of a run, when the base is not at its start: what it writes, and the run that is
  left, which loses its first byte when there are no literals to carry.
\<close>

definition lead_in :: "string \<Rightarrow> nat \<Rightarrow> nat \<Rightarrow> match \<Rightarrow> streams \<times> nat \<times> nat \<times> match" where
  "lead_in newer newPos basePos m =
     (let gap = newStart m - newPos in
      if gap > 0 \<or> basePos \<noteq> oldStart m then
        (if gap = 0 then
           (let m' = \<lparr>newStart = newStart m + 1, oldStart = oldStart m + 1, run = run m - 1\<rparr> in
            ((put_control 0 1 (int (oldStart m') - int basePos), [], [newer ! newStart m]),
             newPos + 1, oldStart m', m'))
         else
           ((put_control 0 (int gap) (int (oldStart m) - int basePos), [], segment newer newPos (newPos + gap)),
            newPos + gap, oldStart m, m))
      else (([], [], []), newPos, basePos, m))"

fun encode_runs :: "string \<Rightarrow> string \<Rightarrow> nat \<Rightarrow> nat \<Rightarrow> match list \<Rightarrow> streams" where
  "encode_runs older newer newPos basePos [] =
     (if newPos < length newer
      then (put_control 0 (int (length newer) - int newPos) 0, [], drop newPos newer) else ([], [], []))"
| "encode_runs older newer newPos basePos (m # ms) =
     (case lead_in newer newPos basePos m of (lead, newPos, basePos, m) \<Rightarrow>
        let diff = map (\<lambda>k. byte_sub (newer ! (newStart m + k)) (older ! (oldStart m + k))) [0..<run m];
            newPos = newPos + run m;
            basePos = basePos + run m;
            tail = (case ms of [] \<Rightarrow> length newer | m' # _ \<Rightarrow> newStart m');
            seek = (case ms of [] \<Rightarrow> 0 | m' # _ \<Rightarrow> int (oldStart m') - int basePos)
        in streams_append lead
             (streams_append (put_control (int (run m)) (int tail - int newPos) seek, diff, segment newer newPos tail)
               (encode_runs older newer tail (nat (int basePos + seek)) ms)))"

definition assemble :: "(string \<Rightarrow> string) \<Rightarrow> nat \<Rightarrow> streams \<Rightarrow> string" where
  "assemble deflate newLen s =
     (case s of (ctrl, diff, extra) \<Rightarrow>
        magic @ put64 newLen @ put64 (length (deflate ctrl)) @ put64 (length (deflate diff))
          @ deflate ctrl @ deflate diff @ deflate extra)"

definition encode :: "(string \<Rightarrow> string) \<Rightarrow> string \<Rightarrow> string \<Rightarrow> match list \<Rightarrow> string" where
  "encode deflate older newer found = assemble deflate (length newer) (encode_runs older newer 0 0 found)"

definition Diff :: "(string \<Rightarrow> string) \<Rightarrow> string \<Rightarrow> string \<Rightarrow> string option" where
  "Diff deflate older newer = map_option (encode deflate older newer) (matches older newer)"

end
