(* ===== verification/DeltaIndex.thy ===== *)
theory DeltaIndex
  imports Delta
begin

text \<open>
  The table of blocks of \<open>internal/delta/index.go\<close> is a map from hashes to the first block that has them,
  and a probe of it ends; the hash that is rolled along the newer file is the hash of the window.  So the
  search of \<open>matches\<close> is the plain one, with neither a table nor a rolling hash.
\<close>

unbundle bit_operations_syntax

section \<open>Probing\<close>

definition wanted :: "blockIndex \<Rightarrow> 64 word \<Rightarrow> nat \<Rightarrow> bool" where
  "wanted ix h s \<longleftrightarrow> starts ix ! s = 0 \<or> hashes ix ! s = h"

definition slots_from :: "nat \<Rightarrow> nat \<Rightarrow> nat \<Rightarrow> nat list" where
  "slots_from k home n = map (\<lambda>j. (home + j) mod 2 ^ k) [0..<n]"

lemma slots_from_Suc: "home < 2 ^ k \<Longrightarrow> slots_from k home (Suc n) = home # slots_from k ((home + 1) mod 2 ^ k) n"
  by (simp add: slots_from_def upt_conv_Cons map_Suc_upt [symmetric] mod_Suc_eq del: upt_Suc)
     (simp add: comp_def mod_add_left_eq)

lemma unat_and_mask:
  assumes "k < 64"
  shows "unat ((w :: 64 word) AND of_nat (2 ^ k - 1)) = unat w mod 2 ^ k"
proof -
  have "(of_nat (2 ^ k - 1) :: 64 word) = mask k" by (simp add: mask_eq_exp_minus_1 of_nat_diff)
  then have "w AND of_nat (2 ^ k - 1) = take_bit k w" by (simp add: take_bit_eq_mask)
  then have "unat (w AND of_nat (2 ^ k - 1)) = take_bit k (unat w)" by (simp only: unsigned_take_bit_eq)
  then show ?thesis by (simp only: take_bit_eq_mod)
qed

lemma next_slot:
  assumes "k < 64"
  shows "unat (((w :: 64 word) + 1) AND of_nat (2 ^ k - 1)) = (unat w + 1) mod 2 ^ k"
proof -
  have "(2 :: nat) ^ k dvd 2 ^ 64" using assms by (intro le_imp_power_dvd) simp
  then have "unat (w + 1) mod 2 ^ k = (unat w + 1) mod 2 ^ k"
    by (simp add: unat_word_ariths mod_mod_cancel)
  then show ?thesis using unat_and_mask [OF assms, of "w + 1"] by simp
qed

lemma probe_find:
  assumes "k < 64" "ix_mask ix = of_nat (2 ^ k - 1)"
  shows "unat slot < 2 ^ k \<Longrightarrow> probe ix h n slot = find (wanted ix h) (slots_from k (unat slot) n)"
proof (induction n arbitrary: slot)
  case (Suc n)
  have "unat ((slot + 1) AND ix_mask ix) = (unat slot + 1) mod 2 ^ k" using next_slot [OF assms(1)] by (simp only: assms(2))
  with Suc.IH [of "(slot + 1) AND ix_mask ix"] Suc.prems show ?case
    by (simp add: slots_from_Suc wanted_def)
qed (simp add: slots_from_def)

section \<open>The table as a map\<close>

definition home :: "nat \<Rightarrow> 64 word \<Rightarrow> nat" where
  "home k h = unat h mod 2 ^ k"

definition find_slot :: "nat \<Rightarrow> blockIndex \<Rightarrow> 64 word \<Rightarrow> nat option" where
  "find_slot k ix h = find (wanted ix h) (slots_from k (home k h) (2 ^ k))"

text \<open>
  \<open>table_ok k f n ix\<close>: the table has \<open>2 ^ k\<close> slots of which at most \<open>n\<close> are used, it maps hashes to positions
  as \<open>f\<close> does, and probing for a used slot's hash leads to that slot.
\<close>

definition table_ok :: "nat \<Rightarrow> (64 word \<rightharpoonup> nat) \<Rightarrow> nat \<Rightarrow> blockIndex \<Rightarrow> bool" where
  "table_ok k f n ix \<longleftrightarrow>
     k < 64 \<and> ix_mask ix = of_nat (2 ^ k - 1) \<and> length (starts ix) = 2 ^ k \<and> length (hashes ix) = 2 ^ k \<and>
     length (filter (\<lambda>s. s \<noteq> 0) (starts ix)) \<le> n \<and>
     (\<forall>s < 2 ^ k. starts ix ! s \<noteq> 0 \<longrightarrow>
        f (hashes ix ! s) = Some (starts ix ! s - 1) \<and> find_slot k ix (hashes ix ! s) = Some s) \<and>
     (\<forall>h \<in> dom f. \<exists>s < 2 ^ k. starts ix ! s \<noteq> 0 \<and> hashes ix ! s = h)"

lemma table_ok_probe:
  assumes "table_ok k f n ix"
  shows "probe ix h (length (starts ix)) (h AND ix_mask ix) = find_slot k ix h"
proof -
  have k: "k < 64" "ix_mask ix = of_nat (2 ^ k - 1)" "length (starts ix) = 2 ^ k"
    using assms by (auto simp: table_ok_def)
  have "unat (h AND ix_mask ix) = home k h" using unat_and_mask [OF k(1)] by (simp only: k(2) home_def)
  with probe_find [OF k(1,2), of "h AND ix_mask ix"] k(3) show ?thesis
    by (simp add: find_slot_def home_def)
qed

lemma set_slots_from: "set (slots_from k i (2 ^ k)) = {..< 2 ^ k}"
proof -
  have "e \<in> (\<lambda>j. (i + j) mod 2 ^ k) ` {0..<2 ^ k}" if "e < 2 ^ k" for e
  proof -
    define j where "j = (e + (2 ^ k - i mod 2 ^ k)) mod 2 ^ k"
    have "(i + j) mod 2 ^ k = (i mod 2 ^ k + (e + (2 ^ k - i mod 2 ^ k))) mod 2 ^ k"
      by (simp add: j_def mod_add_left_eq mod_add_right_eq)
    also have "i mod 2 ^ k + (e + (2 ^ k - i mod 2 ^ k)) = e + 2 ^ k"
      using less_imp_le [OF mod_less_divisor [of "2 ^ k" i]] by (simp only: le_add_diff_inverse add.left_commute) simp
    finally have "(i + j) mod 2 ^ k = e" using that by simp
    moreover have "j \<in> {0..<2 ^ k}" by (simp add: j_def)
    ultimately show ?thesis by (intro image_eqI [of _ _ j]) simp_all
  qed
  then show ?thesis by (auto simp: slots_from_def)
qed

lemma table_ok_free:
  assumes "table_ok k f n ix" "n < 2 ^ k"
  obtains s where "find_slot k ix h = Some s" and "s < 2 ^ k" and "wanted ix h s"
proof -
  have "\<exists>e < 2 ^ k. starts ix ! e = 0"
  proof (rule ccontr)
    assume "\<not> (\<exists>e < 2 ^ k. starts ix ! e = 0)"
    then have "filter (\<lambda>s. s \<noteq> 0) (starts ix) = starts ix"
      using assms(1) by (auto simp: filter_id_conv table_ok_def in_set_conv_nth)
    with assms show False by (simp add: table_ok_def)
  qed
  then have "\<exists>e \<in> set (slots_from k (home k h) (2 ^ k)). wanted ix h e"
    by (auto simp: set_slots_from wanted_def)
  then obtain s where s: "find_slot k ix h = Some s"
    by (cases "find_slot k ix h") (auto simp: find_slot_def find_None_iff)
  then have "wanted ix h s" "s \<in> set (slots_from k (home k h) (2 ^ k))"
    by (auto simp: find_slot_def find_Some_iff)
  with s that show thesis by (simp add: set_slots_from)
qed

lemma table_ok_slot:
  assumes ok: "table_ok k f n ix" and s: "find_slot k ix h = Some s" "s < 2 ^ k" "wanted ix h s"
  shows "f h = (if starts ix ! s = 0 then None else Some (starts ix ! s - 1))"
proof (cases "starts ix ! s = 0")
  case False
  then have "hashes ix ! s = h" using s(3) by (simp add: wanted_def)
  with False ok s(2) show ?thesis by (auto simp: table_ok_def)
next
  case True
  have "f h = None"
  proof (rule ccontr)
    assume "f h \<noteq> None"
    then obtain t where "t < 2 ^ k" "starts ix ! t \<noteq> 0" "hashes ix ! t = h"
      using ok unfolding table_ok_def by blast
    with ok have "find_slot k ix h = Some t" by (auto simp: table_ok_def)
    with s(1) True \<open>starts ix ! t \<noteq> 0\<close> show False by simp
  qed
  with True show ?thesis by simp
qed

lemma filter_update_le: "length (filter P (xs[i := x])) \<le> Suc (length (filter P xs))"
  by (induction xs arbitrary: i) (auto split: nat.splits)

lemma wanted_update:
  assumes "s \<noteq> e" "starts ix ! s \<noteq> 0"
  shows "wanted (ix\<lparr>hashes := (hashes ix)[e := h], starts := (starts ix)[e := p]\<rparr>) h' s = wanted ix h' s"
  using assms by (simp add: wanted_def)

lemma ix_insert_ok:
  assumes ok: "table_ok k f n ix" and n: "n < 2 ^ k"
  obtains ix' where "ix_insert h p ix = Some ix'"
    and "table_ok k (if f h = None then f(h \<mapsto> p) else f) (Suc n) ix'"
proof -
  obtain e where e: "find_slot k ix h = Some e" "e < 2 ^ k" "wanted ix h e" by (rule table_ok_free [OF ok n])
  note fh = table_ok_slot [OF ok e]
  show thesis
  proof (cases "starts ix ! e = 0")
    case False
    then have "ix_insert h p ix = Some ix"
      using e by (simp add: ix_insert_def table_ok_probe [OF ok])
    moreover have "table_ok k f (Suc n) ix" using ok by (auto simp: table_ok_def)
    ultimately show thesis using that fh False by simp
  next
    case True
    define ix' where "ix' = ix\<lparr>hashes := (hashes ix)[e := h], starts := (starts ix)[e := p + 1]\<rparr>"
    have ins: "ix_insert h p ix = Some ix'"
      using e True by (simp add: ix_insert_def table_ok_probe [OF ok] ix'_def)
    have fresh: "f h = None" using fh True by simp
    have lens: "length (starts ix) = 2 ^ k" "length (hashes ix) = 2 ^ k" using ok by (auto simp: table_ok_def)
    have new: "starts ix' ! e = p + 1" "hashes ix' ! e = h" using lens e(2) by (auto simp: ix'_def)
    have old: "starts ix' ! s = starts ix ! s" "hashes ix' ! s = hashes ix ! s" if "s \<noteq> e" for s
      using that by (auto simp: ix'_def)
    have slots: "find_slot k ix' h' = Some s"
      if found: "find_slot k ix h' = Some s" and end_ok: "s \<noteq> e \<and> starts ix ! s \<noteq> 0 \<or> s = e \<and> h' = h" for h' s
    proof -
      let ?xs = "slots_from k (home k h') (2 ^ k)"
      from found obtain i where i: "i < length ?xs" "wanted ix h' (?xs ! i)" "s = ?xs ! i"
        "\<forall>j<i. \<not> wanted ix h' (?xs ! j)"
        unfolding find_slot_def find_Some_iff by blast
      have "\<not> wanted ix' h' (?xs ! j)" if "j < i" for j
      proof -
        have "\<not> wanted ix h' (?xs ! j)" using i(4) that by blast
        moreover from this have "?xs ! j \<noteq> e" using True by (auto simp: wanted_def)
        ultimately show ?thesis by (simp add: wanted_def old)
      qed
      moreover have "wanted ix' h' (?xs ! i)"
        using end_ok i(2,3) new old by (auto simp: wanted_def)
      ultimately show ?thesis unfolding find_slot_def find_Some_iff using i(1,3) by blast
    qed
    have "length (filter (\<lambda>s. s \<noteq> 0) (starts ix')) \<le> Suc (length (filter (\<lambda>s. s \<noteq> 0) (starts ix)))"
      by (simp add: ix'_def filter_update_le)
    moreover have "length (filter (\<lambda>s. s \<noteq> 0) (starts ix)) \<le> n" using ok by (simp add: table_ok_def)
    moreover have "(f(h \<mapsto> p)) (hashes ix' ! s) = Some (starts ix' ! s - 1) \<and> find_slot k ix' (hashes ix' ! s) = Some s"
      if s: "s < 2 ^ k" "starts ix' ! s \<noteq> 0" for s
    proof (cases "s = e")
      case True
      then show ?thesis using new slots [OF e(1)] by simp
    next
      case False
      then have "f (hashes ix ! s) = Some (starts ix ! s - 1)" "find_slot k ix (hashes ix ! s) = Some s"
        using ok s by (auto simp: table_ok_def old)
      with False s fresh slots [of "hashes ix ! s" s] show ?thesis by (auto simp: old)
    qed
    moreover have "\<exists>s < 2 ^ k. starts ix' ! s \<noteq> 0 \<and> hashes ix' ! s = h'" if "h' \<in> dom (f(h \<mapsto> p))" for h'
    proof (cases "h' = h")
      case True
      then show ?thesis using new e(2) by auto
    next
      case False
      with that have "h' \<in> dom f" by auto
      then obtain s where s: "s < 2 ^ k" "starts ix ! s \<noteq> 0" "hashes ix ! s = h'"
        using ok unfolding table_ok_def by blast
      with True have "s \<noteq> e" by auto
      with s show ?thesis by (auto simp: old)
    qed
    moreover have "k < 64" "ix_mask ix' = of_nat (2 ^ k - 1)" "length (starts ix') = 2 ^ k" "length (hashes ix') = 2 ^ k"
      using ok by (simp_all add: table_ok_def ix'_def)
    ultimately have "table_ok k (f(h \<mapsto> p)) (Suc n) ix'" unfolding table_ok_def by (intro conjI allI impI ballI) auto
    with that ins fresh show thesis by simp
  qed
qed

section \<open>The blocks of a file\<close>

definition first_block :: "string \<Rightarrow> nat list \<Rightarrow> 64 word \<Rightarrow> nat option" where
  "first_block older ps h = find (\<lambda>i. rollingHash (segment older i (i + blockSize)) = h) ps"

lemma insert_blocks_ok:
  "table_ok k f n ix \<Longrightarrow> n + length ps \<le> 2 ^ k \<Longrightarrow>
   \<exists>ix'. insert_blocks older ps ix = Some ix' \<and>
     table_ok k (\<lambda>h. case f h of None \<Rightarrow> first_block older ps h | Some p \<Rightarrow> Some p) (n + length ps) ix'"
proof (induction ps arbitrary: f n ix)
  case Nil
  moreover have "(\<lambda>h. case f h of None \<Rightarrow> first_block older [] h | Some p \<Rightarrow> Some p) = f"
    by (auto simp: fun_eq_iff first_block_def split: option.splits)
  ultimately show ?case by simp
next
  case (Cons i ps)
  define h where "h = rollingHash (segment older i (i + blockSize))"
  define g where "g = (if f h = None then f(h \<mapsto> i) else f)"
  obtain ix1 where ix1: "ix_insert h i ix = Some ix1" "table_ok k g (Suc n) ix1"
    using ix_insert_ok [OF Cons.prems(1), of h i] Cons.prems(2) by (auto simp: g_def)
  have "(\<lambda>h'. case f h' of None \<Rightarrow> first_block older (i # ps) h' | Some p \<Rightarrow> Some p)
      = (\<lambda>h'. case g h' of None \<Rightarrow> first_block older ps h' | Some p \<Rightarrow> Some p)"
    by (auto simp: fun_eq_iff g_def first_block_def h_def split: option.splits)
  with Cons.IH [OF ix1(2)] Cons.prems(2) ix1(1) [unfolded h_def] show ?case by simp
qed

lemma table_size_ok:
  "slots = 2 ^ k \<Longrightarrow> \<exists>k'. table_size blocks slots = 2 ^ k' \<and> blocks * 2 \<le> 2 ^ k' \<and> (k' = k \<or> 2 ^ k' < blocks * 4)"
proof (induction blocks slots arbitrary: k rule: table_size.induct)
  case (1 blocks slots)
  show ?case
  proof (cases "0 < slots \<and> slots < blocks * 2")
    case True
    with 1(1) [OF True, of "Suc k"] 1(2)
    obtain k' where "table_size blocks (slots * 2) = 2 ^ k'" "blocks * 2 \<le> 2 ^ k'" "k' = Suc k \<or> 2 ^ k' < blocks * 4"
      by auto
    moreover have "table_size blocks slots = table_size blocks (slots * 2)"
      using True by (simp add: table_size.simps [of blocks slots])
    ultimately show ?thesis using True 1(2) by auto
  next
    case False
    then have "table_size blocks slots = slots" by (simp only: table_size.simps [of blocks slots] if_False)
    with False 1(2) show ?thesis by (intro exI [of _ k]) auto
  qed
qed

lemma empty_index_ok: "k < 64 \<Longrightarrow> table_ok k Map.empty 0 (empty_index (2 ^ k))"
  by (simp add: table_ok_def empty_index_def)

definition aligned :: "string \<Rightarrow> nat list" where
  "aligned older = map (\<lambda>j. j * blockSize) [0..<length older div blockSize]"

lemma indexBlocks_ok:
  assumes "length older < 2 ^ 63"
  obtains ix k n where "indexBlocks older = Some ix" and "table_ok k (first_block older (aligned older)) n ix"
    and "n < 2 ^ k"
proof -
  define blocks where "blocks = length older div blockSize"
  have few: "blocks * 4 < 2 ^ 60" using assms by (simp add: blocks_def blockSize_def)
  obtain k where k: "table_size blocks 8 = 2 ^ k" "blocks * 2 \<le> 2 ^ k" "k = 3 \<or> 2 ^ k < blocks * 4"
    using table_size_ok [of 8 3 blocks] by auto
  have "k < 64"
  proof (rule ccontr)
    assume "\<not> k < 64"
    then have "(2 :: nat) ^ 60 \<le> 2 ^ k" by (intro power_increasing) auto
    with k(3) few \<open>\<not> k < 64\<close> show False by auto
  qed
  note start = empty_index_ok [OF this]
  have "0 + length (aligned older) \<le> 2 ^ k" using k(2) by (simp add: aligned_def blocks_def)
  from insert_blocks_ok [OF start this]
  obtain ix where ix: "insert_blocks older (aligned older) (empty_index (2 ^ k)) = Some ix"
    "table_ok k (first_block older (aligned older)) (length (aligned older)) ix" by auto
  have "indexBlocks older = Some ix"
    using ix(1) k(1) by (simp add: indexBlocks_def aligned_def blocks_def [symmetric] Let_def)
  moreover have "length (aligned older) < 2 ^ k"
    using k(2) by (cases "blocks = 0") (auto simp: aligned_def blocks_def [symmetric])
  ultimately show thesis using that ix(2) by blast
qed

section \<open>The plain search\<close>

definition anchor :: "string \<Rightarrow> string \<Rightarrow> nat option" where
  "anchor older block =
     (case first_block older (aligned older) (rollingHash block) of
        None \<Rightarrow> None
      | Some at \<Rightarrow> if segment older at (at + blockSize) = block then Some at else None)"

lemma ix_lookup_anchor:
  assumes "table_ok k (first_block older (aligned older)) n ix" "n < 2 ^ k"
  shows "ix_lookup ix (rollingHash block) older block = Some (anchor older block)"
proof -
  obtain s where s: "find_slot k ix (rollingHash block) = Some s" "s < 2 ^ k" "wanted ix (rollingHash block) s"
    by (rule table_ok_free [OF assms])
  from table_ok_slot [OF assms(1) s] s(1) show ?thesis
    by (simp add: ix_lookup_def table_ok_probe [OF assms(1)] anchor_def Let_def)
qed

lemma foldl_hash:
  "foldl (\<lambda>h b. h * hashBase + byte_word b) h xs = h * hashBase ^ length xs + rollingHash xs"
proof (induction xs rule: rev_induct)
  case (snoc x xs)
  then show ?case by (simp add: rollingHash_def algebra_simps)
qed (simp add: rollingHash_def)

lemma roll_window: "length ys = blockSize - 1 \<Longrightarrow> roll (rollingHash (x # ys)) x y = rollingHash (ys @ [y])"
proof -
  assume "length ys = blockSize - 1"
  then have "rollingHash (x # ys) = byte_word x * hashPow + rollingHash ys"
    using foldl_hash [of "byte_word x" ys] by (simp add: rollingHash_def hashPow_def)
  moreover have "rollingHash (ys @ [y]) = rollingHash ys * hashBase + byte_word y"
    by (simp add: rollingHash_def)
  ultimately show ?thesis by (simp add: roll_def)
qed

lemma roll_slice:
  assumes "i + blockSize < length newer"
  shows "roll (rollingHash (segment newer i (i + blockSize))) (newer ! i) (newer ! (i + blockSize))
    = rollingHash (segment newer (i + 1) (i + 1 + blockSize))"
proof -
  define ys where "ys = take (blockSize - 1) (drop (i + 1) newer)"
  have "segment newer i (i + blockSize) = newer ! i # ys"
    using assms by (simp add: ys_def blockSize_def numeral_eq_Suc Cons_nth_drop_Suc [symmetric])
  moreover have "segment newer (i + 1) (i + 1 + blockSize) = ys @ [newer ! (i + blockSize)]"
    using assms take_Suc_conv_app_nth [of "blockSize - 1" "drop (i + 1) newer"]
    by (simp add: ys_def blockSize_def add.commute)
  moreover have "length ys = blockSize - 1" using assms by (simp add: ys_def)
  ultimately show ?thesis by (simp add: roll_window)
qed

function scan_plain :: "string \<Rightarrow> string \<Rightarrow> nat \<Rightarrow> nat \<Rightarrow> match list" where
  "scan_plain older newer i covered =
     (let rest = (\<lambda>covered. if i + blockSize \<ge> length newer then [] else scan_plain older newer (i + 1) covered) in
      if i \<ge> covered then
        (case anchor older (segment newer i (i + blockSize)) of
           None \<Rightarrow> rest covered
         | Some at \<Rightarrow> let m = grow older newer at i covered in m # rest (newStart m + run m))
      else rest covered)"
  by pat_completeness auto
termination by (relation "measure (\<lambda>(older, newer, i, covered). length newer - i)") auto

declare scan_plain.simps [simp del]

definition matches_plain :: "string \<Rightarrow> string \<Rightarrow> match list" where
  "matches_plain older newer =
     (if length older < blockSize \<or> length newer < blockSize then [] else scan_plain older newer 0 0)"

lemma scan_runs_plain:
  assumes ix: "table_ok k (first_block older (aligned older)) n ix" "n < 2 ^ k"
  shows "i + blockSize \<le> length newer \<Longrightarrow>
    scan_runs ix older newer (rollingHash (segment newer i (i + blockSize))) i covered
      = Some (scan_plain older newer i covered)"
proof (induction "length newer - i" arbitrary: i covered rule: less_induct)
  case less
  define h where "h = rollingHash (segment newer i (i + blockSize))"
  define rest where "rest covered = (if i + blockSize \<ge> length newer then Some []
      else scan_runs ix older newer (roll h (newer ! i) (newer ! (i + blockSize))) (i + 1) covered)" for covered
  define rest' where "rest' covered = (if i + blockSize \<ge> length newer then []
      else scan_plain older newer (i + 1) covered)" for covered
  have rest: "rest covered = Some (rest' covered)" for covered
    using less.hyps [of "i + 1" covered] less.prems roll_slice [of i newer]
    by (auto simp: rest_def rest'_def h_def)
  have "scan_runs ix older newer h i covered =
      (if i \<ge> covered then
        (case ix_lookup ix h older (segment newer i (i + blockSize)) of
           None \<Rightarrow> None
         | Some None \<Rightarrow> rest covered
         | Some (Some at) \<Rightarrow> map_option (Cons (grow older newer at i covered))
             (rest (newStart (grow older newer at i covered) + run (grow older newer at i covered))))
      else rest covered)"
    unfolding rest_def by (subst scan_runs.simps) (simp only: Let_def)
  moreover have "scan_plain older newer i covered =
      (if i \<ge> covered then
        (case anchor older (segment newer i (i + blockSize)) of
           None \<Rightarrow> rest' covered
         | Some at \<Rightarrow> grow older newer at i covered #
             rest' (newStart (grow older newer at i covered) + run (grow older newer at i covered)))
      else rest' covered)"
    unfolding rest'_def by (subst scan_plain.simps) (simp only: Let_def)
  moreover have "ix_lookup ix h older (segment newer i (i + blockSize)) = Some (anchor older (segment newer i (i + blockSize)))"
    unfolding h_def by (rule ix_lookup_anchor [OF ix])
  ultimately show ?case unfolding h_def [symmetric] by (simp add: rest split: option.split)
qed

text \<open>
  C26. The search for common runs, with its open-addressed table of blocks and its rolling hash, always ends,
  and finds exactly the runs of the plain search that hashes every window from scratch and looks for the
  first block of the older file with that hash.
\<close>

theorem matches_equals_plain:
  assumes "length older < 2 ^ 63"
  shows "matches older newer = Some (matches_plain older newer)"
proof -
  obtain ix k n where "indexBlocks older = Some ix" "table_ok k (first_block older (aligned older)) n ix" "n < 2 ^ k"
    by (rule indexBlocks_ok [OF assms])
  with scan_runs_plain [of k older n ix 0 newer 0] show ?thesis
    by (simp add: matches_def matches_plain_def)
qed

theorem matches_equals_plain_witness:
  "matches ''an old file'' ''a new file'' = Some (matches_plain ''an old file'' ''a new file'')"
  by (rule matches_equals_plain) simp

lemma matches_total: "length older < 2 ^ 63 \<Longrightarrow> \<exists>ms. matches older newer = Some ms"
proof -
  assume len: "length older < 2 ^ 63"
  obtain ix k n where "indexBlocks older = Some ix" "table_ok k (first_block older (aligned older)) n ix" "n < 2 ^ k"
    by (rule indexBlocks_ok [OF len])
  with scan_runs_plain [of k older n ix 0 newer 0] show ?thesis
    by (simp add: matches_def)
qed

end
