(* ===== verification/PatchLaws.thy ===== *)
theory PatchLaws
  imports Patch
begin

text \<open>
  About delta patches.  The reader never produces more than it was told to, whatever the patch is; and
  it turns the older file into the newer one when the patch is the generator's.
\<close>

section \<open>The runs\<close>

lemma length_addBase [simp]: "off + length span \<le> length base \<Longrightarrow> length (addBase span base off) = length span"
  by (simp add: addBase_def)

lemma addBase_append:
  assumes "off + length xs + length ys \<le> length base"
  shows "addBase (xs @ ys) base off = addBase xs base off @ addBase ys base (off + length xs)"
proof -
  have "take (length xs + length ys) (drop off base)
      = take (length xs) (drop off base) @ take (length ys) (drop (off + length xs) base)"
    by (simp add: take_add add.commute)
  with assms show ?thesis by (simp add: addBase_def)
qed

lemma take_windows: "take k xs @ take (n - k) (drop k xs) = take n xs" if "k \<le> n"
  using that by (metis le_add_diff_inverse take_add)

lemma add_windows_0 [simp]: "add_windows base diff 0 basePos = ([], Inr diff)"
  by (simp add: add_windows.simps)

lemma literal_windows_0 [simp]: "literal_windows extra 0 = ([], Inr extra)"
  by (simp add: literal_windows.simps)

lemma add_windows_step:
  assumes "n \<noteq> 0"
  shows "add_windows base diff n basePos =
    (let k = min n CopyBufferSize in
     if length diff < k then ([], Inl [ErrStage])
     else (case add_windows base (drop k diff) (n - k) (basePos + k) of
       (pieces, r) \<Rightarrow> (addBase (take k diff) base basePos # pieces, r)))"
  by (subst add_windows.simps) (simp only: assms if_False)

lemma literal_windows_step:
  assumes "n \<noteq> 0"
  shows "literal_windows extra n =
    (let k = min n CopyBufferSize in
     if length extra < k then ([], Inl [ErrStage])
     else (case literal_windows (drop k extra) (n - k) of (pieces, r) \<Rightarrow> (take k extra # pieces, r)))"
  by (subst literal_windows.simps) (simp only: assms if_False)

lemma add_windows_exact:
  "n \<le> length diff \<Longrightarrow> basePos + n \<le> length base \<Longrightarrow>
   snd (add_windows base diff n basePos) = Inr (drop n diff) \<and>
   concat (fst (add_windows base diff n basePos)) = addBase (take n diff) base basePos"
proof (induction base diff n basePos rule: add_windows.induct)
  case (1 base diff n basePos)
  show ?case
  proof (cases "n = 0")
    case True
    then show ?thesis by (simp add: addBase_def)
  next
    case False
    define k where "k = min n CopyBufferSize"
    have k: "k \<le> n" "\<not> length diff < k" using 1 by (auto simp: k_def)
    have step: "add_windows base diff n basePos =
        (case add_windows base (drop k diff) (n - k) (basePos + k) of
          (pieces, r) \<Rightarrow> (addBase (take k diff) base basePos # pieces, r))"
      using add_windows_step [OF False] k by (simp add: k_def [symmetric] Let_def)
    have ih: "snd (add_windows base (drop k diff) (n - k) (basePos + k)) = Inr (drop n diff)"
      "concat (fst (add_windows base (drop k diff) (n - k) (basePos + k)))
        = addBase (take (n - k) (drop k diff)) base (basePos + k)"
      using 1(1) [OF False k_def k(2)] 1(2,3) k by auto
    have "addBase (take n diff) base basePos
        = addBase (take k diff) base basePos @ addBase (take (n - k) (drop k diff)) base (basePos + k)"
      using addBase_append [of basePos "take k diff" "take (n - k) (drop k diff)" base] 1(2,3) k
      by (simp add: take_windows min_absorb2)
    with ih show ?thesis by (auto simp: step split: prod.splits)
  qed
qed

lemma add_windows_short: "length diff < n \<Longrightarrow> \<exists>e. snd (add_windows base diff n basePos) = Inl e"
proof (induction base diff n basePos rule: add_windows.induct)
  case (1 base diff n basePos)
  define k where "k = min n CopyBufferSize"
  have step: "add_windows base diff n basePos =
      (if length diff < k then ([], Inl [ErrStage])
       else (case add_windows base (drop k diff) (n - k) (basePos + k) of
         (pieces, r) \<Rightarrow> (addBase (take k diff) base basePos # pieces, r)))"
    using 1(2) add_windows_step [of n] by (simp only: k_def Let_def)
  show ?case
  proof (cases "length diff < k")
    case False
    have "length (drop k diff) < n - k" using 1(2) False by auto
    then have "\<exists>e. snd (add_windows base (drop k diff) (n - k) (basePos + k)) = Inl e"
      using 1(1) [OF _ k_def False] 1(2) by auto
    then show ?thesis using False by (auto simp: step split: prod.splits)
  qed (simp add: step)
qed

lemma add_windows_bounded: "length (concat (fst (add_windows base diff n basePos))) \<le> n"
proof (induction base diff n basePos rule: add_windows.induct)
  case (1 base diff n basePos)
  define k where "k = min n CopyBufferSize"
  show ?case
  proof (cases "n = 0 \<or> length diff < k")
    case False
    then have f: "n \<noteq> 0" "\<not> length diff < k" by auto
    have "length (addBase (take k diff) base basePos) \<le> k" by (simp add: addBase_def)
    with 1(1) [OF f(1) k_def f(2)] show ?thesis
      using f by (auto simp: add_windows.simps [of _ _ n] k_def Let_def split: prod.splits)
  qed (auto simp: add_windows.simps [of _ _ n] k_def Let_def)
qed

lemma literal_windows_exact:
  "n \<le> length extra \<Longrightarrow>
   snd (literal_windows extra n) = Inr (drop n extra) \<and> concat (fst (literal_windows extra n)) = take n extra"
proof (induction extra n rule: literal_windows.induct)
  case (1 extra n)
  define k where "k = min n CopyBufferSize"
  show ?case
  proof (cases "n = 0")
    case False
    have k: "k \<le> n" "\<not> length extra < k" using 1 by (auto simp: k_def)
    have step: "literal_windows extra n =
        (case literal_windows (drop k extra) (n - k) of (pieces, r) \<Rightarrow> (take k extra # pieces, r))"
      using literal_windows_step [OF False] k by (simp add: k_def [symmetric] Let_def)
    have "snd (literal_windows (drop k extra) (n - k)) = Inr (drop n extra)"
      "concat (fst (literal_windows (drop k extra) (n - k))) = take (n - k) (drop k extra)"
      using 1(1) [OF False k_def k(2)] 1(2) k by auto
    then show ?thesis using k take_windows [of k n extra] by (auto simp: step split: prod.splits)
  qed simp
qed

lemma literal_windows_short: "length extra < n \<Longrightarrow> \<exists>e. snd (literal_windows extra n) = Inl e"
proof (induction extra n rule: literal_windows.induct)
  case (1 extra n)
  define k where "k = min n CopyBufferSize"
  have step: "literal_windows extra n =
      (if length extra < k then ([], Inl [ErrStage])
       else (case literal_windows (drop k extra) (n - k) of (pieces, r) \<Rightarrow> (take k extra # pieces, r)))"
    using 1(2) literal_windows_step [of n] by (simp only: k_def Let_def)
  show ?case
  proof (cases "length extra < k")
    case False
    then have "length (drop k extra) < n - k" using 1(2) by auto
    then have "\<exists>e. snd (literal_windows (drop k extra) (n - k)) = Inl e"
      using 1(1) [OF _ k_def False] 1(2) by auto
    then show ?thesis using False by (auto simp: step split: prod.splits)
  qed (simp add: step)
qed

lemma literal_windows_bounded: "length (concat (fst (literal_windows extra n))) \<le> n"
proof (induction extra n rule: literal_windows.induct)
  case (1 extra n)
  define k where "k = min n CopyBufferSize"
  show ?case
  proof (cases "n = 0 \<or> length extra < k")
    case False
    then have f: "n \<noteq> 0" "\<not> length extra < k" by auto
    with 1(1) [OF f(1) k_def f(2)] show ?thesis
      by (auto simp: literal_windows.simps [of _ n] k_def Let_def split: prod.splits)
  qed (auto simp: literal_windows.simps [of _ n] k_def Let_def)
qed

section \<open>Bounds\<close>

definition produced :: "string list \<times> 'a result \<Rightarrow> int" where
  "produced r = int (length (concat (fst r)))"

lemma produced_prepend [simp]: "produced (prepend ps r) = int (length (concat ps)) + produced r"
  by (simp add: produced_def prepend_def)

lemma snd_prepend [simp]: "snd (prepend ps r) = snd r"
  by (simp add: prepend_def)

lemma addRun_Inr:
  assumes "addRun base diff n newPos basePos newLen = (ps, Inr diff')" "0 \<le> n" "0 \<le> basePos"
  shows "n \<le> newLen - newPos \<and> basePos + n \<le> int (length base) \<and> int (length (concat ps)) = n"
proof -
  from assms(1) have guards: "n \<le> newLen - newPos" "basePos + n \<le> int (length base)"
    and run: "add_windows base diff (nat n) (nat basePos) = (ps, Inr diff')"
    by (auto simp: addRun_def split: if_splits)
  have "nat n \<le> length diff"
    using run add_windows_short [of diff "nat n" base "nat basePos"] by (force simp: not_less [symmetric])
  with add_windows_exact [of "nat n" diff "nat basePos" base] run guards assms(2,3) show ?thesis by auto
qed

lemma addRun_bounded:
  assumes "addRun base diff n newPos basePos newLen = (ps, r)" "0 \<le> n" "newPos \<le> newLen"
  shows "int (length (concat ps)) \<le> newLen - newPos"
  using assms add_windows_bounded [of base diff "nat n" "nat basePos"]
  by (auto simp: addRun_def split: if_splits)

lemma literalRun_Inr:
  assumes "literalRun extra n newPos newLen = (ps, Inr extra')" "0 \<le> n"
  shows "n \<le> newLen - newPos \<and> int (length (concat ps)) = n"
proof -
  from assms(1) have guard: "n \<le> newLen - newPos" and run: "literal_windows extra (nat n) = (ps, Inr extra')"
    by (auto simp: literalRun_def split: if_splits)
  have "nat n \<le> length extra"
    using run literal_windows_short [of extra "nat n"] by (force simp: not_less [symmetric])
  with literal_windows_exact [of "nat n" extra] run guard assms(2) show ?thesis by auto
qed

lemma literalRun_bounded:
  assumes "literalRun extra n newPos newLen = (ps, r)" "0 \<le> n" "newPos \<le> newLen"
  shows "int (length (concat ps)) \<le> newLen - newPos"
  using assms literal_windows_bounded [of extra "nat n"] by (auto simp: literalRun_def split: if_splits)

lemma seek_base_Inr: "seek_base baseLen basePos seek = Inr next \<Longrightarrow> 0 \<le> next \<and> next \<le> baseLen"
  by (auto simp: seek_base_def Let_def split: if_splits)

text \<open>One turn of the loop.\<close>

lemma apply_loop_cases:
  assumes "\<not> newPos \<ge> newLen"
  obtains (refused) e where "apply_loop base newLen ctrl diff extra newPos basePos = ([], Inl e)"
  | (diff) a literal seek ctrl' ps e where "readControl ctrl = Inr (a, literal, seek, ctrl')"
      "addRun base diff a newPos basePos newLen = (ps, Inl e)"
      "apply_loop base newLen ctrl diff extra newPos basePos = (ps, Inl e)"
  | (literal) a literal seek ctrl' ps diff' qs r e where "readControl ctrl = Inr (a, literal, seek, ctrl')"
      "addRun base diff a newPos basePos newLen = (ps, Inr diff')"
      "literalRun extra literal (newPos + a) newLen = (qs, r)"
      "apply_loop base newLen ctrl diff extra newPos basePos = (ps @ qs, Inl e)"
  | (turn) a literal seek ctrl' ps diff' qs extra' basePos' where
      "readControl ctrl = Inr (a, literal, seek, ctrl')" "\<not> (a = 0 \<and> literal = 0)"
      "addRun base diff a newPos basePos newLen = (ps, Inr diff')"
      "literalRun extra literal (newPos + a) newLen = (qs, Inr extra')"
      "seek_base (int (length base)) (basePos + a) seek = Inr basePos'"
      "apply_loop base newLen ctrl diff extra newPos basePos =
         prepend (ps @ qs) (apply_loop base newLen ctrl' diff' extra' (newPos + a + literal) basePos')"
proof -
  note step = apply_loop.simps [of base newLen ctrl diff extra newPos basePos]
  show thesis
  proof (cases "readControl ctrl")
    case (Inl e)
    then show ?thesis using assms step refused by simp
  next
    case (Inr c)
    then obtain a literal seek ctrl' where c: "readControl ctrl = Inr (a, literal, seek, ctrl')"
      by (cases c) auto
    show ?thesis
    proof (cases "a = 0 \<and> literal = 0")
      case True
      then show ?thesis using assms step c refused by simp
    next
      case pos: False
      obtain ps r where run: "addRun base diff a newPos basePos newLen = (ps, r)" by fastforce
      obtain qs r' where lit: "literalRun extra literal (newPos + a) newLen = (qs, r')" by fastforce
      show ?thesis
      proof (cases r)
        case (Inl e)
        then show ?thesis using assms step c pos run that(2) by simp
      next
        case d: (Inr diff')
        show ?thesis
        proof (cases r')
          case (Inl e)
          then show ?thesis using assms step c pos run lit d that(3) by simp
        next
          case x: (Inr extra')
          show ?thesis
          proof (cases "seek_base (int (length base)) (basePos + a) seek")
            case (Inl e)
            then show ?thesis using assms step c pos run lit d x that(3) by simp
          next
            case (Inr basePos')
            then show ?thesis using assms step c pos run lit d x that(4) by simp
          qed
        qed
      qed
    qed
  qed
qed

lemma apply_loop_bounded:
  "newPos \<le> newLen \<Longrightarrow> 0 \<le> basePos \<Longrightarrow>
   produced (apply_loop base newLen ctrl diff extra newPos basePos) \<le> newLen - newPos \<and>
   (\<forall>s. snd (apply_loop base newLen ctrl diff extra newPos basePos) = Inr s \<longrightarrow>
      produced (apply_loop base newLen ctrl diff extra newPos basePos) = newLen - newPos)"
proof (induction base newLen ctrl diff extra newPos basePos rule: apply_loop.induct)
  case (1 base newLen ctrl diff extra newPos basePos)
  show ?case
  proof (cases "newPos \<ge> newLen")
    case True
    then show ?thesis using 1(2) by (simp add: apply_loop.simps [of _ _ _ _ _ newPos] produced_def)
  next
    case False
    from False show ?thesis
    proof (cases rule: apply_loop_cases [where base = base and ctrl = ctrl and diff = diff and extra = extra and basePos = basePos])
      case (refused e)
      then show ?thesis using 1(2) by (simp add: produced_def)
    next
      case (diff a literal seek ctrl' ps e)
      then show ?thesis
        using 1(2) addRun_bounded [OF diff(2)] readControl_nonneg [OF diff(1)] by (simp add: produced_def)
    next
      case (literal a literal seek ctrl' ps diff' qs r e)
      have "0 \<le> a \<and> 0 \<le> literal" using readControl_nonneg [OF literal(1)] by simp
      with addRun_Inr [OF literal(2)] literalRun_bounded [OF literal(3)] 1(3) literal(4)
      show ?thesis by (simp add: produced_def)
    next
      case (turn a literal seek ctrl' ps diff' qs extra' basePos')
      have nn: "0 \<le> a \<and> 0 \<le> literal" using readControl_nonneg [OF turn(1)] by simp
      have lens: "int (length (concat ps)) = a" "int (length (concat qs)) = literal"
        "newPos + a + literal \<le> newLen"
        using addRun_Inr [OF turn(3)] literalRun_Inr [OF turn(4)] nn 1(3) by auto
      show ?thesis
        using 1(1) [OF False turn(1) refl refl refl turn(2) turn(3) [symmetric] refl turn(4) [symmetric] refl turn(5)]
          lens seek_base_Inr [OF turn(5)] turn(6) by auto
    qed
  qed
qed

lemma capped_all: "int (length b) + int (length (concat ps)) \<le> limit \<Longrightarrow> capped limit b ps = Inr (b @ concat ps)"
  by (induction ps arbitrary: b) auto

lemma splitPatch_declared: "splitPatch patch maxOut = Inr (c, d, x, newLen) \<Longrightarrow> 0 \<le> newLen \<and> newLen \<le> maxOut"
  by (auto simp: splitPatch_def asLength_Inr Let_def split: if_splits sum.splits)

lemma length_patchMagic [simp]: "length patchMagic = 8"
  by (simp add: patchMagic_def)

lemma patchHeaderLen_32 [simp]: "patchHeaderLen = 32"
  by (simp add: patchHeaderLen_def)

lemma read64_part: "n + i + 8 \<le> m \<Longrightarrow> read64 (drop n (take m xs)) i = read64 xs (n + i)"
  by (simp add: read64_def drop_take min_def add.commute)

lemma splitPatch_reads:
  assumes "splitPatch patch maxOut = Inr (c, d, x, newLen)"
  shows "newLen = int (read64 patch 8)"
proof -
  have "newLen = int (read64 (drop (length patchMagic) (take patchHeaderLen patch)) 0)"
    using assms by (auto simp: splitPatch_def asLength_Inr Let_def split: if_splits sum.splits)
  also have "\<dots> = int (read64 patch (length patchMagic + 0))"
    by (subst read64_part) simp_all
  finally show ?thesis by simp
qed

lemma ApplyPatchStream_cases:
  obtains (refused) e where "ApplyPatchStream inflate base patch maxOut = ([], Inl e)"
  | (run) c d x newLen ps r e where "0 < maxOut" "splitPatch patch maxOut = Inr (c, d, x, newLen)"
      "apply_loop base newLen (fst (inflate c)) (fst (inflate d)) (fst (inflate x)) 0 0 = (ps, r)"
      "ApplyPatchStream inflate base patch maxOut = (ps, Inl e)"
  | (whole) c d x newLen ps c' d' x' where "0 < maxOut" "splitPatch patch maxOut = Inr (c, d, x, newLen)"
      "apply_loop base newLen (fst (inflate c)) (fst (inflate d)) (fst (inflate x)) 0 0 = (ps, Inr (c', d', x'))"
      "ends_cleanly inflate c c'" "ends_cleanly inflate d d'" "ends_cleanly inflate x x'"
      "ApplyPatchStream inflate base patch maxOut = (ps, Inr ())"
proof (cases "0 < maxOut \<and> (\<exists>t. splitPatch patch maxOut = Inr t)")
  case False
  then have "\<exists>e. ApplyPatchStream inflate base patch maxOut = ([], Inl e)"
    by (cases "splitPatch patch maxOut") (auto simp: ApplyPatchStream_def)
  then show thesis using refused by blast
next
  case True
  then obtain c d x newLen where s: "0 < maxOut" "splitPatch patch maxOut = Inr (c, d, x, newLen)" by auto
  obtain ps r where l: "apply_loop base newLen (fst (inflate c)) (fst (inflate d)) (fst (inflate x)) 0 0 = (ps, r)"
    by fastforce
  show thesis
  proof (cases r)
    case (Inl e)
    then show thesis using run [OF s l] s l by (simp add: ApplyPatchStream_def)
  next
    case (Inr t)
    then obtain c' d' x' where t: "r = Inr (c', d', x')" by (cases t) auto
    show thesis
    proof (cases "ends_cleanly inflate c c' \<and> ends_cleanly inflate d d' \<and> ends_cleanly inflate x x'")
      case True
      then show thesis using that(3) [OF s, of ps c' d' x'] s l t by (simp add: ApplyPatchStream_def)
    next
      case False
      then show thesis using run [OF s l, of "[ErrStage]"] s l t by (simp add: ApplyPatchStream_def)
    qed
  qed
qed

text \<open>
  C25. Whatever the patch and the base are, \<open>ApplyPatchStream\<close> hands its writer at most \<open>maxOut\<close> bytes, and
  when it succeeds exactly as many as the header of the patch declares; the buffered \<open>ApplyPatch\<close> therefore
  never runs into its cap, and gives just what the streaming form writes.
\<close>

theorem ApplyPatch_bounded:
  shows "produced (ApplyPatchStream inflate base patch maxOut) \<le> max 0 maxOut \<and>
    (case ApplyPatch inflate base patch maxOut of
       Inl e \<Rightarrow> snd (ApplyPatchStream inflate base patch maxOut) = Inl e
     | Inr out \<Rightarrow>
         snd (ApplyPatchStream inflate base patch maxOut) = Inr () \<and>
         out = concat (fst (ApplyPatchStream inflate base patch maxOut)) \<and>
         int (length out) = int (read64 patch 8) \<and> int (length out) \<le> maxOut)"
proof (cases rule: ApplyPatchStream_cases [where inflate = inflate and base = base and patch = patch and maxOut = maxOut])
  case (refused e)
  then show ?thesis by (simp add: produced_def ApplyPatch_def)
next
  case (run c d x newLen ps r e)
  have "produced (ps, r) \<le> newLen"
    using apply_loop_bounded [of 0 newLen 0 base "fst (inflate c)" "fst (inflate d)" "fst (inflate x)"]
      splitPatch_declared [OF run(2)] run(3) by simp
  then have "int (length (concat ps)) \<le> maxOut"
    using splitPatch_declared [OF run(2)] by (simp add: produced_def)
  then show ?thesis
    using run(1,4) capped_all [of "[]" ps maxOut] by (simp add: produced_def ApplyPatch_def)
next
  case (whole c d x newLen ps c' d' x')
  have n: "0 \<le> newLen \<and> newLen \<le> maxOut" by (rule splitPatch_declared [OF whole(2)])
  have "produced (ps, Inr (c', d', x') :: (string \<times> string \<times> string) result) = newLen"
    using apply_loop_bounded [of 0 newLen 0 base "fst (inflate c)" "fst (inflate d)" "fst (inflate x)"] n whole(3)
    by force
  then have "int (length (concat ps)) = newLen" by (simp add: produced_def)
  moreover have "newLen = int (read64 patch 8)" by (rule splitPatch_reads [OF whole(2)])
  ultimately show ?thesis
    using n whole(7) capped_all [of "[]" ps maxOut] by (simp add: produced_def ApplyPatch_def)
qed

end
