(* ===== verification/DeltaLaws.thy ===== *)
theory DeltaLaws
  imports DeltaIndex PatchLaws
begin

text \<open>
  The generator of patches and their reader: what \<open>Diff\<close> writes, \<open>ApplyPatch\<close> turns back into the newer
  file, and the search of \<open>Diff\<close> comes to an end.
\<close>

section \<open>One entry\<close>

lemma read64_put64: "n < 2 ^ 64 \<Longrightarrow> read64 (put64 n @ bs) 0 = n"
  by (simp add: read64_def)

lemma read64_skip: "length p \<le> i \<Longrightarrow> read64 (p @ bs) i = read64 bs (i - length p)"
  by (simp add: read64_def)

lemma u64_id: "0 \<le> n \<Longrightarrow> n < 2 ^ 64 \<Longrightarrow> u64 n = nat n"
  by (simp add: u64_def)

lemma u64_less: "u64 n < 2 ^ 64"
  by (simp add: u64_def nat_less_iff)

lemma wrap64_u64: "wrap64 (int (u64 n)) = wrap64 n"
  by (simp add: wrap64_def u64_def mod_add_left_eq)

lemma readControl_control:
  assumes "0 \<le> a" "a < 2 ^ 63" "0 \<le> literal" "literal < 2 ^ 63" "- (2 ^ 63) \<le> seek" "seek < 2 ^ 63"
  shows "readControl (put_control a literal seek @ rest) = Inr (a, literal, seek, rest)"
proof -
  have reads: "read64 (put_control a literal seek @ rest) 0 = u64 a"
    "read64 (put_control a literal seek @ rest) 8 = u64 literal"
    "read64 (put_control a literal seek @ rest) 16 = u64 seek"
    using u64_less by (simp_all add: put_control_def read64_put64 read64_skip)
  have "wrap64 (int (u64 seek)) = seek"
    using assms(5,6) wrap64_id [of seek] by (simp add: wrap64_u64)
  moreover have "asLength (u64 a) = Inr a" "asLength (u64 literal) = Inr literal"
    using assms by (simp_all add: asLength_def u64_id)
  ultimately show ?thesis
    by (simp add: readControl_def reads patchControlLen_def) (simp add: put_control_def)
qed

lemma apply_entry:
  assumes small: "length base < 2 ^ 63" "newLen < 2 ^ 63"
    and fits: "0 \<le> newPos" "newPos + int (length D) + int (length E) \<le> newLen" "basePos + length D \<le> length base"
    and lands: "int basePos + int (length D) + seek = int nextPos" "nextPos \<le> length base"
    and works: "0 < length D + length E"
  obtains ps where "concat ps = addBase D base basePos @ E"
    and "apply_loop base newLen (put_control (int (length D)) (int (length E)) seek @ c) (D @ d) (E @ x) newPos (int basePos)
      = prepend ps (apply_loop base newLen c d x (newPos + int (length D) + int (length E)) (int nextPos))"
proof -
  let ?a = "int (length D)" and ?l = "int (length E)"
  have rc: "readControl (put_control ?a ?l seek @ c) = Inr (?a, ?l, seek, c)"
    using small fits lands by (intro readControl_control) auto
  obtain ps where run: "addRun base (D @ d) ?a newPos (int basePos) newLen = (ps, Inr d)"
    and ps: "concat ps = addBase D base basePos"
    using add_windows_exact [of "length D" "D @ d" basePos base] fits
    by (cases "add_windows base (D @ d) (length D) basePos") (auto simp: addRun_def)
  obtain qs where lit: "literalRun (E @ x) ?l (newPos + ?a) newLen = (qs, Inr x)" and qs: "concat qs = E"
    using literal_windows_exact [of "length E" "E @ x"] fits
    by (cases "literal_windows (E @ x) (length E)") (auto simp: literalRun_def)
  have sk: "seek_base (int (length base)) (int basePos + ?a) seek = Inr (int nextPos)"
    using lands small fits by (auto simp: seek_base_def Let_def wrap64_id)
  have "\<not> newPos \<ge> newLen" "\<not> (?a = 0 \<and> ?l = 0)"
    using works fits by linarith+
  then have "apply_loop base newLen (put_control ?a ?l seek @ c) (D @ d) (E @ x) newPos (int basePos)
      = prepend (ps @ qs) (apply_loop base newLen c d x (newPos + ?a + ?l) (int nextPos))"
    using works by (subst apply_loop.simps) (auto simp: rc run lit sk)
  then show thesis using that [of "ps @ qs"] ps qs by simp
qed

section \<open>Runs in order\<close>

fun runs_ok :: "nat \<Rightarrow> nat \<Rightarrow> nat \<Rightarrow> match list \<Rightarrow> bool" where
  "runs_ok older newer pos [] \<longleftrightarrow> pos \<le> newer"
| "runs_ok older newer pos (m # ms) \<longleftrightarrow>
     pos \<le> newStart m \<and> 1 < run m \<and> newStart m + run m \<le> newer \<and> oldStart m + run m \<le> older \<and>
     runs_ok older newer (newStart m + run m) ms"

lemma runs_ok_bound: "runs_ok older newer pos ms \<Longrightarrow> pos \<le> newer"
  by (cases ms) auto

lemma slice_join: "i \<le> j \<Longrightarrow> j \<le> k \<Longrightarrow> segment xs i j @ segment xs j k = segment xs i k"
  using take_add [of "j - i" "k - j" "drop i xs"] by (simp add: add.commute)

lemma slice_drop: "i \<le> j \<Longrightarrow> segment xs i j @ drop j xs = drop i xs"
  using append_take_drop_id [of "j - i" "drop i xs"] by (simp add: add.commute)

lemma length_slice: "j \<le> length xs \<Longrightarrow> length (segment xs i j) = j - i"
  by simp

lemma diff_restores:
  assumes "newStart m + run m \<le> length newer" "oldStart m + run m \<le> length older"
  shows "addBase (map (\<lambda>k. byte_sub (newer ! (newStart m + k)) (older ! (oldStart m + k))) [0..<run m]) older (oldStart m)
    = segment newer (newStart m) (newStart m + run m)"
  using assms by (intro nth_equalityI) (auto simp: addBase_def)

lemma loop_end [simp]: "apply_loop base newLen c d x newLen basePos = ([], Inr (c, d, x))"
  by (simp add: apply_loop.simps)

lemma lead_in_applies:
  assumes small: "length older < 2 ^ 63" "length newer < 2 ^ 63"
    and ok: "newPos \<le> newStart m" "1 < run m" "newStart m + run m \<le> length newer"
      "oldStart m + run m \<le> length older" "basePos \<le> length older"
    and lead: "lead_in newer newPos basePos m = ((c1, d1, x1), p, b, m')"
  shows "p = newStart m'" and "b = oldStart m'" and "0 < run m'"
    and "newStart m' + run m' = newStart m + run m" and "oldStart m' + run m' = oldStart m + run m"
    and "newPos \<le> p"
    and "\<exists>ps. concat ps = segment newer newPos p \<and>
      apply_loop older (int (length newer)) (c1 @ c) (d1 @ d) (x1 @ x) (int newPos) (int basePos)
        = prepend ps (apply_loop older (int (length newer)) c d x (int p) (int b))"
proof -
  have cases: "(p = newStart m' \<and> b = oldStart m' \<and> 0 < run m' \<and> newStart m' + run m' = newStart m + run m
      \<and> oldStart m' + run m' = oldStart m + run m \<and> newPos \<le> p) \<and>
      (c1 = [] \<and> d1 = [] \<and> x1 = [] \<and> p = newPos \<and> b = basePos
       \<or> d1 = [] \<and> x1 = segment newer newPos p \<and> newPos < p
          \<and> c1 = put_control 0 (int (length x1)) (int b - int basePos))"
    using lead ok by (auto simp: lead_in_def Let_def take_Suc_conv_app_nth split: if_splits)
  then show "p = newStart m'" "b = oldStart m'" "0 < run m'"
    "newStart m' + run m' = newStart m + run m" "oldStart m' + run m' = oldStart m + run m" "newPos \<le> p"
    by auto
  from cases consider (none) "c1 = []" "d1 = []" "x1 = []" "p = newPos" "b = basePos"
    | (entry) "d1 = []" "x1 = segment newer newPos p" "newPos < p"
        "c1 = put_control 0 (int (length x1)) (int b - int basePos)" by blast
  then show "\<exists>ps. concat ps = segment newer newPos p \<and>
      apply_loop older (int (length newer)) (c1 @ c) (d1 @ d) (x1 @ x) (int newPos) (int basePos)
        = prepend ps (apply_loop older (int (length newer)) c d x (int p) (int b))"
  proof cases
    case none
    then show ?thesis by (intro exI [of _ "[]"]) (simp add: prepend_def)
  next
    case entry
    have bounds: "p \<le> length newer" "b \<le> length older" using cases ok by auto
    then have "length x1 = p - newPos" using entry by simp
    with apply_entry [of older "int (length newer)" "int newPos" "[]" x1 basePos "int b - int basePos" b c d x]
      small ok entry(3) bounds
    obtain ps where "concat ps = addBase [] older basePos @ x1"
      "apply_loop older (int (length newer)) (put_control (int (length [])) (int (length x1)) (int b - int basePos) @ c)
          ([] @ d) (x1 @ x) (int newPos) (int basePos)
        = prepend ps (apply_loop older (int (length newer)) c d x (int newPos + int (length []) + int (length x1)) (int b))"
      by auto
    then show ?thesis
      using entry \<open>length x1 = p - newPos\<close> by (intro exI [of _ ps]) (simp add: addBase_def)
  qed
qed

lemma encode_runs_applies:
  assumes small: "length older < 2 ^ 63" "length newer < 2 ^ 63"
  shows "runs_ok (length older) (length newer) newPos ms \<Longrightarrow> basePos \<le> length older \<Longrightarrow>
    encode_runs older newer newPos basePos ms = (c, d, x) \<Longrightarrow>
    \<exists>ps. apply_loop older (int (length newer)) c d x (int newPos) (int basePos) = (ps, Inr ([], [], []))
      \<and> concat ps = drop newPos newer"
proof (induction ms arbitrary: newPos basePos c d x)
  case Nil
  show ?case
  proof (cases "newPos < length newer")
    case True
    obtain ps where "concat ps = drop newPos newer"
      and "apply_loop older (int (length newer)) (put_control 0 (int (length newer) - int newPos) 0) [] (drop newPos newer)
          (int newPos) (int basePos) = prepend ps (apply_loop older (int (length newer)) [] [] [] (int (length newer)) (int basePos))"
      using apply_entry [of older "int (length newer)" "int newPos" "[]" "drop newPos newer" basePos 0 basePos "[]" "[]" "[]"]
        small True Nil(2) by (auto simp: addBase_def)
    with True Nil(3) show ?thesis by (auto simp: prepend_def)
  qed (use Nil in auto)
next
  case (Cons m ms)
  obtain c1 d1 x1 p b m' where lead: "lead_in newer newPos basePos m = ((c1, d1, x1), p, b, m')"
    by (metis prod_cases3)
  from Cons.prems(1) have ok: "newPos \<le> newStart m" "1 < run m" "newStart m + run m \<le> length newer"
    "oldStart m + run m \<le> length older" "runs_ok (length older) (length newer) (newStart m + run m) ms" by auto
  note l = lead_in_applies [OF small ok(1-4) Cons.prems(2) lead]
  define diff where "diff = map (\<lambda>k. byte_sub (newer ! (newStart m' + k)) (older ! (oldStart m' + k))) [0..<run m']"
  define tail where "tail = (case ms of [] \<Rightarrow> length newer | n # _ \<Rightarrow> newStart n)"
  define seek where "seek = (case ms of [] \<Rightarrow> 0 | n # _ \<Rightarrow> int (oldStart n) - int (b + run m'))"
  define landing where "landing = nat (int (b + run m') + seek)"
  obtain c3 d3 x3 where e: "encode_runs older newer tail landing ms = (c3, d3, x3)" by (metis prod_cases3)
  have parts: "c = c1 @ put_control (int (run m')) (int tail - int (p + run m')) seek @ c3"
    "d = d1 @ diff @ d3" "x = x1 @ segment newer (p + run m') tail @ x3"
    using Cons.prems(3)
    unfolding encode_runs.simps lead prod.case Let_def diff_def [symmetric] tail_def [symmetric]
      seek_def [symmetric] landing_def [symmetric] e streams_append.simps by blast+
  have tail: "p + run m' \<le> tail" "tail \<le> length newer" "runs_ok (length older) (length newer) tail ms"
    using ok(3,5) l(1,4) by (auto simp: tail_def split: list.splits)
  have landing: "int (b + run m') + seek = int landing" "landing \<le> length older"
    using ok(4,5) l(2,5) by (auto simp: landing_def seek_def split: list.splits)
  obtain ps1 where ps1: "concat ps1 = segment newer newPos p"
    and run1: "apply_loop older (int (length newer)) c d x (int newPos) (int basePos) = prepend ps1
      (apply_loop older (int (length newer)) (put_control (int (run m')) (int tail - int (p + run m')) seek @ c3)
        (diff @ d3) (segment newer (p + run m') tail @ x3) (int p) (int b))"
    using l(7) unfolding parts by blast
  have lens: "length diff = run m'" "length (segment newer (p + run m') tail) = tail - (p + run m')"
    using tail by (auto simp: diff_def)
  obtain ps2 where ps2: "concat ps2 = addBase diff older b @ segment newer (p + run m') tail"
    and run2: "apply_loop older (int (length newer))
        (put_control (int (length diff)) (int (length (segment newer (p + run m') tail))) seek @ c3)
        (diff @ d3) (segment newer (p + run m') tail @ x3) (int p) (int b) = prepend ps2
      (apply_loop older (int (length newer)) c3 d3 x3
        (int p + int (length diff) + int (length (segment newer (p + run m') tail))) (int landing))"
    using apply_entry [of older "int (length newer)" "int p" diff "segment newer (p + run m') tail" b seek landing c3 d3 x3]
      small tail landing l(1-5) ok lens by auto
  obtain ps3 where run3: "apply_loop older (int (length newer)) c3 d3 x3 (int tail) (int landing) = (ps3, Inr ([], [], []))"
    and ps3: "concat ps3 = drop tail newer"
    using Cons.IH [OF tail(3) landing(2) e] by blast
  have at_tail: "int p + int (length diff) + int (length (segment newer (p + run m') tail)) = int tail"
    and lit: "int tail - int (p + run m') = int (length (segment newer (p + run m') tail))"
    and dl: "int (run m') = int (length diff)"
    using lens tail by auto
  have "addBase diff older b = segment newer p (p + run m')"
    using diff_restores [of m' newer older] l(1,2,4,5) ok by (simp add: diff_def)
  then have "concat (ps1 @ ps2 @ ps3) = drop newPos newer"
    using l(6) tail slice_drop [of p "p + run m'" newer] slice_drop [of newPos p newer]
    by (simp add: ps1 ps2 ps3 slice_drop)
  moreover have "apply_loop older (int (length newer)) c d x (int newPos) (int basePos) = (ps1 @ ps2 @ ps3, Inr ([], [], []))"
    unfolding run1 lit dl run2 at_tail run3 by (simp add: prepend_def)
  ultimately show ?case by blast
qed

section \<open>The search\<close>

lemma grow_back_ok:
  "covered \<le> start \<Longrightarrow> grow_back older newer covered start at = (start', at') \<Longrightarrow>
   covered \<le> start' \<and> start' \<le> start \<and> at' + (start - start') = at"
proof (induction older newer covered start at rule: grow_back.induct)
  case (1 older newer covered start at)
  show ?case
  proof (cases "start > covered \<and> at > 0 \<and> newer ! (start - 1) = older ! (at - 1)")
    case True
    with 1 have "grow_back older newer covered (start - 1) (at - 1) = (start', at')"
      by (simp add: grow_back.simps [of _ _ _ start])
    moreover have "covered \<le> start - 1" using True by linarith
    ultimately have "covered \<le> start' \<and> start' \<le> start - 1 \<and> at' + (start - 1 - start') = at - 1"
      using 1(1) [OF True] by blast
    with True show ?thesis by linarith
  next
    case False
    with 1(2,3) show ?thesis by (simp add: grow_back.simps [of _ _ _ start] split: if_splits)
  qed
qed

lemma agreeing_last: "agreeing older newer end oldEnd n \<noteq> [] \<Longrightarrow> last (agreeing older newer end oldEnd n) < n"
  using last_in_set [of "agreeing older newer end oldEnd n"] by (auto simp: agreeing_def)

lemma grow_on_ok:
  "final \<le> end \<Longrightarrow> end \<le> length newer \<Longrightarrow> oldEnd \<le> length older \<Longrightarrow>
   final \<le> grow_on older newer end oldEnd final \<and> grow_on older newer end oldEnd final \<le> length newer \<and>
   grow_on older newer end oldEnd final + oldEnd \<le> length older + end"
proof (induction older newer "end" oldEnd final rule: grow_on.induct)
  case (1 older newer "end" oldEnd final)
  define n where "n = min window (min (length newer - end) (length older - oldEnd))"
  define ks where "ks = agreeing older newer end oldEnd n"
  define final' where "final' = (if ks = [] then final else end + last ks + 1)"
  show ?case
  proof (cases "(end < length newer \<and> oldEnd < length older) \<and> \<not> length ks * window < windowMatches * n")
    case True
    then have step: "grow_on older newer end oldEnd final = grow_on older newer (end + n) (oldEnd + n) final'"
      unfolding n_def ks_def final'_def by (subst grow_on.simps) (simp only: Let_def simp_thms if_True if_False)
    have "final \<le> final'" "final' \<le> end + n"
      using 1(2) agreeing_last [of older newer "end" oldEnd n] by (auto simp: final'_def ks_def)
    moreover have "end + n \<le> length newer" "oldEnd + n \<le> length older" using 1(3,4) by (auto simp: n_def)
    ultimately show ?thesis
      using 1(1) [OF _ n_def ks_def, folded final'_def] True step by auto
  next
    case False
    then have "grow_on older newer end oldEnd final = final"
      unfolding n_def ks_def by (subst grow_on.simps) (auto simp: Let_def)
    with 1(2-4) show ?thesis by simp
  qed
qed

lemma grow_ok:
  assumes "covered \<le> newAt" "newAt + blockSize \<le> length newer" "oldAt + blockSize \<le> length older"
  defines "m \<equiv> grow older newer oldAt newAt covered"
  shows "covered \<le> newStart m" and "blockSize \<le> run m" and "newStart m + run m \<le> length newer"
    and "oldStart m + run m \<le> length older"
proof -
  obtain start at where bk: "grow_back older newer covered newAt oldAt = (start, at)" by fastforce
  define final where "final = grow_on older newer (newAt + blockSize) (oldAt + blockSize) (newAt + blockSize)"
  have m: "m = \<lparr>newStart = start, oldStart = at, run = final - start\<rparr>"
    by (simp add: m_def grow_def bk final_def)
  have "newAt + blockSize \<le> final" "final \<le> length newer"
    "final + (oldAt + blockSize) \<le> length older + (newAt + blockSize)"
    using grow_on_ok [of "newAt + blockSize" "newAt + blockSize" newer "oldAt + blockSize" older] assms(2,3)
    by (auto simp: final_def)
  with grow_back_ok [OF assms(1) bk]
  show "covered \<le> newStart m" "blockSize \<le> run m" "newStart m + run m \<le> length newer" "oldStart m + run m \<le> length older"
    by (auto simp: m)
qed

lemma ix_lookup_ok:
  assumes "ix_lookup ix h older block = Some (Some at)" "length block = blockSize"
  shows "segment older at (at + blockSize) = block" and "at + blockSize \<le> length older"
proof -
  show eq: "segment older at (at + blockSize) = block"
    using assms(1) by (auto simp: ix_lookup_def Let_def split: option.splits if_splits)
  have "length (segment older at (at + blockSize)) = blockSize" unfolding eq by (rule assms(2))
  then show "at + blockSize \<le> length older" by (auto simp: blockSize_def)
qed

lemma scan_runs_ok:
  "scan_runs ix older newer h i covered = Some ms \<Longrightarrow> i + blockSize \<le> length newer \<Longrightarrow> covered \<le> length newer \<Longrightarrow>
   runs_ok (length older) (length newer) covered ms"
proof (induction ix older newer h i covered arbitrary: ms rule: scan_runs.induct)
  case (1 ix older newer h i covered)
  define rest where "rest covered = (if i + blockSize \<ge> length newer then Some []
      else scan_runs ix older newer (roll h (newer ! i) (newer ! (i + blockSize))) (i + 1) covered)" for covered
  have rest_ok: "runs_ok (length older) (length newer) covered' ms'"
    if "rest covered' = Some ms'" "covered' \<le> length newer" for covered' ms'
    using that 1(1) [of covered' ms'] by (auto simp: rest_def split: if_splits)
  have step: "scan_runs ix older newer h i covered =
      (if i \<ge> covered then
        (case ix_lookup ix h older (segment newer i (i + blockSize)) of
           None \<Rightarrow> None
         | Some None \<Rightarrow> rest covered
         | Some (Some at) \<Rightarrow> map_option (Cons (grow older newer at i covered))
             (rest (newStart (grow older newer at i covered) + run (grow older newer at i covered))))
      else rest covered)"
    unfolding rest_def by (subst scan_runs.simps) (simp only: Let_def)
  consider "rest covered = Some ms"
    | (found) at ns where "i \<ge> covered" "ix_lookup ix h older (segment newer i (i + blockSize)) = Some (Some at)"
      "ms = grow older newer at i covered # ns"
      "rest (newStart (grow older newer at i covered) + run (grow older newer at i covered)) = Some ns"
    using 1(2) by (auto simp: step split: if_splits option.splits)
  then show ?case
  proof cases
    case found
    have "at + blockSize \<le> length older"
      using 1(3) by (intro ix_lookup_ok(2) [OF found(2)]) simp
    note g = grow_ok [OF found(1) 1(3) this]
    from rest_ok [OF found(4) g(3)] g found(3) show ?thesis by (simp add: blockSize_def)
  qed (use rest_ok 1(4) in blast)
qed

lemma matches_ok: "matches older newer = Some ms \<Longrightarrow> runs_ok (length older) (length newer) 0 ms"
  using scan_runs_ok by (auto simp: matches_def bind_eq_Some_conv split: if_splits)

section \<open>The round trip\<close>

lemma splitPatch_assemble:
  assumes "length (assemble deflate n (ctrl, diff, extra)) < 2 ^ 63" "n < 2 ^ 63" "int n \<le> maxOut"
  shows "splitPatch (assemble deflate n (ctrl, diff, extra)) maxOut
    = Inr (deflate ctrl, deflate diff, deflate extra, int n)"
proof -
  let ?p = "assemble deflate n (ctrl, diff, extra)"
  have len: "length (deflate ctrl) < 2 ^ 63" "length (deflate diff) < 2 ^ 63"
    using assms(1) by (auto simp: assemble_def)
  have head: "drop (length patchMagic) (take patchHeaderLen ?p)
      = put64 n @ put64 (length (deflate ctrl)) @ put64 (length (deflate diff))"
    "take (length patchMagic) (take patchHeaderLen ?p) = patchMagic"
    "drop patchHeaderLen ?p = deflate ctrl @ deflate diff @ deflate extra"
    "\<not> length ?p < patchHeaderLen"
    by (simp_all add: assemble_def magic_def patchMagic_def patchHeaderLen_def)
  have reads: "read64 (put64 n @ put64 (length (deflate ctrl)) @ put64 (length (deflate diff))) 0 = n"
    "read64 (put64 n @ put64 (length (deflate ctrl)) @ put64 (length (deflate diff))) 8 = length (deflate ctrl)"
    "read64 (put64 n @ put64 (length (deflate ctrl)) @ put64 (length (deflate diff))) 16 = length (deflate diff)"
    using assms(2) len read64_put64 [of "length (deflate diff)" "[]"]
    by (simp_all add: read64_put64 read64_skip)
  have "asLength n = Inr (int n)" "asLength (length (deflate ctrl)) = Inr (int (length (deflate ctrl)))"
    "asLength (length (deflate diff)) = Inr (int (length (deflate diff)))"
    using assms(2) len by (simp_all add: asLength_def)
  with assms(3) show ?thesis
    unfolding splitPatch_def Let_def head(1-3) reads using head(4) by simp
qed

text \<open>
  C24. A patch that \<open>Diff\<close> makes is turned back by \<open>ApplyPatch\<close>: applied to the older file it gives the newer
  one, byte for byte, whatever the two files are.  \<open>Diff\<close> always ends.  What is used of the compressor is
  that a stream it has written reads back as it was, to a clean end and with no byte left over.
\<close>

theorem Diff_ApplyPatch:
  assumes flate: "\<And>x. inflate (deflate x) = (x, Some 0)"
    and sizes: "length older < 2 ^ 63" "length newer < 2 ^ 63"
    and bound: "newer \<noteq> []" "int (length newer) \<le> maxOut"
  shows "\<exists>patch. Diff deflate older newer = Some patch \<and>
    (length patch < 2 ^ 63 \<longrightarrow> ApplyPatch inflate older patch maxOut = Inr newer)"
proof -
  obtain ms where ms: "matches older newer = Some ms" using matches_total [OF sizes(1)] by blast
  obtain c d x where e: "encode_runs older newer 0 0 ms = (c, d, x)" by (metis prod_cases3)
  define patch where "patch = assemble deflate (length newer) (c, d, x)"
  have diff: "Diff deflate older newer = Some patch" by (simp add: Diff_def encode_def ms e patch_def)
  obtain ps where run: "apply_loop older (int (length newer)) c d x 0 0 = (ps, Inr ([], [], []))"
    and ps: "concat ps = newer"
    using encode_runs_applies [OF sizes matches_ok [OF ms] _ e] by auto
  have "ApplyPatch inflate older patch maxOut = Inr newer" if "length patch < 2 ^ 63"
  proof -
    have "splitPatch patch maxOut = Inr (deflate c, deflate d, deflate x, int (length newer))"
      using that sizes(2) bound(2) unfolding patch_def by (rule splitPatch_assemble)
    moreover have "0 < maxOut" using bound by (cases newer) auto
    ultimately have "ApplyPatchStream inflate older patch maxOut = (ps, Inr ())"
      by (simp add: ApplyPatchStream_def flate run ends_cleanly_def)
    with capped_all [of "[]" ps maxOut] ps bound(2) show ?thesis by (simp add: ApplyPatch_def)
  qed
  with diff show ?thesis by blast
qed

theorem Diff_ApplyPatch_witness:
  "\<exists>patch. Diff id ''an older file'' ''a newer file'' = Some patch \<and>
    (length patch < 2 ^ 63 \<longrightarrow> ApplyPatch (\<lambda>x. (x, Some 0)) ''an older file'' patch 12 = Inr ''a newer file'')"
  by (rule Diff_ApplyPatch) simp_all

end
