(* ===== verification/Route.thy ===== *)
theory Route
  imports Release Patch
begin

text \<open>
  \<open>core/stage/route.go\<close>, its decisions: which patches to take from an older payload to a newer one.

  The signed length of a target (\<open>TargetLength\<close> of the trust client) is a parameter.  Costs are Go's
  \<open>int64\<close>, whose sums wrap.
\<close>

record hop =
  h_patch :: string
  h_to :: string

fun collapse_from :: "string list \<Rightarrow> string list \<Rightarrow> string list" where
  "collapse_from out [] = out"
| "collapse_from out (target # ts) =
     collapse_from (if out = [] \<or> last out \<noteq> target then out @ [target] else out) ts"

definition collapse :: "string list \<Rightarrow> string list" where
  "collapse lineage = collapse_from [] lineage"

section \<open>The cheapest hops\<close>

text \<open>
  The state of the search: the cost of each payload of the lineage, where \<^term>\<open>MaxInt64\<close> stands for one not
  reached, and the payload it is reached from, or -1.
\<close>

type_synonym costs = "int list \<times> int list"

definition start_costs :: "nat \<Rightarrow> costs" where
  "start_costs n = (0 # replicate (n - 1) MaxInt64, 0 # replicate (n - 1) (-1))"

text \<open>The body of the inner loop.\<close>

definition relax :: "(string \<Rightarrow> int result) \<Rightarrow> string list \<Rightarrow> nat \<Rightarrow> nat \<Rightarrow> costs \<Rightarrow> costs" where
  "relax TargetLength lineage i j s =
     (case s of (cost, from) \<Rightarrow>
        (case PatchPath (lineage ! i) (lineage ! j) of
           None \<Rightarrow> (cost, from)
         | Some patch \<Rightarrow> (case TargetLength patch of
             Inl _ \<Rightarrow> (cost, from)
           | Inr len \<Rightarrow>
               if len \<le> 0 then (cost, from)
               else let total = wrap64 (cost ! i + len) in
                 if total < cost ! j then (cost[j := total], from[j := int i]) else (cost, from))))"

definition relax_row :: "(string \<Rightarrow> int result) \<Rightarrow> string list \<Rightarrow> nat \<Rightarrow> costs \<Rightarrow> costs" where
  "relax_row TargetLength lineage i s =
     (if fst s ! i = MaxInt64 then s
      else fold (relax TargetLength lineage i) [i + 1..<length lineage] s)"

definition relax_all :: "(string \<Rightarrow> int result) \<Rightarrow> string list \<Rightarrow> costs" where
  "relax_all TargetLength lineage =
     fold (relax_row TargetLength lineage) [0..<length lineage - 1] (start_costs (length lineage))"

text \<open>
  The walk back along \<open>from\<close>, latest hop first.  Each step goes to a payload before, so as many steps as
  the lineage is long are enough.
\<close>

fun walk_back :: "string list \<Rightarrow> int list \<Rightarrow> nat \<Rightarrow> int \<Rightarrow> hop list" where
  "walk_back lineage from 0 j = []"
| "walk_back lineage from (Suc k) j =
     (if j > 0 then
        \<lparr>h_patch = (case PatchPath (lineage ! nat (from ! nat j)) (lineage ! nat j) of None \<Rightarrow> [] | Some p \<Rightarrow> p),
         h_to = lineage ! nat j\<rparr>
        # walk_back lineage from k (from ! nat j)
      else [])"

definition cheapest :: "string list \<Rightarrow> (string \<Rightarrow> int result) \<Rightarrow> hop list \<times> int" where
  "cheapest lineage TargetLength =
     (case relax_all TargetLength lineage of (cost, from) \<Rightarrow>
        let n = length lineage in
        if cost ! (n - 1) = MaxInt64 then ([], 0)
        else (rev (walk_back lineage from n (int n - 1)), cost ! (n - 1)))"

section \<open>The paths of a lineage\<close>

text \<open>The length of the patch from one payload to another, where there is one to take.\<close>

definition edge :: "(string \<Rightarrow> int result) \<Rightarrow> string list \<Rightarrow> nat \<Rightarrow> nat \<Rightarrow> int option" where
  "edge TargetLength lineage i j =
     (case PatchPath (lineage ! i) (lineage ! j) of
        None \<Rightarrow> None
      | Some patch \<Rightarrow> (case TargetLength patch of
          Inl _ \<Rightarrow> None
        | Inr len \<Rightarrow> if len \<le> 0 then None else Some len))"

text \<open>\<open>route_cost TL l i ps\<close>: what the patches from payload \<open>i\<close> along the later payloads \<open>ps\<close> come to.\<close>

fun route_cost :: "(string \<Rightarrow> int result) \<Rightarrow> string list \<Rightarrow> nat \<Rightarrow> nat list \<Rightarrow> int option" where
  "route_cost TL l i [] = Some 0"
| "route_cost TL l i (j # js) =
     (if i < j then
        (case edge TL l i j of
           None \<Rightarrow> None
         | Some c \<Rightarrow> (case route_cost TL l j js of None \<Rightarrow> None | Some d \<Rightarrow> Some (c + d)))
      else None)"

fun route_hops :: "string list \<Rightarrow> nat \<Rightarrow> nat list \<Rightarrow> hop list" where
  "route_hops l i [] = []"
| "route_hops l i (j # js) =
     \<lparr>h_patch = (case PatchPath (l ! i) (l ! j) of None \<Rightarrow> [] | Some p \<Rightarrow> p), h_to = l ! j\<rparr> # route_hops l j js"

end
