(* ===== verification/RouteLaws.thy ===== *)
theory RouteLaws
  imports Route
begin

text \<open>
  The hops \<open>cheapest\<close> picks are a cheapest path: the search over the costs keeps, for every payload, the
  least cost of a path that comes through the payloads handled so far.
\<close>

section \<open>One row\<close>

lemma relax_edge:
  "relax TL l i j (cost, from) =
     (case edge TL l i j of
        None \<Rightarrow> (cost, from)
      | Some e \<Rightarrow> if wrap64 (cost ! i + e) < cost ! j
          then (cost[j := wrap64 (cost ! i + e)], from[j := int i]) else (cost, from))"
  by (auto simp: relax_def edge_def Let_def split: option.split sum.split)

definition better :: "(string \<Rightarrow> int result) \<Rightarrow> string list \<Rightarrow> int \<Rightarrow> nat \<Rightarrow> nat \<Rightarrow> int \<times> int \<Rightarrow> int \<times> int" where
  "better TL l ci i j cf =
     (case edge TL l i j of
        None \<Rightarrow> cf
      | Some e \<Rightarrow> if wrap64 (ci + e) < fst cf then (wrap64 (ci + e), int i) else cf)"

lemma fold_relax:
  "distinct js \<Longrightarrow> i \<notin> set js \<Longrightarrow> \<forall>j\<in>set js. j < n \<Longrightarrow> length cost = n \<Longrightarrow> length from = n \<Longrightarrow>
   fold (relax TL l i) js (cost, from) = (cost', from') \<Longrightarrow>
   length cost' = n \<and> length from' = n \<and>
   (\<forall>j. (cost' ! j, from' ! j) =
      (if j \<in> set js then better TL l (cost ! i) i j (cost ! j, from ! j) else (cost ! j, from ! j)))"
proof (induction js arbitrary: cost "from")
  case (Cons a js)
  obtain cost1 from1 where r: "relax TL l i a (cost, from) = (cost1, from1)" by fastforce
  have one: "length cost1 = n \<and> length from1 = n \<and> cost1 ! i = cost ! i \<and>
      (cost1 ! a, from1 ! a) = better TL l (cost ! i) i a (cost ! a, from ! a) \<and>
      (\<forall>j. j \<noteq> a \<longrightarrow> cost1 ! j = cost ! j \<and> from1 ! j = from ! j)"
    using r Cons.prems by (auto simp: relax_edge better_def split: option.splits if_splits)
  from Cons.IH [of cost1 from1] Cons.prems r one
  have "length cost' = n \<and> length from' = n \<and>
   (\<forall>j. (cost' ! j, from' ! j) =
      (if j \<in> set js then better TL l (cost1 ! i) i j (cost1 ! j, from1 ! j) else (cost1 ! j, from1 ! j)))"
    by simp
  moreover have "a \<notin> set js" using Cons.prems(1) by simp
  ultimately show ?case using one by (metis list.set_intros(1,2) set_ConsD)
qed simp

section \<open>The invariant of the search\<close>

text \<open>
  \<open>searched TL l B n i s\<close>: the state after the rows below \<open>i\<close>, when no patch is longer than \<open>B\<close>.  A cost that is set
  is the cost of a payload before and of the patch from it, and no payload handled so far offers less.
\<close>

definition searched :: "(string \<Rightarrow> int result) \<Rightarrow> string list \<Rightarrow> int \<Rightarrow> nat \<Rightarrow> nat \<Rightarrow> costs \<Rightarrow> bool" where
  "searched TL l B n i s \<longleftrightarrow> (case s of (cost, from) \<Rightarrow>
     length cost = n \<and> length from = n \<and> cost ! 0 = 0 \<and>
     (\<forall>j<n. 0 \<le> cost ! j \<and> (cost ! j = MaxInt64 \<or> cost ! j \<le> int j * B)) \<and>
     (\<forall>j<n. 0 < j \<and> cost ! j \<noteq> MaxInt64 \<longrightarrow>
        (\<exists>p e. p < i \<and> p < j \<and> from ! j = int p \<and> cost ! p \<noteq> MaxInt64 \<and> edge TL l p j = Some e
          \<and> cost ! j = cost ! p + e)) \<and>
     (\<forall>p j e. p < i \<and> p < j \<and> j < n \<and> cost ! p \<noteq> MaxInt64 \<and> edge TL l p j = Some e \<longrightarrow>
        cost ! j \<noteq> MaxInt64 \<and> cost ! j \<le> cost ! p + e))"

definition patches_bounded :: "(string \<Rightarrow> int result) \<Rightarrow> string list \<Rightarrow> int \<Rightarrow> bool" where
  "patches_bounded TL l B \<longleftrightarrow> 0 \<le> B \<and> int (length l) * B < MaxInt64 \<and>
     (\<forall>i j e. i < j \<and> j < length l \<and> edge TL l i j = Some e \<longrightarrow> e \<le> B)"

lemma edge_pos: "edge TL l i j = Some e \<Longrightarrow> 0 < e"
  by (auto simp: edge_def split: option.splits sum.splits if_splits)

lemma searched_start: "n = length l \<Longrightarrow> 0 < n \<Longrightarrow> patches_bounded TL l B \<Longrightarrow> searched TL l B n 0 (start_costs n)"
  by (auto simp: searched_def start_costs_def nth_Cons' patches_bounded_def)

lemma searched_row:
  assumes s: "searched TL l B n i s" and n: "n = length l" "i < n - 1" and B: "patches_bounded TL l B"
  shows "searched TL l B n (Suc i) (relax_row TL l i s)"
proof -
  obtain cost "from" where s_eq: "s = (cost, from)" by fastforce
  from s have lens: "length cost = n" "length from = n" and c0: "cost ! 0 = 0"
    and range: "\<And>j. j < n \<Longrightarrow> 0 \<le> cost ! j \<and> (cost ! j = MaxInt64 \<or> cost ! j \<le> int j * B)"
    and pred: "\<And>j. j < n \<Longrightarrow> 0 < j \<Longrightarrow> cost ! j \<noteq> MaxInt64 \<Longrightarrow>
        \<exists>p e. p < i \<and> p < j \<and> from ! j = int p \<and> cost ! p \<noteq> MaxInt64 \<and> edge TL l p j = Some e \<and> cost ! j = cost ! p + e"
    and best: "\<And>p j e. p < i \<Longrightarrow> p < j \<Longrightarrow> j < n \<Longrightarrow> cost ! p \<noteq> MaxInt64 \<Longrightarrow> edge TL l p j = Some e \<Longrightarrow>
        cost ! j \<noteq> MaxInt64 \<and> cost ! j \<le> cost ! p + e"
    unfolding searched_def s_eq by auto
  show ?thesis
  proof (cases "cost ! i = MaxInt64")
    case True
    then have "relax_row TL l i s = s" by (simp add: relax_row_def s_eq)
    with s True show ?thesis by (auto simp: searched_def s_eq less_Suc_eq)
  next
    case False
    obtain cost' from' where r: "relax_row TL l i s = (cost', from')" by fastforce
    then have f: "fold (relax TL l i) [i + 1..<length l] (cost, from) = (cost', from')"
      using False by (simp add: relax_row_def s_eq)
    have upd: "length cost' = n \<and> length from' = n \<and>
       (\<forall>j. (cost' ! j, from' ! j) =
          (if j \<in> set [i + 1..<length l] then better TL l (cost ! i) i j (cost ! j, from ! j) else (cost ! j, from ! j)))"
      by (rule fold_relax [OF _ _ _ lens f]) (auto simp: n)
    have same: "cost' ! j = cost ! j" "from' ! j = from ! j" if "j \<le> i" for j
      using upd [THEN conjunct2, THEN conjunct2, rule_format, of j] that by auto
    have ci: "0 \<le> cost ! i" "cost ! i \<le> int i * B" using range [of i] False n by auto
    have room: "wrap64 (cost ! i + e) = cost ! i + e" "cost ! i + e \<le> int j * B" "cost ! i + e < MaxInt64"
      if "edge TL l i j = Some e" "i < j" "j < n" for j e
    proof -
      have e: "0 < e" "e \<le> B" using that B n edge_pos unfolding patches_bounded_def by auto
      have "(int i + 1) * B \<le> int j * B" using that(2) B by (intro mult_right_mono) (auto simp: patches_bounded_def)
      then have "int i * B + B \<le> int j * B" by (simp add: distrib_right)
      then show "cost ! i + e \<le> int j * B" using ci e by linarith
      moreover have "int j * B \<le> int (length l) * B" using that(3) n B by (auto simp: patches_bounded_def intro: mult_right_mono)
      ultimately show "cost ! i + e < MaxInt64" using B by (auto simp: patches_bounded_def)
      then show "wrap64 (cost ! i + e) = cost ! i + e" using ci e by (intro wrap64_id) auto
    qed
    have new: "if (\<exists>e. edge TL l i j = Some e \<and> cost ! i + e < cost ! j)
        then cost' ! j = cost ! i + the (edge TL l i j) \<and> from' ! j = int i
        else cost' ! j = cost ! j \<and> from' ! j = from ! j" if "i < j" "j < n" for j
      using upd [THEN conjunct2, THEN conjunct2, rule_format, of j] that n room [of j]
      by (auto simp: better_def split: option.splits if_splits)
    have range': "0 \<le> cost' ! j \<and> (cost' ! j = MaxInt64 \<or> cost' ! j \<le> int j * B)" if "j < n" for j
      using that range [of j] new [of j] same [of j] room(2) [of j] ci edge_pos [of TL l i j]
      by (cases "i < j") (force split: if_splits)+
    have pred': "\<exists>p e. p < Suc i \<and> p < j \<and> from' ! j = int p \<and> cost' ! p \<noteq> MaxInt64 \<and> edge TL l p j = Some e
        \<and> cost' ! j = cost' ! p + e" if j: "j < n" "0 < j" "cost' ! j \<noteq> MaxInt64" for j
    proof (cases "i < j \<and> (\<exists>e. edge TL l i j = Some e \<and> cost ! i + e < cost ! j)")
      case True
      then show ?thesis using new [of j] j same [of i] False by (intro exI [of _ i]) auto
    next
      case nope: False
      then have "cost' ! j = cost ! j" "from' ! j = from ! j"
        using new [of j] same [of j] j by (cases "i < j"; auto simp: not_less split: if_splits)+
      with pred [of j] j obtain p e where "p < i" "p < j" "from' ! j = int p" "cost ! p \<noteq> MaxInt64"
        "edge TL l p j = Some e" "cost' ! j = cost ! p + e" by auto
      then show ?thesis using same [of p] by (intro exI [of _ p] exI [of _ e]) auto
    qed
    have best': "cost' ! j \<noteq> MaxInt64 \<and> cost' ! j \<le> cost' ! p + e"
      if p: "p < Suc i" "p < j" "j < n" "cost' ! p \<noteq> MaxInt64" "edge TL l p j = Some e" for p j e
    proof (cases "p = i")
      case True
      then show ?thesis using p new [of j] same [of i] room(3) [of j e] range [of j] by (auto split: if_splits)
    next
      case False
      then have "cost ! j \<noteq> MaxInt64 \<and> cost ! j \<le> cost ! p + e" "cost' ! p = cost ! p"
        using best [of p j e] same [of p] p by auto
      then show ?thesis using new [of j] same [of j] p room(3) [of j]
        by (cases "i < j") (force split: if_splits)+
    qed
    show ?thesis
      using upd range' pred' best' c0 same [of 0] unfolding searched_def r by auto
  qed
qed

section \<open>The result\<close>

lemma searched_all:
  assumes "n = length l" "0 < n" "patches_bounded TL l B"
  shows "searched TL l B n (n - 1) (relax_all TL l)"
proof -
  have "i \<le> n - 1 \<Longrightarrow> searched TL l B n i (fold (relax_row TL l) [0..<i] (start_costs n))" for i
  proof (induction i)
    case 0
    then show ?case using searched_start [OF assms] by simp
  next
    case (Suc i)
    then show ?case using searched_row [OF Suc.IH assms(1) _ assms(3)] by simp
  qed
  then show ?thesis by (simp add: relax_all_def assms(1))
qed

lemma route_cost_snoc:
  "route_cost TL l i (ps @ [j]) =
     (case route_cost TL l i ps of None \<Rightarrow> None
      | Some c \<Rightarrow> if last (i # ps) < j then (case edge TL l (last (i # ps)) j of None \<Rightarrow> None | Some e \<Rightarrow> Some (c + e))
                 else None)"
proof (induction ps arbitrary: i)
  case (Cons p ps)
  then show ?case by (auto split: option.splits)
qed (auto split: option.splits)

lemma route_hops_snoc:
  "route_hops l i (ps @ [j]) = route_hops l i ps @
     [\<lparr>h_patch = (case PatchPath (l ! last (i # ps)) (l ! j) of None \<Rightarrow> [] | Some p \<Rightarrow> p), h_to = l ! j\<rparr>]"
  by (induction ps arbitrary: i) auto

lemma searched_path:
  assumes "searched TL l B n i (cost, from)"
  shows "j < n \<Longrightarrow> cost ! j \<noteq> MaxInt64 \<Longrightarrow> j < k \<Longrightarrow>
    \<exists>ps. last (0 # ps) = j \<and> route_cost TL l 0 ps = Some (cost ! j) \<and> rev (walk_back l from k (int j)) = route_hops l 0 ps"
proof (induction j arbitrary: k rule: less_induct)
  case (less j)
  then obtain k' where k: "k = Suc k'" "j \<le> k'" by (cases k) auto
  show ?case
  proof (cases "j = 0")
    case True
    then show ?thesis using assms k by (intro exI [of _ "[]"]) (simp add: searched_def)
  next
    case False
    then obtain p e where p: "p < j" "from ! j = int p" "cost ! p \<noteq> MaxInt64" "edge TL l p j = Some e" "cost ! j = cost ! p + e"
      using assms less.prems unfolding searched_def by auto
    obtain ps where ps: "last (0 # ps) = p" "route_cost TL l 0 ps = Some (cost ! p)"
      "rev (walk_back l from k' (int p)) = route_hops l 0 ps"
      using less.IH [OF p(1), of k'] p less.prems k by auto
    have "route_cost TL l 0 (ps @ [j]) = Some (cost ! j)"
      using ps p by (simp add: route_cost_snoc)
    moreover have "rev (walk_back l from k (int j)) = route_hops l 0 (ps @ [j])"
      using False k p ps(3) unfolding route_hops_snoc ps(1) by simp
    ultimately show ?thesis by (intro exI [of _ "ps @ [j]"]) simp
  qed
qed

lemma route_cost_bound:
  assumes "searched TL l B n (n - 1) (cost, from)"
  shows "route_cost TL l 0 ps = Some c \<Longrightarrow> last (0 # ps) < n \<Longrightarrow> 0 < n \<Longrightarrow>
    cost ! last (0 # ps) \<noteq> MaxInt64 \<and> cost ! last (0 # ps) \<le> c"
proof (induction ps arbitrary: c rule: rev_induct)
  case Nil
  then show ?case using assms by (simp add: searched_def)
next
  case (snoc j ps)
  define p where "p = last (0 # ps)"
  from snoc.prems(1) obtain c' e where c: "route_cost TL l 0 ps = Some c'" "p < j" "edge TL l p j = Some e" "c = c' + e"
    unfolding route_cost_snoc p_def by (auto simp del: last.simps split: option.splits if_splits)
  have j: "j < n" using snoc.prems(2) by simp
  with snoc.IH [OF c(1)] c(2) have "cost ! p \<noteq> MaxInt64" "cost ! p \<le> c'" unfolding p_def by (auto simp del: last.simps)
  moreover have "p < n - 1" using c(2) j by simp
  ultimately have "cost ! j \<noteq> MaxInt64 \<and> cost ! j \<le> cost ! p + e"
    using assms c(2,3) j unfolding searched_def by blast
  with \<open>cost ! p \<le> c'\<close> c(4) show ?case by simp
qed

text \<open>A sequence of patches from the first payload to the last, and a cost no such sequence is below.\<close>

definition leads :: "(string \<Rightarrow> int result) \<Rightarrow> string list \<Rightarrow> nat list \<Rightarrow> int \<Rightarrow> bool" where
  "leads TL l ps c \<longleftrightarrow> last (0 # ps) = length l - 1 \<and> route_cost TL l 0 ps = Some c"

definition least_cost :: "(string \<Rightarrow> int result) \<Rightarrow> string list \<Rightarrow> int \<Rightarrow> bool" where
  "least_cost TL l c \<longleftrightarrow> (\<forall>ps c'. leads TL l ps c' \<longrightarrow> c \<le> c')"

text \<open>
  C23. \<open>cheapest\<close> finds the shortest path: when some sequence of patches leads from the first payload of the
  lineage to the last, the hops it returns are such a sequence, their lengths add up to the cost it
  returns, and no other sequence costs less; when there is none it returns no hops.  The sums do not
  overflow as long as the length of the lineage times the largest patch fits a signed 64-bit integer.
\<close>

theorem cheapest_shortest:
  assumes "2 \<le> length lineage" and "patches_bounded TargetLength lineage B"
  shows "case cheapest lineage TargetLength of (hops, cost) \<Rightarrow>
    if \<exists>ps c. leads TargetLength lineage ps c
    then (\<exists>ps. leads TargetLength lineage ps cost \<and> hops = route_hops lineage 0 ps) \<and> hops \<noteq> [] \<and>
         least_cost TargetLength lineage cost
    else hops = [] \<and> cost = 0"
proof -
  define n where "n = length lineage"
  have n: "0 < n" using assms(1) unfolding n_def by linarith
  obtain cost "from" where all: "relax_all TargetLength lineage = (cost, from)" by fastforce
  have s: "searched TargetLength lineage B n (n - 1) (cost, from)"
    using searched_all [OF n_def n assms(2)] by (simp add: all)
  have bound: "cost ! (n - 1) \<noteq> MaxInt64 \<and> cost ! (n - 1) \<le> c" if "leads TargetLength lineage ps c" for ps c
    using route_cost_bound [OF s, of ps c] that n unfolding leads_def n_def by simp
  show ?thesis
  proof (cases "cost ! (n - 1) = MaxInt64")
    case True
    then have "cheapest lineage TargetLength = ([], 0)" by (simp add: cheapest_def all n_def)
    moreover have "\<nexists>ps c. leads TargetLength lineage ps c" using bound True by blast
    ultimately show ?thesis by simp
  next
    case False
    obtain ps where ps: "last (0 # ps) = n - 1" "route_cost TargetLength lineage 0 ps = Some (cost ! (n - 1))"
      "rev (walk_back lineage from n (int (n - 1))) = route_hops lineage 0 ps"
      using searched_path [OF s _ False, of n] n by auto
    have "ps \<noteq> []" using ps(1) assms(1) by (auto simp: n_def)
    then have some: "route_hops lineage 0 ps \<noteq> []" by (cases ps) auto
    have res: "cheapest lineage TargetLength = (route_hops lineage 0 ps, cost ! (n - 1))"
      using ps(3) n False by (simp add: cheapest_def all n_def [symmetric] Let_def of_nat_diff)
    have lead: "leads TargetLength lineage ps (cost ! (n - 1))" using ps(1,2) by (simp add: leads_def n_def)
    then have ex: "\<exists>ps c. leads TargetLength lineage ps c" by blast
    show ?thesis
      unfolding res case_prod_conv if_P [OF ex] least_cost_def using lead some bound by blast
  qed
qed

text \<open>Three payloads, with a direct patch that is longer than the two patches through the middle one.\<close>

definition sample_lineage :: "string list" where
  "sample_lineage = map (\<lambda>c. ''payloads/v1/'' @ replicate 64 c) ''abc''"

definition sample_lengths :: "string \<Rightarrow> int result" where
  "sample_lengths patch = Inr (if patch = the (PatchPath (sample_lineage ! 0) (sample_lineage ! 2)) then 100 else 40)"

theorem cheapest_shortest_witness:
  "snd (cheapest sample_lineage sample_lengths) = 80 \<and> length (fst (cheapest sample_lineage sample_lengths)) = 2 \<and>
   least_cost sample_lengths sample_lineage 80"
proof -
  have run: "snd (cheapest sample_lineage sample_lengths) = 80" "length (fst (cheapest sample_lineage sample_lengths)) = 2"
    by code_simp+
  obtain hops where res: "cheapest sample_lineage sample_lengths = (hops, 80)"
    using run(1) by (cases "cheapest sample_lineage sample_lengths") simp
  have "patches_bounded sample_lengths sample_lineage 100"
    by (auto simp: patches_bounded_def edge_def sample_lengths_def sample_lineage_def split: option.splits if_splits)
  moreover have len: "2 \<le> length sample_lineage" by (simp add: sample_lineage_def)
  ultimately have main: "case cheapest sample_lineage sample_lengths of (hops, cost) \<Rightarrow>
    if \<exists>ps c. leads sample_lengths sample_lineage ps c
    then (\<exists>ps. leads sample_lengths sample_lineage ps cost \<and> hops = route_hops sample_lineage 0 ps) \<and> hops \<noteq> [] \<and>
         least_cost sample_lengths sample_lineage cost
    else hops = [] \<and> cost = 0"
    by (intro cheapest_shortest)
  have "least_cost sample_lengths sample_lineage 80"
    using main by (simp add: res split: if_split_asm)
  with run show ?thesis by blast
qed

end
