(* ===== verification/Planner.thy ===== *)
theory Planner
  imports Release Chain
begin

text \<open>
  The decisions of \<open>core/updater\<close>: whether an install may take a release (\<open>applicable\<close> in
  \<open>updater.go\<close>), and through which releases it gets there (\<open>steps\<close>, \<open>furthestReachable\<close>, \<open>openLines\<close> and
  \<open>route\<close> in \<open>apply.go\<close>).  The trust client's history of releases, an interface, is a parameter with a state of its
  own: opening a release line changes what its \<open>Versions\<close> lists.
\<close>

section \<open>May this install take this release?\<close>

record Client =
  u_channel :: string
  u_goos :: string
  u_goarch :: string
  u_clientVersion :: string
  u_allowDowngrade :: bool

definition check_client :: "Client \<Rightarrow> string \<Rightarrow> unit result" where
  "check_client u req =
     (if req = [] then Inr ()
      else if u_clientVersion u = [] then Inl [ErrPolicy]
      else (case Compare (u_clientVersion u) req of
        Inl e \<Rightarrow> Inl (ErrPolicy # e)
      | Inr older \<Rightarrow> if older < 0 then Inl [ErrPolicy] else Inr ()))"

definition check_jump :: "Client \<Rightarrow> Descriptor \<Rightarrow> string \<Rightarrow> unit result" where
  "check_jump u d installed =
     (case Newer (ds_version d) installed of
        Inl e \<Rightarrow> Inl (ErrPolicy # e)
      | Inr newer \<Rightarrow>
          if \<not> newer \<and> \<not> u_allowDowngrade u then Inl [ErrPolicy]
          else (let req = rq_from (ds_requirements d) in
            if req = [] then Inr ()
            else (case Compare installed req of
              Inl e \<Rightarrow> Inl (ErrPolicy # e)
            | Inr c \<Rightarrow> if c < 0 then Inl [ErrPolicy, ErrMigrationFloor] else Inr ())))"

definition applicable :: "Client \<Rightarrow> Descriptor \<Rightarrow> string \<Rightarrow> unit result" where
  "applicable u d installed =
     (if ds_channel d \<noteq> u_channel u then Inl [ErrPolicy]
      else if ds_os d \<noteq> u_goos u \<or> ds_arch d \<noteq> u_goarch u then Inl [ErrPolicy]
      else (case check_client u (rq_client (ds_requirements d)) of
        Inl e \<Rightarrow> Inl e
      | Inr _ \<Rightarrow> if installed = [] then Inr () else check_jump u d installed))"

section \<open>The history of releases\<close>

record 'h History =
  OpenLine :: "string \<Rightarrow> string \<Rightarrow> string \<Rightarrow> 'h \<Rightarrow> 'h"
  ListVersions :: "string \<Rightarrow> string \<Rightarrow> 'h \<Rightarrow> string list"
  ReleaseVersion :: "string \<Rightarrow> string \<Rightarrow> string \<Rightarrow> ('h, Descriptor) prog"

definition maxLines :: "64 word" where "maxLines = 8"
definition maxWalk :: nat where "maxWalk = 32"

definition openLines :: "'h History \<Rightarrow> string \<Rightarrow> string \<Rightarrow> string \<Rightarrow> string \<Rightarrow> ('h, unit) prog" where
  "openLines hist goos goarch frm to h =
     (case (Major frm, Major to) of
        (Some first, Some final) \<Rightarrow>
          if final < first \<or> final - first > maxLines then (Inr (), h)
          else (Inr (), fold (\<lambda>step. OpenLine hist goos goarch (show_nat (unat (first + of_nat step))))
                          [0..<unat (final - first) + 1] h)
      | _ \<Rightarrow> (Inr (), h))"

section \<open>The releases on the way\<close>

definition furthestReachable :: "Client \<Rightarrow> Descriptor list \<Rightarrow> string \<Rightarrow> Descriptor option" where
  "furthestReachable u candidates at =
     fold (\<lambda>c pick. case Newer (ds_version c) at of
         Inl _ \<Rightarrow> pick
       | Inr newer \<Rightarrow> if newer \<and> applicable u c at = Inr () then Some c else pick) candidates None"

function bridge :: "error \<Rightarrow> Client \<Rightarrow> Descriptor list \<Rightarrow> string \<Rightarrow> Descriptor list \<Rightarrow> string \<Rightarrow> Descriptor list result" where
  "bridge err u candidates version out at =
     (if at = version then Inr out
      else (case furthestReachable u candidates at of
        None \<Rightarrow> Inl err
      | Some next \<Rightarrow>
          if length (out @ [next]) > maxWalk then Inl err
          else bridge err u candidates version (out @ [next]) (ds_version next)))"
  by pat_completeness auto
termination by (relation "measure (\<lambda>(err, u, candidates, version, out, at). Suc maxWalk - length out)") auto

declare bridge.simps [simp del]

fun resolve_steps :: "'h History \<Rightarrow> Descriptor \<Rightarrow> string list \<Rightarrow> ('h, Descriptor list) prog" where
  "resolve_steps hist d [] = ret []"
| "resolve_steps hist d (v # vs) =
     attempt (ReleaseVersion hist (ds_os d) (ds_arch d) v)
       (\<lambda>_. resolve_steps hist d vs)
       (\<lambda>step. bind (resolve_steps hist d vs) (\<lambda>rest.
          ret (if ds_channel step \<noteq> ds_channel d then rest else step # rest)))"

text \<open>The trust client has a history or not: \<^term>\<open>None\<close> is a failed \<open>u.trust.(History)\<close>.\<close>

definition steps :: "Client \<Rightarrow> 'h History option \<Rightarrow> Descriptor \<Rightarrow> string \<Rightarrow> ('h, Descriptor list) prog" where
  "steps u trust d installed =
     (case applicable u d installed of
        Inr _ \<Rightarrow> ret [d]
      | Inl err \<Rightarrow>
          if \<not> is_err ErrMigrationFloor err then throw err
          else (case trust of
            None \<Rightarrow> throw err
          | Some hist \<Rightarrow>
              bind (openLines hist (ds_os d) (ds_arch d) installed (ds_version d)) (\<lambda>_ h.
                (case Between (ListVersions hist (ds_os d) (ds_arch d) h) installed (ds_version d) of
                   Inl _ \<Rightarrow> throw err h
                 | Inr walk \<Rightarrow>
                     bind (resolve_steps hist d (butlast walk)) (\<lambda>candidates.
                       lift (bridge err u (candidates @ [d]) (ds_version d) [] installed)) h))))"

section \<open>The history of each file\<close>

text \<open>A \<open>stage.Route\<close>: the targets of each destination, oldest first; no history is no targets anywhere.\<close>

type_synonym Route = "string \<Rightarrow> string list"

definition no_route :: Route where
  "no_route dst = []"

definition route_step :: "Descriptor \<Rightarrow> Route \<Rightarrow> Route" where
  "route_step step r = fold (\<lambda>f r. r(fr_dst f := r (fr_dst f) @ [fr_target f])) (elems (ds_files step)) r"

fun route_walk :: "'h History \<Rightarrow> Descriptor \<Rightarrow> string list \<Rightarrow> Route \<Rightarrow> ('h, Route) prog" where
  "route_walk hist d [] r = ret r"
| "route_walk hist d (v # vs) r =
     (if v = ds_version d then route_walk hist d vs (route_step d r)
      else attempt (ReleaseVersion hist (ds_os d) (ds_arch d) v)
        (\<lambda>_. ret no_route) (\<lambda>step. route_walk hist d vs (route_step step r)))"

definition route :: "'h History option \<Rightarrow> Descriptor \<Rightarrow> string \<Rightarrow> ('h, Route) prog" where
  "route trust d installed =
     (case trust of
        None \<Rightarrow> ret no_route
      | Some hist \<Rightarrow>
          if installed = [] then ret no_route
          else attempt (ReleaseVersion hist (ds_os d) (ds_arch d) installed) (\<lambda>_. ret no_route) (\<lambda>first.
            bind (openLines hist (ds_os d) (ds_arch d) installed (ds_version d)) (\<lambda>_ h.
              (case Chain (ListVersions hist (ds_os d) (ds_arch d) h) installed (ds_version d) of
                 Inl _ \<Rightarrow> ret no_route h
               | Inr walk \<Rightarrow>
                   if length walk > maxWalk then ret no_route h
                   else (case walk of
                     [] \<Rightarrow> ret no_route h
                   | _ # rest \<Rightarrow> route_walk hist d rest (route_step first no_route) h)))))"

end
