(* ===== verification/PlannerLaws.thy ===== *)
theory PlannerLaws
  imports Planner
begin

text \<open>
  The walk the updater plans is a walk it may take, and no walk through the same releases is shorter: a
  release that may be installed on some version may be installed on every later one below it, so going
  as far as possible at each step is never a detour.
\<close>

abbreviation key :: "Descriptor \<Rightarrow> version_key" where
  "key d \<equiv> version_key (ds_version d)"

text \<open>\<open>takes u at c\<close>: the install at version \<open>at\<close> may take release \<open>c\<close>, which is newer.\<close>

definition takes :: "Client \<Rightarrow> string \<Rightarrow> Descriptor \<Rightarrow> bool" where
  "takes u at c \<longleftrightarrow> Newer (ds_version c) at = Inr True \<and> applicable u c at = Inr ()"

fun walkable :: "Client \<Rightarrow> string \<Rightarrow> Descriptor list \<Rightarrow> bool" where
  "walkable u at [] \<longleftrightarrow> True"
| "walkable u at (c # cs) \<longleftrightarrow> takes u at c \<and> walkable u (ds_version c) cs"

lemma Newer_key: "Newer a b = Inr True \<longleftrightarrow> ValidVersion a \<and> ValidVersion b \<and> version_key b < version_key a"
  by (auto simp: Newer_def Compare_def compareParsed_key cmp_key_simps split: sum.splits if_splits)

lemma takes_key: "takes u at c \<Longrightarrow> ValidVersion at \<and> ValidVersion (ds_version c) \<and> version_key at < key c"
  by (auto simp: takes_def Newer_key)

lemma ValidVersion_not_Nil [simp]: "\<not> ValidVersion []"
  by code_simp

text \<open>What may be taken from a version may be taken from every later version below it.\<close>

lemma takes_later:
  assumes "takes u at c" "ValidVersion at'" "version_key at \<le> version_key at'" "version_key at' < key c"
  shows "takes u at' c"
proof -
  have v: "ValidVersion at" "ValidVersion (ds_version c)" using takes_key [OF assms(1)] by auto
  have n: "Newer (ds_version c) at' = Inr True" using v assms by (simp add: Newer_key)
  have n0: "Newer (ds_version c) at = Inr True" using assms(1) by (simp add: takes_def)
  have ne: "at \<noteq> []" "at' \<noteq> []" using v assms(2) by auto
  have "check_jump u c at = Inr ()"
    using assms(1) ne by (auto simp: takes_def applicable_def split: if_splits sum.splits)
  then have "check_jump u c at' = Inr ()"
    using n n0 v assms(2,3)
    by (auto simp: check_jump_def Let_def Compare_def compareParsed_key cmp_key_simps split: if_splits sum.splits)
  with assms(1) n ne show ?thesis by (auto simp: takes_def applicable_def split: if_splits sum.splits)
qed

section \<open>The furthest release\<close>

definition ascending :: "Descriptor list \<Rightarrow> bool" where
  "ascending cs \<longleftrightarrow> sorted_wrt (\<lambda>a b. key a < key b) cs"

lemma furthest_snoc:
  "furthestReachable u (cs @ [c]) at = (if takes u at c then Some c else furthestReachable u cs at)"
  by (auto simp: furthestReachable_def takes_def split: sum.splits)

lemma furthest_None: "furthestReachable u cs at = None \<longleftrightarrow> (\<forall>c\<in>set cs. \<not> takes u at c)"
proof (induction cs rule: rev_induct)
  case (snoc c cs)
  then show ?case by (auto simp: furthest_snoc)
qed (simp add: furthestReachable_def)

lemma furthest_Some:
  "furthestReachable u cs at = Some p \<Longrightarrow> ascending cs \<Longrightarrow>
   p \<in> set cs \<and> takes u at p \<and> (\<forall>c\<in>set cs. takes u at c \<longrightarrow> key c \<le> key p)"
proof (induction cs rule: rev_induct)
  case (snoc c cs)
  have asc: "ascending cs" "\<forall>b\<in>set cs. key b < key c"
    using snoc.prems(2) by (auto simp: ascending_def sorted_wrt_append)
  show ?case
  proof (cases "takes u at c")
    case True
    with snoc.prems(1) asc(2) show ?thesis by (auto simp: furthest_snoc intro: less_imp_le)
  next
    case False
    with snoc asc show ?thesis by (auto simp: furthest_snoc)
  qed
qed (simp add: furthestReachable_def)

section \<open>The walk\<close>

lemma ascending_inj: "ascending cs \<Longrightarrow> a \<in> set cs \<Longrightarrow> b \<in> set cs \<Longrightarrow> key a = key b \<Longrightarrow> a = b"
  by (induction cs) (auto simp: ascending_def)

lemma bridge_end [simp]: "bridge err u cs version out version = Inr out"
  by (simp add: bridge.simps)

lemma bridge_step:
  assumes "at \<noteq> version" "furthestReachable u cs at = Some p"
  shows "bridge err u cs version out at =
    (if length (out @ [p]) > maxWalk then Inl err else bridge err u cs version (out @ [p]) (ds_version p))"
  using assms by (subst bridge.simps) simp

lemma bridge_sound:
  "ascending cs \<Longrightarrow> bridge err u cs version out at = Inr res \<Longrightarrow> length out \<le> maxWalk \<Longrightarrow>
   \<exists>more. res = out @ more \<and> walkable u at more \<and> set more \<subseteq> set cs \<and> length res \<le> maxWalk \<and>
     (if more = [] then at = version else ds_version (last more) = version)"
proof (induction err u cs version out at rule: bridge.induct)
  case (1 err u cs version out at)
  show ?case
  proof (cases "at = version")
    case True
    with 1 show ?thesis by auto
  next
    case False
    with 1(3) obtain p where p: "furthestReachable u cs at = Some p"
      by (subst (asm) bridge.simps) (auto split: option.splits)
    with False 1(3) have len: "length (out @ [p]) \<le> maxWalk"
      and rest: "bridge err u cs version (out @ [p]) (ds_version p) = Inr res"
      by (auto simp: bridge_step split: if_splits)
    have "\<not> length (out @ [p]) > maxWalk" using len by simp
    from 1(1) [OF False p this 1(2) rest len] obtain more where
      more: "res = (out @ [p]) @ more" "walkable u (ds_version p) more" "set more \<subseteq> set cs" "length res \<le> maxWalk"
        "if more = [] then ds_version p = version else ds_version (last more) = version" by blast
    have "p \<in> set cs" "takes u at p" using furthest_Some [OF p 1(2)] by auto
    then show ?thesis using more by (intro exI [of _ "p # more"]) (auto split: if_splits)
  qed
qed

lemma bridge_shortest:
  assumes asc: "ascending cs" and d: "d \<in> set cs" "\<forall>c\<in>set cs. key c \<le> key d"
  shows "walkable u at0 ws \<Longrightarrow> set ws \<subseteq> set cs \<Longrightarrow> ws \<noteq> [] \<Longrightarrow> last ws = d \<Longrightarrow>
    ValidVersion at \<Longrightarrow> version_key at0 \<le> version_key at \<Longrightarrow> at = ds_version d \<or> version_key at < key d \<Longrightarrow>
    length out + length ws \<le> maxWalk \<Longrightarrow>
    \<exists>more. bridge err u cs (ds_version d) out at = Inr (out @ more) \<and> length more \<le> length ws"
proof (induction ws arbitrary: at0 at out)
  case (Cons c ws)
  show ?case
  proof (cases "at = ds_version d")
    case True
    then show ?thesis by auto
  next
    case False
    then have below: "version_key at < key d" using Cons.prems(7) by simp
    have c: "takes u at0 c" "walkable u (ds_version c) ws" "c \<in> set cs" using Cons.prems by auto
    show ?thesis
    proof (cases "version_key at < key c")
      case True
      then have "takes u at c" using takes_later [OF c(1) Cons.prems(5,6)] by simp
      then obtain p where p: "furthestReachable u cs at = Some p"
        using furthest_None [of u cs at] c(3) by (cases "furthestReachable u cs at") auto
      note pp = furthest_Some [OF p asc]
      have kp: "key c \<le> key p" using pp \<open>takes u at c\<close> c(3) by blast
      have vp: "ValidVersion (ds_version p)" using pp takes_key by blast
      have step: "bridge err u cs (ds_version d) out at = bridge err u cs (ds_version d) (out @ [p]) (ds_version p)"
        using bridge_step [OF False p] Cons.prems(8) by simp
      have pd: "ds_version p = ds_version d \<or> key p < key d"
        using ascending_inj [OF asc _ d(1), of p] pp d(2) by (auto simp: le_less)
      show ?thesis
      proof (cases "ws = []")
        case True
        then have "key p = key d" using kp pd Cons.prems(4) by auto
        then have "p = d" using ascending_inj [OF asc _ d(1)] pp by blast
        then show ?thesis using step by auto
      next
        case False
        have "\<exists>more. bridge err u cs (ds_version d) (out @ [p]) (ds_version p) = Inr ((out @ [p]) @ more)
            \<and> length more \<le> length ws"
          using Cons.IH [OF c(2) _ False _ vp kp pd, of "out @ [p]"] Cons.prems False by auto
        then show ?thesis using step by (metis append.assoc append_Cons append_Nil length_Cons Suc_le_mono)
      qed
    next
      case False
      then have kc: "key c \<le> version_key at" by simp
      then have "ws \<noteq> []" using below Cons.prems(4) by auto
      then have "\<exists>more. bridge err u cs (ds_version d) out at = Inr (out @ more) \<and> length more \<le> length ws"
        using Cons.IH [OF c(2) _ _ _ Cons.prems(5) kc Cons.prems(7), of out] Cons.prems by auto
      then show ?thesis by (auto intro: le_SucI)
    qed
  qed
qed simp

lemma bridge_error: "bridge err u cs version out at = Inl e \<Longrightarrow> e = err"
proof (induction err u cs version out at rule: bridge.induct)
  case (1 err u cs version out at)
  show ?case
  proof (cases "at = version")
    case False
    show ?thesis
    proof (cases "furthestReachable u cs at")
      case None
      with False 1(2) show ?thesis by (simp add: bridge.simps [of _ _ _ _ _ at])
    next
      case (Some p)
      with 1 False show ?thesis by (auto simp: bridge_step split: if_splits)
    qed
  qed (use 1 in simp)
qed

section \<open>The releases of the walk\<close>

text \<open>\<open>resolves\<close>: a release that is looked up by its version is that version's.\<close>

definition resolves :: "'h History \<Rightarrow> bool" where
  "resolves hist \<longleftrightarrow> (\<forall>os arch v h s h'. ReleaseVersion hist os arch v h = (Inr s, h') \<longrightarrow> ds_version s = v)"

lemma resolve_steps_ok:
  assumes "resolves hist"
  shows "sorted_wrt (\<lambda>v w. version_key v < version_key w) vs \<Longrightarrow>
    \<exists>cs h'. resolve_steps hist d vs h = (Inr cs, h') \<and> ascending cs \<and>
      (\<forall>c\<in>set cs. ds_version c \<in> set vs \<and> ds_channel c = ds_channel d)"
proof (induction vs arbitrary: h)
  case Nil
  then show ?case by (simp add: ret_def ascending_def)
next
  case (Cons v vs)
  obtain r h1 where r: "ReleaseVersion hist (ds_os d) (ds_arch d) v h = (r, h1)" by fastforce
  obtain cs h2 where cs: "resolve_steps hist d vs h1 = (Inr cs, h2)" "ascending cs"
    "\<forall>c\<in>set cs. ds_version c \<in> set vs \<and> ds_channel c = ds_channel d"
    using Cons.IH [of h1] Cons.prems by auto
  show ?case
  proof (cases r)
    case (Inl e)
    with r cs show ?thesis by (auto simp: prog_simps)
  next
    case (Inr step)
    then have "ds_version step = v" using assms r unfolding resolves_def by blast
    moreover have "ascending (step # cs)" if "ds_version step = v"
      using cs Cons.prems that by (auto simp: ascending_def)
    ultimately show ?thesis using r Inr cs by (auto simp: prog_simps)
  qed
qed

text \<open>The releases \<open>steps\<close> may step on: those the history lists and can look up, of the same channel, and the last.\<close>

definition stones :: "'h History \<Rightarrow> Descriptor \<Rightarrow> string \<Rightarrow> 'h \<Rightarrow> Descriptor list option" where
  "stones hist d installed h =
     (let h1 = snd (openLines hist (ds_os d) (ds_arch d) installed (ds_version d) h) in
      case Between (ListVersions hist (ds_os d) (ds_arch d) h1) installed (ds_version d) of
        Inl _ \<Rightarrow> None
      | Inr walk \<Rightarrow> (case resolve_steps hist d (butlast walk) h1 of
          (Inl _, _) \<Rightarrow> None
        | (Inr cs, _) \<Rightarrow> Some (cs @ [d])))"

lemma openLines_Inr: "openLines hist goos goarch frm to h = (Inr (), snd (openLines hist goos goarch frm to h))"
  by (auto simp: openLines_def split: option.splits prod.splits)

lemma steps_bridge:
  assumes "applicable u d installed = Inl err" "is_err ErrMigrationFloor err" "stones hist d installed h = Some cs"
  shows "fst (steps u (Some hist) d installed h) = bridge err u cs (ds_version d) [] installed"
proof -
  define h1 where "h1 = snd (openLines hist (ds_os d) (ds_arch d) installed (ds_version d) h)"
  from assms(3) obtain walk where w: "Between (ListVersions hist (ds_os d) (ds_arch d) h1) installed (ds_version d) = Inr walk"
    by (auto simp: stones_def h1_def Let_def split: sum.splits)
  then obtain cs' h2 where cs': "resolve_steps hist d (butlast walk) h1 = (Inr cs', h2)" "cs = cs' @ [d]"
    using assms(3) by (auto simp: stones_def h1_def [symmetric] Let_def split: sum.splits prod.splits)
  have o: "openLines hist (ds_os d) (ds_arch d) installed (ds_version d) h = (Inr (), h1)"
    unfolding h1_def by (rule openLines_Inr)
  show ?thesis
    using assms(1,2) w cs' o by (simp add: steps_def bind_def attempt_def lift_def)
qed

lemma stones_ok:
  assumes "resolves hist" "stones hist d installed h = Some cs"
  shows "ascending cs" and "d \<in> set cs" and "\<forall>c\<in>set cs. key c \<le> key d \<and> ds_channel c = ds_channel d"
    and "ValidVersion installed" and "version_key installed < key d"
proof -
  define h1 where "h1 = snd (openLines hist (ds_os d) (ds_arch d) installed (ds_version d) h)"
  from assms(2) obtain walk where w: "Between (ListVersions hist (ds_os d) (ds_arch d) h1) installed (ds_version d) = Inr walk"
    by (auto simp: stones_def h1_def Let_def split: sum.splits)
  note b = Between_Inr [OF w]
  have split: "walk = butlast walk @ [ds_version d]" using b(6,7) by (metis append_butlast_last_id)
  then have sorted: "sorted_wrt (\<lambda>v w. version_key v < version_key w) (butlast walk @ [ds_version d])" using b(4) by simp
  then obtain cs' h2 where cs': "resolve_steps hist d (butlast walk) h1 = (Inr cs', h2)" "ascending cs'"
    "\<forall>c\<in>set cs'. ds_version c \<in> set (butlast walk) \<and> ds_channel c = ds_channel d"
    using resolve_steps_ok [OF assms(1), of "butlast walk" d h1] by (auto simp: sorted_wrt_append)
  then have cs: "cs = cs' @ [d]"
    using assms(2) w by (simp add: stones_def h1_def [symmetric] Let_def)
  have below: "\<forall>c\<in>set cs'. key c < key d" using cs'(3) sorted by (auto simp: sorted_wrt_append)
  show "ascending cs" using cs'(2) below by (auto simp: cs ascending_def sorted_wrt_append)
  show "\<forall>c\<in>set cs. key c \<le> key d \<and> ds_channel c = ds_channel d" using below cs'(3) by (auto simp: cs intro: less_imp_le)
  show "d \<in> set cs" "ValidVersion installed" "version_key installed < key d" using b by (auto simp: cs)
qed

text \<open>A walk through some releases to \<open>d\<close>, and a number of steps no such walk is below.\<close>

definition walks :: "Client \<Rightarrow> Descriptor list \<Rightarrow> Descriptor \<Rightarrow> string \<Rightarrow> Descriptor list \<Rightarrow> bool" where
  "walks u cs d installed ws \<longleftrightarrow> walkable u installed ws \<and> set ws \<subseteq> set cs \<and> ws \<noteq> [] \<and> last ws = d"

definition none_below :: "Client \<Rightarrow> Descriptor list \<Rightarrow> Descriptor \<Rightarrow> string \<Rightarrow> nat \<Rightarrow> bool" where
  "none_below u cs d installed n \<longleftrightarrow> (\<forall>ws. walks u cs d installed ws \<longrightarrow> n \<le> length ws)"


text \<open>Two releases, of which the last migrates only from 2.0.0 or newer, over an install of 1.0.0.\<close>

definition sample_release :: "string \<Rightarrow> string \<Rightarrow> Descriptor" where
  "sample_release v floor = descriptor_zero\<lparr>ds_version := v, ds_channel := ''stable'', ds_os := ''linux'', ds_arch := ''amd64'',
     ds_requirements := requirements_zero\<lparr>rq_from := floor\<rparr>\<rparr>"

definition sample_history :: "unit History" where
  "sample_history = \<lparr>OpenLine = (\<lambda>_ _ _ h. h), ListVersions = (\<lambda>_ _ _. [''2.0.0'', ''3.0.0'']),
     ReleaseVersion = (\<lambda>_ _ v h. (Inr (sample_release v ''1.0.0''), h))\<rparr>"

definition sample_client :: Client where
  "sample_client = \<lparr>u_channel = ''stable'', u_goos = ''linux'', u_goarch = ''amd64'', u_clientVersion = [], u_allowDowngrade = False\<rparr>"


end
