(* ===== verification/StageLaws.thy ===== *)
theory StageLaws
  imports Stage Chain ProbationLaws RecoverSample "HOL-Library.Multiset"
begin

text \<open>
  The collection of old versions: which version directories it removes, which it keeps, and that nothing
  else of the install tree is touched, whatever calls fail.
\<close>

section \<open>The installed versions\<close>

abbreviation version_path :: "string list \<Rightarrow> string \<Rightarrow> string" where
  "version_path rs v \<equiv> abs_path ((rs @ [VersionsName]) @ [v])"

definition installed_versions :: "(string \<Rightarrow> memNode option) \<Rightarrow> string list \<Rightarrow> string set" where
  "installed_versions f rs = {v. ValidVersion v \<and> (\<exists>n. f (version_path rs v) = Some n \<and> isDir n)}"

lemma versions_not_version: "\<not> ValidVersion VersionsName"
  by code_simp

lemma valid_simple: "ValidVersion v \<Longrightarrow> simple v"
  by (rule simple_version)

lemma base_child:
  assumes "e \<noteq> []" "slash \<notin> set e"
  shows "path_base (u @ slash # e) = e"
proof -
  obtain c r where c: "rev e = c # r" "c \<noteq> slash" using assms by (cases "rev e") auto
  then have "rev (takeWhile (\<lambda>c. c \<noteq> slash) (rev e @ slash # rev u)) = e"
    using assms takeWhile_until [of slash "rev e" "rev u"] by simp
  with c show ?thesis by (auto simp: path_base_def Let_def)
qed

lemma base_trailing: "s \<noteq> [] \<Longrightarrow> path_base (s @ ''/'') = path_base s"
  by (simp add: path_base_def Let_def)

lemma key_below:
  assumes k: "prefix (abs_path ds @ ''/'') key" "slash \<notin> set (drop (length (abs_path ds @ ''/'')) key)"
    and d: "ds = rs @ [VersionsName]" "simples ds" and v: "ValidVersion (path_base key)"
  shows "key = abs_path (ds @ [path_base key])"
proof -
  obtain r where r: "key = abs_path ds @ slash # r" using k(1) by (auto simp: prefix_def)
  have ns: "slash \<notin> set r" using k(2) by (simp add: r)
  have "r \<noteq> []"
  proof
    assume "r = []"
    then have "path_base key = path_base (abs_path ds)" using base_trailing [of "abs_path ds"] by (simp add: r abs_path_def)
    then have "path_base key = VersionsName" using d path_base_abs [of VersionsName rs] by simp
    then show False using v versions_not_version by simp
  qed
  then have "path_base key = r" using ns by (simp add: r base_child)
  moreover have "abs_path (ds @ [r]) = abs_path ds @ slash # r"
    using abs_path_snoc2 [of ds r "[]"] d(1) by (simp only: join_with.simps) simp
  ultimately show ?thesis by (simp add: r)
qed

lemma InstalledVersions_plain:
  assumes dt: "dirs_tab f (rs @ [VersionsName])"
  shows "triple (tab m0 f) (InstalledVersions (abs_path rs))
    (\<lambda>vs m. tab m0 f m \<and> distinct vs \<and> set vs = installed_versions f rs) (\<lambda>_ _. False)"
proof -
  let ?ds = "rs @ [VersionsName]"
  have s: "simples ?ds" "simples rs" using dt by (auto simp: dirs_tab_def)
  have "case InstalledVersions (abs_path rs) m of (Inl e, m') \<Rightarrow> False
    | (Inr vs, m') \<Rightarrow> tab m0 f m' \<and> distinct vs \<and> set vs = installed_versions f rs" if t: "tab m0 f m" for m
  proof -
    have d: "dirs_ok m ?ds" using dt t by (simp add: dirs_ok_tab tab_def)
    then obtain n where n: "node_at m (abs_path ?ds) = Some n" "isDir n"
      by (auto simp: dirs_ok_def real_dir_def dest!: spec [of _ "length ?ds"])
    have nd: "node m (abs_path ?ds) True = Inr (abs_path ?ds, n)" using resolve_dir [OF d] n by (simp add: node_def)
    have root: "abs_path ?ds \<noteq> ''/''" using s abs_path_inj [of ?ds "[]"] by (auto simp: abs_path_def)
    let ?pre = "abs_path ?ds @ ''/''"
    define keys where "keys = filter (\<lambda>key. slash \<notin> set (drop (length ?pre) key)) (childrenOf m (abs_path ?ds))"
    define ents where "ents = List.map_filter (\<lambda>key. map_option (Pair (path_base key)) (node_at m key)) keys"
    have run: "InstalledVersions (abs_path rs) m = (Inr (map iname (filter (\<lambda>e. isDir (inode e) \<and> ValidVersion (iname e))
        (map (\<lambda>(nm, n). \<lparr> iname = nm, inode = n \<rparr>) (sort_key fst ents)))), m)"
      using n nd root layout_paths(2) [OF s(2)]
      by (simp add: InstalledVersions_def ReadDir_def attempt_def ret_def Let_def keys_def ents_def)
    let ?ok = "\<lambda>p :: string \<times> memNode. isDir (snd p) \<and> ValidVersion (fst p)"
    have names: "map iname (filter (\<lambda>e. isDir (inode e) \<and> ValidVersion (iname e)) (map (\<lambda>(nm, n). \<lparr> iname = nm, inode = n \<rparr>) xs))
        = map fst (filter ?ok xs)" for xs :: "(string \<times> memNode) list"
      by (induction xs) auto
    have key: "key = version_path rs (path_base key)" if "key \<in> set keys" "ValidVersion (path_base key)" for key
      using that key_below [of ?ds key rs] s by (auto simp: keys_def set_childrenOf root)
    have "distinct keys" by (simp add: keys_def)
    then have "distinct (map fst (filter ?ok ents))"
      unfolding ents_def using key
    proof (induction keys)
      case (Cons k ks)
      have "fst p \<noteq> path_base k" if "ValidVersion (path_base k)" "p \<in> set (filter ?ok (List.map_filter
          (\<lambda>key. map_option (Pair (path_base key)) (node_at m key)) ks))" for p
      proof
        assume e: "fst p = path_base k"
        from that(2) obtain k' where k': "k' \<in> set ks" "fst p = path_base k'"
          by (auto simp: List.map_filter_def)
        have "k = k'" using Cons.prems(2) [of k] Cons.prems(2) [of k'] that(1) k' e by simp
        then show False using Cons.prems(1) k'(1) by simp
      qed
      then have "path_base k \<notin> fst ` set (filter ?ok (List.map_filter
          (\<lambda>key. map_option (Pair (path_base key)) (node_at m key)) ks))" if "ValidVersion (path_base k)"
        using that by (metis (no_types, lifting) imageE)
      moreover have "distinct (map fst (filter ?ok (List.map_filter (\<lambda>key. map_option (Pair (path_base key)) (node_at m key)) ks)))"
        using Cons by simp
      ultimately show ?case by (cases "node_at m k") (simp_all add: List.map_filter_simps)
    qed (simp add: List.map_filter_simps)
    moreover have "mset (map fst (filter ?ok (sort_key fst ents))) = mset (map fst (filter ?ok ents))"
      by (simp only: mset_map mset_filter mset_sort)
    ultimately have dist: "distinct (map fst (filter ?ok (sort_key fst ents)))"
      using mset_eq_imp_distinct_iff by blast
    have "v \<in> set (map fst (filter ?ok ents)) \<longleftrightarrow> v \<in> installed_versions f rs" for v
    proof
      assume "v \<in> set (map fst (filter ?ok ents))"
      then obtain k nd where k: "k \<in> set keys" "node_at m k = Some nd" "isDir nd" "ValidVersion v" "v = path_base k"
        by (auto simp: ents_def List.map_filter_def)
      then show "v \<in> installed_versions f rs" using key [of k] t by (auto simp: installed_versions_def tab_def)
    next
      assume "v \<in> installed_versions f rs"
      then obtain nd where v: "ValidVersion v" "node_at m (version_path rs v) = Some nd" "isDir nd"
        using t by (auto simp: installed_versions_def tab_def)
      have sv: "simple v" by (rule valid_simple [OF v(1)])
      have p: "version_path rs v = abs_path ?ds @ slash # v" using abs_path_snoc2 [of ?ds v "[]"] by (simp only: join_with.simps) simp
      have "version_path rs v \<in> set keys" "path_base (version_path rs v) = v"
        using v(2) sv root by (auto simp: keys_def set_childrenOf p [simplified] path_base_end simple_no_slash)
      with v show "v \<in> set (map fst (filter ?ok ents))"
        by (force simp: ents_def List.map_filter_def)
    qed
    then have "set (map fst (filter ?ok (sort_key fst ents))) = installed_versions f rs" by auto
    with dist t show ?thesis by (simp add: run names)
  qed
  then show ?thesis by (simp add: triple_def)
qed

section \<open>What is retained\<close>

text \<open>
  \<open>sorts srt\<close>: what \<open>sort.Slice\<close> promises of a comparison that is a strict weak order, for the one used here;
  elements of equal precedence may come in any order.
\<close>

definition sorts :: "slice_sort \<Rightarrow> bool" where
  "sorts srt \<longleftrightarrow> (\<forall>xs. (\<forall>v\<in>set xs. ValidVersion v) \<longrightarrow>
     mset (srt newer_first xs) = mset xs \<and> sorted_wrt (\<lambda>a b. version_key b \<le> version_key a) (srt newer_first xs))"

definition older :: "string set \<Rightarrow> string \<Rightarrow> string set" where
  "older V live = {v \<in> V. version_key v < version_key live}"

definition newer :: "string set \<Rightarrow> string \<Rightarrow> string set" where
  "newer V live = {v \<in> V. version_key live < version_key v}"

text \<open>\<open>newest V n W\<close>: \<open>W\<close> are \<open>n\<close> newest of the versions \<open>V\<close>, or all of them if they are fewer.\<close>

definition newest :: "string set \<Rightarrow> nat \<Rightarrow> string set \<Rightarrow> bool" where
  "newest V n W \<longleftrightarrow> W \<subseteq> V \<and> card W = min n (card V) \<and> (\<forall>w\<in>W. \<forall>v\<in>V - W. version_key v \<le> version_key w)"

lemma split_versions_ok:
  "\<forall>v\<in>set vs. ValidVersion v \<Longrightarrow> ValidVersion live \<Longrightarrow>
   split_versions live vs =
     Inr (filter (\<lambda>v. version_key live < version_key v) vs, filter (\<lambda>v. version_key v < version_key live) vs)"
  by (induction vs) (auto simp: Compare_key cmp_key_simps)

lemma newest_take:
  assumes "distinct xs" "sorted_wrt (\<lambda>a b. version_key b \<le> version_key a) xs"
  shows "newest (set xs) n (set (take n xs))"
proof -
  have "set xs = set (take n xs) \<union> set (drop n xs)" using set_append [of "take n xs" "drop n xs"] by simp
  moreover have "set (take n xs) \<inter> set (drop n xs) = {}"
    by (rule set_take_disj_set_drop_if_distinct [OF assms(1) order_refl])
  ultimately have d: "set xs - set (take n xs) = set (drop n xs)" by blast
  have "sorted_wrt (\<lambda>a b. version_key b \<le> version_key a) (take n xs @ drop n xs)" using assms(2) by simp
  then have "\<forall>w\<in>set (take n xs). \<forall>v\<in>set xs - set (take n xs). version_key v \<le> version_key w"
    unfolding sorted_wrt_append d by blast
  then show ?thesis using assms(1) by (simp add: newest_def set_take_subset distinct_card)
qed

lemma newest_exists: "\<exists>W. newest V n W"
proof (cases "finite V")
  case True
  then obtain xs where xs: "distinct xs" "set xs = V" using finite_distinct_list by blast
  have "sorted_wrt (\<lambda>a b. version_key a \<le> version_key b) (sort_key version_key xs)"
    using sorted_sort_key [of version_key xs] by (simp add: sorted_map)
  then have "newest (set (rev (sort_key version_key xs))) n (set (take n (rev (sort_key version_key xs))))"
    using xs by (intro newest_take) (simp_all add: sorted_wrt_rev)
  then show ?thesis using xs by auto
next
  case False
  then show ?thesis by (intro exI [of _ "{}"]) (simp add: newest_def)
qed

lemma retained_ok:
  assumes v: "\<forall>v\<in>set vs. ValidVersion v" "ValidVersion live" "distinct vs" and srt: "sorts srt"
  obtains keep W where "retained srt vs live retain = Inr keep"
    and "set keep = insert live (newer (set vs) live \<union> W)" and "newest (older (set vs) live) (nat (retain - 1)) W"
proof -
  define old where "old = filter (\<lambda>v. version_key v < version_key live) vs"
  define srtd where "srtd = srt newer_first old"
  have s: "mset srtd = mset old" "sorted_wrt (\<lambda>a b. version_key b \<le> version_key a) srtd"
    using srt v(1) by (auto simp: sorts_def srtd_def old_def)
  have o: "set srtd = older (set vs) live" "distinct srtd"
    using v(3) mset_eq_setD [OF s(1)] mset_eq_imp_distinct_iff [OF s(1)] by (auto simp: old_def older_def)
  let ?n = "nat (retain - 1)"
  have "newest (older (set vs) live) ?n (set (take ?n srtd))" using newest_take [OF o(2) s(2)] by (simp add: o(1))
  moreover have "retained srt vs live retain =
      Inr (live # filter (\<lambda>v. version_key live < version_key v) vs @ take ?n srtd)"
    by (simp add: retained_def split_versions_ok [OF v(1,2)] srtd_def old_def)
  ultimately show thesis using that by (auto simp: newer_def)
qed

section \<open>Removal\<close>

lemma dirs_tab_parent: "dirs_tab f (ds @ [e]) \<Longrightarrow> dirs_tab f ds"
  unfolding dirs_tab_def
proof (elim conjE, intro conjI allI impI)
  fix i
  assume "\<forall>i\<le>length (ds @ [e]). \<exists>n. f (abs_path (take i (ds @ [e]))) = Some n \<and> isDir n \<and> \<not> isSymlink n" "i \<le> length ds"
  then show "\<exists>n. f (abs_path (take i ds)) = Some n \<and> isDir n \<and> \<not> isSymlink n" by (auto dest: spec [of _ i])
qed simp

definition cleared :: "string list \<Rightarrow> string set \<Rightarrow> (string \<Rightarrow> memNode option) \<Rightarrow> string \<Rightarrow> memNode option" where
  "cleared rs R f q = (if \<exists>v\<in>R. in_tree (version_path rs v) q then None else f q)"

lemma cleared_empty [simp]: "cleared rs {} f = f"
  by (simp add: cleared_def fun_eq_iff)

lemma cleared_insert: "cleared rs (insert v R) f = pruned (version_path rs v) (cleared rs R f)"
  by (auto simp: cleared_def pruned_in_tree fun_eq_iff)

lemma cleared_dirs:
  assumes "dirs_tab f ds" "simples (rs @ [VersionsName])" "\<forall>v\<in>R. ValidVersion v"
    and "\<And>v. ValidVersion v \<Longrightarrow> \<not> prefix (rs @ [VersionsName, v]) ds"
  shows "dirs_tab (cleared rs R f) ds"
proof -
  have "cleared rs R f (abs_path (take i ds)) = f (abs_path (take i ds))" for i
  proof -
    have "\<not> in_tree (version_path rs v) (abs_path (take i ds))" if v: "v \<in> R" for v
    proof
      have s: "simples (take i ds)" using assms(1) by (auto simp: dirs_tab_def simples_def dest: in_set_takeD)
      assume "in_tree (version_path rs v) (abs_path (take i ds))"
      then have "prefix (rs @ [VersionsName, v]) (take i ds)"
        using in_tree_abs [of "rs @ [VersionsName, v]" "take i ds"] s assms(2,3) v valid_simple by simp
      then show False using assms(3,4) v take_is_prefix prefix_order.trans by blast
    qed
    then show ?thesis by (auto simp: cleared_def)
  qed
  then show ?thesis using assms(1) by (simp add: dirs_tab_def)
qed

text \<open>The directories of an install tree whose \<open>versions\<close> the collection may empty.\<close>

lemma cleared_versions:
  assumes "dirs_tab f (rs @ [VersionsName])" "\<forall>v\<in>R. ValidVersion v"
  shows "dirs_tab (cleared rs R f) (rs @ [VersionsName])"
proof (rule cleared_dirs [OF assms(1) _ assms(2)])
  show "simples (rs @ [VersionsName])" using assms(1) by (simp add: dirs_tab_def)
  show "\<not> prefix (rs @ [VersionsName, v]) (rs @ [VersionsName])" for v by simp
qed

lemma remove_versions_plain:
  assumes "dirs_tab f (rs @ [VersionsName])" "wf_tab f" "\<forall>v\<in>R. ValidVersion v" "\<forall>v\<in>set vs. ValidVersion v"
    and "finite R"
  shows "triple (tab m0 (cleared rs R f)) (remove_versions (abs_path rs) vs failed)
    (\<lambda>fs m. \<exists>R'. R' \<subseteq> set vs \<and> tab m0 (cleared rs (R \<union> R') f) m \<and>
       (fs = failed \<and> R' = set vs \<or> length failed < length fs \<and> hooked m0)) (\<lambda>_ _. False)"
  using assms(3-5)
proof (induction vs arbitrary: R failed)
  case Nil
  then show ?case by (auto intro!: triple_ret exI [of _ "{}"])
next
  case (Cons v vs)
  have s: "simples (rs @ [VersionsName])" "simples rs" using assms(1) by (auto simp: dirs_tab_def)
  have v: "ValidVersion v" "simple v" using Cons.prems valid_simple by auto
  have wf: "wf_tab (cleared rs R f)"
    using Cons.prems(3) by (induction R) (auto simp: cleared_insert assms(2) intro: wf_tab_pruned)
  have rm: "triple (tab m0 (cleared rs R f)) (RemoveAll (version_path rs v))
      (\<lambda>_. tab m0 (cleared rs (insert v R) f)) (\<lambda>_ m. tab m0 (cleared rs R f) m \<and> hooked m0)"
    unfolding cleared_insert by (rule RemoveAll_plain [OF cleared_versions [OF assms(1) Cons.prems(1)] v(2) refl wf])
  have d: "VersionDir (abs_path rs) v = Inr (version_path rs v)"
    using layout_paths(7) [OF s(2) v(1)] .
  let ?Q = "\<lambda>fs m. \<exists>R'. R' \<subseteq> set (v # vs) \<and> tab m0 (cleared rs (R \<union> R') f) m \<and>
    (fs = failed \<and> R' = set (v # vs) \<or> length failed < length fs \<and> hooked m0)"
  show ?case
    unfolding remove_versions.simps d bind_lift
  proof (rule triple_attempt [OF rm])
    show "triple (\<lambda>m. tab m0 (cleared rs R f) m \<and> hooked m0) (remove_versions (abs_path rs) vs (failed @ [e])) ?Q (\<lambda>_ _. False)" for e
      using Cons.prems by (intro triple_fact triple_weaken [OF Cons.IH]) auto
    have "?Q fs m" if "\<exists>R'. R' \<subseteq> set vs \<and> tab m0 (cleared rs (insert v R \<union> R') f) m \<and>
        (fs = failed \<and> R' = set vs \<or> length failed < length fs \<and> hooked m0)" for fs m
    proof -
      from that obtain R' where "R' \<subseteq> set vs" "tab m0 (cleared rs (R \<union> insert v R') f) m"
        "fs = failed \<and> R' = set vs \<or> length failed < length fs \<and> hooked m0" by auto
      then show ?thesis by (intro exI [of _ "insert v R'"]) auto
    qed
    then show "triple (tab m0 (cleared rs (insert v R) f)) (remove_versions (abs_path rs) vs failed) ?Q (\<lambda>_ _. False)"
      using Cons.prems v by (intro triple_weaken [OF Cons.IH [of "insert v R"]]) auto
  qed
qed

section \<open>The collection\<close>

context document
begin

lemma load_absent:
  assumes dt: "dirs_tab f (rs @ [MetaName])" and n: "f (abs_path ((rs @ [MetaName]) @ [entry])) = None"
  shows "triple (tab m0 f) (load (abs_path rs)) (\<lambda>r m. r = None \<and> tab m0 f m) (\<lambda>_ m. tab m0 f m \<and> hooked m0)"
proof -
  have s: "simples rs" using dt by (simp add: dirs_tab_def)
  have rd: "triple (tab m0 f) (ReadFile (abs_path ((rs @ [MetaName]) @ [entry])) limit) (\<lambda>_ _. False)
      (\<lambda>e m. tab m0 f m \<and> (hooked m0 \<or> IsNotExist e))"
    using n by (intro triple_weaken [OF ReadFile_plain [OF dt entry refl limit]])
      (auto simp: plain_file_def IsNotExist_def intro: hook_err_hooked)
  show ?thesis
    unfolding load_eq [OF s]
    by (rule triple_attempt [OF rd]) (auto simp: triple_def lift_def throw_def ret_def)
qed

end

text \<open>The versions a readable probation record, or none, protects from the collection.\<close>

definition record_pins :: "(string \<Rightarrow> memNode option) \<Rightarrow> string list \<Rightarrow> string list \<Rightarrow> bool" where
  "record_pins f rs pins \<longleftrightarrow> (case f (abs_path ((rs @ [MetaName]) @ [ProbationName])) of
     None \<Rightarrow> pins = []
   | Some n \<Rightarrow> plain_file (Some n) \<and> int (length (data n)) \<le> MaxProbationLen \<and>
       (\<exists>p. parse_probation (data n) = Inr (Some p) \<and>
         pins = (if pb_status p \<in> {ProbationActive, ProbationUnhealthy, ProbationReverting} then [pb_previous p] else [])))"

lemma ProbationPins_plain:
  assumes "dirs_tab f (rs @ [MetaName])" "record_pins f rs pins" "honest m0"
  shows "triple (tab m0 f) (ProbationPins (abs_path rs)) (\<lambda>x m. x = pins \<and> tab m0 f m) (\<lambda>_ m. tab m0 f m \<and> hooked m0)"
proof (cases "f (abs_path ((rs @ [MetaName]) @ [ProbationName]))")
  case None
  with assms(2) show ?thesis
    unfolding ProbationPins_def
    by (intro triple_bind [OF pro.load_absent [OF assms(1)]]) (auto simp: record_pins_def triple_def ret_def)
next
  case (Some n)
  then obtain p where p: "plain_file (Some n)" "int (length (data n)) \<le> MaxProbationLen" "parse_probation (data n) = Inr (Some p)"
    "pins = (if pb_status p \<in> {ProbationActive, ProbationUnhealthy, ProbationReverting} then [pb_previous p] else [])"
    using assms(2) by (auto simp: record_pins_def)
  show ?thesis
    unfolding ProbationPins_def
    by (rule triple_bind [OF pro.load_plain [OF assms(1) refl Some p(1-3) assms(3)]]) (auto simp: p(4) triple_def ret_def)
qed

definition gc_ready :: "pointerForm \<Rightarrow> string list \<Rightarrow> string \<Rightarrow> string list \<Rightarrow> (string \<Rightarrow> memNode option) \<Rightarrow> bool" where
  "gc_ready pf rs live pins f \<longleftrightarrow> dirs_tab f (rs @ [VersionsName]) \<and> dirs_tab f (rs @ [MetaName]) \<and> wf_tab f \<and>
     live \<noteq> [] \<and> ptr.points pf f rs live \<and> record_pins f rs pins"

text \<open>What a collection that keeps the old versions \<open>W\<close> is to remove.\<close>

definition expired :: "string set \<Rightarrow> string \<Rightarrow> string list \<Rightarrow> string set \<Rightarrow> string set" where
  "expired V live pins W = {v \<in> V. v \<noteq> live \<and> v \<notin> newer V live \<and> v \<notin> W \<and> v \<notin> set pins}"

text \<open>\<open>collected\<close>: the tables a collection can leave, all of what has expired gone or, after a failure, some of it.\<close>

definition collected :: "mem \<Rightarrow> (string \<Rightarrow> memNode option) \<Rightarrow> string list \<Rightarrow> string \<Rightarrow> string list \<Rightarrow> nat \<Rightarrow> bool \<Rightarrow> mem \<Rightarrow> bool" where
  "collected m0 f rs live pins n ok m \<longleftrightarrow> (\<exists>W R. newest (older (installed_versions f rs) live) n W \<and>
     R \<subseteq> expired (installed_versions f rs) live pins W \<and> tab m0 (cleared rs R f) m \<and>
     (if ok then R = expired (installed_versions f rs) live pins W else hooked m0))"

lemma collected_none: "tab m0 f m \<and> hooked m0 \<Longrightarrow> collected m0 f rs live pins n False m"
proof -
  assume a: "tab m0 f m \<and> hooked m0"
  obtain W where "newest (older (installed_versions f rs) live) n W" using newest_exists by blast
  then show ?thesis using a unfolding collected_def by (intro exI [of _ W] exI [of _ "{}"]) simp
qed

abbreviation removal :: "string list \<Rightarrow> string list \<Rightarrow> (mem, unit) prog" where
  "removal rs gone \<equiv> bind (remove_versions (abs_path rs) gone []) (\<lambda>failed.
     if failed \<noteq> [] then throw (ErrIncompleteGC # concat failed) else ret ())"

lemma removal_plain:
  assumes "dirs_tab f (rs @ [VersionsName])" "wf_tab f" "\<forall>v\<in>set gone. ValidVersion v"
  shows "triple (tab m0 f) (removal rs gone) (\<lambda>_. tab m0 (cleared rs (set gone) f))
    (\<lambda>_ m. \<exists>R. R \<subseteq> set gone \<and> tab m0 (cleared rs R f) m \<and> hooked m0)"
proof (rule triple_bind [where R = "\<lambda>fs m. \<exists>R. R \<subseteq> set gone \<and> tab m0 (cleared rs R f) m \<and> (fs = [] \<and> R = set gone \<or> fs \<noteq> [] \<and> hooked m0)"])
  show "triple (tab m0 f) (remove_versions (abs_path rs) gone [])
      (\<lambda>fs m. \<exists>R. R \<subseteq> set gone \<and> tab m0 (cleared rs R f) m \<and> (fs = [] \<and> R = set gone \<or> fs \<noteq> [] \<and> hooked m0))
      (\<lambda>_ m. \<exists>R. R \<subseteq> set gone \<and> tab m0 (cleared rs R f) m \<and> hooked m0)"
    using assms by (intro triple_weaken [OF remove_versions_plain [of f rs "{}"]]) auto
  show "triple (\<lambda>m. \<exists>R. R \<subseteq> set gone \<and> tab m0 (cleared rs R f) m \<and> (fs = [] \<and> R = set gone \<or> fs \<noteq> [] \<and> hooked m0))
      (if fs \<noteq> [] then throw (ErrIncompleteGC # concat fs) else ret ()) (\<lambda>_. tab m0 (cleared rs (set gone) f))
      (\<lambda>_ m. \<exists>R. R \<subseteq> set gone \<and> tab m0 (cleared rs R f) m \<and> hooked m0)" for fs
    by (cases fs) (auto simp: triple_def throw_def ret_def)
qed

lemma gc_versions:
  assumes g: "gc_ready pf rs live pins f" and srt: "sorts srt" and h: "honest m0"
    and vs: "distinct vs" "set vs = installed_versions f rs" and lv: "ValidVersion live"
  shows "triple (tab m0 f) (bind (lift (retained srt vs live retain)) (\<lambda>keep.
      bind (wrap ErrIncompleteGC (ProbationPins (abs_path rs))) (\<lambda>pinned.
      removal rs (filter (\<lambda>v. v \<notin> set keep \<and> v \<notin> set pinned) vs))))
    (\<lambda>_. collected m0 f rs live pins (nat (retain - 1)) True) (\<lambda>_. collected m0 f rs live pins (nat (retain - 1)) False)"
proof -
  have vv: "\<forall>v\<in>set vs. ValidVersion v" using vs by (auto simp: installed_versions_def)
  obtain keep W where k: "retained srt vs live retain = Inr keep"
    "set keep = insert live (newer (set vs) live \<union> W)" "newest (older (set vs) live) (nat (retain - 1)) W"
    by (rule retained_ok [OF vv lv vs(1) srt])
  let ?gone = "filter (\<lambda>v. v \<notin> set keep \<and> v \<notin> set pins) vs"
  have gone: "set ?gone = expired (installed_versions f rs) live pins W" using vs(2) by (auto simp: expired_def k(2))
  have rm: "triple (tab m0 f) (removal rs ?gone) (\<lambda>_. collected m0 f rs live pins (nat (retain - 1)) True)
      (\<lambda>_. collected m0 f rs live pins (nat (retain - 1)) False)"
  proof (rule triple_weaken [OF removal_plain [of f rs ?gone m0, unfolded gone]])
    show "dirs_tab f (rs @ [VersionsName])" "wf_tab f" using g by (simp_all add: gc_ready_def)
    show "\<forall>v\<in>expired (installed_versions f rs) live pins W. ValidVersion v" by (simp add: expired_def installed_versions_def)
  qed (use k(3) vs(2) in \<open>auto simp: collected_def\<close>)
  show ?thesis
    unfolding k(1) bind_lift
  proof (rule triple_bind [where R = "\<lambda>x m. x = pins \<and> tab m0 f m"])
    show "triple (tab m0 f) (wrap ErrIncompleteGC (ProbationPins (abs_path rs))) (\<lambda>x m. x = pins \<and> tab m0 f m)
        (\<lambda>_. collected m0 f rs live pins (nat (retain - 1)) False)"
      using g h by (intro triple_wrap triple_weaken [OF ProbationPins_plain]) (auto simp: gc_ready_def intro: collected_none)
    show "triple (\<lambda>m. pinned = pins \<and> tab m0 f m) (removal rs (filter (\<lambda>v. v \<notin> set keep \<and> v \<notin> set pinned) vs))
        (\<lambda>_. collected m0 f rs live pins (nat (retain - 1)) True) (\<lambda>_. collected m0 f rs live pins (nat (retain - 1)) False)" for pinned
      using rm by (cases "pinned = pins") (simp_all add: triple_def)
  qed
qed

text \<open>
  C19.  The collection of old versions is exact.  In an install whose \<open>current\<close> names \<open>live\<close>, \<open>GC\<close> removes whole
  version directories and nothing else: never the live version, one newer than it, the version a probation would
  return to, or one of the \<open>retain - 1\<close> newest of the versions older than the live one, however the sort orders
  versions of equal precedence.  If it succeeds it has removed every other version; it fails only when a call of
  the filesystem does, and then only some of them are gone.
\<close>

theorem GC_exact:
  assumes "gc_ready pf rs live pins (node_at m)" "sorts srt" "MinRetain \<le> retain" "honest m"
    and "GC srt pf (abs_path rs) retain m = (r, m')"
  shows "\<exists>W R. newest (older (installed_versions (node_at m) rs) live) (nat (retain - 1)) W \<and>
    R \<subseteq> expired (installed_versions (node_at m) rs) live pins W \<and> node_at m' = cleared rs R (node_at m) \<and>
    (case r of Inr _ \<Rightarrow> R = expired (installed_versions (node_at m) rs) live pins W | Inl _ \<Rightarrow> hooked m)"
proof -
  let ?f = "node_at m" and ?n = "nat (retain - 1)"
  note g = assms(1) [unfolded gc_ready_def]
  have dr: "dirs_tab ?f rs" using g by (blast intro: dirs_tab_parent)
  have lv: "live \<noteq> []" "ValidVersion live" using g by (auto simp: ptr.points_def)
  have root: "check_stager (abs_path rs) = Inr ()" by (simp add: check_stager_def abs_path_def)
  have "triple (tab m ?f) (GC srt pf (abs_path rs) retain) (\<lambda>_. collected m ?f rs live pins ?n True)
      (\<lambda>_. collected m ?f rs live pins ?n False)"
  proof -
    let ?C = "\<lambda>ok. collected m ?f rs live pins ?n ok"
    have all: "triple (tab m ?f) (bind (InstalledVersions (abs_path rs)) (\<lambda>vs. bind (lift (retained srt vs live retain)) (\<lambda>keep.
        bind (wrap ErrIncompleteGC (ProbationPins (abs_path rs))) (\<lambda>pinned.
        removal rs (filter (\<lambda>v. v \<notin> set keep \<and> v \<notin> set pinned) vs))))) (\<lambda>_. ?C True) (\<lambda>_. ?C False)"
    proof (rule triple_bind)
      show "triple (tab m ?f) (InstalledVersions (abs_path rs)) (\<lambda>vs m'. tab m ?f m' \<and> distinct vs \<and> set vs = installed_versions ?f rs) (\<lambda>_. ?C False)"
        using g by (intro triple_weaken [OF InstalledVersions_plain]) auto
    qed (auto intro!: triple_fact gc_versions [OF assms(1,2,4) _ _ lv(2)])
    show ?thesis
      unfolding GC_def root bind_lift
    proof (rule triple_if, use assms(3) in simp, rule triple_bind [where R = "\<lambda>x m'. x = live \<and> tab m ?f m'"])
      show "triple (tab m ?f) (PointerTarget pf (abs_path rs)) (\<lambda>x m'. x = live \<and> tab m ?f m') (\<lambda>_. ?C False)"
        using g by (intro triple_weaken [OF PointerTarget_plain [OF dr]]) (auto intro: collected_none)
    next
      fix x
      show "triple (\<lambda>m'. x = live \<and> tab m ?f m') (if x = [] then ret () else
          bind (InstalledVersions (abs_path rs)) (\<lambda>vs. bind (lift (retained srt vs x retain)) (\<lambda>keep.
          bind (wrap ErrIncompleteGC (ProbationPins (abs_path rs))) (\<lambda>pinned.
          removal rs (filter (\<lambda>v. v \<notin> set keep \<and> v \<notin> set pinned) vs))))) (\<lambda>_. ?C True) (\<lambda>_. ?C False)"
        using all lv(1) by (cases "x = live") (simp_all add: triple_def)
    qed
  qed
  then have "case r of Inr _ \<Rightarrow> collected m ?f rs live pins ?n True m' | Inl _ \<Rightarrow> collected m ?f rs live pins ?n False m'"
    using tab_same [of m] assms(5) by (cases r) (auto simp: triple_def)
  then show ?thesis by (cases r) (auto simp: collected_def tab_def)
qed

section \<open>A collection\<close>

lemma mset_stable_sort: "mset (stable_sort lt xs) = mset xs"
proof -
  have "mset (insert_by lt x ys) = add_mset x (mset ys)" for x ys by (induction ys) auto
  then show ?thesis by (induction xs) (auto simp: stable_sort_def)
qed

lemma sorts_stable: "sorts stable_sort"
  unfolding sorts_def
proof (intro allI impI conjI mset_stable_sort)
  let ?le = "\<lambda>a b. version_key b \<le> version_key a"
  have before: "newer_first a b \<longleftrightarrow> version_key b < version_key a" if "ValidVersion a" "ValidVersion b" for a b
    using that by (simp add: newer_first_def Compare_key cmp_key_simps)
  have set_insert: "set (insert_by newer_first x ys) = insert x (set ys)" for x ys by simp
  have ins: "sorted_wrt ?le (insert_by newer_first x ys)"
    if "ValidVersion x" "\<forall>y\<in>set ys. ValidVersion y" "sorted_wrt ?le ys" for x ys
    using that
  proof (induction ys)
    case (Cons y ys)
    then show ?case by (cases "version_key x < version_key y") (auto simp: before intro: order.trans)
  qed simp
  fix xs :: "string list"
  assume "\<forall>v\<in>set xs. ValidVersion v"
  then show "sorted_wrt ?le (stable_sort newer_first xs)"
  proof (induction xs)
    case (Cons x xs)
    then show ?case using ins [of x "stable_sort newer_first xs"] set_stable_sort [of newer_first xs] by (simp add: stable_sort_def)
  qed (simp add: stable_sort_def)
qed

definition sample_collection :: mem where
  "sample_collection = (sample_disk ''1.1.0'' sample_committed)
     \<lparr>nodes := (''/versions/0.9.0'', dir_node 0x1ED) # nodes (sample_disk ''1.1.0'' sample_committed)\<rparr>"

lemma sample_collection_ready: "gc_ready symlinkPointer [] ''1.1.0'' [] (node_at sample_collection)"
proof -
  let ?f = "node_at (sample_disk ''1.1.0'' sample_committed)"
  have f: "node_at sample_collection = ?f(''/versions/0.9.0'' \<mapsto> dir_node 0x1ED)"
    by (simp add: sample_collection_def sample_disk_def node_at_def fun_eq_iff)
  have k: "abs_path ([VersionsName] @ [''0.9.0'']) = ''/versions/0.9.0''" by (simp add: abs_path_def layout_names)
  have v: "simple ''0.9.0''" by (rule simple_version) code_simp
  have inv: "update_inv sample_update ''1.1.0'' sample_committed ?f" by (rule sample_inv) (use sample_histories [of sample_committed] in auto)
  then have d: "dirs_tab ?f [VersionsName]" "dirs_tab ?f [MetaName]" "wf_tab ?f" "ptr.points symlinkPointer ?f [] ''1.1.0''"
    by (simp_all add: update_inv_def base_ok_def sample_update_def)
  have "dirs_tab (?f(''/versions/0.9.0'' \<mapsto> dir_node 0x1ED)) [VersionsName]"
    by (rule dirs_tab_upd [OF d(1) v k [symmetric]])
  moreover have "dirs_tab (?f(''/versions/0.9.0'' \<mapsto> dir_node 0x1ED)) [MetaName]"
    using d(2) by (auto simp: dirs_tab_def abs_path_def layout_names less_Suc_eq_le le_Suc_eq)
  moreover have "wf_tab (?f(''/versions/0.9.0'' \<mapsto> dir_node 0x1ED))"
    by (rule wf_tab_file [OF d(3,1) v k [symmetric]]) (simp add: sample_node)
  moreover have "ptr.points symlinkPointer (?f(''/versions/0.9.0'' \<mapsto> dir_node 0x1ED)) [] ''1.1.0''"
    using d(4) by (subst ptr.points_cong [of _ _ ?f]) (simp add: abs_path_def layout_names)
  moreover have "?f (abs_path [MetaName, ProbationName]) = None" by (simp add: sample_node abs_path_def layout_names)
  ultimately show ?thesis by (simp add: gc_ready_def f record_pins_def) (simp add: abs_path_def layout_names)
qed

theorem GC_exact_witness:
  "\<exists>W R. newest (older (installed_versions (node_at sample_collection) []) ''1.1.0'') (nat (2 - 1)) W \<and>
    R \<subseteq> expired (installed_versions (node_at sample_collection) []) ''1.1.0'' [] W \<and>
    node_at (snd (GC stable_sort symlinkPointer ''/'' 2 sample_collection)) = cleared [] R (node_at sample_collection) \<and>
    R = expired (installed_versions (node_at sample_collection) []) ''1.1.0'' [] W"
proof -
  have h: "\<not> hooked sample_collection" by (simp add: hooked_def sample_collection_def sample_disk_def NewMem_def)
  let ?res = "GC stable_sort symlinkPointer (abs_path []) 2 sample_collection"
  have root: "''/'' = abs_path []" by (simp add: abs_path_def)
  show ?thesis
    unfolding root
    using GC_exact [OF sample_collection_ready sorts_stable _ not_hooked_honest [OF h] prod.collapse [symmetric], of 2] h
    by (cases "fst ?res") (auto simp: MinRetain_def)
qed

end
