(* ===== verification/Staging.thy ===== *)
theory Staging
  imports Stage Planner Route
begin

text \<open>
  \<open>core/stage\<close>: \<open>Stage\<close> and what it calls to write a verified release into a new version directory, by reuse of
  installed files (\<open>reuse.go\<close>), by delta patches (\<open>route.go\<close>) or by download.

  The trust client is the interface \<open>Materializer\<close>.  Its answers may change over time, which is the number of
  filesystem calls so far, as for the failure hook; so may the cancellation of the context.  \<open>Materialize\<close> and
  \<open>VerifyStream\<close> are given by the pieces they offer their writer, or read, and by their own verdict.  Progress reports
  are left out.
\<close>

type_synonym stream = "string list \<times> error option"

record Materializer =
  mt_length :: "nat \<Rightarrow> string \<Rightarrow> int result"
  mt_fetch :: "nat \<Rightarrow> string \<Rightarrow> string list \<times> unit result"
  mt_verify :: "nat \<Rightarrow> string \<Rightarrow> stream \<Rightarrow> string list \<times> unit result"

definition scratchName :: string where "scratchName = ''.scratch''"

definition now :: "(mem, nat) prog" where
  "now m = (Inr (calls m), m)"

section \<open>Streams\<close>

text \<open>What the reads of a copy return of some bytes.\<close>

function windows :: "string \<Rightarrow> string list" where
  "windows bs = (if bs = [] then [] else take CopyBufferSize bs # windows (drop CopyBufferSize bs))"
  by pat_completeness auto
termination by (relation "measure length") (auto simp: CopyBufferSize_def)

declare windows.simps [simp del]

definition file_stream :: "memFile \<Rightarrow> stream" where
  "file_stream f = (case reader f of None \<Rightarrow> ([], Some [ErrIsDir]) | Some bs \<Rightarrow> (windows bs, None))"

definition write_pieces :: "memWriter \<Rightarrow> string list \<Rightarrow> (mem, unit) prog" where
  "write_pieces w ps = for_each ps (Write w)"

text \<open>\<open>s.Trust.Materialize\<close> into a writer.\<close>

definition fetch_into :: "Materializer \<Rightarrow> string \<Rightarrow> memWriter \<Rightarrow> (mem, unit) prog" where
  "fetch_into T target w =
     bind now (\<lambda>k. case mt_fetch T k target of (ps, r) \<Rightarrow>
       bind (wrap ErrStream (write_pieces w ps)) (\<lambda>_. lift r))"

text \<open>\<open>copyVerified\<close>; no writer is \<open>io.Discard\<close>.\<close>

definition copyVerified :: "Materializer \<Rightarrow> string \<Rightarrow> string \<Rightarrow> memWriter option \<Rightarrow> (mem, unit) prog" where
  "copyVerified T name target out =
     bind (Open name) (\<lambda>f. bind now (\<lambda>k.
       case mt_verify T k target (file_stream f) of (ps, r) \<Rightarrow>
         bind (case out of None \<Rightarrow> ret () | Some w \<Rightarrow> wrap ErrStream (write_pieces w ps)) (\<lambda>_. lift r)))"

section \<open>Reuse of installed files\<close>

definition reuseSources :: "string \<Rightarrow> string \<Rightarrow> string \<Rightarrow> (mem, string list) prog" where
  "reuseSources root live staging =
     attempt (InstalledVersions root) (\<lambda>_. ret []) (\<lambda>versions.
       let others = stable_sort newer_first (filter (\<lambda>v. \<not> (v = live \<or> v = staging)) versions) in
       ret (map (\<lambda>v. Join [Versions root, v]) (if live \<noteq> [] then live # others else others)))"

definition plausible :: "string \<Rightarrow> int \<Rightarrow> (mem, bool) prog" where
  "plausible name want =
     attempt (Lstat name) (\<lambda>_. ret False)
       (\<lambda>info. ret (IsRegular (inode info) \<and> int (length (data (inode info))) = want))"

fun reuse_from :: "Materializer \<Rightarrow> string \<Rightarrow> FileRef \<Rightarrow> string \<Rightarrow> int \<Rightarrow> string list \<Rightarrow> (mem, bool) prog" where
  "reuse_from T full f dst want [] = ret False"
| "reuse_from T full f dst want (dir # dirs) =
     (let name = Join [dir, dst] in
      bind (plausible name want) (\<lambda>ok.
      if \<not> ok then reuse_from T full f dst want dirs
      else attempt (WriteStreamAtomic full (file_mode f) (\<lambda>w. copyVerified T name (fr_target f) (Some w)))
        (\<lambda>_. reuse_from T full f dst want dirs) (\<lambda>_. ret True)))"

definition reuse :: "Materializer \<Rightarrow> string \<Rightarrow> FileRef \<Rightarrow> string \<Rightarrow> string list \<Rightarrow> (mem, bool) prog" where
  "reuse T full f dst sources =
     bind now (\<lambda>k. case mt_length T k (fr_target f) of
        Inl _ \<Rightarrow> ret False
      | Inr want \<Rightarrow> if want \<le> 0 then ret False else reuse_from T full f dst want sources)"

fun base_from :: "Materializer \<Rightarrow> string \<Rightarrow> string \<Rightarrow> int \<Rightarrow> string list \<Rightarrow> (mem, string option) prog" where
  "base_from T target dst want [] = ret None"
| "base_from T target dst want (dir # dirs) =
     (let name = Join [dir, dst] in
      bind (plausible name want) (\<lambda>ok.
      if \<not> ok then base_from T target dst want dirs
      else attempt (copyVerified T name target None) (\<lambda>_. base_from T target dst want dirs) (\<lambda>_. ret (Some name))))"

definition localBase :: "Materializer \<Rightarrow> string \<Rightarrow> string \<Rightarrow> string list \<Rightarrow> (mem, string option) prog" where
  "localBase T target dst sources =
     bind now (\<lambda>k. case mt_length T k target of
        Inl _ \<Rightarrow> ret None
      | Inr want \<Rightarrow> if want \<le> 0 then ret None else base_from T target dst want sources)"

section \<open>Patches\<close>

definition OpenReaderAt :: "string \<Rightarrow> (mem, string) prog" where
  "OpenReaderAt name =
     bind (Open name) (\<lambda>f.
     if \<not> IsRegular (fnode f) then throw []
     else (case reader f of None \<Rightarrow> throw [ErrIsDir] | Some bs \<Rightarrow> ret bs))"

text \<open>
  \<open>hop\<close>: every piece of the output is written to \<open>w\<close>, then through a pipe to the verifier.  A verifier that has
  ended no longer reads the pipe: the first piece it does not take up whole is the last one.
\<close>

fun taken_pieces :: "nat \<Rightarrow> string list \<Rightarrow> string list" where
  "taken_pieces n [] = []"
| "taken_pieces n (p # ps) = p # (if length p \<le> n then taken_pieces (n - length p) ps else [])"

definition apply_hop ::
    "Materializer \<Rightarrow> flate_reader \<Rightarrow> string \<Rightarrow> string \<Rightarrow> string \<Rightarrow> int \<Rightarrow> memWriter \<Rightarrow> (mem, unit) prog" where
  "apply_hop T inflate base patch target want w =
     bind (OpenReaderAt base) (\<lambda>b.
     bind (OpenReaderAt patch) (\<lambda>p.
     bind now (\<lambda>k.
       let (ps, r) = ApplyPatchStream inflate b p want;
           (qs, v) = mt_verify T k target (ps, case r of Inl e \<Rightarrow> Some e | Inr _ \<Rightarrow> None);
           taken = taken_pieces (length (concat qs)) ps
       in bind (write_pieces w taken) (\<lambda>_.
            if length (concat qs) < length (concat taken) \<or> length taken < length ps
            then throw (case v of Inl e \<Rightarrow> e | Inr _ \<Rightarrow> [])
            else (case r of Inl e \<Rightarrow> throw e | Inr _ \<Rightarrow> lift v)))))"

definition spill :: "Materializer \<Rightarrow> string \<Rightarrow> string \<Rightarrow> string \<Rightarrow> (mem, string) prog" where
  "spill T scratch nm target =
     (let name = Join [scratch, nm] in
      bind (WriteStreamAtomic name 0x180 (\<lambda>w. fetch_into T target w)) (\<lambda>_. ret name))"

text \<open>The hops, in order; the result is whether all were taken, and the scratch files that were made.\<close>

fun run_hops ::
    "Materializer \<Rightarrow> flate_reader \<Rightarrow> string \<Rightarrow> 32 word \<Rightarrow> string \<Rightarrow> nat \<Rightarrow> hop list \<Rightarrow> string \<Rightarrow> string list
      \<Rightarrow> (mem, bool \<times> string list) prog" where
  "run_hops T inflate full md scratch i [] base spills = ret (True, spills)"
| "run_hops T inflate full md scratch i (h # hs) base spills =
     attempt (spill T scratch (''patch'' @ show_nat i) (h_patch h)) (\<lambda>_. ret (False, spills)) (\<lambda>patch.
     bind now (\<lambda>k. case mt_length T k (h_to h) of
       Inl _ \<Rightarrow> ret (False, spills @ [patch])
     | Inr want \<Rightarrow>
         let out = (if hs = [] then full else Join [scratch, ''hop'' @ show_nat i]);
             spills' = spills @ [patch] @ (if hs = [] then [] else [out]) in
         attempt (WriteStreamAtomic out (if hs = [] then md else 0x180) (\<lambda>w. apply_hop T inflate base patch (h_to h) want w))
           (\<lambda>_. ret (False, spills')) (\<lambda>_. run_hops T inflate full md scratch (i + 1) hs out spills')))"

definition patched ::
    "Materializer \<Rightarrow> flate_reader \<Rightarrow> string \<Rightarrow> FileRef \<Rightarrow> string \<Rightarrow> string list \<Rightarrow> Route \<Rightarrow> string \<Rightarrow> (mem, bool) prog" where
  "patched T inflate full f dst sources routes scratch =
     (let lineage = collapse (routes dst) in
      if length lineage < 2 \<or> last lineage \<noteq> fr_target f then ret False
      else bind now (\<lambda>k. case mt_length T k (fr_target f) of
        Inl _ \<Rightarrow> ret False
      | Inr whole \<Rightarrow>
          (case cheapest lineage (mt_length T k) of (hops, cost) \<Rightarrow>
             if hops = [] \<or> cost \<ge> whole then ret False
             else bind (localBase T (hd lineage) dst sources) (\<lambda>b. case b of
                 None \<Rightarrow> ret False
               | Some base \<Rightarrow>
                   bind (run_hops T inflate full (file_mode f) scratch 0 hops base []) (\<lambda>(ok, spills).
                   bind (for_each spills (\<lambda>name. ignore (RemoveAll name))) (\<lambda>_. ret ok))))))"

section \<open>Staging a release\<close>

definition stageFile ::
    "Materializer \<Rightarrow> flate_reader \<Rightarrow> string \<Rightarrow> Launcher \<Rightarrow> string \<Rightarrow> string \<Rightarrow> FileRef \<Rightarrow> string list \<Rightarrow> Route \<Rightarrow> string
      \<Rightarrow> (mem, unit) prog" where
  "stageFile T inflate root launcher stageDir version f sources routes scratch =
     bind (wrap ErrStage (lift (SanitizeDst (fr_dst f)))) (\<lambda>dst.
     bind (makeDirs stageDir (Dir dst)) (\<lambda>dir.
     let full = Join [dir, Base dst] in
     bind (refuseSymlink full) (\<lambda>_.
     bind (reuse T full f dst sources) (\<lambda>reused.
     bind (if reused then ret True else patched T inflate full f dst sources routes scratch) (\<lambda>local.
     bind (if local then ret () else WriteStreamAtomic full (file_mode f) (\<lambda>w. fetch_into T (fr_target f) w)) (\<lambda>_.
     if Launcher_Enabled launcher \<and> dst = l_source launcher
     then wrap ErrStage (WriteLauncherPendingStream root version (l_name launcher)
            (\<lambda>w. copyVerified T full (fr_target f) (Some w)))
     else ret ()))))))"

definition check_ctx :: "(nat \<Rightarrow> error option) \<Rightarrow> (mem, unit) prog" where
  "check_ctx ctx = bind now (\<lambda>k. case ctx k of None \<Rightarrow> ret () | Some e \<Rightarrow> throw (ErrStage # e))"

text \<open>The rename that makes the tree a version, once every file is in place.\<close>

definition promote :: "string \<Rightarrow> string \<Rightarrow> string \<Rightarrow> (mem, string) prog" where
  "promote root stageDir versionDir =
     bind (attempt (Lstat versionDir) (\<lambda>e. if IsNotExist e then ret () else throw (ErrStage # e)) (\<lambda>_. throw [ErrStage])) (\<lambda>_.
     bind (wrap ErrStage (MkdirAll (Versions root) 0x1ED)) (\<lambda>_.
     bind (wrap ErrStage (Rename stageDir versionDir)) (\<lambda>_.
     attempt (SyncDir (Versions root))
       (\<lambda>e. bind (ignore (RemoveAll versionDir)) (\<lambda>_. throw (ErrStage # e)))
       (\<lambda>_. ret versionDir))))"

text \<open>A deferred call: whatever the rest returns, it runs last, and its own error is dropped.\<close>

definition deferred :: "(mem, unit) prog \<Rightarrow> (mem, 'a) prog \<Rightarrow> (mem, 'a) prog" where
  "deferred p body = attempt body (\<lambda>e. bind (ignore p) (\<lambda>_. throw e)) (\<lambda>x. bind (ignore p) (\<lambda>_. ret x))"

definition stage_files ::
    "Materializer \<Rightarrow> flate_reader \<Rightarrow> (nat \<Rightarrow> error option) \<Rightarrow> string \<Rightarrow> Launcher \<Rightarrow> string \<Rightarrow> Descriptor \<Rightarrow> string list
      \<Rightarrow> Route \<Rightarrow> string \<Rightarrow> (mem, unit) prog" where
  "stage_files T inflate ctx root launcher stageDir d sources routes scratch =
     for_each (elems (ds_files d)) (\<lambda>f. bind (check_ctx ctx) (\<lambda>_.
       stageFile T inflate root launcher stageDir (ds_version d) f sources routes scratch))"

definition Stage ::
    "Materializer option \<Rightarrow> flate_reader \<Rightarrow> pointerForm \<Rightarrow> (nat \<Rightarrow> error option) \<Rightarrow> string \<Rightarrow> Launcher \<Rightarrow> Descriptor option
      \<Rightarrow> Route \<Rightarrow> (mem, string) prog" where
  "Stage trust inflate pf ctx root launcher descriptor routes =
     bind (lift (check_stager root)) (\<lambda>_.
     case trust of None \<Rightarrow> throw [ErrStage] | Some T \<Rightarrow>
     case descriptor of None \<Rightarrow> throw [ErrStage] | Some d \<Rightarrow>
     bind (lift (Launcher_Validate launcher)) (\<lambda>_.
     bind (lift (VersionDir root (ds_version d))) (\<lambda>versionDir.
     bind (PointerTarget pf root) (\<lambda>live.
     if live = ds_version d then throw [ErrStage]
     else
       let stageDir = Join [Staging root, ds_version d]; scratch = Join [Staging root, scratchName] in
       bind (wrap ErrStage (RemoveAll stageDir)) (\<lambda>_.
       bind (wrap ErrStage (MkdirAll stageDir DirMode)) (\<lambda>_.
       bind (wrap ErrStage (RemoveLauncherPending root (ds_version d))) (\<lambda>_.
       bind (wrap ErrStage (MkdirAll scratch DirMode)) (\<lambda>_.
       deferred (RemoveAll scratch)
         (bind (reuseSources root live (ds_version d)) (\<lambda>sources.
          bind (stage_files T inflate ctx root launcher stageDir d sources routes scratch) (\<lambda>_.
          promote root stageDir versionDir)))))))))))"

end
