(* ===== verification/StagingTree.thy ===== *)
theory StagingTree
  imports Staging ReleaseLaws StageLaws
begin

text \<open>
  The tree a release is staged into: which keys may be in it and with what, and that the writes of staging keep it so.
\<close>

section \<open>Keys\<close>

lemma dirs_tab_upd2:
  assumes "dirs_tab f ds" "simples qs" "\<not> prefix qs ds"
  shows "dirs_tab (f(abs_path qs := t)) ds"
proof -
  have "abs_path (take i ds) \<noteq> abs_path qs" for i
  proof
    assume e: "abs_path (take i ds) = abs_path qs"
    have "simples (take i ds)" using assms(1) by (auto simp: dirs_tab_def simples_def dest: in_set_takeD)
    then have "qs = take i ds" using e assms(2) abs_path_inj by metis
    then show False using assms(3) take_is_prefix by metis
  qed
  then show ?thesis using assms(1) by (simp add: dirs_tab_def)
qed

lemma dirs_tab_cong: "dirs_tab f ds \<Longrightarrow> (\<And>i. i \<le> length ds \<Longrightarrow> g (abs_path (take i ds)) = f (abs_path (take i ds))) \<Longrightarrow> dirs_tab g ds"
  by (simp add: dirs_tab_def)

lemma dirs_tab_keep:
  assumes f: "dirs_tab f (ds @ es)" and g: "dirs_tab g ds"
    and k: "\<And>us. simples us \<Longrightarrow> g (abs_path (ds @ us)) = f (abs_path (ds @ us))"
  shows "dirs_tab g (ds @ es)"
  unfolding dirs_tab_def
proof (intro conjI allI impI)
  show s: "simples (ds @ es)" using f by (simp add: dirs_tab_def)
  fix i
  assume i: "i \<le> length (ds @ es)"
  show "\<exists>n. g (abs_path (take i (ds @ es))) = Some n \<and> isDir n \<and> \<not> isSymlink n"
  proof (cases "i \<le> length ds")
    case True
    then show ?thesis using g by (auto simp: dirs_tab_def)
  next
    case False
    then have "take i (ds @ es) = ds @ take (i - length ds) es" by simp
    moreover have "simples (take (i - length ds) es)" using s by (auto simp: simples_def dest: in_set_takeD)
    ultimately show ?thesis using k f i by (metis dirs_tab_def)
  qed
qed

definition dst_elems :: "FileRef \<Rightarrow> string list" where
  "dst_elems f = split_on slash (fr_dst f)"

definition file_paths :: "string list \<Rightarrow> FileRef list \<Rightarrow> string set" where
  "file_paths ds fs = {abs_path (ds @ dst_elems f) |f. f \<in> set fs}"

definition dir_paths :: "string list \<Rightarrow> FileRef list \<Rightarrow> string set" where
  "dir_paths ds fs = {abs_path (ds @ take i (dst_elems f)) |f i. f \<in> set fs \<and> 0 < i \<and> i < length (dst_elems f)}"

text \<open>
  The files of a release can stand side by side: their destinations are safe, no two are the same, none lies below
  another, and none has an element that looks like a scratch name.
\<close>

definition placed :: "FileRef list \<Rightarrow> bool" where
  "placed fs \<longleftrightarrow> distinct (map fr_dst fs) \<and>
     (\<forall>f\<in>set fs. safe_rel (fr_dst f) (dst_elems f) \<and> (\<forall>e\<in>set (dst_elems f). \<not> scratch_name e)) \<and>
     (\<forall>f\<in>set fs. \<forall>g\<in>set fs. \<not> strict_prefix (dst_elems g) (dst_elems f))"

lemma placed_elems:
  assumes "placed fs" "f \<in> set fs"
  shows "simples (dst_elems f)" "dst_elems f \<noteq> []" "fr_dst f = join_with ''/'' (dst_elems f)" "\<forall>e\<in>set (dst_elems f). \<not> scratch_name e"
  using assms good_simples by (auto simp: placed_def safe_rel_def)

lemma path_base_abs2: "simples (ds @ [e]) \<Longrightarrow> path_base (abs_path (ds @ [e])) = e"
  using path_base_abs [of e ds] by simp

lemma dir_path_base:
  assumes "placed fs" "q \<in> dir_paths ds fs" "simples ds"
  shows "\<not> scratch_name (path_base q)"
proof -
  obtain f i where f: "f \<in> set fs" "0 < i" "i < length (dst_elems f)" "q = abs_path (ds @ take i (dst_elems f))"
    using assms(2) by (auto simp: dir_paths_def)
  note e = placed_elems [OF assms(1) f(1)]
  obtain j where j: "i = Suc j" using f(2) by (cases i) auto
  have t: "take i (dst_elems f) = take j (dst_elems f) @ [dst_elems f ! j]" using f(3) j by (simp add: take_Suc_conv_app_nth)
  have "simples ((ds @ take j (dst_elems f)) @ [dst_elems f ! j])"
    using e(1) assms(3) f(3) j by (auto simp: simples_def dest: in_set_takeD)
  then have "path_base q = dst_elems f ! j" using path_base_abs2 [of "ds @ take j (dst_elems f)"] by (simp add: f(4) t)
  then show ?thesis using e(4) f(3) j by simp
qed

lemma dir_path_not_file:
  assumes "placed fs" "q \<in> dir_paths ds fs" "simples ds"
  shows "q \<notin> file_paths ds fs"
proof
  assume "q \<in> file_paths ds fs"
  then obtain f g i where f: "f \<in> set fs" "g \<in> set fs" "i < length (dst_elems f)" "abs_path (ds @ take i (dst_elems f)) = abs_path (ds @ dst_elems g)"
    using assms(2) by (auto simp: dir_paths_def file_paths_def)
  have "simples (take i (dst_elems f))" using placed_elems(1) [OF assms(1) f(1)] by (auto simp: simples_def dest: in_set_takeD)
  then have "take i (dst_elems f) = dst_elems g"
    using f(4) assms(3) placed_elems(1) [OF assms(1) f(2)] abs_path_inj [of "ds @ take i (dst_elems f)" "ds @ dst_elems g"] by simp
  then have "strict_prefix (dst_elems g) (dst_elems f)" using f(3) by (metis not_less order_refl strict_prefixI take_all_iff take_is_prefix)
  then show False using assms(1) f(1,2) by (auto simp: placed_def)
qed

section \<open>The tree\<close>

text \<open>A file with a scratch name somewhere below \<open>ds\<close>.\<close>

definition scratch_key :: "string list \<Rightarrow> string \<Rightarrow> bool" where
  "scratch_key ds q \<longleftrightarrow> (\<exists>us x. q = abs_path (ds @ us @ [x]) \<and> simples (us @ [x]) \<and> scratch_name x)"

lemma scratch_key_base: "scratch_key ds q \<Longrightarrow> simples ds \<Longrightarrow> scratch_name (path_base q)"
  using path_base_abs2 [of "ds @ us" x for us x] by (auto simp: scratch_key_def)

text \<open>Below \<open>ds\<close> there are only the directories and the files of the release and scratch files.\<close>

definition tree_ok :: "string list \<Rightarrow> FileRef list \<Rightarrow> (string \<Rightarrow> memNode option) \<Rightarrow> bool" where
  "tree_ok ds fs f \<longleftrightarrow> (\<forall>q n. in_tree (abs_path ds) q \<longrightarrow> q \<noteq> abs_path ds \<longrightarrow> f q = Some n \<longrightarrow> \<not> isSymlink n \<and>
     (isDir n \<and> q \<in> dir_paths ds fs \<or> \<not> isDir n \<and> (q \<in> file_paths ds fs \<or> scratch_key ds q)))"

definition has_file :: "(string \<Rightarrow> string \<Rightarrow> bool) \<Rightarrow> (string \<Rightarrow> memNode option) \<Rightarrow> string list \<Rightarrow> FileRef \<Rightarrow> bool" where
  "has_file authentic f ds g \<longleftrightarrow>
     (\<exists>bs. f (abs_path (ds @ dst_elems g)) = Some (file_node (file_mode g) bs) \<and> authentic (fr_target g) bs)"

text \<open>The complete release is below \<open>ds\<close>, every file with bytes that are the signed ones of its target.\<close>

definition complete_tree :: "(string \<Rightarrow> string \<Rightarrow> bool) \<Rightarrow> string list \<Rightarrow> FileRef list \<Rightarrow> (string \<Rightarrow> memNode option) \<Rightarrow> bool" where
  "complete_tree authentic ds fs f \<longleftrightarrow> tree_ok ds fs f \<and> (\<forall>g\<in>set fs. has_file authentic f ds g)"

abbreviation staging_dir :: "string list \<Rightarrow> string list" where "staging_dir rs \<equiv> rs @ [MetaName, StagingName]"
abbreviation stage_dir :: "string list \<Rightarrow> string \<Rightarrow> string list" where "stage_dir rs v \<equiv> rs @ [MetaName, StagingName, v]"
abbreviation scratch_dir :: "string list \<Rightarrow> string list" where "scratch_dir rs \<equiv> rs @ [MetaName, StagingName, scratchName]"
abbreviation pending_dir :: "string list \<Rightarrow> string \<Rightarrow> string list" where
  "pending_dir rs v \<equiv> rs @ [MetaName, StagingName, v @ launcherPendingSuffix]"
abbreviation version_dir :: "string list \<Rightarrow> string \<Rightarrow> string list" where "version_dir rs v \<equiv> rs @ [VersionsName, v]"

definition scratch_clean :: "string list \<Rightarrow> (string \<Rightarrow> memNode option) \<Rightarrow> bool" where
  "scratch_clean rs f \<longleftrightarrow> (\<forall>q n. in_tree (abs_path (scratch_dir rs)) q \<longrightarrow> q \<noteq> abs_path (scratch_dir rs) \<longrightarrow> f q = Some n \<longrightarrow>
     \<not> isDir n \<and> \<not> isSymlink n)"

text \<open>
  A table during staging: outside the staging area it is \<open>f0\<close>.  A launcher is pending only where \<open>f0\<close> lets it.
\<close>

definition stage_tab :: "(string \<Rightarrow> memNode option) \<Rightarrow> string list \<Rightarrow> string \<Rightarrow> FileRef list \<Rightarrow> (string \<Rightarrow> memNode option) \<Rightarrow> bool" where
  "stage_tab f0 rs v fs f \<longleftrightarrow> dirs_tab f (stage_dir rs v) \<and> dirs_tab f (scratch_dir rs) \<and> wf_tab f \<and>
     (\<forall>q. \<not> in_tree (abs_path (staging_dir rs)) q \<longrightarrow> f q = f0 q) \<and> tree_ok (stage_dir rs v) fs f \<and> scratch_clean rs f \<and>
     (f0 (abs_path (pending_dir rs v)) = None \<longrightarrow> f (abs_path (pending_dir rs v)) = None)"

lemma scratchName_simple: "simple scratchName"
  by (simp add: simple_def scratchName_def)

lemma scratchName_not_version: "ValidVersion v \<Longrightarrow> v \<noteq> scratchName"
  using valid_version_digit [of v] by (auto simp: scratchName_def is_digit_def)

text \<open>A key that staging may write: below the tree or the scratch area, with what may stand there.\<close>

lemma stage_tab_upd:
  assumes st: "stage_tab f0 rs v fs f" and pl: "placed fs" and v: "ValidVersion v"
    and dt: "dirs_tab f ds" and e: "simple e" and q: "q = abs_path (ds @ [e])"
    and t: "plain_file t" "\<And>n. f q = Some n \<Longrightarrow> \<not> isDir n"
    and at: "prefix (stage_dir rs v) ds \<and> (q \<in> file_paths (stage_dir rs v) fs \<or> scratch_key (stage_dir rs v) q) \<or> ds = scratch_dir rs"
  shows "stage_tab f0 rs v fs (f(q := t))" "dirs_tab (f(q := t)) ds"
proof -
  have s: "simples ds" "simples (stage_dir rs v)" "simples (scratch_dir rs)"
    using dt st by (simp_all add: stage_tab_def dirs_tab_def)
  have vs: "v \<noteq> scratchName" by (rule scratchName_not_version [OF v])
  have np: "\<not> prefix (ds @ [e]) (stage_dir rs v)" "\<not> prefix (ds @ [e]) (scratch_dir rs)"
    using at vs by (auto simp: prefix_def)
  have sq: "simples (ds @ [e])" using s e by simp
  have "in_tree (abs_path (staging_dir rs)) q"
    using at in_tree_abs [of "staging_dir rs" "ds @ [e]"] s sq by (auto simp: q prefix_def)
  moreover have "tree_ok (stage_dir rs v) fs (f(q := t))"
  proof (cases "ds = scratch_dir rs")
    case True
    then have "\<not> in_tree (abs_path (stage_dir rs v)) q"
      using in_tree_abs [of "stage_dir rs v" "ds @ [e]"] s sq vs by (simp add: q prefix_def)
    then show ?thesis using st by (auto simp: stage_tab_def tree_ok_def)
  next
    case False
    then show ?thesis using st t(1) at by (auto simp: stage_tab_def tree_ok_def plain_file_def)
  qed
  moreover have "scratch_clean rs (f(q := t))" using st t(1) by (auto simp: stage_tab_def scratch_clean_def plain_file_def)
  moreover have "q \<noteq> abs_path (pending_dir rs v)"
  proof -
    have "simples (pending_dir rs v)" using s simple_pending by simp
    then show ?thesis using at abs_path_inj [OF sq, of "pending_dir rs v"] by (auto simp: q prefix_def)
  qed
  moreover have "wf_tab (f(q := t))" using st t(2) by (intro wf_tab_file [OF _ dt e q]) (auto simp: stage_tab_def)
  ultimately show "stage_tab f0 rs v fs (f(q := t))"
    using st dirs_tab_upd2 [OF _ sq np(1)] dirs_tab_upd2 [OF _ sq np(2)] by (auto simp: stage_tab_def q)
  show "dirs_tab (f(q := t)) ds" by (rule dirs_tab_upd [OF dt e q])
qed

lemma file_path_base:
  assumes "placed fs" "g \<in> set fs" "simples ds"
  shows "path_base (abs_path (ds @ dst_elems g)) = last (dst_elems g)" "\<not> scratch_name (path_base (abs_path (ds @ dst_elems g)))"
proof -
  note e = placed_elems [OF assms(1,2)]
  obtain xs x where x: "dst_elems g = xs @ [x]" using e(2) by (cases "dst_elems g" rule: rev_cases) auto
  show b: "path_base (abs_path (ds @ dst_elems g)) = last (dst_elems g)"
    using path_base_abs2 [of "ds @ xs" x] e(1) assms(3) by (simp add: x)
  show "\<not> scratch_name (path_base (abs_path (ds @ dst_elems g)))" using e(2,4) by (simp add: b)
qed

lemma file_path_eq:
  assumes "placed fs" "g \<in> set fs" "h \<in> set fs" "simples ds" "abs_path (ds @ dst_elems g) = abs_path (ds @ dst_elems h)"
  shows "g = h"
proof -
  have "dst_elems g = dst_elems h"
    using assms(4,5) placed_elems(1) [OF assms(1,2)] placed_elems(1) [OF assms(1,3)] abs_path_inj [of "ds @ dst_elems g" "ds @ dst_elems h"] by simp
  then have "fr_dst g = fr_dst h" using placed_elems(3) [OF assms(1,2)] placed_elems(3) [OF assms(1,3)] by simp
  then show ?thesis using assms(1-3) by (auto simp: placed_def distinct_map inj_on_def)
qed

lemma tmp_key: "simples (ds @ [e]) \<Longrightarrow> tmp_of i (abs_path (ds @ [e])) k = abs_path (ds @ [e @ scratch_suffix i k]) \<and>
    simple (e @ scratch_suffix i k) \<and> path_base (tmp_of i (abs_path (ds @ [e])) k) = e @ scratch_suffix i k \<and>
    scratch_name (path_base (tmp_of i (abs_path (ds @ [e])) k))"
proof -
  assume s: "simples (ds @ [e])"
  then have t: "simple (e @ scratch_suffix i k)" by (simp add: simple_scratch)
  have "tmp_of i (abs_path (ds @ [e])) k = abs_path (ds @ [e @ scratch_suffix i k])" by (simp add: tmp_of_def abs_path_snoc)
  then show ?thesis using s t path_base_abs2 [of ds "e @ scratch_suffix i k"] scratch_name_suffix by simp
qed

section \<open>The writes of staging\<close>

text \<open>
  \<open>at_stage dn es m\<close>: the disk during staging, with the directories \<open>es\<close> below the tree and the files \<open>dn\<close> in place.
\<close>

definition at_stage ::
    "(string \<Rightarrow> string \<Rightarrow> bool) \<Rightarrow> mem \<Rightarrow> (string \<Rightarrow> memNode option) \<Rightarrow> string list \<Rightarrow> string \<Rightarrow> FileRef list \<Rightarrow> FileRef set \<Rightarrow> string list
      \<Rightarrow> mem \<Rightarrow> bool" where
  "at_stage authentic m0 f0 rs v fs dn es m \<longleftrightarrow> (\<exists>f. tab m0 f m \<and> stage_tab f0 rs v fs f \<and> dirs_tab f (stage_dir rs v @ es) \<and>
     (\<forall>g\<in>dn. has_file authentic f (stage_dir rs v) g))"

lemma stage_write:
  assumes st: "stage_tab f0 rs v fs f" and pl: "placed fs" and v: "ValidVersion v"
    and dt: "dirs_tab f ds" and e: "simple e" and name: "name = abs_path (ds @ [e])"
    and at: "prefix (stage_dir rs v) ds \<and> name \<in> file_paths (stage_dir rs v) fs \<or> ds = scratch_dir rs"
  shows "\<And>n. f name = Some n \<Longrightarrow> \<not> isDir n" "\<And>k. plain_file (f (tmp_of i name k))"
    and "plain_file t \<Longrightarrow> stage_tab f0 rs v fs (f(tmp_of i name k := t)) \<and> dirs_tab (f(tmp_of i name k := t)) ds"
    and "stage_tab f0 rs v fs (f(tmp_of i name k := None, name \<mapsto> file_node md bs)) \<and>
      dirs_tab (f(tmp_of i name k := None, name \<mapsto> file_node md bs)) ds"
proof -
  have s: "simples (ds @ [e])" "simples (stage_dir rs v)" "simples (scratch_dir rs)"
    using dt e st by (simp_all add: stage_tab_def dirs_tab_def)
  note tk = tmp_key [OF s(1), folded name, of i]
  have below: "in_tree (abs_path ps) (abs_path (ds @ [x]))" "abs_path (ds @ [x]) \<noteq> abs_path ps"
    if "prefix ps ds" "simple x" "simples ps" "ps \<noteq> []" for ps x
  proof -
    have sx: "simples (ds @ [x])" using s(1) that(2) by simp
    show "in_tree (abs_path ps) (abs_path (ds @ [x]))" using in_tree_abs [OF that(3) sx that(4)] that(1) by simp
    show "abs_path (ds @ [x]) \<noteq> abs_path ps"
      using abs_path_inj [OF sx that(3)] that(1) by (auto simp: prefix_def)
  qed
  have plain: "\<not> isDir n \<and> \<not> isSymlink n" if x: "simple x" "f (abs_path (ds @ [x])) = Some n"
    and nd: "ds = scratch_dir rs \<or> abs_path (ds @ [x]) \<notin> dir_paths (stage_dir rs v) fs" for x n
    using at
  proof
    assume "prefix (stage_dir rs v) ds \<and> name \<in> file_paths (stage_dir rs v) fs"
    then have p: "prefix (stage_dir rs v) ds" by simp
    then have "ds \<noteq> scratch_dir rs" using scratchName_not_version [OF v] by (auto simp: prefix_def)
    then show ?thesis using st x nd below [OF p x(1) s(2)] unfolding stage_tab_def tree_ok_def by blast
  next
    assume "ds = scratch_dir rs"
    then show ?thesis using st x below [OF _ x(1) s(3)] unfolding stage_tab_def scratch_clean_def by blast
  qed
  show nd: "\<not> isDir n" if "f name = Some n" for n
    using plain [OF e, folded name] that at dir_path_not_file [OF pl _ s(2)] by blast
  show tp: "plain_file (f (tmp_of i name k))" for k
    using plain [of "e @ scratch_suffix i k", folded name] tk [of k] dir_path_base [OF pl _ s(2)] unfolding plain_file_def by metis
  have tn: "tmp_of i name k = abs_path (ds @ [e @ scratch_suffix i k])" "simple (e @ scratch_suffix i k)" for k using tk by auto
  have sk: "scratch_key (stage_dir rs v) (tmp_of i name k)" if "prefix (stage_dir rs v) ds" for k
  proof -
    from that obtain us where us: "ds = stage_dir rs v @ us" by (auto simp: prefix_def)
    show ?thesis unfolding scratch_key_def tn(1)
      using us s(1) tn(2) scratch_name_suffix by (intro exI [of _ us] exI [of _ "e @ scratch_suffix i k"]) auto
  qed
  have a1: "prefix (stage_dir rs v) ds \<and> (tmp_of i name k \<in> file_paths (stage_dir rs v) fs \<or> scratch_key (stage_dir rs v) (tmp_of i name k)) \<or> ds = scratch_dir rs"
    and a2: "prefix (stage_dir rs v) ds \<and> (name \<in> file_paths (stage_dir rs v) fs \<or> scratch_key (stage_dir rs v) name) \<or> ds = scratch_dir rs" for k
    using at sk by blast+
  have td: "\<not> isDir n" if "f (tmp_of i name k) = Some n" for n k using tp [of k] that by (simp add: plain_file_def)
  show one: "stage_tab f0 rs v fs (f(tmp_of i name k := t)) \<and> dirs_tab (f(tmp_of i name k := t)) ds" if "plain_file t" for t
    using stage_tab_upd [OF st pl v dt tn(2) tn(1) that td a1] by simp
  show "stage_tab f0 rs v fs (f(tmp_of i name k := None, name \<mapsto> file_node md bs)) \<and>
      dirs_tab (f(tmp_of i name k := None, name \<mapsto> file_node md bs)) ds"
  proof -
    have nd': "\<not> isDir n" if "(f(tmp_of i name k := None)) name = Some n" for n using nd that by (auto split: if_splits)
    show ?thesis
      using stage_tab_upd [OF one [of None, THEN conjunct1] pl v one [of None, THEN conjunct2] e name, of "Some (file_node md bs)"]
        nd' a2 by simp
  qed
qed

section \<open>The parts of a destination\<close>

lemma norm_elems_empty_last: "norm_elems r st (xs @ [[]]) = norm_elems r st xs"
  by (induction r st xs rule: norm_elems.induct) (auto split: list.splits)

lemma dst_parts:
  assumes "simples (ys @ [y])" "dst = join_with ''/'' (ys @ [y])"
  shows "Base dst = y" "Dir dst = (if ys = [] then ''.'' else join_with ''/'' ys)"
proof -
  have y: "simple y" "slash \<notin> set (rev y)" using assms(1) by (auto simp: simple_def)
  have split: "dst = (if ys = [] then y else join_with ''/'' ys @ slash # y)" by (simp add: assms(2) join_with_append)
  then show "Base dst = y" using y(1) path_base_end by (auto simp: Base_def Slash_def)
  show "Dir dst = (if ys = [] then ''.'' else join_with ''/'' ys)"
  proof (cases "ys = []")
    case True
    have "dropWhile (\<lambda>c. c \<noteq> slash) (rev y) = []" using y(2) by (auto simp: dropWhile_eq_Nil_conv)
    moreover have "path_clean [] = ''.''" by code_simp
    ultimately show ?thesis using True by (simp only: split Dir_def Slash_def path_dir_def rev.simps simp_thms if_True)
  next
    case False
    have d: "dropWhile (\<lambda>c. c \<noteq> slash) (rev y @ slash # rev (join_with ''/'' ys)) = slash # rev (join_with ''/'' ys)"
      by (rule dropWhile_until [OF y(2)])
    have j: "join_with ''/'' ys @ [slash] = join_with ''/'' (ys @ [[]])" using False by (simp add: join_with_append)
    have s: "simples ys" using assms(1) by simp
    have sp: "split_on slash (join_with ''/'' ys @ [slash]) = ys @ [[]]"
      unfolding j using split_on_join [of "ys @ [[]]" slash] s by (simp add: simples_no_slash)
    have nr: "\<not> rooted (join_with ''/'' ys @ [slash])"
      using join_not_rooted [OF s] False simples_join_Nil [OF s] by (cases "join_with ''/'' ys") (auto simp: rooted_def)
    have "path_clean (join_with ''/'' ys @ [slash]) = join_with ''/'' ys"
      using norm_simples [OF s, of False "[]"] False by (simp add: path_clean_def nr sp norm_elems_empty_last Let_def)
    then show ?thesis using False d by (simp add: split Dir_def Slash_def path_dir_def)
  qed
qed

lemma split_dir:
  assumes "simples ys" "ys \<noteq> []"
  shows "splitPath (join_with ''/'' ys) = ys" "join_with ''/'' ys \<noteq> ''.''" "join_with ''/'' ys \<noteq> []"
proof -
  have "Split (join_with ''/'' ys) = ys"
    unfolding Split_def Clean_path_def Slash_def
    using path_clean_simples [OF assms(2,1)] split_on_join [of ys slash] assms by (simp add: simples_no_slash)
  moreover have "filter (\<lambda>e. e \<noteq> [] \<and> e \<noteq> ''.'') ys = ys" using assms(1) by (induction ys) (auto simp: simple_def)
  ultimately show "splitPath (join_with ''/'' ys) = ys" by (simp add: splitPath_def)
  then have "ys = splitPath (join_with ''/'' ys)" by simp
  moreover have "splitPath ''.'' = []" by code_simp
  ultimately show "join_with ''/'' ys \<noteq> ''.''" "join_with ''/'' ys \<noteq> []" using assms simples_join_Nil [OF assms(1)] by auto
qed

text \<open>Making a directory of the tree.\<close>

lemma stage_tab_mkdir:
  assumes st: "stage_tab f0 rs v fs f" and pl: "placed fs" and v: "ValidVersion v"
    and dt: "dirs_tab f (stage_dir rs v @ xs)" and e: "simple e" and d: "d = abs_path ((stage_dir rs v @ xs) @ [e])"
    and at: "d \<in> dir_paths (stage_dir rs v) fs"
  shows "\<And>n. f d = Some n \<Longrightarrow> isDir n \<and> \<not> isSymlink n" "stage_tab f0 rs v fs (with_dir DirMode d f)"
    and "dirs_tab (with_dir DirMode d f) ((stage_dir rs v @ xs) @ [e])"
    and "x \<in> set fs \<Longrightarrow> has_file A f (stage_dir rs v) x \<Longrightarrow> has_file A (with_dir DirMode d f) (stage_dir rs v) x"
proof -
  have s: "simples (stage_dir rs v)" "simples ((stage_dir rs v @ xs) @ [e])" "simples (scratch_dir rs)"
    using st dt e by (auto simp: stage_tab_def dirs_tab_def)
  have below: "in_tree (abs_path (stage_dir rs v)) d" "d \<noteq> abs_path (stage_dir rs v)"
    using in_tree_abs [OF s(1,2)] abs_path_inj [OF s(2,1)] by (auto simp: d)
  have nf: "d \<notin> file_paths (stage_dir rs v) fs" by (rule dir_path_not_file [OF pl at s(1)])
  have ns: "\<not> scratch_key (stage_dir rs v) d" using scratch_key_base [OF _ s(1)] dir_path_base [OF pl at s(1)] by blast
  show real: "isDir n \<and> \<not> isSymlink n" if "f d = Some n" for n
    using st below that nf ns unfolding stage_tab_def tree_ok_def by blast
  show "dirs_tab (with_dir DirMode d f) ((stage_dir rs v @ xs) @ [e])" by (rule with_dir_dirs [OF dt e d real])
  have wf: "wf_tab (with_dir DirMode d f)" using st by (intro wf_with_dir [OF _ dt e d]) (simp add: stage_tab_def)
  have in_staging: "in_tree (abs_path (staging_dir rs)) d" using in_tree_abs [of "staging_dir rs", OF _ s(2)] s(1) by (simp add: d)
  have not_scratch: "\<not> in_tree (abs_path (scratch_dir rs)) d"
    using in_tree_abs [OF s(3,2)] scratchName_not_version [OF v] by (simp add: d)
  have np: "\<not> prefix ((stage_dir rs v @ xs) @ [e]) (stage_dir rs v)" "\<not> prefix ((stage_dir rs v @ xs) @ [e]) (scratch_dir rs)"
    using scratchName_not_version [OF v] by auto
  have "d \<noteq> abs_path (pending_dir rs v)"
  proof -
    have "simples (pending_dir rs v)" using s simple_pending by simp
    then show ?thesis using abs_path_inj [OF s(2), of "pending_dir rs v"] by (auto simp: d)
  qed
  note not_pending = this
  show "stage_tab f0 rs v fs (with_dir DirMode d f)"
  proof (cases "f d = None")
    case True
    have "isDir (dir_node DirMode)" "\<not> isSymlink (dir_node DirMode)" by simp_all
    then have "tree_ok (stage_dir rs v) fs (f(d \<mapsto> dir_node DirMode))" "scratch_clean rs (f(d \<mapsto> dir_node DirMode))"
      using st at not_scratch by (auto simp: stage_tab_def tree_ok_def scratch_clean_def)
    then show ?thesis
      using st wf in_staging dirs_tab_upd2 [OF _ s(2) np(1)] dirs_tab_upd2 [OF _ s(2) np(2)] True not_pending
      by (auto simp: stage_tab_def with_dir_def d)
  qed (use st in \<open>auto simp: with_dir_def\<close>)
  show "has_file A (with_dir DirMode d f) (stage_dir rs v) x" if "x \<in> set fs" "has_file A f (stage_dir rs v) x"
    using that nf by (auto simp: has_file_def with_dir_def file_paths_def)
qed

end
