(* ===== verification/StagingLaws.thy ===== *)
theory StagingLaws
  imports StagingTree
begin

text \<open>
  Staging writes only verified bytes: the contract of the trust client as a locale, and what every step of a
  staging run keeps of the tree.
\<close>

section \<open>Programs on tables\<close>

lemma triple_tabs:
  "(\<And>f. C f \<Longrightarrow> triple (tab m0 f) p Q E) \<Longrightarrow> triple (\<lambda>m. \<exists>f. tab m0 f m \<and> C f) p Q E"
  by (rule tripleI) (blast dest: triple_Inr triple_Inl)+

lemma Lstat_tab: "triple P (Lstat name) (\<lambda>_. P) (\<lambda>_. P)"
  by (auto simp: triple_def Lstat_def stat_def split: sum.splits)

lemma Open_tab: "triple (tab m0 f) (Open name) (\<lambda>_. tab m0 f) (\<lambda>_. tab m0 f)"
  unfolding triple_def
proof (intro allI impI)
  fix m
  assume t: "tab m0 f m"
  show "case Open name m of (Inl e, m') \<Rightarrow> tab m0 f m' | (Inr _, m') \<Rightarrow> tab m0 f m'"
    by (cases rule: fail_cases' [OF t, of "''open''" "canon name"])
      (use t in \<open>auto simp: Open_def prog_simps split: sum.splits\<close>)
qed

lemma InstalledVersions_tab: "triple P (InstalledVersions root) (\<lambda>_. P) (\<lambda>_. P)"
  by (auto simp: triple_def InstalledVersions_def ReadDir_def prog_simps Let_def split: sum.splits prod.splits)

lemma OpenReaderAt_tab: "triple (tab m0 f) (OpenReaderAt name) (\<lambda>_. tab m0 f) (\<lambda>_. tab m0 f)"
  unfolding OpenReaderAt_def
  by (intro triple_bind [OF Open_tab] triple_if) (auto simp: triple_def throw_def ret_def split: option.splits)

lemma write_pieces_tab:
  "triple (tab m0 (f(p \<mapsto> file_node md bs))) (write_pieces \<lparr> wpath = p, wclosed = False \<rparr> ps)
    (\<lambda>_. tab m0 (f(p \<mapsto> file_node md (bs @ concat ps)))) (\<lambda>_. half m0 f p True)"
proof (induction ps arbitrary: bs)
  case Nil
  then show ?case by (simp add: write_pieces_def triple_def ret_def)
next
  case (Cons q ps)
  have w: "triple (tab m0 (f(p \<mapsto> file_node md bs))) (Write \<lparr> wpath = p, wclosed = False \<rparr> q)
      (\<lambda>_. tab m0 (f(p \<mapsto> file_node md (bs @ q)))) (\<lambda>_. half m0 f p True)"
    by (rule triple_weaken [OF Write_plain [of "f(p \<mapsto> file_node md bs)" p "file_node md bs"]])
      (auto simp: half_def intro!: exI [of _ "Some (file_node md bs)"])
  have "triple (tab m0 (f(p \<mapsto> file_node md bs))) (bind (Write \<lparr> wpath = p, wclosed = False \<rparr> q)
      (\<lambda>_. write_pieces \<lparr> wpath = p, wclosed = False \<rparr> ps)) (\<lambda>_. tab m0 (f(p \<mapsto> file_node md ((bs @ q) @ concat ps)))) (\<lambda>_. half m0 f p True)"
    by (rule triple_bind [OF w Cons.IH])
  then show ?case by (simp only: write_pieces_def for_each.simps append_assoc concat.simps)
qed

lemma now_tab: "triple P now (\<lambda>_. P) E"
  by (simp add: triple_def now_def)

lemma half_file: "tab m0 (f(p \<mapsto> file_node md bs)) m \<Longrightarrow> half m0 f p True m"
  by (auto simp: half_def intro!: exI [of _ "Some (file_node md bs)"])

lemma taken_all: "length (concat ps) \<le> n \<Longrightarrow> taken_pieces n ps = ps"
  by (induction ps arbitrary: n) auto

lemma cheapest_last:
  assumes "cheapest lineage TL = (hops, c)" "hops \<noteq> []" "2 \<le> length lineage"
  shows "h_to (last hops) = last lineage"
proof -
  obtain cost prev where r: "relax_all TL lineage = (cost, prev)" by fastforce
  let ?n = "length lineage"
  obtain k where n: "?n = Suc (Suc k)" using assms(3) by (cases "?n"; cases "?n - 1") auto
  have "hops = rev (walk_back lineage prev ?n (int ?n - 1))"
    using assms(1,2) by (auto simp: cheapest_def r Let_def split: if_splits)
  then have "h_to (last hops) = lineage ! nat (int ?n - 1)" by (simp add: last_rev n)
  moreover have "nat (int ?n - 1) = ?n - 1" by simp
  moreover have "last lineage = lineage ! (?n - 1)" using n by (intro last_conv_nth) auto
  ultimately show ?thesis by simp
qed

lemma simple_numbered: "simple (''patch'' @ show_nat i)" "simple (''hop'' @ show_nat i)"
  using digits_no_slash [of i] by (auto simp: simple_def)

section \<open>The trust client\<close>

text \<open>
  The contract of the trust client: what \<open>Materialize\<close> and \<open>VerifyStream\<close> accept is authentic, and \<open>VerifyStream\<close> has
  then read all of a stream that ended cleanly.
\<close>

locale materializer =
  fixes T :: Materializer and authentic :: "string \<Rightarrow> string \<Rightarrow> bool"
  assumes fetched: "mt_fetch T k t = (ps, Inr ()) \<Longrightarrow> authentic t (concat ps)"
    and verified: "mt_verify T k t (ps, e) = (qs, Inr ()) \<Longrightarrow> e = None \<and> qs = ps \<and> authentic t (concat ps)"
begin

text \<open>The three ways of producing a file.\<close>

lemma judged:
  assumes "r = Inr () \<Longrightarrow> authentic t (concat ps)"
  shows "triple (tab m0 (f(p \<mapsto> file_node md []))) (bind (wrap ErrStream (write_pieces \<lparr> wpath = p, wclosed = False \<rparr> ps)) (\<lambda>_. lift r))
    (\<lambda>_ m. \<exists>bs. authentic t bs \<and> tab m0 (f(p \<mapsto> file_node md bs)) m) (\<lambda>_. half m0 f p True)"
  using assms half_file by (intro triple_bind [OF triple_wrap [OF write_pieces_tab]] triple_lift) auto

lemma fetch_into_made:
  "triple (tab m0 (f(p \<mapsto> file_node md []))) (fetch_into T t \<lparr> wpath = p, wclosed = False \<rparr>)
    (\<lambda>_ m. \<exists>bs. authentic t bs \<and> tab m0 (f(p \<mapsto> file_node md bs)) m) (\<lambda>_. half m0 f p True)"
  unfolding fetch_into_def
proof (rule triple_bind [OF now_tab])
  fix k
  show "triple (tab m0 (f(p \<mapsto> file_node md []))) (case mt_fetch T k t of (ps, r) \<Rightarrow>
      bind (wrap ErrStream (write_pieces \<lparr> wpath = p, wclosed = False \<rparr> ps)) (\<lambda>_. lift r))
    (\<lambda>_ m. \<exists>bs. authentic t bs \<and> tab m0 (f(p \<mapsto> file_node md bs)) m) (\<lambda>_. half m0 f p True)"
    using fetched [of k t] by (cases "mt_fetch T k t") (auto intro!: judged)
qed

lemma copyVerified_made:
  "triple (tab m0 (f(p \<mapsto> file_node md []))) (copyVerified T name t (Some \<lparr> wpath = p, wclosed = False \<rparr>))
    (\<lambda>_ m. \<exists>bs. authentic t bs \<and> tab m0 (f(p \<mapsto> file_node md bs)) m) (\<lambda>_. half m0 f p True)"
  unfolding copyVerified_def option.case
proof (rule triple_bind [OF triple_weaken [OF Open_tab]], assumption, assumption)
  fix nd
  show "triple (tab m0 (f(p \<mapsto> file_node md []))) (bind now (\<lambda>k. case mt_verify T k t (file_stream nd) of (ps, r) \<Rightarrow>
      bind (wrap ErrStream (write_pieces \<lparr> wpath = p, wclosed = False \<rparr> ps)) (\<lambda>_. lift r)))
    (\<lambda>_ m. \<exists>bs. authentic t bs \<and> tab m0 (f(p \<mapsto> file_node md bs)) m) (\<lambda>_. half m0 f p True)"
  proof (rule triple_bind [OF now_tab])
    fix k
    show "triple (tab m0 (f(p \<mapsto> file_node md []))) (case mt_verify T k t (file_stream nd) of (ps, r) \<Rightarrow>
        bind (wrap ErrStream (write_pieces \<lparr> wpath = p, wclosed = False \<rparr> ps)) (\<lambda>_. lift r))
      (\<lambda>_ m. \<exists>bs. authentic t bs \<and> tab m0 (f(p \<mapsto> file_node md bs)) m) (\<lambda>_. half m0 f p True)"
      using verified [of k t "fst (file_stream nd)" "snd (file_stream nd)"]
      by (cases "mt_verify T k t (file_stream nd)") (auto intro!: judged)
  qed
qed (use half_file in auto)

lemma apply_hop_made:
  "triple (tab m0 (f(p \<mapsto> file_node md []))) (apply_hop T inflate base patch t want \<lparr> wpath = p, wclosed = False \<rparr>)
    (\<lambda>_ m. \<exists>bs. authentic t bs \<and> tab m0 (f(p \<mapsto> file_node md bs)) m) (\<lambda>_. half m0 f p True)"
proof -
  let ?P = "tab m0 (f(p \<mapsto> file_node md []))" and ?w = "\<lparr> wpath = p, wclosed = False \<rparr>"
  let ?Q = "\<lambda>_ :: unit. \<lambda>m. \<exists>bs. authentic t bs \<and> tab m0 (f(p \<mapsto> file_node md bs)) m" and ?E = "\<lambda>_ :: error. half m0 f p True"
  have open_: "triple ?P (OpenReaderAt nm) (\<lambda>_. ?P) ?E" for nm
    using half_file by (intro triple_weaken [OF OpenReaderAt_tab]) auto
  have run: "triple ?P (let (ps, r) = ApplyPatchStream inflate b c want;
           (qs, v) = mt_verify T k t (ps, case r of Inl e \<Rightarrow> Some e | Inr _ \<Rightarrow> None);
           taken = taken_pieces (length (concat qs)) ps
       in bind (write_pieces ?w taken) (\<lambda>_.
            if length (concat qs) < length (concat taken) \<or> length taken < length ps
            then throw (case v of Inl e \<Rightarrow> e | Inr _ \<Rightarrow> [])
            else (case r of Inl e \<Rightarrow> throw e | Inr _ \<Rightarrow> lift v))) ?Q ?E" for b c k
  proof -
    obtain ps r where a: "ApplyPatchStream inflate b c want = (ps, r)" by fastforce
    obtain qs v where v: "mt_verify T k t (ps, case r of Inl e \<Rightarrow> Some e | Inr _ \<Rightarrow> None) = (qs, v)" by fastforce
    let ?taken = "taken_pieces (length (concat qs)) ps"
    have fin: "triple (tab m0 (f(p \<mapsto> file_node md (concat ?taken))))
        (if length (concat qs) < length (concat ?taken) \<or> length ?taken < length ps
            then throw (case v of Inl e \<Rightarrow> e | Inr _ \<Rightarrow> [])
            else (case r of Inl e \<Rightarrow> throw e | Inr _ \<Rightarrow> lift v)) ?Q ?E"
    proof (cases "v = Inr ()")
      case True
      then have "qs = ps" "authentic t (concat ps)" using verified v by blast+
      then show ?thesis
        using half_file True taken_all [of ps "length (concat ps)"] by (cases r) (auto simp: triple_def throw_def lift_def)
    next
      case False
      then show ?thesis
        using half_file by (cases r; cases v) (auto simp: triple_def throw_def lift_def)
    qed
    have "triple ?P (bind (write_pieces ?w ?taken) (\<lambda>_.
            if length (concat qs) < length (concat ?taken) \<or> length ?taken < length ps
            then throw (case v of Inl e \<Rightarrow> e | Inr _ \<Rightarrow> [])
            else (case r of Inl e \<Rightarrow> throw e | Inr _ \<Rightarrow> lift v))) ?Q ?E"
      by (rule triple_bind [OF write_pieces_tab [of m0 f p md "[]" ?taken, unfolded append_Nil] fin])
    then show ?thesis by (simp add: a v Let_def)
  qed
  show ?thesis
    unfolding apply_hop_def by (rule triple_bind [OF open_ triple_bind [OF open_ triple_bind [OF now_tab run]]])
qed

text \<open>A producer that leaves authentic bytes of \<open>t\<close> in the scratch file it is given.\<close>

definition makes :: "mem \<Rightarrow> string \<Rightarrow> 32 word \<Rightarrow> (memWriter \<Rightarrow> (mem, unit) prog) \<Rightarrow> bool" where
  "makes m0 t md produce \<longleftrightarrow> (\<forall>f p. triple (tab m0 (f(p \<mapsto> file_node md []))) (produce \<lparr> wpath = p, wclosed = False \<rparr>)
     (\<lambda>_ m. \<exists>bs. authentic t bs \<and> tab m0 (f(p \<mapsto> file_node md bs)) m) (\<lambda>_. half m0 f p True))"

lemma producers:
  "makes m0 t md (fetch_into T t)" "makes m0 t md (\<lambda>w. copyVerified T name t (Some w))"
  "makes m0 t md (\<lambda>w. apply_hop T inflate base patch t want w)"
  unfolding makes_def using fetch_into_made copyVerified_made apply_hop_made by blast+

abbreviation at :: "mem \<Rightarrow> (string \<Rightarrow> memNode option) \<Rightarrow> string list \<Rightarrow> string \<Rightarrow> FileRef list \<Rightarrow> FileRef set \<Rightarrow> string list \<Rightarrow> mem \<Rightarrow> bool" where
  "at \<equiv> at_stage authentic"

lemma at_weaken: "at m0 f0 rs v fs dn es m \<Longrightarrow> dn' \<subseteq> dn \<Longrightarrow> at m0 f0 rs v fs dn' es m"
  by (auto simp: at_stage_def)

lemma at_tabs:
  assumes "\<And>f. stage_tab f0 rs v fs f \<Longrightarrow> dirs_tab f (stage_dir rs v @ es) \<Longrightarrow>
    \<forall>x\<in>dn. has_file authentic f (stage_dir rs v) x \<Longrightarrow> triple (tab m0 f) p Q E"
  shows "triple (at m0 f0 rs v fs dn es) p Q E"
  unfolding at_stage_def using assms by (intro triple_tabs) blast

lemma write_staged:
  assumes pl: "placed fs" and v: "ValidVersion v" and g: "g \<in> set fs" "dst_elems g = es @ [e]" and d: "dn \<subseteq> set fs"
    and name: "name = abs_path (stage_dir rs v @ dst_elems g)" and pr: "makes m0 (fr_target g) (file_mode g) produce"
  shows "triple (at m0 f0 rs v fs dn es) (WriteStreamAtomic name (file_mode g) produce)
    (\<lambda>_. at m0 f0 rs v fs (insert g dn) es) (\<lambda>_. at m0 f0 rs v fs (dn - {g}) es)"
proof (rule at_tabs)
  fix f
  assume st: "stage_tab f0 rs v fs f" and dt: "dirs_tab f (stage_dir rs v @ es)" and h: "\<forall>x\<in>dn. has_file authentic f (stage_dir rs v) x"
  have s: "simples (stage_dir rs v)" "simple e" "simples (stage_dir rs v @ es)"
    using st placed_elems(1) [OF pl g(1)] g(2) dt by (auto simp: stage_tab_def dirs_tab_def)
  have nm: "name = abs_path ((stage_dir rs v @ es) @ [e])" by (simp add: name g(2))
  have at: "prefix (stage_dir rs v) (stage_dir rs v @ es) \<and> name \<in> file_paths (stage_dir rs v) fs \<or> stage_dir rs v @ es = scratch_dir rs"
    using g(1) by (auto simp: file_paths_def name)
  note sw = stage_write [OF st pl v dt s(2) nm at]
  let ?tmp = "tmp_of (pid m0) name"
  have wf: "wf_tab f" using st by (simp add: stage_tab_def)
  have tmp: "?tmp k \<noteq> abs_path (stage_dir rs v @ dst_elems x)" if "x \<in> set fs" for k x
    using tmp_key [of "stage_dir rs v @ es" e "pid m0" k, folded nm] s file_path_base(2) [OF pl that s(1)] by auto
  have other: "has_file authentic (f(?tmp k := t)) (stage_dir rs v) x" if "x \<in> dn" for k t x
    using h that d tmp [of x k] by (auto simp: has_file_def)
  have written: "at m0 f0 rs v fs (insert g dn) es m" if "authentic (fr_target g) bs" "written m0 f name (file_node (file_mode g) bs) m" for bs m
  proof -
    from that(2) obtain k where t: "tab m0 (f(?tmp k := None, name \<mapsto> file_node (file_mode g) bs)) m" by (auto simp: written_def)
    have "has_file authentic (f(?tmp k := None, name \<mapsto> file_node (file_mode g) bs)) (stage_dir rs v) x" if x: "x \<in> insert g dn" for x
    proof (cases "x = g")
      case True
      then show ?thesis using \<open>authentic (fr_target g) bs\<close> by (auto simp: has_file_def name)
    next
      case False
      then have "abs_path (stage_dir rs v @ dst_elems x) \<noteq> name"
        using file_path_eq [OF pl _ g(1) s(1), of x] x d by (auto simp: name)
      then show ?thesis using other [of x k None] x False by (simp add: has_file_def)
    qed
    then show ?thesis using t sw(4) unfolding at_stage_def by blast
  qed
  have unwritten: "at m0 f0 rs v fs (dn - {g}) es m" if "unwritten m0 f name m" for m
  proof -
    from that obtain k t where t: "plain_file t" "tab m0 (f(?tmp k := t)) m" by (auto simp: unwritten_def)
    then show ?thesis using sw(3) [OF t(1)] other unfolding at_stage_def by blast
  qed
  have "triple (tab m0 f) (WriteStreamAtomic name (file_mode g) produce)
      (\<lambda>_ m. \<exists>bs. authentic (fr_target g) bs \<and> written m0 f name (file_node (file_mode g) bs) m)
      (\<lambda>_ m. True \<and> (unwritten m0 f name m \<or> (\<exists>bs. authentic (fr_target g) bs \<and> written m0 f name (file_node (file_mode g) bs) m)))"
    using pr by (intro WriteStreamAtomic_makes [OF dt s(2) nm wf sw(1,2)]) (auto simp: makes_def)
  then show "triple (tab m0 f) (WriteStreamAtomic name (file_mode g) produce)
      (\<lambda>_. at m0 f0 rs v fs (insert g dn) es) (\<lambda>_. at m0 f0 rs v fs (dn - {g}) es)"
    by (rule triple_weaken) (use written unwritten in \<open>auto intro: at_weaken [OF written]\<close>)
qed

lemma at_keep:
  assumes pl: "placed fs" and d: "dn \<subseteq> set fs" and dt: "dirs_tab f (stage_dir rs v @ es)"
    and h: "\<forall>x\<in>dn. has_file authentic f (stage_dir rs v) x"
    and t: "tab m0 g m" "stage_tab f0 rs v fs g"
    and g: "\<And>us. simples us \<Longrightarrow> g (abs_path (stage_dir rs v @ us)) = f (abs_path (stage_dir rs v @ us))"
  shows "at m0 f0 rs v fs dn es m"
proof -
  have "dirs_tab g (stage_dir rs v @ es)"
    using t(2) by (intro dirs_tab_keep [OF dt _ g]) (simp_all add: stage_tab_def)
  moreover have "\<forall>x\<in>dn. has_file authentic g (stage_dir rs v) x"
    using h d g placed_elems(1) [OF pl] by (auto simp: has_file_def)
  ultimately show ?thesis using t unfolding at_stage_def by blast
qed

lemma scratch_away:
  assumes "stage_tab f0 rs v fs f" "ValidVersion v" "simple x" "simples us"
  shows "abs_path (stage_dir rs v @ us) \<noteq> abs_path (scratch_dir rs @ [x])"
  using abs_path_inj [of "scratch_dir rs @ [x]" "stage_dir rs v @ us"] assms(1,3,4) scratchName_not_version [OF assms(2)]
  by (auto simp: stage_tab_def dirs_tab_def)

lemma write_scratch:
  assumes pl: "placed fs" and v: "ValidVersion v" and d: "dn \<subseteq> set fs" and nm: "simple nm"
    and name: "name = abs_path (scratch_dir rs @ [nm])" and pr: "makes m0 t md produce"
  shows "triple (at m0 f0 rs v fs dn es) (WriteStreamAtomic name md produce)
    (\<lambda>_. at m0 f0 rs v fs dn es) (\<lambda>_. at m0 f0 rs v fs dn es)"
proof (rule at_tabs)
  fix f
  assume st: "stage_tab f0 rs v fs f" and dt: "dirs_tab f (stage_dir rs v @ es)" and h: "\<forall>x\<in>dn. has_file authentic f (stage_dir rs v) x"
  have s: "simples (stage_dir rs v)" "simples (scratch_dir rs)" "simples (stage_dir rs v @ es)"
    using st dt by (auto simp: stage_tab_def dirs_tab_def)
  have ds: "dirs_tab f (scratch_dir rs)" and wf: "wf_tab f" using st by (simp_all add: stage_tab_def)
  note sw = stage_write [OF st pl v ds nm name disjI2 [OF refl]]
  let ?tmp = "tmp_of (pid m0) name"
  note away = scratch_away [OF st v]
  have tk: "?tmp k = abs_path (scratch_dir rs @ [nm @ scratch_suffix (pid m0) k])" "simple (nm @ scratch_suffix (pid m0) k)" for k
    using tmp_key [of "scratch_dir rs" nm "pid m0" k, folded name] s nm by auto
  have keep: "at m0 f0 rs v fs dn es m"
    if "tab m0 g m" "stage_tab f0 rs v fs g" "\<And>us. simples us \<Longrightarrow> g (abs_path (stage_dir rs v @ us)) = f (abs_path (stage_dir rs v @ us))" for g m
    by (rule at_keep [OF pl d dt h that])
  have an: "abs_path (stage_dir rs v @ us) \<noteq> name" "abs_path (stage_dir rs v @ us) \<noteq> ?tmp k" if "simples us" for us k
    using away [OF nm that, folded name] away [OF tk(2) that, folded tk(1)] by simp_all
  have w: "at m0 f0 rs v fs dn es m" if "written m0 f name (file_node md bs) m" for bs m
  proof -
    from that obtain k where k: "tab m0 (f(?tmp k := None, name \<mapsto> file_node md bs)) m" by (auto simp: written_def)
    show ?thesis by (rule keep [OF k sw(4) [THEN conjunct1]]) (use an in auto)
  qed
  have u: "at m0 f0 rs v fs dn es m" if "unwritten m0 f name m" for m
  proof -
    from that obtain k x where k: "plain_file x" "tab m0 (f(?tmp k := x)) m" by (auto simp: unwritten_def)
    show ?thesis by (rule keep [OF k(2) sw(3) [OF k(1), THEN conjunct1]]) (use an in auto)
  qed
  have "triple (tab m0 f) (WriteStreamAtomic name md produce)
      (\<lambda>_ m. \<exists>bs. authentic t bs \<and> written m0 f name (file_node md bs) m)
      (\<lambda>_ m. True \<and> (unwritten m0 f name m \<or> (\<exists>bs. authentic t bs \<and> written m0 f name (file_node md bs) m)))"
    using pr by (intro WriteStreamAtomic_makes [OF ds nm name wf sw(1,2)]) (auto simp: makes_def)
  then show "triple (tab m0 f) (WriteStreamAtomic name md produce) (\<lambda>_. at m0 f0 rs v fs dn es) (\<lambda>_. at m0 f0 rs v fs dn es)"
    by (rule triple_weaken) (use w u in auto)
qed

lemma remove_scratch:
  assumes pl: "placed fs" and v: "ValidVersion v" and d: "dn \<subseteq> set fs" and nm: "simple nm" and name: "name = abs_path (scratch_dir rs @ [nm])"
  shows "triple (at m0 f0 rs v fs dn es) (ignore (RemoveAll name)) (\<lambda>_. at m0 f0 rs v fs dn es) (\<lambda>_ _. False)"
proof (rule at_tabs)
  fix f
  assume st: "stage_tab f0 rs v fs f" and dt: "dirs_tab f (stage_dir rs v @ es)" and h: "\<forall>x\<in>dn. has_file authentic f (stage_dir rs v) x"
  have ds: "dirs_tab f (scratch_dir rs)" and wf: "wf_tab f" using st by (simp_all add: stage_tab_def)
  note sw = stage_write [OF st pl v ds nm name disjI2 [OF refl]]
  have "f q = None" if "prefix (name @ ''/'') q" for q
    by (rule wf_tab_below [OF wf _ sw(1) that]) (simp_all add: name)
  then have "pruned name f = f(name := None)" by (auto simp: pruned_in_tree in_tree_def fun_eq_iff)
  moreover have "stage_tab f0 rs v fs (f(name := None))"
    using stage_tab_upd [OF st pl v ds nm name plain_file_simps(1) sw(1)] by simp
  ultimately have "at m0 f0 rs v fs dn es m" if "tab m0 f m \<or> tab m0 (pruned name f) m" for m
    using that at_keep [OF pl d dt h _ st, of m0 m] at_keep [OF pl d dt h, of m0 "pruned name f" m f0] scratch_away [OF st v nm]
    by (auto simp: name)
  then show "triple (tab m0 f) (ignore (RemoveAll name)) (\<lambda>_. at m0 f0 rs v fs dn es) (\<lambda>_ _. False)"
    by (intro triple_ignore triple_weaken [OF RemoveAll_plain [OF ds nm name wf]]) auto
qed

lemma at_reads:
  assumes "\<And>f. triple (tab m0 f) p (\<lambda>_. tab m0 f) (\<lambda>_. tab m0 f)"
  shows "triple (at m0 f0 rs v fs dn es) p (\<lambda>_. at m0 f0 rs v fs dn es) (\<lambda>_. at m0 f0 rs v fs dn es)"
proof (rule at_tabs)
  fix f
  assume "stage_tab f0 rs v fs f" "dirs_tab f (stage_dir rs v @ es)" "\<forall>x\<in>dn. has_file authentic f (stage_dir rs v) x"
  then show "triple (tab m0 f) p (\<lambda>_. at m0 f0 rs v fs dn es) (\<lambda>_. at m0 f0 rs v fs dn es)"
    by (intro triple_weaken [OF assms]) (auto simp: at_stage_def)
qed

lemma plausible_any: "triple P (plausible name want) (\<lambda>_. P) (\<lambda>_ _. False)"
  unfolding plausible_def by (rule triple_attempt [OF Lstat_tab]) (auto simp: triple_def ret_def)

lemma copyVerified_reads: "triple (tab m0 f) (copyVerified T name t None) (\<lambda>_. tab m0 f) (\<lambda>_. tab m0 f)"
  unfolding copyVerified_def
  by (intro triple_bind [OF Open_tab] triple_bind [OF now_tab]) (auto simp: triple_def prog_simps split: prod.splits)

section \<open>One file\<close>

lemma base_from_at:
  "triple (at m0 f0 rs v fs dn es) (base_from T t dst want dirs) (\<lambda>_. at m0 f0 rs v fs dn es) (\<lambda>_ _. False)"
proof (induction dirs)
  case Nil
  then show ?case by (simp add: triple_def ret_def)
next
  case (Cons dir dirs)
  then show ?case
    unfolding base_from.simps Let_def
    by (intro triple_bind [OF plausible_any] triple_if triple_attempt [OF at_reads [OF copyVerified_reads]])
      (auto simp: triple_def ret_def)
qed

lemma localBase_at:
  "triple (at m0 f0 rs v fs dn es) (localBase T t dst sources) (\<lambda>_. at m0 f0 rs v fs dn es) (\<lambda>_ _. False)"
  unfolding localBase_def
proof (rule triple_bind [OF now_tab])
  fix k
  show "triple (at m0 f0 rs v fs dn es) (case mt_length T k t of Inl _ \<Rightarrow> ret None
      | Inr want \<Rightarrow> if want \<le> 0 then ret None else base_from T t dst want sources) (\<lambda>_. at m0 f0 rs v fs dn es) (\<lambda>_ _. False)"
    using base_from_at by (cases "mt_length T k t") (auto simp: triple_def ret_def)
qed

text \<open>Where one file goes.\<close>

definition goes :: "string list \<Rightarrow> string \<Rightarrow> FileRef list \<Rightarrow> FileRef set \<Rightarrow> FileRef \<Rightarrow> string list \<Rightarrow> string \<Rightarrow> bool" where
  "goes rs v fs dn g es full \<longleftrightarrow> placed fs \<and> ValidVersion v \<and> dn \<subseteq> set fs \<and> g \<in> set fs \<and> g \<notin> dn \<and>
     es \<noteq> [] \<and> es = dst_elems g \<and> full = abs_path (stage_dir rs v @ es)"

lemma full_write:
  assumes g: "goes rs v fs dn g es full" and pr: "makes m0 (fr_target g) (file_mode g) produce"
  shows "triple (at m0 f0 rs v fs dn (butlast es)) (WriteStreamAtomic full (file_mode g) produce)
    (\<lambda>_. at m0 f0 rs v fs (insert g dn) (butlast es)) (\<lambda>_. at m0 f0 rs v fs dn (butlast es))"
proof -
  have "dst_elems g = butlast es @ [last es]" "dn - {g} = dn" using g by (auto simp: goes_def)
  then show ?thesis using write_staged [OF _ _ _ _ _ _ pr, of fs v "butlast es" "last es" dn full rs f0] g by (simp add: goes_def)
qed

lemma reuse_from_at:
  assumes g: "goes rs v fs dn g es full"
  shows "triple (at m0 f0 rs v fs dn (butlast es)) (reuse_from T full g dst want dirs)
    (\<lambda>ok. at m0 f0 rs v fs (if ok then insert g dn else dn) (butlast es)) (\<lambda>_ _. False)"
proof (induction dirs)
  case Nil
  then show ?case by (simp add: triple_def ret_def)
next
  case (Cons dir dirs)
  then show ?case
    unfolding reuse_from.simps Let_def
    by (intro triple_bind [OF plausible_any] triple_if triple_attempt [OF full_write [OF g producers(2)]] triple_ret) auto
qed

lemma reuse_at:
  assumes g: "goes rs v fs dn g es full"
  shows "triple (at m0 f0 rs v fs dn (butlast es)) (reuse T full g dst sources)
    (\<lambda>ok. at m0 f0 rs v fs (if ok then insert g dn else dn) (butlast es)) (\<lambda>_ _. False)"
  unfolding reuse_def
proof (rule triple_bind [OF now_tab])
  fix k
  show "triple (at m0 f0 rs v fs dn (butlast es)) (case mt_length T k (fr_target g) of Inl _ \<Rightarrow> ret False
      | Inr want \<Rightarrow> if want \<le> 0 then ret False else reuse_from T full g dst want sources)
    (\<lambda>ok. at m0 f0 rs v fs (if ok then insert g dn else dn) (butlast es)) (\<lambda>_ _. False)"
    using reuse_from_at [OF g, of m0 f0 dst _ sources] by (cases "mt_length T k (fr_target g)") (auto simp: triple_def ret_def)
qed

definition scratch_names :: "string list \<Rightarrow> string list \<Rightarrow> bool" where
  "scratch_names rs names \<longleftrightarrow> (\<forall>x\<in>set names. \<exists>nm. simple nm \<and> x = abs_path (scratch_dir rs @ [nm]))"

lemma spill_at:
  assumes g: "goes rs v fs dn g es full" and s: "simples rs" and nm: "simple nm" and d: "dn' \<subseteq> set fs"
  shows "triple (at m0 f0 rs v fs dn' es') (spill T (abs_path (scratch_dir rs)) nm t)
    (\<lambda>x m. at m0 f0 rs v fs dn' es' m \<and> x = abs_path (scratch_dir rs @ [nm])) (\<lambda>_. at m0 f0 rs v fs dn' es')"
proof -
  have n: "Join [abs_path (scratch_dir rs), nm] = abs_path (scratch_dir rs @ [nm])"
    using s nm by (subst Join_abs) (simp_all add: scratchName_simple)
  have "placed fs" "ValidVersion v" using g by (simp_all add: goes_def)
  then show ?thesis
    unfolding spill_def n Let_def
    by (rule triple_bind [OF write_scratch [OF _ _ d nm refl producers(1)]]) (simp add: triple_def ret_def)
qed

lemma run_hops_at:
  assumes g: "goes rs v fs dn g es full" and s: "simples rs"
  shows "hs \<noteq> [] \<longrightarrow> h_to (last hs) = fr_target g \<Longrightarrow> scratch_names rs spills \<Longrightarrow>
    triple (at m0 f0 rs v fs (if hs = [] then insert g dn else dn) (butlast es))
      (run_hops T inflate full (file_mode g) (abs_path (scratch_dir rs)) i hs base spills)
      (\<lambda>(ok, names) m. scratch_names rs names \<and> at m0 f0 rs v fs (if ok then insert g dn else dn) (butlast es) m) (\<lambda>_ _. False)"
proof (induction hs arbitrary: i base spills)
  case Nil
  then show ?case by (simp add: triple_def ret_def)
next
  case (Cons h hs)
  let ?at = "at m0 f0 rs v fs" and ?X = "abs_path (scratch_dir rs)"
  let ?Q = "\<lambda>(ok, names) m. scratch_names rs names \<and> ?at (if ok then insert g dn else dn) (butlast es) m"
  have d: "dn \<subseteq> set fs" and pv: "placed fs" "ValidVersion v" using g by (simp_all add: goes_def)
  have give_up: "triple (\<lambda>m. ?at dn (butlast es) m \<and> scratch_names rs names) (ret (False, names)) ?Q (\<lambda>_ _. False)" for names
    by (simp add: triple_def ret_def)
  let ?out = "if hs = [] then full else Join [?X, ''hop'' @ show_nat i]"
  have out: "Join [?X, ''hop'' @ show_nat i] = abs_path (scratch_dir rs @ [''hop'' @ show_nat i])"
    using s simple_numbered [of i] by (subst Join_abs) (simp_all add: scratchName_simple)
  have step: "triple (?at dn (butlast es)) (WriteStreamAtomic ?out (if hs = [] then file_mode g else 0x180)
      (\<lambda>w. apply_hop T inflate base patch (h_to h) want w))
    (\<lambda>_. ?at (if hs = [] then insert g dn else dn) (butlast es)) (\<lambda>_. ?at dn (butlast es))" for patch want
  proof (cases "hs = []")
    case True
    then have "h_to h = fr_target g" using Cons.prems by simp
    then show ?thesis using full_write [OF g producers(3)] True by simp
  next
    case False
    then show ?thesis using write_scratch [OF pv d simple_numbered(2) out producers(3)] by simp
  qed
  have sn: "scratch_names rs (spills @ [patch] @ (if hs = [] then [] else [?out]))" "scratch_names rs (spills @ [patch])"
    if "patch = abs_path (scratch_dir rs @ [''patch'' @ show_nat i])" for patch
    using Cons.prems(2) that simple_numbered out by (auto simp: scratch_names_def)
  have "triple (?at dn (butlast es)) (run_hops T inflate full (file_mode g) ?X i (h # hs) base spills) ?Q (\<lambda>_ _. False)"
    unfolding run_hops.simps Let_def
  proof (rule triple_attempt [OF spill_at [OF g s simple_numbered(1) d]])
    show "triple (?at dn (butlast es)) (ret (False, spills)) ?Q (\<lambda>_ _. False)"
      using Cons.prems by (simp add: triple_def ret_def)
  next
    fix patch
    let ?more = "spills @ [patch] @ (if hs = [] then [] else [?out])"
    let ?go = "\<lambda>want. attempt (WriteStreamAtomic ?out (if hs = [] then file_mode g else 0x180) (\<lambda>w. apply_hop T inflate base patch (h_to h) want w))
      (\<lambda>_. ret (False, ?more)) (\<lambda>_. run_hops T inflate full (file_mode g) ?X (i + 1) hs ?out ?more)"
    show "triple (\<lambda>m. ?at dn (butlast es) m \<and> patch = abs_path (scratch_dir rs @ [''patch'' @ show_nat i]))
      (bind now (\<lambda>k. case mt_length T k (h_to h) of Inl _ \<Rightarrow> ret (False, spills @ [patch]) | Inr want \<Rightarrow> ?go want)) ?Q (\<lambda>_ _. False)"
    proof (rule triple_fact, rule triple_bind [OF now_tab])
      fix k
      assume p: "patch = abs_path (scratch_dir rs @ [''patch'' @ show_nat i])"
      note n = sn [OF p]
      show "triple (?at dn (butlast es)) (case mt_length T k (h_to h) of
          Inl _ \<Rightarrow> ret (False, spills @ [patch]) | Inr want \<Rightarrow> ?go want) ?Q (\<lambda>_ _. False)"
      proof (cases "mt_length T k (h_to h)")
        case (Inl e)
        then show ?thesis using n(2) by (simp add: triple_def ret_def)
      next
        case (Inr want)
        have "triple (?at dn (butlast es)) (?go want) ?Q (\<lambda>_ _. False)"
        proof (rule triple_attempt [OF step])
          show "triple (?at dn (butlast es)) (ret (False, ?more)) ?Q (\<lambda>_ _. False)"
            using n(1) by (simp add: triple_def ret_def)
          show "triple (?at (if hs = [] then insert g dn else dn) (butlast es))
             (run_hops T inflate full (file_mode g) ?X (i + 1) hs ?out ?more) ?Q (\<lambda>_ _. False)"
            by (rule Cons.IH) (use Cons.prems n(1) in auto)
        qed
        then show ?thesis by (simp add: Inr)
      qed
    qed
  qed
  then show ?case by simp
qed

end

end
