(* ===== verification/StagingRun.thy ===== *)
theory StagingRun
  imports StagingLaws
begin

text \<open>
  One file of a release from its source to its place, and the files of a release one after the other.
\<close>

lemma attempt_tab:
  assumes "triple P p (\<lambda>_. P) (\<lambda>_. P)" "\<And>e. triple P (h e) Q E" "\<And>x. triple P (k x) Q E"
  shows "triple P (attempt p h k) Q E"
  using assms by (rule triple_attempt)

lemma refuseSymlink_tab: "triple P (refuseSymlink name) (\<lambda>_. P) (\<lambda>_. P)"
  unfolding refuseSymlink_def by (rule attempt_tab [OF Lstat_tab]) (auto simp: triple_def throw_def ret_def)

lemma wrap_lift [simp]: "wrap s (lift (Inr x)) = lift (Inr x)"
  by (simp add: fun_eq_iff prog_simps)

lemma safe_rel_dst: "safe_rel (fr_dst g) (dst_elems g) \<Longrightarrow> SanitizeDst (fr_dst g) = Inr (fr_dst g)"
  by (simp add: SanitizeDst_def safe_rel_Clean)

lemma staging_simples:
  assumes "simples rs" "ValidVersion v"
  shows "simples (stage_dir rs v)" "simples (scratch_dir rs)" "simples (staging_dir rs)" "simples (version_dir rs v)" "simples (rs @ [MetaName])"
  using assms simple_version [OF assms(2)] scratchName_simple by simp_all

lemma simples_take: "simples xs \<Longrightarrow> simples (take i xs)"
  by (auto simp: simples_def dest: in_set_takeD)

lemma contains_slash: "contains ''/'' s \<longleftrightarrow> slash \<in> set s"
  by (induction s) auto

lemma launcher_name_simple:
  assumes "ValidateLauncherName nm = Inr ()"
  shows "simple nm"
proof -
  have c: "Clean nm = Inr nm" "\<not> contains ''/'' nm"
    using assms by (auto simp: ValidateLauncherName_def Let_def split: sum.splits if_splits)
  have "safe_rel nm (split_on slash nm)" by (rule safe_rel_intro [OF c(1)])
  moreover have "slash \<notin> set nm" using c(2) by (simp add: contains_slash)
  then have "split_on slash nm = [nm]" by (simp add: split_on_single)
  ultimately have "good_elem nm" by (simp add: safe_rel_def)
  then show ?thesis using good_simples [of "[nm]"] by simp
qed

lemma suffix_not_version: "v @ launcherPendingSuffix \<noteq> v"
  by (simp add: launcherPendingSuffix_def)

lemma suffix_not_scratch: "ValidVersion v \<Longrightarrow> v @ launcherPendingSuffix \<noteq> scratchName"
  using valid_version_digit [of v] by (cases v) (auto simp: scratchName_def is_digit_def)

lemma pending_path2: "simples rs \<Longrightarrow> ValidVersion v \<Longrightarrow> LauncherPendingDir (abs_path rs) v = Inr (abs_path (pending_dir rs v))"
  using Join_abs [of "staging_dir rs" "[v @ launcherPendingSuffix]"] layout_paths(6) [of rs] simple_version [of v] simple_pending [of v]
  unfolding LauncherPendingDir_def by (simp add: scratchName_simple)

lemma pending_outside:
  assumes "simples rs" "ValidVersion v" "simples qs" "\<not> prefix (pending_dir rs v) qs"
  shows "\<not> in_tree (abs_path (pending_dir rs v)) (abs_path qs)"
  using in_tree_abs [of "pending_dir rs v" qs] assms simple_pending [OF simple_version] by simp

lemma staging_not_pending:
  assumes "simples rs" "ValidVersion v" "i \<le> length (staging_dir rs)"
  shows "\<not> in_tree (abs_path (pending_dir rs v)) (abs_path (take i (staging_dir rs)))"
proof (rule pending_outside [OF assms(1,2)])
  show "simples (take i (staging_dir rs))" by (rule simples_take [OF staging_simples(3) [OF assms(1,2)]])
  show "\<not> prefix (pending_dir rs v) (take i (staging_dir rs))" using prefix_length_le by fastforce
qed

lemma dirs_tab_append: "dirs_tab f (ds @ es) \<Longrightarrow> dirs_tab f ds"
  by (auto simp: dirs_tab_def) (metis append_Nil2 diff_is_0_eq le_add1 le_trans take0 take_append)

lemma pending_keep:
  assumes st: "stage_tab f0 rs v fs f" and v: "ValidVersion v" and s: "simples rs" and wf: "wf_tab g"
    and eq: "\<And>q. \<not> in_tree (abs_path (pending_dir rs v)) q \<Longrightarrow> g q = f q" and lp: "f0 (abs_path (pending_dir rs v)) \<noteq> None"
  shows "stage_tab f0 rs v fs g \<and> (\<forall>us. simples us \<longrightarrow> g (abs_path (stage_dir rs v @ us)) = f (abs_path (stage_dir rs v @ us)))"
proof -
  note ss = staging_simples [OF s v]
  note out = pending_outside [OF s v]
  have "\<not> prefix (pending_dir rs v) (stage_dir rs v)" "\<not> prefix (pending_dir rs v) (scratch_dir rs)"
    using suffix_not_version suffix_not_scratch [OF v] by simp_all
  then have np: "\<not> prefix (pending_dir rs v) (take i (stage_dir rs v))" "\<not> prefix (pending_dir rs v) (take i (scratch_dir rs))" for i
    using prefix_order.trans [OF _ take_is_prefix] by blast+
  have dirs: "dirs_tab g (stage_dir rs v)" "dirs_tab g (scratch_dir rs)"
    using st eq [OF out [OF simples_take [OF ss(1)] np(1)]] eq [OF out [OF simples_take [OF ss(2)] np(2)]]
    by (auto simp only: stage_tab_def intro!: dirs_tab_cong [of f])
  have sp: "simples (pending_dir rs v)" using s simple_pending [OF simple_version [OF v]] by simp
  have area: "in_tree (abs_path (staging_dir rs)) (abs_path (pending_dir rs v))" using in_tree_abs [OF ss(3) sp] by simp
  have apart: "\<not> in_tree (abs_path (pending_dir rs v)) q"
    if "in_tree (abs_path (staging_dir rs @ [x])) q" "simple x" "x \<noteq> v @ launcherPendingSuffix" for q x
    using trees_disjoint [of "staging_dir rs" x "[]" "v @ launcherPendingSuffix" "[]" q] that ss(3) sp by simp
  have "g q = f q" if "in_tree (abs_path (stage_dir rs v)) q \<or> in_tree (abs_path (scratch_dir rs)) q" for q
    using that eq [OF apart, of v] eq [OF apart, of scratchName] suffix_not_version suffix_not_scratch [OF v]
      scratchName_simple simple_version [OF v] by (metis append.assoc append_Cons append_Nil)
  then have "tree_ok (stage_dir rs v) fs g" "scratch_clean rs g"
    using st by (auto simp: stage_tab_def tree_ok_def scratch_clean_def)
  moreover have "g q = f0 q" if "\<not> in_tree (abs_path (staging_dir rs)) q" for q
    using eq [of q] in_tree_trans [OF area, of q] st that by (auto simp: stage_tab_def)
  moreover have "g (abs_path (stage_dir rs v @ us)) = f (abs_path (stage_dir rs v @ us))" if "simples us" for us
    by (rule eq [OF out]) (use ss(1) that suffix_not_version in auto)
  ultimately show ?thesis using dirs wf lp unfolding stage_tab_def by blast
qed

context materializer
begin

section \<open>Patches\<close>

lemma at_root: "at m0 f0 rs v fs dn es m \<Longrightarrow> at m0 f0 rs v fs dn [] m"
  by (auto simp: at_stage_def stage_tab_def)

lemma remove_spills:
  assumes g: "goes rs v fs dn g es full" and d: "dn' \<subseteq> set fs" and n: "scratch_names rs names"
  shows "triple (at m0 f0 rs v fs dn' es') (for_each names (\<lambda>name. ignore (RemoveAll name))) (\<lambda>_. at m0 f0 rs v fs dn' es') (\<lambda>_ _. False)"
proof (rule triple_for_each)
  fix x
  assume "x \<in> set names"
  then obtain nm where "simple nm" "x = abs_path (scratch_dir rs @ [nm])" using n by (auto simp: scratch_names_def)
  then show "triple (at m0 f0 rs v fs dn' es') (ignore (RemoveAll x)) (\<lambda>_. at m0 f0 rs v fs dn' es') (\<lambda>_ _. False)"
    using g by (intro remove_scratch [OF _ _ d]) (auto simp: goes_def)
qed

lemma patched_at:
  assumes g: "goes rs v fs dn g es full" and s: "simples rs"
  shows "triple (at m0 f0 rs v fs dn (butlast es)) (patched T inflate full g dst sources routes (abs_path (scratch_dir rs)))
    (\<lambda>ok. at m0 f0 rs v fs (if ok then insert g dn else dn) (butlast es)) (\<lambda>_ _. False)"
proof -
  let ?P = "at m0 f0 rs v fs dn (butlast es)" and ?X = "abs_path (scratch_dir rs)" and ?l = "collapse (routes dst)"
  let ?Q = "\<lambda>ok. at m0 f0 rs v fs (if ok then insert g dn else dn) (butlast es)"
  have no: "triple ?P (ret False) ?Q (\<lambda>_ _. False)" by (rule triple_ret) simp
  have ins: "(if ok then insert g dn else dn) \<subseteq> set fs" for ok using g by (auto simp: goes_def)
  have run: "triple ?P (bind (run_hops T inflate full (file_mode g) ?X 0 hops base [])
      (\<lambda>(ok, spills). bind (for_each spills (\<lambda>name. ignore (RemoveAll name))) (\<lambda>_. ret ok))) ?Q (\<lambda>_ _. False)"
    if "hops \<noteq> []" "h_to (last hops) = fr_target g" for hops base
  proof (rule triple_bind)
    show "triple ?P (run_hops T inflate full (file_mode g) ?X 0 hops base [])
        (\<lambda>x m. at m0 f0 rs v fs (if fst x then insert g dn else dn) (butlast es) m \<and> scratch_names rs (snd x)) (\<lambda>_ _. False)"
      using run_hops_at [OF g s, of hops "[]" m0 f0 inflate 0 base] that
      by (intro triple_weaken [OF run_hops_at [OF g s, of hops "[]" m0 f0 inflate 0 base]]) (auto simp: scratch_names_def)
  next
    fix x :: "bool \<times> string list"
    show "triple (\<lambda>m. at m0 f0 rs v fs (if fst x then insert g dn else dn) (butlast es) m \<and> scratch_names rs (snd x))
      ((\<lambda>(ok, spills). bind (for_each spills (\<lambda>name. ignore (RemoveAll name))) (\<lambda>_. ret ok)) x) ?Q (\<lambda>_ _. False)"
    proof (cases x)
      case (Pair ok names)
      have "triple (at m0 f0 rs v fs (if ok then insert g dn else dn) (butlast es))
          (bind (for_each names (\<lambda>name. ignore (RemoveAll name))) (\<lambda>_. ret ok)) ?Q (\<lambda>_ _. False)"
        if "scratch_names rs names"
        by (rule triple_bind [OF remove_spills [OF g ins that]]) (simp add: triple_def ret_def)
      then show ?thesis by (simp add: Pair triple_fact)
    qed
  qed
  show ?thesis
  proof (cases "length ?l < 2 \<or> last ?l \<noteq> fr_target g")
    case True
    then have "patched T inflate full g dst sources routes ?X = ret False" by (auto simp: patched_def Let_def)
    then show ?thesis using no by simp
  next
    case False
    have "triple ?P (case mt_length T k (fr_target g) of Inl _ \<Rightarrow> ret False
      | Inr whole \<Rightarrow> (case cheapest ?l (mt_length T k) of (hops, cost) \<Rightarrow>
          if hops = [] \<or> cost \<ge> whole then ret False
          else bind (localBase T (hd ?l) dst sources) (\<lambda>b. case b of
              None \<Rightarrow> ret False
            | Some base \<Rightarrow> bind (run_hops T inflate full (file_mode g) ?X 0 hops base [])
                (\<lambda>(ok, spills). bind (for_each spills (\<lambda>name. ignore (RemoveAll name))) (\<lambda>_. ret ok))))) ?Q (\<lambda>_ _. False)" for k
    proof (cases "mt_length T k (fr_target g)")
      case (Inr whole)
      obtain hops cost where h: "cheapest ?l (mt_length T k) = (hops, cost)" by fastforce
      have l: "h_to (last hops) = fr_target g" if "hops \<noteq> []" using cheapest_last [OF h that] False by simp
      show ?thesis
        unfolding Inr sum.case h prod.case
      proof (rule triple_if [OF no triple_bind [OF localBase_at]])
        fix b
        assume "\<not> (hops = [] \<or> cost \<ge> whole)"
        then show "triple ?P (case b of None \<Rightarrow> ret False
            | Some base \<Rightarrow> bind (run_hops T inflate full (file_mode g) ?X 0 hops base [])
                (\<lambda>(ok, spills). bind (for_each spills (\<lambda>name. ignore (RemoveAll name))) (\<lambda>_. ret ok))) ?Q (\<lambda>_ _. False)"
          using no run l by (cases b) auto
      qed
    qed (use no in simp)
    then show ?thesis using False by (simp add: patched_def Let_def triple_bind [OF now_tab])
  qed
qed

section \<open>Directories\<close>

lemma make_dirs_at:
  assumes pl: "placed fs" and v: "ValidVersion v" and s: "simples rs" and g: "g \<in> set fs" and d: "dn \<subseteq> set fs"
  shows "dst_elems g = xs @ ys @ [z] \<Longrightarrow> triple (at m0 f0 rs v fs dn xs) (make_dirs (abs_path (stage_dir rs v @ xs)) ys)
    (\<lambda>r m. at m0 f0 rs v fs dn (xs @ ys) m \<and> r = abs_path (stage_dir rs v @ xs @ ys)) (\<lambda>_. at m0 f0 rs v fs dn [])"
proof (induction ys arbitrary: xs)
  case Nil
  then show ?case by (simp add: triple_def ret_def)
next
  case (Cons y ys)
  let ?d = "abs_path ((stage_dir rs v @ xs) @ [y])"
  have e: "simples (dst_elems g)" by (rule placed_elems [OF pl g])
  then have y: "simple y" "simples xs" using Cons.prems by simp_all
  have mk: "triple (at m0 f0 rs v fs dn xs) (wrap ErrStage (MkdirAll ?d DirMode)) (\<lambda>_. at m0 f0 rs v fs dn (xs @ [y])) (\<lambda>_. at m0 f0 rs v fs dn [])"
  proof (rule triple_wrap, rule at_tabs)
    fix f
    assume st: "stage_tab f0 rs v fs f" and dt: "dirs_tab f (stage_dir rs v @ xs)" and h: "\<forall>x\<in>dn. has_file authentic f (stage_dir rs v) x"
    have "?d \<in> dir_paths (stage_dir rs v) fs"
      using g Cons.prems by (auto simp: dir_paths_def intro!: exI [of _ g] exI [of _ "Suc (length xs)"])
    note sm = stage_tab_mkdir [OF st pl v dt y(1) refl this]
    have "at m0 f0 rs v fs dn (xs @ [y]) m" if "tab m0 (with_dir DirMode ?d f) m" for m
      using that sm(2-4) h d unfolding at_stage_def by (intro exI [of _ "with_dir DirMode ?d f"]) auto
    moreover have "at m0 f0 rs v fs dn [] m" if "tab m0 f m" for m
      using that st h unfolding at_stage_def by (intro exI [of _ f]) (simp add: stage_tab_def)
    ultimately show "triple (tab m0 f) (MkdirAll ?d DirMode) (\<lambda>_. at m0 f0 rs v fs dn (xs @ [y])) (\<lambda>_. at m0 f0 rs v fs dn [])"
      by (intro triple_weaken [OF MkdirAll_plain [OF dt y(1) refl sm(1)]]) auto
  qed
  have j: "Join [abs_path (stage_dir rs v @ xs), y] = ?d"
    using staging_simples [OF s v] y Join_abs [of "stage_dir rs v @ xs" "[y]"] by simp
  have "triple (at m0 f0 rs v fs dn (xs @ [y])) (make_dirs ?d ys)
      (\<lambda>r m. at m0 f0 rs v fs dn (xs @ y # ys) m \<and> r = abs_path (stage_dir rs v @ xs @ y # ys)) (\<lambda>_. at m0 f0 rs v fs dn [])"
    using Cons.IH [of "xs @ [y]"] Cons.prems by simp
  moreover have refuse: "triple (at m0 f0 rs v fs dn xs) (refuseSymlink ?d) (\<lambda>_. at m0 f0 rs v fs dn xs) (\<lambda>_. at m0 f0 rs v fs dn [])"
    by (rule triple_weaken [OF refuseSymlink_tab [of "at m0 f0 rs v fs dn xs"]]) (auto intro: at_root)
  ultimately have "triple (at m0 f0 rs v fs dn xs) (bind (refuseSymlink ?d) (\<lambda>_. bind (wrap ErrStage (MkdirAll ?d DirMode)) (\<lambda>_. make_dirs ?d ys)))
      (\<lambda>r m. at m0 f0 rs v fs dn (xs @ y # ys) m \<and> r = abs_path (stage_dir rs v @ xs @ y # ys)) (\<lambda>_. at m0 f0 rs v fs dn [])"
    by (intro triple_bind [OF refuse triple_bind [OF mk]])
  then show ?case by (simp only: make_dirs.simps Let_def j)
qed

lemma makeDirs_at:
  assumes pl: "placed fs" and v: "ValidVersion v" and s: "simples rs" and g: "g \<in> set fs" and d: "dn \<subseteq> set fs"
  shows "triple (at m0 f0 rs v fs dn []) (makeDirs (abs_path (stage_dir rs v)) (Dir (fr_dst g)))
    (\<lambda>r m. at m0 f0 rs v fs dn (butlast (dst_elems g)) m \<and> r = abs_path (stage_dir rs v @ butlast (dst_elems g)))
    (\<lambda>_. at m0 f0 rs v fs dn [])"
proof -
  note e = placed_elems [OF pl g]
  obtain ys y where y: "dst_elems g = ys @ [y]" using e(2) by (cases "dst_elems g" rule: rev_cases) auto
  have p: "Base (fr_dst g) = y" "Dir (fr_dst g) = (if ys = [] then ''.'' else join_with ''/'' ys)"
    using dst_parts [of ys y "fr_dst g"] e(1,3) y by simp_all
  show ?thesis
  proof (cases "ys = []")
    case True
    then show ?thesis by (simp add: makeDirs_def p y triple_def ret_def)
  next
    case False
    have "simples ys" using e(1) y by simp
    note sd = split_dir [OF this False]
    then show ?thesis using make_dirs_at [OF pl v s g d, of "[]" ys y m0 f0] False by (simp add: makeDirs_def p y)
  qed
qed

section \<open>The launcher of the release\<close>

lemma pending_at:
  assumes pl: "placed fs" and v: "ValidVersion v" and s: "simples rs" and d: "dn \<subseteq> set fs" and pr: "makes m0 t MetaFileMode produce"
    and lp: "f0 (abs_path (pending_dir rs v)) \<noteq> None"
  shows "triple (at m0 f0 rs v fs dn es) (WriteLauncherPendingStream (abs_path rs) v nm produce)
    (\<lambda>_. at m0 f0 rs v fs dn es) (\<lambda>_. at m0 f0 rs v fs dn es)"
proof (cases "ValidateLauncherName nm")
  case (Inl e)
  then show ?thesis by (simp add: WriteLauncherPendingStream_def triple_def throw_def)
next
  case (Inr u)
  have nm: "simple nm" by (rule launcher_name_simple) (use Inr in simp)
  let ?P = "abs_path (pending_dir rs v)" and ?name = "abs_path (pending_dir rs v @ [nm])"
  have sp: "simples (pending_dir rs v)" "simples (staging_dir rs)" "simple (v @ launcherPendingSuffix)"
    using s simple_pending [OF simple_version [OF v]] by simp_all
  have ds: "?P = abs_path (staging_dir rs @ [v @ launcherPendingSuffix])" by simp
  have j: "Join [?P, nm] = ?name" using Join_abs [of "pending_dir rs v" "[nm]"] sp nm by simp
  show ?thesis
    unfolding WriteLauncherPendingStream_def Inr bind_lift pending_path2 [OF s v] j
  proof (rule at_tabs)
    fix f
    assume st: "stage_tab f0 rs v fs f" and dt: "dirs_tab f (stage_dir rs v @ es)" and h: "\<forall>x\<in>dn. has_file authentic f (stage_dir rs v) x"
    have wf: "wf_tab f" and dstg: "dirs_tab f (staging_dir rs)" using st dirs_tab_append [of f "staging_dir rs" "[v]"] by (simp_all add: stage_tab_def)
    let ?A = "at m0 f0 rs v fs dn es"
    have keep: "?A m" if "tab m0 g m" "wf_tab g" "\<And>q. \<not> in_tree ?P q \<Longrightarrow> g q = f q" for g m
      using pending_keep [OF st v s that(2,3) lp] at_keep [OF pl d dt h that(1)] by blast
    let ?f1 = "pruned ?P f"
    have wf1: "wf_tab ?f1" by (rule wf_tab_pruned [OF wf])
    have none: "?f1 q = None" if "in_tree ?P q" for q using that by (simp add: pruned_in_tree)
    have o1: "?f1 q = f q" if "\<not> in_tree ?P q" for q using that by (simp add: pruned_in_tree)
    have d1: "dirs_tab ?f1 (staging_dir rs)"
      by (rule dirs_tab_cong [OF dstg], rule o1, rule staging_not_pending [OF s v])
    let ?f2 = "with_dir DirMode ?P ?f1"
    have p1: "isDir n \<and> \<not> isSymlink n" if "?f1 ?P = Some n" for n using none [of ?P] that by simp
    have wf2: "wf_tab ?f2" by (rule wf_with_dir [OF wf1 d1 sp(3) ds])
    have d2: "dirs_tab ?f2 (pending_dir rs v)" using with_dir_dirs [OF d1 sp(3) ds p1] by simp
    have below: "?f2 (abs_path (pending_dir rs v @ [x])) = None" "in_tree ?P (abs_path (pending_dir rs v @ [x]))" if "simple x" for x
    proof -
      have sx: "simples (pending_dir rs v @ [x])" using sp(1) that by simp
      show t: "in_tree ?P (abs_path (pending_dir rs v @ [x]))" using in_tree_abs [OF sp(1) sx] by simp
      have "abs_path (pending_dir rs v @ [x]) \<noteq> ?P" using abs_path_inj [OF sx sp(1)] by auto
      then show "?f2 (abs_path (pending_dir rs v @ [x])) = None" using none [OF t] by (simp add: with_dir_def)
    qed
    have o2: "?f2 q = f q" if "\<not> in_tree ?P q" for q
      using that by (auto simp: pruned_in_tree with_dir_def in_tree_def)
    have tk: "tmp_of (pid m0) ?name k = abs_path (pending_dir rs v @ [nm @ scratch_suffix (pid m0) k])" "simple (nm @ scratch_suffix (pid m0) k)" for k
      using tmp_key [of "pending_dir rs v" nm "pid m0" k] sp nm by simp_all
    have wrt: "triple (tab m0 ?f2) (WriteStreamAtomic ?name MetaFileMode produce)
        (\<lambda>_ m. \<exists>bs. authentic t bs \<and> written m0 ?f2 ?name (file_node MetaFileMode bs) m)
        (\<lambda>_ m. True \<and> (unwritten m0 ?f2 ?name m \<or> (\<exists>bs. authentic t bs \<and> written m0 ?f2 ?name (file_node MetaFileMode bs) m)))"
      using pr below nm tk by (intro WriteStreamAtomic_makes [OF d2 nm refl wf2]) (auto simp: makes_def)
    have rm: "triple (tab m0 f) (wrap ErrLayout (RemoveAll ?P)) (\<lambda>_. tab m0 ?f1) (\<lambda>_. ?A)"
      using keep [of f] wf by (intro triple_wrap triple_weaken [OF RemoveAll_plain [OF dstg sp(3) ds wf]]) auto
    have mk: "triple (tab m0 ?f1) (wrap ErrLayout (MkdirAll ?P DirMode)) (\<lambda>_. tab m0 ?f2) (\<lambda>_. ?A)"
      using keep [of ?f1, OF _ wf1 o1] by (intro triple_wrap triple_weaken [OF MkdirAll_plain [OF d1 sp(3) ds p1]]) auto
    have nmP: "in_tree ?P ?name" "\<And>k. in_tree ?P (tmp_of (pid m0) ?name k)" using below(2) nm tk by simp_all
    have wf3: "wf_tab (?f2(tmp_of (pid m0) ?name k := x))" for k x
      using below(1) tk by (intro wf_tab_file [OF wf2 d2 tk(2) tk(1)]) simp
    have wf4: "wf_tab (?f2(tmp_of (pid m0) ?name k := None, ?name \<mapsto> nd))" for k nd
      using below(1) [OF nm] by (intro wf_tab_file [OF wf3 dirs_tab_upd [OF d2 tk(2) tk(1)] nm refl]) (auto split: if_splits)
    have o3: "(?f2(tmp_of (pid m0) ?name k := x)) q = f q" and o4: "(?f2(tmp_of (pid m0) ?name k := x, ?name := y)) q = f q"
      if "\<not> in_tree ?P q" for q k x y
      using that nmP(1) nmP(2) [of k] o2 [OF that] by auto
    have wr: "?A m" if "written m0 ?f2 ?name nd m" for nd m
    proof -
      from that obtain k where t: "tab m0 (?f2(tmp_of (pid m0) ?name k := None, ?name \<mapsto> nd)) m" unfolding written_def by blast
      show ?thesis by (rule keep [OF t wf4 o4])
    qed
    have un: "?A m" if "unwritten m0 ?f2 ?name m" for m
    proof -
      from that obtain k x where t: "tab m0 (?f2(tmp_of (pid m0) ?name k := x)) m" unfolding unwritten_def by blast
      show ?thesis by (rule keep [OF t wf3 o3])
    qed
    have ws: "triple (tab m0 ?f2) (wrap ErrLayout (WriteStreamAtomic ?name MetaFileMode produce)) (\<lambda>_. ?A) (\<lambda>_. ?A)"
      by (rule triple_wrap, rule triple_weaken [OF wrt]) (blast intro: wr un)+
    show "triple (tab m0 f) (bind (wrap ErrLayout (RemoveAll ?P)) (\<lambda>_. bind (wrap ErrLayout (MkdirAll ?P DirMode))
        (\<lambda>_. wrap ErrLayout (WriteStreamAtomic ?name MetaFileMode produce)))) (\<lambda>_. ?A) (\<lambda>_. ?A)"
      by (rule triple_bind [OF rm triple_bind [OF mk ws]])
  qed
qed

section \<open>A file\<close>

lemma stageFile_at:
  assumes pl: "placed fs" and v: "ValidVersion v" and s: "simples rs" and g: "g \<in> set fs" "g \<notin> dn" and d: "dn \<subseteq> set fs"
    and lp: "Launcher_Enabled launcher \<longrightarrow> f0 (abs_path (pending_dir rs v)) \<noteq> None"
  shows "triple (at m0 f0 rs v fs dn [])
    (stageFile T inflate (abs_path rs) launcher (abs_path (stage_dir rs v)) v g sources routes (abs_path (scratch_dir rs)))
    (\<lambda>_. at m0 f0 rs v fs (insert g dn) []) (\<lambda>_. at m0 f0 rs v fs dn [])"
proof -
  let ?A = "at m0 f0 rs v fs" and ?es = "butlast (dst_elems g)" and ?full = "abs_path (stage_dir rs v @ dst_elems g)"
  note e = placed_elems [OF pl g(1)]
  obtain ys y where y: "dst_elems g = ys @ [y]" using e(2) by (cases "dst_elems g" rule: rev_cases) auto
  have b: "Base (fr_dst g) = y" using dst_parts(1) [of ys y "fr_dst g"] e(1,3) y by simp
  have san: "SanitizeDst (fr_dst g) = Inr (fr_dst g)" using pl g(1) by (intro safe_rel_dst) (simp add: placed_def)
  have full: "Join [abs_path (stage_dir rs v @ ?es), y] = ?full"
    using Join_abs [of "stage_dir rs v @ ys" "[y]"] staging_simples(1) [OF s v] e(1) y by simp
  have go: "goes rs v fs dn g (dst_elems g) ?full" using pl v g d e by (simp add: goes_def)
  have d': "insert g dn \<subseteq> set fs" using g d by simp
  have fetch: "triple (?A dn ?es) (WriteStreamAtomic ?full (file_mode g) (\<lambda>w. fetch_into T (fr_target g) w))
      (\<lambda>_. ?A (insert g dn) ?es) (\<lambda>_. ?A dn ?es)"
    using full_write [OF go producers(1)] by simp
  let ?launch = "if Launcher_Enabled launcher \<and> fr_dst g = l_source launcher
     then wrap ErrStage (WriteLauncherPendingStream (abs_path rs) v (l_name launcher)
            (\<lambda>w. copyVerified T ?full (fr_target g) (Some w)))
     else ret ()"
  have pend: "triple (?A (insert g dn) ?es) (WriteLauncherPendingStream (abs_path rs) v (l_name launcher)
      (\<lambda>w. copyVerified T ?full (fr_target g) (Some w))) (\<lambda>_. ?A (insert g dn) []) (\<lambda>_. ?A dn [])" if "Launcher_Enabled launcher"
    using at_root at_weaken [of _ _ _ _ _ "insert g dn" "[]" _ dn]
    by (intro triple_weaken [OF pending_at [where ?f0.0 = f0, OF pl v s d' producers(2) lp [rule_format, OF that]]]) blast+
  have last: "triple (?A (insert g dn) ?es) ?launch (\<lambda>_. ?A (insert g dn) []) (\<lambda>_. ?A dn [])"
    using at_root at_weaken [of _ _ _ _ _ "insert g dn" "[]" _ dn] by (intro triple_if triple_wrap pend triple_ret) blast+
  let ?place = "\<lambda>local. if local then ret () else WriteStreamAtomic ?full (file_mode g) (\<lambda>w. fetch_into T (fr_target g) w)"
  have place: "triple (?A (if local then insert g dn else dn) ?es) (?place local) (\<lambda>_. ?A (insert g dn) ?es) (\<lambda>_. ?A dn [])" for local
    using fetch at_root by (cases local) (auto intro!: triple_ret elim: triple_weaken)
  let ?patch = "\<lambda>reused. if reused then ret True else patched T inflate ?full g (fr_dst g) sources routes (abs_path (scratch_dir rs))"
  have patch: "triple (?A (if reused then insert g dn else dn) ?es) (?patch reused) (\<lambda>ok. ?A (if ok then insert g dn else dn) ?es) (\<lambda>_ _. False)" for reused
    using patched_at [OF go s] by (cases reused) (auto intro!: triple_ret)
  have "triple (?A dn []) (bind (makeDirs (abs_path (stage_dir rs v)) (Dir (fr_dst g))) (\<lambda>dir.
     let full = Join [dir, Base (fr_dst g)] in
     bind (refuseSymlink full) (\<lambda>_.
     bind (reuse T full g (fr_dst g) sources) (\<lambda>reused.
     bind (if reused then ret True else patched T inflate full g (fr_dst g) sources routes (abs_path (scratch_dir rs))) (\<lambda>local.
     bind (if local then ret () else WriteStreamAtomic full (file_mode g) (\<lambda>w. fetch_into T (fr_target g) w)) (\<lambda>_.
     if Launcher_Enabled launcher \<and> fr_dst g = l_source launcher
     then wrap ErrStage (WriteLauncherPendingStream (abs_path rs) v (l_name launcher)
            (\<lambda>w. copyVerified T full (fr_target g) (Some w)))
     else ret ())))))) (\<lambda>_. ?A (insert g dn) []) (\<lambda>_. ?A dn [])"
  proof (rule triple_bind [OF makeDirs_at [OF pl v s g(1) d]], rule triple_fact)
    fix dir
    assume dir: "dir = abs_path (stage_dir rs v @ ?es)"
    have "triple (?A dn ?es) (bind (refuseSymlink ?full) (\<lambda>_. bind (reuse T ?full g (fr_dst g) sources) (\<lambda>reused.
        bind (?patch reused) (\<lambda>local. bind (?place local) (\<lambda>_. ?launch))))) (\<lambda>_. ?A (insert g dn) []) (\<lambda>_. ?A dn [])"
    proof (rule triple_bind [OF _ triple_bind [OF _ triple_bind [OF _ triple_bind [OF place last]]]])
      show "triple (?A dn ?es) (refuseSymlink ?full) (\<lambda>_. ?A dn ?es) (\<lambda>_. ?A dn [])"
        by (rule triple_weaken [OF refuseSymlink_tab [of "?A dn ?es"]]) (auto intro: at_root)
      show "triple (?A dn ?es) (reuse T ?full g (fr_dst g) sources) (\<lambda>ok. ?A (if ok then insert g dn else dn) ?es) (\<lambda>_. ?A dn [])"
        by (rule triple_weaken [OF reuse_at [OF go]]) auto
      show "triple (?A (if reused then insert g dn else dn) ?es) (?patch reused) (\<lambda>ok. ?A (if ok then insert g dn else dn) ?es) (\<lambda>_. ?A dn [])" for reused
        by (rule triple_weaken [OF patch]) auto
    qed
    then show "triple (?A dn ?es) (let full = Join [dir, Base (fr_dst g)] in
     bind (refuseSymlink full) (\<lambda>_.
     bind (reuse T full g (fr_dst g) sources) (\<lambda>reused.
     bind (if reused then ret True else patched T inflate full g (fr_dst g) sources routes (abs_path (scratch_dir rs))) (\<lambda>local.
     bind (if local then ret () else WriteStreamAtomic full (file_mode g) (\<lambda>w. fetch_into T (fr_target g) w)) (\<lambda>_.
     if Launcher_Enabled launcher \<and> fr_dst g = l_source launcher
     then wrap ErrStage (WriteLauncherPendingStream (abs_path rs) v (l_name launcher)
            (\<lambda>w. copyVerified T full (fr_target g) (Some w)))
     else ret ()))))) (\<lambda>_. ?A (insert g dn) []) (\<lambda>_. ?A dn [])"
      by (simp only: dir b full Let_def)
  qed
  then show ?thesis by (simp only: stageFile_def san wrap_lift bind_lift)
qed

lemma stage_files_at:
  assumes pl: "placed fs" and v: "ValidVersion v" and s: "simples rs"
    and lp: "Launcher_Enabled launcher \<longrightarrow> f0 (abs_path (pending_dir rs v)) \<noteq> None"
  shows "distinct gs \<Longrightarrow> set gs \<subseteq> set fs \<Longrightarrow> dn \<subseteq> set fs \<Longrightarrow> set gs \<inter> dn = {} \<Longrightarrow> triple (at m0 f0 rs v fs dn [])
    (for_each gs (\<lambda>g. bind (check_ctx ctx) (\<lambda>_.
       stageFile T inflate (abs_path rs) launcher (abs_path (stage_dir rs v)) v g sources routes (abs_path (scratch_dir rs)))))
    (\<lambda>_. at m0 f0 rs v fs (dn \<union> set gs) []) (\<lambda>_. at m0 f0 rs v fs {} [])"
proof (induction gs arbitrary: dn)
  case Nil
  then show ?case by (simp add: triple_def ret_def)
next
  case (Cons g gs)
  let ?A = "at m0 f0 rs v fs"
  have ctx: "triple (?A dn []) (check_ctx ctx) (\<lambda>_. ?A dn []) (\<lambda>_. ?A dn [])"
    unfolding check_ctx_def by (rule triple_bind [OF now_tab]) (auto simp: triple_def ret_def throw_def split: option.splits)
  have g: "g \<in> set fs" "g \<notin> dn" "dn \<subseteq> set fs" using Cons.prems by auto
  have one: "triple (?A dn []) (bind (check_ctx ctx) (\<lambda>_.
       stageFile T inflate (abs_path rs) launcher (abs_path (stage_dir rs v)) v g sources routes (abs_path (scratch_dir rs))))
      (\<lambda>_. ?A (insert g dn) []) (\<lambda>_. ?A {} [])"
    by (rule triple_weaken [OF triple_bind [OF ctx stageFile_at [where ?f0.0 = f0, OF pl v s g lp]]]) (auto intro: at_weaken)
  have "insert g dn \<union> set gs = dn \<union> set (g # gs)" by auto
  then show ?case
    unfolding for_each.simps using Cons.IH [of "insert g dn"] Cons.prems by (intro triple_bind [OF one]) auto
qed

end

end
