(* ===== verification/StageSafe.thy ===== *)
theory StageSafe
  imports StagingRun
begin

text \<open>
  \<open>Stage\<close> as a whole: whatever fails, a version directory holds the complete signed release or is as it was before.
\<close>

section \<open>The staging area\<close>

lemma RemoveAll_absent:
  assumes dt: "dirs_tab f ds" and e: "simples [a, b]" and p: "p = abs_path (ds @ [a, b])" and wf: "wf_tab f"
    and none: "f (abs_path (ds @ [a])) = None"
  shows "triple (tab m0 f) (RemoveAll p) (\<lambda>_. tab m0 (pruned p f)) (\<lambda>_. tab m0 f)"
  unfolding triple_def
proof (intro allI impI)
  fix m
  assume t: "tab m0 f m"
  then have d: "dirs_ok m ds" using dt by (simp add: dirs_ok_tab tab_def)
  have s: "simples (ds @ [a, b])" using e dt by (simp add: dirs_tab_def)
  have "\<not> link_at m (abs_path (take i (ds @ [a, b])))" if "i < length (ds @ [a, b])" for i
  proof (cases "i \<le> length ds")
    case True
    then show ?thesis by (rule dirs_ok_not_link [OF d])
  next
    case False
    then have "take i (ds @ [a, b]) = ds @ [a]" using that by (cases "i = Suc (length ds)") auto
    then show ?thesis using none t by (simp add: link_at_def tab_def)
  qed
  then have r: "resolve m p False = Inr p" unfolding p by (intro resolve_plain [OF s]) auto
  have "f q = None" if "in_tree (abs_path (ds @ [a])) q" for q
    using that none wf_tab_below [OF wf, of "abs_path (ds @ [a])" q] by (auto simp: in_tree_def)
  moreover have "in_tree (abs_path (ds @ [a])) p" using in_tree_abs [of "ds @ [a]" "ds @ [a, b]"] s by (simp add: p)
  ultimately have n: "f p = None" "pruned p f = f" using in_tree_trans by (auto simp: pruned_in_tree fun_eq_iff)
  show "case RemoveAll p m of (Inl er, m') \<Rightarrow> tab m0 f m' | (Inr _, m') \<Rightarrow> tab m0 (pruned p f) m'"
    using r n t by (cases rule: fail_cases' [OF t, of "''removeall''" "canon p"]) (auto simp: RemoveAll_def prog_simps tab_node_at p)
qed

lemma mkdir_loop_append:
  "mkdir_loop md c (as @ bs) m = (case mkdir_loop md c as m of (Inl e, m') \<Rightarrow> (Inl e, m')
     | (Inr _, m') \<Rightarrow> mkdir_loop md (foldl joinPath c as) bs m')"
  by (induction md c as m rule: mkdir_loop.induct) (auto simp: Let_def split: option.splits sum.splits prod.splits)

lemma foldl_joinPath: "simples (xs @ ys) \<Longrightarrow> foldl joinPath (abs_path xs) ys = abs_path (xs @ ys)"
proof (induction ys arbitrary: xs)
  case (Cons y ys)
  have "joinPath (abs_path xs) y = abs_path (xs @ [y])" using Cons.prems by (simp add: joinPath_abs)
  then show ?case using Cons.IH [of "xs @ [y]"] Cons.prems by simp
qed simp

lemma tab_put_same: "tab m0 f m \<Longrightarrow> tab m0 (f(p \<mapsto> n)) (put p n m)"
  by (auto simp: tab_def same_env_def put_def node_at_def update_conv')

text \<open>\<open>MkdirAll\<close> of two new levels.\<close>

lemma MkdirAll_two:
  assumes dt: "dirs_tab f ds" and e: "simples [a, b]" and p: "p = abs_path (ds @ [a])" "q = abs_path (ds @ [a, b])"
    and real: "\<And>n. f p = Some n \<Longrightarrow> isDir n \<and> \<not> isSymlink n" "\<And>n. f q = Some n \<Longrightarrow> isDir n \<and> \<not> isSymlink n"
  shows "triple (tab m0 f) (MkdirAll q md) (\<lambda>_. tab m0 (with_dir md q (with_dir md p f))) (\<lambda>_. tab m0 f)"
  unfolding triple_def
proof (intro allI impI)
  fix m
  assume t: "tab m0 f m"
  then have d: "dirs_ok m ds" using dt by (simp add: dirs_ok_tab tab_def)
  have s: "simples (ds @ [a])" "simples (ds @ [a, b])" "simples ds" using e dt by (simp_all add: dirs_tab_def)
  have "\<not> link_at m (abs_path (take i (ds @ [a, b])))" for i
  proof -
    consider "i \<le> length ds" | "take i (ds @ [a, b]) = ds @ [a]" | "take i (ds @ [a, b]) = ds @ [a, b]"
      by (cases "i \<le> length ds"; cases "i = Suc (length ds)") auto
    then show ?thesis
    proof cases
      case 1
      then show ?thesis by (rule dirs_ok_not_link [OF d])
    qed (use real t p in \<open>auto simp: link_at_def tab_def\<close>)
  qed
  note nl = this
  have r: "resolve m q True = Inr q" unfolding p by (rule resolve_plain [OF s(2)]) (use nl [of "length (ds @ [a, b])"] nl in auto)
  let ?m = "m\<lparr>calls := Suc (calls m)\<rparr>"
  let ?m1 = "if f p = None then put p (dir_node md) ?m else ?m"
  have root: "abs_path [] = ''/''" by (simp add: abs_path_def)
  have l1: "mkdir_loop md ''/'' (ds @ [a]) ?m = (Inr (), ?m1)"
    using mkdir_loop_last [of "[]" ds ?m a md] d s real t p by (auto simp: dirs_ok_def real_dir_def tab_def root)
  have t1: "tab m0 (with_dir md p f) ?m1" using tab_put [OF t, of p "dir_node md"] t by (auto simp: with_dir_def)
  have pq: "p \<noteq> q" using abs_path_inj [OF s(1,2)] by (simp add: p)
  let ?m2 = "if f q = None then put q (dir_node md) ?m1 else ?m1"
  have j: "joinPath (abs_path (ds @ [a])) b = q" using s(2) joinPath_abs [of "ds @ [a]" b] by (simp add: p)
  have "node_at ?m1 q = f q" using t1 pq by (auto simp: tab_def with_dir_def)
  then have l2: "mkdir_loop md (abs_path (ds @ [a])) [b] ?m1 = (Inr (), ?m2)"
    using real(2) by (auto simp: j Let_def split: option.splits)
  have f1: "foldl joinPath ''/'' (ds @ [a]) = abs_path (ds @ [a])" using foldl_joinPath [of "[]" "ds @ [a]"] s(1) by (simp add: root)
  have l: "mkdir_loop md ''/'' (ds @ [a, b]) ?m = (Inr (), ?m2)"
    using mkdir_loop_append [of md "''/''" "ds @ [a]" "[b]" ?m] l1 l2 f1 by simp
  have "with_dir md p f q = f q" using pq by (simp add: with_dir_def)
  then have t2: "tab m0 (with_dir md q (with_dir md p f)) ?m2"
    using t1 tab_put_same [OF t1, of q "dir_node md"] by (auto simp: with_dir_def [of md q])
  have sp: "prefix ''/'' q" "splitElems q = ds @ [a, b]" using s by (simp_all add: p prefix_abs splitElems_abs)
  show "case MkdirAll q md m of (Inl er, m') \<Rightarrow> tab m0 f m' | (Inr _, m') \<Rightarrow> tab m0 (with_dir md q (with_dir md p f)) m'"
    using r sp t l t2 by (cases rule: fail_cases' [OF t, of "''mkdirall''" "canon q"]) (auto simp: MkdirAll_def prog_simps p)
qed

text \<open>
  What staging needs of the disk: the metadata directory and the directory of versions are real directories, and so
  are the staging area and its scratch directory where they exist, the latter with nothing but files in it.
\<close>

lemma dirs_tab_end: "dirs_tab f ds \<Longrightarrow> f (abs_path ds) = Some n \<Longrightarrow> isDir n \<and> \<not> isSymlink n"
  by (auto simp: dirs_tab_def dest: spec [of _ "length ds"])

lemma dirs_tab_snoc:
  assumes "dirs_tab f ds" "simple e" "f (abs_path (ds @ [e])) = Some n" "isDir n" "\<not> isSymlink n"
  shows "dirs_tab f (ds @ [e])"
  unfolding dirs_tab_def
proof (intro conjI allI impI)
  show "simples (ds @ [e])" using assms by (simp add: dirs_tab_def)
  fix i
  assume "i \<le> length (ds @ [e])"
  then show "\<exists>n. f (abs_path (take i (ds @ [e]))) = Some n \<and> isDir n \<and> \<not> isSymlink n"
    using assms by (cases "i \<le> length ds") (auto simp: dirs_tab_def)
qed

definition stage_ready :: "string list \<Rightarrow> (string \<Rightarrow> memNode option) \<Rightarrow> bool" where
  "stage_ready rs f \<longleftrightarrow> dirs_tab f (rs @ [MetaName]) \<and> dirs_tab f (rs @ [VersionsName]) \<and> wf_tab f \<and>
     (\<forall>n. f (abs_path (staging_dir rs)) = Some n \<longrightarrow> isDir n \<and> \<not> isSymlink n) \<and>
     (\<forall>n. f (abs_path (scratch_dir rs)) = Some n \<longrightarrow> isDir n \<and> \<not> isSymlink n) \<and> scratch_clean rs f"

lemma staging_apart:
  assumes "simples rs" "ValidVersion v"
  shows "in_tree (abs_path (staging_dir rs)) (abs_path (stage_dir rs v))"
    "in_tree (abs_path (staging_dir rs)) (abs_path (scratch_dir rs))"
    "in_tree (abs_path (staging_dir rs)) (abs_path (pending_dir rs v))"
    "\<And>q. in_tree (abs_path (version_dir rs v)) q \<Longrightarrow> \<not> in_tree (abs_path (staging_dir rs)) q"
    "\<And>q. in_tree (abs_path (stage_dir rs v)) q \<Longrightarrow> \<not> in_tree (abs_path (pending_dir rs v)) q"
    "\<And>q. in_tree (abs_path (scratch_dir rs)) q \<Longrightarrow> \<not> in_tree (abs_path (pending_dir rs v)) q"
    "\<And>q. in_tree (abs_path (stage_dir rs v)) q \<Longrightarrow> \<not> in_tree (abs_path (scratch_dir rs)) q"
    "\<And>q. in_tree (abs_path (scratch_dir rs)) q \<Longrightarrow> \<not> in_tree (abs_path (stage_dir rs v)) q"
proof -
  note s = staging_simples [OF assms]
  have sp: "simples (pending_dir rs v)" using assms simple_pending [OF simple_version] by simp
  note n = suffix_not_version [of v] suffix_not_scratch [OF assms(2)] scratchName_not_version [OF assms(2)]
  show "in_tree (abs_path (staging_dir rs)) (abs_path (stage_dir rs v))" "in_tree (abs_path (staging_dir rs)) (abs_path (scratch_dir rs))"
    "in_tree (abs_path (staging_dir rs)) (abs_path (pending_dir rs v))"
    using in_tree_abs [OF s(3) s(1)] in_tree_abs [OF s(3) s(2)] in_tree_abs [OF s(3) sp] by simp_all
  show "\<not> in_tree (abs_path (staging_dir rs)) q" if "in_tree (abs_path (version_dir rs v)) q" for q
    using trees_disjoint [of rs VersionsName "[v]" MetaName "[StagingName]" q] s that by (simp add: VersionsName_def MetaName_def)
  show "\<not> in_tree (abs_path (pending_dir rs v)) q" if "in_tree (abs_path (stage_dir rs v)) q" for q
    using trees_disjoint [of "staging_dir rs" v "[]" "v @ launcherPendingSuffix" "[]" q] s sp that n by simp
  show "\<not> in_tree (abs_path (pending_dir rs v)) q" if "in_tree (abs_path (scratch_dir rs)) q" for q
    using trees_disjoint [of "staging_dir rs" scratchName "[]" "v @ launcherPendingSuffix" "[]" q] s sp that n by simp
  show "\<not> in_tree (abs_path (scratch_dir rs)) q" if "in_tree (abs_path (stage_dir rs v)) q" for q
    using trees_disjoint [of "staging_dir rs" v "[]" scratchName "[]" q] s that n by simp
  show "\<not> in_tree (abs_path (stage_dir rs v)) q" if "in_tree (abs_path (scratch_dir rs)) q" for q
    using trees_disjoint [of "staging_dir rs" scratchName "[]" v "[]" q] s that n by simp
qed

text \<open>The table after each of the four steps that open the staging area.\<close>

definition area_tab :: "string list \<Rightarrow> string \<Rightarrow> nat \<Rightarrow> (string \<Rightarrow> memNode option) \<Rightarrow> string \<Rightarrow> memNode option" where
  "area_tab rs v i f =
     (let S = abs_path (stage_dir rs v); f1 = pruned S f;
          f2 = with_dir DirMode S (with_dir DirMode (abs_path (staging_dir rs)) f1);
          f3 = pruned (abs_path (pending_dir rs v)) f2;
          f4 = with_dir DirMode (abs_path (scratch_dir rs)) f3
      in if i = 0 then f else if i = 1 then f1 else if i = 2 then f2 else if i = 3 then f3 else f4)"

lemma with_dir_other: "q \<noteq> p \<Longrightarrow> with_dir md p f q = f q"
  by (simp add: with_dir_def)

lemma area_tab_other:
  assumes "simples rs" "ValidVersion v" "\<not> in_tree (abs_path (staging_dir rs)) q"
  shows "area_tab rs v i f q = f q"
proof -
  note a = staging_apart(1-3) [OF assms(1,2)]
  have "\<not> in_tree (abs_path (stage_dir rs v)) q" "\<not> in_tree (abs_path (pending_dir rs v)) q" "\<not> in_tree (abs_path (scratch_dir rs)) q"
    using a in_tree_trans assms(3) by blast+
  moreover from this have "q \<noteq> abs_path (stage_dir rs v)" "q \<noteq> abs_path (scratch_dir rs)" "q \<noteq> abs_path (staging_dir rs)"
    using assms(3) in_tree_self by metis+
  ultimately show ?thesis by (simp add: area_tab_def Let_def pruned_in_tree with_dir_other)
qed

lemma area_tab_pending:
  assumes "simples rs" "ValidVersion v" "f (abs_path (pending_dir rs v)) = None"
  shows "area_tab rs v i f (abs_path (pending_dir rs v)) = None"
proof -
  let ?P = "abs_path (pending_dir rs v)"
  note ss = staging_simples [OF assms(1,2)] and n = suffix_not_version [of v] suffix_not_scratch [OF assms(2)]
  have sp: "simples (pending_dir rs v)" using assms simple_pending [OF simple_version] by simp
  have "?P \<noteq> abs_path (stage_dir rs v)" "?P \<noteq> abs_path (staging_dir rs)" "?P \<noteq> abs_path (scratch_dir rs)"
    using n abs_path_inj [OF sp ss(1)] abs_path_inj [OF sp ss(3)] abs_path_inj [OF sp ss(2)] by auto
  then show ?thesis using assms(3) by (simp add: area_tab_def Let_def pruned_in_tree with_dir_other)
qed

lemma area_tab_dirs:
  assumes r: "stage_ready rs f" and s: "simples rs" and v: "ValidVersion v"
  shows "dirs_tab (area_tab rs v i f) (rs @ [MetaName])" "wf_tab (area_tab rs v i f)"
    "2 \<le> i \<Longrightarrow> dirs_tab (area_tab rs v i f) (stage_dir rs v)"
    "\<And>n. area_tab rs v i f (abs_path (staging_dir rs)) = Some n \<Longrightarrow> isDir n \<and> \<not> isSymlink n"
    "\<And>n. i < 4 \<Longrightarrow> area_tab rs v i f (abs_path (scratch_dir rs)) = Some n \<Longrightarrow> isDir n \<and> \<not> isSymlink n"
    "1 \<le> i \<Longrightarrow> i < 2 \<Longrightarrow> area_tab rs v i f (abs_path (stage_dir rs v)) = None"
proof -
  let ?G = "abs_path (staging_dir rs)" and ?S = "abs_path (stage_dir rs v)" and ?X = "abs_path (scratch_dir rs)" and ?P = "abs_path (pending_dir rs v)"
  note ss = staging_simples [OF s v] and a = staging_apart [OF s v]
  let ?f1 = "pruned ?S f" and ?f2 = "with_dir DirMode ?S (with_dir DirMode ?G (pruned ?S f))"
  let ?f3 = "pruned ?P ?f2"
  have sv: "simple v" "simple StagingName" using simple_version [OF v] by simp_all
  have ne: "?G \<noteq> ?S" using abs_path_inj [OF ss(3,1)] by auto
  have nt: "\<not> in_tree ?S ?G" using in_tree_abs [OF ss(1,3)] by simp
  have m: "dirs_tab (area_tab rs v i f) (rs @ [MetaName])" for i
  proof (rule dirs_tab_cong)
    show "dirs_tab f (rs @ [MetaName])" using r by (simp add: stage_ready_def)
    fix j
    have "\<not> in_tree ?G (abs_path (take j (rs @ [MetaName])))"
    proof (subst in_tree_abs [OF ss(3) simples_take [OF ss(5)]])
      show "\<not> prefix (staging_dir rs) (take j (rs @ [MetaName]))" using prefix_length_le by fastforce
    qed simp
    then show "area_tab rs v i f (abs_path (take j (rs @ [MetaName]))) = f (abs_path (take j (rs @ [MetaName])))"
      by (rule area_tab_other [OF s v])
  qed
  have f1: "area_tab rs v 1 f = ?f1" and f2: "area_tab rs v 2 f = ?f2" and f3: "area_tab rs v 3 f = ?f3"
    by (simp_all add: area_tab_def Let_def)
  have g1: "isDir n \<and> \<not> isSymlink n" if "?f1 ?G = Some n" for n using that r nt by (simp add: pruned_in_tree stage_ready_def)
  have d1: "dirs_tab (with_dir DirMode ?G ?f1) (staging_dir rs)"
    using with_dir_dirs [OF m [of 1, unfolded f1] sv(2) _ g1, of ?G DirMode] by simp
  have s1: "with_dir DirMode ?G ?f1 ?S = None" using ne by (simp add: with_dir_def pruned_in_tree)
  have d2: "dirs_tab ?f2 (stage_dir rs v)" using with_dir_dirs [OF d1 sv(1), of ?S DirMode] s1 by simp
  have w1: "wf_tab ?f1" using r by (intro wf_tab_pruned) (simp add: stage_ready_def)
  have w2: "wf_tab ?f2"
    using wf_with_dir [OF wf_with_dir [OF w1 m [of 1, unfolded f1] sv(2), of ?G DirMode] d1 sv(1), of ?S DirMode] by simp
  have w3: "wf_tab ?f3" by (rule wf_tab_pruned [OF w2])
  have "\<not> prefix (pending_dir rs v) (stage_dir rs v)" using suffix_not_version by simp
  then have "\<not> prefix (pending_dir rs v) (take j (stage_dir rs v))" for j using prefix_order.trans [OF _ take_is_prefix] by blast
  then have np: "\<not> in_tree ?P (abs_path (take j (stage_dir rs v)))" for j by (rule pending_outside [OF s v simples_take [OF ss(1)]])
  have d3: "dirs_tab ?f3 (stage_dir rs v)" by (rule dirs_tab_cong [OF d2]) (simp only: pruned_in_tree np if_False)
  have nx: "\<not> prefix (scratch_dir rs) (stage_dir rs v)" using scratchName_not_version [OF v] by simp
  have d4: "dirs_tab (with_dir DirMode ?X ?f3) (stage_dir rs v)" using dirs_tab_upd2 [OF d3 ss(2) nx] d3 by (simp add: with_dir_def)
  have d3': "dirs_tab ?f3 (staging_dir rs)" using dirs_tab_append [of ?f3 "staging_dir rs" "[v]"] d3 by simp
  have w4: "wf_tab (with_dir DirMode ?X ?f3)" using wf_with_dir [OF w3 d3' scratchName_simple, of ?X DirMode] by simp
  show "dirs_tab (area_tab rs v i f) (rs @ [MetaName])" by (rule m)
  show "wf_tab (area_tab rs v i f)" using r w1 w2 w3 w4 by (simp add: area_tab_def Let_def stage_ready_def)
  show st: "dirs_tab (area_tab rs v i f) (stage_dir rs v)" if "2 \<le> i" using that d2 d3 d4 by (auto simp: area_tab_def Let_def)
  show "isDir n \<and> \<not> isSymlink n" if n: "area_tab rs v i f ?G = Some n" for n
  proof (cases "2 \<le> i")
    case True
    then have "dirs_tab (area_tab rs v i f) (staging_dir rs)" using dirs_tab_append [of _ "staging_dir rs" "[v]"] st by simp
    then show ?thesis using n dirs_tab_end by blast
  next
    case False
    then show ?thesis using n g1 r by (auto simp: area_tab_def Let_def stage_ready_def split: if_splits)
  qed
  have "?X \<noteq> ?S" "?X \<noteq> ?G" "\<not> in_tree ?S ?X" "\<not> in_tree ?P ?X"
    using abs_path_inj [OF ss(2,1)] abs_path_inj [OF ss(2,3)] scratchName_not_version [OF v] a(6,8) [of ?X] by auto
  then show "isDir n \<and> \<not> isSymlink n" if "area_tab rs v i f ?X = Some n" "i < 4" for n
    using that r by (auto simp: area_tab_def Let_def stage_ready_def pruned_in_tree with_dir_def split: if_splits)
  show "area_tab rs v i f ?S = None" if "1 \<le> i" "i < 2" using that by (simp add: area_tab_def Let_def pruned_in_tree)
qed

lemma opened_tab:
  assumes r: "stage_ready rs f" and s: "simples rs" and v: "ValidVersion v"
  shows "stage_tab f rs v fs (area_tab rs v 4 f)"
proof -
  let ?G = "abs_path (staging_dir rs)" and ?S = "abs_path (stage_dir rs v)" and ?X = "abs_path (scratch_dir rs)" and ?P = "abs_path (pending_dir rs v)"
  note ss = staging_simples [OF s v] and a = staging_apart [OF s v] and d = area_tab_dirs [OF r s v]
  let ?f3 = "area_tab rs v 3 f"
  have f4: "area_tab rs v 4 f = with_dir DirMode ?X ?f3" by (simp add: area_tab_def Let_def)
  have d3: "dirs_tab ?f3 (staging_dir rs)" using dirs_tab_append [of ?f3 "staging_dir rs" "[v]"] d(3) [of 3] by simp
  have x: "dirs_tab (area_tab rs v 4 f) (scratch_dir rs)"
    using with_dir_dirs [OF d3 scratchName_simple, of ?X DirMode] d(5) [of 3] by (simp add: f4)
  have "?S \<noteq> ?G" "?X \<noteq> ?G" using abs_path_inj [OF ss(1,3)] abs_path_inj [OF ss(2,3)] by auto
  then have out: "q \<noteq> ?G" if "in_tree ?S q \<or> in_tree ?X q" for q
    using that in_tree_abs [OF ss(1,3)] in_tree_abs [OF ss(2,3)] by auto
  have "area_tab rs v 4 f q = None" if "in_tree ?S q" "q \<noteq> ?S" for q
  proof -
    have "q \<noteq> ?X" using a(7) that(1) in_tree_self by metis
    then show ?thesis using that out [of q] a(5) [of q] by (simp add: area_tab_def Let_def with_dir_other pruned_in_tree)
  qed
  then have t: "tree_ok (stage_dir rs v) fs (area_tab rs v 4 f)" by (simp add: tree_ok_def)
  have "area_tab rs v 4 f q = f q" if "in_tree ?X q" "q \<noteq> ?X" for q
  proof -
    have "q \<noteq> ?S" using a(8) that(1) in_tree_self by metis
    then show ?thesis using that out [of q] a(6,8) [of q] by (simp add: area_tab_def Let_def with_dir_other pruned_in_tree)
  qed
  then have "scratch_clean rs (area_tab rs v 4 f)" using r by (simp add: scratch_clean_def stage_ready_def)
  then show ?thesis
    using t x d(2) d(3) [of 4] area_tab_other [OF s v] area_tab_pending [OF s v, of f 4] by (simp add: stage_tab_def)
qed

text \<open>The table outside the staging area is as it was, and no launcher is pending that was not.\<close>

definition loose :: "mem \<Rightarrow> (string \<Rightarrow> memNode option) \<Rightarrow> string list \<Rightarrow> string \<Rightarrow> mem \<Rightarrow> bool" where
  "loose m0 f rs v m \<longleftrightarrow> (\<exists>g. tab m0 g m \<and> wf_tab g \<and> (\<forall>q. \<not> in_tree (abs_path (staging_dir rs)) q \<longrightarrow> g q = f q) \<and>
     (\<forall>n. g (abs_path (staging_dir rs)) = Some n \<longrightarrow> isDir n \<and> \<not> isSymlink n) \<and>
     (f (abs_path (pending_dir rs v)) = None \<longrightarrow> g (abs_path (pending_dir rs v)) = None))"

lemma area_steps:
  assumes r: "stage_ready rs f" and s: "simples rs" and v: "ValidVersion v"
  shows "triple (tab m0 f) (RemoveAll (abs_path (stage_dir rs v))) (\<lambda>_. tab m0 (area_tab rs v 1 f)) (\<lambda>_. loose m0 f rs v)" (is ?one)
    and "triple (tab m0 (area_tab rs v 1 f)) (MkdirAll (abs_path (stage_dir rs v)) DirMode)
      (\<lambda>_. tab m0 (area_tab rs v 2 f)) (\<lambda>_. loose m0 f rs v)" (is ?two)
    and "triple (tab m0 (area_tab rs v 2 f)) (RemoveLauncherPending (abs_path rs) v) (\<lambda>_. tab m0 (area_tab rs v 3 f)) (\<lambda>_. loose m0 f rs v)" (is ?three)
    and "triple (tab m0 (area_tab rs v 3 f)) (MkdirAll (abs_path (scratch_dir rs)) DirMode)
      (\<lambda>_. tab m0 (area_tab rs v 4 f)) (\<lambda>_. loose m0 f rs v)" (is ?four)
proof -
  let ?G = "abs_path (staging_dir rs)" and ?S = "abs_path (stage_dir rs v)"
  note d = area_tab_dirs [OF r s v]
  have l: "loose m0 f rs v m" if "tab m0 (area_tab rs v i f) m" for i m
    using that area_tab_other [OF s v] area_tab_pending [OF s v, of f i] d(2,4) [of i]
    unfolding loose_def by (intro exI [of _ "area_tab rs v i f"]) simp
  have f0: "area_tab rs v 0 f = f" and f1: "area_tab rs v 1 f = pruned ?S f" by (simp_all add: area_tab_def Let_def)
  have sv: "simple v" "simple StagingName" "simple (v @ launcherPendingSuffix)" using simple_version [OF v] simple_pending by simp_all
  have wf: "wf_tab f" and dm: "dirs_tab f (rs @ [MetaName])" using r by (simp_all add: stage_ready_def)
  show ?one
  proof (cases "f ?G")
    case None
    then have "triple (tab m0 f) (RemoveAll ?S) (\<lambda>_. tab m0 (pruned ?S f)) (\<lambda>_. tab m0 f)"
      using sv by (intro RemoveAll_absent [OF dm _ _ wf]) simp_all
    then show ?thesis unfolding f1 by (rule triple_weaken) (use l [of 0] f0 in auto)
  next
    case (Some n)
    then have "dirs_tab f (staging_dir rs)" using dirs_tab_snoc [OF dm sv(2), of n] r by (simp add: stage_ready_def)
    then have "triple (tab m0 f) (RemoveAll ?S) (\<lambda>_. tab m0 (pruned ?S f)) (\<lambda>_ m. tab m0 f m \<and> hooked m0)"
      by (rule RemoveAll_plain [OF _ sv(1) _ wf]) simp
    then show ?thesis unfolding f1 by (rule triple_weaken) (use l [of 0] f0 in auto)
  qed
  have "triple (tab m0 (area_tab rs v 1 f)) (MkdirAll ?S DirMode)
      (\<lambda>_. tab m0 (with_dir DirMode ?S (with_dir DirMode ?G (area_tab rs v 1 f)))) (\<lambda>_. tab m0 (area_tab rs v 1 f))"
    using sv d(4,6) [of 1] by (intro MkdirAll_two [OF d(1)]) auto
  moreover have "with_dir DirMode ?S (with_dir DirMode ?G (area_tab rs v 1 f)) = area_tab rs v 2 f" by (simp add: area_tab_def Let_def)
  ultimately show ?two using l by (auto elim: triple_weaken)
  have ds: "dirs_tab (area_tab rs v i f) (staging_dir rs)" if "2 \<le> i" for i
    using dirs_tab_append [of _ "staging_dir rs" "[v]"] d(3) [OF that] by simp
  have "triple (tab m0 (area_tab rs v 2 f)) (RemoveAll (abs_path (pending_dir rs v)))
      (\<lambda>_. tab m0 (pruned (abs_path (pending_dir rs v)) (area_tab rs v 2 f))) (\<lambda>_ m. tab m0 (area_tab rs v 2 f) m \<and> hooked m0)"
    by (rule RemoveAll_plain [OF ds sv(3) _ d(2)]) simp_all
  moreover have "pruned (abs_path (pending_dir rs v)) (area_tab rs v 2 f) = area_tab rs v 3 f" by (simp add: area_tab_def Let_def)
  ultimately show ?three
    using l by (auto simp: RemoveLauncherPending_def pending_path2 [OF s v] intro!: triple_wrap elim: triple_weaken)
  have "triple (tab m0 (area_tab rs v 3 f)) (MkdirAll (abs_path (scratch_dir rs)) DirMode)
      (\<lambda>_. tab m0 (with_dir DirMode (abs_path (scratch_dir rs)) (area_tab rs v 3 f))) (\<lambda>_ m. tab m0 (area_tab rs v 3 f) m \<and> hooked m0)"
    using d(5) [of 3] by (intro MkdirAll_plain [OF ds scratchName_simple]) auto
  moreover have "with_dir DirMode (abs_path (scratch_dir rs)) (area_tab rs v 3 f) = area_tab rs v 4 f" by (simp add: area_tab_def Let_def)
  ultimately show ?four using l by (auto elim: triple_weaken)
qed

section \<open>The rename that makes a version\<close>

text \<open>Outside the staging area only the directory of the version has changed, and that only to hold the complete release.\<close>

definition settled ::
    "(string \<Rightarrow> string \<Rightarrow> bool) \<Rightarrow> mem \<Rightarrow> (string \<Rightarrow> memNode option) \<Rightarrow> string list \<Rightarrow> string \<Rightarrow> FileRef list \<Rightarrow> bool \<Rightarrow> mem \<Rightarrow> bool" where
  "settled authentic m0 f0 rs v fs b m \<longleftrightarrow> (\<exists>g. tab m0 g m \<and> wf_tab g \<and> dirs_tab g (staging_dir rs) \<and>
     (\<forall>q. \<not> in_tree (abs_path (staging_dir rs)) q \<and> \<not> in_tree (abs_path (version_dir rs v)) q \<longrightarrow> g q = f0 q) \<and>
     (f0 (abs_path (pending_dir rs v)) = None \<longrightarrow> g (abs_path (pending_dir rs v)) = None) \<and>
     (if b then dirs_tab g (version_dir rs v) \<and> complete_tree authentic (version_dir rs v) fs g
      else \<forall>q. in_tree (abs_path (version_dir rs v)) q \<longrightarrow> g q = f0 q))"

lemma settled_at:
  assumes "at_stage authentic m0 f0 rs v fs dn es m" "simples rs" "ValidVersion v"
  shows "settled authentic m0 f0 rs v fs False m"
proof -
  obtain f where "tab m0 f m" "stage_tab f0 rs v fs f" using assms(1) by (auto simp: at_stage_def)
  then show ?thesis
    unfolding settled_def using dirs_tab_append [of f "staging_dir rs" "[v]"] staging_apart(4) [OF assms(2,3)]
    by (intro exI [of _ f]) (auto simp: stage_tab_def)
qed

lemma renamed_complete:
  assumes st: "stage_tab f0 rs v fs f" and h: "\<forall>x\<in>set fs. has_file authentic f (stage_dir rs v) x" and s: "simples rs" and v: "ValidVersion v"
    and pl: "placed fs"
  shows "complete_tree authentic (version_dir rs v) fs (renamed (abs_path (stage_dir rs v)) (abs_path (version_dir rs v)) n f)"
proof -
  let ?S = "abs_path (stage_dir rs v)" and ?V = "abs_path (version_dir rs v)"
  let ?g = "renamed ?S ?V n f"
  note a = staging_apart [OF s v]
  have below: "?g (?V @ slash # r) = f (?S @ slash # r)" for r
  proof -
    have p: "prefix (?V @ ''/'') (?V @ slash # r)" by (simp add: prefix_def)
    then have "in_tree ?V (?V @ slash # r)" by (simp add: in_tree_def)
    then have "\<not> in_tree ?S (?V @ slash # r)" using a(1,4) in_tree_trans by blast
    then show ?thesis using p by (simp add: renamed_def in_tree_def)
  qed
  have key: "abs_path (stage_dir rs v @ us) = ?S @ slash # join_with ''/'' us"
    "abs_path (version_dir rs v @ us) = ?V @ slash # join_with ''/'' us" if "us \<noteq> []" for us
    using that abs_path_snoc2 [of "stage_dir rs v" "hd us" "tl us"] abs_path_snoc2 [of "version_dir rs v" "hd us" "tl us"] by simp_all
  have "has_file authentic ?g (version_dir rs v) x" if x: "x \<in> set fs" for x
  proof -
    have "?g (abs_path (version_dir rs v @ dst_elems x)) = f (abs_path (stage_dir rs v @ dst_elems x))"
      by (simp only: key [OF placed_elems(2) [OF pl x]] below)
    then show ?thesis using h x unfolding has_file_def by simp
  qed
  moreover have "tree_ok (version_dir rs v) fs ?g"
    unfolding tree_ok_def
  proof (intro allI impI)
    fix q nd
    assume q: "in_tree ?V q" "q \<noteq> ?V" "?g q = Some nd"
    then obtain r where r: "q = ?V @ slash # r" by (auto simp: in_tree_def prefix_def)
    let ?q = "?S @ slash # r"
    have "f ?q = Some nd" using q(3) below r by simp
    moreover have "in_tree ?S ?q" "?q \<noteq> ?S" by (simp_all add: in_tree_def prefix_def)
    ultimately have t: "\<not> isSymlink nd \<and> (isDir nd \<and> ?q \<in> dir_paths (stage_dir rs v) fs \<or>
        \<not> isDir nd \<and> (?q \<in> file_paths (stage_dir rs v) fs \<or> scratch_key (stage_dir rs v) ?q))"
      using st by (simp add: stage_tab_def tree_ok_def)
    have move: "q = abs_path (version_dir rs v @ us)" if "?q = abs_path (stage_dir rs v @ us)" "us \<noteq> []" for us
    proof -
      have "r = join_with ''/'' us" using that(1) unfolding key(1) [OF that(2)] by simp
      then show ?thesis unfolding r key(2) [OF that(2)] by simp
    qed
    have "q \<in> dir_paths (version_dir rs v) fs" if d: "?q \<in> dir_paths (stage_dir rs v) fs"
    proof -
      obtain x i where x: "x \<in> set fs" "0 < i" "i < length (dst_elems x)" "?q = abs_path (stage_dir rs v @ take i (dst_elems x))"
        using d unfolding dir_paths_def by blast
      then have "take i (dst_elems x) \<noteq> []" by auto
      then show ?thesis using move [OF x(4)] x(1-3) unfolding dir_paths_def by blast
    qed
    moreover have "q \<in> file_paths (version_dir rs v) fs" if "?q \<in> file_paths (stage_dir rs v) fs"
      using that move placed_elems(2) [OF pl] unfolding file_paths_def by blast
    moreover have "scratch_key (version_dir rs v) q" if k: "scratch_key (stage_dir rs v) ?q"
    proof -
      obtain us x where u: "?q = abs_path (stage_dir rs v @ us @ [x])" "simples (us @ [x])" "scratch_name x"
        using k unfolding scratch_key_def by blast
      then show ?thesis using move [OF u(1)] unfolding scratch_key_def by blast
    qed
    ultimately show "\<not> isSymlink nd \<and> (isDir nd \<and> q \<in> dir_paths (version_dir rs v) fs \<or>
        \<not> isDir nd \<and> (q \<in> file_paths (version_dir rs v) fs \<or> scratch_key (version_dir rs v) q))" using t by blast
  qed
  ultimately show ?thesis by (simp add: complete_tree_def)
qed

lemma triple_frame:
  assumes "triple P p (\<lambda>_. P) (\<lambda>_. P)"
  shows "triple (\<lambda>m. P m \<and> b) p (\<lambda>_ m. P m \<and> b) (\<lambda>_ m. P m \<and> b)"
  by (rule tripleI) (use triple_Inr [OF assms] triple_Inl [OF assms] in blast)+

lemma triple_disj:
  assumes "triple P p (\<lambda>_. P) (\<lambda>_. P)" "triple R p (\<lambda>_. R) (\<lambda>_. R)"
  shows "triple (\<lambda>m. P m \<or> R m) p (\<lambda>_ m. P m \<or> R m) (\<lambda>_ m. P m \<or> R m)"
  by (rule tripleI) (use triple_Inr [OF assms(1)] triple_Inl [OF assms(1)] triple_Inr [OF assms(2)] triple_Inl [OF assms(2)] in blast)+

text \<open>A deferred call that leaves alone what the body has established.\<close>

lemma deferred_triple:
  assumes "triple P body Q E" "\<And>x. triple (Q x) p (\<lambda>_. Q x) (\<lambda>_. Q x)" "\<And>e. triple (E e) p (\<lambda>_. E e) (\<lambda>_. E e)"
  shows "triple P (deferred p body) Q E"
  unfolding deferred_def using assms(2,3)
  by (intro triple_attempt [OF assms(1)] triple_bind triple_ignore triple_throw triple_ret) auto

lemma Rename_error: "Rename a b m = (Inl e, m') \<Longrightarrow> tab m0 f m \<Longrightarrow> tab m0 f m'"
  by (auto simp: Rename_def prog_simps fail_def Let_def split: option.splits sum.splits if_splits)

lemma promote_at:
  assumes s: "simples rs" and v: "ValidVersion v" and pl: "placed fs" and wf0: "\<And>q. in_tree (abs_path (version_dir rs v)) q \<Longrightarrow> f0 (abs_path (version_dir rs v)) = None \<Longrightarrow> f0 q = None"
    and dv0: "dirs_tab f0 (rs @ [VersionsName])"
  shows "triple (at_stage authentic m0 f0 rs v fs (set fs) []) (promote (abs_path rs) (abs_path (stage_dir rs v)) (abs_path (version_dir rs v)))
    (\<lambda>dir m. dir = abs_path (version_dir rs v) \<and> f0 (abs_path (version_dir rs v)) = None \<and> settled authentic m0 f0 rs v fs True m)
    (\<lambda>_ m. settled authentic m0 f0 rs v fs False m \<or> settled authentic m0 f0 rs v fs True m)"
  unfolding at_stage_def
proof (rule triple_tabs)
  fix f
  assume C: "stage_tab f0 rs v fs f \<and> dirs_tab f (stage_dir rs v @ []) \<and> (\<forall>x\<in>set fs. has_file authentic f (stage_dir rs v) x)"
  let ?S = "abs_path (stage_dir rs v)" and ?V = "abs_path (version_dir rs v)" and ?G = "abs_path (staging_dir rs)"
  let ?kept = "settled authentic m0 f0 rs v fs False" and ?made = "settled authentic m0 f0 rs v fs True"
  note a = staging_apart [OF s v] and ss = staging_simples [OF s v]
  have st: "stage_tab f0 rs v fs f" and h: "\<forall>x\<in>set fs. has_file authentic f (stage_dir rs v) x" using C by simp_all
  have sv: "simple v" "simple VersionsName" using simple_version [OF v] by simp_all
  have wf: "wf_tab f" and dst: "dirs_tab f (stage_dir rs v)" and out: "\<And>q. \<not> in_tree ?G q \<Longrightarrow> f q = f0 q"
    using st by (simp_all add: stage_tab_def)
  have dg: "dirs_tab f (staging_dir rs)" using dirs_tab_append [of f "staging_dir rs" "[v]"] dst by simp
  have kept: "?kept m" if "tab m0 f m" for m using settled_at [OF _ s v, of authentic m0 f0 fs "{}" "[]" m] that C unfolding at_stage_def by auto
  have vk: "\<not> in_tree ?G (abs_path (take j (rs @ [VersionsName])))" for j
  proof (subst in_tree_abs [OF ss(3) simples_take])
    show "simples (rs @ [VersionsName])" using s sv by simp
    show "\<not> prefix (staging_dir rs) (take j (rs @ [VersionsName]))"
      using prefix_length_le [of "staging_dir rs" "take j (rs @ [VersionsName])"] by auto
  qed simp_all
  have dv: "dirs_tab f (rs @ [VersionsName])" by (rule dirs_tab_cong [OF dv0]) (rule out [OF vk])
  have fV: "f ?V = f0 ?V" using out a(4) by simp
  obtain n where n: "f ?S = Some n" using dst by (auto simp: dirs_tab_def dest: spec [of _ "length (stage_dir rs v)"])
  let ?g = "renamed ?S ?V n f"
  have np: "\<not> prefix (stage_dir rs v) (staging_dir rs)" "\<not> prefix (version_dir rs v) (staging_dir rs)"
    "\<not> prefix (stage_dir rs v) (rs @ [VersionsName])" "\<not> prefix (version_dir rs v) (rs @ [VersionsName])"
    by (simp_all add: VersionsName_def MetaName_def)
  have sV: "simples (rs @ [VersionsName])" using s sv by simp
  have nS: "\<not> in_tree ?S q" and nV: "\<not> in_tree ?V q"
    if "\<exists>j. q = abs_path (take j (staging_dir rs)) \<or> q = abs_path (take j (rs @ [VersionsName]))" for q
    using that np prefix_order.trans [OF _ take_is_prefix] in_tree_abs [OF ss(1) simples_take [OF ss(3)]] in_tree_abs [OF ss(4) simples_take [OF ss(3)]]
      in_tree_abs [OF ss(1) simples_take [OF sV]] in_tree_abs [OF ss(4) simples_take [OF sV]] by blast+
  have g_other: "?g q = f q" if "\<not> in_tree ?S q" "\<not> in_tree ?V q" for q
    using that by (auto simp: renamed_def in_tree_def)
  have dgg: "dirs_tab ?g (staging_dir rs)" by (rule dirs_tab_cong [OF dg], rule g_other; rule nS nV; blast)
  have dvg: "dirs_tab ?g (rs @ [VersionsName])" by (rule dirs_tab_cong [OF dv], rule g_other; rule nS nV; blast)
  have outg: "?g q = f0 q" if "\<not> in_tree ?G q \<and> \<not> in_tree ?V q" for q
    using that g_other [of q] out [of q] a(1) in_tree_trans by metis
  have dV: "dirs_tab ?g (version_dir rs v)"
    using dirs_tab_snoc [OF dvg sv(1)] n dirs_tab_end [OF dst n] by (simp add: renamed_def)
  have pend: "?g (abs_path (pending_dir rs v)) = f (abs_path (pending_dir rs v))"
    using a(3) a(4) [of "abs_path (pending_dir rs v)"] a(5) [of "abs_path (pending_dir rs v)"] by (intro g_other) auto
  have pend0: "f0 (abs_path (pending_dir rs v)) = None \<longrightarrow> ?g (abs_path (pending_dir rs v)) = None"
    using st by (simp add: stage_tab_def pend)
  have made: "?made m" if "tab m0 ?g m" "wf_tab ?g" for m
    unfolding settled_def using that dgg outg dV pend0 renamed_complete [OF st h s v pl, of n] by (intro exI [of _ ?g]) simp
  have gone: "?kept m" if "tab m0 (pruned ?V ?g) m" "wf_tab ?g" "f0 ?V = None" for m
  proof -
    have "pruned ?V ?g q = f0 q" if q: "in_tree ?V q" for q
    proof -
      have "f0 q = None" by (rule wf0 [OF q \<open>f0 ?V = None\<close>])
      then show ?thesis using q by (simp add: pruned_in_tree)
    qed
    moreover have "dirs_tab (pruned ?V ?g) (staging_dir rs)"
      by (rule dirs_tab_cong [OF dgg]) (use nV in \<open>auto simp: pruned_in_tree\<close>)
    ultimately show ?thesis
      unfolding settled_def using that(1) wf_tab_pruned [OF that(2)] outg pend0
      by (intro exI [of _ "pruned ?V ?g"]) (simp add: pruned_in_tree)
  qed
  show "triple (tab m0 f) (promote (abs_path rs) ?S ?V) (\<lambda>dir m. dir = ?V \<and> f0 ?V = None \<and> ?made m) (\<lambda>_ m. ?kept m \<or> ?made m)"
  proof -
    let ?L = "attempt (Lstat ?V) (\<lambda>e. if IsNotExist e then ret () else throw (ErrStage # e)) (\<lambda>_. throw [ErrStage]) :: (mem, unit) prog"
    let ?E = "\<lambda>_ m. ?kept m \<or> ?made m"
    have l: "triple (tab m0 f) ?L (\<lambda>_ m. tab m0 f m \<and> f0 ?V = None) ?E"
    proof (rule triple_attempt [OF Lstat_plain [OF dv sv(1), of ?V]])
      show "?V = abs_path ((rs @ [VersionsName]) @ [v])" by simp
      show "triple (\<lambda>m. tab m0 f m \<and> f ?V = None \<and> e = [ErrNotExist]) (if IsNotExist e then ret () else throw (ErrStage # e))
          (\<lambda>_ m. tab m0 f m \<and> f0 ?V = None) ?E" for e
        using kept fV by (auto simp: triple_def ret_def throw_def)
      show "triple (\<lambda>m. tab m0 f m \<and> f ?V = Some (inode i)) (throw [ErrStage]) (\<lambda>_ m. tab m0 f m \<and> f0 ?V = None) ?E" for i
        using kept by (auto simp: triple_def throw_def)
    qed
    have mk: "triple (\<lambda>m. tab m0 f m \<and> f0 ?V = None) (wrap ErrStage (MkdirAll (Versions (abs_path rs)) 0x1ED)) (\<lambda>_ m. tab m0 f m \<and> f0 ?V = None) ?E"
      using kept MkdirAll_exist [OF dv, of "Versions (abs_path rs)" m0 "0x1ED"] layout_paths(2) [OF s]
      by (auto simp: triple_def prog_simps split: prod.splits sum.splits)
    have rn: "triple (\<lambda>m. tab m0 f m \<and> f0 ?V = None) (wrap ErrStage (Rename ?S ?V)) (\<lambda>_ m. tab m0 ?g m \<and> wf_tab ?g \<and> f0 ?V = None) ?E"
    proof (rule triple_wrap, rule tripleI)
      fix m x m'
      assume t: "tab m0 f m \<and> f0 ?V = None" and "Rename ?S ?V m = (Inr x, m')"
      then have r: "Rename ?S ?V m = (Inr (), m')" by simp
      have d: "dirs_ok m (staging_dir rs)" "dirs_ok m (rs @ [VersionsName])" using dg dv t by (simp_all add: dirs_ok_tab tab_def)
      have nd: "node m ?S False = Inr (?S, n)" using node_in_dir [OF d(1) sv(1), of False] n t by (simp add: tab_def)
      have rs: "resolve m ?V False = Inr ?V" using resolve_in_dir [OF d(2) sv(1), of False] by simp
      have "?S \<noteq> ''/''" "?S \<noteq> ?V" using abs_path_inj [OF ss(1), of "[]"] abs_path_inj [OF ss(1,4)] by (auto simp: abs_path_def [of "[]"] VersionsName_def MetaName_def)
      then show "tab m0 ?g m' \<and> wf_tab ?g \<and> f0 ?V = None"
        using Rename_ok_table [OF _ nd rs _ r] same_env_Rename [of m ?S ?V] r t wf same_env_trans
        by (auto simp: tab_def wf_mem_tab)
    next
      fix m e m'
      assume "tab m0 f m \<and> f0 ?V = None" "Rename ?S ?V m = (Inl e, m')"
      then show "?kept m' \<or> ?made m'" using kept Rename_error by blast
    qed
    have sy: "triple (\<lambda>m. tab m0 ?g m \<and> wf_tab ?g \<and> f0 ?V = None)
        (attempt (SyncDir (Versions (abs_path rs))) (\<lambda>e. bind (ignore (RemoveAll ?V)) (\<lambda>_. throw (ErrStage # e))) (\<lambda>_. ret ?V))
        (\<lambda>dir m. dir = ?V \<and> f0 ?V = None \<and> ?made m) ?E"
    proof (rule triple_attempt)
      show "triple (\<lambda>m. tab m0 ?g m \<and> wf_tab ?g \<and> f0 ?V = None) (SyncDir (Versions (abs_path rs)))
          (\<lambda>_ m. tab m0 ?g m \<and> wf_tab ?g \<and> f0 ?V = None) (\<lambda>_ m. tab m0 ?g m \<and> wf_tab ?g \<and> f0 ?V = None)"
        using layout_paths(2) [OF s] by (intro triple_frame triple_weaken [OF SyncDir_plain [OF dvg]]) auto
      show "triple (\<lambda>m. tab m0 ?g m \<and> wf_tab ?g \<and> f0 ?V = None) (bind (ignore (RemoveAll ?V)) (\<lambda>_. throw (ErrStage # e)))
          (\<lambda>dir m. dir = ?V \<and> f0 ?V = None \<and> ?made m) ?E" for e
      proof (rule triple_bind)
        have "triple (\<lambda>m. tab m0 ?g m \<and> wf_tab ?g \<and> f0 ?V = None) (RemoveAll ?V) (\<lambda>_ m. ?kept m \<or> ?made m) (\<lambda>_ m. ?kept m \<or> ?made m)"
        proof (rule tripleI)
          fix m x m'
          assume "tab m0 ?g m \<and> wf_tab ?g \<and> f0 ?V = None" "RemoveAll ?V m = (Inr x, m')"
          then show "?kept m' \<or> ?made m'" using triple_Inr [OF RemoveAll_plain [OF dvg sv(1), of ?V m0]] gone by auto
        next
          fix m e m'
          assume "tab m0 ?g m \<and> wf_tab ?g \<and> f0 ?V = None" "RemoveAll ?V m = (Inl e, m')"
          then show "?kept m' \<or> ?made m'" using triple_Inl [OF RemoveAll_plain [OF dvg sv(1), of ?V m0]] made by auto
        qed
        then show "triple (\<lambda>m. tab m0 ?g m \<and> wf_tab ?g \<and> f0 ?V = None) (ignore (RemoveAll ?V)) (\<lambda>_ m. ?kept m \<or> ?made m) ?E"
          by (rule triple_ignore)
        show "triple (\<lambda>m. ?kept m \<or> ?made m) (throw (ErrStage # e)) (\<lambda>dir m. dir = ?V \<and> f0 ?V = None \<and> ?made m) ?E"
          by (rule triple_throw)
      qed
      show "triple (\<lambda>m. tab m0 ?g m \<and> wf_tab ?g \<and> f0 ?V = None) (ret ?V) (\<lambda>dir m. dir = ?V \<and> f0 ?V = None \<and> ?made m) ?E"
        using made by (intro triple_ret) simp
    qed
    show ?thesis
      unfolding promote_def by (rule triple_bind [OF l triple_bind [OF mk triple_bind [OF rn sy]]])
  qed
qed

section \<open>The whole\<close>

text \<open>What a run of \<open>Stage\<close> may leave: \<open>f\<close> is the table before, \<open>g\<close> the one after.\<close>

definition stage_outcome ::
    "(string \<Rightarrow> string \<Rightarrow> bool) \<Rightarrow> string list \<Rightarrow> Descriptor \<Rightarrow> (string \<Rightarrow> memNode option) \<Rightarrow> string result \<Rightarrow> (string \<Rightarrow> memNode option) \<Rightarrow> bool" where
  "stage_outcome authentic rs d f r g \<longleftrightarrow>
     (let V = abs_path (version_dir rs (ds_version d));
          made = (dirs_tab g (version_dir rs (ds_version d)) \<and> complete_tree authentic (version_dir rs (ds_version d)) (elems (ds_files d)) g)
      in (\<forall>q. \<not> in_tree (abs_path (staging_dir rs)) q \<and> \<not> in_tree V q \<longrightarrow> g q = f q) \<and>
         (case r of Inr dir \<Rightarrow> dir = V \<and> f V = None \<and> made
          | Inl _ \<Rightarrow> made \<or> (\<forall>q. in_tree V q \<longrightarrow> g q = f q)))"

lemma complete_tree_cong:
  assumes "\<And>q. in_tree (abs_path ds) q \<Longrightarrow> g q = f q" "ds \<noteq> []"
  shows "complete_tree authentic ds fs g = complete_tree authentic ds fs f"
proof -
  have "g (abs_path (ds @ us)) = f (abs_path (ds @ us))" for us by (rule assms(1) [OF in_tree_append [OF assms(2)]])
  then have "has_file authentic g ds x = has_file authentic f ds x" for x by (simp only: has_file_def)
  moreover have "tree_ok ds fs g = tree_ok ds fs f"
    unfolding tree_ok_def by (intro iff_allI imp_cong refl) (simp only: assms(1))
  ultimately show ?thesis by (simp only: complete_tree_def)
qed

lemma settled_clean:
  assumes s: "simples rs" and v: "ValidVersion v"
  shows "triple (settled authentic m0 f0 rs v fs b) (RemoveAll (abs_path (scratch_dir rs))) (\<lambda>_. settled authentic m0 f0 rs v fs b)
    (\<lambda>_. settled authentic m0 f0 rs v fs b)"
proof -
  let ?X = "abs_path (scratch_dir rs)" and ?G = "abs_path (staging_dir rs)" and ?V = "abs_path (version_dir rs v)"
  let ?C = "\<lambda>g. wf_tab g \<and> dirs_tab g (staging_dir rs) \<and> (\<forall>q. \<not> in_tree ?G q \<and> \<not> in_tree ?V q \<longrightarrow> g q = f0 q) \<and>
      (f0 (abs_path (pending_dir rs v)) = None \<longrightarrow> g (abs_path (pending_dir rs v)) = None) \<and>
      (if b then dirs_tab g (version_dir rs v) \<and> complete_tree authentic (version_dir rs v) fs g else \<forall>q. in_tree ?V q \<longrightarrow> g q = f0 q)"
  note ss = staging_simples [OF s v] and a = staging_apart [OF s v]
  show ?thesis
    unfolding settled_def
  proof (rule triple_tabs)
    fix g
    assume C: "?C g"
    let ?h = "pruned ?X g"
    have out: "?h q = g q" if "\<not> in_tree ?X q" for q using that by (simp add: pruned_in_tree)
    have nX: "\<not> in_tree ?X q" if "\<not> in_tree ?G q \<or> in_tree ?V q" for q using that a(2,4) in_tree_trans by blast
    have np: "\<not> prefix (scratch_dir rs) (take i (staging_dir rs))" "\<not> prefix (scratch_dir rs) (take i (version_dir rs v))" for i
    proof -
      show "\<not> prefix (scratch_dir rs) (take i (staging_dir rs))"
        using prefix_length_le [of "scratch_dir rs" "take i (staging_dir rs)"] by auto
      show "\<not> prefix (scratch_dir rs) (take i (version_dir rs v))"
        using prefix_length_le [of "scratch_dir rs" "take i (version_dir rs v)"] by auto
    qed
    have d: "dirs_tab ?h ds" if "dirs_tab g ds" "ds = staging_dir rs \<or> ds = version_dir rs v" for ds
      using that np in_tree_abs [OF ss(2) simples_take [OF ss(3)]] in_tree_abs [OF ss(2) simples_take [OF ss(4)]]
      by (intro dirs_tab_cong [OF that(1)] out) auto
    have c: "complete_tree authentic (version_dir rs v) fs ?h = complete_tree authentic (version_dir rs v) fs g"
      by (rule complete_tree_cong) (use out nX in auto)
    have "(\<forall>q. in_tree ?V q \<longrightarrow> ?h q = f0 q) = (\<forall>q. in_tree ?V q \<longrightarrow> g q = f0 q)" using nX out by metis
    moreover have "\<forall>q. \<not> in_tree ?G q \<and> \<not> in_tree ?V q \<longrightarrow> ?h q = f0 q" using C nX out by metis
    moreover have "wf_tab ?h" using C wf_tab_pruned by blast
    moreover have "f0 (abs_path (pending_dir rs v)) = None \<longrightarrow> ?h (abs_path (pending_dir rs v)) = None" using C by (simp add: pruned_in_tree)
    ultimately have C': "?C ?h" using C d c by auto
    have dg: "dirs_tab g (staging_dir rs)" and wf: "wf_tab g" using C by simp_all
    have "triple (tab m0 g) (RemoveAll ?X) (\<lambda>_. tab m0 ?h) (\<lambda>_ m. tab m0 g m \<and> hooked m0)"
      by (rule RemoveAll_plain [OF dg scratchName_simple _ wf]) simp
    moreover have "\<exists>g'. tab m0 g' m \<and> ?C g'" if "tab m0 x m" "?C x" for x m by (rule exI [of _ x]) (rule conjI [OF that])
    note this [OF _ C] this [OF _ C']
    ultimately show "triple (tab m0 g) (RemoveAll ?X) (\<lambda>_ m. \<exists>g. tab m0 g m \<and> ?C g) (\<lambda>_ m. \<exists>g. tab m0 g m \<and> ?C g)"
      by (elim triple_weaken conjE) assumption+
  qed
qed

text \<open>The table staging is compared with: with a launcher configured, one may be pending afterwards.\<close>

definition allowing :: "bool \<Rightarrow> string list \<Rightarrow> string \<Rightarrow> (string \<Rightarrow> memNode option) \<Rightarrow> string \<Rightarrow> memNode option" where
  "allowing b rs v f = (if b then f(abs_path (pending_dir rs v) \<mapsto> dir_node DirMode) else f)"

lemma allowing_other:
  assumes "\<not> in_tree (abs_path (staging_dir rs)) q"
  shows "allowing b rs v f q = f q"
proof -
  have "q \<noteq> abs_path (pending_dir rs v)" using in_tree_append [of "staging_dir rs" "[v @ launcherPendingSuffix]"] assms by auto
  then show ?thesis by (simp add: allowing_def)
qed

lemma allowing_stage:
  assumes "stage_tab f0 rs v fs f"
  shows "stage_tab (allowing b rs v f0) rs v fs f"
proof (cases b)
  case True
  then show ?thesis using assms allowing_other by (auto simp: stage_tab_def) (simp add: allowing_def)
qed (use assms in \<open>simp add: allowing_def\<close>)

lemma PointerTarget_tab: "triple (tab m0 f) (PointerTarget pf root) (\<lambda>_. tab m0 f) (\<lambda>_. tab m0 f)"
proof -
  have throws: "triple (tab m0 f) (throw e) (\<lambda>_. tab m0 f) (\<lambda>_. tab m0 f)" and rets: "triple (tab m0 f) (ret x) (\<lambda>_. tab m0 f) (\<lambda>_. tab m0 f)"
    for e and x :: string by (rule triple_throw triple_ret; assumption)+
  have link: "triple (tab m0 f) (Readlink p) (\<lambda>_. tab m0 f) (\<lambda>_. tab m0 f)" for p
    by (auto simp: triple_def Readlink_def prog_simps split: sum.splits)
  have rf: "triple (tab m0 f) (ReadFile p n) (\<lambda>_. tab m0 f) (\<lambda>_. tab m0 f)" for p n
    unfolding ReadFile_def by (intro triple_if throws triple_bind [OF Open_tab]) (auto simp: Let_def throws rets split: option.splits)
  have "triple (tab m0 f) (pointer_read pf root) (\<lambda>_. tab m0 f) (\<lambda>_. tab m0 f)"
  proof (cases pf)
    case symlinkPointer
    then show ?thesis
      by (simp only: pointer_read.simps read_symlink_def) (intro attempt_tab [OF Lstat_tab] triple_if throws rets triple_wrap link)
  next
    case filePointer
    then show ?thesis
      by (simp only: pointer_read.simps read_file_pointer_def Let_def)
        (intro attempt_tab [OF Lstat_tab] triple_if throws rets triple_bind [OF triple_wrap [OF rf]])
  qed
  then show ?thesis unfolding PointerTarget_def by (rule triple_bind) (intro triple_if rets triple_lift)
qed

lemma reuseSources_tab: "triple P (reuseSources root live staging) (\<lambda>_. P) E"
  unfolding reuseSources_def by (rule triple_attempt [OF InstalledVersions_tab]) (auto simp: triple_def ret_def Let_def)

context materializer
begin

lemma Stage_at:
  assumes r: "stage_ready rs f0" and pl: "placed (elems (ds_files d))"
  shows "triple (tab m0 f0) (Stage (Some T) inflate pf ctx (abs_path rs) launcher (Some d) routes)
    (\<lambda>dir m. dir = abs_path (version_dir rs (ds_version d)) \<and> f0 (abs_path (version_dir rs (ds_version d))) = None \<and>
       settled authentic m0 (allowing (Launcher_Enabled launcher) rs (ds_version d) f0) rs (ds_version d) (elems (ds_files d)) True m)
    (\<lambda>_ m. loose m0 f0 rs (ds_version d) m \<or> settled authentic m0 (allowing (Launcher_Enabled launcher) rs (ds_version d) f0) rs (ds_version d) (elems (ds_files d)) False m \<or>
       settled authentic m0 (allowing (Launcher_Enabled launcher) rs (ds_version d) f0) rs (ds_version d) (elems (ds_files d)) True m)"
    (is "triple _ _ ?Q ?E")
proof (cases "Launcher_Validate launcher")
  case (Inl e)
  have "loose m0 f0 rs (ds_version d) m" if "tab m0 f0 m" for m using that r unfolding loose_def stage_ready_def by blast
  then show ?thesis by (auto simp: Stage_def check_stager_def Inl triple_def throw_def)
next
  case ok: (Inr u)
  let ?v = "ds_version d" and ?fs = "elems (ds_files d)"
  have lo: "loose m0 f0 rs ?v m" if "tab m0 f0 m" for m using that r unfolding loose_def stage_ready_def by blast
  have s: "simples rs" using r by (simp add: stage_ready_def dirs_tab_def)
  have root: "check_stager (abs_path rs) = Inr ()" by (simp add: check_stager_def)
  show ?thesis
  proof (cases "ValidVersion ?v")
    case False
    then obtain e where "VersionDir (abs_path rs) ?v = Inl e" by (auto simp: VersionDir_def ValidateVersion_def split: sum.splits)
    then show ?thesis using lo by (simp add: Stage_def root ok triple_def throw_def)
  next
    case v: True
    let ?S = "abs_path (stage_dir rs ?v)" and ?X = "abs_path (scratch_dir rs)" and ?V = "abs_path (version_dir rs ?v)"
    let ?f = "allowing (Launcher_Enabled launcher) rs ?v f0"
    let ?set = "settled authentic m0 ?f rs ?v ?fs"
    note ss = staging_simples [OF s v]
    have vd: "VersionDir (abs_path rs) ?v = Inr ?V" using layout_paths(7) [OF s v] by simp
    have js: "Join [Staging (abs_path rs), ?v] = ?S" "Join [Staging (abs_path rs), scratchName] = ?X"
      using Join_abs [of "staging_dir rs" "[?v]"] Join_abs [of "staging_dir rs" "[scratchName]"] layout_paths(6) [OF s]
        simple_version [OF v] scratchName_simple ss by simp_all
    have dist: "distinct ?fs" using pl by (auto simp: placed_def distinct_map)
    note same = allowing_other [of rs _ "Launcher_Enabled launcher" ?v f0] and apart = staging_apart(4) [OF s v]
    have fV: "?f ?V = f0 ?V" by (rule same) (use apart in simp)
    have wf0: "?f q = None" if "in_tree ?V q" "?f ?V = None" for q
    proof -
      have "f0 q = None" using that fV r wf_tab_below [of f0 ?V q] by (auto simp: in_tree_def stage_ready_def)
      then show ?thesis using same [OF apart [OF that(1)]] by simp
    qed
    have vk: "\<not> in_tree (abs_path (staging_dir rs)) (abs_path (take j (rs @ [VersionsName])))" for j
    proof (subst in_tree_abs [OF ss(3) simples_take])
      show "simples (rs @ [VersionsName])" using ss(4) by simp
      show "\<not> prefix (staging_dir rs) (take j (rs @ [VersionsName]))"
        using prefix_length_le [of "staging_dir rs" "take j (rs @ [VersionsName])"] by auto
    qed simp
    have "dirs_tab f0 (rs @ [VersionsName])" using r by (simp add: stage_ready_def)
    then have dv0: "dirs_tab ?f (rs @ [VersionsName])" by (rule dirs_tab_cong) (rule same [OF vk])
    have lp: "Launcher_Enabled launcher \<longrightarrow> ?f (abs_path (pending_dir rs ?v)) \<noteq> None" by (simp add: allowing_def)
    have e: "at m0 ?f rs ?v ?fs dn [] m \<Longrightarrow> ?E x m" for dn x m using settled_at [OF _ s v] by blast
    have files: "triple (at m0 ?f rs ?v ?fs {} []) (stage_files T inflate ctx (abs_path rs) launcher ?S d sources routes ?X)
        (\<lambda>_. at m0 ?f rs ?v ?fs (set ?fs) []) (\<lambda>_. at m0 ?f rs ?v ?fs {} [])" for sources
      unfolding stage_files_def using stage_files_at [where ?f0.0 = ?f, OF pl v s lp dist, of "{}"] by simp
    have body: "triple (at m0 ?f rs ?v ?fs {} []) (bind (reuseSources (abs_path rs) live ?v) (\<lambda>sources.
        bind (stage_files T inflate ctx (abs_path rs) launcher ?S d sources routes ?X) (\<lambda>_. promote (abs_path rs) ?S ?V)))
      (\<lambda>dir m. dir = ?V \<and> f0 ?V = None \<and> ?set True m) (\<lambda>_ m. ?set False m \<or> ?set True m)" for live
      by (rule triple_bind [OF reuseSources_tab triple_bind [OF triple_weaken [OF files] promote_at [OF s v pl wf0 dv0, unfolded fV]]])
        (use settled_at [OF _ s v] in blast)+
    have def: "triple (at m0 ?f rs ?v ?fs {} []) (deferred (RemoveAll ?X) (bind (reuseSources (abs_path rs) live ?v) (\<lambda>sources.
        bind (stage_files T inflate ctx (abs_path rs) launcher ?S d sources routes ?X) (\<lambda>_. promote (abs_path rs) ?S ?V)))) ?Q ?E" for live
    proof (rule triple_weaken [OF deferred_triple [OF body]])
      note cl = settled_clean [OF s v, of authentic m0 ?f ?fs]
      show "triple (\<lambda>m. x = ?V \<and> f0 ?V = None \<and> ?set True m) (RemoveAll ?X) (\<lambda>_ m. x = ?V \<and> f0 ?V = None \<and> ?set True m)
          (\<lambda>_ m. x = ?V \<and> f0 ?V = None \<and> ?set True m)" for x
        by (rule triple_weaken [OF triple_frame [OF cl, where b = "x = ?V \<and> f0 ?V = None"]]) auto
      show "triple (\<lambda>m. ?set False m \<or> ?set True m) (RemoveAll ?X) (\<lambda>_ m. ?set False m \<or> ?set True m) (\<lambda>_ m. ?set False m \<or> ?set True m)"
        using cl [of False] cl [of True] by (rule triple_disj)
    qed auto
    have tab4: "at m0 ?f rs ?v ?fs {} [] m" if "tab m0 (area_tab rs ?v 4 f0) m" for m
      unfolding at_stage_def using that allowing_stage [OF opened_tab [OF r s v]] area_tab_dirs(3) [OF r s v, of 4] by (intro exI [of _ "area_tab rs ?v 4 f0"]) simp
    have w: "triple P (wrap s p) Q ?E" if "triple P p Q (\<lambda>_. loose m0 f0 rs ?v)" for P s Q and p :: "(mem, unit) prog"
      by (rule triple_wrap, rule triple_weaken [OF that]) auto
    note steps = area_steps [OF r s v, of m0]
    have run: "triple (tab m0 f0) (if live = ?v then throw [ErrStage] else
         bind (wrap ErrStage (RemoveAll ?S)) (\<lambda>_. bind (wrap ErrStage (MkdirAll ?S DirMode)) (\<lambda>_.
         bind (wrap ErrStage (RemoveLauncherPending (abs_path rs) ?v)) (\<lambda>_. bind (wrap ErrStage (MkdirAll ?X DirMode)) (\<lambda>_.
         deferred (RemoveAll ?X) (bind (reuseSources (abs_path rs) live ?v) (\<lambda>sources.
           bind (stage_files T inflate ctx (abs_path rs) launcher ?S d sources routes ?X) (\<lambda>_. promote (abs_path rs) ?S ?V)))))))) ?Q ?E" for live
      using tab4 lo
      by (intro triple_if triple_throw triple_bind [OF w [OF steps(1)] triple_bind [OF w [OF steps(2)]
          triple_bind [OF w [OF steps(3)] triple_bind [OF w [OF steps(4)] triple_pre [OF def]]]]]) auto
    have "triple (tab m0 f0) (bind (PointerTarget pf (abs_path rs)) (\<lambda>live. if live = ?v then throw [ErrStage] else
         bind (wrap ErrStage (RemoveAll ?S)) (\<lambda>_. bind (wrap ErrStage (MkdirAll ?S DirMode)) (\<lambda>_.
         bind (wrap ErrStage (RemoveLauncherPending (abs_path rs) ?v)) (\<lambda>_. bind (wrap ErrStage (MkdirAll ?X DirMode)) (\<lambda>_.
         deferred (RemoveAll ?X) (bind (reuseSources (abs_path rs) live ?v) (\<lambda>sources.
           bind (stage_files T inflate ctx (abs_path rs) launcher ?S d sources routes ?X) (\<lambda>_. promote (abs_path rs) ?S ?V))))))))) ?Q ?E"
      by (rule triple_bind [OF triple_weaken [OF PointerTarget_tab] run]) (use lo in auto)
    then show ?thesis by (simp only: Stage_def root ok vd js Let_def option.case bind_lift)
  qed
qed

end

end
