(* ===== verification/Trust.thy ===== *)
theory Trust
  imports Release Chain Patch
begin

text \<open>
  \<open>core/trust\<close>: the client that hands out the verified bytes of signed targets (\<open>trust.go\<close>, \<open>stream.go\<close>).

  The TUF client itself is go-tuf, which is not part of the repository.  What the sources call of it is a record
  of functions over a world \<^typ>\<open>'w\<close> of its own, which also holds the target cache, files of the operating
  system: \<open>GetTargetInfo\<close> gives the signed length and hashes of a target, \<open>DownloadTarget\<close> writes it to a cache
  file, \<open>tuf_roles\<close> lists the target paths of the roles that are loaded.  Nothing is assumed of them.  The hash
  functions are a parameter too.

  A reader is the list of the pieces its reads return and the error they end with, \<^term>\<open>None\<close> for
  \<open>io.EOF\<close>.  A function that feeds a writer returns the pieces it offers, in order, beside its own result.
\<close>

section \<open>Readers\<close>

type_synonym reader = "string list \<times> error option"

definition total_len :: "string list \<Rightarrow> int" where
  "total_len ps = int (length (concat ps))"

text \<open>\<open>io.LimitReader\<close>: no more than \<open>n\<close> bytes, and no read once they are gone.\<close>

fun limited :: "int \<Rightarrow> string list \<Rightarrow> string list" where
  "limited n [] = []"
| "limited n (p # ps) =
     (if n \<le> 0 then []
      else if int (length p) \<le> n then p # limited (n - int (length p)) ps
      else [take (nat n) p])"

definition LimitReader :: "reader \<Rightarrow> int \<Rightarrow> reader" where
  "LimitReader r n = (limited n (fst r), if total_len (fst r) < n then snd r else None)"

section \<open>The verifier\<close>

record TargetFiles =
  tf_path :: string
  tf_length :: int
  tf_hashes :: "(string \<times> string) list"

text \<open>A running hash is the bytes it has been fed.\<close>

record verifier =
  v_info :: TargetFiles
  v_hashes :: "(string \<times> string) list"
  v_n :: int
  v_over :: bool

definition sortedAlgorithms :: "(string \<times> string) list \<Rightarrow> string list" where
  "sortedAlgorithms h = sort (map fst h)"

definition newVerifier :: "TargetFiles \<Rightarrow> verifier result" where
  "newVerifier info =
     (if tf_hashes info = [] then Inl [ErrTrust]
      else if list_ex (\<lambda>alg. alg \<noteq> ''sha256'' \<and> alg \<noteq> ''sha512'') (sortedAlgorithms (tf_hashes info)) then Inl [ErrTrust]
      else Inr \<lparr> v_info = info, v_hashes = map (\<lambda>alg. (alg, [])) (sortedAlgorithms (tf_hashes info)), v_n = 0, v_over = False \<rparr>)"

definition verifier_Write :: "verifier \<Rightarrow> string \<Rightarrow> nat \<times> verifier" where
  "verifier_Write v p =
     (let room = tf_length (v_info v) - v_n v;
          over = int (length p) > room;
          q = (if over then take (nat (max room 0)) p else p)
      in (length q, v\<lparr>v_over := v_over v \<or> over, v_hashes := map (\<lambda>(alg, fed). (alg, fed @ q)) (v_hashes v),
                      v_n := v_n v + int (length q)\<rparr>))"

type_synonym digests = "string \<Rightarrow> string \<Rightarrow> string"

definition Verify :: "digests \<Rightarrow> verifier \<Rightarrow> unit result" where
  "Verify digest v =
     (if v_over v then Inl [ErrStream]
      else if v_n v \<noteq> tf_length (v_info v) then Inl [ErrStream]
      else if list_ex (\<lambda>alg. digest alg (the (map_of (v_hashes v) alg)) \<noteq> the (map_of (tf_hashes (v_info v)) alg))
                (sortedAlgorithms (tf_hashes (v_info v))) then Inl [ErrStream]
      else Inr ())"

text \<open>The loop of \<open>io.CopyBuffer\<close> into a verifier: a write that takes less than it was offered ends it.\<close>

fun feed :: "verifier \<Rightarrow> string list \<Rightarrow> string list \<times> verifier result" where
  "feed v [] = ([], Inr v)"
| "feed v (p # ps) =
     (case verifier_Write v p of (k, v') \<Rightarrow>
        if k < length p then ([p], Inl [])
        else (p # fst (feed v' ps), snd (feed v' ps)))"

text \<open>\<open>fsx.Copy\<close> into a verifier.\<close>

definition Copy :: "verifier \<Rightarrow> reader \<Rightarrow> int \<Rightarrow> string list \<times> verifier result" where
  "Copy v r limit =
     (if limit < 0 then ([], Inl [])
      else (case LimitReader r (wrap64 (limit + 1)) of (ps, end) \<Rightarrow>
        (case feed v ps of
           (qs, Inl e) \<Rightarrow> (qs, Inl e)
         | (qs, Inr v') \<Rightarrow>
             (qs, case end of
                Some e \<Rightarrow> Inl e
              | None \<Rightarrow> if total_len ps > limit then Inl [] else Inr v'))))"

text \<open>The body \<open>VerifyStream\<close> and \<open>streamCached\<close> share: read a stream and judge it.\<close>

definition verify_reader :: "digests \<Rightarrow> TargetFiles \<Rightarrow> reader \<Rightarrow> string list \<times> unit result" where
  "verify_reader digest info r =
     (case newVerifier info of
        Inl e \<Rightarrow> ([], Inl e)
      | Inr v \<Rightarrow> (case Copy v r (tf_length info) of
          (ps, Inl e) \<Rightarrow> (ps, Inl e)
        | (ps, Inr v') \<Rightarrow> (ps, Verify digest v')))"

section \<open>The client\<close>

record 'w tuf =
  GetTargetInfo :: "string \<Rightarrow> ('w, TargetFiles) prog"
  DownloadTarget :: "TargetFiles \<Rightarrow> string \<Rightarrow> ('w, unit) prog"
  TufRefresh :: "('w, unit) prog"
  tuf_roles :: "'w \<Rightarrow> string list list"
  OpenCached :: "string \<Rightarrow> ('w, reader) prog"
  RemoveCached :: "string \<Rightarrow> ('w, unit) prog"

record 'w TrustClient =
  cl_up :: "'w tuf"
  localTargets :: string
  maxTarget :: int
  cl_sums :: digests

definition DefaultMaxTargetBytes :: int where "DefaultMaxTargetBytes = 2 * 2 ^ 30"

text \<open>The checks of \<open>New\<close>, and the ceiling it settles on.\<close>

definition check_options :: "string \<Rightarrow> string \<Rightarrow> string \<Rightarrow> int \<Rightarrow> int result" where
  "check_options root url dir max_bytes =
     (if root = [] then Inl [ErrTrust]
      else if url = [] then Inl [ErrTrust]
      else if dir = [] then Inl [ErrTrust]
      else if max_bytes < 0 then Inl [ErrTrust]
      else if max_bytes = 0 then Inr DefaultMaxTargetBytes
      else Inr max_bytes)"

definition Refresh :: "'w TrustClient \<Rightarrow> ('w, unit) prog" where
  "Refresh c = wrap ErrTrust (TufRefresh (cl_up c))"

definition targetInfo :: "'w TrustClient \<Rightarrow> string \<Rightarrow> ('w, TargetFiles) prog" where
  "targetInfo c targetPath =
     bind (wrap ErrTrust (GetTargetInfo (cl_up c) targetPath)) (\<lambda>info.
     if tf_length info > maxTarget c then throw [ErrTrust] else ret info)"

definition TargetLength :: "'w TrustClient \<Rightarrow> string \<Rightarrow> ('w, int) prog" where
  "TargetLength c targetPath = bind (targetInfo c targetPath) (\<lambda>info. ret (tf_length info))"

text \<open>\<open>url.PathEscape\<close>, and the name of a cache file.\<close>

definition unescaped :: "char \<Rightarrow> bool" where
  "unescaped ch \<longleftrightarrow> (CHR ''a'' \<le> ch \<and> ch \<le> CHR ''z'') \<or> (CHR ''A'' \<le> ch \<and> ch \<le> CHR ''Z'') \<or>
     (CHR ''0'' \<le> ch \<and> ch \<le> CHR ''9'') \<or> ch \<in> set ''-_.~$&+=:@''"

definition upper_hex :: "nat \<Rightarrow> char" where
  "upper_hex n = ''0123456789ABCDEF'' ! n"

definition PathEscape :: "string \<Rightarrow> string" where
  "PathEscape s = concat (map (\<lambda>ch. if unescaped ch then [ch]
     else [CHR ''%'', upper_hex (of_char ch div 16), upper_hex (of_char ch mod 16)]) s)"

definition cachePath :: "'w TrustClient \<Rightarrow> TargetFiles \<Rightarrow> string result" where
  "cachePath c info =
     (if localTargets c = [] then Inl [ErrTrust]
      else Inr (path_join [localTargets c, PathEscape (tf_path info)]))"

text \<open>
  \<open>streamCached\<close>: the pieces go to \<open>w\<close> and to the verifier; what is returned is what \<open>w\<close> was offered and, provided
  it took it, the verdict.
\<close>

definition streamCached :: "'w TrustClient \<Rightarrow> string \<Rightarrow> TargetFiles \<Rightarrow> ('w, string list \<times> unit result) prog" where
  "streamCached c name info =
     attempt (OpenCached (cl_up c) name) (\<lambda>e. ret ([], Inl e)) (\<lambda>f. ret (verify_reader (cl_sums c) info f))"

definition materialize :: "'w TrustClient \<Rightarrow> TargetFiles \<Rightarrow> ('w, string list \<times> unit result) prog" where
  "materialize c info =
     (case cachePath c info of
        Inl e \<Rightarrow> ret ([], Inl e)
      | Inr cache \<Rightarrow>
          bind (streamCached c cache info) (\<lambda>(_, probe).
          attempt (case probe of
              Inr _ \<Rightarrow> ret ()
            | Inl _ \<Rightarrow> bind (ignore (RemoveCached (cl_up c) cache)) (\<lambda>_. wrap ErrTrust (DownloadTarget (cl_up c) info cache)))
            (\<lambda>e. ret ([], Inl e))
            (\<lambda>_. bind (streamCached c cache info) (\<lambda>(ps, r).
               ret (ps, case r of Inl e \<Rightarrow> Inl (ErrStream # e) | Inr _ \<Rightarrow> Inr ())))))"

definition Materialize :: "'w TrustClient \<Rightarrow> string \<Rightarrow> ('w, string list \<times> unit result) prog" where
  "Materialize c targetPath =
     attempt (targetInfo c targetPath) (\<lambda>e. ret ([], Inl e)) (\<lambda>info. materialize c info)"

definition VerifyStream :: "'w TrustClient \<Rightarrow> string \<Rightarrow> reader \<Rightarrow> ('w, string list \<times> unit result) prog" where
  "VerifyStream c targetPath r =
     attempt (targetInfo c targetPath) (\<lambda>e. ret ([], Inl e)) (\<lambda>info.
       ret (case newVerifier info of
          Inl e \<Rightarrow> ([], Inl e)
        | Inr v \<Rightarrow> (case Copy v r (tf_length info) of
            (ps, Inl e) \<Rightarrow> (ps, Inl (ErrStream # e))
          | (ps, Inr v') \<Rightarrow> (ps, Verify (cl_sums c) v'))))"

text \<open>\<open>target\<close>: into a buffer, which takes everything.\<close>

definition client_target :: "'w TrustClient \<Rightarrow> string \<Rightarrow> ('w, string) prog" where
  "client_target c targetPath =
     bind (targetInfo c targetPath) (\<lambda>info.
     bind (materialize c info) (\<lambda>(ps, r).
     case r of Inl e \<Rightarrow> throw e | Inr _ \<Rightarrow> ret (concat ps)))"

section \<open>Releases\<close>

definition check_resolved :: "string \<Rightarrow> string \<Rightarrow> string \<Rightarrow> ChannelPointer \<Rightarrow> unit result" where
  "check_resolved channel goos goarch p =
     (if cp_channel p \<noteq> channel \<or> cp_os p \<noteq> goos \<or> cp_arch p \<noteq> goarch then Inl [ErrResolve]
      else if cp_descriptor p \<noteq> DescriptorPath goos goarch (cp_version p) then Inl [ErrResolve]
      else Inr ())"

definition LatestRelease :: "'w TrustClient \<Rightarrow> string \<Rightarrow> string \<Rightarrow> string \<Rightarrow> ('w, Descriptor) prog" where
  "LatestRelease c channel goos goarch =
     bind (client_target c (PointerPath channel goos goarch)) (\<lambda>raw.
     bind (wrap ErrTrust (lift (ParsePointer raw))) (\<lambda>p.
     bind (lift (check_resolved channel goos goarch p)) (\<lambda>_.
     bind (client_target c (cp_descriptor p)) (\<lambda>raw.
     bind (wrap ErrTrust (lift (ParseDescriptor raw))) (\<lambda>d.
     if ds_version d \<noteq> cp_version p \<or> ds_channel d \<noteq> channel \<or> ds_os d \<noteq> goos \<or> ds_arch d \<noteq> goarch
     then throw [ErrResolve] else ret d)))))"

definition Client_ReleaseVersion :: "'w TrustClient \<Rightarrow> string \<Rightarrow> string \<Rightarrow> string \<Rightarrow> ('w, Descriptor) prog" where
  "Client_ReleaseVersion c goos goarch version =
     (if \<not> ValidVersion version then throw [ErrResolve]
      else bind (client_target c (DescriptorPath goos goarch version)) (\<lambda>raw.
        bind (wrap ErrTrust (lift (ParseDescriptor raw))) (\<lambda>d.
        if ds_version d \<noteq> version \<or> ds_os d \<noteq> goos \<or> ds_arch d \<noteq> goarch then throw [ErrResolve] else ret d)))"

definition client_listed :: "'w TrustClient \<Rightarrow> string \<Rightarrow> 'w \<Rightarrow> bool" where
  "client_listed c targetPath w = list_ex (\<lambda>role. targetPath \<in> set role) (tuf_roles (cl_up c) w)"

definition ReleasePolicy :: "'w TrustClient \<Rightarrow> string \<Rightarrow> string \<Rightarrow> string \<Rightarrow> ('w, Policy option) prog" where
  "ReleasePolicy c goos goarch version =
     (if \<not> ValidVersion version then throw [ErrResolve]
      else bind (targetInfo c (DescriptorPath goos goarch version)) (\<lambda>_ w.
        if \<not> client_listed c (PolicyPath goos goarch version) w then ret None w
        else bind (client_target c (PolicyPath goos goarch version)) (\<lambda>raw.
          bind (wrap ErrTrust (lift (ParsePolicy raw))) (\<lambda>p.
          if po_version p \<noteq> version \<or> po_os p \<noteq> goos \<or> po_arch p \<noteq> goarch then throw [ErrResolve] else ret (Some p))) w))"

definition version_listing :: "string \<Rightarrow> string \<Rightarrow> string list list \<Rightarrow> string list" where
  "version_listing goos goarch rs =
     fold (\<lambda>targetPath out. case VersionOfDescriptorPath targetPath goos goarch of
         None \<Rightarrow> out
       | Some v \<Rightarrow> if v \<in> set out then out else out @ [v]) (concat rs) []"

definition Client_Versions :: "'w TrustClient \<Rightarrow> string \<Rightarrow> string \<Rightarrow> 'w \<Rightarrow> string list" where
  "Client_Versions c goos goarch w =
     stable_sort (less_by Compare) (version_listing goos goarch (tuf_roles (cl_up c) w))"

definition Client_OpenLine :: "'w TrustClient \<Rightarrow> string \<Rightarrow> string \<Rightarrow> string \<Rightarrow> 'w \<Rightarrow> 'w" where
  "Client_OpenLine c goos goarch major w =
     snd (GetTargetInfo (cl_up c) (DescriptorPath goos goarch (major @ ''.0.0'')) w)"

end
