(* ===== verification/TrustLaws.thy ===== *)
theory TrustLaws
  imports Trust Triple ReleaseLaws
begin

text \<open>
  What the trust client admits: exactly the signed bytes, however they arrive, and only releases that are what
  they were asked for.
\<close>

section \<open>The verifier\<close>

definition signed_bytes :: "digests \<Rightarrow> TargetFiles \<Rightarrow> string \<Rightarrow> bool" where
  "signed_bytes digest info bs \<longleftrightarrow> tf_hashes info \<noteq> [] \<and> int (length bs) = tf_length info \<and>
     (\<forall>alg\<in>fst ` set (tf_hashes info). (alg = ''sha256'' \<or> alg = ''sha512'') \<and>
        map_of (tf_hashes info) alg = Some (digest alg bs))"

lemma limited_all: "total_len ps < n \<Longrightarrow> limited n ps = ps"
  by (induction ps arbitrary: n) (auto simp: total_len_def)

lemma limited_total: "0 \<le> n \<Longrightarrow> total_len (limited n ps) = min n (total_len ps)"
  by (induction ps arbitrary: n) (auto simp: total_len_def min_def)

text \<open>A verifier that has been fed \<open>bs\<close>, all of which it took.\<close>

definition fed :: "TargetFiles \<Rightarrow> string \<Rightarrow> verifier" where
  "fed info bs = \<lparr> v_info = info, v_hashes = map (\<lambda>alg. (alg, bs)) (sortedAlgorithms (tf_hashes info)),
     v_n = int (length bs), v_over = False \<rparr>"

lemma feed_fed:
  assumes "int (length bs) + total_len ps \<le> tf_length info"
  shows "feed (fed info bs) ps = (ps, Inr (fed info (bs @ concat ps)))"
  using assms
proof (induction ps arbitrary: bs)
  case (Cons p ps)
  have "int (length p) \<le> tf_length info - int (length bs)" using Cons.prems by (simp add: total_len_def)
  then have "verifier_Write (fed info bs) p = (length p, fed info (bs @ p))"
    by (simp add: verifier_Write_def fed_def Let_def comp_def case_prod_beta)
  moreover have "int (length (bs @ p)) + total_len ps \<le> tf_length info" using Cons.prems by (simp add: total_len_def)
  ultimately show ?case using Cons.IH [of "bs @ p"] by simp
qed (simp add: fed_def)

lemma feed_over:
  assumes "tf_length info < int (length bs) + total_len ps" "int (length bs) \<le> tf_length info"
  shows "\<exists>qs. feed (fed info bs) ps = (qs, Inl [])"
  using assms
proof (induction ps arbitrary: bs)
  case (Cons p ps)
  show ?case
  proof (cases "int (length p) \<le> tf_length info - int (length bs)")
    case True
    then have "verifier_Write (fed info bs) p = (length p, fed info (bs @ p))"
      by (simp add: verifier_Write_def fed_def Let_def comp_def case_prod_beta)
    moreover obtain qs where "feed (fed info (bs @ p)) ps = (qs, Inl [])"
      using Cons.IH [of "bs @ p"] Cons.prems True by (auto simp: total_len_def)
    ultimately show ?thesis by simp
  next
    case False
    then have "fst (verifier_Write (fed info bs) p) < length p"
      using Cons.prems(2) by (simp add: verifier_Write_def fed_def Let_def)
    then show ?thesis by (cases "verifier_Write (fed info bs) p") simp
  qed
qed (simp add: total_len_def)

lemma Verify_fed:
  "Verify digest (fed info bs) = (if int (length bs) = tf_length info \<and>
     (\<forall>alg\<in>fst ` set (tf_hashes info). the (map_of (tf_hashes info) alg) = digest alg bs) then Inr () else Inl [ErrStream])"
proof -
  have m: "map_of (map (\<lambda>alg. (alg, bs)) xs) a = Some bs" if "a \<in> set xs" for xs :: "string list" and a
    using that by (induction xs) auto
  have "list_ex (\<lambda>alg. digest alg (the (map_of (map (\<lambda>alg. (alg, bs)) (sortedAlgorithms (tf_hashes info))) alg)) \<noteq>
        the (map_of (tf_hashes info) alg)) (sortedAlgorithms (tf_hashes info)) \<longleftrightarrow>
      (\<exists>alg\<in>fst ` set (tf_hashes info). digest alg bs \<noteq> the (map_of (tf_hashes info) alg))"
    unfolding list_ex_iff using m [of _ "sortedAlgorithms (tf_hashes info)"]
    by (auto simp: sortedAlgorithms_def)
  then show ?thesis unfolding Verify_def by (auto simp: fed_def)
qed

lemma newVerifier_fed: "newVerifier info =
    (if tf_hashes info \<noteq> [] \<and> (\<forall>alg\<in>fst ` set (tf_hashes info). alg = ''sha256'' \<or> alg = ''sha512'')
     then Inr (fed info []) else Inl [ErrTrust])"
  by (auto simp: newVerifier_def fed_def list_ex_iff sortedAlgorithms_def)

lemma Copy_fed:
  assumes "tf_length info < MaxInt64"
  shows "Copy (fed info []) (ps, e) (tf_length info) = (qs, Inr v) \<longleftrightarrow>
    0 \<le> tf_length info \<and> total_len ps \<le> tf_length info \<and> e = None \<and> qs = ps \<and> v = fed info (concat ps)"
proof (cases "0 \<le> tf_length info")
  case True
  then have w: "wrap64 (tf_length info + 1) = tf_length info + 1" using assms by (intro wrap64_id) simp_all
  show ?thesis
  proof (cases "total_len ps \<le> tf_length info")
    case le: True
    then have "LimitReader (ps, e) (tf_length info + 1) = (ps, e)" by (simp add: LimitReader_def limited_all)
    then show ?thesis
      using True le feed_fed [of "[]" ps info] by (auto simp: Copy_def w split: option.splits)
  next
    case False
    then have t: "total_len (limited (tf_length info + 1) ps) = tf_length info + 1" using True by (simp add: limited_total)
    then obtain qs where "feed (fed info []) (limited (tf_length info + 1) ps) = (qs, Inl [])"
      using feed_over [of info "[]" "limited (tf_length info + 1) ps"] True by auto
    then show ?thesis using False True by (simp add: Copy_def w LimitReader_def)
  qed
qed (simp add: Copy_def)

lemma total_nonneg [simp]: "0 \<le> total_len ps"
  by (simp add: total_len_def)

lemma verify_reader_signed:
  assumes "tf_length info < MaxInt64"
  shows "verify_reader digest info (ps, e) = (qs, Inr ()) \<longleftrightarrow> e = None \<and> qs = ps \<and> signed_bytes digest info (concat ps)"
proof -
  have h: "the (map_of (tf_hashes info) alg) = d \<longleftrightarrow> map_of (tf_hashes info) alg = Some d"
    if "alg \<in> fst ` set (tf_hashes info)" for alg d
    using that by (cases "map_of (tf_hashes info) alg") (auto simp: map_of_eq_None_iff)
  show ?thesis
  proof (cases "newVerifier info")
    case (Inl a)
    then show ?thesis by (auto simp: verify_reader_def newVerifier_fed signed_bytes_def split: if_splits)
  next
    case (Inr v)
    then have v: "v = fed info []" "tf_hashes info \<noteq> []"
      "\<forall>alg\<in>fst ` set (tf_hashes info). alg = ''sha256'' \<or> alg = ''sha512''"
      by (auto simp: newVerifier_fed split: if_splits)
    have "verify_reader digest info (ps, e) = (qs, Inr ()) \<longleftrightarrow>
        (\<exists>v'. Copy (fed info []) (ps, e) (tf_length info) = (qs, Inr v') \<and> Verify digest v' = Inr ())"
      by (auto simp: verify_reader_def Inr v(1) split: prod.splits sum.splits)
    also have "\<dots> \<longleftrightarrow> e = None \<and> qs = ps \<and> signed_bytes digest info (concat ps)"
      unfolding Copy_fed [OF assms] using v(2,3) h
      by (auto simp: Verify_fed signed_bytes_def total_len_def split: if_splits)
    finally show ?thesis .
  qed
qed

lemma limited_bound: "total_len (limited n ps) \<le> max 0 n"
  by (cases "0 \<le> n") (auto simp: limited_total, cases ps, auto simp: total_len_def)

lemma feed_length: "feed (fed info bs) ps = (qs, Inr v) \<Longrightarrow> int (length bs) \<le> tf_length info \<Longrightarrow> v = fed info (bs @ concat ps)"
  using feed_fed [of bs ps info] feed_over [of info bs ps] by (cases "int (length bs) + total_len ps \<le> tf_length info") auto

text \<open>What the verifier accepts is signed, whatever length is signed: one that fills 64 bits is never reached.\<close>

lemma verify_reader_sound:
  assumes "verify_reader digest info (ps, e) = (qs, Inr ())"
  shows "e = None \<and> qs = ps \<and> signed_bytes digest info (concat ps)"
proof (cases "tf_length info < MaxInt64")
  case True
  then show ?thesis using assms verify_reader_signed by blast
next
  case False
  then have n: "newVerifier info = Inr (fed info [])" using assms by (auto simp: verify_reader_def newVerifier_fed split: if_splits)
  then obtain v where v: "Copy (fed info []) (ps, e) (tf_length info) = (qs, Inr v)" "Verify digest v = Inr ()"
    using assms by (auto simp: verify_reader_def split: prod.splits sum.splits)
  let ?ps = "limited (wrap64 (tf_length info + 1)) ps"
  have w: "wrap64 (tf_length info + 1) < 2 ^ 63" by (simp add: wrap64_def)
  have "v = fed info (concat ?ps)"
    using v(1) False feed_length [of info "[]" ?ps] by (auto simp: Copy_def LimitReader_def split: prod.splits sum.splits option.splits if_splits)
  then have l: "total_len ?ps = tf_length info" using v(2) by (simp add: Verify_fed total_len_def split: if_splits)
  show ?thesis
  proof (cases "tf_length info = MaxInt64")
    case True
    then have "wrap64 (tf_length info + 1) < 0" by (simp add: wrap64_def)
    then show ?thesis using limited_bound [of "wrap64 (tf_length info + 1)" ps] l True by simp
  next
    case f: False
    then show ?thesis using limited_bound [of "wrap64 (tf_length info + 1)" ps] l w False by (simp add: max_def split: if_splits)
  qed
qed

section \<open>The client\<close>

text \<open>\<open>ceiling\<close>: the limit of a client that \<open>New\<close> made, whose lengths leave room for one byte more.\<close>

definition ceiling_ok :: "'w TrustClient \<Rightarrow> bool" where
  "ceiling_ok c \<longleftrightarrow> 0 < maxTarget c \<and> maxTarget c < MaxInt64"

lemma targetInfo_below:
  "ceiling_ok c \<Longrightarrow> targetInfo c t w = (Inr info, w') \<Longrightarrow>
   GetTargetInfo (cl_up c) t w = (Inr info, w') \<and> tf_length info < MaxInt64"
  by (auto simp: targetInfo_def bind_Inr wrap_Inr ceiling_ok_def throw_def ret_def split: if_splits)

lemma targetInfo_signed: "targetInfo c t w = (Inr info, w') \<Longrightarrow> GetTargetInfo (cl_up c) t w = (Inr info, w')"
  by (auto simp: targetInfo_def bind_Inr wrap_Inr throw_def ret_def split: if_splits)


lemma streamCached_signed:
  "triple P (streamCached c name info) (\<lambda>(ps, r) _. r = Inr () \<longrightarrow> signed_bytes (cl_sums c) info (concat ps)) (\<lambda>_ _. False)"
proof -
  have "r = Inr () \<longrightarrow> signed_bytes (cl_sums c) info (concat ps)" if "verify_reader (cl_sums c) info f = (ps, r)" for f ps r
    using verify_reader_sound [of "cl_sums c" info "fst f" "snd f" ps] that by auto
  then show ?thesis
    unfolding streamCached_def by (intro triple_attempt [where R = "\<lambda>_ _. True" and F = "\<lambda>_ _. True"] triple_ret)
      (auto simp: triple_def split: prod.splits sum.splits)
qed

lemma materialize_signed:
  "triple P (materialize c info) (\<lambda>(ps, r) _. r = Inr () \<longrightarrow> signed_bytes (cl_sums c) info (concat ps)) (\<lambda>_ _. False)"
proof (cases "cachePath c info")
  case (Inl e)
  then show ?thesis by (auto simp: materialize_def triple_def ret_def)
next
  case (Inr cache)
  have any: "triple P (p :: ('w, 'x) prog) (\<lambda>_ _. True) (\<lambda>_ _. True)" for P p by (auto simp: triple_def split: prod.splits sum.splits)
  have again: "triple P (bind (streamCached c cache info) (\<lambda>(ps, r). ret (ps, case r of Inl e \<Rightarrow> Inl (ErrStream # e) | Inr _ \<Rightarrow> Inr ())))
      (\<lambda>(ps, r) _. r = Inr () \<longrightarrow> signed_bytes (cl_sums c) info (concat ps)) (\<lambda>_ _. False)" for P
    by (rule triple_bind [OF streamCached_signed]) (auto simp: triple_def ret_def split: sum.splits)
  show ?thesis
    unfolding materialize_def Inr sum.case
  proof (rule triple_bind [OF streamCached_signed])
    fix x :: "string list \<times> unit result"
    obtain qs probe where x: "x = (qs, probe)" by (cases x)
    show "triple (case x of (ps, r) \<Rightarrow> \<lambda>_. r = Inr () \<longrightarrow> signed_bytes (cl_sums c) info (concat ps))
      (case x of (_, probe) \<Rightarrow> attempt (case probe of
              Inr _ \<Rightarrow> ret ()
            | Inl _ \<Rightarrow> bind (ignore (RemoveCached (cl_up c) cache)) (\<lambda>_. wrap ErrTrust (DownloadTarget (cl_up c) info cache)))
            (\<lambda>e. ret ([], Inl e))
            (\<lambda>_. bind (streamCached c cache info) (\<lambda>(ps, r). ret (ps, case r of Inl e \<Rightarrow> Inl (ErrStream # e) | Inr _ \<Rightarrow> Inr ()))))
      (\<lambda>(ps, r) _. r = Inr () \<longrightarrow> signed_bytes (cl_sums c) info (concat ps)) (\<lambda>_ _. False)"
      unfolding x prod.case by (rule triple_attempt [OF any _ again]) (auto simp: triple_def ret_def)
  qed
qed

lemma client_target_signed:
  assumes "client_target c t w = (Inr bs, w')"
  shows "\<exists>info w1. GetTargetInfo (cl_up c) t w = (Inr info, w1) \<and> signed_bytes (cl_sums c) info bs"
proof -
  have unit: "(\<forall>x. b \<noteq> Inl x) \<longleftrightarrow> b = Inr ()" for b :: "unit result" by (cases b) auto
  obtain info w1 ps w2 where t: "targetInfo c t w = (Inr info, w1)" "materialize c info w1 = (Inr (ps, Inr ()), w2)" "bs = concat ps"
    using assms by (auto simp: client_target_def bind_Inr throw_def ret_def unit split: sum.splits prod.splits)
  then show ?thesis
    using targetInfo_signed [OF t(1)] triple_Inr [OF materialize_signed, of "\<lambda>_. True" w1 c info] by fastforce
qed

text \<open>Bytes the repository has signed as a target.\<close>

definition signed_target :: "'w TrustClient \<Rightarrow> string \<Rightarrow> string \<Rightarrow> bool" where
  "signed_target c t bs \<longleftrightarrow> (\<exists>w info w'. GetTargetInfo (cl_up c) t w = (Inr info, w') \<and> signed_bytes (cl_sums c) info bs)"

text \<open>
  C21.  A release is what it was asked for.  Whatever the repository serves and whatever lies in the target cache, a
  release \<open>LatestRelease\<close> returns is of the channel and the platform that were asked for, and it is parsed from
  bytes that have the signed length and hashes of its own descriptor path; the version is the one the signed
  channel pointer names.
\<close>

theorem LatestRelease_signed:
  assumes "LatestRelease c channel goos goarch w = (Inr d, w')"
  shows "ds_channel d = channel \<and> ds_os d = goos \<and> ds_arch d = goarch \<and>
    (\<exists>raw. signed_target c (DescriptorPath goos goarch (ds_version d)) raw \<and> ParseDescriptor raw = Inr d) \<and>
    (\<exists>raw p. signed_target c (PointerPath channel goos goarch) raw \<and> ParsePointer raw = Inr p \<and> cp_version p = ds_version d)"
proof -
  obtain raw1 w1 p raw2 w2 w3 where
    a: "client_target c (PointerPath channel goos goarch) w = (Inr raw1, w1)" "ParsePointer raw1 = Inr p"
      "check_resolved channel goos goarch p = Inr ()"
      "client_target c (cp_descriptor p) w2 = (Inr raw2, w3)" "ParseDescriptor raw2 = Inr d"
      "ds_version d = cp_version p" "ds_channel d = channel" "ds_os d = goos" "ds_arch d = goarch"
    using assms by (auto simp: LatestRelease_def bind_Inr wrap_Inr lift_def throw_def ret_def split: if_splits)
  have "cp_descriptor p = DescriptorPath goos goarch (cp_version p)" using a(3) by (auto simp: check_resolved_def split: if_splits)
  then show ?thesis
    using a client_target_signed [OF a(1)] client_target_signed [OF a(4)] unfolding signed_target_def by metis
qed


section \<open>A client\<close>

text \<open>A repository with one release, whose cache holds every target; a digest here is the bytes themselves.\<close>

definition sample_pointer :: ChannelPointer where
  "sample_pointer = \<lparr> cp_schema = 1, cp_channel = ''stable'', cp_os = ''linux'', cp_arch = ''amd64'', cp_version = ''1.0.0'',
     cp_descriptor = ''releases/linux-amd64/1.0.0.json'' \<rparr>"

definition pointer_json :: "ChannelPointer \<Rightarrow> json" where
  "pointer_json p = JObj [(''schema_version'', num (cp_schema p)), (''channel'', JStr (cp_channel p)), (''os'', JStr (cp_os p)),
     (''arch'', JStr (cp_arch p)), (''version'', JStr (cp_version p)), (''descriptor'', JStr (cp_descriptor p))]"

definition sample_document :: "string \<Rightarrow> string" where
  "sample_document t = (if t = PointerPath ''stable'' ''linux'' ''amd64'' then MarshalIndent (pointer_json sample_pointer)
     else MarshalIndent (descriptor_json sample_descriptor))"

definition sample_client :: "unit TrustClient" where
  "sample_client = \<lparr> cl_up = \<lparr> GetTargetInfo = (\<lambda>t. ret \<lparr> tf_path = t, tf_length = int (length (sample_document t)), tf_hashes = [(''sha256'', sample_document t)] \<rparr>),
       DownloadTarget = (\<lambda>_ _. throw []), TufRefresh = ret (), tuf_roles = (\<lambda>_. []),
       OpenCached = (\<lambda>name. ret ([sample_document (if name = ''/tuf/channels%2Fstable%2Flinux-amd64%2Flatest.json''
          then PointerPath ''stable'' ''linux'' ''amd64'' else [])], None)),
       RemoveCached = (\<lambda>_. ret ()) \<rparr>,
     localTargets = ''/tuf'', maxTarget = DefaultMaxTargetBytes, cl_sums = (\<lambda>_ bs. bs) \<rparr>"

lemma sample_ceiling: "ceiling_ok sample_client"
  by (simp add: ceiling_ok_def sample_client_def DefaultMaxTargetBytes_def)

lemma sample_parse_pointer: "ParsePointer (MarshalIndent (pointer_json sample_pointer)) = Inr sample_pointer"
proof -
  have v: "valid_json (pointer_json sample_pointer)" "nesting (pointer_json sample_pointer) \<le> maxNestingDepth" by code_simp+
  have "int (length (MarshalIndent (pointer_json sample_pointer))) \<le> MaxJSONLen" by code_simp
  moreover have "decode_struct pointerFields put_pointer (pointer_json sample_pointer) pointer_zero = Inr sample_pointer" by code_simp
  moreover have "check_keys pointerFields (pointer_json sample_pointer) = Inr ()" "check_pointer sample_pointer = Inr ()" by code_simp+
  ultimately show ?thesis
    using unmarshal_print(2) [OF v, of pointerFields put_pointer pointer_zero] unmarshal_print(1) [OF v] print_json_nonempty [OF v(1)]
    by (simp add: ParsePointer_def decodeStrict_def checkKeys_def)
qed

lemma sample_lengths:
  "int (length (sample_document t)) \<le> DefaultMaxTargetBytes"
proof -
  have "int (length (MarshalIndent (pointer_json sample_pointer))) \<le> DefaultMaxTargetBytes"
    "int (length (MarshalIndent (descriptor_json sample_descriptor))) \<le> DefaultMaxTargetBytes" by code_simp+
  then show ?thesis by (simp add: sample_document_def)
qed

lemma sample_info: "targetInfo sample_client t () =
    (Inr \<lparr> tf_path = t, tf_length = int (length (sample_document t)), tf_hashes = [(''sha256'', sample_document t)] \<rparr>, ())"
  using sample_lengths [of t] by (simp add: targetInfo_def sample_client_def prog_simps)

lemma sample_signed_target:
  assumes "t = PointerPath ''stable'' ''linux'' ''amd64'' \<or> t = DescriptorPath ''linux'' ''amd64'' ''1.0.0''"
  shows "client_target sample_client t () = (Inr (sample_document t), ())"
proof -
  let ?info = "\<lparr> tf_path = t, tf_length = int (length (sample_document t)), tf_hashes = [(''sha256'', sample_document t)] \<rparr>"
  have p: "cachePath sample_client ?info = Inr (if t = PointerPath ''stable'' ''linux'' ''amd64''
      then ''/tuf/channels%2Fstable%2Flinux-amd64%2Flatest.json'' else ''/tuf/releases%2Flinux-amd64%2F1.0.0.json'')"
  proof -
    have "path_join [''/tuf'', PathEscape (PointerPath ''stable'' ''linux'' ''amd64'')] = ''/tuf/channels%2Fstable%2Flinux-amd64%2Flatest.json''"
      "path_join [''/tuf'', PathEscape (DescriptorPath ''linux'' ''amd64'' ''1.0.0'')] = ''/tuf/releases%2Flinux-amd64%2F1.0.0.json''"
      "PointerPath ''stable'' ''linux'' ''amd64'' \<noteq> DescriptorPath ''linux'' ''amd64'' ''1.0.0''" by code_simp+
    then show ?thesis using assms by (auto simp: cachePath_def sample_client_def)
  qed
  have "[] \<noteq> PointerPath ''stable'' ''linux'' ''amd64''" by (simp add: PointerPath_def)
  then have o: "OpenCached (cl_up sample_client) (if t = PointerPath ''stable'' ''linux'' ''amd64''
      then ''/tuf/channels%2Fstable%2Flinux-amd64%2Flatest.json'' else ''/tuf/releases%2Flinux-amd64%2F1.0.0.json'') () = (Inr ([sample_document t], None), ())"
    using assms by (auto simp: sample_client_def ret_def sample_document_def PointerPath_def)
  have "tf_length ?info < MaxInt64" using sample_lengths [of t] by (simp add: DefaultMaxTargetBytes_def)
  then have v: "verify_reader (cl_sums sample_client) ?info ([sample_document t], None) = ([sample_document t], Inr ())"
    using verify_reader_signed [of ?info "cl_sums sample_client" "[sample_document t]" None]
    by (simp add: signed_bytes_def) (simp add: sample_client_def)
  have s: "streamCached sample_client (if t = PointerPath ''stable'' ''linux'' ''amd64''
      then ''/tuf/channels%2Fstable%2Flinux-amd64%2Flatest.json'' else ''/tuf/releases%2Flinux-amd64%2F1.0.0.json'') ?info ()
      = (Inr ([sample_document t], Inr ()), ())"
    unfolding streamCached_def attempt_def o by (simp add: v ret_def)
  have "materialize sample_client ?info () = (Inr ([sample_document t], Inr ()), ())"
    unfolding materialize_def p sum.case bind_def attempt_def s by (simp add: s ret_def)
  then show ?thesis by (simp add: client_target_def bind_def attempt_def sample_info ret_def)
qed

theorem LatestRelease_signed_witness:
  "\<exists>raw. signed_target sample_client (DescriptorPath ''linux'' ''amd64'' (ds_version sample_descriptor)) raw \<and>
     ParseDescriptor raw = Inr sample_descriptor"
proof -
  have p: "sample_document (PointerPath ''stable'' ''linux'' ''amd64'') = MarshalIndent (pointer_json sample_pointer)"
    by (simp add: sample_document_def)
  have d: "sample_document (DescriptorPath ''linux'' ''amd64'' ''1.0.0'') = MarshalIndent (descriptor_json sample_descriptor)"
    by (simp add: sample_document_def PointerPath_def DescriptorPath_def)
  have c: "cp_descriptor sample_pointer = DescriptorPath ''linux'' ''amd64'' ''1.0.0''" "check_resolved ''stable'' ''linux'' ''amd64'' sample_pointer = Inr ()"
    by code_simp+
  have r: "ParseDescriptor (MarshalIndent (descriptor_json sample_descriptor)) = Inr sample_descriptor"
    using parse_printed [OF sample_descriptor_ok(1,2)] sample_descriptor_ok(3) by simp
  have f: "ds_version sample_descriptor = cp_version sample_pointer" "ds_channel sample_descriptor = ''stable''"
    "ds_os sample_descriptor = ''linux''" "ds_arch sample_descriptor = ''amd64''"
    by (simp_all add: sample_descriptor_def sample_pointer_def)
  have "LatestRelease sample_client ''stable'' ''linux'' ''amd64'' () = (Inr sample_descriptor, ())"
    by (simp add: LatestRelease_def prog_simps sample_signed_target p d c r f sample_parse_pointer)
  then show ?thesis using LatestRelease_signed [of sample_client "''stable''" "''linux''" "''amd64''"] by blast
qed


end
