(* ===== verification/StageTrust.thy ===== *)
theory StageTrust
  imports StageSafe TrustLaws RecoverSample
begin

text \<open>
  Staging over the trust client: what \<open>Stage\<close> puts in place is what the repository has signed.
\<close>

text \<open>
  The trust client as the \<open>Materializer\<close> of a stager; \<open>ws k\<close> is its world, go-tuf and the cache, at time \<open>k\<close>.
\<close>

definition client_materializer :: "'w TrustClient \<Rightarrow> (nat \<Rightarrow> 'w) \<Rightarrow> Materializer" where
  "client_materializer c ws =
     \<lparr> mt_length = (\<lambda>k t. fst (TargetLength c t (ws k))),
       mt_fetch = (\<lambda>k t. case fst (Materialize c t (ws k)) of Inl e \<Rightarrow> ([], Inl e) | Inr x \<Rightarrow> x),
       mt_verify = (\<lambda>k t r. case fst (VerifyStream c t r (ws k)) of Inl e \<Rightarrow> ([], Inl e) | Inr x \<Rightarrow> x) \<rparr>"

lemma Materialize_signed:
  assumes "Materialize c t w = (Inr (ps, Inr ()), w')"
  shows "signed_target c t (concat ps)"
proof -
  obtain info w1 where i: "targetInfo c t w = (Inr info, w1)" "materialize c info w1 = (Inr (ps, Inr ()), w')"
    using assms by (auto simp: Materialize_def attempt_def ret_def split: prod.splits sum.splits)
  then show ?thesis
    using targetInfo_signed [OF i(1)] triple_Inr [OF materialize_signed, of "\<lambda>_. True" w1 c info] unfolding signed_target_def by fastforce
qed

lemma VerifyStream_signed:
  assumes "VerifyStream c t (ps, e) w = (Inr (qs, Inr ()), w')"
  shows "e = None \<and> qs = ps \<and> signed_target c t (concat ps)"
proof -
  obtain info w1 where i: "targetInfo c t w = (Inr info, w1)" "verify_reader (cl_sums c) info (ps, e) = (qs, Inr ())"
    using assms by (auto simp: VerifyStream_def verify_reader_def attempt_def ret_def split: prod.splits sum.splits)
  then show ?thesis using targetInfo_signed [OF i(1)] verify_reader_sound [OF i(2)] unfolding signed_target_def by blast
qed

interpretation signed: materializer "client_materializer c ws" "signed_target c" for c :: "'w TrustClient" and ws
proof
  fix k t ps
  assume "mt_fetch (client_materializer c ws) k t = (ps, Inr ())"
  then show "signed_target c t (concat ps)"
    using Materialize_signed [of c t "ws k" ps] by (cases "Materialize c t (ws k)") (auto simp: client_materializer_def split: sum.splits)
next
  fix k t ps e qs
  assume "mt_verify (client_materializer c ws) k t (ps, e) = (qs, Inr ())"
  then show "e = None \<and> qs = ps \<and> signed_target c t (concat ps)"
    using VerifyStream_signed [of c t ps e "ws k" qs] by (cases "VerifyStream c t (ps, e) (ws k)") (auto simp: client_materializer_def split: sum.splits)
qed

text \<open>
  C18.  Only signed bytes are installed, and only whole.  On an install tree whose staging area is free of links, whichever
  filesystem calls fail, whenever the context is cancelled and whatever the repository, the cache and the installed
  versions hold: when \<open>Stage\<close> returns a directory it is that of the release, it was not there before, and it holds
  every file of the release with its mode and with bytes that have the signed length and digests of its target, and
  nothing else but scratch files; when it fails the directory is that or what it was before.  Outside that directory and
  the staging area nothing has changed in either case, \<open>current\<close> in particular.
\<close>

theorem Stage_signed:
  assumes "stage_ready rs (node_at m)" "placed (elems (ds_files d))"
    and "Stage (Some (client_materializer c ws)) inflate pf ctx (abs_path rs) launcher (Some d) routes m = (r, m')"
  shows "stage_outcome (signed_target c) rs d (node_at m) r (node_at m')"
proof -
  let ?V = "abs_path (version_dir rs (ds_version d))" and ?f = "allowing (Launcher_Enabled launcher) rs (ds_version d) (node_at m)"
  let ?set = "settled (signed_target c) m ?f rs (ds_version d) (elems (ds_files d))"
  note tr = signed.Stage_at [OF assms(1,2), of m c ws inflate pf ctx launcher routes]
  have apart: "\<not> in_tree (abs_path (staging_dir rs)) q" if "in_tree ?V q" for q
  proof -
    have s: "simples rs" using assms(1) by (simp add: stage_ready_def dirs_tab_def)
    have "in_tree (abs_path (rs @ [VersionsName])) q"
      using in_tree_trans [OF in_tree_append that] in_tree_append [of "rs @ [VersionsName]" "[ds_version d]"] that in_tree_trans by fastforce
    moreover have "VersionsName \<noteq> MetaName" by (simp add: VersionsName_def MetaName_def)
    ultimately show ?thesis using trees_disjoint [of rs VersionsName "[]" MetaName "[StagingName]" q] s by simp
  qed
  have lo: "stage_outcome (signed_target c) rs d (node_at m) (Inl e) (node_at m')" if l: "loose m (node_at m) rs (ds_version d) m'" for e
    using l apart by (auto simp: loose_def stage_outcome_def tab_def Let_def)
  have same: "?f q = node_at m q" if "\<not> in_tree (abs_path (staging_dir rs)) q \<or> in_tree ?V q" for q
    using that apart allowing_other by blast
  have set: "stage_outcome (signed_target c) rs d (node_at m) (Inl e) (node_at m')" if "?set b m'" for b e
    using that same by (cases b) (auto simp: settled_def stage_outcome_def tab_def Let_def)
  show ?thesis
  proof (cases r)
    case (Inl e)
    then show ?thesis using triple_Inl [OF tr tab_same] assms(3) lo set by blast
  next
    case (Inr dir)
    then show ?thesis
      using triple_Inr [OF tr tab_same] assms(3) same by (auto simp: settled_def stage_outcome_def tab_def Let_def)
  qed
qed

text \<open>A release for the sample install, and a repository whose every target is the two bytes \<open>ok\<close>, read in two pieces.\<close>

definition small_client :: "unit TrustClient" where
  "small_client = \<lparr> cl_up = \<lparr> GetTargetInfo = (\<lambda>t. ret \<lparr> tf_path = t, tf_length = 2, tf_hashes = [(''sha256'', ''ok'')] \<rparr>),
       DownloadTarget = (\<lambda>_ _. throw []), TufRefresh = ret (), tuf_roles = (\<lambda>_. []),
       OpenCached = (\<lambda>name. ret ([''o'', ''k''], None)), RemoveCached = (\<lambda>_. ret ()) \<rparr>,
     localTargets = ''/tuf'', maxTarget = DefaultMaxTargetBytes, cl_sums = (\<lambda>_ bs. bs) \<rparr>"

definition sample_release :: Descriptor where "sample_release = sample_descriptor\<lparr>ds_version := ''1.2.0''\<rparr>"

lemma sample_ready: "stage_ready [] (node_at (sample_disk v recs))"
  unfolding stage_ready_def using sample_wf [of v recs]
  by (auto simp: dirs_tab_def le_Suc_eq sample_keys sample_node scratch_clean_def abs_path_def layout_names scratchName_def in_tree_def simple_def)

lemma sample_placed: "placed (elems (ds_files sample_release))"
  unfolding placed_def sample_release_def by code_simp

definition sample_staging :: "string result \<times> mem" where
  "sample_staging = Stage (Some (client_materializer small_client (\<lambda>_. ()))) (\<lambda>_. ([], None)) symlinkPointer (\<lambda>_. None) (abs_path [])
     \<lparr> l_source = [], l_name = [] \<rparr> (Some sample_release) (\<lambda>_. []) (sample_disk ''1.0.0'' [])"

lemma sample_staged: "fst sample_staging = Inr ''/versions/1.2.0''"
  by code_simp

theorem Stage_signed_witness:
  "fst sample_staging = Inr ''/versions/1.2.0'' \<and>
   complete_tree (signed_target small_client) [VersionsName, ''1.2.0''] (elems (ds_files sample_release)) (node_at (snd sample_staging))"
proof -
  have "stage_outcome (signed_target small_client) [] sample_release (node_at (sample_disk ''1.0.0'' []))
      (fst sample_staging) (node_at (snd sample_staging))"
    by (rule Stage_signed [OF sample_ready sample_placed]) (simp add: sample_staging_def)
  moreover have "ds_version sample_release = ''1.2.0''" by (simp add: sample_release_def)
  ultimately show ?thesis using sample_staged by (simp add: stage_outcome_def Let_def)
qed

end
