(* ===== verification/Launcherfile.thy ===== *)
theory Launcherfile
  imports Chain FsxWrite
begin

text \<open>
  \<open>internal/launcherfile/replace.go\<close>: replacing the launcher at the top of an install root, and repairing a
  replacement that was interrupted.
\<close>

definition AsideSuffix :: string where "AsideSuffix = ''.idunn-old-''"
definition NewSuffix :: string where "NewSuffix = ''.idunn-new.tmp''"
definition LauncherMode :: "32 word" where "LauncherMode = 0x1ED"

definition ReplaceByRename :: "string \<Rightarrow> string \<Rightarrow> (mem, unit) prog" where
  "ReplaceByRename path bs = WriteFileAtomic path bs LauncherMode"

section \<open>Numbers beside a launcher\<close>

text \<open>\<open>strconv.Atoi\<close> on a 64-bit platform.\<close>

definition max_int :: int where "max_int = 9223372036854775807"

definition Atoi :: "string \<Rightarrow> int option" where
  "Atoi s =
     (let neg = (s \<noteq> [] \<and> hd s = CHR ''-''); ds = (if s \<noteq> [] \<and> hd s \<in> {CHR ''-'', CHR ''+''} then tl s else s) in
      if ds = [] \<or> \<not> list_all is_digit ds then None
      else let n = (if neg then - int (num_of ds) else int (num_of ds)) in
           if n < - max_int - 1 \<or> n > max_int then None else Some n)"

text \<open>The counter of an old launcher, of the entry \<open>name\<close>.\<close>

definition aside_number :: "string \<Rightarrow> string \<Rightarrow> int option" where
  "aside_number stem name =
     (case cut_prefix stem name of
        None \<Rightarrow> None
      | Some s \<Rightarrow> (case Atoi s of None \<Rightarrow> None | Some n \<Rightarrow> if n < 1 \<or> show_int n \<noteq> s then None else Some n))"

definition asides :: "string \<Rightarrow> (mem, string list) prog" where
  "asides path =
     attempt (ReadDir (Dir path)) (\<lambda>_. ret []) (\<lambda>entries.
       let found = List.map_filter (\<lambda>e. if isDir (inode e) then None
             else map_option (\<lambda>n. (n, Join [Dir path, iname e])) (aside_number (Base path @ AsideSuffix) (iname e))) entries in
       ret (map snd (stable_sort (\<lambda>a b. fst b < fst a) found)))"

definition nextAside :: "string \<Rightarrow> (mem, string) prog" where
  "nextAside path =
     bind (asides path) (\<lambda>existing.
       let n = (case existing of
           [] \<Rightarrow> 1
         | a # _ \<Rightarrow> (case cut_prefix (Base path @ AsideSuffix) (Base a) of
               None \<Rightarrow> (case Atoi (Base a) of None \<Rightarrow> 1 | Some i \<Rightarrow> if i = max_int then - max_int - 1 else i + 1)
             | Some s \<Rightarrow> (case Atoi s of None \<Rightarrow> 1 | Some i \<Rightarrow> if i = max_int then - max_int - 1 else i + 1)))
       in ret (path @ AsideSuffix @ show_int n))"

section \<open>Replacing\<close>

definition writeSynced :: "string \<Rightarrow> string \<Rightarrow> (mem, unit) prog" where
  "writeSynced name bs =
     bind (Create name LauncherMode) (\<lambda>w.
     attempt (Write w bs) (\<lambda>e. bind (ignore (Close w)) (\<lambda>_. bind (ignore (Remove name)) (\<lambda>_. throw e))) (\<lambda>_.
     attempt (Sync w) (\<lambda>e. bind (ignore (Close w)) (\<lambda>_. bind (ignore (Remove name)) (\<lambda>_. throw e))) (\<lambda>_.
     attempt (Close w) (\<lambda>e. bind (ignore (Remove name)) (\<lambda>_. throw e)) (\<lambda>_. ret ()))))"

text \<open>The old launcher out of the way: its new name, or none if there was no launcher.\<close>

definition move_aside :: "string \<Rightarrow> string \<Rightarrow> (mem, string) prog" where
  "move_aside path tmp =
     attempt (Lstat path)
       (\<lambda>e. if IsNotExist e then ret [] else bind (ignore (Remove tmp)) (\<lambda>_. throw e))
       (\<lambda>_. bind (nextAside path) (\<lambda>aside.
          attempt (Rename path aside) (\<lambda>e. bind (ignore (Remove tmp)) (\<lambda>_. throw e)) (\<lambda>_. ret aside)))"

definition ReplaceAside :: "(string \<Rightarrow> (mem, unit) prog) option \<Rightarrow> string \<Rightarrow> string \<Rightarrow> (mem, unit) prog" where
  "ReplaceAside cleanup path bs =
     (let tmp = path @ NewSuffix in
      bind (writeSynced tmp bs) (\<lambda>_.
      bind (move_aside path tmp) (\<lambda>aside.
      attempt (Rename tmp path)
        (\<lambda>e. bind (if aside \<noteq> [] then attempt (Rename aside path) (\<lambda>rerr. throw (rerr @ e)) ret else ret ()) (\<lambda>_.
              bind (ignore (Remove tmp)) (\<lambda>_. throw e)))
        (\<lambda>_. bind (SyncDir (Dir path)) (\<lambda>_.
             if aside \<noteq> [] then
               attempt (Remove aside) (\<lambda>_. case cleanup of None \<Rightarrow> ret () | Some c \<Rightarrow> c aside) ret
             else ret ())))))"

section \<open>Repairing\<close>

text \<open>Whether a launcher was put back, and the error beside it.\<close>

definition Repair :: "string \<Rightarrow> (mem, bool \<times> error option) prog" where
  "Repair path =
     bind (asides path) (\<lambda>old.
     attempt (Lstat path)
       (\<lambda>e. if \<not> IsNotExist e then ret (False, Some e)
            else (case old of
                [] \<Rightarrow> ret (False, None)
              | newest # _ \<Rightarrow> attempt (Rename newest path) (\<lambda>e. ret (False, Some e)) (\<lambda>_.
                  attempt (SyncDir (Dir path)) (\<lambda>e. ret (True, Some e)) (\<lambda>_. ret (True, None)))))
       (\<lambda>info. if \<not> IsRegular (inode info) then ret (False, None)
          else bind (for_each old (\<lambda>name. ignore (Remove name))) (\<lambda>_.
               attempt (Lstat (path @ NewSuffix)) (\<lambda>_. ret (False, None))
                 (\<lambda>_. bind (ignore (Remove (path @ NewSuffix))) (\<lambda>_. ret (False, None))))))"

end
