(* ===== verification/LaunchStart.thy ===== *)
theory LaunchStart
  imports LaunchProbation Launcherfile
begin

text \<open>
  \<open>core/launch/launch.go\<close> and \<open>self.go\<close>: a start of the application.  What the OS integrations make of it is a
  parameter, and so is the strategy that replaces a launcher, which the platform chooses; the events for an
  observer are left out.  \<open>Start\<close> returns a result beside its error.
\<close>

record StartOptions = Options +
  o_retain :: int
  o_self :: string
  o_registry :: "(mem, unit) prog option"
  o_replace :: "string \<Rightarrow> string \<Rightarrow> (mem, unit) prog"
  o_sort :: slice_sort

record StartResult =
  st_recovered :: bool
  st_applied :: bool
  st_replaced :: bool
  st_restored :: bool
  st_selfErr :: "error option"
  st_integrateErr :: "error option"
  st_probation :: ProbationResult
  st_skipped :: bool
  st_from :: string
  st_to :: string

definition no_start :: StartResult where
  "no_start = \<lparr> st_recovered = False, st_applied = False, st_replaced = False, st_restored = False, st_selfErr = None,
     st_integrateErr = None, st_probation = no_probation, st_skipped = False, st_from = [], st_to = [] \<rparr>"

text \<open>The update that waits for a start: name and versions.\<close>

definition Waiting :: "string \<Rightarrow> (mem, (string \<times> string \<times> string) option) prog" where
  "Waiting root =
     (if root = [] then throw [ErrLaunch]
      else bind (Open_journal root) (\<lambda>j.
        case Last j of
          None \<Rightarrow> ret None
        | Some lst \<Rightarrow> if State lst \<noteq> StateDeferred then ret None else ret (Some (Name lst, FromVersion lst, ToVersion lst))))"

section \<open>The launcher itself\<close>

definition maxLauncherBytes :: int where "maxLauncherBytes = 67108864"

definition dropStaged :: "string \<Rightarrow> string \<Rightarrow> (mem, unit) prog" where
  "dropStaged root nxt = bind (ignore (Remove nxt)) (\<lambda>_. ignore (SyncDir (LauncherNextDir root)))"

definition readExactly :: "string \<Rightarrow> int \<Rightarrow> (mem, string) prog" where
  "readExactly name len =
     bind (wrap ErrLaunch (ReadFile name len)) (\<lambda>bs. if int (length bs) \<noteq> len then throw [ErrLaunch] else ret bs)"

text \<open>The regular file staged for this launcher: its length, none if nothing is staged.\<close>

definition staged_launcher :: "string \<Rightarrow> string \<Rightarrow> (mem, int option) prog" where
  "staged_launcher root nxt =
     attempt (Lstat (LauncherNextDir root)) (\<lambda>e. if IsNotExist e then ret None else throw (ErrLaunch # e)) (\<lambda>dirInfo.
       if \<not> isDir (inode dirInfo) \<or> isSymlink (inode dirInfo) then throw [ErrSelfRefused, ErrLaunch]
       else attempt (Lstat nxt) (\<lambda>e. if IsNotExist e then ret None else throw (ErrLaunch # e)) (\<lambda>info.
         let len = int (length (data (inode info))) in
         if \<not> IsRegular (inode info) then throw [ErrSelfRefused, ErrLaunch]
         else if len \<le> 0 \<or> len > maxLauncherBytes then throw [ErrSelfRefused, ErrLaunch]
         else ret (Some len)))"

text \<open>Whether the launcher at \<open>self\<close> already is the staged one.\<close>

definition already_swapped :: "string \<Rightarrow> string \<Rightarrow> (mem, bool) prog" where
  "already_swapped self bs =
     attempt (Lstat self) (\<lambda>e. if IsNotExist e then ret False else throw (ErrLaunch # e)) (\<lambda>cur.
       if \<not> IsRegular (inode cur) then throw [ErrSelfRefused, ErrLaunch]
       else if length (data (inode cur)) \<noteq> length bs then ret False
       else bind (readExactly self (int (length (data (inode cur))))) (\<lambda>have_bs. ret (have_bs = bs)))"

definition updateSelf :: "StartOptions \<Rightarrow> (mem, bool) prog" where
  "updateSelf opts =
     (if o_self opts = [] then ret False
      else let self = Clean_path (o_self opts); root = o_root opts in
        case LauncherNext root (Base self) of
          Inl _ \<Rightarrow> ret False
        | Inr nxt \<Rightarrow>
            bind (staged_launcher root nxt) (\<lambda>s. case s of
                None \<Rightarrow> ret False
              | Some len \<Rightarrow>
                  if Dir self \<noteq> Clean_path root then throw [ErrSelfRefused, ErrLaunch]
                  else bind (readExactly nxt len) (\<lambda>bs.
                  bind (already_swapped self bs) (\<lambda>done_before.
                  if done_before then bind (dropStaged root nxt) (\<lambda>_. ret False)
                  else attempt (o_replace opts self bs)
                         (\<lambda>e. throw (if is_err ErrPermission e then ErrSelfNotWritable # ErrLaunch # e else ErrLaunch # e))
                         (\<lambda>_. bind (dropStaged root nxt) (\<lambda>_. ret True))))))"

definition selfUpdate :: "StartOptions \<Rightarrow> StartResult \<Rightarrow> (mem, StartResult) prog" where
  "selfUpdate opts res =
     (case st_selfErr res of
        Some _ \<Rightarrow> ret res
      | None \<Rightarrow> attempt (updateSelf opts)
          (\<lambda>e. ret (res\<lparr>st_replaced := False, st_selfErr := Some e\<rparr>))
          (\<lambda>replaced. ret (res\<lparr>st_replaced := replaced, st_selfErr := None\<rparr>)))"

definition reconcile :: "StartOptions \<Rightarrow> StartResult \<Rightarrow> (mem, StartResult) prog" where
  "reconcile opts res =
     (case o_registry opts of
        None \<Rightarrow> ret res
      | Some refresh \<Rightarrow> attempt refresh (\<lambda>e. ret (res\<lparr>st_integrateErr := Some (ErrLaunch # e)\<rparr>)) (\<lambda>_. ret res))"

section \<open>A start\<close>

definition start_probation :: "StartOptions \<Rightarrow> bool \<Rightarrow> StartResult \<Rightarrow> (mem, StartResult) prog" where
  "start_probation opts locked res =
     bind (probation (Options.truncate opts) locked) (\<lambda>pr. ret (res\<lparr>st_probation := pr\<rparr>))"

definition finish_start :: "StartOptions \<Rightarrow> bool \<Rightarrow> StartResult \<Rightarrow> (mem, StartResult) prog" where
  "finish_start opts locked res =
     bind (start_probation opts locked res) (\<lambda>r. bind (selfUpdate opts r) (reconcile opts))"

text \<open>What comes back from a start: the result, and the error beside it.\<close>

type_synonym started = "StartResult \<times> error option"

definition repair_self :: "StartOptions \<Rightarrow> (mem, bool \<times> error option) prog" where
  "repair_self opts =
     (if o_self opts \<noteq> [] \<and> Dir (Clean_path (o_self opts)) = Clean_path (o_root opts) then
        bind (Repair (Clean_path (o_self opts))) (\<lambda>(restored, err). ret (restored, map_option (\<lambda>e. ErrLaunch # e) err))
      else ret (False, None))"

text \<open>Finishing the update that waited; \<open>locked\<close> says whether this start holds the application lock.\<close>

definition resume :: "StartOptions \<Rightarrow> error option \<Rightarrow> int \<Rightarrow> bool \<Rightarrow> StartResult \<Rightarrow> (mem, started) prog" where
  "resume opts ctxErr retain locked res =
     attempt (ResumeDeferred (o_form opts) ctxErr (o_root opts) (o_migrate opts)
         (Some (\<lambda>version. bind (lift (VersionDir (o_root opts) version)) (\<lambda>dir. Swap (o_form opts) (o_root opts) dir))))
       (\<lambda>e. ret (res, Some e))
       (\<lambda>fin. let res' = res\<lparr>st_applied := Completed fin\<rparr> in
          attempt (GC (o_sort opts) (o_form opts) (o_root opts) retain)
            (\<lambda>e. if is_err ErrIncompleteGC e then bind (finish_start opts locked res') (\<lambda>r. ret (r, None)) else ret (res', Some e))
            (\<lambda>_. bind (finish_start opts locked res') (\<lambda>r. ret (r, None))))"

text \<open>With an update waiting: nothing is finished while the application runs.\<close>

definition start_deferred :: "StartOptions \<Rightarrow> error option \<Rightarrow> int \<Rightarrow> StartResult \<Rightarrow> (mem, started) prog" where
  "start_deferred opts ctxErr retain res =
     (case o_lock opts of
        None \<Rightarrow> resume opts ctxErr retain False res
      | Some l \<Rightarrow> attempt (TryLock l) (\<lambda>e. ret (res, Some e)) (\<lambda>held.
          if held then bind (resume opts ctxErr retain True res) (\<lambda>out. bind (ignore (Unlock l)) (\<lambda>_. ret out))
          else bind (start_probation opts False (res\<lparr>st_skipped := True\<rparr>)) (\<lambda>r.
               bind (reconcile opts r) (\<lambda>r'. ret (r', None)))))"

definition Start :: "StartOptions \<Rightarrow> error option \<Rightarrow> (mem, started) prog" where
  "Start opts ctxErr =
     (let retain = (if o_retain opts = 0 then MinRetain else o_retain opts) in
      if o_root opts = [] \<or> retain < MinRetain then ret (no_start, Some [ErrLaunch])
      else bind (repair_self opts) (\<lambda>(restored, repairErr).
        let start = no_start\<lparr>st_restored := restored, st_selfErr := repairErr\<rparr> in
        attempt (RecoverResult (o_form opts) (o_root opts) (o_migrate opts)) (\<lambda>e. ret (start, Some e)) (\<lambda>rec.
          let res = start\<lparr>st_recovered := Recovered rec, st_from := rFrom rec, st_to := rTo rec\<rparr> in
          if \<not> Deferred rec then bind (finish_start opts False res) (\<lambda>r. ret (r, None))
          else start_deferred opts ctxErr retain res)))"

end
