(* ===== verification/Timefloor.thy ===== *)
theory Timefloor
  imports Probation
begin

text \<open>
  \<open>core/timefloor/timefloor.go\<close>: the known-good time of an installation, below which its clock is not believed.
  What \<open>encoding/json\<close> and \<open>time.Time\<close> make of the contents of \<open>clock.json\<close> is the parameter \<open>clock_of\<close>: the schema
  version and the instant, or an error.
\<close>

type_synonym clock_reader = "string \<Rightarrow> (int \<times> time) result"

record Floor =
  fl_root :: string
  fl_build :: time

definition FloorSchema :: int where "FloorSchema = 1"
definition FloorMaxLen :: int where "FloorMaxLen = 4096"

definition to_second :: "time \<Rightarrow> time" where
  "to_second t = t div 1000000000 * 1000000000"

definition floor_json :: "time \<Rightarrow> json result" where
  "floor_json t = map_sum id (\<lambda>at. JObj [(''schema_version'', num FloorSchema), (''known_good'', at)]) (time_json t)"

definition read_floor :: "clock_reader \<Rightarrow> Floor \<Rightarrow> (mem, time) prog" where
  "read_floor clock_of f =
     attempt (ReadFile (Clock (fl_root f)) FloorMaxLen)
       (\<lambda>e. if IsNotExist e then ret 0 else throw (ErrFloor # e))
       (\<lambda>raw. case clock_of raw of
          Inl e \<Rightarrow> throw (ErrFloor # e)
        | Inr (schema, good) \<Rightarrow>
            if schema \<noteq> FloorSchema then throw [ErrFloor]
            else if IsZero good then throw [ErrFloor]
            else ret (to_second good))"

definition KnownGood :: "clock_reader \<Rightarrow> Floor \<Rightarrow> (mem, time) prog" where
  "KnownGood clock_of f =
     bind (read_floor clock_of f) (\<lambda>stored. ret (if stored > fl_build f then stored else to_second (fl_build f)))"

definition Floor_Check :: "clock_reader \<Rightarrow> Floor \<Rightarrow> time \<Rightarrow> (mem, unit) prog" where
  "Floor_Check clock_of f t =
     bind (KnownGood clock_of f) (\<lambda>good.
       if IsZero good then ret () else if t < good then throw [ErrClockRollback] else ret ())"

definition Observe :: "clock_reader \<Rightarrow> Floor \<Rightarrow> time \<Rightarrow> (mem, unit) prog" where
  "Observe clock_of f t0 =
     (let t = to_second t0 in
      bind (read_floor clock_of f) (\<lambda>stored.
      if t \<le> stored then ret ()
      else (case floor_json t of
          Inl e \<Rightarrow> throw (ErrFloor # e)
        | Inr j \<Rightarrow>
            bind (wrap ErrFloor (MkdirAll (Meta (fl_root f)) DirMode)) (\<lambda>_.
            wrap ErrFloor (WriteFileAtomic (Clock (fl_root f)) (MarshalIndent j @ [byte 10]) MetaFileMode)))))"

end
