(* ===== verification/ClockLaws.thy ===== *)
theory ClockLaws
  imports Timefloor Pointer
begin

text \<open>
  The floor under the clock only rises: what it is after a time was observed, whatever calls fail, and which clocks it refuses.
\<close>

abbreviation clock_key :: "string list \<Rightarrow> string" where "clock_key rs \<equiv> abs_path ((rs @ [MetaName]) @ [ClockName])"

lemma clock_path: "simples rs \<Longrightarrow> Clock (abs_path rs) = clock_key rs"
  by (simp add: Clock_def Join_abs)

text \<open>The floor file holds the instant \<open>s\<close>; none is the beginning of time.\<close>

definition floor_at :: "clock_reader \<Rightarrow> string list \<Rightarrow> time \<Rightarrow> (string \<Rightarrow> memNode option) \<Rightarrow> bool" where
  "floor_at clock_of rs s f \<longleftrightarrow> (case f (clock_key rs) of
     None \<Rightarrow> s = 0
   | Some n \<Rightarrow> plain_file (Some n) \<and> int (length (data n)) \<le> FloorMaxLen \<and>
       (\<exists>g. clock_of (data n) = Inr (FloorSchema, g) \<and> 0 < g \<and> s = to_second g))"

lemma read_floor_plain:
  assumes "dirs_tab f (rs @ [MetaName])" "floor_at clock_of rs s f" "honest m0"
  shows "triple (tab m0 f) (read_floor clock_of \<lparr> fl_root = abs_path rs, fl_build = b \<rparr>) (\<lambda>x m. x = s \<and> tab m0 f m) (\<lambda>_ m. tab m0 f m \<and> hooked m0)"
proof -
  have sr: "simples rs" using assms(1) by (simp add: dirs_tab_def)
  have pl: "plain_file (f (clock_key rs))" using assms(2) by (auto simp: floor_at_def plain_file_def split: option.splits)
  have rd: "triple (tab m0 f) (ReadFile (clock_key rs) FloorMaxLen) (\<lambda>bs m. tab m0 f m \<and> (\<exists>n. f (clock_key rs) = Some n \<and> bs = data n))
      (\<lambda>e m. tab m0 f m \<and> (IsNotExist e \<and> f (clock_key rs) = None \<or> \<not> IsNotExist e \<and> hooked m0))"
    using assms(2,3) by (intro triple_weaken [OF ReadFile_plain [OF assms(1) _ refl _ pl]])
      (auto simp: FloorMaxLen_def floor_at_def honest_def IsNotExist_def intro: hook_err_hooked)
  show ?thesis
    unfolding read_floor_def Floor.simps clock_path [OF sr]
    by (rule triple_attempt [OF rd]) (use assms(2) in \<open>auto simp: triple_def ret_def throw_def floor_at_def IsZero_def split: option.splits\<close>)
qed

text \<open>What the floor makes of a clock.\<close>

definition known_good :: "time \<Rightarrow> time \<Rightarrow> time" where
  "known_good s b = (if s > b then s else to_second b)"

lemma Floor_Check_plain:
  assumes "dirs_tab (node_at m) (rs @ [MetaName])" "floor_at clock_of rs s (node_at m)" "\<not> hooked m"
  shows "fst (Floor_Check clock_of \<lparr> fl_root = abs_path rs, fl_build = b \<rparr> x m) =
    (if known_good s b \<noteq> 0 \<and> x < known_good s b then Inl [ErrClockRollback] else Inr ())"
proof -
  have "fst (read_floor clock_of \<lparr> fl_root = abs_path rs, fl_build = b \<rparr> m) = Inr s"
    using read_floor_plain [OF assms(1,2) not_hooked_honest [OF assms(3)]] by (rule run_unhooked) (use assms(3) in auto)
  then show ?thesis
    by (cases "read_floor clock_of \<lparr> fl_root = abs_path rs, fl_build = b \<rparr> m")
      (auto simp: Floor_Check_def KnownGood_def known_good_def IsZero_def bind_def attempt_def ret_def throw_def)
qed

text \<open>What \<open>Observe\<close> writes, and that it is read back: the contract of \<open>encoding/json\<close> for the one document.\<close>

definition floor_bytes :: "json \<Rightarrow> string" where
  "floor_bytes j = MarshalIndent j @ [byte 10]"

definition reads_back :: "clock_reader \<Rightarrow> time \<Rightarrow> bool" where
  "reads_back clock_of t \<longleftrightarrow> (case floor_json t of Inl _ \<Rightarrow> False
     | Inr j \<Rightarrow> clock_of (floor_bytes j) = Inr (FloorSchema, t) \<and> int (length (floor_bytes j)) \<le> FloorMaxLen)"

lemma to_second_idem [simp]: "to_second (to_second t) = to_second t"
  by (simp add: to_second_def)

lemma Observe_triple:
  assumes "meta_ok rs f" and "dirs_tab f (rs @ [MetaName])" and "floor_at clock_of rs s f" and "floor_json (to_second t) = Inr j"
    and "\<forall>k. plain_file (f (tmp_of (pid m) (clock_key rs) k))" and "honest m"
  defines "n \<equiv> file_node MetaFileMode (floor_bytes j)"
  shows "triple (tab m f) (Observe clock_of \<lparr> fl_root = abs_path rs, fl_build = b \<rparr> t)
    (\<lambda>_ m'. tab m f m' \<and> to_second t \<le> s \<or> written m f (clock_key rs) n m' \<and> s < to_second t)
    (\<lambda>_ m'. hooked m \<and> (tab m f m' \<or> unwritten m f (clock_key rs) m' \<or> written m f (clock_key rs) n m' \<and> s < to_second t))"
proof -
  let ?F = "\<lparr> fl_root = abs_path rs, fl_build = b \<rparr>" and ?t = "to_second t" and ?p = "clock_key rs"
  have sr: "simples rs" using assms(2) by (simp add: dirs_tab_def)
  have wd: "with_dir md (abs_path (rs @ [MetaName])) f = f" for md
    using assms(2) by (auto simp: with_dir_def dirs_tab_def dest!: spec [of _ "length (rs @ [MetaName])"])
  have nd: "\<not> isDir n" if "f ?p = Some n" for n using assms(3) that by (auto simp: floor_at_def plain_file_def)
  let ?Q = "\<lambda>m'. tab m f m' \<and> ?t \<le> s \<or> written m f ?p n m' \<and> s < ?t"
  let ?E = "\<lambda>m'. hooked m \<and> (tab m f m' \<or> unwritten m f ?p m' \<or> written m f ?p n m' \<and> s < ?t)"
  show ?thesis
    unfolding Observe_def Let_def assms(4) sum.case Floor.simps clock_path [OF sr] layout_paths(3) [OF sr] floor_bytes_def [symmetric]
  proof (rule triple_bind [where R = "\<lambda>x m'. tab m f m' \<and> x = s"])
    show "triple (tab m f) (read_floor clock_of ?F) (\<lambda>x m'. tab m f m' \<and> x = s) (\<lambda>_. ?E)"
      by (rule triple_weaken [OF read_floor_plain [OF assms(2,3,6)]]) auto
    show "triple (\<lambda>m'. tab m f m' \<and> x = s) (if ?t \<le> x then ret () else
        bind (wrap ErrFloor (MkdirAll (abs_path (rs @ [MetaName])) DirMode)) (\<lambda>_. wrap ErrFloor (WriteFileAtomic ?p (floor_bytes j) MetaFileMode)))
        (\<lambda>_. ?Q) (\<lambda>_. ?E)" for x
    proof (rule triple_fact, rule triple_if)
      assume x: "x = s" "\<not> ?t \<le> x"
      show "triple (tab m f) (bind (wrap ErrFloor (MkdirAll (abs_path (rs @ [MetaName])) DirMode)) (\<lambda>_.
          wrap ErrFloor (WriteFileAtomic ?p (floor_bytes j) MetaFileMode))) (\<lambda>_. ?Q) (\<lambda>_. ?E)"
        by (rule triple_weaken [OF write_meta_file [OF assms(1) _ refl refl nd]]) (use assms(5) x in \<open>auto simp: wd n_def\<close>)
    qed (auto intro: triple_ret)
  qed
qed

lemma floor_dirs:
  assumes "dirs_tab f (rs @ [MetaName])" and "\<And>q. q \<noteq> clock_key rs \<and> (\<forall>k. q \<noteq> tmp_of i (clock_key rs) k) \<Longrightarrow> g q = f q"
  shows "dirs_tab g (rs @ [MetaName])"
proof -
  have ss: "simples (rs @ [MetaName])" using assms(1) by (simp add: dirs_tab_def)
  have "g (abs_path (take l (rs @ [MetaName]))) = f (abs_path (take l (rs @ [MetaName])))" for l
  proof -
    have "abs_path (take l (rs @ [MetaName])) \<noteq> abs_path ((rs @ [MetaName]) @ [e])" if "simple e" for e
    proof -
      have "simples (take l (rs @ [MetaName]))" using ss by (meson in_set_takeD simples_def)
      moreover have "take l (rs @ [MetaName]) \<noteq> (rs @ [MetaName]) @ [e]" by (auto dest: arg_cong [where f = length])
      ultimately show ?thesis using abs_path_inj [of "take l (rs @ [MetaName])" "(rs @ [MetaName]) @ [e]"] ss that by auto
    qed
    then show ?thesis by (intro assms(2)) (unfold tmp_of_def abs_path_snoc, use simple_scratch in simp)
  qed
  then show ?thesis using assms(1) unfolding dirs_tab_def by presburger
qed

text \<open>
  C15.  The floor is a ratchet.  Whichever calls fail while a time \<open>t\<close> is observed, the floor file afterwards holds what it
  held or the complete new instant, so the floor never falls, and no other file but scratch files has changed.  If the
  call succeeds, which it does when no filesystem call fails, the floor is at least \<open>t\<close>, to the second; and from then on,
  in any later process with its own build time, exactly the clocks below the floor (or, above it, the build time) are
  refused as rolled back.
\<close>

theorem floor_ratchet:
  assumes "meta_ok rs (node_at m)" and "dirs_tab (node_at m) (rs @ [MetaName])" and "floor_at clock_of rs s (node_at m)" and "0 \<le> s"
    and "\<forall>k. plain_file (node_at m (tmp_of (pid m) (clock_key rs) k))" and "honest m" and "reads_back clock_of (to_second t)"
    and "Observe clock_of \<lparr> fl_root = abs_path rs, fl_build = b \<rparr> t m = (r, m')"
  shows "\<exists>s'. floor_at clock_of rs s' (node_at m') \<and> (s' = s \<or> s' = max s (to_second t)) \<and> (r = Inr () \<longrightarrow> s' = max s (to_second t)) \<and>
    (\<not> hooked m \<longrightarrow> r = Inr ()) \<and>
    (\<forall>q. q \<noteq> clock_key rs \<and> (\<forall>k. q \<noteq> tmp_of (pid m) (clock_key rs) k) \<longrightarrow> node_at m' q = node_at m q) \<and>
    (\<forall>i b' x. fst (Floor_Check clock_of \<lparr> fl_root = abs_path rs, fl_build = b' \<rparr> x (restarted i m')) =
       (if known_good s' b' \<noteq> 0 \<and> x < known_good s' b' then Inl [ErrClockRollback] else Inr ()))"
proof -
  let ?f = "node_at m" and ?F = "\<lparr> fl_root = abs_path rs, fl_build = b \<rparr>" and ?t = "to_second t" and ?p = "clock_key rs"
  obtain j where j: "floor_json ?t = Inr j" "clock_of (floor_bytes j) = Inr (FloorSchema, ?t)" "int (length (floor_bytes j)) \<le> FloorMaxLen"
    using assms(7) by (auto simp: reads_back_def split: sum.splits)
  let ?n = "file_node MetaFileMode (floor_bytes j)"
  let ?Q = "\<lambda>m'. tab m ?f m' \<and> ?t \<le> s \<or> written m ?f ?p ?n m' \<and> s < ?t"
  let ?E = "\<lambda>m'. hooked m \<and> (tab m ?f m' \<or> unwritten m ?f ?p m' \<or> written m ?f ?p ?n m' \<and> s < ?t)"
  have sr: "simples rs" using assms(2) by (simp add: dirs_tab_def)
  note tr = Observe_triple [OF assms(1-3) j(1) assms(5,6), of b]
  have tmp: "tmp_of (pid m) ?p k \<noteq> ?p" "?p \<noteq> tmp_of (pid m) ?p k" for k by (simp_all add: tmp_of_def scratch_suffix_def)
  have cong: "floor_at clock_of rs x g = floor_at clock_of rs x ?f" if "g ?p = ?f ?p" for g x using that by (simp add: floor_at_def)
  let ?D = "\<lambda>q. q \<noteq> ?p \<and> (\<forall>k. q \<noteq> tmp_of (pid m) ?p k)"
  let ?S = "\<lambda>s'. floor_at clock_of rs s' (node_at m') \<and> (\<forall>q. ?D q \<longrightarrow> node_at m' q = ?f q)"
  have old: "?S s" if "tab m ?f m' \<or> unwritten m ?f ?p m'"
  proof -
    have "node_at m' ?p = ?f ?p \<and> (\<forall>q. ?D q \<longrightarrow> node_at m' q = ?f q)" using that tmp by (auto simp: unwritten_def tab_def)
    then show ?thesis using assms(3) cong [of "node_at m'" s] by blast
  qed
  have new: "?S ?t" if "written m ?f ?p ?n m'" "s < ?t"
  proof -
    have "node_at m' ?p = Some ?n \<and> (\<forall>q. ?D q \<longrightarrow> node_at m' q = ?f q)" using that(1) by (auto simp: written_def tab_def)
    then show ?thesis using j that(2) assms(4) by (auto simp: floor_at_def)
  qed
  obtain s' where s': "?S s'" "s' = s \<or> s' = max s ?t" "r = Inr () \<longrightarrow> s' = max s ?t" "\<not> hooked m \<longrightarrow> r = Inr ()"
  proof (cases r)
    case (Inl e)
    then have "?E m'" using triple_Inl [OF tr tab_same] assms(8) by simp
    then show ?thesis using that [of s] that [of ?t] old new Inl by auto
  next
    case (Inr x)
    then have "?Q m'" using triple_Inr [OF tr tab_same] assms(8) by simp
    then show ?thesis using that [of s] that [of ?t] old new Inr by auto
  qed
  have "dirs_tab (node_at m') (rs @ [MetaName])" by (rule floor_dirs [OF assms(2)]) (use s'(1) in blast)
  then have "fst (Floor_Check clock_of \<lparr> fl_root = abs_path rs, fl_build = b' \<rparr> x (restarted i m')) =
       (if known_good s' b' \<noteq> 0 \<and> x < known_good s' b' then Inl [ErrClockRollback] else Inr ())" for i b' x
    using s'(1) by (intro Floor_Check_plain) simp_all
  then show ?thesis using s' by blast
qed

text \<open>An install without a floor, and the clock at five seconds past two weeks.\<close>

definition sample_clock :: time where "sample_clock = 1209605 * 1000000000"

definition sample_clock_of :: clock_reader where "sample_clock_of bs = Inr (FloorSchema, sample_clock)"

definition clock_disk :: mem where
  "clock_disk = NewMem\<lparr>nodes := [(''/'', dir_node 0x1ED), (''/.updater'', dir_node 0x1ED)]\<rparr>"

lemma clock_node: "node_at clock_disk q = (if q = ''/'' \<or> q = ''/.updater'' then Some (dir_node 0x1ED) else None)"
  by (simp add: node_at_def clock_disk_def)

lemma clock_disk_ok:
  "dirs_tab (node_at clock_disk) ([] @ [MetaName])" "meta_ok [] (node_at clock_disk)" "\<not> hooked clock_disk"
  "floor_at sample_clock_of [] 0 (node_at clock_disk)" "\<forall>k. plain_file (node_at clock_disk (tmp_of (pid clock_disk) (clock_key []) k))"
proof -
  have k: "abs_path [] = ''/''" "abs_path [MetaName] = ''/.updater''" "abs_path [MetaName, ClockName] = ''/.updater/clock.json''"
    by (simp_all add: abs_path_def layout_names)
  show d: "dirs_tab (node_at clock_disk) ([] @ [MetaName])"
    unfolding dirs_tab_def by (auto simp: le_Suc_eq k clock_node)
  have "wf_tab (node_at clock_disk)"
    unfolding wf_tab_def
  proof (intro allI impI)
    fix p q
    assume a: "p \<noteq> [] \<and> prefix (p @ ''/'') q \<and> node_at clock_disk q \<noteq> None"
    then have q: "q \<in> set [''/'', ''/.updater'']" by (auto simp: clock_node split: if_splits)
    have t: "list_all (\<lambda>q. list_all (\<lambda>p. p \<noteq> [] \<and> prefix (p @ ''/'') q \<longrightarrow> p \<in> {''/'', ''/.updater''}) (prefixes q)) [''/'', ''/.updater'']" by code_simp
    have "p \<in> set (prefixes q)" using a by (auto simp: in_set_prefixes dest: append_prefixD)
    then have "p \<in> {''/'', ''/.updater''}" using t a q unfolding list_all_iff by blast
    then show "\<exists>n. node_at clock_disk p = Some n \<and> isDir n" by (auto simp: clock_node)
  qed
  then show "meta_ok [] (node_at clock_disk)" using d by (auto simp: meta_ok_def dirs_tab_def k clock_node)
  show "\<not> hooked clock_disk" by (simp add: hooked_def clock_disk_def NewMem_def)
  show "floor_at sample_clock_of [] 0 (node_at clock_disk)" by (simp add: floor_at_def k clock_node)
  show "\<forall>k. plain_file (node_at clock_disk (tmp_of (pid clock_disk) (clock_key []) k))"
    by (simp add: k clock_node tmp_of_def scratch_suffix_def)
qed

theorem floor_ratchet_witness:
  "fst (Floor_Check sample_clock_of \<lparr> fl_root = ''/'', fl_build = 0 \<rparr> 1209604000000000
     (restarted 7 (snd (Observe sample_clock_of \<lparr> fl_root = ''/'', fl_build = 0 \<rparr> (sample_clock + 3) clock_disk)))) = Inl [ErrClockRollback]"
proof -
  have t: "to_second (sample_clock + 3) = sample_clock" by (simp add: to_second_def sample_clock_def)
  have "case floor_json sample_clock of Inl _ \<Rightarrow> False | Inr j \<Rightarrow> int (length (floor_bytes j)) \<le> FloorMaxLen" by code_simp
  then have rb: "reads_back sample_clock_of (to_second (sample_clock + 3))"
    unfolding t by (auto simp: reads_back_def sample_clock_of_def split: sum.splits)
  have r: "abs_path [] = ''/''" by (simp add: abs_path_def)
  show ?thesis
    using floor_ratchet [OF clock_disk_ok(2,1,4) _ clock_disk_ok(5) not_hooked_honest [OF clock_disk_ok(3)] rb, of 0
        "fst (Observe sample_clock_of \<lparr> fl_root = ''/'', fl_build = 0 \<rparr> (sample_clock + 3) clock_disk)"
        "snd (Observe sample_clock_of \<lparr> fl_root = ''/'', fl_build = 0 \<rparr> (sample_clock + 3) clock_disk)"] clock_disk_ok(3)
    unfolding t r by (auto simp: known_good_def to_second_def sample_clock_def)
qed

end
