(* ===== verification/Updater.thy ===== *)
theory Updater
  imports Planner Staging LaunchProbation Launcherfile Timefloor
begin

text \<open>
  \<open>core/updater\<close>: checking for a release and installing it (\<open>updater.go\<close>, \<open>apply.go\<close>, \<open>elevated.go\<close>, \<open>probation.go\<close>,
  \<open>launcher.go\<close>, \<open>errors.go\<close>).  The hooks are the host's code and act on the same world; the trust client answers
  by the number of filesystem calls made so far, and so do the context and the clock.  The events for an observer
  are left out.  A wait for the application polls its lock \<open>up_polls\<close> times before the deadline.
\<close>

section \<open>Configuration\<close>

definition ElevationNone :: int where "ElevationNone = 0"
definition ElevationInteractive :: int where "ElevationInteractive = 1"
definition ElevationService :: int where "ElevationService = 2"

definition BusyAbort :: int where "BusyAbort = 0"
definition BusyDeferToRestart :: int where "BusyDeferToRestart = 1"
definition BusyForce :: int where "BusyForce = 2"

definition DefaultProbationRestarts :: int where "DefaultProbationRestarts = 3"
definition DefaultQuiesceTimeout :: int where "DefaultQuiesceTimeout = 30000000000"

text \<open>\<open>updater.ProbationPolicy\<close>, what the host allows; \<open>release.ProbationPolicy\<close> is what a release asks for.\<close>

record HostProbation =
  hp_attempts :: int
  hp_restarts :: int
  hp_follow :: bool
  hp_max :: int

record UpdaterPolicy =
  pol_verify :: bool
  pol_retain :: int
  pol_elevation :: int
  pol_timeout :: int
  pol_onBusy :: int
  pol_probation :: HostProbation

record Outcome =
  out_from :: string
  out_to :: string
  out_os :: string
  out_arch :: string
  out_result :: string
  out_phase :: string
  out_class :: string
  out_at :: time

record 'h Updater =
  up_client :: Client
  up_form :: pointerForm
  up_root :: string
  up_clientID :: string
  up_sha256 :: "string \<Rightarrow> string"
  up_trust :: Materializer
  up_refresh :: "nat \<Rightarrow> unit result"
  up_latest :: "nat \<Rightarrow> string \<Rightarrow> string \<Rightarrow> string \<Rightarrow> Descriptor result"
  up_policies :: "(nat \<Rightarrow> string \<Rightarrow> string \<Rightarrow> string \<Rightarrow> Policy option result) option"
  up_history :: "'h History option"
  up_world :: "nat \<Rightarrow> 'h"
  up_inflate :: flate_reader
  up_sort :: slice_sort
  up_launcher :: Launcher
  up_clock_of :: clock_reader
  up_build :: time
  up_now :: "nat \<Rightarrow> time"
  up_polls :: nat
  up_check :: "(Context \<Rightarrow> (mem, unit) prog) option"
  up_migrate :: "Migrator option"
  up_prompt :: "(string \<Rightarrow> (mem, bool) prog) option"
  up_coordinate :: "(Context \<Rightarrow> (mem, unit) prog) option"
  up_report :: "(Outcome \<Rightarrow> (mem, unit) prog) option"
  up_lock :: "AppLock option"
  up_elevator :: "(string \<Rightarrow> Descriptor \<Rightarrow> (mem, unit) prog) option"
  up_registry :: "(mem, unit) prog option"
  up_outcome_of :: outcome_reader
  up_policy :: UpdaterPolicy

text \<open>\<open>ProbationPolicy.validate\<close>, which also fills in the default.\<close>

definition validate_host :: "int \<Rightarrow> bool \<Rightarrow> HostProbation \<Rightarrow> HostProbation result" where
  "validate_host elevation resolver p =
     (if hp_max p < 0 \<or> hp_max p > MaxProbationAttempts then Inl [ErrConfig]
      else if hp_attempts p = 0 \<and> \<not> hp_follow p then Inr p
      else if hp_follow p \<and> \<not> resolver then Inl [ErrConfig]
      else if hp_max p > 0 \<and> hp_attempts p > hp_max p then Inl [ErrConfig]
      else if hp_attempts p < 0 \<or> hp_attempts p > MaxProbationAttempts then Inl [ErrConfig]
      else let p' = (if hp_restarts p = 0 then p\<lparr>hp_restarts := DefaultProbationRestarts\<rparr> else p) in
        if hp_restarts p' < 0 \<or> hp_restarts p' > MaxProbationRestarts then Inl [ErrConfig]
        else if elevation \<noteq> ElevationNone then Inl [ErrConfig]
        else Inr p')"

text \<open>\<open>New\<close>, with a trust client, a filesystem and a platform given; the policy comes back with its defaults.\<close>

definition New_policy :: "'h Updater \<Rightarrow> UpdaterPolicy result" where
  "New_policy o' =
     (let p = up_policy o';
          retain = (if pol_retain p = 0 then MinRetain else pol_retain p);
          timeout = (if pol_timeout p = 0 then DefaultQuiesceTimeout else pol_timeout p) in
      if retain < MinRetain then Inl [ErrConfig]
      else if timeout < 0 then Inl [ErrConfig]
      else if pol_onBusy p \<notin> {BusyAbort, BusyDeferToRestart, BusyForce} then Inl [ErrConfig]
      else (case validate_host (pol_elevation p) (up_policies o' \<noteq> None) (pol_probation p) of
          Inl e \<Rightarrow> Inl e
        | Inr pr \<Rightarrow>
            if pol_elevation p = ElevationNone \<or>
               pol_elevation p \<in> {ElevationInteractive, ElevationService} \<and> up_elevator o' \<noteq> None
            then Inr (p\<lparr>pol_retain := retain, pol_timeout := timeout, pol_probation := pr\<rparr>)
            else Inl [ErrConfig]))"

definition New :: "'h Updater \<Rightarrow> 'h Updater result" where
  "New o' =
     (if up_root o' = [] then Inl [ErrConfig]
      else if u_channel (up_client o') = [] then Inl [ErrConfig]
      else (case Launcher_Validate (up_launcher o') of
          Inl e \<Rightarrow> Inl (ErrConfig # e)
        | Inr _ \<Rightarrow> (case New_policy o' of
            Inl e \<Rightarrow> Inl e
          | Inr p \<Rightarrow> Inr (o'\<lparr>up_policy := p\<rparr>))))"

section \<open>Reports\<close>

definition classNone :: string where "classNone = []"
definition classCancelled :: string where "classCancelled = ''cancelled''"
definition classClockSkew :: string where "classClockSkew = ''clock_skew''"
definition classNetwork :: string where "classNetwork = ''network''"
definition classVerify :: string where "classVerify = ''verify''"
definition classResolve :: string where "classResolve = ''resolve''"
definition classPolicy :: string where "classPolicy = ''policy''"
definition classBusy :: string where "classBusy = ''busy''"
definition classDeclined :: string where "classDeclined = ''declined''"
definition classCheck :: string where "classCheck = ''check''"
definition classMigrate :: string where "classMigrate = ''migrate''"
definition classDisk :: string where "classDisk = ''disk''"
definition classPermission :: string where "classPermission = ''permission''"
definition classConfig :: string where "classConfig = ''config''"
definition classElevation :: string where "classElevation = ''elevation''"
definition classUnknown :: string where "classUnknown = ''unknown''"

text \<open>The label of an error: the first class one of whose sentinels it carries; no error has the empty label.\<close>

definition classes :: "(sentinel list \<times> string) list" where
  "classes =
     [([ErrCanceled, ErrDeadline], classCancelled), ([ErrExpired, ErrClockRollback], classClockSkew), ([ErrNet], classNetwork),
      ([ErrDeclined, ErrElevateDeclined], classDeclined), ([ErrDeferred, ErrBusy], classBusy), ([ErrCheck], classCheck),
      ([ErrMigrate], classMigrate), ([ErrPolicy, ErrStale], classPolicy), ([ErrConfig], classConfig),
      ([ErrHelper, ErrRequest, ErrNotImplemented], classElevation), ([ErrVerify, ErrTrust], classVerify),
      ([ErrResolve], classResolve), ([ErrPermission], classPermission),
      ([ErrStage, ErrJournal, ErrLayout, ErrUnsafe, ErrNotExist, ErrExist], classDisk)]"

definition classify :: "error option \<Rightarrow> string" where
  "classify err =
     (case err of
        None \<Rightarrow> classNone
      | Some e \<Rightarrow> (case find (\<lambda>(ss, _). list_ex (\<lambda>s. is_err s e) ss) classes of
          None \<Rightarrow> classUnknown
        | Some (_, c) \<Rightarrow> c))"

text \<open>An error of the reporter changes nothing.\<close>

definition reportOutcome :: "'h Updater \<Rightarrow> Descriptor \<Rightarrow> string \<Rightarrow> string \<Rightarrow> string \<Rightarrow> string \<Rightarrow> (mem, unit) prog" where
  "reportOutcome u d frm result cls phase =
     (case up_report u of
        None \<Rightarrow> ret ()
      | Some report \<Rightarrow> bind now (\<lambda>k. ignore (report
          \<lparr> out_from = frm, out_to = ds_version d, out_os = u_goos (up_client u), out_arch = u_goarch (up_client u),
            out_result = result, out_phase = phase, out_class = cls, out_at = up_now u k \<rparr>)))"

section \<open>What is installed, and what may be\<close>

definition installedVersion :: "'h Updater \<Rightarrow> (mem, string) prog" where
  "installedVersion u = PointerTarget (up_form u) (up_root u)"

definition check_floor :: "'h Updater \<Rightarrow> (mem, unit) prog" where
  "check_floor u = bind now (\<lambda>k. Floor_Check (up_clock_of u) \<lparr> fl_root = up_root u, fl_build = up_build u \<rparr> (up_now u k))"

definition blocked :: "'h Updater \<Rightarrow> string \<Rightarrow> (mem, string) prog" where
  "blocked u version =
     bind (ReadProbation (up_root u)) (\<lambda>r. case r of
         None \<Rightarrow> ret []
       | Some p \<Rightarrow> (case pb_blocked p of
           None \<Rightarrow> ret []
         | Some b \<Rightarrow> ret (if bv_version b \<noteq> version then [] else bv_reason b)))"

text \<open>A question to the trust client's history, whose state at time \<open>k\<close> is \<open>up_world u k\<close>.\<close>

definition ask :: "'h Updater \<Rightarrow> ('h, 'a) prog \<Rightarrow> (mem, 'a) prog" where
  "ask u p = bind now (\<lambda>k. lift (fst (p (up_world u k))))"

definition bucket :: "(string \<Rightarrow> string) \<Rightarrow> string \<Rightarrow> string \<Rightarrow> nat" where
  "bucket sha256 clientID version =
     foldl (\<lambda>n c. 256 * n + of_char c) 0 (take 8 (sha256 (clientID @ char_of (0 :: nat) # version))) div 2 ^ 11"

text \<open>The fraction \<open>bucket / 2^53\<close> against the float of the descriptor.\<close>

definition inRollout :: "'h Updater \<Rightarrow> Descriptor \<Rightarrow> bool" where
  "inRollout u d =
     (case ds_rollout d of (m, e) \<Rightarrow>
        if m \<le> 0 \<or> (if e < 0 then 2 ^ nat (- e) \<le> m else 1 \<le> m) then True
        else if up_clientID u = [] then False
        else (let b = int (bucket (up_sha256 u) (up_clientID u) (ds_version d)) in
          if - 53 \<le> e then b < m * 2 ^ nat (e + 53) else b * 2 ^ nat (- e - 53) < m))"

section \<open>Probation\<close>

definition probationFor :: "'h Updater \<Rightarrow> Descriptor \<Rightarrow> (mem, int \<times> int) prog" where
  "probationFor u d =
     (let pol = pol_probation (up_policy u);
          fin = (\<lambda>attempts restarts.
            (if hp_max pol > 0 \<and> attempts > hp_max pol then hp_max pol else attempts,
             if restarts = 0 then DefaultProbationRestarts else restarts)) in
      if \<not> hp_follow pol then ret (fin (hp_attempts pol) (hp_restarts pol))
      else (case up_policies u of
          None \<Rightarrow> throw [ErrConfig]
        | Some resolver \<Rightarrow>
            bind (bind now (\<lambda>k. lift (resolver k (u_goos (up_client u)) (u_goarch (up_client u)) (ds_version d)))) (\<lambda>p.
              case Option.bind p po_probation of
                None \<Rightarrow> ret (fin (hp_attempts pol) (hp_restarts pol))
              | Some pp \<Rightarrow> ret (fin (pp_attempts pp) (if pp_restarts pp \<noteq> 0 then pp_restarts pp else hp_restarts pol)))))"

definition versionInstalled :: "'h Updater \<Rightarrow> string \<Rightarrow> (mem, bool) prog" where
  "versionInstalled u version =
     (case VersionDir (up_root u) version of
        Inl _ \<Rightarrow> ret False
      | Inr dir \<Rightarrow> attempt (Stat dir) (\<lambda>_. ret False) (\<lambda>_. ret True))"

text \<open>The record of the new version, given the one that is there.\<close>

definition next_probation :: "string \<Rightarrow> string \<Rightarrow> int \<Rightarrow> int \<Rightarrow> Probation" where
  "next_probation version installed attempts restarts =
     probation_zero\<lparr>pb_version := version, pb_previous := installed, pb_status := ProbationActive,
       pb_attempts_allowed := attempts, pb_restarts_allowed := restarts\<rparr>"

definition armProbation :: "'h Updater \<Rightarrow> string \<Rightarrow> Descriptor \<Rightarrow> (mem, unit) prog" where
  "armProbation u installed d =
     (if installed = [] then ret ()
      else bind (probationFor u d) (\<lambda>(attempts, restarts).
        if attempts = 0 then ret ()
        else let version = ds_version d; nxt = next_probation version installed attempts restarts in
          bind (ReadProbation (up_root u)) (\<lambda>r. case r of
              None \<Rightarrow> WriteProbation (up_root u) nxt
            | Some prev \<Rightarrow>
                if pb_status prev = ProbationReverting then throw [ErrStale]
                else if pb_status prev \<in> {ProbationActive, ProbationUnhealthy} \<and> pb_version prev = installed \<and> pb_previous prev \<noteq> version
                then bind (versionInstalled u (pb_previous prev)) (\<lambda>there.
                  WriteProbation (up_root u)
                    (nxt\<lparr>pb_blocked := pb_blocked prev, pb_previous := if there then pb_previous prev else installed\<rparr>))
                else WriteProbation (up_root u) (nxt\<lparr>pb_blocked := pb_blocked prev\<rparr>))))"

section \<open>Failed probations\<close>

text \<open>\<open>reportProbationOutcomes\<close>: each outcome the launcher left is offered to the reporter and removed once it is told;
  one that cannot be read is dropped, and an error ends the round.\<close>

definition PhaseProbation :: string where "PhaseProbation = ''probation''"

definition hook_outcome :: "ProbationOutcome \<Rightarrow> Outcome" where
  "hook_outcome o' =
     \<lparr> out_from = oc_from o', out_to = oc_to o', out_os = oc_os o', out_arch = oc_arch o', out_result = oc_result o',
       out_phase = PhaseProbation, out_class = oc_class o', out_at = oc_at o' \<rparr>"

fun report_outcomes :: "outcome_reader \<Rightarrow> string \<Rightarrow> (Outcome \<Rightarrow> (mem, unit) prog) \<Rightarrow> string list \<Rightarrow> (mem, unit) prog" where
  "report_outcomes outcome_of root report [] = ret ()"
| "report_outcomes outcome_of root report (nm # nms) =
     attempt (ReadProbationOutcome outcome_of root nm)
       (\<lambda>_. bind (ignore (RemoveProbationOutcome root nm)) (\<lambda>_. report_outcomes outcome_of root report nms))
       (\<lambda>o'. attempt (report (hook_outcome o')) (\<lambda>_. ret ()) (\<lambda>_.
          attempt (RemoveProbationOutcome root nm) (\<lambda>_. ret ()) (\<lambda>_. report_outcomes outcome_of root report nms)))"

definition reportProbationOutcomes :: "'h Updater \<Rightarrow> (mem, unit) prog" where
  "reportProbationOutcomes u =
     (case up_report u of
        None \<Rightarrow> ret ()
      | Some report \<Rightarrow>
          if pol_elevation (up_policy u) \<noteq> ElevationNone then ret ()
          else attempt (ProbationOutcomeNames (up_root u)) (\<lambda>_. ret ()) (report_outcomes (up_outcome_of u) (up_root u) report))"

end
