(* ===== verification/Apply.thy ===== *)
theory Apply
  imports Updater
begin

text \<open>
  \<open>core/updater/apply.go\<close>, \<open>elevated.go\<close> and \<open>launcher.go\<close>: the transaction, what surrounds it, and the two sides of an
  elevated update.  The transaction returns the phase it failed in, whether the application lock is held, and
  its error; its caller undoes, reports and unlocks.
\<close>

section \<open>Quiescence\<close>

definition hook_context :: "'h Updater \<Rightarrow> string \<Rightarrow> Descriptor \<Rightarrow> Context" where
  "hook_context u installed d =
     \<lparr> hc_from = installed, hc_to = ds_version d, hc_root = up_root u, hc_stage = Join [Staging (up_root u), ds_version d] \<rparr>"

definition check_err :: "(nat \<Rightarrow> error option) \<Rightarrow> (mem, unit) prog" where
  "check_err ctx = bind now (\<lambda>k. case ctx k of None \<Rightarrow> ret () | Some e \<Rightarrow> throw e)"

definition request_shutdown :: "'h Updater \<Rightarrow> Context \<Rightarrow> (mem, unit) prog" where
  "request_shutdown u hc = (case up_coordinate u of None \<Rightarrow> ret () | Some c \<Rightarrow> wrap ErrBusy (c hc))"

fun poll_lock :: "(nat \<Rightarrow> error option) \<Rightarrow> AppLock \<Rightarrow> nat \<Rightarrow> (mem, bool) prog" where
  "poll_lock ctx l 0 = ret False"
| "poll_lock ctx l (Suc n) =
     bind (check_err ctx) (\<lambda>_. bind (TryLock l) (\<lambda>held. if held then ret True else poll_lock ctx l n))"

definition on_busy :: "int \<Rightarrow> (mem, bool) prog" where
  "on_busy policy =
     (if policy = BusyAbort then throw [ErrBusy]
      else if policy = BusyDeferToRestart then throw [ErrDeferred]
      else if policy = BusyForce then ret False
      else throw [ErrConfig])"

text \<open>The result is whether the lock is held.\<close>

definition quiesce :: "'h Updater \<Rightarrow> (nat \<Rightarrow> error option) \<Rightarrow> Context \<Rightarrow> (mem, bool) prog" where
  "quiesce u ctx hc =
     (case up_lock u of
        None \<Rightarrow> bind (request_shutdown u hc) (\<lambda>_. ret False)
      | Some l \<Rightarrow> bind (TryLock l) (\<lambda>held.
          if held then ret True
          else bind (request_shutdown u hc) (\<lambda>_.
               bind (poll_lock ctx l (up_polls u)) (\<lambda>held.
               if held then ret True else on_busy (pol_onBusy (up_policy u))))))"

section \<open>Verification of what is installed\<close>

definition verifyFile :: "'h Updater \<Rightarrow> string \<Rightarrow> string \<Rightarrow> (mem, unit) prog" where
  "verifyFile u name target =
     bind (wrap ErrVerify (Open name)) (\<lambda>f. bind now (\<lambda>k.
       case snd (mt_verify (up_trust u) k target (file_stream f)) of Inl _ \<Rightarrow> throw [ErrVerify] | Inr _ \<Rightarrow> ret ()))"

definition verifyInstalled :: "'h Updater \<Rightarrow> (nat \<Rightarrow> error option) \<Rightarrow> Descriptor \<Rightarrow> string \<Rightarrow> (mem, unit) prog" where
  "verifyInstalled u ctx d versionDir =
     for_each (elems (ds_files d)) (\<lambda>f. bind (check_err ctx) (\<lambda>_.
       bind (lift (SanitizeDst (fr_dst f))) (\<lambda>dst. verifyFile u (Join [versionDir, dst]) (fr_target f))))"

section \<open>The transaction\<close>

text \<open>Phase, lock held, error; a step of the transaction that ends it when it fails.\<close>

type_synonym verdict = "string \<times> bool \<times> error option"

definition step :: "string \<Rightarrow> bool \<Rightarrow> (mem, 'a) prog \<Rightarrow> ('a \<Rightarrow> (mem, verdict) prog) \<Rightarrow> (mem, verdict) prog" where
  "step phase held p k = attempt p (\<lambda>e. ret (phase, held, Some e)) k"

definition txn_record :: "Descriptor \<Rightarrow> string \<Rightarrow> string \<Rightarrow> string \<Rightarrow> Record" where
  "txn_record d installed s phase =
     \<lparr> State = s, Name = ds_name d, FromVersion = installed, ToVersion = ds_version d, Phase = phase \<rparr>"

text \<open>After the commit nothing is undone: a launcher that cannot be promoted and a tree that will not go stay for later.\<close>

definition promote_and_clean :: "'h Updater \<Rightarrow> Descriptor \<Rightarrow> (mem, unit) prog" where
  "promote_and_clean u d =
     attempt (PromoteLauncher (up_root u) (ds_version d)) (\<lambda>_. ret ()) (\<lambda>_. ignore (RemoveAll (Staging (up_root u))))"

definition collect :: "'h Updater \<Rightarrow> bool \<Rightarrow> (mem, verdict) prog" where
  "collect u held =
     attempt (GC (up_sort u) (up_form u) (up_root u) (pol_retain (up_policy u)))
       (\<lambda>e. ret (if is_err ErrIncompleteGC e then ([], held, None) else (PhaseGC, held, Some e)))
       (\<lambda>_. ret ([], held, None))"

text \<open>From the new tree in place to the commit.\<close>

definition install_staged ::
    "'h Updater \<Rightarrow> (nat \<Rightarrow> error option) \<Rightarrow> Descriptor \<Rightarrow> string \<Rightarrow> Journal \<Rightarrow> string \<Rightarrow> bool \<Rightarrow> (mem, verdict) prog" where
  "install_staged u ctx d installed j versionDir held =
     step PhaseMigrate held
       (case up_migrate u of None \<Rightarrow> ret () | Some mg \<Rightarrow> wrap ErrMigrate (Migrate mg (hook_context u installed d))) (\<lambda>_.
     step PhaseMigrate held (Append j (txn_record d installed StateMigrated PhaseMigrate)) (\<lambda>j1.
     step PhaseApply held (Swap (up_form u) (up_root u) versionDir) (\<lambda>_.
     step PhaseApply held (Append j1 (txn_record d installed StateSwapped PhaseApply)) (\<lambda>j2.
     step PhaseVerify held (if pol_verify (up_policy u) then verifyInstalled u ctx d versionDir else ret ()) (\<lambda>_.
     step PhaseCommit held (WriteInstall (up_root u)
         \<lparr> in_schema = 0, in_name = ds_name d, in_version = ds_version d, in_layout = ds_layout d \<rparr>) (\<lambda>_.
     step PhaseCommit held (Append j2 (txn_record d installed StateCommitted PhaseCommit)) (\<lambda>_.
     bind (promote_and_clean u d) (\<lambda>_. collect u held))))))))"

text \<open>From BEGIN to the staged tree; an application that stays busy may defer the rest.\<close>

definition transaction ::
    "'h Updater \<Rightarrow> (nat \<Rightarrow> error option) \<Rightarrow> Descriptor \<Rightarrow> string \<Rightarrow> Journal \<Rightarrow> (mem, verdict) prog" where
  "transaction u ctx d installed j =
     step PhaseCheck False (Append j (txn_record d installed StateBegin PhaseCheck)) (\<lambda>j1.
     step PhaseStage False
       (bind (ask u (Planner.route (up_history u) d installed)) (\<lambda>routes.
          Stage (Some (up_trust u)) (up_inflate u) (up_form u) ctx (up_root u) (up_launcher u) (Some d) routes)) (\<lambda>versionDir.
     step PhaseStage False (Append j1 (txn_record d installed StateStaged PhaseStage)) (\<lambda>j2.
     attempt (quiesce u ctx (hook_context u installed d))
       (\<lambda>e. if is_err ErrDeferred e then
              attempt (Append j2 (txn_record d installed StateDeferred PhaseQuiesce))
                (\<lambda>rerr. ret (PhaseQuiesce, False, Some (e @ rerr))) (\<lambda>_. ret (PhaseQuiesce, False, Some e))
            else ret (PhaseQuiesce, False, Some e))
       (install_staged u ctx d installed j2 versionDir))))"

text \<open>What is refused before anything is changed: the installed version and the journal, if nothing is.\<close>

definition check_release :: "'h Updater \<Rightarrow> Descriptor \<Rightarrow> string \<Rightarrow> string \<Rightarrow> (mem, unit) prog" where
  "check_release u d frm installed =
     (if installed \<noteq> frm then throw [ErrStale]
      else if installed = ds_version d then throw [ErrStale]
      else bind (lift (applicable (up_client u) d installed)) (\<lambda>_.
           bind (blocked u (ds_version d)) (\<lambda>reason. if reason \<noteq> [] then throw [ErrPolicy, ErrBlocked] else ret ())))"

definition ask_host :: "'h Updater \<Rightarrow> Descriptor \<Rightarrow> string \<Rightarrow> (mem, unit) prog" where
  "ask_host u d installed =
     bind (case up_check u of None \<Rightarrow> ret () | Some c \<Rightarrow> wrap ErrCheck (c (hook_context u installed d))) (\<lambda>_.
     case up_prompt u of
       None \<Rightarrow> ret ()
     | Some confirm \<Rightarrow> bind (confirm (''Install '' @ ds_name d @ '' '' @ ds_version d @ '' now?'')) (\<lambda>ok.
         if ok then ret () else throw [ErrDeclined]))"

definition preflight :: "'h Updater \<Rightarrow> Descriptor \<Rightarrow> string \<Rightarrow> (mem, string \<times> Journal) prog" where
  "preflight u d frm =
     bind (installedVersion u) (\<lambda>installed.
     bind (check_release u d frm installed) (\<lambda>_.
     bind (ask_host u d installed) (\<lambda>_.
     bind (Open_journal (up_root u)) (\<lambda>j.
     bind (armProbation u installed d) (\<lambda>_. ret (installed, j))))))"

definition apply_txn :: "'h Updater \<Rightarrow> (nat \<Rightarrow> error option) \<Rightarrow> Descriptor \<Rightarrow> string \<Rightarrow> (mem, verdict) prog" where
  "apply_txn u ctx d frm =
     step PhaseCheck False (check_floor u) (\<lambda>_.
     step PhaseCheck False (RecoverResult (up_form u) (up_root u) (up_migrate u)) (\<lambda>rec.
     if Deferred rec \<and> rTo rec = ds_version d then ret (PhaseQuiesce, False, Some [ErrDeferred])
     else step PhaseCheck False (preflight u d frm) (\<lambda>(installed, j). transaction u ctx d installed j)))"

section \<open>One release\<close>

definition phaseIsTransactional :: "string \<Rightarrow> bool" where
  "phaseIsTransactional phase \<longleftrightarrow>
     phase \<in> {PhaseStage, PhaseQuiesce, PhaseMigrate, PhaseApply, PhaseVerify, PhaseCommit, PhaseGC}"

text \<open>Undoing a failed transaction: the result that is reported, and the error.\<close>

definition undo :: "'h Updater \<Rightarrow> string \<Rightarrow> error \<Rightarrow> (mem, string \<times> error) prog" where
  "undo u phase e =
     (if phaseIsTransactional phase then
        attempt (Rollback (up_form u) (up_root u) (up_migrate u)) (\<lambda>rb. ret (''aborted'', e @ rb)) (\<lambda>_. ret (''rolled_back'', e))
      else ret (''aborted'', e))"

text \<open>What comes of a release before anyone is told: the result, its phase, whether the lock is held, and the error.\<close>

definition settle_release ::
    "'h Updater \<Rightarrow> (nat \<Rightarrow> error option) \<Rightarrow> Descriptor \<Rightarrow> string \<Rightarrow> (mem, string \<times> string \<times> bool \<times> error option) prog" where
  "settle_release u ctx d frm =
     bind (apply_txn u ctx d frm) (\<lambda>(phase, held, err).
       case err of
         None \<Rightarrow> ret (''committed'', [], held, None)
       | Some e \<Rightarrow>
           if is_err ErrDeferred e then ret (''deferred'', phase, held, Some e)
           else bind (undo u phase e) (\<lambda>(result, e'). ret (result, phase, held, Some e')))"

definition release_lock :: "'h Updater \<Rightarrow> bool \<Rightarrow> (mem, unit) prog" where
  "release_lock u held =
     (if held then (case up_lock u of None \<Rightarrow> ret () | Some l \<Rightarrow> ignore (Unlock l)) else ret ())"

definition applyRelease :: "'h Updater \<Rightarrow> (nat \<Rightarrow> error option) \<Rightarrow> Descriptor \<Rightarrow> string \<Rightarrow> (mem, unit) prog" where
  "applyRelease u ctx d frm =
     bind (settle_release u ctx d frm) (\<lambda>(result, phase, held, err).
     bind (reportOutcome u d frm result (classify err) phase) (\<lambda>_.
     bind (release_lock u held) (\<lambda>_.
     case err of None \<Rightarrow> ret () | Some e \<Rightarrow> throw e)))"

section \<open>The releases on the way\<close>

definition plan :: "'h Updater \<Rightarrow> Descriptor \<Rightarrow> string \<Rightarrow> (mem, Descriptor list) prog" where
  "plan u d frm =
     attempt (check_floor u) (\<lambda>_. ret [d]) (\<lambda>_.
     attempt (RecoverResult (up_form u) (up_root u) (up_migrate u)) (\<lambda>_. ret [d]) (\<lambda>_.
     attempt (installedVersion u) (\<lambda>_. ret [d]) (\<lambda>installed.
     if installed \<noteq> frm \<or> installed = ds_version d then ret [d]
     else attempt (ask u (steps (up_client u) (up_history u) d installed)) (\<lambda>_. ret [d]) ret)))"

fun apply_walk :: "'h Updater \<Rightarrow> (nat \<Rightarrow> error option) \<Rightarrow> string \<Rightarrow> Descriptor list \<Rightarrow> (mem, unit) prog" where
  "apply_walk u ctx frm [] = ret ()"
| "apply_walk u ctx frm (d # ds) = bind (applyRelease u ctx d frm) (\<lambda>_. apply_walk u ctx (ds_version d) ds)"

text \<open>\<open>RepairLauncher\<close>, with the error beside the result; on the way into an update its error is only reported.\<close>

definition RepairLauncher :: "'h Updater \<Rightarrow> (mem, bool \<times> error option) prog" where
  "RepairLauncher u =
     (if l_name (up_launcher u) = [] \<or> pol_elevation (up_policy u) \<noteq> ElevationNone then ret (False, None)
      else Repair (Join [up_root u, l_name (up_launcher u)]))"

definition refreshIntegrations :: "'h Updater \<Rightarrow> (mem, unit) prog" where
  "refreshIntegrations u = (case up_registry u of None \<Rightarrow> ret () | Some refresh \<Rightarrow> ignore refresh)"

section \<open>An elevated update\<close>

text \<open>The unprivileged side reports and returns its errors.\<close>

definition guard ::
    "'h Updater \<Rightarrow> Descriptor \<Rightarrow> string \<Rightarrow> string \<Rightarrow> (mem, 'a) prog \<Rightarrow> ('a \<Rightarrow> (mem, 'b) prog) \<Rightarrow> (mem, 'b) prog" where
  "guard u d frm phase p k =
     attempt p (\<lambda>e. bind (reportOutcome u d frm ''aborted'' (classify (Some e)) phase) (\<lambda>_. throw e)) k"

definition applyElevated :: "'h Updater \<Rightarrow> (nat \<Rightarrow> error option) \<Rightarrow> Descriptor \<Rightarrow> string \<Rightarrow> (mem, unit) prog" where
  "applyElevated u ctx d frm =
     guard u d frm PhaseCheck (check_err ctx) (\<lambda>_.
     guard u d frm PhaseCheck (check_floor u) (\<lambda>_.
     guard u d frm PhaseCheck (installedVersion u) (\<lambda>installed.
     guard u d frm PhaseCheck (if installed \<noteq> frm \<or> installed = ds_version d then throw [ErrStale] else ret ()) (\<lambda>_.
     guard u d frm PhaseCheck (ask u (steps (up_client u) (up_history u) d installed)) (\<lambda>_.
     guard u d frm PhaseCheck (ask_host u d installed) (\<lambda>_.
     guard u d frm PhaseApply (case up_elevator u of None \<Rightarrow> throw [ErrConfig] | Some elevator \<Rightarrow> elevator (up_root u) d) (\<lambda>_.
     guard u d frm PhaseVerify (installedVersion u) (\<lambda>after.
     guard u d frm PhaseVerify (if after \<noteq> ds_version d then throw [ErrHelper] else ret ()) (\<lambda>_.
     reportOutcome u d frm ''committed'' classNone [])))))))))"

definition Updater_Apply :: "'h Updater \<Rightarrow> (nat \<Rightarrow> error option) \<Rightarrow> (Descriptor \<times> string) option \<Rightarrow> (mem, unit) prog" where
  "Updater_Apply u ctx r =
     (case r of
        None \<Rightarrow> throw [ErrConfig]
      | Some (d, frm) \<Rightarrow>
          if pol_elevation (up_policy u) \<noteq> ElevationNone then applyElevated u ctx d frm
          else bind (RepairLauncher u) (\<lambda>_.
               deferred (refreshIntegrations u) (bind (plan u d frm) (apply_walk u ctx frm))))"

section \<open>Checking for a release\<close>

text \<open>Nothing if there is nothing to install.\<close>

definition CheckForUpdate :: "'h Updater \<Rightarrow> (nat \<Rightarrow> error option) \<Rightarrow> (mem, (Descriptor \<times> string) option) prog" where
  "CheckForUpdate u ctx =
     bind (check_err ctx) (\<lambda>_.
     bind (reportProbationOutcomes u) (\<lambda>_.
     bind (check_floor u) (\<lambda>_.
     bind (bind now (\<lambda>k. lift (up_refresh u k))) (\<lambda>_.
     bind (if pol_elevation (up_policy u) = ElevationNone
           then bind now (\<lambda>k. Observe (up_clock_of u) \<lparr> fl_root = up_root u, fl_build = up_build u \<rparr> (up_now u k)) else ret ()) (\<lambda>_.
     bind (bind now (\<lambda>k. lift (up_latest u k (u_channel (up_client u)) (u_goos (up_client u)) (u_goarch (up_client u))))) (\<lambda>d.
     bind (installedVersion u) (\<lambda>installed.
     if installed = ds_version d then ret None
     else bind (blocked u (ds_version d)) (\<lambda>reason.
       if reason \<noteq> [] then ret None
       else bind (ask u (steps (up_client u) (up_history u) d installed)) (\<lambda>_.
         if \<not> inRollout u d then ret None else ret (Some (d, installed)))))))))))"

definition ApplyRequested :: "'h Updater \<Rightarrow> (nat \<Rightarrow> error option) \<Rightarrow> string \<Rightarrow> (mem, unit) prog" where
  "ApplyRequested u ctx version =
     (if pol_elevation (up_policy u) \<noteq> ElevationNone then throw [ErrConfig]
      else if version = [] then throw [ErrConfig]
      else bind (RepairLauncher u) (\<lambda>_.
        bind (CheckForUpdate u ctx) (\<lambda>rel. case rel of
          None \<Rightarrow> bind (installedVersion u) (\<lambda>installed. if installed = version then ret () else throw [ErrStale])
        | Some (d, frm) \<Rightarrow> if ds_version d \<noteq> version then throw [ErrStale] else Updater_Apply u ctx (Some (d, frm)))))"

text \<open>The helper's answer to a request for a root, a channel and a version; \<open>options\<close> is the host's, by root.\<close>

definition RequestApplier_Apply ::
    "string \<Rightarrow> (string \<Rightarrow> 'h Updater result) option \<Rightarrow> (nat \<Rightarrow> error option) \<Rightarrow> string \<Rightarrow> string \<Rightarrow> string \<Rightarrow> (mem, unit) prog" where
  "RequestApplier_Apply channel options ctx reqRoot reqChannel reqVersion =
     (case options of
        None \<Rightarrow> throw [ErrConfig]
      | Some opts \<Rightarrow>
          if channel = [] then throw [ErrConfig]
          else if reqChannel \<noteq> channel then throw [ErrPolicy]
          else bind (lift (opts reqRoot)) (\<lambda>o'.
            if pol_elevation (up_policy o') \<noteq> ElevationNone \<or> up_elevator o' \<noteq> None then throw [ErrConfig]
            else bind (lift (New (o'\<lparr>up_root := reqRoot, up_client := (up_client o')\<lparr>u_channel := channel\<rparr>\<rparr>))) (\<lambda>u.
              ApplyRequested u ctx reqVersion)))"

end
