(* ===== verification/UpdateSteps.thy ===== *)
theory UpdateSteps
  imports RollbackLaws StageSafe Apply
begin

text \<open>
  The steps of an update on an install tree: what each of them leaves, whichever filesystem calls fail.
\<close>

section \<open>Before the first record\<close>

text \<open>The keys that make an install tree, whatever its versions hold.\<close>

definition skeleton :: "update \<Rightarrow> string \<Rightarrow> bool" where
  "skeleton p q \<longleftrightarrow> (\<exists>i. q = abs_path (take i (meta_dir p)) \<or> q = abs_path (take i (versions_dir p))) \<or> q = current_key p"

text \<open>Two updates that differ in the trees they protect.\<close>

lemma snap_simps [simp]:
  "good_update (p\<lparr>u_snap := s\<rparr>) = good_update p" "base_ok (p\<lparr>u_snap := s\<rparr>) f = base_ok p f"
  "journal_at (p\<lparr>u_snap := s\<rparr>) f recs = journal_at p f recs" "of_update (p\<lparr>u_snap := s\<rparr>) r = of_update p r"
  "scratch_ok (p\<lparr>u_snap := s\<rparr>) f = scratch_ok p f" "pointer_ok (p\<lparr>u_snap := s\<rparr>) x v = pointer_ok p x v"
  "in_flight (p\<lparr>u_snap := s\<rparr>) v recs = in_flight p v recs" "sturdy (p\<lparr>u_snap := s\<rparr>) C = sturdy p C"
  "swept (p\<lparr>u_snap := s\<rparr>) f = swept p f" "skeleton (p\<lparr>u_snap := s\<rparr>) q = skeleton p q"
  by (simp_all add: good_update_def base_ok_def journal_at_def of_update_def fun_eq_iff scratch_ok_def pointer_ok_def
      in_flight_def sturdy_def swept_def skeleton_def)

text \<open>A table that differs in the versions and in the scratch and staging areas only; what is there now is to survive.\<close>

lemma inv_trees:
  assumes inv: "update_inv p v recs f" and same: "\<And>q. skeleton p q \<Longrightarrow> g q = f q" and wf: "wf_tab g"
    and sc: "scratch_ok p g" and pl: "plain_file (g (state_key p))"
    and stg: "\<And>n. g (staging_key p) = Some n \<Longrightarrow> isDir n \<and> \<not> isSymlink n" "g (pending_key p) = None"
    and jn: "plain_file (g (journal_key p))" "journal_at p g recs'"
  shows "update_inv (p\<lparr>u_snap := g\<rparr>) v recs' g"
proof -
  have d: "dirs_tab g ds" if "dirs_tab f ds" "\<And>i. skeleton p (abs_path (take i ds))" for ds
    using that same by (simp add: dirs_tab_def)
  have "dirs_tab g (meta_dir p)" "dirs_tab g (versions_dir p)"
    using inv by (auto intro!: d simp: update_inv_def base_ok_def skeleton_def)
  moreover have "points_to p g v"
    using inv ptr.points_cong [of g "u_root p" f "u_pf p" v] same [of "current_key p"] by (simp add: update_inv_def skeleton_def)
  ultimately show ?thesis
    using inv wf sc pl stg jn by (simp add: update_inv_def base_ok_def scratch_ok_def trees_ok_def)
qed

text \<open>An install on which an update can begin.\<close>

definition ready :: "update \<Rightarrow> (string \<Rightarrow> memNode option) \<Rightarrow> bool" where
  "ready p f \<longleftrightarrow> good_update p \<and> base_ok p f \<and> points_to p f (u_from p) \<and>
     (u_from p \<noteq> [] \<longrightarrow> (\<forall>q. in_tree (version_key_of p (u_from p)) q \<longrightarrow> f q = u_snap p q))"

lemma inv_begin:
  assumes rd: "ready p f" and r: "of_update p r" "acceptable r" "State r = StateBegin"
  shows "update_inv p (u_from p) [r] (f(journal_key p \<mapsto> file_node MetaFileMode (journal_bytes [r])))"
proof -
  let ?J = "journal_key p" and ?n = "file_node MetaFileMode (journal_bytes [r])"
  let ?g = "f(?J \<mapsto> ?n)"
  have g: "good_update p" and b: "base_ok p f" using rd by (simp_all add: ready_def)
  note s = update_simples [OF g] and k = meta_keys_distinct [OF g] and tp = scratch_place_tmp [OF g]
  have un: "?J \<noteq> q" if "protected p v q" for q v using meta_names_unprotected [OF g, of JournalName v] that by auto
  have keep: "?g q = f q" if "protected p [] q" for q using un [OF that] by auto
  have dirs: "dirs_tab ?g ds" if "dirs_tab f ds" "ds = meta_dir p \<or> ds = versions_dir p" for ds
  proof (rule dirs_tab_cong [OF that(1)], rule keep)
    show "protected p [] (abs_path (take i ds))" for i using that(2) unfolding protected_def by blast
  qed
  have nd: "\<not> isDir n" if "f ?J = Some n" for n using b that by (auto simp: base_ok_def plain_file_def)
  have wf: "wf_tab ?g"
    using b nd by (intro wf_tab_file [of f "meta_dir p" JournalName]) (auto simp: base_ok_def)
  have tmp: "tmp_of i (journal_key p) j \<noteq> ?J" "tmp_of i (state_key p) j \<noteq> ?J" "tmp_of i (current_key p) j \<noteq> ?J" for i j
    using scratch_unprotected(2) [OF g tp(1)] scratch_unprotected(2) [OF g tp(2)] scratch_unprotected(2) [OF g tp(3)]
    by (metis in_tree_self)+
  have cur: "?g (current_key p) = f (current_key p)" by (rule keep) (simp add: protected_def)
  have pt: "points_to p ?g w = points_to p f w" for w by (rule ptr.points_cong [where f = ?g and g = f and rs = "u_root p", OF cur])
  have tree: "?g q = f q" if "in_tree (version_key_of p (u_from p)) q" "u_from p \<noteq> []" for q
    by (rule keep) (use that in \<open>simp add: protected_def\<close>)
  have "u_from p \<noteq> u_to p" using g by (simp add: good_update_def)
  then have "\<not> points_to p ?g (u_to p)"
    unfolding pt using rd ptr.points_unique [of "u_pf p" f "u_root p" "u_from p" "u_to p"] unfolding ready_def by blast
  moreover have "?g q = u_snap p q" if "in_tree (version_key_of p (u_from p)) q" "u_from p \<noteq> []" for q
    using tree [OF that] rd that unfolding ready_def by simp
  ultimately have "trees_ok p ?g" unfolding trees_ok_def by blast
  moreover have "base_ok p ?g" using b dirs wf tmp k by (simp add: base_ok_def)
  moreover have "appended [r]"
    by (rule appended.more [OF appended.none r(2)]) (simp_all add: next_history_def r(3) MaxRecords_def)
  ultimately show ?thesis using rd g r(1) pt by (simp add: update_inv_def journal_at_def ready_def)
qed

lemma Append_begin:
  assumes rd: "ready p f0" and r: "of_update p r" "acceptable r" "State r = StateBegin"
    and j: "jroot j = abs_path (u_root p)" "next_history (records j) r = Inr [r]"
    and C: "sturdy p C" "C (f0(journal_key p \<mapsto> file_node MetaFileMode (journal_bytes [r])))"
  shows "triple (tab m0 f0) (Append j r) (\<lambda>j' m. j' = j\<lparr>records := [r]\<rparr> \<and> kept C m0 p (u_from p) [r] m)
    (\<lambda>_ m. (unwritten m0 f0 (journal_key p) m \<or> tab m0 f0 m \<or> kept C m0 p (u_from p) [r] m) \<and> hooked m0)"
proof -
  let ?J = "journal_key p" and ?n = "file_node MetaFileMode (journal_bytes [r])"
  note i = inv_begin [OF rd r]
  have g: "good_update p" and b: "base_ok p f0" using rd by (simp_all add: ready_def)
  have mo: "meta_ok (u_root p) f0" and wd: "with_dir md (abs_path (meta_dir p)) f0 = f0" for md
  proof -
    have d: "dirs_tab f0 (meta_dir p)" "wf_tab f0" using b by (simp_all add: base_ok_def)
    have "dirs_tab f0 (u_root p)" by (rule dirs_tab_parent [OF d(1)])
    then show "meta_ok (u_root p) f0" using d dirs_tab_end [OF d(1)] by (auto simp: meta_ok_def)
    show "with_dir md (abs_path (meta_dir p)) f0 = f0" using d(1) by (auto simp: with_dir_def dirs_tab_def dest!: spec [of _ "length (meta_dir p)"])
  qed
  have pl: "plain_file (f0 ?J)" "\<And>k. plain_file (f0 (tmp_of (pid m0) ?J k))" using b by (simp_all add: base_ok_def)
  have wk: "kept C m0 p (u_from p) [r] m" if w: "written m0 f0 ?J ?n m" for m
  proof -
    obtain k where k: "tab m0 (f0(tmp_of (pid m0) ?J k := None, ?J \<mapsto> ?n)) m" using w by (auto simp: written_def)
    have ne: "tmp_of (pid m0) ?J k \<noteq> ?J" by (simp add: tmp_of_def scratch_suffix_def)
    have e: "f0(tmp_of (pid m0) ?J k := None, ?J \<mapsto> ?n) = (f0(?J \<mapsto> ?n))(tmp_of (pid m0) ?J k := None)"
      by (rule fun_upd_twist [OF ne])
    have "tmp_key p (tmp_of (pid m0) ?J k) None" by (auto simp: tmp_key_def)
    from inv_tmp [OF i this] sturdy_tmp(1) [OF C(1) C(2) i plain_file_simps(1)] k [unfolded e] show ?thesis by (rule keptI)
  qed
  have wr: "triple (tab m0 f0) (bind (wrap ErrJournal (MkdirAll (abs_path (meta_dir p)) DirMode)) (\<lambda>_.
      wrap ErrJournal (WriteFileAtomic ?J (journal_bytes [r]) MetaFileMode)))
    (\<lambda>_. kept C m0 p (u_from p) [r]) (\<lambda>_ m. (unwritten m0 f0 ?J m \<or> tab m0 f0 m \<or> kept C m0 p (u_from p) [r] m) \<and> hooked m0)"
    using pl wk by (intro triple_weaken [OF write_meta_file [OF mo _ refl refl _ pl(2)]]) (auto simp: plain_file_def wd)
  have "Append j r = bind (bind (wrap ErrJournal (MkdirAll (abs_path (meta_dir p)) DirMode)) (\<lambda>_.
      wrap ErrJournal (WriteFileAtomic ?J (journal_bytes [r]) MetaFileMode))) (\<lambda>_. ret (j\<lparr>records := [r]\<rparr>))"
    using r(2) j by (auto simp: Append_def acceptable_def layout_paths [OF root_path [OF g]] bind_bind MaxRecords_def)
  then show ?thesis by (simp only:) (rule triple_bind [OF wr], rule triple_ret, simp)
qed

section \<open>Staging\<close>

text \<open>Only the staging area and the directory of the new version have changed.\<close>

definition staged :: "update \<Rightarrow> (string \<Rightarrow> memNode option) \<Rightarrow> (string \<Rightarrow> memNode option) \<Rightarrow> bool" where
  "staged p f g \<longleftrightarrow> wf_tab g \<and> (\<forall>n. g (staging_key p) = Some n \<longrightarrow> isDir n \<and> \<not> isSymlink n) \<and> g (pending_key p) = None \<and>
     (\<forall>q. \<not> in_tree (staging_key p) q \<and> \<not> in_tree (version_key_of p (u_to p)) q \<longrightarrow> g q = f q)"

lemma apart_keys:
  assumes g: "good_update p"
  shows "skeleton p q \<Longrightarrow> \<not> in_tree (staging_key p) q \<and> \<not> in_tree (version_key_of p (u_to p)) q"
    "scratch_place p q \<Longrightarrow> ds = u_root p \<or> ds = meta_dir p \<Longrightarrow> q = abs_path (ds @ [e]) \<Longrightarrow> simple e \<Longrightarrow> scratch_name e \<Longrightarrow>
       \<not> in_tree (staging_key p) q \<and> \<not> in_tree (version_key_of p (u_to p)) q"
    "e \<noteq> StagingName \<Longrightarrow> simple e \<Longrightarrow> \<not> in_tree (staging_key p) (abs_path (meta_dir p @ [e])) \<and>
       \<not> in_tree (version_key_of p (u_to p)) (abs_path (meta_dir p @ [e]))"
proof -
  note s = update_simples [OF g]
  have ft: "u_from p \<noteq> u_to p" using g by (simp add: good_update_def)
  have ss: "simples (meta_dir p @ [StagingName])" "simples (versions_dir p @ [u_to p])" using s by simp_all
  have k: "in_tree (staging_key p) (abs_path qs) \<longleftrightarrow> prefix (meta_dir p @ [StagingName]) qs"
    "in_tree (version_key_of p (u_to p)) (abs_path qs) \<longleftrightarrow> prefix (versions_dir p @ [u_to p]) qs" if "simples qs" for qs
    by (rule in_tree_abs [OF ss(1) that], simp) (rule in_tree_abs [OF ss(2) that], simp)
  show "\<not> in_tree (staging_key p) q \<and> \<not> in_tree (version_key_of p (u_to p)) q" if "skeleton p q"
    using that staging_unprotected(1) [OF g, of "u_from p" q] version_unprotected(1) [OF g ft, of q] unfolding skeleton_def protected_def by blast
  show "\<not> in_tree (staging_key p) (abs_path (meta_dir p @ [e])) \<and> \<not> in_tree (version_key_of p (u_to p)) (abs_path (meta_dir p @ [e]))"
    if "e \<noteq> StagingName" "simple e"
    using k [of "meta_dir p @ [e]"] s that names_distinct by simp
  show "\<not> in_tree (staging_key p) q \<and> \<not> in_tree (version_key_of p (u_to p)) q"
    if "scratch_place p q" "ds = u_root p \<or> ds = meta_dir p" "q = abs_path (ds @ [e])" "simple e" "scratch_name e"
  proof -
    have "simples (ds @ [e])" using s that by auto
    moreover have "e \<noteq> StagingName" "e \<noteq> VersionsName" "e \<noteq> MetaName" using names_not_scratch that(5) by metis+
    ultimately show ?thesis using k [of "ds @ [e]"] that(2) names_distinct unfolding that(3) by auto
  qed
qed

lemma tmp_apart:
  assumes g: "good_update p" and q: "q = tmp_of i (journal_key p) k \<or> q = tmp_of i (state_key p) k \<or> q = tmp_of i (current_key p) k"
  shows "\<not> in_tree (staging_key p) q \<and> \<not> in_tree (version_key_of p (u_to p)) q"
proof -
  have t: "\<exists>ds e. (ds = u_root p \<or> ds = meta_dir p) \<and> q = abs_path (ds @ [e]) \<and> simple e \<and> scratch_name e"
    if "q = tmp_of i (abs_path (ds @ [e])) k" "ds = u_root p \<or> ds = meta_dir p" "simple e" for ds e
  proof (intro exI conjI)
    show "q = abs_path (ds @ [e @ scratch_suffix i k])" using that(1) unfolding tmp_of_def abs_path_snoc .
  qed (use that simple_scratch scratch_name_suffix in blast)+
  have "\<exists>ds e. (ds = u_root p \<or> ds = meta_dir p) \<and> q = abs_path (ds @ [e]) \<and> simple e \<and> scratch_name e"
    using q by (elim disjE) (erule t; simp)+
  moreover have "scratch_place p q" using q scratch_place_tmp [OF g] by blast
  ultimately show ?thesis using apart_keys(2) [OF g] by blast
qed

lemma staged_inv:
  assumes inv: "update_inv p v recs f" and st: "staged p f g"
  shows "update_inv (p\<lparr>u_snap := g\<rparr>) v recs g"
    "u_from p \<noteq> [] \<Longrightarrow> in_tree (version_key_of p (u_from p)) q \<Longrightarrow> g q = f q"
proof -
  note i = inv_parts [OF inv]
  note a = apart_keys [OF i(1)] and t = tmp_apart [OF i(1)]
  have same: "g q = f q" if "\<not> in_tree (staging_key p) q \<and> \<not> in_tree (version_key_of p (u_to p)) q" for q
    using st that unfolding staged_def by blast
  have jk: "g (journal_key p) = f (journal_key p)" and sk: "g (state_key p) = f (state_key p)"
    using same [OF a(3) [of JournalName]] same [OF a(3) [of StateName]] names_distinct by simp_all
  show "update_inv (p\<lparr>u_snap := g\<rparr>) v recs g"
  proof (rule inv_trees [OF inv])
    show "g q = f q" if "skeleton p q" for q by (rule same [OF a(1) [OF that]])
    show "scratch_ok p g" using i(8) same [OF t] unfolding scratch_ok_def by metis
    show "journal_at p g recs" using i(7) unfolding journal_at_def jk .
    show "plain_file (g (journal_key p))" "plain_file (g (state_key p))" using i(9,10) jk sk by (simp_all only:)
  qed (use st in \<open>auto simp: staged_def\<close>)
  show "g q = f q" if "u_from p \<noteq> []" "in_tree (version_key_of p (u_from p)) q"
  proof (rule same)
    have "u_from p \<noteq> u_to p" using i(1) by (simp add: good_update_def)
    then show "\<not> in_tree (staging_key p) q \<and> \<not> in_tree (version_key_of p (u_to p)) q"
      using staging_unprotected(1) [OF i(1), of "u_from p" q] version_unprotected(1) [OF i(1), of "u_from p" q] that
      unfolding protected_def by blast
  qed
qed

lemma staged_dirs:
  assumes inv: "update_inv p v recs f" and st: "staged p f g" and d: "u_from p \<noteq> []" "dirs_tab f (versions_dir p @ [u_from p])"
  shows "dirs_tab g (versions_dir p @ [u_from p])"
proof -
  have "dirs_tab g (versions_dir p)" using inv_parts(3) [OF staged_inv(1) [OF inv st]] by simp
  moreover obtain n where "f (version_key_of p (u_from p)) = Some n" "isDir n" "\<not> isSymlink n"
    using d(2) by (auto simp: dirs_tab_def dest!: spec [of _ "length (versions_dir p @ [u_from p])"])
  moreover have "simple (u_from p)" using update_simples(3) [OF inv_parts(1) [OF inv] d(1)] .
  ultimately show ?thesis using dirs_tab_snoc staged_inv(2) [OF inv st d(1) in_tree_self] by metis
qed

context materializer
begin

lemma Stage_staged:
  assumes inv: "update_inv p v recs f" and rd: "stage_ready (u_root p) f" and pl: "placed (elems (ds_files d))"
    and d: "ds_version d = u_to p" and l: "\<not> Launcher_Enabled launcher"
  shows "triple (tab m0 f) (Stage (Some T) inflate pf ctx (abs_path (u_root p)) launcher (Some d) routes)
    (\<lambda>dir m. dir = version_key_of p (u_to p) \<and> (\<exists>g. tab m0 g m \<and> staged p f g \<and> dirs_tab g (versions_dir p @ [u_to p]) \<and>
       complete_tree authentic (version_dir (u_root p) (u_to p)) (elems (ds_files d)) g))
    (\<lambda>_ m. \<exists>g. tab m0 g m \<and> staged p f g)"
proof (rule triple_weaken [OF Stage_at [OF rd pl]], unfold d)
  let ?set = "settled authentic m0 (allowing (Launcher_Enabled launcher) (u_root p) (u_to p) f) (u_root p) (u_to p) (elems (ds_files d))"
  have pd: "f (abs_path (pending_dir (u_root p) (u_to p))) = None" using inv_parts(11) [OF inv] by simp
  have al: "allowing (Launcher_Enabled launcher) (u_root p) (u_to p) f = f" using l by (simp add: allowing_def)
  have yes: "\<exists>g. tab m0 g m \<and> staged p f g \<and> (b \<longrightarrow> dirs_tab g (versions_dir p @ [u_to p]) \<and>
       complete_tree authentic (version_dir (u_root p) (u_to p)) (elems (ds_files d)) g)" if s: "?set b m" for b m
  proof -
    obtain g where g: "tab m0 g m" "wf_tab g" "dirs_tab g (staging_dir (u_root p))" "g (abs_path (pending_dir (u_root p) (u_to p))) = None"
      "\<forall>q. \<not> in_tree (abs_path (staging_dir (u_root p))) q \<and> \<not> in_tree (abs_path (version_dir (u_root p) (u_to p))) q \<longrightarrow> g q = f q"
      "b \<longrightarrow> dirs_tab g (version_dir (u_root p) (u_to p)) \<and> complete_tree authentic (version_dir (u_root p) (u_to p)) (elems (ds_files d)) g"
      using s pd unfolding settled_def al by (auto split: if_splits)
    then show ?thesis using dirs_tab_end [OF g(3)] by (intro exI [of _ g]) (auto simp: staged_def)
  qed
  have no: "\<exists>g. tab m0 g m \<and> staged p f g" if "loose m0 f (u_root p) (u_to p) m" for m
    using that pd by (auto simp: loose_def staged_def)
  show "dir = version_key_of p (u_to p) \<and> (\<exists>g. tab m0 g m \<and> staged p f g \<and> dirs_tab g (versions_dir p @ [u_to p]) \<and>
       complete_tree authentic (version_dir (u_root p) (u_to p)) (elems (ds_files d)) g)"
    if "dir = abs_path (version_dir (u_root p) (u_to p)) \<and> f (abs_path (version_dir (u_root p) (u_to p))) = None \<and> ?set True m" for dir m
    using yes [of True m] that by simp
  show "\<exists>g. tab m0 g m \<and> staged p f g" if "loose m0 f (u_root p) (u_to p) m \<or> ?set False m \<or> ?set True m" for m
    using yes no that by blast
qed

end

end
