(* ===== verification/UpdateHost.thy ===== *)
theory UpdateHost
  imports UpdateSteps
begin

text \<open>
  Steps of an update that leave the install tree alone: what only reads, the hooks of the host, and the files beside the
  journal.
\<close>

section \<open>Reading\<close>

definition reads :: "(mem, 'a) prog \<Rightarrow> bool" where
  "reads p \<longleftrightarrow> (\<forall>m0 f. triple (tab m0 f) p (\<lambda>_. tab m0 f) (\<lambda>_. tab m0 f))"

named_theorems reads_intros

lemma reads_ret [reads_intros]: "reads (ret x)"
  and reads_throw [reads_intros]: "reads (throw e)"
  and reads_lift [reads_intros]: "reads (lift r)"
  and reads_now [reads_intros]: "reads now"
  by (auto simp: reads_def triple_def ret_def throw_def lift_def now_def split: sum.splits)

lemma reads_attempt [reads_intros]: "reads p \<Longrightarrow> (\<And>e. reads (h e)) \<Longrightarrow> (\<And>x. reads (k x)) \<Longrightarrow> reads (attempt p h k)"
  unfolding reads_def by (blast intro: attempt_tab)

lemma reads_bind [reads_intros]: "reads p \<Longrightarrow> (\<And>x. reads (k x)) \<Longrightarrow> reads (bind p k)"
  unfolding bind_def by (intro reads_attempt reads_throw)

lemma reads_if [reads_intros]: "(b \<Longrightarrow> reads p) \<Longrightarrow> (\<not> b \<Longrightarrow> reads q) \<Longrightarrow> reads (if b then p else q)"
  by simp

lemma reads_wrap [reads_intros]: "reads p \<Longrightarrow> reads (wrap s p)"
  unfolding wrap_def by (intro reads_attempt reads_throw reads_ret)

lemma reads_for_each [reads_intros]: "(\<And>x. reads (g x)) \<Longrightarrow> reads (for_each xs g)"
  by (induction xs) (auto intro: reads_intros)

lemma reads_Open [reads_intros]: "reads (Open name)"
  and reads_Lstat [reads_intros]: "reads (Lstat name)"
  and reads_PointerTarget [reads_intros]: "reads (PointerTarget pf root)"
  and reads_ReadDir [reads_intros]: "reads (ReadDir name)"
  and reads_Stat [reads_intros]: "reads (Stat name)"
  unfolding reads_def
  by (simp_all add: Open_tab PointerTarget_tab Lstat_tab) (auto simp: triple_def ReadDir_def Stat_def stat_def Let_def split: sum.splits option.splits prod.splits)

lemma reads_ReadFile [reads_intros]: "reads (ReadFile p n)"
  unfolding ReadFile_def Let_def by (intro reads_intros) (auto intro!: reads_intros split: option.splits prod.splits)

lemma reads_triple: "reads p \<Longrightarrow> triple (tab m0 f) p (\<lambda>_. tab m0 f) (\<lambda>_. tab m0 f)"
  by (simp add: reads_def)

lemma reads_kept: "reads p \<Longrightarrow> triple (kept C m0 u v recs) p (\<lambda>_. kept C m0 u v recs) (\<lambda>_. kept C m0 u v recs)"
  by (rule triple_kept, rule triple_weaken [OF reads_triple]) (auto intro: keptI)

lemma reads_ReadProbation [reads_intros]: "reads (ReadProbation root)"
  unfolding ReadProbation_def by (intro reads_intros) (auto intro!: reads_intros split: sum.splits option.splits)

lemma reads_check_floor [reads_intros]: "reads (check_floor U)"
  unfolding check_floor_def Floor_Check_def KnownGood_def read_floor_def
  by (intro reads_intros) (auto intro!: reads_intros split: sum.splits)

lemma reads_installedVersion [reads_intros]: "reads (installedVersion U)"
  unfolding installedVersion_def by (intro reads_intros)

lemma reads_ask [reads_intros]: "reads (ask U q)"
  unfolding ask_def by (intro reads_intros)

lemma reads_blocked [reads_intros]: "reads (blocked U v)"
  unfolding blocked_def by (intro reads_intros) (auto intro!: reads_intros split: option.splits)

lemma reads_check_err [reads_intros]: "reads (check_err ctx)"
  unfolding check_err_def by (intro reads_intros) (auto intro!: reads_intros split: option.splits)

lemma reads_verifyInstalled [reads_intros]: "reads (verifyInstalled U ctx d dir)"
  unfolding verifyInstalled_def verifyFile_def
  by (intro reads_intros) (auto intro!: reads_intros split: sum.splits)

lemma reads_versionInstalled [reads_intros]: "reads (versionInstalled U v)"
  unfolding versionInstalled_def by (auto intro!: reads_intros split: sum.splits)

lemma reads_probationFor [reads_intros]: "reads (probationFor U d)"
  unfolding probationFor_def Let_def
  by (intro reads_intros) (auto intro!: reads_intros split: option.splits)

lemma reads_ProbationPins [reads_intros]: "reads (ProbationPins root)"
  unfolding ProbationPins_def by (intro reads_intros)

lemma reads_check_release [reads_intros]: "reads (check_release U d frm installed)"
  unfolding check_release_def by (intro reads_intros)

section \<open>What leaves a condition alone\<close>

abbreviation stable :: "(mem \<Rightarrow> bool) \<Rightarrow> (mem, 'a) prog \<Rightarrow> bool" where
  "stable I p \<equiv> triple I p (\<lambda>_. I) (\<lambda>_. I)"

named_theorems stable_intros

lemma stable_pure [stable_intros]: "stable I (ret x)" "stable I (throw e)" "stable I (lift r)" "stable I now"
  by (auto simp: triple_def ret_def throw_def lift_def now_def split: sum.splits)

lemma stable_attempt [stable_intros]: "stable I p \<Longrightarrow> (\<And>e. stable I (h e)) \<Longrightarrow> (\<And>x. stable I (k x)) \<Longrightarrow> stable I (attempt p h k)"
  by (rule triple_attempt)

lemma stable_bind [stable_intros]: "stable I p \<Longrightarrow> (\<And>x. stable I (k x)) \<Longrightarrow> stable I (bind p k)"
  by (rule triple_bind)

lemma stable_wrap [stable_intros]: "stable I p \<Longrightarrow> stable I (wrap s p)"
  by (rule triple_wrap)

lemma stable_if [stable_intros]: "(b \<Longrightarrow> stable I p) \<Longrightarrow> (\<not> b \<Longrightarrow> stable I q) \<Longrightarrow> stable I (if b then p else q)"
  by simp

section \<open>The host\<close>

text \<open>Code of the host that keeps its hands off the install tree.\<close>

definition aloof :: "string list \<Rightarrow> (mem, 'a) prog \<Rightarrow> bool" where
  "aloof rs p \<longleftrightarrow> (\<forall>m0 f. triple (tab m0 f) p (\<lambda>_. besides m0 rs f) (\<lambda>_. besides m0 rs f))"

lemma aloof_kept:
  assumes "aloof (u_root u) p" "sturdy u C"
  shows "stable (kept C m0 u v recs) p"
proof (rule triple_kept)
  fix f
  assume f: "update_inv u v recs f" "C f"
  have "triple (tab m0 f) p (\<lambda>_. besides m0 (u_root u) f) (\<lambda>_. besides m0 (u_root u) f)" using assms(1) by (simp add: aloof_def)
  then show "triple (tab m0 f) p (\<lambda>_. kept C m0 u v recs) (\<lambda>_. kept C m0 u v recs)"
    by (rule triple_weaken) (auto intro: besides_kept [OF _ f(1) assms(2) f(2)])
qed

definition quiet_host :: "string list \<Rightarrow> 'h Updater \<Rightarrow> bool" where
  "quiet_host rs U \<longleftrightarrow>
     (\<forall>mg c. up_migrate U = Some mg \<longrightarrow> aloof rs (Migrate mg c) \<and> aloof rs (Rollback_hook mg c)) \<and>
     (\<forall>co c. up_coordinate U = Some co \<longrightarrow> aloof rs (co c)) \<and> (\<forall>l. up_lock U = Some l \<longrightarrow> aloof rs (TryLock l)) \<and>
     (\<forall>ch c. up_check U = Some ch \<longrightarrow> aloof rs (ch c)) \<and> (\<forall>pr s. up_prompt U = Some pr \<longrightarrow> aloof rs (pr s))"

lemma quiet_polite: "quiet_host (u_root u) U \<Longrightarrow> polite m0 u True (up_migrate U)"
  by (auto simp: quiet_host_def polite_def aloof_def)

lemma quiesce_kept:
  assumes q: "quiet_host (u_root u) U" and C: "sturdy u C"
  shows "stable (kept C m0 u v recs) (quiesce U ctx hc)"
proof -
  let ?I = "kept C m0 u v recs"
  have rd: "stable ?I p" if "reads p" for p :: "(mem, 'b) prog" by (rule reads_kept [OF that])
  have rs: "stable ?I (request_shutdown U hc)"
    using q C by (auto simp: request_shutdown_def quiet_host_def intro!: stable_intros intro: aloof_kept split: option.splits)
  have tl: "stable ?I (TryLock l)" if "up_lock U = Some l" for l using q C that by (auto simp: quiet_host_def intro: aloof_kept)
  have pl: "stable ?I (poll_lock ctx l n)" if "up_lock U = Some l" for l n
    by (induction n) (auto intro!: stable_intros tl [OF that] rd [OF reads_check_err])
  have ob: "stable ?I (on_busy n)" for n unfolding on_busy_def by (intro stable_intros)
  show ?thesis
    unfolding quiesce_def by (auto intro!: stable_intros rs tl pl ob split: option.splits)
qed

lemma migrate_kept:
  assumes q: "quiet_host (u_root u) U" and C: "sturdy u C"
  shows "stable (kept C m0 u v recs) (case up_migrate U of None \<Rightarrow> ret () | Some mg \<Rightarrow> wrap ErrMigrate (Migrate mg c))"
  using q C by (auto simp: quiet_host_def intro!: stable_intros intro: aloof_kept split: option.splits)

lemma ask_host_kept:
  assumes q: "quiet_host (u_root u) U" and C: "sturdy u C"
  shows "stable (kept C m0 u v recs) (ask_host U d installed)"
proof -
  have "stable (kept C m0 u v recs) (case up_check U of None \<Rightarrow> ret () | Some c \<Rightarrow> wrap ErrCheck (c x))" for x
    using q C by (auto simp: quiet_host_def intro!: stable_intros intro: aloof_kept split: option.splits)
  moreover have "stable (kept C m0 u v recs) (pr s)" if "up_prompt U = Some pr" for pr s
    using q C that by (auto simp: quiet_host_def intro: aloof_kept)
  ultimately show ?thesis unfolding ask_host_def by (intro stable_bind) (auto intro!: stable_intros split: option.splits)
qed

end
