(* ===== verification/UpdateSwap.thy ===== *)
theory UpdateSwap
  imports UpdateHost
begin

text \<open>
  The records of a transaction, and the steps that change which version is current and which are kept.
\<close>

section \<open>Records of the transaction\<close>

lemma txn_record_ok:
  assumes g: "good_update p" and n: "ds_name d = u_name p" "installed = u_from p" "ds_version d = u_to p"
    and s: "s \<in> {StateBegin, StateStaged, StateDeferred, StateMigrated, StateSwapped, StateCommitted}"
    and ph: "ph \<in> {PhaseCheck, PhaseStage, PhaseQuiesce, PhaseMigrate, PhaseApply, PhaseCommit}"
  shows "of_update p (txn_record d installed s ph)" "acceptable (txn_record d installed s ph)" "State (txn_record d installed s ph) = s"
proof -
  have "u_to p \<noteq> []" using g valid_version_digit [of "u_to p"] by (auto simp: good_update_def good_version_def short_version_def)
  moreover have "s \<noteq> []" "allowed s \<noteq> None" "length s \<le> 12" "valid_utf8 s"
  proof -
    have "list_all (\<lambda>s. s \<noteq> [] \<and> allowed s \<noteq> None \<and> length s \<le> 12 \<and> valid_utf8 s) [StateBegin]" by code_simp
    then show "s \<noteq> []" "allowed s \<noteq> None" "length s \<le> 12" "valid_utf8 s" using s known_states [of s] by auto
  qed
  moreover have "length ph \<le> 16" "valid_utf8 ph" using ph known_phases [of ph] by auto
  moreover have "valid_utf8 v" if "v = u_to p \<or> v = u_from p" for v
    using that g by (cases "v = []") (auto simp: good_update_def good_version_def short_version_def intro: version_utf8)
  ultimately show "of_update p (txn_record d installed s ph)" "acceptable (txn_record d installed s ph)" "State (txn_record d installed s ph) = s"
    using n g by (auto simp: txn_record_def of_update_def text_record_def acceptable_def good_update_def)
qed

section \<open>Conditions that last\<close>

text \<open>What a write into the metadata directory leaves alone.\<close>

lemma meta_write_other:
  assumes s: "simples (rs @ [MetaName])" and e: "simple e" "e \<noteq> StagingName" and z: "simples zs" "zs \<noteq> rs @ [MetaName, e]"
  shows "abs_path zs \<noteq> abs_path ((rs @ [MetaName]) @ [e])"
  using assms abs_path_inj [of zs "rs @ [MetaName, e]"] by auto

lemma sturdy_stage_ready: "simples (u_root p) \<Longrightarrow> sturdy p (stage_ready (u_root p))"
  unfolding sturdy_def
proof (intro conjI allI impI)
  fix f e t
  assume s: "simples (u_root p)"
    and a: "stage_ready (u_root p) f \<and> wf_tab f \<and> dirs_tab f (meta_dir p) \<and> simple e \<and> e \<noteq> StagingName \<and> plain_file t \<and>
      plain_file (f (abs_path (meta_dir p @ [e])))"
  let ?k = "abs_path (meta_dir p @ [e])" and ?g = "f(abs_path (meta_dir p @ [e]) := t)"
  have ss: "simple scratchName" by (simp add: scratchName_def simple_def)
  have keep: "?g (abs_path zs) = f (abs_path zs)" if "simples zs" "zs \<noteq> u_root p @ [MetaName, e]" for zs
    using meta_write_other [OF _ _ _ that] a s by (auto simp: dirs_tab_def)
  have dirs: "dirs_tab ?g ds" if "dirs_tab f ds" "ds = meta_dir p \<or> ds = versions_dir p" for ds
  proof (rule dirs_tab_cong [OF that(1)], rule keep)
    fix i
    show "simples (take i ds)" using that(1) by (auto simp: dirs_tab_def simples_def dest: in_set_takeD)
    have "length (take i ds) \<le> length (u_root p) + 1" using that(2) by auto
    then show "take i ds \<noteq> u_root p @ [MetaName, e]" by (auto dest: arg_cong [where f = length])
  qed
  have "wf_tab ?g" using a by (intro wf_tab_file [of f "meta_dir p" e]) (auto simp: plain_file_def)
  moreover have "scratch_clean (u_root p) ?g"
  proof -
    have "\<not> in_tree (abs_path (scratch_dir (u_root p))) ?k"
      using ss a s in_tree_abs [of "scratch_dir (u_root p)" "meta_dir p @ [e]"] by simp
    then show ?thesis using a by (auto simp: stage_ready_def scratch_clean_def)
  qed
  moreover have "?g (abs_path (staging_dir (u_root p))) = f (abs_path (staging_dir (u_root p)))"
    "?g (abs_path (scratch_dir (u_root p))) = f (abs_path (scratch_dir (u_root p)))"
    using keep [of "staging_dir (u_root p)"] keep [of "scratch_dir (u_root p)"] a s ss by auto
  ultimately show "stage_ready (u_root p) ?g" using a dirs unfolding stage_ready_def by simp
next
  fix f g
  assume s: "simples (u_root p)" and c: "stage_ready (u_root p) f" and w: "wf_tab f \<longrightarrow> wf_tab g"
    and n: "\<forall>q. near (u_root p) q \<longrightarrow> g q = f q"
  have st: "g (abs_path (u_root p @ e # es)) = f (abs_path (u_root p @ e # es))" if "e \<in> {VersionsName, MetaName}" for e es
    using near_below [of e "u_root p" es] that n by blast
  have dirs: "dirs_tab g (u_root p @ [e])" if "dirs_tab f (u_root p @ [e])" "e \<in> {VersionsName, MetaName}" for e
  proof (rule dirs_tab_cong [OF that(1)])
    fix i
    assume "i \<le> length (u_root p @ [e])"
    then consider "i \<le> length (u_root p)" | "take i (u_root p @ [e]) = u_root p @ [e]" by fastforce
    then show "g (abs_path (take i (u_root p @ [e]))) = f (abs_path (take i (u_root p @ [e])))"
    proof cases
      case 1
      then have "near (u_root p) (abs_path (take i (u_root p @ [e])))" by (auto simp: near_def)
      then show ?thesis using n by blast
    next
      case 2
      then show ?thesis using st [OF that(2), of "[]"] by simp
    qed
  qed
  have "scratch_clean (u_root p) g"
  proof -
    have "near (u_root p) q" if "in_tree (abs_path (scratch_dir (u_root p))) q" for q
      using that in_tree_append [of "meta_dir p" "[StagingName, scratchName]"] in_tree_trans unfolding near_def by fastforce
    then show ?thesis using c n by (auto simp: stage_ready_def scratch_clean_def)
  qed
  then show "stage_ready (u_root p) g" using c w dirs st unfolding stage_ready_def by simp
qed

text \<open>The new version is in place, and no scratch link of this process in the way if \<open>b\<close>.\<close>

definition arrived :: "bool \<Rightarrow> mem \<Rightarrow> update \<Rightarrow> (string \<Rightarrow> memNode option) \<Rightarrow> bool" where
  "arrived b m0 u f \<longleftrightarrow> (\<forall>q. in_tree (version_key_of u (u_to u)) q \<longrightarrow> f q = u_snap u q) \<and> (b \<longrightarrow> clear_scratch m0 f (current_key u))"

lemma current_tmp: "tmp_of i (current_key u) k = abs_path (u_root u @ [CurrentName @ scratch_suffix i k])"
  unfolding tmp_of_def abs_path_snoc ..

lemma version_keys_apart:
  assumes "good_update u" "simple v"
  shows "simple e \<Longrightarrow> \<not> in_tree (version_key_of u v) (abs_path (meta_dir u @ [e]))"
    "simple e \<Longrightarrow> \<not> in_tree (version_key_of u v) (abs_path (u_root u @ [e]))"
proof -
  note s = update_simples(1) [OF assms(1)]
  have k: "in_tree (version_key_of u v) (abs_path qs) \<longleftrightarrow> prefix (versions_dir u @ [v]) qs" if "simples qs" for qs
    by (rule in_tree_abs [OF _ that]) (use s assms(2) in simp_all)
  show "\<not> in_tree (version_key_of u v) (abs_path (meta_dir u @ [e]))" if "simple e"
    using k [of "meta_dir u @ [e]"] s that names_distinct by simp
  show "\<not> in_tree (version_key_of u v) (abs_path (u_root u @ [e]))" if "simple e"
    using k [of "u_root u @ [e]"] s that by simp
qed

lemma sturdy_conj: "sturdy u C \<Longrightarrow> sturdy u D \<Longrightarrow> sturdy u (\<lambda>f. C f \<and> D f)"
  unfolding sturdy_def by blast

lemma sturdy_clear:
  assumes g: "good_update u"
  shows "sturdy u (\<lambda>f. b \<longrightarrow> clear_scratch m0 f (current_key u))"
  unfolding sturdy_def
proof (intro conjI allI impI)
  fix f e t
  assume a: "(b \<longrightarrow> clear_scratch m0 f (current_key u)) \<and> wf_tab f \<and> dirs_tab f (meta_dir u) \<and> simple e \<and> e \<noteq> StagingName \<and>
      plain_file t \<and> plain_file (f (abs_path (meta_dir u @ [e])))" and b
  note s = update_simples [OF g]
  have "tmp_of i (current_key u) k \<noteq> abs_path (meta_dir u @ [e])" for i k
    using abs_path_inj [of "u_root u @ [CurrentName @ scratch_suffix i k]" "meta_dir u @ [e]"] s a simple_scratch [of CurrentName i k]
    unfolding current_tmp by auto
  then show "clear_scratch m0 (f(abs_path (meta_dir u @ [e]) := t)) (current_key u)" using a \<open>b\<close> by (simp add: clear_scratch_def)
next
  fix f g
  assume a: "b \<longrightarrow> clear_scratch m0 f (current_key u)" "\<forall>q. near (u_root u) q \<longrightarrow> g q = f q" and b
  have "near (u_root u) (tmp_of i (current_key u) k)" for i k
    using near_below [of "CurrentName @ scratch_suffix i k" "u_root u" "[]"] scratch_name_suffix unfolding current_tmp by simp
  then show "clear_scratch m0 g (current_key u)" using a \<open>b\<close> by (simp add: clear_scratch_def)
qed

lemma sturdy_arrived:
  assumes g: "good_update u"
  shows "sturdy u (arrived b m0 u)"
proof -
  note s = update_simples [OF g]
  have "sturdy u (\<lambda>f. \<forall>q. in_tree (version_key_of u (u_to u)) q \<longrightarrow> f q = u_snap u q)"
    unfolding sturdy_def
  proof (intro conjI allI impI)
    fix f e t q
    assume a: "(\<forall>q. in_tree (version_key_of u (u_to u)) q \<longrightarrow> f q = u_snap u q) \<and> wf_tab f \<and> dirs_tab f (meta_dir u) \<and> simple e \<and>
      e \<noteq> StagingName \<and> plain_file t \<and> plain_file (f (abs_path (meta_dir u @ [e])))" and q: "in_tree (version_key_of u (u_to u)) q"
    then have "q \<noteq> abs_path (meta_dir u @ [e])" using version_keys_apart(1) [OF g s(2)] by blast
    then show "(f(abs_path (meta_dir u @ [e]) := t)) q = u_snap u q" using a q by simp
  next
    fix f g q
    assume a: "\<forall>q. in_tree (version_key_of u (u_to u)) q \<longrightarrow> f q = u_snap u q" "\<forall>q. near (u_root u) q \<longrightarrow> g q = f q"
      and q: "in_tree (version_key_of u (u_to u)) q"
    have "near (u_root u) q" using q in_tree_append [of "versions_dir u" "[u_to u]"] in_tree_trans unfolding near_def by fastforce
    then show "g q = u_snap u q" using a q by simp
  qed
  from sturdy_conj [OF this sturdy_clear [OF g]] show ?thesis unfolding arrived_def [abs_def] .
qed

section \<open>The swap\<close>

lemma arrived_current:
  assumes g: "good_update u" and a: "arrived b m0 u f"
  shows "arrived b m0 u (f(current_key u := x))" "(b \<Longrightarrow> t = None) \<Longrightarrow> arrived b m0 u (f(tmp_of (pid m0) (current_key u) k := t))"
proof -
  note s = update_simples [OF g]
  have v: "\<not> in_tree (version_key_of u (u_to u)) (current_key u)" "\<not> in_tree (version_key_of u (u_to u)) (tmp_of j (current_key u) l)" for j l
    using version_keys_apart(2) [OF g s(2), of CurrentName] version_keys_apart(2) [OF g s(2), of "CurrentName @ scratch_suffix j l"]
      simple_scratch [of CurrentName j l] unfolding current_tmp by simp_all
  have "tmp_of j (current_key u) l \<noteq> current_key u" for j l by (simp add: tmp_of_def scratch_suffix_def)
  then show "arrived b m0 u (f(current_key u := x))" using a v by (auto simp: arrived_def clear_scratch_def)
  show "arrived b m0 u (f(tmp_of (pid m0) (current_key u) k := t))" if "b \<Longrightarrow> t = None"
    using a v that by (auto simp: arrived_def clear_scratch_def)
qed

lemma repointed_to:
  assumes inv: "update_inv u v recs f" and a: "arrived b m0 u f" and r: "repointed (u_pf u) m0 f (u_root u) (u_to u) m"
  shows "kept (arrived b m0 u) m0 u (u_to u) recs m"
proof -
  obtain n k where n: "holds_ptr (u_pf u) (Some n) (relVersionTarget (u_to u))"
    and t: "tab m0 (f(tmp_of (pid m0) (current_key u) k := None, current_key u \<mapsto> n)) m" using r by (auto simp: repointed_def)
  have g: "good_update u" by (rule inv_parts(1) [OF inv])
  have "tmp_key u (tmp_of (pid m0) (current_key u) k) None" using ptr.litter_None by (auto simp: tmp_key_def)
  note inv1 = inv_tmp [OF inv this]
  have ar: "arrived b m0 u (f(tmp_of (pid m0) (current_key u) k := None))" by (rule arrived_current(2) [OF g a]) simp
  have v: "ValidVersion (u_to u)" "u_to u \<noteq> []"
    using g valid_version_digit [of "u_to u"] by (auto simp: good_update_def good_version_def short_version_def)
  have "update_inv u (u_to u) recs (f(tmp_of (pid m0) (current_key u) k := None, current_key u \<mapsto> n))"
    using n v ar ptr.holds_file [OF n] by (intro inv_point [OF inv1]) (auto simp: ptr.points_def arrived_def)
  then show ?thesis using arrived_current(1) [OF g ar] t by (rule keptI)
qed

lemma unpointed_stays:
  assumes inv: "update_inv u v recs f" and a: "arrived False m0 u f" and r: "unpointed (u_pf u) m0 f (u_root u) m"
  shows "kept (arrived False m0 u) m0 u v recs m"
proof -
  obtain k t where t: "litter_ptr (u_pf u) t" "tab m0 (f(tmp_of (pid m0) (current_key u) k := t)) m" using r by (auto simp: unpointed_def)
  then have "tmp_key u (tmp_of (pid m0) (current_key u) k) t" by (auto simp: tmp_key_def)
  from inv_tmp [OF inv this] arrived_current(2) [OF inv_parts(1) [OF inv] a] t(2) show ?thesis by (blast intro: keptI)
qed

lemma Swap_kept:
  assumes g: "good_update u" and b: "b \<Longrightarrow> \<not> hooked m0"
  shows "triple (kept (arrived b m0 u) m0 u v recs) (Swap (u_pf u) (abs_path (u_root u)) (version_key_of u (u_to u)))
    (\<lambda>_. kept (arrived b m0 u) m0 u (u_to u) recs)
    (\<lambda>_ m. kept (arrived b m0 u) m0 u v recs m \<or> kept (arrived b m0 u) m0 u (u_to u) recs m)"
    (is "triple _ _ ?Q ?E")
proof (rule triple_kept)
  fix f
  assume inv: "update_inv u v recs f" and a: "arrived b m0 u f"
  note p = inv_parts [OF inv] and s = update_simples [OF g]
  have sv: "short_version (u_to u)" "ValidateVersion (u_to u) = Inr ()"
    using g by (auto simp: good_update_def good_version_def short_version_def ValidateVersion_ok)
  have base: "Base (version_key_of u (u_to u)) = u_to u" using path_base_abs [of "u_to u" "versions_dir u"] s by (simp add: Base_def Slash_def)
  have st: "triple (tab m0 f) (wrap ErrStage (Stat (version_key_of u (u_to u)))) (\<lambda>_. tab m0 f) ?E"
    using keptI [where C = "arrived b m0 u", OF inv a] by (intro triple_wrap triple_weaken [OF reads_triple [OF reads_Stat]]) auto
  have sp: "triple (tab m0 f) (SetPointer (u_pf u) (abs_path (u_root u)) (u_to u)) ?Q ?E"
  proof (rule triple_weaken [OF SetPointer_plain [OF p(4,5) ptr.points_not_dir [OF p(6)] _ sv(1)]])
    show "litter_ptr (u_pf u) (f (tmp_of (pid m0) (current_key u) k))" for k using p(8) by (simp add: scratch_ok_def)
    show "kept (arrived b m0 u) m0 u (u_to u) recs m" if "repointed (u_pf u) m0 f (u_root u) (u_to u) m" for m
      using repointed_to [OF inv a that] .
    show "?E e m" if "(hooked m0 \<or> \<not> clear_scratch m0 f (current_key u)) \<and>
        (unpointed (u_pf u) m0 f (u_root u) m \<or> repointed (u_pf u) m0 f (u_root u) (u_to u) m)" for e m
    proof -
      have "\<not> b" using that a b by (auto simp: arrived_def)
      then show ?thesis using that repointed_to [OF inv a] unpointed_stays [OF inv] a by auto
    qed
  qed
  have root: "check_stager (abs_path (u_root u)) = Inr ()" by (simp add: check_stager_def abs_path_def)
  show "triple (tab m0 f) (Swap (u_pf u) (abs_path (u_root u)) (version_key_of u (u_to u))) ?Q ?E"
    unfolding Swap_def root base sv(2) bind_lift by (rule triple_bind [OF st sp])
qed

section \<open>The collection\<close>

definition thinned :: "mem \<Rightarrow> (string \<Rightarrow> memNode option) \<Rightarrow> string list \<Rightarrow> string \<Rightarrow> mem \<Rightarrow> bool" where
  "thinned m0 f rs live m \<longleftrightarrow> (\<exists>R. finite R \<and> (\<forall>v\<in>R. ValidVersion v) \<and> live \<notin> R \<and> tab m0 (cleared rs R f) m)"

lemma thinned_tab: "tab m0 f m \<Longrightarrow> thinned m0 f rs live m"
  unfolding thinned_def by (intro exI [of _ "{}"]) simp

text \<open>Whatever the sort does, the collection removes version directories, and never the live one.\<close>

lemma GC_thins:
  assumes inv: "update_inv u v recs f" and v: "v \<noteq> []" and srt: "sorts srt"
  shows "triple (tab m0 f) (GC srt (u_pf u) (abs_path (u_root u)) retain) (\<lambda>_. thinned m0 f (u_root u) v)
    (\<lambda>e m. thinned m0 f (u_root u) v m \<and> (hooked m0 \<or> is_err ErrIncompleteGC e \<or> retain < MinRetain))"
proof -
  let ?rs = "u_root u" and ?T = "thinned m0 f (u_root u) v"
  let ?E = "\<lambda>e m. ?T m \<and> (hooked m0 \<or> is_err ErrIncompleteGC e \<or> retain < MinRetain)"
  note p = inv_parts [OF inv]
  have vv: "ValidVersion v" using p(6) v by (auto simp: ptr.points_def)
  have rm: "triple (tab m0 f) (removal ?rs gone) (\<lambda>_. ?T) ?E" if g: "\<forall>x\<in>set gone. ValidVersion x" "v \<notin> set gone" for gone
  proof -
    have "?T m" if "R \<subseteq> set gone" "tab m0 (cleared ?rs R f) m" for R m
      using that g finite_subset [OF that(1) finite_set] unfolding thinned_def by blast
    then show ?thesis by (intro triple_weaken [OF removal_plain [OF p(3,5) g(1)]]) blast+
  qed
  have all: "triple (\<lambda>m. tab m0 f m \<and> distinct vs \<and> set vs = installed_versions f ?rs)
      (bind (lift (retained srt vs v retain)) (\<lambda>keep. bind (wrap ErrIncompleteGC (ProbationPins (abs_path ?rs))) (\<lambda>pinned.
        removal ?rs (filter (\<lambda>x. x \<notin> set keep \<and> x \<notin> set pinned) vs)))) (\<lambda>_. ?T) ?E" for vs
  proof (rule triple_fact)
    assume vs: "distinct vs \<and> set vs = installed_versions f ?rs"
    have val: "\<forall>x\<in>set vs. ValidVersion x" using vs by (auto simp: installed_versions_def)
    obtain keep where k: "retained srt vs v retain = Inr keep" "v \<in> set keep"
      by (rule retained_ok [OF val vv _ srt]) (use vs in auto)
    have pins: "triple (tab m0 f) (wrap ErrIncompleteGC (ProbationPins (abs_path ?rs))) (\<lambda>_. tab m0 f) ?E"
      by (intro triple_wrap triple_weaken [OF reads_triple [OF reads_ProbationPins]]) (auto simp: is_err_def intro: thinned_tab)
    show "triple (tab m0 f) (bind (lift (retained srt vs v retain)) (\<lambda>keep. bind (wrap ErrIncompleteGC (ProbationPins (abs_path ?rs))) (\<lambda>pinned.
        removal ?rs (filter (\<lambda>x. x \<notin> set keep \<and> x \<notin> set pinned) vs)))) (\<lambda>_. ?T) ?E"
      unfolding k(1) bind_lift by (rule triple_bind [OF pins rm]) (use val k(2) in auto)
  qed
  have iv: "triple (tab m0 f) (InstalledVersions (abs_path ?rs)) (\<lambda>vs m. tab m0 f m \<and> distinct vs \<and> set vs = installed_versions f ?rs) ?E"
    by (rule triple_weaken [OF InstalledVersions_plain [OF p(3)]]) auto
  have pt: "triple (tab m0 f) (PointerTarget (u_pf u) (abs_path ?rs)) (\<lambda>x m. tab m0 f m \<and> x = v) ?E"
    using thinned_tab by (intro triple_weaken [OF PointerTarget_plain [OF p(4,6)]]) auto
  have root: "check_stager (abs_path ?rs) = Inr ()" by (simp add: check_stager_def abs_path_def)
  show ?thesis
    unfolding GC_def root bind_lift
  proof (rule triple_if)
    show "triple (tab m0 f) (throw [ErrStage]) (\<lambda>_. ?T) ?E" if "retain < MinRetain"
      by (rule triple_throw) (use that in \<open>simp add: thinned_tab\<close>)
    show "triple (tab m0 f) (bind (PointerTarget (u_pf u) (abs_path ?rs)) (\<lambda>live. if live = [] then ret ()
        else bind (InstalledVersions (abs_path ?rs)) (\<lambda>vs. bind (lift (retained srt vs live retain)) (\<lambda>keep.
          bind (wrap ErrIncompleteGC (ProbationPins (abs_path ?rs))) (\<lambda>pinned.
          removal ?rs (filter (\<lambda>x. x \<notin> set keep \<and> x \<notin> set pinned) vs)))))) (\<lambda>_. ?T) ?E"
      by (rule triple_bind [OF pt], rule triple_fact) (use v triple_bind [OF iv all] in simp)
  qed
qed

lemma thinned_inv:
  assumes inv: "update_inv u (u_to u) recs f" and R: "finite R" "\<forall>v\<in>R. ValidVersion v" "u_to u \<notin> R"
  defines "g \<equiv> cleared (u_root u) R f"
  shows "update_inv (u\<lparr>u_snap := g\<rparr>) (u_to u) recs g"
    "in_tree (version_key_of u (u_to u)) q \<Longrightarrow> g q = f q"
proof -
  note p = inv_parts [OF inv] and s = update_simples [OF inv_parts(1) [OF inv]]
  have other: "g (abs_path zs) = f (abs_path zs)" if "simples zs" "\<And>v. v \<in> R \<Longrightarrow> \<not> prefix (versions_dir u @ [v]) zs" for zs
    using that R(2) s(1) valid_simple in_tree_abs [OF _ that(1)] by (auto simp: g_def cleared_def)
  have root: "g (abs_path (u_root u @ e # es)) = f (abs_path (u_root u @ e # es))" if "simples (e # es)" "e \<noteq> VersionsName" for e es
    using that s by (intro other) auto
  have keys: "g (journal_key u) = f (journal_key u)" "g (state_key u) = f (state_key u)" "g (staging_key u) = f (staging_key u)"
    "g (pending_key u) = f (pending_key u)" "g (current_key u) = f (current_key u)"
    using root [of MetaName "[JournalName]"] root [of MetaName "[StateName]"] root [of MetaName "[StagingName]"]
      root [of MetaName "[StagingName, u_to u @ launcherPendingSuffix]"] root [of CurrentName "[]"] s(2) simple_pending names_distinct by simp_all
  have tmp: "g (tmp_of i (journal_key u) k) = f (tmp_of i (journal_key u) k)" "g (tmp_of i (state_key u) k) = f (tmp_of i (state_key u) k)"
    "g (tmp_of i (current_key u) k) = f (tmp_of i (current_key u) k)" for i k
  proof -
    have "CurrentName @ scratch_suffix i k \<noteq> VersionsName" using scratch_name_suffix names_not_scratch by metis
    then show "g (tmp_of i (journal_key u) k) = f (tmp_of i (journal_key u) k)" "g (tmp_of i (state_key u) k) = f (tmp_of i (state_key u) k)"
      "g (tmp_of i (current_key u) k) = f (tmp_of i (current_key u) k)"
      using root [of MetaName "[JournalName @ scratch_suffix i k]"] root [of MetaName "[StateName @ scratch_suffix i k]"]
        root [of "CurrentName @ scratch_suffix i k" "[]"] simple_scratch names_distinct
      unfolding tmp_of_def abs_path_snoc by simp_all
  qed
  have skel: "g q = f q" if "skeleton u q" for q
  proof -
    have "g (abs_path (take i ds)) = f (abs_path (take i ds))" if "ds = meta_dir u \<or> ds = versions_dir u" for i ds
    proof (rule other)
      have "simples ds" using that s by auto
      then show "simples (take i ds)" by (meson in_set_takeD simples_def)
      show "\<not> prefix (versions_dir u @ [v]) (take i ds)" for v using that by (auto dest!: prefix_length_le)
    qed
    then show ?thesis using that keys(5) unfolding skeleton_def by blast
  qed
  show "update_inv (u\<lparr>u_snap := g\<rparr>) (u_to u) recs g"
  proof (rule inv_trees [OF inv skel])
    show "wf_tab g" using R(1) unfolding g_def by (induction R) (auto simp: cleared_insert p(5) intro: wf_tab_pruned)
    show "scratch_ok u g" using p(8) by (simp only: scratch_ok_def tmp simp_thms)
    show "journal_at u g recs" using p(7) unfolding journal_at_def keys .
    show "isDir n \<and> \<not> isSymlink n" if "g (staging_key u) = Some n" for n
      using inv that unfolding keys by (simp add: update_inv_def base_ok_def)
  qed (use p keys in \<open>simp_all only:\<close>)
  show "g q = f q" if "in_tree (version_key_of u (u_to u)) q"
    using that R(2,3) s valid_simple trees_disjoint [of "versions_dir u" "u_to u" "[]" _ "[]" q] by (auto simp: g_def cleared_def)
qed

end
