(* ===== verification/UpdateSafe.thy ===== *)
theory UpdateSafe
  imports UpdateSwap StageTrust
begin

text \<open>
  The transaction of an update as a whole: whichever filesystem calls fail, what it leaves is an install tree that recovery
  takes to the old version or to the new one.
\<close>

section \<open>The update a host asks for\<close>

definition updates :: "update \<Rightarrow> 'h Updater \<Rightarrow> Descriptor \<Rightarrow> bool" where
  "updates u U d \<longleftrightarrow> up_root U = abs_path (u_root u) \<and> up_form U = u_pf u \<and>
     ds_name d = u_name u \<and> ds_version d = u_to u \<and> 0 < ds_layout d \<and> placed (elems (ds_files d)) \<and>
     \<not> Launcher_Enabled (up_launcher U) \<and> quiet_host (u_root u) U \<and> sorts (up_sort U) \<and> MinRetain \<le> pol_retain (up_policy U)"

lemma updates_snap [simp]: "updates (u\<lparr>u_snap := s\<rparr>) U d = updates u U d"
  by (simp add: updates_def)

lemma triple_step:
  assumes "triple P p R F" "\<And>e m. F e m \<Longrightarrow> Q (ph, held, Some e) m" "\<And>x. triple (R x) (k x) Q E"
  shows "triple P (step ph held p k) Q E"
  unfolding step_def using assms by (intro triple_attempt [OF assms(1)] triple_ret) auto

lemma txn_append:
  assumes g: "good_update u" and up: "updates u U d" and C: "sturdy u C"
    and l: "of_update u (last recs)" "(State (last recs), s) \<in> set moves"
    and s: "s \<in> {StateStaged, StateDeferred, StateMigrated, StateSwapped, StateCommitted}"
    and ph: "ph \<in> {PhaseCheck, PhaseStage, PhaseQuiesce, PhaseMigrate, PhaseApply, PhaseCommit}"
    and j: "jroot j = abs_path (u_root u)" "records j = recs"
  defines "r \<equiv> txn_record d (u_from u) s ph"
  shows "triple (kept C m0 u v recs) (Append j r) (\<lambda>j' m. kept C m0 u v (recs @ [r]) m \<and> j' = j\<lparr>records := recs @ [r]\<rparr>)
    (\<lambda>_ m. (kept C m0 u v recs m \<or> kept C m0 u v (recs @ [r]) m) \<and> hooked m0)"
proof -
  have r: "of_update u r" "acceptable r" "State r = s"
    using txn_record_ok [OF g, of d "u_from u" s ph] up s ph by (auto simp: r_def updates_def)
  have "s \<noteq> StateBegin" using s known_states(5) [of s] by auto
  moreover have "checkTransition (last recs) r = Inr ()" using transition_ok [OF l(1) r(1)] l(2) r(3) by simp
  ultimately show ?thesis using r j C by (intro triple_weaken [OF Append_kept]) auto
qed

lemma triple_step_append:
  assumes g: "good_update u" and up: "updates u U d" and C: "sturdy u C"
    and l: "of_update u (last recs)" "(State (last recs), s) \<in> set moves"
    and s: "s \<in> {StateStaged, StateDeferred, StateMigrated, StateSwapped, StateCommitted}"
    and ph: "ph \<in> {PhaseCheck, PhaseStage, PhaseQuiesce, PhaseMigrate, PhaseApply, PhaseCommit}"
    and j: "jroot j = abs_path (u_root u)" "records j = recs"
    and E: "\<And>e m. kept C m0 u v recs m \<Longrightarrow> hooked m0 \<Longrightarrow> Q (ph', held, Some e) m"
      "\<And>e m. kept C m0 u v (recs @ [txn_record d (u_from u) s ph]) m \<Longrightarrow> hooked m0 \<Longrightarrow> Q (ph', held, Some e) m"
    and k: "triple (kept C m0 u v (recs @ [txn_record d (u_from u) s ph])) (k (j\<lparr>records := recs @ [txn_record d (u_from u) s ph]\<rparr>)) Q F"
  shows "triple (kept C m0 u v recs) (step ph' held (Append j (txn_record d (u_from u) s ph)) k) Q F"
  by (rule triple_step [OF txn_append [OF g up C l s ph j]]) (use E k in \<open>auto intro: triple_fact\<close>)

section \<open>From the staged tree to the commit\<close>

text \<open>\<open>midway\<close>: not committed yet, the new tree in place; \<open>settled_in\<close>: committed; \<open>put_off\<close>: deferred.\<close>

definition midway :: "bool \<Rightarrow> mem \<Rightarrow> update \<Rightarrow> mem \<Rightarrow> bool" where
  "midway b m0 u m \<longleftrightarrow> (\<exists>v recs. kept (arrived b m0 u) m0 u v recs m \<and> pointer_ok u (State (last recs)) v \<and>
     State (last recs) \<in> {StateBegin, StateStaged, StateMigrated, StateSwapped})"

definition settled_in :: "mem \<Rightarrow> update \<Rightarrow> mem \<Rightarrow> bool" where
  "settled_in m0 u m \<longleftrightarrow> (\<exists>h recs. tab m0 h m \<and> update_inv (u\<lparr>u_snap := h\<rparr>) (u_to u) recs h \<and> State (last recs) = StateCommitted \<and>
     arrived False m0 u h)"

definition put_off :: "bool \<Rightarrow> mem \<Rightarrow> update \<Rightarrow> mem \<Rightarrow> bool" where
  "put_off b m0 u m \<longleftrightarrow> (\<exists>recs. kept (arrived b m0 u) m0 u (u_from u) recs m \<and> State (last recs) = StateDeferred)"

definition ended :: "bool \<Rightarrow> mem \<Rightarrow> update \<Rightarrow> verdict \<Rightarrow> mem \<Rightarrow> bool" where
  "ended b m0 u x m \<longleftrightarrow> (case x of (ph, held, err) \<Rightarrow>
     if err = None then settled_in m0 u m
     else settled_in m0 u m \<and> hooked m0 \<or> phaseIsTransactional ph \<and>
       (midway b m0 u m \<or> put_off b m0 u m \<and> is_err ErrDeferred (the err)))"

lemma midwayI:
  "kept (arrived b m0 u) m0 u v recs m \<Longrightarrow> pointer_ok u (State (last recs)) v \<Longrightarrow>
   State (last recs) \<in> {StateBegin, StateStaged, StateMigrated, StateSwapped} \<Longrightarrow> midway b m0 u m"
  by (auto simp: midway_def)

lemma self_snap: "update_inv u v recs h \<Longrightarrow> update_inv (u\<lparr>u_snap := h\<rparr>) v recs h"
  by (simp add: update_inv_def trees_ok_def)

lemma settled_inI:
  assumes "kept (arrived b m0 u) m0 u (u_to u) recs m" "State (last recs) = StateCommitted"
  shows "settled_in m0 u m"
proof -
  obtain h where h: "update_inv u (u_to u) recs h" "arrived b m0 u h" "tab m0 h m" using assms(1) by (auto simp: kept_def)
  then have "arrived False m0 u h" by (simp add: arrived_def)
  then show ?thesis using self_snap [OF h(1)] h(3) assms(2) unfolding settled_in_def by blast
qed

lemma collect_ends:
  assumes g: "good_update u" and up: "updates u U d" and st: "State (last recs) = StateCommitted"
  shows "triple (kept (arrived b m0 u) m0 u (u_to u) recs) (bind (promote_and_clean U d) (\<lambda>_. collect U held)) (ended b m0 u) (\<lambda>_ _. False)"
proof -
  let ?C = "arrived b m0 u"
  let ?k = "kept ?C m0 u (u_to u) recs"
  note u = up [unfolded updates_def]
  have v: "u_to u \<noteq> []" using g valid_version_digit [of "u_to u"] by (auto simp: good_update_def good_version_def short_version_def)
  have pr: "?C (pruned (staging_key u) f)" if "?C f" for f
  proof -
    have "\<not> in_tree (staging_key u) q" if "in_tree (version_key_of u (u_to u)) q" for q
      using staging_unprotected(1) [OF g, of "u_to u" q] that by (simp add: protected_def)
    moreover have "pruned (staging_key u) f q = None" if "f q = None" for q using that by (simp add: pruned_in_tree)
    ultimately show ?thesis using that by (auto simp: arrived_def clear_scratch_def pruned_in_tree)
  qed
  have pd: "LauncherPendingDir (up_root U) (ds_version d) = Inr (pending_key u)" using u pending_path [OF g] by simp
  have "triple ?k (PromoteLauncher (up_root U) (ds_version d)) (\<lambda>_. ?k) (\<lambda>_. ?k)"
    unfolding PromoteLauncher_def pd bind_lift
    by (rule triple_attempt [OF Lstat_pending]) (auto simp: triple_def ret_def IsNotExist_def)
  moreover have "triple ?k (RemoveAll (Staging (up_root U))) (\<lambda>_. ?k) (\<lambda>_. ?k)"
    using u layout_paths(6) [OF root_path [OF g]]
    by (simp only:) (rule triple_weaken [OF sweep_staging [where C = ?C, OF g pr]], auto elim: kept_mono)
  ultimately have pc: "triple ?k (promote_and_clean U d) (\<lambda>_. ?k) (\<lambda>_ _. False)"
    unfolding promote_and_clean_def by (intro triple_attempt [where R = "\<lambda>_. ?k" and F = "\<lambda>_. ?k"] triple_ret triple_ignore)
  have co: "triple ?k (collect U held) (ended b m0 u) (\<lambda>_ _. False)"
  proof (rule triple_kept)
    fix f
    assume inv: "update_inv u (u_to u) recs f" and C: "?C f"
    have fin: "settled_in m0 u m" if t: "thinned m0 f (u_root u) (u_to u) m" for m
    proof -
      obtain R where R: "finite R" "\<forall>v\<in>R. ValidVersion v" "u_to u \<notin> R" "tab m0 (cleared (u_root u) R f) m"
        using t by (auto simp: thinned_def)
      have "arrived False m0 u (cleared (u_root u) R f)" using C thinned_inv(2) [OF inv R(1-3)] by (simp add: arrived_def)
      then show ?thesis using thinned_inv(1) [OF inv R(1-3)] R(4) st unfolding settled_in_def by blast
    qed
    have gc: "triple (tab m0 f) (GC (up_sort U) (up_form U) (up_root U) (pol_retain (up_policy U)))
        (\<lambda>_. thinned m0 f (u_root u) (u_to u)) (\<lambda>e m. thinned m0 f (u_root u) (u_to u) m \<and> (hooked m0 \<or> is_err ErrIncompleteGC e))"
      using GC_thins [OF inv v, of "up_sort U" m0 "pol_retain (up_policy U)"] u by simp
    show "triple (tab m0 f) (collect U held) (ended b m0 u) (\<lambda>_ _. False)"
      unfolding collect_def by (rule triple_attempt [OF gc]) (auto simp: ended_def fin intro!: triple_ret)
  qed
  show ?thesis by (rule triple_bind [OF pc co])
qed

lemma install_staged_ends:
  assumes g: "good_update u" and up: "updates u U d" and l: "of_update u (last recs)" "State (last recs) = StateStaged"
    and j: "jroot j = abs_path (u_root u)" "records j = recs" and b: "b \<Longrightarrow> \<not> hooked m0"
  shows "triple (kept (arrived b m0 u) m0 u (u_from u) recs) (install_staged U ctx d (u_from u) j (version_key_of u (u_to u)) held)
    (ended b m0 u) (\<lambda>_ _. False)"
proof -
  let ?C = "arrived b m0 u" and ?r = "\<lambda>s ph. txn_record d (u_from u) s ph"
  let ?k = "kept ?C m0 u" and ?Q = "ended b m0 u" and ?F = "\<lambda>_ _. False"
  let ?m = "?r StateMigrated PhaseMigrate" and ?s = "?r StateSwapped PhaseApply" and ?c = "?r StateCommitted PhaseCommit"
  let ?r1 = "recs @ [?m]" let ?r2 = "?r1 @ [?s]" let ?r3 = "?r2 @ [?c]"
  let ?j1 = "j\<lparr>records := ?r1\<rparr>" let ?j2 = "?j1\<lparr>records := ?r2\<rparr>"
  let ?dir = "version_key_of u (u_to u)"
  note u = up [unfolded updates_def] and C = sturdy_arrived [OF g, of b m0]
  have ur: "up_root U = abs_path (u_root u)" "up_form U = u_pf u" using u by simp_all
  note ap = triple_step_append [where C = ?C and Q = ?Q, OF g up C]
  have st: "State (?r s ph) = s" for s ph by (simp add: txn_record_def)
  have ok: "of_update u ?m" "of_update u ?s" using txn_record_ok(1) [OF g, of d "u_from u"] u by simp_all
  have tp: "phaseIsTransactional PhaseMigrate" "phaseIsTransactional PhaseApply" "phaseIsTransactional PhaseVerify" "phaseIsTransactional PhaseCommit"
    by (simp_all add: phaseIsTransactional_def)
  have mid: "?Q (ph, held, Some e) m"
    if "?k v rs m" "pointer_ok u (State (last rs)) v" "State (last rs) \<in> {StateStaged, StateMigrated, StateSwapped}"
      "phaseIsTransactional ph" for v rs m ph e
    using that midwayI [OF that(1,2)] by (auto simp: ended_def)
  have e0: "?Q (ph, held, Some e) m" if "?k (u_from u) recs m" "phaseIsTransactional ph" for ph e m
    using mid [OF that(1)] that l by (simp add: pointer_ok_def)
  have e1: "?Q (ph, held, Some e) m" if "?k v ?r1 m" "v = u_from u \<or> v = u_to u" "phaseIsTransactional ph" for v ph e m
    using mid [OF that(1)] that by (simp add: pointer_ok_def st)
  have e2: "?Q (ph, held, Some e) m" if "?k (u_to u) ?r2 m" "phaseIsTransactional ph" for ph e m
    using mid [OF that(1)] that by (simp add: pointer_ok_def st)
  have e3: "?Q (ph, held, Some e) m" if "?k (u_to u) ?r3 m" "hooked m0" for ph e m
    using settled_inI [OF that(1)] that by (simp add: ended_def st)
  let ?p6 = "\<lambda>j2. step PhaseCommit held (Append j2 ?c) (\<lambda>_. bind (promote_and_clean U d) (\<lambda>_. collect U held))"
  have p6: "triple (?k (u_to u) ?r2) (?p6 ?j2) ?Q ?F"
    by (rule ap) (use ok j e2 e3 tp st collect_ends [OF g up, of ?r3] in \<open>auto simp: moves_def\<close>)
  let ?p5 = "\<lambda>j2. step PhaseCommit held (WriteInstall (up_root U)
      \<lparr> in_schema = 0, in_name = ds_name d, in_version = ds_version d, in_layout = ds_layout d \<rparr>) (\<lambda>_. ?p6 j2)"
  have wi: "triple (?k (u_to u) ?r2) (WriteInstall (up_root U) \<lparr> in_schema = 0, in_name = ds_name d, in_version = ds_version d, in_layout = ds_layout d \<rparr>)
      (\<lambda>_. ?k (u_to u) ?r2) (\<lambda>_. ?k (u_to u) ?r2)"
    unfolding ur by (intro triple_weaken [OF WriteInstall_kept [where C = ?C and u = u]]) (use u C in auto)
  have p5: "triple (?k (u_to u) ?r2) (?p5 ?j2) ?Q ?F"
    by (rule triple_step [OF wi]) (use e2 tp p6 in auto)
  let ?p4 = "\<lambda>j2. step PhaseVerify held (if pol_verify (up_policy U) then verifyInstalled U ctx d ?dir else ret ()) (\<lambda>_. ?p5 j2)"
  have p4: "triple (?k (u_to u) ?r2) (?p4 ?j2) ?Q ?F"
    by (rule triple_step [OF stable_if [OF reads_kept [OF reads_verifyInstalled] stable_pure(1)]]) (use e2 tp p5 in auto)
  let ?p3 = "\<lambda>j1. step PhaseApply held (Append j1 ?s) ?p4"
  have p3: "triple (?k (u_to u) ?r1) (?p3 ?j1) ?Q ?F"
    by (rule ap) (use ok j e1 e2 tp st p4 in \<open>auto simp: moves_def\<close>)
  let ?p2 = "\<lambda>j1. step PhaseApply held (Swap (up_form U) (up_root U) ?dir) (\<lambda>_. ?p3 j1)"
  have p2: "triple (?k (u_from u) ?r1) (?p2 ?j1) ?Q ?F"
    unfolding ur by (rule triple_step [OF Swap_kept [OF g b]]) (use e1 tp p3 ur in auto)
  let ?p1 = "step PhaseMigrate held (Append j ?m) ?p2"
  have p1: "triple (?k (u_from u) recs) ?p1 ?Q ?F"
    by (rule ap) (use l j e0 e1 tp p2 in \<open>auto simp: moves_def\<close>)
  show ?thesis
    unfolding install_staged_def by (rule triple_step [OF migrate_kept [OF _ C]]) (use u e0 tp p1 in auto)
qed

lemma staged_ends:
  assumes g: "good_update u" and up: "updates u U d" and l: "of_update u (last recs)" "State (last recs) = StateBegin"
    and j: "jroot j = abs_path (u_root u)" "records j = recs" and b: "b \<Longrightarrow> \<not> hooked m0"
  shows "triple (kept (arrived b m0 u) m0 u (u_from u) recs)
    (step PhaseStage False (Append j (txn_record d (u_from u) StateStaged PhaseStage)) (\<lambda>j2.
     attempt (quiesce U ctx (hook_context U (u_from u) d))
       (\<lambda>e. if is_err ErrDeferred e then
              attempt (Append j2 (txn_record d (u_from u) StateDeferred PhaseQuiesce))
                (\<lambda>rerr. ret (PhaseQuiesce, False, Some (e @ rerr))) (\<lambda>_. ret (PhaseQuiesce, False, Some e))
            else ret (PhaseQuiesce, False, Some e))
       (install_staged U ctx d (u_from u) j2 (version_key_of u (u_to u)))))
    (ended b m0 u) (\<lambda>_ _. False)"
proof -
  let ?C = "arrived b m0 u" and ?r = "\<lambda>s ph. txn_record d (u_from u) s ph"
  let ?k = "kept ?C m0 u (u_from u)" and ?Q = "ended b m0 u" and ?F = "\<lambda>_ _. False"
  let ?s = "?r StateStaged PhaseStage" and ?d = "?r StateDeferred PhaseQuiesce"
  let ?r1 = "recs @ [?s]" let ?r2 = "?r1 @ [?d]" let ?j1 = "j\<lparr>records := ?r1\<rparr>"
  note u = up [unfolded updates_def] and C = sturdy_arrived [OF g, of b m0]
  have st: "State (?r s ph) = s" for s ph by (simp add: txn_record_def)
  have ok: "of_update u ?s" using txn_record_ok(1) [OF g, of d "u_from u"] u by simp
  have tp: "phaseIsTransactional PhaseStage" "phaseIsTransactional PhaseQuiesce" by (simp_all add: phaseIsTransactional_def)
  have e0: "?Q (ph, h, Some e) m" if "?k recs m" "phaseIsTransactional ph" for ph h e m
    using midwayI [OF that(1)] that l by (simp add: pointer_ok_def ended_def)
  have e1: "?Q (ph, h, Some e) m" if "?k ?r1 m" "phaseIsTransactional ph" for ph h e m
    using midwayI [OF that(1)] that by (simp add: pointer_ok_def ended_def st)
  have e2: "?Q (PhaseQuiesce, h, Some e) m" if "?k ?r2 m" "is_err ErrDeferred e" for h e m
    using that tp st unfolding ended_def put_off_def by fastforce
  have df: "triple (?k ?r1) (if is_err ErrDeferred e then
        attempt (Append ?j1 ?d) (\<lambda>rerr. ret (PhaseQuiesce, False, Some (e @ rerr))) (\<lambda>_. ret (PhaseQuiesce, False, Some e))
      else ret (PhaseQuiesce, False, Some e)) ?Q ?F" for e
  proof (rule triple_if)
    assume e: "is_err ErrDeferred e"
    have ap: "triple (?k ?r1) (Append ?j1 ?d) (\<lambda>_. ?k ?r2) (\<lambda>_ m. ?k ?r1 m \<or> ?k ?r2 m)"
      using ok j st by (intro triple_weaken [OF txn_append [where C = ?C, OF g up C]]) (auto simp: moves_def)
    show "triple (?k ?r1) (attempt (Append ?j1 ?d) (\<lambda>rerr. ret (PhaseQuiesce, False, Some (e @ rerr))) (\<lambda>_. ret (PhaseQuiesce, False, Some e))) ?Q ?F"
      by (rule triple_attempt [OF ap]) (use e e1 e2 tp in \<open>auto simp: is_err_def intro!: triple_ret\<close>)
  qed (use e1 tp in \<open>auto intro: triple_ret\<close>)
  have qs: "stable (?k ?r1) (quiesce U ctx hc)" for hc using u by (intro quiesce_kept [OF _ C]) simp
  have fin: "triple (?k ?r1) (attempt (quiesce U ctx hc)
       (\<lambda>e. if is_err ErrDeferred e then
              attempt (Append ?j1 ?d) (\<lambda>rerr. ret (PhaseQuiesce, False, Some (e @ rerr))) (\<lambda>_. ret (PhaseQuiesce, False, Some e))
            else ret (PhaseQuiesce, False, Some e))
       (install_staged U ctx d (u_from u) ?j1 (version_key_of u (u_to u)))) ?Q ?F" for hc
    by (rule triple_attempt [OF qs df install_staged_ends [OF g up _ _ _ _ b]]) (use ok j st in auto)
  show ?thesis
    by (rule triple_step_append [where C = ?C and Q = ?Q, OF g up C]) (use l j e0 e1 tp fin in \<open>auto simp: moves_def\<close>)
qed

section \<open>The transaction\<close>

text \<open>
  \<open>sound\<close>: an install tree on which \<open>current\<close> names \<open>v\<close> as the journal lets it; the tree of the old version is as it
  was unless the update is committed, and the new version is complete and authentic if it is current.
\<close>

definition sound :: "(string \<Rightarrow> string \<Rightarrow> bool) \<Rightarrow> FileRef list \<Rightarrow> update \<Rightarrow> string \<Rightarrow> Record list \<Rightarrow> (string \<Rightarrow> memNode option) \<Rightarrow> bool" where
  "sound authentic fs u v recs g \<longleftrightarrow> update_inv (u\<lparr>u_snap := g\<rparr>) v recs g \<and>
     (in_flight u v recs \<or> State (last recs) = StateDeferred \<and> v = u_from u) \<and>
     (State (last recs) \<noteq> StateCommitted \<longrightarrow> u_from u \<noteq> [] \<longrightarrow> (\<forall>q. in_tree (version_key_of u (u_from u)) q \<longrightarrow> g q = u_snap u q)) \<and>
     (v = u_to u \<longrightarrow> complete_tree authentic (version_dir (u_root u) (u_to u)) fs g)"

text \<open>
  How a transaction that has begun ends: committed if it reports no error.  With an error it is committed only if a call
  failed, and deferred only if it says so.
\<close>

definition begun :: "(string \<Rightarrow> string \<Rightarrow> bool) \<Rightarrow> FileRef list \<Rightarrow> bool \<Rightarrow> mem \<Rightarrow> update \<Rightarrow> verdict \<Rightarrow> mem \<Rightarrow> bool" where
  "begun authentic fs b m0 u x m \<longleftrightarrow> (case x of (ph, held, err) \<Rightarrow>
     \<exists>g v recs. tab m0 g m \<and> sound authentic fs u v recs g \<and>
        (case err of
           None \<Rightarrow> State (last recs) = StateCommitted
         | Some e \<Rightarrow> hooked m0 \<or> phaseIsTransactional ph \<and> (b \<longrightarrow> clear_scratch m0 g (current_key u)) \<and>
             State (last recs) \<in> {StateBegin, StateStaged, StateMigrated, StateSwapped, StateDeferred} \<and>
             (State (last recs) = StateDeferred \<longrightarrow> is_err ErrDeferred e)))"

text \<open>A transaction whose first record could not be written has changed nothing but a scratch file.\<close>

definition concluded :: "(string \<Rightarrow> string \<Rightarrow> bool) \<Rightarrow> FileRef list \<Rightarrow> bool \<Rightarrow> mem \<Rightarrow> update \<Rightarrow> (string \<Rightarrow> memNode option) \<Rightarrow> verdict \<Rightarrow> mem \<Rightarrow> bool" where
  "concluded authentic fs b m0 u f x m \<longleftrightarrow> begun authentic fs b m0 u x m \<or>
     fst x = PhaseCheck \<and> snd (snd x) \<noteq> None \<and> hooked m0 \<and> (tab m0 f m \<or> unwritten m0 f (journal_key u) m)"

lemma concluded_at:
  assumes h: "update_inv (u\<lparr>u_snap := g\<rparr>) v recs h" "tab m0 h m" "b \<longrightarrow> clear_scratch m0 h (current_key u)"
    and old: "u_from u \<noteq> [] \<longrightarrow> (\<forall>q. in_tree (version_key_of u (u_from u)) q \<longrightarrow> g q = u_snap u q)"
    and to: "v = u_to u \<longrightarrow> complete_tree authentic (version_dir (u_root u) (u_to u)) fs h"
    and st: "pointer_ok u (State (last recs)) v"
      "State (last recs) \<in> {StateBegin, StateStaged, StateMigrated, StateSwapped, StateDeferred}"
      "State (last recs) = StateDeferred \<longrightarrow> is_err ErrDeferred e" and ph: "phaseIsTransactional ph \<or> hooked m0"
  shows "concluded authentic fs b m0 u f (ph, held, Some e) m"
proof -
  have "h q = u_snap u q" if "u_from u \<noteq> []" "in_tree (version_key_of u (u_from u)) q" for q
    using h(1) old that by (simp add: update_inv_def trees_ok_def)
  moreover have "in_flight u v recs \<or> State (last recs) = StateDeferred \<and> v = u_from u"
    using st by (auto simp: in_flight_def pointer_ok_def)
  ultimately have "sound authentic fs u v recs h" using self_snap [OF h(1)] to by (simp add: sound_def)
  then show ?thesis using h st ph unfolding concluded_def begun_def by auto
qed

lemma concluded_kept:
  assumes k: "kept (arrived b m0 (u\<lparr>u_snap := g\<rparr>)) m0 (u\<lparr>u_snap := g\<rparr>) v recs m"
    and old: "u_from u \<noteq> [] \<longrightarrow> (\<forall>q. in_tree (version_key_of u (u_from u)) q \<longrightarrow> g q = u_snap u q)"
    and to: "v = u_to u \<longrightarrow> complete_tree authentic (version_dir (u_root u) (u_to u)) fs g"
    and st: "pointer_ok u (State (last recs)) v"
      "State (last recs) \<in> {StateBegin, StateStaged, StateMigrated, StateSwapped, StateDeferred}"
      "State (last recs) = StateDeferred \<longrightarrow> is_err ErrDeferred e" and ph: "phaseIsTransactional ph \<or> hooked m0"
  shows "concluded authentic fs b m0 u f (ph, held, Some e) m"
proof -
  obtain h where h: "update_inv (u\<lparr>u_snap := g\<rparr>) v recs h" "arrived b m0 (u\<lparr>u_snap := g\<rparr>) h" "tab m0 h m"
    using k by (auto simp: kept_def)
  have "complete_tree authentic (version_dir (u_root u) (u_to u)) fs h" if "v = u_to u"
    using to that h(2) complete_tree_cong [of "version_dir (u_root u) (u_to u)" h g authentic fs] by (simp add: arrived_def)
  then show ?thesis using h by (intro concluded_at [OF h(1,3) _ old _ st ph]) (auto simp: arrived_def)
qed

lemma ended_concluded:
  assumes e: "ended b m0 (u\<lparr>u_snap := g\<rparr>) x m"
    and old: "u_from u \<noteq> [] \<longrightarrow> (\<forall>q. in_tree (version_key_of u (u_from u)) q \<longrightarrow> g q = u_snap u q)"
    and to: "complete_tree authentic (version_dir (u_root u) (u_to u)) fs g"
  shows "concluded authentic fs b m0 u f x m"
proof -
  obtain ph held err where x: "x = (ph, held, err)" by (cases x)
  let ?u = "u\<lparr>u_snap := g\<rparr>"
  have fin: "\<exists>h v recs. tab m0 h m \<and> sound authentic fs u v recs h \<and> State (last recs) = StateCommitted" if "settled_in m0 ?u m"
  proof -
    obtain h recs where h: "tab m0 h m" "update_inv (u\<lparr>u_snap := h\<rparr>) (u_to u) recs h" "State (last recs) = StateCommitted"
      "arrived False m0 ?u h" using \<open>settled_in m0 ?u m\<close> by (auto simp: settled_in_def)
    have "complete_tree authentic (version_dir (u_root u) (u_to u)) fs h"
      using to h(4) complete_tree_cong [of "version_dir (u_root u) (u_to u)" h g authentic fs] by (simp add: arrived_def)
    then have "sound authentic fs u (u_to u) recs h" using h by (simp add: sound_def in_flight_def pointer_ok_def)
    then show ?thesis using h by blast
  qed
  show ?thesis
  proof (cases err)
    case None
    then show ?thesis using e fin x by (fastforce simp: ended_def concluded_def begun_def)
  next
    case (Some er)
    consider "settled_in m0 ?u m" "hooked m0" | "phaseIsTransactional ph" "midway b m0 ?u m"
      | "phaseIsTransactional ph" "put_off b m0 ?u m" "is_err ErrDeferred er" using e x Some by (auto simp: ended_def)
    then show ?thesis
    proof cases
      case 1
      then show ?thesis using fin x Some by (fastforce simp: concluded_def begun_def)
    next
      case 2
      then obtain v recs where "kept (arrived b m0 ?u) m0 ?u v recs m" "pointer_ok u (State (last recs)) v"
        "State (last recs) \<in> {StateBegin, StateStaged, StateMigrated, StateSwapped}" by (auto simp: midway_def)
      then show ?thesis using 2 old to unfolding x Some by (intro concluded_kept) auto
    next
      case 3
      then obtain recs where "kept (arrived b m0 ?u) m0 ?u (u_from u) recs m" "State (last recs) = StateDeferred" by (auto simp: put_off_def)
      then show ?thesis using 3 old to unfolding x Some by (intro concluded_kept) (auto simp: pointer_ok_def)
    qed
  qed
qed

context materializer
begin

lemma transaction_ends:
  assumes rd: "ready u f0" "stage_ready (u_root u) f0" "b \<longrightarrow> clear_scratch m0 f0 (current_key u)"
    and up: "updates u U d" and T: "up_trust U = T" and b: "b \<Longrightarrow> \<not> hooked m0"
    and j: "jroot j = abs_path (u_root u)" "\<And>r. State r = StateBegin \<Longrightarrow> next_history (records j) r = Inr [r]"
  shows "triple (tab m0 f0) (transaction U ctx d (u_from u) j) (concluded authentic (elems (ds_files d)) b m0 u f0) (\<lambda>_ _. False)"
proof -
  let ?C = "\<lambda>f. stage_ready (u_root u) f \<and> (b \<longrightarrow> clear_scratch m0 f (current_key u))"
  let ?Q = "concluded authentic (elems (ds_files d)) b m0 u f0" and ?F = "\<lambda>_ _. False"
  let ?r = "txn_record d (u_from u) StateBegin PhaseCheck" and ?dir = "version_key_of u (u_to u)"
  let ?k = "kept ?C m0 u (u_from u) [?r]"
  note u = up [unfolded updates_def]
  have u': "up_root U = abs_path (u_root u)" "up_form U = u_pf u" using u by simp_all
  have g: "good_update u" and b0: "base_ok u f0" using rd by (simp_all add: ready_def)
  note s = update_simples [OF g]
  have ft: "u_from u \<noteq> u_to u" using g by (simp add: good_update_def)
  have C: "sturdy u ?C" by (rule sturdy_conj [OF sturdy_stage_ready [OF s(1)] sturdy_clear [OF g]])
  have r: "of_update u ?r" "acceptable ?r" "State ?r = StateBegin" using txn_record_ok [OF g, of d "u_from u"] u by simp_all
  have C1: "?C (f0(journal_key u \<mapsto> file_node MetaFileMode (journal_bytes [?r])))"
    using C [unfolded sturdy_def, THEN conjunct1, rule_format, of f0 JournalName "Some (file_node MetaFileMode (journal_bytes [?r]))"]
      rd(2,3) b0 names_distinct(5) by (simp add: base_ok_def)
  have e0: "?Q (ph, h, Some e) m" if k: "?k m" and ph: "phaseIsTransactional ph \<or> hooked m0" for ph h e m
  proof -
    obtain f where f: "update_inv u (u_from u) [?r] f" "?C f" "tab m0 f m" using k unfolding kept_def by blast
    show ?thesis
      by (rule concluded_at [where g = "u_snap u", OF _ f(3)]) (use f ph r(3) ft in \<open>auto simp: pointer_ok_def\<close>)
  qed
  have ap: "triple (tab m0 f0) (Append j ?r) (\<lambda>j' m. ?k m \<and> j' = j\<lparr>records := [?r]\<rparr>)
      (\<lambda>_ m. (unwritten m0 f0 (journal_key u) m \<or> tab m0 f0 m \<or> ?k m) \<and> hooked m0)"
    by (rule triple_weaken [OF Append_begin [OF rd(1) r j(1) j(2) [OF r(3)] C C1]]) auto
  have E1: "?Q (PhaseCheck, h, Some e) m" if "(unwritten m0 f0 (journal_key u) m \<or> tab m0 f0 m \<or> ?k m) \<and> hooked m0" for h e m
    using that e0 by (auto simp: concluded_def)
  let ?P = "\<lambda>g. (u_from u \<noteq> [] \<longrightarrow> (\<forall>q. in_tree (version_key_of u (u_from u)) q \<longrightarrow> g q = u_snap u q)) \<and>
     complete_tree authentic (version_dir (u_root u) (u_to u)) (elems (ds_files d)) g"
  let ?K = "\<lambda>g. kept (arrived b m0 (u\<lparr>u_snap := g\<rparr>)) m0 (u\<lparr>u_snap := g\<rparr>) (u_from u) [?r]"
  have st: "triple ?k (Stage (Some (up_trust U)) (up_inflate U) (up_form U) ctx (up_root U) (up_launcher U) (Some d) routes)
      (\<lambda>dir m. \<exists>g. ?K g m \<and> ?P g \<and> dir = ?dir) (\<lambda>e m. ?Q (PhaseStage, False, Some e) m)" for routes
  proof (rule triple_kept)
    fix f
    assume inv: "update_inv u (u_from u) [?r] f" and Cf: "?C f"
    have tree: "f q = u_snap u q" if "u_from u \<noteq> []" "in_tree (version_key_of u (u_from u)) q" for q
      using inv that by (simp add: update_inv_def trees_ok_def)
    have clear: "clear_scratch m0 h (current_key u)" if "staged u f h" "b" for h
    proof -
      have "h (tmp_of (pid m0) (current_key u) k) = f (tmp_of (pid m0) (current_key u) k)" for k
        using that(1) tmp_apart [OF g, of _ "pid m0" k] unfolding staged_def by blast
      then show ?thesis using Cf that(2) by (simp add: clear_scratch_def)
    qed
    note sv = staged_inv [OF inv]
    show "triple (tab m0 f) (Stage (Some (up_trust U)) (up_inflate U) (up_form U) ctx (up_root U) (up_launcher U) (Some d) routes)
      (\<lambda>dir m. \<exists>g. ?K g m \<and> ?P g \<and> dir = ?dir) (\<lambda>e m. ?Q (PhaseStage, False, Some e) m)"
      unfolding u' T
    proof (rule triple_weaken [OF Stage_staged [OF inv]])
      show "stage_ready (u_root u) f" using Cf by simp
      show "\<exists>g. ?K g m \<and> ?P g \<and> dir = ?dir"
        if st: "dir = ?dir \<and> (\<exists>h. tab m0 h m \<and> staged u f h \<and> dirs_tab h (versions_dir u @ [u_to u]) \<and>
          complete_tree authentic (version_dir (u_root u) (u_to u)) (elems (ds_files d)) h)" for dir m
      proof -
        obtain h where h: "tab m0 h m" "staged u f h" "complete_tree authentic (version_dir (u_root u) (u_to u)) (elems (ds_files d)) h"
          using st by blast
        have "arrived b m0 (u\<lparr>u_snap := h\<rparr>) h" using clear [OF h(2)] by (simp add: arrived_def)
        then have "?K h m" using sv(1) [OF h(2)] h(1) by (intro keptI)
        moreover have "?P h" using sv(2) [OF h(2)] tree h(3) by simp
        ultimately show ?thesis using st by blast
      qed
      show "?Q (PhaseStage, False, Some e) m" if st: "\<exists>h. tab m0 h m \<and> staged u f h" for e m
      proof -
        obtain h where h: "tab m0 h m" "staged u f h" using st by blast
        show ?thesis
          by (rule concluded_at [OF sv(1) [OF h(2)] h(1)])
            (use clear [OF h(2)] sv(2) [OF h(2)] tree r(3) ft in \<open>auto simp: pointer_ok_def phaseIsTransactional_def\<close>)
      qed
    qed (use u in auto)
  qed
  have sg: "triple ?k (bind (ask U (Planner.route (up_history U) d (u_from u))) (\<lambda>routes.
          Stage (Some (up_trust U)) (up_inflate U) (up_form U) ctx (up_root U) (up_launcher U) (Some d) routes))
      (\<lambda>dir m. \<exists>g. ?K g m \<and> ?P g \<and> dir = ?dir) (\<lambda>e m. ?Q (PhaseStage, False, Some e) m)"
    by (rule triple_bind [OF _ st], rule triple_weaken [OF reads_kept [OF reads_ask]])
      (use e0 in \<open>auto simp: phaseIsTransactional_def\<close>)
  show ?thesis
    unfolding transaction_def
  proof (rule triple_step [OF ap], erule E1, rule triple_fact, rule triple_step [OF sg], assumption, rule triple_Ex, rule triple_fact)
    fix j' versionDir g
    assume j': "j' = j\<lparr>records := [?r]\<rparr>" and P: "?P g \<and> versionDir = ?dir"
    have sel: "u_root (u\<lparr>u_snap := g\<rparr>) = u_root u" "u_from (u\<lparr>u_snap := g\<rparr>) = u_from u" "u_to (u\<lparr>u_snap := g\<rparr>) = u_to u" by simp_all
    show "triple (?K g)
      (step PhaseStage False (Append j' (txn_record d (u_from u) StateStaged PhaseStage)) (\<lambda>j2.
       attempt (quiesce U ctx (hook_context U (u_from u) d))
         (\<lambda>e. if is_err ErrDeferred e then
                attempt (Append j2 (txn_record d (u_from u) StateDeferred PhaseQuiesce))
                  (\<lambda>rerr. ret (PhaseQuiesce, False, Some (e @ rerr))) (\<lambda>_. ret (PhaseQuiesce, False, Some e))
              else ret (PhaseQuiesce, False, Some e))
         (install_staged U ctx d (u_from u) j2 versionDir))) ?Q ?F"
      unfolding P [THEN conjunct2]
    proof (rule triple_weaken [OF staged_ends [of "u\<lparr>u_snap := g\<rparr>" U d "[?r]" j' b m0 ctx, unfolded sel]])
      show "?Q x m" if "ended b m0 (u\<lparr>u_snap := g\<rparr>) x m" for x m using ended_concluded [OF that] P by simp
    qed (use \<open>good_update u\<close> up r j(1) b P j' in auto)
  qed
qed

end

end
