(* ===== verification/UpdateLaws.thy ===== *)
theory UpdateLaws
  imports UpdateSafe Foreign
begin

text \<open>
  An update from the check to the commit, on whatever install tree an earlier one left: recovery, what is refused, the
  probation record, the transaction, and its undoing.
\<close>

section \<open>Conditions on the tree around the update\<close>

text \<open>The probation record is a file, if it is there, and so are the scratch files of its writes.\<close>

definition record_ok :: "update \<Rightarrow> (string \<Rightarrow> memNode option) \<Rightarrow> bool" where
  "record_ok u f \<longleftrightarrow> plain_file (f (key u [MetaName, ProbationName])) \<and>
     (\<forall>i k. plain_file (f (key u [MetaName, ProbationName @ scratch_suffix i k])))"

lemma sturdy_record: "sturdy u (record_ok u)"
  unfolding sturdy_def
proof (intro conjI allI impI)
  fix f e t
  assume "record_ok u f \<and> wf_tab f \<and> dirs_tab f (meta_dir u) \<and> simple e \<and> e \<noteq> StagingName \<and> plain_file t \<and> plain_file (f (abs_path (meta_dir u @ [e])))"
  then show "record_ok u (f(abs_path (meta_dir u @ [e]) := t))" by (simp add: record_ok_def)
next
  fix f g
  assume a: "record_ok u f" "\<forall>q. near (u_root u) q \<longrightarrow> g q = f q"
  have "g (key u [MetaName, e]) = f (key u [MetaName, e])" for e
    using a(2) near_below [of MetaName "u_root u" "[e]"] by simp
  then show "record_ok u g" using a(1) by (simp add: record_ok_def)
qed

lemma frail_record: "frail (record_ok u)"
  by (simp add: frail_def record_ok_def pruned_in_tree)

lemma frail_clear: "frail (\<lambda>f. b \<longrightarrow> clear_scratch m0 f p)"
  by (simp add: frail_def clear_scratch_def pruned_in_tree)

lemma frail_conj: "frail C \<Longrightarrow> frail D \<Longrightarrow> frail (\<lambda>f. C f \<and> D f)"
  by (simp add: frail_def)

lemma sturdy_swept:
  assumes g: "good_update u"
  shows "sturdy u (swept u)"
  unfolding sturdy_def
proof (intro conjI allI impI)
  note s = update_simples [OF g]
  fix f e t
  assume a: "swept u f \<and> wf_tab f \<and> dirs_tab f (meta_dir u) \<and> simple e \<and> e \<noteq> StagingName \<and> plain_file t \<and> plain_file (f (abs_path (meta_dir u @ [e])))"
  have "\<not> in_tree (staging_key u) (abs_path (meta_dir u @ [e]))"
    using key_tree [OF g, of "[MetaName, StagingName]" "[MetaName, e]"] a by auto
  then show "swept u (f(abs_path (meta_dir u @ [e]) := t))" using a by (auto simp: swept_def)
next
  fix f h
  assume a: "swept u f" "\<forall>q. near (u_root u) q \<longrightarrow> h q = f q"
  have "near (u_root u) q" if "in_tree (staging_key u) q" for q
    using that in_tree_append [of "meta_dir u" "[StagingName]"] in_tree_trans unfolding near_def by fastforce
  then show "swept u h" using a by (simp add: swept_def)
qed

section \<open>The probation record\<close>

lemma meta_file_kept:
  assumes inv: "update_inv u v recs f" and C: "sturdy u C" "C f" and e: "foreign e" and t: "plain_file t" "plain_file (f (key u [MetaName, e]))"
  shows "update_inv u v recs (f(key u [MetaName, e] := t))" "C (f(key u [MetaName, e] := t))"
proof -
  note i = inv_parts [OF inv]
  have se: "simple e" "e \<noteq> StagingName" using e by (simp_all add: foreign_def)
  have wf: "wf_tab (f(key u [MetaName, e] := t))"
    using t(2) se(1) by (intro wf_tab_file [OF i(5,2) se(1)]) (auto simp: plain_file_def)
  show "update_inv u v recs (f(key u [MetaName, e] := t))"
    by (rule inv_foreign [OF inv e wf]) auto
  show "C (f(key u [MetaName, e] := t))"
    using C [unfolded sturdy_def] i(2,5) se t by simp
qed

lemma WriteProbation_kept:
  assumes C: "sturdy u C" "\<And>f. C f \<Longrightarrow> record_ok u f"
  shows "stable (kept C m0 u v recs) (WriteProbation (abs_path (u_root u)) x)"
proof (rule triple_kept)
  fix f
  assume inv: "update_inv u v recs f" and Cf: "C f"
  let ?p = "key u [MetaName, ProbationName]" and ?n = "file_node MetaFileMode (probation_bytes x)"
  let ?t = "\<lambda>k. key u [MetaName, ProbationName @ scratch_suffix (pid m0) k]"
  have tmp: "tmp_of (pid m0) ?p k = ?t k" for k using tmp_key_of [of "pid m0" u "[MetaName]" ProbationName k] by simp
  have r: "record_ok u f" by (rule C(2) [OF Cf])
  have self: "kept C m0 u v recs m" if "tab m0 f m" for m using inv Cf that by (rule keptI)
  note at = meta_file_kept [where C = C, OF inv C(1) Cf foreign_names(2)]
  have un: "kept C m0 u v recs m" if w: "unwritten m0 f ?p m" for m
  proof -
    obtain k t where k: "tab m0 (f(?t k := t)) m" "plain_file t" using w unfolding unwritten_def tmp by blast
    have pl: "plain_file (f (?t k))" using r by (simp add: record_ok_def)
    show ?thesis by (rule keptI [where C = C, OF at(1) [OF k(2) pl] at(2) [OF k(2) pl] k(1)])
  qed
  have wr: "kept C m0 u v recs m" if w: "written m0 f ?p ?n m" for m
  proof -
    obtain k where k: "tab m0 (f(?t k := None, ?p \<mapsto> ?n)) m" using w unfolding written_def tmp by blast
    have pl: "plain_file None" "plain_file (f (?t k))" "plain_file ((f(?t k := None)) ?p)" using r by (simp_all add: record_ok_def)
    have n: "plain_file (Some ?n)" by simp
    note f2 = meta_file_kept [where C = C, OF at(1) [OF pl(1,2)] C(1) at(2) [OF pl(1,2)] foreign_names(1) n pl(3)]
    show ?thesis by (rule keptI [where C = C, OF f2 k])
  qed
  show "triple (tab m0 f) (WriteProbation (abs_path (u_root u)) x) (\<lambda>_. kept C m0 u v recs) (\<lambda>_. kept C m0 u v recs)"
  proof (cases "sound_probation x")
    case True
    have "with_dir DirMode (abs_path (meta_dir u)) f = f" by (rule with_dir_inv [OF inv])
    then show ?thesis
      using pro.store_plain [OF meta_ok_inv [OF inv] True refl refl, of m0] r un wr self
      by (intro triple_weaken [OF pro.store_plain [OF meta_ok_inv [OF inv] True, of ?p "abs_path (meta_dir u)" m0]])
        (auto simp: record_ok_def tmp)
  next
    case False
    then obtain e where "WriteProbation (abs_path (u_root u)) x = throw e" using pro.store_bad by blast
    then show ?thesis using self by (simp add: triple_throw)
  qed
qed

lemma armProbation_kept:
  assumes C: "sturdy u C" "\<And>f. C f \<Longrightarrow> record_ok u f" and r: "up_root U = abs_path (u_root u)"
  shows "stable (kept C m0 u v recs) (armProbation U installed d)"
proof -
  have w: "stable (kept C m0 u v recs) (WriteProbation (up_root U) x)" for x unfolding r by (rule WriteProbation_kept [OF C])
  have rd: "stable (kept C m0 u v recs) p" if "reads p" for p :: "(mem, 'b) prog" by (rule reads_kept [OF that])
  show ?thesis
    unfolding armProbation_def Let_def case_prod_beta
    by (intro stable_if stable_bind stable_pure rd [OF reads_probationFor] rd [OF reads_ReadProbation])
      (auto split: option.splits intro!: stable_intros w rd [OF reads_versionInstalled])
qed

section \<open>What is refused\<close>

lemma preflight_kept:
  assumes C: "sturdy u C" "\<And>f. C f \<Longrightarrow> record_ok u f" and h: "honest m0"
    and U: "up_root U = abs_path (u_root u)" "up_form U = u_pf u" "quiet_host (u_root u) U"
  shows "triple (kept C m0 u v recs) (preflight U d frm)
    (\<lambda>x m. kept C m0 u v recs m \<and> (x = (v, \<lparr> jroot = abs_path (u_root u), records = recs \<rparr>) \<and> v \<noteq> ds_version d))
    (\<lambda>_. kept C m0 u v recs)"
proof -
  let ?k = "kept C m0 u v recs" and ?j = "\<lparr> jroot = abs_path (u_root u), records = recs \<rparr>"
  have iv: "triple ?k (installedVersion U) (\<lambda>x m. ?k m \<and> x = v) (\<lambda>_. ?k)"
    unfolding installedVersion_def U(1,2) by (rule triple_weaken [OF PointerTarget_kept [where C = C]]) auto
  have cr: "triple ?k (check_release U d frm v) (\<lambda>_ m. ?k m \<and> v \<noteq> ds_version d) (\<lambda>_. ?k)"
  proof (cases "v = ds_version d")
    case True
    then show ?thesis by (auto simp: check_release_def intro: triple_throw)
  next
    case False
    then show ?thesis by (intro triple_weaken [OF reads_kept [OF reads_check_release]]) auto
  qed
  have ah: "stable ?k (ask_host U d v)" by (rule ask_host_kept [OF U(3) C(1)])
  have op: "triple ?k (Open_journal (up_root U)) (\<lambda>x m. ?k m \<and> x = ?j) (\<lambda>_. ?k)"
    unfolding U(1) by (rule triple_weaken [OF Open_kept [where C = C, OF h]]) auto
  have ar: "stable ?k (armProbation U v d)" by (rule armProbation_kept [OF C U(1)])
  have rest: "triple ?k (bind (ask_host U d v) (\<lambda>_. bind (Open_journal (up_root U)) (\<lambda>j. bind (armProbation U v d) (\<lambda>_. ret (v, j)))))
      (\<lambda>x m. ?k m \<and> x = (v, ?j)) (\<lambda>_. ?k)"
    by (rule triple_bind [OF ah], rule triple_bind [OF op], rule triple_fact, rule triple_bind [OF ar]) (auto intro: triple_ret)
  show ?thesis
    unfolding preflight_def
    by (rule triple_bind [OF iv], rule triple_fact, simp only:, rule triple_bind [OF cr], rule triple_fact, rule triple_weaken [OF rest]) auto
qed

section \<open>The next update\<close>

text \<open>A release that fits the install of \<open>u\<close>, offered to an updater over it.\<close>

definition offered :: "update \<Rightarrow> 'h Updater \<Rightarrow> Descriptor \<Rightarrow> bool" where
  "offered u U d \<longleftrightarrow> up_root U = abs_path (u_root u) \<and> up_form U = u_pf u \<and> quiet_host (u_root u) U \<and> sorts (up_sort U) \<and>
     MinRetain \<le> pol_retain (up_policy U) \<and> \<not> Launcher_Enabled (up_launcher U) \<and>
     ds_name d \<noteq> [] \<and> valid_utf8 (ds_name d) \<and> good_version (ds_version d) \<and> 0 < ds_layout d \<and> placed (elems (ds_files d)) \<and>
     (\<forall>v\<in>{u_from u, u_to u}. 6 * (length (ds_name d) + length v + length (ds_version d)) \<le> 8000)"

definition next_update :: "update \<Rightarrow> Descriptor \<Rightarrow> string \<Rightarrow> update" where
  "next_update u d v = \<lparr> u_pf = u_pf u, u_root = u_root u, u_name = ds_name d, u_from = v, u_to = ds_version d, u_snap = u_snap u \<rparr>"

lemma next_update_simps [simp]:
  "u_pf (next_update u d v) = u_pf u" "u_root (next_update u d v) = u_root u" "u_name (next_update u d v) = ds_name d"
  "u_from (next_update u d v) = v" "u_to (next_update u d v) = ds_version d" "u_snap (next_update u d v) = u_snap u"
  by (simp_all add: next_update_def)

lemma in_flight_ends: "in_flight u v recs \<Longrightarrow> v = u_from u \<or> v = u_to u"
  by (auto simp: in_flight_def pointer_ok_def split: if_splits)

lemma inv_tree:
  assumes "update_inv u v recs f" "v = u_from u \<or> v = u_to u" "v \<noteq> []" "in_tree (version_key_of u v) q"
  shows "f q = u_snap u q"
  using assms by (auto simp: update_inv_def trees_ok_def)

lemma next_updates: "offered u U d \<Longrightarrow> updates (next_update u d v) U d"
  by (simp add: offered_def updates_def)

lemma next_ready:
  assumes inv: "update_inv u v recs f" and v: "v = u_from u \<or> v = u_to u" "v \<noteq> ds_version d" and o: "offered u U d" and sw: "swept u f"
  shows "ready (next_update u d v) f" "stage_ready (u_root u) f"
proof -
  note i = inv_parts [OF inv]
  have st: "f (abs_path (staging_dir (u_root u) @ zs)) = None" for zs
    using sw in_tree_append [of "staging_dir (u_root u)" zs] by (simp add: swept_def)
  have "good_update (next_update u d v)" using i(1) v o by (auto simp: good_update_def offered_def)
  moreover have "base_ok (next_update u d v) f" using inv st [of "[ds_version d @ launcherPendingSuffix]"] by (simp add: update_inv_def base_ok_def)
  moreover have "f q = u_snap u q" if "v \<noteq> []" "in_tree (version_key_of u v) q" for q using inv_tree [OF inv v(1) that] .
  ultimately show "ready (next_update u d v) f" using i(6) by (simp add: ready_def)
  have "f q = None" if "in_tree (abs_path (scratch_dir (u_root u))) q" for q
    using sw that in_tree_append [of "staging_dir (u_root u)" "[scratchName]"] in_tree_trans unfolding swept_def by fastforce
  then show "stage_ready (u_root u) f" using i(2,3,5) st [of "[]"] st [of "[scratchName]"] by (simp add: stage_ready_def scratch_clean_def)
qed

section \<open>One release\<close>

lemma next_begin:
  assumes "State l = StateCommitted \<or> State l = StateRolledBack" "State r = StateBegin"
  shows "checkTransition l r = Inr ()"
proof -
  have "list_all (\<lambda>s. allowed s \<noteq> None \<and> StateBegin \<in> set (the (allowed s))) [StateCommitted, StateRolledBack]" by code_simp
  then show ?thesis using assms by (auto simp: checkTransition_def)
qed

text \<open>
  How an attempt on an install where \<open>current\<close> names \<open>v\<close> ends: a transaction was begun, or the install is still in the
  care of the update before.
\<close>

definition attempted :: "(string \<Rightarrow> string \<Rightarrow> bool) \<Rightarrow> bool \<Rightarrow> mem \<Rightarrow> update \<Rightarrow> Descriptor \<Rightarrow> string \<Rightarrow> verdict \<Rightarrow> mem \<Rightarrow> bool" where
  "attempted authentic b m0 u d v x m \<longleftrightarrow> begun authentic (elems (ds_files d)) b m0 (next_update u d v) x m \<and> v \<noteq> ds_version d \<or>
     (case x of (ph, held, err) \<Rightarrow> \<exists>e. err = Some e \<and> safe (\<lambda>_. True) m0 u v m \<and> (ph = PhaseCheck \<or> is_err ErrDeferred e))"

context materializer
begin

lemma apply_txn_ends:
  assumes inv: "update_inv u v recs f" and fl: "in_flight u v recs" and h: "honest m0"
    and rec: "record_ok u f" "b \<longrightarrow> clear_scratch m0 f (current_key u)"
    and o: "offered u U d" and T: "up_trust U = T" and b: "b \<Longrightarrow> \<not> hooked m0"
  shows "triple (tab m0 f) (apply_txn U ctx d frm) (attempted authentic b m0 u d v) (\<lambda>_ _. False)"
proof -
  let ?C = "\<lambda>h. record_ok u h \<and> (b \<longrightarrow> clear_scratch m0 h (current_key u))"
  let ?Q = "attempted authentic b m0 u d v" and ?F = "\<lambda>_ _. False" and ?p = "next_update u d v"
  note oo = o [unfolded offered_def]
  have U: "up_root U = abs_path (u_root u)" "up_form U = u_pf u" "quiet_host (u_root u) U" using oo by simp_all
  have g: "good_update u" by (rule inv_parts(1) [OF inv])
  have C: "sturdy u ?C" "frail ?C"
    using sturdy_conj [OF sturdy_record sturdy_clear [OF g]] frail_conj [OF frail_record frail_clear] by blast+
  have D: "sturdy u (tidy ?C u)" by (rule sturdy_conj [OF C(1) sturdy_swept [OF g]])
  have v: "v = u_from u \<or> v = u_to u" by (rule in_flight_ends [OF fl])
  have stop: "?Q (ph, held, Some e) m" if "safe C' m0 u v m" "ph = PhaseCheck \<or> is_err ErrDeferred e" for C' ph held e m
    using that kept_mono [where D = "\<lambda>_. True"] unfolding attempted_def safe_def by fastforce
  have start: "?Q (PhaseCheck, held, Some e) m" if "kept C' m0 u v rs m" "in_flight u v rs" for C' rs held e m
    using stop [of C'] that unfolding safe_def by blast
  have tr: "triple (kept (tidy ?C u) m0 u v rs) (transaction U ctx d v \<lparr> jroot = abs_path (u_root u), records = rs \<rparr>) ?Q ?F"
    if rs: "State (last rs) = verdict u v" "v \<noteq> ds_version d" for rs
  proof (rule triple_kept)
    fix f1
    assume inv1: "update_inv u v rs f1" and f1: "tidy ?C u f1"
    have rest: "State (last rs) = StateCommitted \<or> State (last rs) = StateRolledBack" "in_flight u v rs"
      using rs(1) v by (auto simp: verdict_def in_flight_def pointer_ok_def)
    have j: "next_history rs r = Inr [r]" if "State r = StateBegin" for r
      using next_begin [OF rest(1) that] that inv1 by (auto simp: next_history_def update_inv_def journal_at_def)
    show "triple (tab m0 f1) (transaction U ctx d v \<lparr> jroot = abs_path (u_root u), records = rs \<rparr>) ?Q ?F"
    proof (rule triple_weaken [OF transaction_ends [where u = ?p and ?f0.0 = f1 and b = b, unfolded next_update_simps]])
      show "ready ?p f1" "stage_ready (u_root u) f1" using next_ready [OF inv1 v rs(2) o] f1 by simp_all
      show "?Q x m" if c: "concluded authentic (elems (ds_files d)) b m0 ?p f1 x m" for x m
      proof -
        obtain ph held err where x: "x = (ph, held, err)" by (cases x)
        have "safe (\<lambda>_. True) m0 u v m" if "tab m0 f1 m \<or> unwritten m0 f1 (journal_key u) m"
        proof -
          have "kept (\<lambda>_. True) m0 u v rs m"
            using that unwritten_kept [where C = "\<lambda>_. True", OF inv1] keptI [where C = "\<lambda>_. True", OF inv1] by auto
          then show ?thesis using rest(2) unfolding safe_def by blast
        qed
        then show ?thesis using c rs(2) unfolding x concluded_def attempted_def by auto
      qed
    qed (use f1 next_updates [OF o] T b j in auto)
  qed
  let ?R = "resting (tidy ?C u) m0 u v (verdict u v)"
  have after: "triple ?R (step PhaseCheck False (preflight U d frm) (\<lambda>(installed, j). transaction U ctx d installed j)) ?Q ?F"
    unfolding resting_def
  proof (rule triple_Ex, rule triple_fact)
    fix rs :: "Record list"
    assume rs: "State (last rs) = verdict u v"
    have fl': "in_flight u v rs" using rs v by (auto simp: verdict_def in_flight_def pointer_ok_def)
    show "triple (kept (tidy ?C u) m0 u v rs) (step PhaseCheck False (preflight U d frm) (\<lambda>(installed, j). transaction U ctx d installed j)) ?Q ?F"
      by (rule triple_step [OF preflight_kept [where C = "tidy ?C u", OF D _ h U]])
        (use start [OF _ fl'] tr [OF rs] in \<open>auto intro!: triple_fact\<close>)
  qed
  have fr: "stable (kept ?C m0 u v recs) (check_floor U)" by (rule reads_kept [OF reads_check_floor])
  have rc: "triple (kept ?C m0 u v recs) (RecoverResult (up_form U) (up_root U) (up_migrate U)) (\<lambda>_. ?R) (\<lambda>_. safe ?C m0 u v)"
    unfolding U(1,2) by (rule triple_weaken [OF RecoverResult_kept [where C = ?C, OF h quiet_polite [OF U(3)] _ fl C]]) auto
  have "triple (kept ?C m0 u v recs) (apply_txn U ctx d frm) ?Q ?F"
    unfolding apply_txn_def
  proof (rule triple_step [OF fr], erule start [OF _ fl], rule triple_step [OF rc], erule stop, simp)
    fix x y
    show "triple ?R (if Deferred y \<and> rTo y = ds_version d then ret (PhaseQuiesce, False, Some [ErrDeferred])
       else step PhaseCheck False (preflight U d frm) (\<lambda>(installed, j). transaction U ctx d installed j)) ?Q ?F"
    proof (rule triple_if, rule triple_ret)
      fix w
      assume "?R w"
      then have "safe (tidy ?C u) m0 u v w" using v by (auto simp: resting_def verdict_def pointer_ok_def split: if_splits intro: safeI)
      then show "?Q (PhaseQuiesce, False, Some [ErrDeferred]) w" by (rule stop) simp
    qed (rule after)
  qed
  then show ?thesis by (rule triple_pre) (use inv rec in \<open>auto intro: keptI\<close>)
qed

end

section \<open>An update cut short\<close>

text \<open>
  \<open>survived\<close>: what is left is an install tree of some update, \<open>current\<close> where its journal lets it be; \<open>current\<close> names the
  version it named, whose tree is as it was, or the release, complete and authentic.
\<close>

definition survived ::
    "(string \<Rightarrow> string \<Rightarrow> bool) \<Rightarrow> update \<Rightarrow> Descriptor \<Rightarrow> string \<Rightarrow> (string \<Rightarrow> memNode option) \<Rightarrow> error option \<Rightarrow> (string \<Rightarrow> memNode option) \<Rightarrow> bool" where
  "survived authentic u d v f err g \<longleftrightarrow> (\<exists>p w recs. u_pf p = u_pf u \<and> u_root p = u_root u \<and> update_inv p w recs g \<and>
     (in_flight p w recs \<or> State (last recs) = StateDeferred \<and> w = u_from p) \<and>
     (if w = v then err \<noteq> None \<and> (v \<noteq> [] \<longrightarrow> (\<forall>q. in_tree (version_key_of u v) q \<longrightarrow> g q = f q))
      else w = ds_version d \<and> complete_tree authentic (version_dir (u_root u) w) (elems (ds_files d)) g))"

lemma sound_survived:
  assumes s: "sound authentic (elems (ds_files d)) (next_update u d v) w recs g" and v: "v \<noteq> ds_version d"
    and f: "\<And>q. v \<noteq> [] \<Longrightarrow> in_tree (version_key_of u v) q \<Longrightarrow> u_snap u q = f q"
    and c: "err = None \<Longrightarrow> State (last recs) = StateCommitted"
  shows "survived authentic u d v f err g"
proof -
  let ?p = "(next_update u d v)\<lparr>u_snap := g\<rparr>"
  have fl: "in_flight (next_update u d v) w recs \<or> State (last recs) = StateDeferred \<and> w = v" using s by (simp add: sound_def)
  then have w: "w = v \<or> w = ds_version d" using in_flight_ends by fastforce
  have nc: "State (last recs) \<noteq> StateCommitted" if "w = v" using fl that v by (auto simp: in_flight_def pointer_ok_def)
  show ?thesis
    unfolding survived_def
  proof (intro exI [of _ ?p] exI [of _ w] exI [of _ recs] conjI)
    show "update_inv ?p w recs g" using s by (simp add: sound_def)
    show "in_flight ?p w recs \<or> State (last recs) = StateDeferred \<and> w = u_from ?p" using fl by simp
    show "if w = v then err \<noteq> None \<and> (v \<noteq> [] \<longrightarrow> (\<forall>q. in_tree (version_key_of u v) q \<longrightarrow> g q = f q))
      else w = ds_version d \<and> complete_tree authentic (version_dir (u_root u) w) (elems (ds_files d)) g"
      using s w nc c f by (auto simp: sound_def)
  qed simp_all
qed

lemma attempted_survived:
  assumes a: "attempted authentic b m0 (u\<lparr>u_snap := f\<rparr>) d v (ph, held, err) m" and fl: "v = u_from u \<or> v = u_to u"
  shows "survived authentic u d v f err (node_at m)"
proof -
  let ?u = "u\<lparr>u_snap := f\<rparr>"
  have same: "survived authentic ?u = survived authentic u" by (simp add: survived_def fun_eq_iff)
  consider "begun authentic (elems (ds_files d)) b m0 (next_update ?u d v) (ph, held, err) m" "v \<noteq> ds_version d"
    | e where "err = Some e" "safe (\<lambda>_. True) m0 ?u v m" using a by (auto simp: attempted_def)
  then have "survived authentic ?u d v f err (node_at m)"
  proof cases
    case 1
    then obtain g w recs where "tab m0 g m" "sound authentic (elems (ds_files d)) (next_update ?u d v) w recs g"
      "err = None \<Longrightarrow> State (last recs) = StateCommitted" unfolding begun_def prod.case by (cases err) auto
    then show ?thesis using 1(2) by (intro sound_survived) (auto simp: tab_def)
  next
    case 2
    then obtain recs where k: "update_inv ?u v recs (node_at m)" "in_flight ?u v recs" by (auto simp: safe_def kept_def tab_def)
    then show ?thesis using 2(1) inv_tree [OF k(1)] fl
      unfolding survived_def by (intro exI [of _ ?u] exI [of _ v] exI [of _ recs]) auto
  qed
  then show ?thesis unfolding same .
qed


end
