(* ===== verification/UpdateSample.thy ===== *)
theory UpdateSample
  imports UpdateLaws
begin

text \<open>
  The theorem on interrupted updates, applied: an updater without hooks on the sample install, whose last update was
  interrupted after its first record.
\<close>

definition sample_updater :: "unit Updater" where
  "sample_updater =
     \<lparr> up_client = \<lparr> u_channel = ''stable'', u_goos = ''linux'', u_goarch = ''amd64'', u_clientVersion = [], u_allowDowngrade = False \<rparr>,
       up_form = symlinkPointer, up_root = ''/'', up_clientID = [], up_sha256 = (\<lambda>s. s),
       up_trust = client_materializer small_client (\<lambda>_. ()), up_refresh = (\<lambda>_. Inr ()), up_latest = (\<lambda>_ _ _ _. Inr sample_release),
       up_policies = None, up_history = None, up_world = (\<lambda>_. ()), up_inflate = (\<lambda>_. ([], None)), up_sort = stable_sort,
       up_launcher = \<lparr> l_source = [], l_name = [] \<rparr>, up_clock_of = (\<lambda>_. Inl []), up_build = 0, up_now = (\<lambda>_. 0), up_polls = 0,
       up_check = None, up_migrate = None, up_prompt = None, up_coordinate = None, up_report = None, up_lock = None,
       up_elevator = None, up_registry = None, up_outcome_of = (\<lambda>_. Inl []),
       up_policy = \<lparr> pol_verify = True, pol_retain = 2, pol_elevation = ElevationNone, pol_timeout = 0, pol_onBusy = BusyForce,
         pol_probation = \<lparr> hp_attempts = 3, hp_restarts = 3, hp_follow = False, hp_max = 0 \<rparr> \<rparr> \<rparr>"

abbreviation sample_cut :: mem where "sample_cut \<equiv> sample_disk ''1.0.0'' sample_begun"

lemma sample_offered: "offered sample_update sample_updater sample_release"
proof -
  have "good_version ''1.2.0''" unfolding good_version_def short_version_def by code_simp
  moreover have "valid_utf8 ''app''" by code_simp
  moreover have "quiet_host [] sample_updater" by (simp add: quiet_host_def sample_updater_def)
  ultimately show ?thesis
    using sample_placed sorts_stable
    by (simp add: offered_def sample_update_def sample_updater_def sample_release_def sample_descriptor_def sample_keys MinRetain_def Launcher_Enabled_def)
qed

lemma sample_record: "record_ok sample_update (node_at sample_cut)"
proof -
  have "abs_path [MetaName, e] = ''/.updater/'' @ e" for e by (simp add: abs_path_def layout_names)
  then show ?thesis by (simp add: record_ok_def sample_update_def sample_node layout_names)
qed


end
