(* ===== verification/UpdateUndo.thy ===== *)
theory UpdateUndo
  imports UpdateSample
begin

text \<open>
  What an updater reports of a release is what has happened to the install, as long as no filesystem call fails.
\<close>

section \<open>Undoing\<close>

lemma Rollback_settles:
  assumes inv: "update_inv u v recs f" and st: "State (last recs) \<in> {StateBegin, StateStaged, StateMigrated, StateSwapped}"
    and nh: "\<not> hooked m0" and cs: "clear_scratch m0 f (current_key u)"
    and dir: "u_from u \<noteq> [] \<longrightarrow> dirs_tab f (versions_dir u @ [u_from u])" and pol: "polite m0 u False mig"
  shows "triple (tab m0 f) (Rollback (u_pf u) (abs_path (u_root u)) mig)
    (\<lambda>_. resting (\<lambda>_. True) m0 u (u_from u) StateRolledBack) (\<lambda>_ _. False)"
proof -
  let ?j = "\<lparr> jroot = abs_path (u_root u), records = recs \<rparr>" and ?l = "last recs"
  let ?Q = "\<lambda>_. resting (\<lambda>_. True) m0 u (u_from u) StateRolledBack"
  have l: "recs \<noteq> []" "of_update u ?l" "good_update u" using inv by (auto simp: update_inv_def journal_at_def)
  have n: "FromVersion ?l = u_from u" using l by (simp add: of_update_def)
  have op: "triple (tab m0 f) (Open_journal (abs_path (u_root u))) (\<lambda>j w. tab m0 f w \<and> j = ?j) (\<lambda>_ _. False)"
    using nh by (intro triple_weaken [OF Open_plain [OF not_hooked_honest inv]]) auto
  have rb: "triple (tab m0 f) (rollback (u_pf u) (abs_path (u_root u)) ?j ?l mg) ?Q (\<lambda>_ _. False)" if "polite m0 u False mg" for mg
    unfolding rollback_split [OF l(2)]
  proof (rule triple_bind [OF restore_moves [OF inv nh cs dir n]])
    show "triple (kept (\<lambda>_. True) m0 u (u_from u) recs) (rollback_tail u ?j ?l mg) ?Q (\<lambda>_ _. False)"
      using st nh by (intro triple_weaken [OF tail_kept [where C = "\<lambda>_. True", OF l(3,2) refl _ _ _ that]]) (auto elim: resting_mono)
  qed
  show ?thesis
    unfolding Rollback_def
    by (rule triple_bind [OF op], rule triple_fact) (use l st rb [OF pol] rb [OF polite_None] in \<open>auto simp: Last_def\<close>)
qed

section \<open>The report\<close>

text \<open>The host's migrator can always undo.\<close>

definition can_undo :: "string list \<Rightarrow> 'h Updater \<Rightarrow> bool" where
  "can_undo rs U \<longleftrightarrow> (\<forall>mg c m0 f. up_migrate U = Some mg \<longrightarrow> triple (tab m0 f) (Rollback_hook mg c) (\<lambda>_. besides m0 rs f) (\<lambda>_ _. False))"

lemma can_undo_polite: "can_undo (u_root u) U \<Longrightarrow> polite m0 u False (up_migrate U)"
  by (simp add: can_undo_def polite_def)

text \<open>\<open>told\<close>: what the reported result says of the journal and of \<open>current\<close>.\<close>

definition told :: "string \<Rightarrow> string \<Rightarrow> string \<Rightarrow> (string \<Rightarrow> memNode option) \<Rightarrow> bool" where
  "told result v w g \<longleftrightarrow>
     (result = ''committed'' \<longrightarrow> (\<exists>p recs. update_inv p w recs g \<and> u_to p = w \<and> State (last recs) = StateCommitted)) \<and>
     (result = ''rolled_back'' \<longrightarrow> (\<exists>p recs. update_inv p v recs g \<and> u_from p = v \<and> u_to p = w \<and> State (last recs) = StateRolledBack))"

lemma snap_dir:
  assumes inv: "update_inv u v recs f" and d: "u_snap u (version_key_of u (u_from u)) = Some n" "isDir n" "\<not> isSymlink n" and f: "u_from u \<noteq> []"
  shows "dirs_tab f (versions_dir u @ [u_from u])"
proof -
  have "f (version_key_of u (u_from u)) = Some n" using inv d f by (simp add: update_inv_def trees_ok_def)
  then show ?thesis using dirs_tab_snoc [OF inv_parts(3) [OF inv]] d update_simples(3) [OF inv_parts(1) [OF inv] f] by blast
qed

context materializer
begin

lemma settle_release_ends:
  assumes inv: "update_inv u v recs f" and fl: "in_flight u v recs" and h: "\<not> hooked m0"
    and rec: "record_ok u f" "clear_scratch m0 f (current_key u)"
    and o: "offered u U d" and T: "up_trust U = T" and un: "can_undo (u_root u) U"
    and sn: "u_snap u = f" and dir: "v \<noteq> [] \<longrightarrow> (\<exists>n. f (version_key_of u v) = Some n \<and> isDir n \<and> \<not> isSymlink n)"
  shows "triple (tab m0 f) (settle_release U ctx d frm)
    (\<lambda>(result, phase, held, err) m. survived authentic u d v f err (node_at m) \<and> told result v (ds_version d) (node_at m) \<and>
       result \<in> {''committed'', ''rolled_back'', ''deferred'', ''aborted''} \<and> (result = ''committed'' \<longleftrightarrow> err = None)) (\<lambda>_ _. False)"
    (is "triple _ _ ?Q _")
proof -
  let ?p = "next_update u d v"
  have v: "v = u_from u \<or> v = u_to u" by (rule in_flight_ends [OF fl])
  have self: "u\<lparr>u_snap := f\<rparr> = u" using sn by (cases u) simp
  have sv: "survived authentic u d v f err (node_at m)" if "attempted authentic True m0 u d v (ph, held, err) m" for ph held err m
    using attempted_survived [where u = u and f = f and v = v] that v unfolding self .
  have tx: "triple (tab m0 f) (apply_txn U ctx d frm) (attempted authentic True m0 u d v) (\<lambda>_ _. False)"
    using h rec(2) by (intro apply_txn_ends [OF inv fl not_hooked_honest [OF h] rec(1) _ o T]) auto
  have U: "up_root U = abs_path (u_root u)" "up_form U = u_pf u" using o by (simp_all add: offered_def)
  have stay: "?Q (''aborted'', ph, held, Some e) m \<and> ?Q (''deferred'', ph, held, Some e) m"
    if "attempted authentic True m0 u d v (ph, held, Some e) m" for ph held e m
    using sv [OF that] by (simp add: told_def)
  have undone: "triple (attempted authentic True m0 u d v (ph, held, Some e)) (undo U ph e)
      (\<lambda>x. ?Q (fst x, ph, held, Some (snd x))) (\<lambda>_ _. False)" if ne: "\<not> is_err ErrDeferred e" for ph held e
  proof (cases "phaseIsTransactional ph")
    case False
    then show ?thesis using stay by (auto simp: undo_def intro!: triple_ret)
  next
    case True
    have "\<not> phaseIsTransactional PhaseCheck" by code_simp
    then have np: "ph \<noteq> PhaseCheck" using True by blast
    have one: "triple (\<lambda>m. tab m0 g m) (undo U ph e) (\<lambda>x. ?Q (fst x, ph, held, Some (snd x))) (\<lambda>_ _. False)"
      if s: "sound authentic (elems (ds_files d)) ?p w rs g" "clear_scratch m0 g (current_key u)" "v \<noteq> ds_version d"
        and st: "State (last rs) \<in> {StateBegin, StateStaged, StateMigrated, StateSwapped}" for g w rs
    proof -
      let ?pg = "?p\<lparr>u_snap := g\<rparr>"
      have iv: "update_inv ?pg w rs g" using s(1) by (simp add: sound_def)
      have same: "g q = f q" if "v \<noteq> []" "in_tree (version_key_of u v) q" for q
        using s(1) st that sn by (auto simp: sound_def)
      have dr: "u_from ?pg \<noteq> [] \<longrightarrow> dirs_tab g (versions_dir ?pg @ [u_from ?pg])"
        using snap_dir [OF iv] dir same [OF _ in_tree_self] by auto
      have rb: "triple (tab m0 g) (Rollback (up_form U) (up_root U) (up_migrate U))
          (\<lambda>_. resting (\<lambda>_. True) m0 ?pg (u_from ?pg) StateRolledBack) (\<lambda>_ _. False)"
        using Rollback_settles [OF iv st h _ dr can_undo_polite] s(2) un U by simp
      have "?Q (''rolled_back'', ph, held, Some e) m" if r: "resting (\<lambda>_. True) m0 ?pg v StateRolledBack m" for m
      proof -
        obtain rs' where k: "update_inv ?pg v rs' (node_at m)" "State (last rs') = StateRolledBack"
          using r by (auto simp: resting_def kept_def tab_def)
        have "node_at m q = f q" if "v \<noteq> []" "in_tree (version_key_of u v) q" for q
          using inv_tree [OF k(1), of q] same that by simp
        then have "survived authentic u d v f (Some e) (node_at m)"
          unfolding survived_def using k by (intro exI [of _ ?pg] exI [of _ v] exI [of _ rs']) (auto simp: in_flight_def pointer_ok_def)
        moreover have "told ''rolled_back'' v (ds_version d) (node_at m)"
          unfolding told_def using k by (auto intro!: exI [of _ ?pg] exI [of _ rs'])
        ultimately show ?thesis by simp
      qed
      then show ?thesis
        unfolding undo_def if_P [OF True] by (intro triple_attempt [OF rb]) (auto simp: triple_def ret_def)
    qed
    have "\<exists>g w rs. tab m0 g m \<and> sound authentic (elems (ds_files d)) ?p w rs g \<and> clear_scratch m0 g (current_key u) \<and> v \<noteq> ds_version d \<and>
        State (last rs) \<in> {StateBegin, StateStaged, StateMigrated, StateSwapped}"
      if "attempted authentic True m0 u d v (ph, held, Some e) m" for m
      using that ne np h by (auto simp: attempted_def begun_def)
    moreover have "triple (\<lambda>m. \<exists>g w rs. tab m0 g m \<and> (sound authentic (elems (ds_files d)) ?p w rs g \<and> clear_scratch m0 g (current_key u) \<and>
        v \<noteq> ds_version d \<and> State (last rs) \<in> {StateBegin, StateStaged, StateMigrated, StateSwapped})) (undo U ph e)
      (\<lambda>x. ?Q (fst x, ph, held, Some (snd x))) (\<lambda>_ _. False)"
      by (rule triple_Ex, rule triple_Ex, rule triple_Ex, rule triple_fact) (use one in blast)
    ultimately show ?thesis by (rule triple_pre [rotated])
  qed
  show ?thesis
    unfolding settle_release_def
  proof (rule triple_bind [OF tx])
    fix x :: verdict
    obtain ph held err where x: "x = (ph, held, err)" by (cases x)
    show "triple (attempted authentic True m0 u d v x) (case x of (phase, held, err) \<Rightarrow>
        case err of None \<Rightarrow> ret (''committed'', [], held, None)
        | Some e \<Rightarrow> if is_err ErrDeferred e then ret (''deferred'', phase, held, Some e)
            else bind (undo U phase e) (\<lambda>(result, e'). ret (result, phase, held, Some e'))) ?Q (\<lambda>_ _. False)"
    proof (cases err)
      case None
      have "?Q (''committed'', [], held, None) m" if a: "attempted authentic True m0 u d v (ph, held, None) m" for m
      proof -
        obtain g w rs where s: "tab m0 g m" "sound authentic (elems (ds_files d)) ?p w rs g" "State (last rs) = StateCommitted"
          using a by (auto simp: attempted_def begun_def)
        then have "w = ds_version d" by (auto simp: sound_def in_flight_def pointer_ok_def)
        then have "told ''committed'' v (ds_version d) (node_at m)"
          using s unfolding told_def sound_def tab_def by (auto intro!: exI [of _ "?p\<lparr>u_snap := g\<rparr>"] exI [of _ rs])
        then show ?thesis using sv [OF a] by simp
      qed
      then show ?thesis unfolding x None by (auto intro!: triple_ret)
    next
      case (Some e)
      have "triple (attempted authentic True m0 u d v (ph, held, Some e)) (bind (undo U ph e) (\<lambda>(result, e'). ret (result, ph, held, Some e')))
          ?Q (\<lambda>_ _. False)" if "\<not> is_err ErrDeferred e"
        by (rule triple_bind [OF undone [OF that]]) (auto simp: triple_def ret_def)
      then show ?thesis using stay unfolding x Some by (auto intro!: triple_ret)
    qed
  qed
qed

end



end
