(* ===== verification/ConfigLaws.thy ===== *)
theory ConfigLaws
  imports UpdateSample
begin

text \<open>
  Which configurations an updater takes: the well-formed ones, once the defaults are filled in.
\<close>

section \<open>Well-formed configurations\<close>

text \<open>Zero stands for the default.\<close>

definition host_defaults :: "HostProbation \<Rightarrow> HostProbation" where
  "host_defaults h = (if (hp_attempts h \<noteq> 0 \<or> hp_follow h) \<and> hp_restarts h = 0 then h\<lparr>hp_restarts := DefaultProbationRestarts\<rparr> else h)"

definition policy_defaults :: "UpdaterPolicy \<Rightarrow> UpdaterPolicy" where
  "policy_defaults p =
     p\<lparr>pol_retain := (if pol_retain p = 0 then MinRetain else pol_retain p),
       pol_timeout := (if pol_timeout p = 0 then DefaultQuiesceTimeout else pol_timeout p),
       pol_probation := host_defaults (pol_probation p)\<rparr>"

text \<open>A probation that asks for nothing, or for starts and restarts in bounds, of an updater that installs without elevation.\<close>

definition bounded_probation :: "HostProbation \<Rightarrow> bool" where
  "bounded_probation h \<longleftrightarrow> 0 \<le> hp_attempts h \<and> hp_attempts h \<le> MaxProbationAttempts \<and>
     (hp_max h = 0 \<or> hp_attempts h \<le> hp_max h) \<and> 0 < hp_restarts h \<and> hp_restarts h \<le> MaxProbationRestarts"

definition host_formed :: "int \<Rightarrow> bool \<Rightarrow> HostProbation \<Rightarrow> bool" where
  "host_formed elevation resolves h \<longleftrightarrow> 0 \<le> hp_max h \<and> hp_max h \<le> MaxProbationAttempts \<and>
     (hp_attempts h = 0 \<and> \<not> hp_follow h \<or>
      bounded_probation h \<and> elevation = ElevationNone \<and> (hp_follow h \<longrightarrow> resolves))"

definition policy_formed :: "bool \<Rightarrow> bool \<Rightarrow> UpdaterPolicy \<Rightarrow> bool" where
  "policy_formed elevates resolves p \<longleftrightarrow>
     MinRetain \<le> pol_retain p \<and> 0 < pol_timeout p \<and> pol_onBusy p \<in> {BusyAbort, BusyDeferToRestart, BusyForce} \<and>
     (pol_elevation p = ElevationNone \<or> pol_elevation p \<in> {ElevationInteractive, ElevationService} \<and> elevates) \<and>
     host_formed (pol_elevation p) resolves (pol_probation p)"

definition well_configured :: "'h Updater \<Rightarrow> bool" where
  "well_configured u \<longleftrightarrow> up_root u \<noteq> [] \<and> u_channel (up_client u) \<noteq> [] \<and> Launcher_Validate (up_launcher u) = Inr () \<and>
     policy_formed (up_elevator u \<noteq> None) (up_policies u \<noteq> None) (up_policy u)"

section \<open>What is accepted\<close>

lemma config_errors:
  shows "validate_host el rs h = Inl e \<Longrightarrow> is_err ErrConfig e" and "New_policy o' = Inl e \<Longrightarrow> is_err ErrConfig e"
    and "New o' = Inl e \<Longrightarrow> is_err ErrConfig e"
proof -
  have v: "is_err ErrConfig e" if "validate_host el rs h = Inl e" for el rs h e
    using that by (auto simp: validate_host_def Let_def split: if_splits)
  then show "validate_host el rs h = Inl e \<Longrightarrow> is_err ErrConfig e" .
  have p: "is_err ErrConfig e" if "New_policy o' = Inl e" for e
    using that v by (auto simp: New_policy_def Let_def split: if_splits sum.splits)
  then show "New_policy o' = Inl e \<Longrightarrow> is_err ErrConfig e" .
  show "New o' = Inl e \<Longrightarrow> is_err ErrConfig e"
    using p by (auto simp: New_def split: if_splits sum.splits)
qed

lemma default_restarts: "0 < DefaultProbationRestarts" "DefaultProbationRestarts \<le> MaxProbationRestarts"
  by (simp_all add: DefaultProbationRestarts_def MaxProbationRestarts_def)

lemma validate_host_exact:
  "validate_host el rs h = (if host_formed el rs (host_defaults h) then Inr (host_defaults h) else Inl [ErrConfig])"
proof (cases "hp_attempts h = 0 \<and> \<not> hp_follow h")
  case True
  then show ?thesis by (auto simp: validate_host_def host_formed_def host_defaults_def)
next
  case False
  then show ?thesis
    using default_restarts
    by (cases "hp_restarts h = 0") (auto simp: validate_host_def Let_def bounded_probation_def host_formed_def host_defaults_def)
qed

lemma New_policy_exact:
  "New_policy o' = (if policy_formed (up_elevator o' \<noteq> None) (up_policies o' \<noteq> None) (policy_defaults (up_policy o'))
     then Inr (policy_defaults (up_policy o')) else Inl [ErrConfig])"
proof -
  have k: "0 < MinRetain" "0 < DefaultQuiesceTimeout" by (simp_all add: MinRetain_def DefaultQuiesceTimeout_def)
  show ?thesis
    using k unfolding New_policy_def validate_host_exact Let_def policy_formed_def policy_defaults_def
    by auto
qed


text \<open>The sample updater is accepted, with the default time to wait; retaining a single version is refused.\<close>

abbreviation forgetful_updater :: "unit Updater" where
  "forgetful_updater \<equiv> sample_updater\<lparr>up_policy := (up_policy sample_updater)\<lparr>pol_retain := 1\<rparr>\<rparr>"


end
