(* ===== verification/Spec2Isabelle.thy ===== *)
theory Spec2Isabelle
  imports Safepath Semver Chain RollbackLaws ReleaseLaws ReleasePaths LaunchSafe DeltaLaws RouteLaws PlannerLaws
    StageLaws StageTrust LaunchStart ClockLaws UpdateUndo ConfigLaws
begin

text \<open>
  A verification of idunn, an installer and updater for desktop applications written in Go.

  \<^bold>\<open>The program.\<close>  An application is installed below a root directory: \<open>versions/<v>\<close> holds one complete
  tree per version, \<open>current\<close> names the version that runs, and \<open>.updater\<close> holds the bookkeeping.  An update
  reads signed release documents (\<open>core/release\<close>), stages a new version tree (\<open>core/stage\<close>), moves \<open>current\<close>
  (\<open>internal/layout\<close>) and records every step in a journal (\<open>core/txn\<close>), so that a crash at any point can be
  recovered from.  At each start of the application the launcher (\<open>core/launch\<close>) finishes what was left behind
  and watches over a new version that has to show it works.  Everything that touches the disk goes through the
  interface of \<open>core/fsx\<close>, and all of it is modelled over the in-memory implementation of that interface,
  \<open>core/fsx/mem.go\<close>, which has a failure hook: any call can be made to fail, and a crash is a hook that fails
  every call from some point on.  Statements about "whatever calls fail" quantify over all such hooks.

  \<^bold>\<open>Conventions\<close> (\<open>Prelude\<close>, \<open>Triple\<close>).  Strings and byte slices are lists of 8-bit characters; errors are the
  lists of sentinels \<open>errors.Is\<close> finds; an effectful function maps a world to a result and a new world, and
  \<open>bind\<close>, \<open>wrap\<close>, \<open>attempt\<close> and \<open>ignore\<close> are the ways the sources treat an error.  Go's \<open>int\<close> is \<^typ>\<open>int\<close> with its
  range checked where it is read, modes are 32-bit words.  \<open>triple P p Q E\<close> gives the outcome of a program with
  and without an error.  Loops are structural recursions or come with a termination proof; no fuel is
  used beyond the lengths of the inputs.

  \<^bold>\<open>Components\<close>, with the theories that model them first and those about them second.
  \<^item> Paths (\<open>core/fsx/path.go\<close>, \<open>internal/safepath\<close>): \<open>GoPath\<close>, \<open>Safepath\<close>.  A destination that is accepted stays
    below the root it is joined to.
  \<^item> Versions and release walks (\<open>core/release/semver.go\<close>, \<open>chain.go\<close>): \<open>Semver\<close>, \<open>Chain\<close>.  The comparison is
    a total preorder (the locale \<open>version_order\<close>), over which the walk between two releases is characterised.
  \<^item> The filesystem (\<open>core/fsx/mem.go\<close>, \<open>fsx.go\<close>): \<open>Fsx\<close>; \<open>FsxLaws\<close>, \<open>FsxWrite\<close>.  Every reachable state is a
    tree; an atomic write leaves the old file or the complete new one.
  \<^item> The part of \<open>encoding/json\<close> the sources use: \<open>Json\<close>, \<open>JsonValue\<close>, with the round trip of the printer.
  \<^item> Release documents (\<open>core/release/descriptor.go\<close>, \<open>parse.go\<close>, \<open>channel.go\<close>, \<open>policy.go\<close>): \<open>Release\<close>;
    \<open>ReleaseLaws\<close>, \<open>ReleasePaths\<close>.  What is accepted is well formed and what is well formed is accepted.
  \<^item> The install layout (\<open>internal/layout/layout.go\<close>, \<open>state.go\<close>, \<open>pointer*.go\<close>, \<open>launcher.go\<close>): \<open>Layout\<close>;
    \<open>LayoutLaws\<close>, \<open>Pointer\<close>.  Stored documents share one contract, the locale \<open>document\<close>, which the install
    state and the probation record instantiate; the two forms of \<open>current\<close>, a link and a file, share the locale
    \<open>pointer_form\<close>.
  \<^item> The journal and recovery (\<open>core/txn/journal.go\<close>, \<open>recover.go\<close>): \<open>Journal\<close>, \<open>Recover\<close>; \<open>JournalLaws\<close>, \<open>Trees\<close>,
    \<open>RecoverLaws\<close>, \<open>RecoverSafe\<close>, \<open>RollbackLaws\<close>, and a concrete install in \<open>RecoverSample\<close>.  \<open>update_inv\<close> is the
    invariant of an install tree with an update in progress; recovery keeps it whatever fails and ends, when
    nothing fails, with the old version or the new one complete.
  \<^item> Probation (\<open>internal/layout/probation.go\<close>, \<open>probation_outcome.go\<close>): \<open>Sanitize\<close>, \<open>Probation\<close>; \<open>ProbationLaws\<close>.
  \<^item> Swap, garbage collection and the checked directories of staging (\<open>core/stage/stage.go\<close>): \<open>Stage\<close>;
    \<open>StageLaws\<close> says which versions are collected.
  \<^item> The trust client (\<open>core/trust/trust.go\<close>, \<open>stream.go\<close>) over go-tuf: \<open>Trust\<close>; \<open>TrustLaws\<close> shows that its
    streaming check is exact and that the releases it hands out were read from signed bytes.
  \<^item> Staging (\<open>Stage\<close> of \<open>core/stage/stage.go\<close>, \<open>reuse.go\<close>, \<open>patched\<close> of \<open>route.go\<close>): \<open>Staging\<close>; \<open>StagingTree\<close>,
    \<open>StagingLaws\<close>, \<open>StagingRun\<close>, \<open>StageSafe\<close>.  The locale \<open>materializer\<close> is the contract of the source of payloads;
    inside it \<open>Stage\<close> is shown to put whole authentic trees in place or to change nothing that counts.
    \<open>StageTrust\<close> interprets the locale on the trust client.
  \<^item> Delta patches (\<open>internal/delta\<close> writes them, \<open>core/stage/patch.go\<close> reads them): \<open>Patch\<close>, \<open>Delta\<close>; \<open>PatchLaws\<close>,
    \<open>DeltaIndex\<close>, \<open>DeltaLaws\<close>.  The reader never produces more than it was told to, and it turns back what the
    generator writes; the generator's table of blocks is a map and its rolling hash the hash of the window.
  \<^item> The choice of patches (\<open>core/stage/route.go\<close>): \<open>Route\<close>; \<open>RouteLaws\<close> shows it is a shortest path.
  \<^item> The updater's plan (\<open>core/updater\<close>: \<open>applicable\<close>, \<open>steps\<close>, \<open>route\<close>): \<open>Planner\<close>; \<open>PlannerLaws\<close> shows that
    the walk is allowed and that none is shorter.
  \<^item> The launcher's probation (\<open>core/launch/probation.go\<close>): \<open>LaunchProbation\<close>; \<open>LaunchSite\<close> has the abstract
    specification \<open>start_spec\<close>, the contract of an installation as the locale \<open>launch_site\<close>, and the proof
    that the launcher implements the one over the other; \<open>SiteTab\<close> and \<open>LaunchLaws\<close> show that an install tree
    has the contract, and \<open>LaunchSafe\<close> interprets the locale on it: probation is bounded, a rollback that is
    interrupted any number of times gets to its end, and reports do what they say.  \<open>LaunchSample\<close> is a concrete
    install.

  \<^item> The replacement of the launcher and a start of the application (\<open>internal/launcherfile\<close>, \<open>core/launch/launch.go\<close>,
    \<open>self.go\<close>): \<open>Launcherfile\<close>, \<open>LaunchStart\<close>.
  \<^item> The floor under the clock (\<open>core/timefloor\<close>): \<open>Timefloor\<close>; \<open>ClockLaws\<close> shows that it is a ratchet.
  \<^item> The updater (\<open>core/updater\<close>): \<open>Updater\<close> has its configuration, its reports and what it asks before an update,
    \<open>Apply\<close> the transaction, what surrounds it, and the two sides of an elevated update.  \<open>UpdateSteps\<close> (the first
    record and staging), \<open>UpdateHost\<close> (what only reads, and the hooks), \<open>UpdateSwap\<close> (the swap and the collection) and
    \<open>UpdateSafe\<close> (the transaction) follow \<open>update_inv\<close> through an update whichever calls fail; \<open>UpdateLaws\<close> puts recovery
    and what is refused before it, \<open>UpdateUndo\<close> shows
    that what is reported of an update is what happened, and \<open>UpdateSample\<close> is a concrete one; \<open>ConfigLaws\<close> says which
    configurations \<open>New\<close> takes.  Each step keeps \<open>update_inv\<close> together with a
    condition \<open>C\<close> of its own (\<open>kept C\<close>); \<open>sturdy\<close> and \<open>frail\<close> say which conditions a step may carry along.  \<open>Foreign\<close> has the
    names in \<open>.updater\<close> the journal does not use.

  \<^bold>\<open>Parameters.\<close>  The hooks of the host (migrator, lock, checks, prompt, coordinator, reporter) are the host's code
  and act on the same world; theorems that involve them assume that they leave the install tree alone (\<open>polite\<close>,
  \<open>quiet_host\<close>, \<open>host_ok\<close>, and \<open>can_undo\<close> of a migrator that can always undo).  \<open>sort.Slice\<close> is a parameter of \<open>GC\<close>, since it may order equal versions as it likes.  go-tuf is the
  record \<open>tuf\<close> of what the trust client calls of it, with a world of its own.  Staging and the updater read the clock,
  the context and that world as functions of the number of filesystem calls made so far, so that they may change
  between any two calls.  \<open>compress/flate\<close> is a parameter of the patches, and what \<open>encoding/json\<close> makes of a document
  with an instant in it is one of the clock floor and of the pending outcomes.  The pointer form, the platform, the way a
  launcher is replaced and the clock are those of the build and of the process; the refresh of OS integrations and the
  elevator are parameters of the updater.

  \<^bold>\<open>Not modelled.\<close>  go-tuf and everything cryptographic, the trust anchor and the HTTP fetcher (\<open>core/anchor\<close>,
  \<open>core/fetch\<close>), progress events, process control around a start (\<open>core/launch/relaunch*.go\<close>, \<open>waitpid*.go\<close>),
  installer, uninstall, OS integration, the transports of privilege elevation, the packer and the command line tools,
  which are input, output and calls of the operating system; the operating system's filesystem, of which only the
  interface is used; locks between goroutines.
\<close>

end
